(* ===== verification/Prelude.thy ===== *)
theory Prelude
  imports Complex_Main "HOL-Library.Word" "HOL-Library.Sublist"
begin

text \<open>
  Shared vocabulary of the development: the Rust integer types, the operations of
  Rust's \<open>str\<close> and integer parsers that the service calls, checked and saturating
  arithmetic, and the generic lemmas on lists, options and words that the component theories use.

  A Rust \<open>&str\<close> is its UTF-8 byte sequence; a HOL \<^typ>\<open>char\<close> is a byte, so
  \<^typ>\<open>string\<close> models \<open>&str\<close> and \<open>length\<close> is \<open>str::len\<close>. Unsigned integers whose
  wrap-around matters are words; signed integers are \<^typ>\<open>int\<close> with the saturation and the
  range checks of the source written out.
\<close>

unbundle bit_operations_syntax

section \<open>Types\<close>

type_synonym u8 = "8 word"
type_synonym u16 = "16 word"
type_synonym u32 = "32 word"
type_synonym u64 = "64 word"
type_synonym usize = nat
type_synonym i32 = int
type_synonym i64 = int

named_theorems rust_defs \<open>definitions of the modelled standard-library operations\<close>

section \<open>Integers\<close>

definition i32_min :: i32 where "i32_min = - (2 ^ 31)"
definition i32_max :: i32 where "i32_max = 2 ^ 31 - 1"
definition i64_min :: i64 where "i64_min = - (2 ^ 63)"
definition i64_max :: i64 where "i64_max = 2 ^ 63 - 1"

definition in_i32 :: "int \<Rightarrow> bool" where "in_i32 x \<longleftrightarrow> i32_min \<le> x \<and> x \<le> i32_max"
definition in_i64 :: "int \<Rightarrow> bool" where "in_i64 x \<longleftrightarrow> i64_min \<le> x \<and> x \<le> i64_max"

text \<open>\<open>i64::saturating_mul\<close> and \<open>Ord::clamp\<close>.\<close>

definition sat_i64 :: "int \<Rightarrow> i64" where
  "sat_i64 x = max i64_min (min i64_max x)"

definition saturating_mul_i64 :: "i64 \<Rightarrow> i64 \<Rightarrow> i64" where
  "saturating_mul_i64 a b = sat_i64 (a * b)"

definition clamp :: "'a::linorder \<Rightarrow> 'a \<Rightarrow> 'a \<Rightarrow> 'a" where
  "clamp x lo hi = (if x < lo then lo else if hi < x then hi else x)"

text \<open>Saturating subtraction and addition of the unsigned types.\<close>

definition saturating_sub :: "'a::len word \<Rightarrow> 'a word \<Rightarrow> 'a word" where
  "saturating_sub a b = (if b \<le> a then a - b else 0)"

definition saturating_add :: "'a::len word \<Rightarrow> 'a word \<Rightarrow> 'a word" where
  "saturating_add a b = (if unat a + unat b < 2 ^ LENGTH('a) then a + b else - 1)"

lemmas [rust_defs] =
  i32_min_def i32_max_def i64_min_def i64_max_def in_i32_def in_i64_def sat_i64_def
  saturating_mul_i64_def clamp_def saturating_sub_def saturating_add_def

lemma sat_i64_range: "in_i64 (sat_i64 x)"
  by (simp add: rust_defs)

lemma sat_i64_id: "in_i64 x \<Longrightarrow> sat_i64 x = x"
  by (simp add: rust_defs)

lemma sat_i64_mono: "x \<le> y \<Longrightarrow> sat_i64 x \<le> sat_i64 y"
  by (simp add: rust_defs)

lemma sat_i64_nonneg: "0 \<le> x \<Longrightarrow> sat_i64 x = min i64_max x \<and> 0 \<le> min i64_max x"
  by (simp add: rust_defs)

lemma clamp_range: "lo \<le> hi \<Longrightarrow> lo \<le> clamp x lo hi \<and> clamp x lo hi \<le> hi"
  by (auto simp: clamp_def)

lemma unat_saturating_sub [simp]: "unat (saturating_sub a b) = unat a - unat b"
  by (simp add: saturating_sub_def unat_sub_if' word_le_nat_alt)

lemma unat_word_max: "unat (- 1 :: 'a::len word) = 2 ^ LENGTH('a) - 1"
  by (simp add: unsigned_minus_1_eq_mask mask_eq_exp_minus_1)

lemma unat_saturating_add:
  "unat (saturating_add a (b :: 'a::len word)) = min (unat a + unat b) (2 ^ LENGTH('a) - 1)"
  using unsigned_less [of a] unsigned_less [of b]
  by (auto simp: saturating_add_def unat_word_ariths unat_word_max)

text \<open>Adding one to a counter that has room left does not wrap.\<close>

lemma unat_Suc_word:
  "unat (x :: 'a::len word) + 1 < 2 ^ LENGTH('a) \<Longrightarrow> unat (x + 1) = unat x + 1"
  by (simp add: unat_word_ariths)

lemma unat_inc_below:
  assumes "(a :: 'a::len word) < m"
  shows "unat (a + 1) = unat a + 1 \<and> unat a < unat m"
proof -
  have "unat a < unat m"
    using assms by (simp add: word_less_nat_alt)
  moreover have "unat m < 2 ^ LENGTH('a)"
    by (rule unsigned_less)
  ultimately show ?thesis
    using unat_Suc_word [of a] by linarith
qed

lemma unat_power_small:
  assumes "(b :: nat) ^ n < 2 ^ LENGTH('a)"
  shows "unat ((of_nat b :: 'a::len word) ^ n) = b ^ n"
proof -
  have "unat ((of_nat b :: 'a word) ^ n) = unat (of_nat (b ^ n) :: 'a word)"
    by simp
  also have "\<dots> = b ^ n"
    using assms by (simp only: unat_of_nat mod_less)
  finally show ?thesis .
qed

text \<open>The cast \<open>as i64\<close> keeps a value below \<open>2^63\<close>.\<close>

lemma sint_u64_small: 
  assumes "unat (w :: u64) < 2 ^ 63"
  shows "sint w = int (unat w)"
proof -
  have "int (unat w) < int (2 ^ 63)"
    using assms by (simp only: of_nat_less_iff)
  then have "uint w < 2 ^ 63"
    by simp
  moreover have "- (2 ^ 63) \<le> uint w"
    by (rule order_trans [OF _ uint_ge_0]) simp
  ultimately show ?thesis
    using signed_take_bit_int_eq_self [of 63 "uint w"] by (simp add: sint_uint)
qed

text \<open>Incrementing, exclusive or and bytes on words.\<close>

lemma upt_glue: "a \<le> b \<Longrightarrow> b \<le> c \<Longrightarrow> [a ..< b] @ [b ..< c] = [a ..< c]"
  using upt_add_eq_append [of a b "c - b"] by simp

lemma u32_bound: "unat (x :: u32) < 4294967296"
  using unsigned_less [of x] by simp

lemma word_less_inc: assumes "(x :: 'a::len word) \<noteq> - 1" shows "x < x + 1"
proof -
  have "unat x \<noteq> unat (- 1 :: 'a word)" using assms by (simp add: word_unat_eq_iff)
  moreover have "unat x < 2 ^ LENGTH('a)" by (rule unsigned_less)
  ultimately have "unat x + 1 < 2 ^ LENGTH('a)" unfolding unat_word_max by linarith
  then show ?thesis by (simp add: word_less_nat_alt unat_Suc_word)
qed

lemma xor_cancel: "xor a c = xor b c \<longleftrightarrow> a = b" for a b c :: "'a::len word"
proof
  assume "xor a c = xor b c"
  then have "xor (xor a c) c = xor (xor b c) c" by (rule arg_cong)
  then show "a = b" by (simp add: xor.assoc)
qed simp

lemma u64_of_char_inj: "(of_char c :: u64) = of_char d \<longleftrightarrow> c = d"
proof
  assume "(of_char c :: u64) = of_char d"
  then have "unat (of_char c :: u64) = unat (of_char d :: u64)" by simp
  moreover have "unat (of_char x :: u64) = (of_char x :: nat)" for x
  proof -
    have "(of_char x :: u64) = of_nat (of_char x)" by (rule of_nat_of_char [symmetric])
    moreover have "(of_char x :: nat) < 256" by simp
    then have "(of_char x :: nat) mod 2 ^ 64 = of_char x" by (intro mod_less) (erule less_trans, simp)
    ultimately show ?thesis by (simp only: unat_of_nat) simp
  qed
  ultimately show "c = d" by simp
qed simp

section \<open>Strings\<close>

definition starts_with :: "string \<Rightarrow> string \<Rightarrow> bool" where
  "starts_with s p \<longleftrightarrow> take (length p) s = p"

definition ends_with :: "string \<Rightarrow> string \<Rightarrow> bool" where
  "ends_with s p \<longleftrightarrow> length p \<le> length s \<and> drop (length s - length p) s = p"

text \<open>\<open>str::split_once\<close>, \<open>str::split\<close> on a one-byte pattern and \<open>slice::join\<close>.\<close>

fun split_once :: "char \<Rightarrow> string \<Rightarrow> (string \<times> string) option" where
  "split_once c [] = None"
| "split_once c (x # xs) =
     (if x = c then Some ([], xs)
      else map_option (\<lambda>(a, b). (x # a, b)) (split_once c xs))"

fun split_on :: "char \<Rightarrow> string \<Rightarrow> string list" where
  "split_on c [] = [[]]"
| "split_on c (x # xs) =
     (if x = c then [] # split_on c xs
      else (case split_on c xs of [] \<Rightarrow> [[x]] | p # ps \<Rightarrow> (x # p) # ps))"

fun join :: "string \<Rightarrow> string list \<Rightarrow> string" where
  "join sep [] = []"
| "join sep [x] = x"
| "join sep (x # y # xs) = x @ sep @ join sep (y # xs)"

text \<open>\<open>str::contains\<close> on a string pattern.\<close>

fun contains_str :: "string \<Rightarrow> string \<Rightarrow> bool" where
  "contains_str [] p \<longleftrightarrow> p = []"
| "contains_str (x # xs) p \<longleftrightarrow> starts_with (x # xs) p \<or> contains_str xs p"

definition ascii_lower :: "char \<Rightarrow> char" where
  "ascii_lower c = (if 65 \<le> (of_char c :: nat) \<and> (of_char c :: nat) \<le> 90
                    then char_of ((of_char c :: nat) + 32) else c)"

definition to_ascii_lowercase :: "string \<Rightarrow> string" where
  "to_ascii_lowercase s = map ascii_lower s"

definition is_ascii_digit :: "char \<Rightarrow> bool" where
  "is_ascii_digit c \<longleftrightarrow> 48 \<le> (of_char c :: nat) \<and> (of_char c :: nat) \<le> 57"

definition is_ascii_hexdigit :: "char \<Rightarrow> bool" where
  "is_ascii_hexdigit c \<longleftrightarrow> is_ascii_digit c
     \<or> (97 \<le> (of_char c :: nat) \<and> (of_char c :: nat) \<le> 102)
     \<or> (65 \<le> (of_char c :: nat) \<and> (of_char c :: nat) \<le> 70)"

text \<open>
  \<open>str::trim\<close> removes the characters with the Unicode property White_Space; these are their
  UTF-8 encodings.
\<close>

definition white_space :: "string list" where
  "white_space =
     [[CHR 0x09], [CHR 0x0A], [CHR 0x0B], [CHR 0x0C], [CHR 0x0D], [CHR 0x20],
      [CHR 0xC2, CHR 0x85], [CHR 0xC2, CHR 0xA0], [CHR 0xE1, CHR 0x9A, CHR 0x80],
      [CHR 0xE2, CHR 0x80, CHR 0x80], [CHR 0xE2, CHR 0x80, CHR 0x81],
      [CHR 0xE2, CHR 0x80, CHR 0x82], [CHR 0xE2, CHR 0x80, CHR 0x83],
      [CHR 0xE2, CHR 0x80, CHR 0x84], [CHR 0xE2, CHR 0x80, CHR 0x85],
      [CHR 0xE2, CHR 0x80, CHR 0x86], [CHR 0xE2, CHR 0x80, CHR 0x87],
      [CHR 0xE2, CHR 0x80, CHR 0x88], [CHR 0xE2, CHR 0x80, CHR 0x89],
      [CHR 0xE2, CHR 0x80, CHR 0x8A], [CHR 0xE2, CHR 0x80, CHR 0xA8],
      [CHR 0xE2, CHR 0x80, CHR 0xA9], [CHR 0xE2, CHR 0x80, CHR 0xAF],
      [CHR 0xE2, CHR 0x81, CHR 0x9F], [CHR 0xE3, CHR 0x80, CHR 0x80]]"

function strip_prefixes :: "string list \<Rightarrow> string \<Rightarrow> string" where
  "strip_prefixes ws s =
     (case find (\<lambda>w. w \<noteq> [] \<and> starts_with s w) ws of
        None \<Rightarrow> s | Some w \<Rightarrow> strip_prefixes ws (drop (length w) s))"
  by pat_completeness auto
termination
  by (relation "measure (\<lambda>(ws, s). length s)")
    (auto simp: find_Some_iff starts_with_def intro!: diff_less elim: contrapos_pp)

declare strip_prefixes.simps [simp del]

definition trim :: "string \<Rightarrow> string" where
  "trim s = rev (strip_prefixes (map rev white_space) (rev (strip_prefixes white_space s)))"

lemma starts_with_append [simp]: "starts_with (p @ s) p"
  by (simp add: starts_with_def)

lemma starts_with_iff: "starts_with s p \<longleftrightarrow> (\<exists>r. s = p @ r)"
  by (metis append_eq_conv_conj append_take_drop_id starts_with_def)

lemma ends_with_iff: "ends_with s p \<longleftrightarrow> (\<exists>r. s = r @ p)"
proof
  assume "ends_with s p"
  then have "s = take (length s - length p) s @ p"
    unfolding ends_with_def by (metis append_take_drop_id)
  then show "\<exists>r. s = r @ p" ..
qed (auto simp: ends_with_def)

lemma split_once_None: "split_once c s = None \<longleftrightarrow> c \<notin> set s"
  by (induction s) auto

lemma split_once_Some:
  "split_once c s = Some (a, b) \<longleftrightarrow> s = a @ c # b \<and> c \<notin> set a"
proof (induction s arbitrary: a)
  case Nil
  then show ?case by simp
next
  case (Cons x xs)
  then show ?case
    by (cases a) (auto simp: split_paired_all)
qed

lemma split_on_nonempty [simp]: "split_on c s \<noteq> []"
  by (induction s) (auto split: list.splits)

text \<open>Splitting and joining are inverse to each other.\<close>

lemma join_split_on: "join [c] (split_on c s) = s"
proof (induction s)
  case Nil
  then show ?case by simp
next
  case (Cons x xs)
  then show ?case
    by (cases "split_on c xs") (auto, metis join.simps(2,3) list.exhaust append_Cons)
qed

lemma split_on_no_sep: "c \<notin> set s \<Longrightarrow> split_on c s = [s]"
  by (induction s) auto

lemma split_on_append: "c \<notin> set a \<Longrightarrow> split_on c (a @ c # b) = a # split_on c b"
  by (induction a) auto

lemma contains_str_iff: "contains_str s p \<longleftrightarrow> (\<exists>a b. s = a @ p @ b)"
proof (induction s)
  case Nil
  then show ?case by simp
next
  case (Cons x xs)
  have "(\<exists>a b. x # xs = a @ p @ b) \<longleftrightarrow> (\<exists>b. x # xs = p @ b) \<or> (\<exists>a b. xs = a @ p @ b)"
    by (metis append_Cons append_Nil list.exhaust list.inject)
  then show ?case
    using Cons.IH by (simp add: starts_with_iff)
qed

lemma contains_str_part: "contains_str s (a @ p @ b) \<Longrightarrow> contains_str s p"
  unfolding contains_str_iff by (metis append.assoc)

section \<open>Parsing and printing of integers\<close>

text \<open>\<open>char::to_digit\<close>, and the digit loop of \<open>from_str_radix\<close>.\<close>

definition to_digit :: "nat \<Rightarrow> char \<Rightarrow> nat option" where
  "to_digit radix c =
     (let n = (of_char c :: nat);
          d = (if 48 \<le> n \<and> n \<le> 57 then Some (n - 48)
               else if 97 \<le> n \<and> n \<le> 122 then Some (n - 87)
               else if 65 \<le> n \<and> n \<le> 90 then Some (n - 55) else None)
      in case d of None \<Rightarrow> None | Some v \<Rightarrow> if v < radix then Some v else None)"

fun digits_value :: "nat \<Rightarrow> nat \<Rightarrow> string \<Rightarrow> nat option" where
  "digits_value radix acc [] = Some acc"
| "digits_value radix acc (c # cs) =
     (case to_digit radix c of None \<Rightarrow> None
      | Some d \<Rightarrow> digits_value radix (acc * radix + d) cs)"

text \<open>
  \<open>uN::from_str_radix\<close> for an unsigned type with \<open>bound\<close> values: an optional leading plus
  sign, at least one digit, nothing but digits, and a value that fits. \<open>parse_i32\<close> is
  \<open>str::parse::<i32>\<close>, with an optional sign.
\<close>

definition parse_uint :: "nat \<Rightarrow> nat \<Rightarrow> string \<Rightarrow> nat option" where
  "parse_uint radix bound s =
     (let ds = (case s of [] \<Rightarrow> [] | c # cs \<Rightarrow> if c = CHR ''+'' then cs else s)
      in if ds = [] then None
         else case digits_value radix 0 ds of None \<Rightarrow> None
              | Some n \<Rightarrow> if n < bound then Some n else None)"

definition parse_u8_radix :: "nat \<Rightarrow> string \<Rightarrow> nat option" where
  "parse_u8_radix radix s = parse_uint radix (2 ^ 8) s"

definition parse_u32 :: "string \<Rightarrow> nat option" where
  "parse_u32 s = parse_uint 10 (2 ^ 32) s"

definition parse_u64 :: "string \<Rightarrow> nat option" where
  "parse_u64 s = parse_uint 10 (2 ^ 64) s"

definition parse_i32 :: "string \<Rightarrow> i32 option" where
  "parse_i32 s =
     (let (neg, ds) = (case s of [] \<Rightarrow> (False, [])
                       | c # cs \<Rightarrow> if c = CHR ''+'' then (False, cs)
                                   else if c = CHR ''-'' then (True, cs) else (False, s))
      in if ds = [] then None
         else case digits_value 10 0 ds of None \<Rightarrow> None
              | Some n \<Rightarrow> let v = (if neg then - int n else int n)
                          in if in_i32 v then Some v else None)"

text \<open>\<open>Display\<close> of an unsigned integer.\<close>

definition digit_char :: "nat \<Rightarrow> char" where
  "digit_char d = char_of (48 + d)"

fun show_nat :: "nat \<Rightarrow> string" where
  "show_nat n = (if n < 10 then [digit_char n] else show_nat (n div 10) @ [digit_char (n mod 10)])"

declare show_nat.simps [simp del]

lemma of_char_digit_char [simp]: "d < 10 \<Longrightarrow> (of_char (digit_char d) :: nat) = 48 + d"
  by (simp add: digit_char_def of_char_of)

lemma to_digit_digit_char [simp]: "d < 10 \<Longrightarrow> to_digit 10 (digit_char d) = Some d"
  by (simp add: to_digit_def)

lemma digits_value_append:
  "digits_value r acc (xs @ ys) =
     (case digits_value r acc xs of None \<Rightarrow> None | Some n \<Rightarrow> digits_value r n ys)"
  by (induction xs arbitrary: acc) (auto split: option.splits)

lemma show_nat_nonempty [simp]: "show_nat n \<noteq> []"
  by (subst show_nat.simps) simp

lemma digits_value_show_nat: "digits_value 10 0 (show_nat n) = Some n"
proof (induction n rule: show_nat.induct)
  case (1 n)
  then show ?case
    by (subst show_nat.simps) (auto simp: digits_value_append)
qed

lemma digits_value_zeros: "digits_value 10 0 (replicate k (CHR ''0'') @ s) = digits_value 10 0 s"
  by (induction k) (auto simp: to_digit_def)

lemma show_nat_digits: "c \<in> set (show_nat n) \<Longrightarrow> is_ascii_digit c"
proof (induction n rule: show_nat.induct)
  case (1 n)
  then show ?case
    by (auto simp: show_nat.simps [of n] is_ascii_digit_def split: if_splits)
qed

lemma digit_not_sign: "is_ascii_digit c \<Longrightarrow> c \<noteq> CHR ''+'' \<and> c \<noteq> CHR ''-''"
  by (auto simp: is_ascii_digit_def)

text \<open>A printed number, with any number of leading zeros, parses back to itself.\<close>

definition zero_padded :: "nat \<Rightarrow> nat \<Rightarrow> string" where
  "zero_padded k n = replicate k (CHR ''0'') @ show_nat n"

lemma zero_padded_digits: "c \<in> set (zero_padded k n) \<Longrightarrow> is_ascii_digit c"
  unfolding zero_padded_def using show_nat_digits [of c n] by (auto simp: is_ascii_digit_def)

lemma zero_padded_Cons: "\<exists>c cs. zero_padded k n = c # cs \<and> c \<noteq> CHR ''+'' \<and> c \<noteq> CHR ''-''"
proof -
  have "zero_padded k n \<noteq> []"
    by (simp add: zero_padded_def)
  then obtain c cs where c: "zero_padded k n = c # cs"
    by (cases "zero_padded k n") blast+
  then have "is_ascii_digit c"
    using zero_padded_digits [of c k n] by simp
  with c show ?thesis
    using digit_not_sign by blast
qed

lemma digits_value_zero_padded: "digits_value 10 0 (zero_padded k n) = Some n"
  by (simp add: zero_padded_def digits_value_zeros digits_value_show_nat)

lemma parse_uint_zero_padded: "n < b \<Longrightarrow> parse_uint 10 b (zero_padded k n) = Some n"
  using zero_padded_Cons [of k n] digits_value_zero_padded [of k n]
  by (auto simp: parse_uint_def)

lemma parse_i32_zero_padded: "int n \<le> i32_max \<Longrightarrow> parse_i32 (zero_padded k n) = Some (int n)"
  using zero_padded_Cons [of k n] digits_value_zero_padded [of k n]
  by (auto simp: parse_i32_def in_i32_def i32_min_def)

lemma parse_uint_bound: "parse_uint r b s = Some n \<Longrightarrow> n < b"
  by (auto simp: parse_uint_def Let_def split: option.splits if_splits list.splits)

section \<open>Results\<close>

text \<open>Sequencing of \<open>?\<close>, and a check that runs when its parameter is given.\<close>

definition and_then :: "'e + 'a \<Rightarrow> ('a \<Rightarrow> 'e + 'b) \<Rightarrow> 'e + 'b" where
  "and_then x f = (case x of Inl e \<Rightarrow> Inl e | Inr v \<Rightarrow> f v)"

definition when_given :: "'a option \<Rightarrow> ('a \<Rightarrow> 'e + unit) \<Rightarrow> 'e + unit" where
  "when_given x f = (case x of None \<Rightarrow> Inr () | Some v \<Rightarrow> f v)"

definition require :: "bool \<Rightarrow> 'e \<Rightarrow> 'e + unit" where
  "require ok e = (if ok then Inr () else Inl e)"

lemma and_then_Inr: "and_then x f = Inr y \<longleftrightarrow> (\<exists>v. x = Inr v \<and> f v = Inr y)"
  by (simp add: and_then_def split: sum.split)

lemma and_then_simps [simp]: "and_then (Inr v) f = f v" "and_then (Inl e) f = Inl e"
  by (simp_all add: and_then_def)

lemma and_then_Inl: "and_then x f = Inl e \<longleftrightarrow> x = Inl e \<or> (\<exists>v. x = Inr v \<and> f v = Inl e)"
  by (simp add: and_then_def split: sum.split)

end
