(* ===== verification/Toid.thy ===== *)
theory Toid
  imports Prelude "HOL-Library.Product_Lexorder"
begin

text \<open>
  Model of \<open>src/toid.rs\<close>: decoding an RPC event id \<open>"<toid>-<event_index>"\<close> into the
  ordinal that gives events a deterministic order within a ledger.
\<close>

unbundle bit_operations_syntax

section \<open>Data\<close>

datatype EventOrdinal =
  EventOrdinal (ord_ledger: u32) (ord_tx_index: i32) (ord_op_index: i32) (ord_event_index: i32)

text \<open>The derived \<open>Ord\<close> of the source compares the fields lexicographically.\<close>

definition ordinal_tuple :: "EventOrdinal \<Rightarrow> nat \<times> int \<times> int \<times> int" where
  "ordinal_tuple o1 = (unat (ord_ledger o1), ord_tx_index o1, ord_op_index o1, ord_event_index o1)"

lemma ordinal_tuple_inj: "ordinal_tuple a = ordinal_tuple b \<Longrightarrow> a = b"
  by (cases a; cases b) (simp add: ordinal_tuple_def word_unat_eq_iff)

instantiation EventOrdinal :: linorder
begin

definition less_eq_EventOrdinal :: "EventOrdinal \<Rightarrow> EventOrdinal \<Rightarrow> bool" where
  "less_eq_EventOrdinal a b \<longleftrightarrow> ordinal_tuple a \<le> ordinal_tuple b"

definition less_EventOrdinal :: "EventOrdinal \<Rightarrow> EventOrdinal \<Rightarrow> bool" where
  "less_EventOrdinal a b \<longleftrightarrow> ordinal_tuple a < ordinal_tuple b"

instance
  by standard
    (auto simp: less_eq_EventOrdinal_def less_EventOrdinal_def intro: ordinal_tuple_inj)

end

section \<open>Decoding\<close>

definition decode_toid :: "u64 \<Rightarrow> i32 \<Rightarrow> EventOrdinal" where
  "decode_toid toid event_index =
     EventOrdinal (ucast (drop_bit 32 toid))
       (uint (drop_bit 12 toid AND 0xFFFFF))
       (uint (toid AND 0xFFF))
       event_index"

definition parse_event_id :: "string \<Rightarrow> EventOrdinal option" where
  "parse_event_id ident =
     (case split_once (CHR ''-'') ident of
        None \<Rightarrow> None
      | Some (toid_str, event_index_str) \<Rightarrow>
          (case parse_u64 toid_str of
             None \<Rightarrow> None
           | Some toid \<Rightarrow>
               (case parse_i32 event_index_str of
                  None \<Rightarrow> None
                | Some event_index \<Rightarrow> Some (decode_toid (of_nat toid) event_index))))"

section \<open>Arithmetic of the packed identifier\<close>

text \<open>The reference encoding: ledger in bits 63-32, transaction in 31-12, operation in 11-0.\<close>

definition pack_toid :: "nat \<Rightarrow> nat \<Rightarrow> nat \<Rightarrow> nat" where
  "pack_toid l t p = l * 2 ^ 32 + t * 2 ^ 12 + p"

lemma decode_toid_fields:
  fixes x :: u64
  shows "unat (ord_ledger (decode_toid x e)) = unat x div 2 ^ 32"
    and "ord_tx_index (decode_toid x e) = int (unat x div 2 ^ 12 mod 2 ^ 20)"
    and "ord_op_index (decode_toid x e) = int (unat x mod 2 ^ 12)"
    and "ord_event_index (decode_toid x e) = e"
proof -
  have "unat x < 2 ^ 64"
    using unsigned_less [of x] by simp
  then have small: "unat x div 2 ^ 32 < 2 ^ 32"
    by simp
  have drop: "unat (drop_bit 32 x) = unat x div 2 ^ 32"
    unfolding unsigned_drop_bit_eq using \<open>unat x < 2 ^ 64\<close>
    by (simp add: drop_bit_eq_div take_bit_eq_mod)
  have "unat (ord_ledger (decode_toid x e)) = unat (drop_bit 32 x) mod 2 ^ 32"
    by (simp add: decode_toid_def unsigned_ucast_eq take_bit_eq_mod)
  also have "\<dots> = unat x div 2 ^ 32"
    unfolding drop using small by (rule mod_less)
  finally show "unat (ord_ledger (decode_toid x e)) = unat x div 2 ^ 32" .
  have m20: "(0xFFFFF :: u64) = mask 20" and m12: "(0xFFF :: u64) = mask 12"
    by (simp_all add: mask_eq_exp_minus_1)
  show "ord_tx_index (decode_toid x e) = int (unat x div 2 ^ 12 mod 2 ^ 20)"
    unfolding decode_toid_def m20
    by (simp add: flip: take_bit_eq_mask)
       (simp add: unsigned_take_bit_eq unsigned_drop_bit_eq take_bit_eq_mod drop_bit_eq_div
        zdiv_int zmod_int uint_div_distrib uint_mod_distrib)
  show "ord_op_index (decode_toid x e) = int (unat x mod 2 ^ 12)"
    unfolding decode_toid_def m12
    by (simp add: flip: take_bit_eq_mask)
       (simp add: unsigned_take_bit_eq take_bit_eq_mod zmod_int uint_mod_distrib)
  show "ord_event_index (decode_toid x e) = e"
    by (simp add: decode_toid_def)
qed

lemma toid_digits:
  fixes m :: nat
  shows "m = m div 2 ^ 32 * 2 ^ 32 + m div 2 ^ 12 mod 2 ^ 20 * 2 ^ 12 + m mod 2 ^ 12"
proof -
  have "m div 2 ^ 12 div 2 ^ 20 = m div 2 ^ 32"
    by (simp flip: div_mult2_eq)
  then have "m div 2 ^ 12 = m div 2 ^ 32 * 2 ^ 20 + m div 2 ^ 12 mod 2 ^ 20"
    using div_mult_mod_eq [of "m div 2 ^ 12" "2 ^ 20"] by simp
  moreover have "m = m div 2 ^ 12 * 2 ^ 12 + m mod 2 ^ 12"
    using div_mult_mod_eq [of m "2 ^ 12"] by simp
  ultimately have "m = (m div 2 ^ 32 * 2 ^ 20 + m div 2 ^ 12 mod 2 ^ 20) * 2 ^ 12 + m mod 2 ^ 12"
    by metis
  also have "\<dots> = m div 2 ^ 32 * 2 ^ 32 + m div 2 ^ 12 mod 2 ^ 20 * 2 ^ 12 + m mod 2 ^ 12"
    by (simp add: algebra_simps)
  finally show ?thesis .
qed

text \<open>Comparing packed numbers is comparing their digit triples lexicographically.\<close>

lemma pack_toid_less_iff:
  assumes "t < 2 ^ 20" "t' < 2 ^ 20" "p < 2 ^ 12" "p' < 2 ^ 12"
  shows "pack_toid l t p < pack_toid l' t' p' \<longleftrightarrow> (l, t, p) < (l', t', p')"
  using assms by (auto simp: pack_toid_def)

lemma pack_toid_eq_iff:
  assumes "t < 2 ^ 20" "t' < 2 ^ 20" "p < 2 ^ 12" "p' < 2 ^ 12"
  shows "pack_toid l t p = pack_toid l' t' p' \<longleftrightarrow> l = l' \<and> t = t' \<and> p = p'"
  using assms pack_toid_less_iff [of t t' p p' l l'] pack_toid_less_iff [of t' t p' p l' l]
  by (auto simp: not_less_iff_gr_or_eq)

lemma decode_pack_toid:
  assumes "l < 2 ^ 32" "t < 2 ^ 20" "p < 2 ^ 12"
  shows "decode_toid (of_nat (pack_toid l t p)) e = EventOrdinal (of_nat l) (int t) (int p) e"
proof (rule ordinal_tuple_inj)
  have lt: "pack_toid l t p < 2 ^ 64"
    using assms by (simp add: pack_toid_def)
  then have u: "unat (of_nat (pack_toid l t p) :: u64) = pack_toid l t p"
    by (simp add: unat_of_nat)
  have d: "pack_toid l t p div 2 ^ 32 = l" "pack_toid l t p div 2 ^ 12 mod 2 ^ 20 = t"
    "pack_toid l t p mod 2 ^ 12 = p"
  proof -
    have q: "pack_toid l t p div 2 ^ 12 = l * 2 ^ 20 + t"
      using assms(3) by (simp add: pack_toid_def)
    have r: "pack_toid l t p = p + 2 ^ 12 * (l * 2 ^ 20 + t)"
      by (simp add: pack_toid_def)
    show "pack_toid l t p div 2 ^ 12 mod 2 ^ 20 = t"
      unfolding q using assms(2) by simp
    show "pack_toid l t p mod 2 ^ 12 = p"
      unfolding r mod_mult_self2 using assms(3) by simp
    have "pack_toid l t p div 2 ^ 32 = pack_toid l t p div 2 ^ 12 div 2 ^ 20"
      by (simp flip: div_mult2_eq)
    then show "pack_toid l t p div 2 ^ 32 = l"
      unfolding q using assms(2) by simp
  qed
  show "ordinal_tuple (decode_toid (of_nat (pack_toid l t p)) e) =
      ordinal_tuple (EventOrdinal (of_nat l) (int t) (int p) e)"
    unfolding ordinal_tuple_def decode_toid_fields u d using assms(1)
    by (simp add: unat_of_nat)
qed

section \<open>Properties\<close>

lemma parse_event_id_padded:
  assumes "l < 2 ^ 32" and "t < 2 ^ 20" and "p < 2 ^ 12" and "int e \<le> i32_max"
  shows "parse_event_id (zero_padded j (pack_toid l t p) @ ''-'' @ zero_padded k e) =
    Some (EventOrdinal (of_nat l) (int t) (int p) (int e))"
proof -
  have sep: "split_once (CHR ''-'') (zero_padded j (pack_toid l t p) @ CHR ''-'' # zero_padded k e)
      = Some (zero_padded j (pack_toid l t p), zero_padded k e)"
    using digit_not_sign zero_padded_digits by (auto simp: split_once_Some)
  have "pack_toid l t p < 2 ^ 64"
    using assms(1-3) by (simp add: pack_toid_def)
  then have "parse_u64 (zero_padded j (pack_toid l t p)) = Some (pack_toid l t p)"
    by (simp add: parse_u64_def parse_uint_zero_padded)
  moreover have "parse_i32 (zero_padded k e) = Some (int e)"
    using assms(4) by (rule parse_i32_zero_padded)
  ultimately show ?thesis
    using sep assms by (simp add: parse_event_id_def decode_pack_toid)
qed

text \<open>
  C40. Round trip: an event id printed from a ledger, transaction, operation and event index
  (with any amount of zero padding, as the RPC server pads) parses back to that ordinal.
\<close>

theorem parse_event_id_roundtrip:
  assumes "l < 2 ^ 32" and "t < 2 ^ 20" and "p < 2 ^ 12" and "int e \<le> i32_max"
  shows "parse_event_id (zero_padded j (pack_toid l t p) @ ''-'' @ zero_padded k e) =
    Some (EventOrdinal (of_nat l) (int t) (int p) (int e))"
  using assms by (rule parse_event_id_padded)

theorem parse_event_id_roundtrip_witness:
  "parse_event_id (zero_padded 2 (pack_toid 123456 7 3) @ ''-'' @ zero_padded 9 2) =
    Some (EventOrdinal 123456 7 3 2)"
  using parse_event_id_roundtrip [of 123456 7 3 2 2 9] by (simp add: i32_max_def)

text \<open>
  The ordinals of two events compare exactly as their TOIDs do numerically, ties broken by
  the event index: the decoded columns give the same order as the RPC ids.
\<close>

theorem decode_toid_order:
  "decode_toid x e < decode_toid y f \<longleftrightarrow> unat x < unat y \<or> (x = y \<and> e < f)"
proof -
  let ?l = "\<lambda>m. m div 2 ^ 32 :: nat" and ?t = "\<lambda>m. m div 2 ^ 12 mod 2 ^ 20 :: nat"
    and ?p = "\<lambda>m. m mod 2 ^ 12 :: nat"
  have dig: "pack_toid (?l m) (?t m) (?p m) = m" for m
    using toid_digits [of m] by (simp add: pack_toid_def)
  have lt: "unat x < unat y \<longleftrightarrow>
      (?l (unat x), ?t (unat x), ?p (unat x)) < (?l (unat y), ?t (unat y), ?p (unat y))"
    using pack_toid_less_iff [of "?t (unat x)" "?t (unat y)" "?p (unat x)" "?p (unat y)"
        "?l (unat x)" "?l (unat y)"]
    unfolding dig by simp
  have eq: "unat x = unat y \<longleftrightarrow>
      ?l (unat x) = ?l (unat y) \<and> ?t (unat x) = ?t (unat y) \<and> ?p (unat x) = ?p (unat y)"
    using pack_toid_eq_iff [of "?t (unat x)" "?t (unat y)" "?p (unat x)" "?p (unat y)"
        "?l (unat x)" "?l (unat y)"]
    unfolding dig by simp
  show ?thesis
    unfolding less_EventOrdinal_def ordinal_tuple_def decode_toid_fields
    using lt eq by (auto simp: word_unat_eq_iff)
qed

end
