(* ===== verification/Bounded_Log.thy ===== *)
theory Bounded_Log
  imports Prelude
begin

text \<open>
  The contract shared by the bounded first-in-first-out buffers of the service (the SSE replay
  buffer, the latency window of an RPC endpoint, the access log): a push appends and, past
  the bound, drops the oldest entry. The locale states the contract of one push; its lemmas say
  what a whole sequence of pushes leaves.
\<close>

section \<open>The last entries of a list\<close>

definition last_n :: "nat \<Rightarrow> 'a list \<Rightarrow> 'a list" where
  "last_n n xs = drop (length xs - n) xs"

lemma length_last_n [simp]: "length (last_n n xs) = min n (length xs)"
  by (simp add: last_n_def)

lemma last_n_id [simp]: "length xs \<le> n \<Longrightarrow> last_n n xs = xs"
  by (simp add: last_n_def)

lemma last_n_append_last_n: "last_n n (last_n n xs @ ys) = last_n n (xs @ ys)"
proof (cases "length xs \<le> n")
  case False
  then have "length (last_n n xs @ ys) - n = length ys"
    by simp
  then show ?thesis
    using False by (simp add: last_n_def add.commute)
qed simp

lemma set_last_n_subset: "set (last_n n xs) \<subseteq> set xs"
  by (simp add: last_n_def set_drop_subset)

lemma distinct_last_n: "distinct xs \<Longrightarrow> distinct (last_n n xs)"
  by (simp add: last_n_def)

lemma last_n_append_short: "length ys \<le> n \<Longrightarrow> last_n n (xs @ ys) = last_n (n - length ys) xs @ ys"
  by (simp add: last_n_def)

lemma map_last_n: "map f (last_n n xs) = last_n n (map f xs)"
  by (simp add: last_n_def drop_map)

text \<open>An entry survives exactly when fewer than \<open>n\<close> entries came after it.\<close>

lemma last_n_Cons_split:
  "last_n n (a @ x # b) = (if length b < n then last_n (n - Suc (length b)) a @ x # b else last_n n b)"
  by (auto simp: last_n_def Suc_diff_le not_less)

section \<open>The contract\<close>

locale bounded_log =
  fixes push :: "'x \<Rightarrow> 's \<Rightarrow> 's"
    and contents :: "'s \<Rightarrow> 'x list"
    and bound :: "'s \<Rightarrow> nat"
  assumes contents_push: "length (contents s) \<le> bound s \<Longrightarrow>
      contents (push x s) = last_n (bound s) (contents s @ [x])"
    and bound_push: "bound (push x s) = bound s"
begin

lemma bound_pushes: "bound (fold push xs s) = bound s"
  by (induction xs arbitrary: s) (simp_all add: bound_push)

lemma contents_pushes:
  "length (contents s) \<le> bound s \<Longrightarrow>
   contents (fold push xs s) = last_n (bound s) (contents s @ xs)"
proof (induction xs arbitrary: s)
  case Nil
  then show ?case by simp
next
  case (Cons x xs)
  then show ?case
    by (simp add: contents_push bound_push last_n_append_last_n)
qed

lemma length_contents_pushes:
  "length (contents s) \<le> bound s \<Longrightarrow> length (contents (fold push xs s)) \<le> bound s"
  by (simp add: contents_pushes)

end

end
