(* ===== verification/Event_Model.thy ===== *)
theory Event_Model
  imports Prelude
begin

text \<open>
  Model of the shared data types of \<open>src/models/event.rs\<close>: the JSON values carried by events, the
  live RPC event, the event-type and sort enumerations with their string forms, and the
  pagination parameters of the list endpoints.
\<close>

section \<open>JSON values\<close>

text \<open>
  \<open>serde_json::Value\<close>. A number is a non-negative integer, a negative integer or a finite
  double, which is a rational; an object keeps its entries in a list.
\<close>

datatype number = PosInt u64 | NegInt i64 | Float rat

datatype json =
  JNull | JBool bool | JNumber number | JString string
| JArray "json list" | JObject "(string \<times> json) list"

fun is_null :: "json \<Rightarrow> bool" where
  "is_null JNull = True"
| "is_null _ = False"

section \<open>Events\<close>

record SorobanEvent =
  sse_id :: "nat option"
  rpc_id :: "string option"
  contract_id :: string
  event_type :: string
  tx_hash :: string
  ledger :: u64
  ledger_closed_at :: string
  ledger_hash :: "string option"
  in_successful_call :: bool
  ev_value :: json
  topic :: "json list option"
  tenant_id :: "string option"

text \<open>A concrete event, used to evaluate the definitions on examples.\<close>

definition sample_event :: SorobanEvent where
  "sample_event = \<lparr>sse_id = None, rpc_id = None, contract_id = ''C'', event_type = ''contract'',
     tx_hash = ''aa'', ledger = 5, ledger_closed_at = [], ledger_hash = None,
     in_successful_call = True, ev_value = JNull, topic = None, tenant_id = None\<rparr>"

record GetEventsResult =
  events :: "SorobanEvent list"
  latest_ledger :: u64
  rpc_cursor :: "string option"
  protocol_version :: "u32 option"

record RpcError =
  code :: i64
  err_message :: string

record 'a RpcResponse =
  result :: "'a option"
  rpc_error :: "RpcError option"

section \<open>Enumerations\<close>

datatype EventType = Contract | Diagnostic | System

definition EventType_display :: "EventType \<Rightarrow> string" where
  "EventType_display t = (case t of Contract \<Rightarrow> ''contract'' | Diagnostic \<Rightarrow> ''diagnostic''
     | System \<Rightarrow> ''system'')"

definition EventType_from_str :: "string \<Rightarrow> string + EventType" where
  "EventType_from_str s =
     (if s = ''contract'' then Inr Contract
      else if s = ''diagnostic'' then Inr Diagnostic
      else if s = ''system'' then Inr System
      else Inl (''unknown event type: '' @ s))"

datatype NotificationFormat = Raw | Slack | Discord | Teams | Pagerduty | Github | Telegram

definition NotificationFormat_display :: "NotificationFormat \<Rightarrow> string" where
  "NotificationFormat_display f = (case f of Raw \<Rightarrow> ''raw'' | Slack \<Rightarrow> ''slack''
     | Discord \<Rightarrow> ''discord'' | Teams \<Rightarrow> ''teams'' | Pagerduty \<Rightarrow> ''pagerduty''
     | Github \<Rightarrow> ''github'' | Telegram \<Rightarrow> ''telegram'')"

definition NotificationFormat_from_str :: "string \<Rightarrow> string + NotificationFormat" where
  "NotificationFormat_from_str s =
     (if s = ''raw'' then Inr Raw
      else if s = ''slack'' then Inr Slack
      else if s = ''discord'' then Inr Discord
      else if s = ''teams'' then Inr Teams
      else if s = ''pagerduty'' then Inr Pagerduty
      else if s = ''github'' then Inr Github
      else if s = ''telegram'' then Inr Telegram
      else Inl (''unknown notification format: '' @ s))"

datatype SortOrder = Asc | Desc

definition SortOrder_as_sql :: "SortOrder \<Rightarrow> string" where
  "SortOrder_as_sql d = (case d of Asc \<Rightarrow> ''ASC'' | Desc \<Rightarrow> ''DESC'')"

datatype SortBy = Ledger | Timestamp | CreatedAt

definition SortBy_as_sql_col :: "SortBy \<Rightarrow> string" where
  "SortBy_as_sql_col b = (case b of Ledger \<Rightarrow> ''ledger'' | Timestamp \<Rightarrow> ''timestamp''
     | CreatedAt \<Rightarrow> ''created_at'')"

definition SortBy_as_tag :: "SortBy \<Rightarrow> string" where
  "SortBy_as_tag b = (case b of Ledger \<Rightarrow> ''ledger'' | Timestamp \<Rightarrow> ''timestamp''
     | CreatedAt \<Rightarrow> ''created_at'')"

section \<open>Pagination parameters\<close>

definition ALLOWED_FIELDS :: "string list" where
  "ALLOWED_FIELDS = [''id'', ''contract_id'', ''event_type'', ''tx_hash'', ''ledger'',
     ''timestamp'', ''event_data'', ''event_data_normalized'', ''event_data_decoded'',
     ''ledger_hash'', ''in_successful_call'', ''created_at'', ''schema_version'',
     ''anonymized'', ''asset_code'', ''asset_issuer'']"

definition validate_column_name :: "string \<Rightarrow> bool" where
  "validate_column_name col \<longleftrightarrow>
     (if col \<notin> set ALLOWED_FIELDS then False
      else list_all (\<lambda>c. (97 \<le> (of_char c :: nat) \<and> (of_char c :: nat) \<le> 122)
                         \<or> c = CHR ''_'') col)"

text \<open>\<open>columns\<close> of the \<open>fields\<close> parameter; the error carries the unknown names and the allowed ones.\<close>

definition columns :: "string option \<Rightarrow> (string list \<times> string list) + string list" where
  "columns flds =
     (case flds of
        None \<Rightarrow> Inr ALLOWED_FIELDS
      | Some f \<Rightarrow>
          if trim f = [] then Inr ALLOWED_FIELDS
          else let requested = map trim (split_on (CHR '','') f);
                   unknown = filter (\<lambda>s. s \<notin> set ALLOWED_FIELDS) requested
               in if unknown \<noteq> [] then Inl (unknown, ALLOWED_FIELDS) else Inr requested)"

definition page_limit :: "i64 option \<Rightarrow> i64" where
  "page_limit lim_opt = clamp (case lim_opt of None \<Rightarrow> 20 | Some l \<Rightarrow> l) 1 100"

definition page_offset :: "i64 option \<Rightarrow> i64 option \<Rightarrow> i64" where
  "page_offset page_opt lim_opt =
     (let p = max (case page_opt of None \<Rightarrow> 1 | Some n \<Rightarrow> n) 1
      in saturating_mul_i64 (p - 1) (page_limit lim_opt))"

section \<open>Properties\<close>

lemma EventType_roundtrip: "EventType_from_str (EventType_display t) = Inr t"
  by (cases t) (simp_all add: EventType_display_def EventType_from_str_def)

lemma NotificationFormat_roundtrip: "NotificationFormat_from_str (NotificationFormat_display f) = Inr f"
  by (cases f) (simp_all add: NotificationFormat_display_def NotificationFormat_from_str_def)

lemma EventType_from_str_Inr: "EventType_from_str s = Inr t \<Longrightarrow> s = EventType_display t"
  by (auto simp: EventType_from_str_def EventType_display_def split: if_splits)

lemma ALLOWED_FIELDS_wellformed: "col \<in> set ALLOWED_FIELDS \<Longrightarrow> validate_column_name col"
  by (auto simp: validate_column_name_def ALLOWED_FIELDS_def)

text \<open>
  Column selection is injection safe: whatever the \<open>fields\<close> query parameter is, the accepted
  columns all pass the column-name check (allow-listed, lower-case letters and underscores
  only); a rejection names exactly the requested columns that are not on the allow-list, and at
  least one of them.
\<close>

theorem columns_safe:
  "case columns flds of
     Inr cols \<Rightarrow> cols \<noteq> [] \<and> (\<forall>c. c \<in> set cols \<longrightarrow> validate_column_name c)
   | Inl (unknown, allowed) \<Rightarrow> allowed = ALLOWED_FIELDS \<and> unknown \<noteq> [] \<and>
       (\<forall>c. c \<in> set unknown \<longleftrightarrow>
          c \<notin> set ALLOWED_FIELDS \<and> c \<in> trim ` set (split_on (CHR '','') (the flds)))"
proof -
  have "validate_column_name c"
    if "filter (\<lambda>s. s \<notin> set ALLOWED_FIELDS) xs = []" "c \<in> set xs" for c xs
    using that ALLOWED_FIELDS_wellformed by (auto simp: filter_empty_conv)
  moreover have "ALLOWED_FIELDS \<noteq> []"
    by (simp add: ALLOWED_FIELDS_def)
  ultimately show ?thesis
    using ALLOWED_FIELDS_wellformed
    by (auto simp: columns_def Let_def split: option.splits)
qed

theorem columns_safe_witness:
  "columns (Some ''ledger,tx_hash'') = Inr [''ledger'', ''tx_hash''] \<and> validate_column_name ''ledger''"
proof -
  have c: "columns (Some ''ledger,tx_hash'') = Inr [''ledger'', ''tx_hash'']"
    by (simp add: columns_def trim_def strip_prefixes.simps white_space_def starts_with_def
        ALLOWED_FIELDS_def)
  show ?thesis
    using columns_safe [of "Some ''ledger,tx_hash''"] c by simp
qed

text \<open>
  Pagination never overflows: for every page and limit a client can send, the limit is
  between 1 and 100, the offset is a non-negative \<open>i64\<close>, and it is the exact product
  \<open>(page - 1) * limit\<close> whenever that fits in an \<open>i64\<close>.
\<close>

theorem pagination_bounds:
  "1 \<le> page_limit lim_opt \<and> page_limit lim_opt \<le> 100 \<and>
   0 \<le> page_offset page_opt lim_opt \<and> page_offset page_opt lim_opt \<le> i64_max \<and>
   (let p = max (case page_opt of None \<Rightarrow> 1 | Some n \<Rightarrow> n) 1
    in page_offset page_opt lim_opt = min i64_max ((p - 1) * page_limit lim_opt))"
proof -
  let ?p = "max (case page_opt of None \<Rightarrow> 1 | Some n \<Rightarrow> n) 1"
  have lim: "1 \<le> page_limit lim_opt" "page_limit lim_opt \<le> 100"
    using clamp_range [of 1 "100 :: int"] by (simp_all add: page_limit_def)
  have "0 \<le> (?p - 1) * page_limit lim_opt"
    using lim(1) by (intro mult_nonneg_nonneg) auto
  from sat_i64_nonneg [OF this] show ?thesis
    using lim by (simp add: page_offset_def Let_def saturating_mul_i64_def)
qed

end
