(* ===== verification/Sse_Ring_Buffer.thy ===== *)
theory Sse_Ring_Buffer
  imports Bounded_Log Event_Model
begin

text \<open>
  Model of \<open>src/sse_ring_buffer.rs\<close>: the in-memory buffer of recent events that lets a
  reconnecting SSE client replay what it missed. The identifier that \<open>push\<close> draws with
  \<open>Uuid::new_v4\<close> is a parameter.
\<close>

section \<open>State and operations\<close>

type_synonym uuid = nat

record Slot =
  slot_id :: uuid
  slot_event :: SorobanEvent

record SseRingBuffer =
  inner :: "Slot list"
  capacity :: usize
  overflow_count :: u64

definition DEFAULT_RING_BUFFER_CAPACITY :: usize where
  "DEFAULT_RING_BUFFER_CAPACITY = 10000"

definition ring_new :: "usize \<Rightarrow> SseRingBuffer" where
  "ring_new cap = \<lparr>inner = [], capacity = cap, overflow_count = 0\<rparr>"

definition ring_push :: "uuid \<Rightarrow> SorobanEvent \<Rightarrow> SseRingBuffer \<Rightarrow> SseRingBuffer" where
  "ring_push uid event buf =
     (let buf1 = (if length (inner buf) \<ge> capacity buf
                  then buf\<lparr>inner := drop 1 (inner buf), overflow_count := overflow_count buf + 1\<rparr>
                  else buf)
      in buf1\<lparr>inner := inner buf1 @ [\<lparr>slot_id = uid, slot_event = event\<rparr>]\<rparr>)"

fun position :: "('a \<Rightarrow> bool) \<Rightarrow> 'a list \<Rightarrow> nat option" where
  "position P [] = None"
| "position P (x # xs) = (if P x then Some 0 else map_option Suc (position P xs))"

definition events_since :: "uuid \<Rightarrow> SseRingBuffer \<Rightarrow> SorobanEvent list option" where
  "events_since last_id buf =
     (case position (\<lambda>s. slot_id s = last_id) (inner buf) of
        None \<Rightarrow> None
      | Some pos \<Rightarrow> Some (map slot_event (drop (pos + 1) (inner buf))))"

definition ring_len :: "SseRingBuffer \<Rightarrow> usize" where
  "ring_len buf = length (inner buf)"

definition ring_is_empty :: "SseRingBuffer \<Rightarrow> bool" where
  "ring_is_empty buf \<longleftrightarrow> ring_len buf = 0"

section \<open>The buffer is a bounded log\<close>

definition push_slot :: "Slot \<Rightarrow> SseRingBuffer \<Rightarrow> SseRingBuffer" where
  "push_slot s = ring_push (slot_id s) (slot_event s)"

text \<open>A buffer of capacity 0 still holds the latest event: it evicts before it inserts.\<close>

definition ring_bound :: "SseRingBuffer \<Rightarrow> nat" where
  "ring_bound buf = max 1 (capacity buf)"

lemma capacity_push_slot [simp]: "capacity (push_slot s buf) = capacity buf"
  by (simp add: push_slot_def ring_push_def)

lemma overflow_push_slot:
  "overflow_count (push_slot s buf) =
     (if length (inner buf) \<ge> capacity buf then overflow_count buf + 1 else overflow_count buf)"
  by (simp add: push_slot_def ring_push_def)

lemma inner_push_slot:
  assumes "length (inner buf) \<le> ring_bound buf"
  shows "inner (push_slot s buf) = last_n (ring_bound buf) (inner buf @ [s])"
proof (cases "length (inner buf) \<ge> capacity buf")
  case True
  then have "length (inner buf @ [s]) - ring_bound buf = 1 \<or> inner buf = []"
    using assms by (cases "inner buf") (auto simp: ring_bound_def max_def split: if_splits)
  then show ?thesis
    using True by (auto simp: push_slot_def ring_push_def last_n_def ring_bound_def Suc_diff_le
        drop_Suc max_def length_Suc_conv split: if_splits)
next
  case False
  then show ?thesis
    by (simp add: push_slot_def ring_push_def ring_bound_def)
qed

interpretation ring: bounded_log push_slot inner ring_bound
  by unfold_locales (simp_all add: inner_push_slot ring_bound_def)

section \<open>Replay\<close>

lemma position_append:
  "position P (xs @ ys) =
     (case position P xs of Some i \<Rightarrow> Some i | None \<Rightarrow> map_option ((+) (length xs)) (position P ys))"
  by (induction xs) (auto split: option.splits simp: option.map_comp comp_def option.map_ident cong: map_option_cong)

lemma position_None: "position P xs = None \<longleftrightarrow> (\<forall>x\<in>set xs. \<not> P x)"
  by (induction xs) auto

lemma position_hit: "\<forall>x\<in>set xs. \<not> P x \<Longrightarrow> P y \<Longrightarrow> position P (xs @ y # ys) = Some (length xs)"
  by (simp add: position_append position_None [THEN iffD2])

definition ring_run :: "usize \<Rightarrow> Slot list \<Rightarrow> SseRingBuffer" where
  "ring_run cap hist = fold push_slot hist (ring_new cap)"

lemma inner_ring_run: "inner (ring_run cap hist) = last_n (max 1 cap) hist"
  using ring.contents_pushes [of "ring_new cap" hist]
  by (simp add: ring_run_def ring_new_def ring_bound_def)

lemma capacity_ring_run [simp]: "capacity (ring_run cap hist) = cap"
  unfolding ring_run_def by (induction hist rule: rev_induct) (simp_all add: ring_new_def)

lemma overflow_ring_run: "overflow_count (ring_run cap hist) = of_nat (length hist - cap)"
proof (induction hist rule: rev_induct)
  case Nil
  then show ?case by (simp add: ring_run_def ring_new_def)
next
  case (snoc s hist)
  have run: "ring_run cap (hist @ [s]) = push_slot s (ring_run cap hist)"
    by (simp add: ring_run_def)
  have "length (inner (ring_run cap hist)) \<ge> cap \<longleftrightarrow> cap \<le> length hist"
    by (auto simp: inner_ring_run)
  then show ?case
    using snoc by (auto simp: run overflow_push_slot Suc_diff_le)
qed

lemma events_since_run:
  assumes "distinct (map slot_id (before @ x # after))"
  shows "events_since (slot_id x) (ring_run cap (before @ x # after)) =
    (if length after < max 1 cap then Some (map slot_event after) else None)"
proof -
  let ?P = "\<lambda>s. slot_id s = slot_id x"
  have no: "\<forall>s\<in>set before. \<not> ?P s" "\<forall>s\<in>set after. \<not> ?P s"
    using assms by (auto simp: image_iff)
  then have "\<forall>s\<in>set (last_n k before). \<not> ?P s" "\<forall>s\<in>set (last_n k after). \<not> ?P s" for k
    using set_last_n_subset by fast+
  then show ?thesis
    by (auto simp: events_since_def inner_ring_run last_n_Cons_split position_hit
        position_None [THEN iffD2])
qed

section \<open>Properties\<close>

text \<open>
  Replay is complete and honest about eviction. Take any history of pushes with distinct
  identifiers, of which \<open>x\<close> is one. If fewer than \<open>max 1 capacity\<close> events were pushed after \<open>x\<close>,
  then replaying from \<open>x\<close> returns exactly those later events, all of them and in order; if \<open>x\<close>
  has been evicted the answer is \<open>None\<close>, so a client is never handed a replay with a gap.
\<close>

theorem events_since_replays_all_missed:
  assumes "distinct (map slot_id (before @ x # after))"
  shows "events_since (slot_id x) (ring_run cap (before @ x # after)) =
    (if length after < max 1 cap then Some (map slot_event after) else None)"
  using assms by (rule events_since_run)

theorem events_since_replays_all_missed_witness:
  "events_since 1 (ring_run 2 [\<lparr>slot_id = 1, slot_event = sample_event\<rparr>,
      \<lparr>slot_id = 2, slot_event = sample_event\<rparr>]) = Some [sample_event]"
  using events_since_replays_all_missed [of "[]" "\<lparr>slot_id = 1, slot_event = sample_event\<rparr>"
      "[\<lparr>slot_id = 2, slot_event = sample_event\<rparr>]" 2]
  by simp

text \<open>
  Memory bound and overflow accounting: after any history the buffer holds exactly the last
  \<open>max 1 capacity\<close> events in push order, and the overflow counter is the number of pushes beyond
  the capacity (modulo the 64-bit counter).
\<close>

theorem ring_bounded_and_counted:
  "inner (ring_run cap hist) = last_n (max 1 cap) hist \<and>
   ring_len (ring_run cap hist) \<le> max 1 cap \<and>
   overflow_count (ring_run cap hist) = of_nat (length hist - cap)"
  by (simp add: inner_ring_run overflow_ring_run ring_len_def)

end
