(* ===== verification/F64.thy ===== *)
theory F64
  imports Prelude "HOL-Library.Log_Nat"
begin

text \<open>
  Rust's \<open>f64\<close> on finite values. A finite double is a rational number; every arithmetic
  operation returns the exact result rounded to the nearest double, ties to the even
  significand. No computation of the modelled code reaches the overflow threshold, so infinities
  and NaN are not represented.
\<close>

type_synonym f64 = rat

definition pow2 :: "int \<Rightarrow> rat" where
  "pow2 n = (if 0 \<le> n then 2 ^ nat n else 1 / 2 ^ nat (- n))"

text \<open>The binary exponent of a positive rational: the largest \<open>e\<close> with \<open>2^e \<le> x\<close>.\<close>

definition f64_exponent :: "rat \<Rightarrow> int" where
  "f64_exponent x =
     (let (p, q) = quotient_of x; e = bitlen p - bitlen q
      in if pow2 e \<le> x then e else e - 1)"

text \<open>Round half to even.\<close>

definition round_even :: "rat \<Rightarrow> int" where
  "round_even x =
     (let f = \<lfloor>x\<rfloor>; d = x - of_int f
      in if d < 1 / 2 then f else if 1 / 2 < d then f + 1 else if even f then f else f + 1)"

definition f64_rnd :: "rat \<Rightarrow> f64" where
  "f64_rnd x =
     (if x = 0 then 0
      else let a = \<bar>x\<bar>; u = pow2 (max (f64_exponent a) (- 1022) - 52)
           in sgn x * (of_int (round_even (a / u)) * u))"

definition f64_of_nat :: "nat \<Rightarrow> f64" where
  "f64_of_nat n = f64_rnd (of_nat n)"

definition f64_div :: "f64 \<Rightarrow> f64 \<Rightarrow> f64" where
  "f64_div a b = f64_rnd (a / b)"

definition f64_add :: "f64 \<Rightarrow> f64 \<Rightarrow> f64" where
  "f64_add a b = f64_rnd (a + b)"

definition f64_sub :: "f64 \<Rightarrow> f64 \<Rightarrow> f64" where
  "f64_sub a b = f64_rnd (a - b)"

definition f64_mul :: "f64 \<Rightarrow> f64 \<Rightarrow> f64" where
  "f64_mul a b = f64_rnd (a * b)"

lemma pow2_pos [simp]: "0 < pow2 n"
  by (simp add: pow2_def)

lemma round_even_of_int [simp]: "round_even (of_int k) = k"
  by (simp add: round_even_def)

lemma round_even_nonneg: "0 \<le> x \<Longrightarrow> 0 \<le> round_even x"
  by (auto simp: round_even_def Let_def)

lemma f64_rnd_0 [simp]: "f64_rnd 0 = 0"
  by (simp add: f64_rnd_def)

lemma f64_rnd_nonneg: "0 \<le> x \<Longrightarrow> 0 \<le> f64_rnd x"
  by (auto simp: f64_rnd_def Let_def less_imp_le intro!: mult_nonneg_nonneg round_even_nonneg)

lemma f64_of_nat_nonneg: "0 \<le> f64_of_nat n"
  by (simp add: f64_of_nat_def f64_rnd_nonneg)

text \<open>An integer that fits the 53-bit significand is represented exactly.\<close>

lemma f64_rnd_int:
  assumes "0 < k" and "k < 2 ^ 53"
  shows "f64_rnd (of_int k) = of_int k"
proof -
  let ?e = "f64_exponent (of_int k)"
  have q: "quotient_of (rat_of_int k) = (k, 1)"
    by simp
  have "bitlen k \<le> 53"
    using assms by (simp add: bitlen_le_iff_power)
  moreover have "bitlen 1 = 1"
    by (simp add: bitlen_alt_def)
  ultimately have "?e \<le> 52"
    by (simp add: f64_exponent_def q Let_def)
  then have "max ?e (- 1022) - 52 \<le> 0"
    by simp
  then obtain j where u: "pow2 (max ?e (- 1022) - 52) = 1 / 2 ^ j"
    by (cases "max ?e (- 1022) - 52 = 0") (force simp: pow2_def intro: that [of 0])+
  have "rat_of_int k / (1 / 2 ^ j) = rat_of_int (k * 2 ^ j)"
    by simp
  then have "round_even (rat_of_int k / (1 / 2 ^ j)) = k * 2 ^ j"
    by (metis round_even_of_int)
  then show ?thesis
    using assms(1) by (simp add: f64_rnd_def u)
qed

lemma f64_rnd_one [simp]: "f64_rnd 1 = 1"
  using f64_rnd_int [of 1] by simp

lemma f64_of_nat_exact: "n < 2 ^ 53 \<Longrightarrow> f64_of_nat n = of_nat n"
  using f64_rnd_int [of "int n"] by (cases "n = 0") (simp_all add: f64_of_nat_def)

end
