(* ===== verification/Circuit_Breaker.thy ===== *)
theory Circuit_Breaker
  imports F64
begin

text \<open>
  Model of \<open>src/webhook_circuit_breaker.rs\<close>: the per-endpoint circuit breaker and the manager
  that keeps one breaker per webhook endpoint. Instants are nanoseconds; the clock reading of an
  operation (\<open>Utc::now\<close>) is a parameter, one reading per operation.
\<close>

section \<open>State\<close>

datatype CircuitBreakerState = Closed | Open | HalfOpen

record CircuitBreakerConfig =
  failure_threshold :: u32
  open_duration_secs :: u64
  success_threshold_half_open :: u32
  failure_rate_threshold :: f64

definition CircuitBreakerConfig_default :: CircuitBreakerConfig where
  "CircuitBreakerConfig_default =
     \<lparr>failure_threshold = 5, open_duration_secs = 60, success_threshold_half_open = 3,
      failure_rate_threshold = 1 / 2\<rparr>"

type_synonym instant = int

record EndpointCircuitBreaker =
  cb_state :: CircuitBreakerState
  failure_count :: u32
  success_count :: u32
  total_requests :: u64
  total_failures :: u64
  opened_at :: "instant option"
  half_open_at :: "instant option"
  config :: CircuitBreakerConfig
  recent_failures :: "instant list"

definition breaker_new :: "CircuitBreakerConfig \<Rightarrow> EndpointCircuitBreaker" where
  "breaker_new cfg =
     \<lparr>cb_state = Closed, failure_count = 0, success_count = 0, total_requests = 0,
      total_failures = 0, opened_at = None, half_open_at = None, config = cfg,
      recent_failures = []\<rparr>"

section \<open>Operations\<close>

definition record_success :: "EndpointCircuitBreaker \<Rightarrow> EndpointCircuitBreaker" where
  "record_success b0 =
     (let b = b0\<lparr>total_requests := total_requests b0 + 1\<rparr>
      in case cb_state b of
           Closed \<Rightarrow> b\<lparr>failure_count := 0\<rparr>
         | HalfOpen \<Rightarrow>
             (let b1 = b\<lparr>success_count := success_count b + 1\<rparr>
              in if success_count b1 \<ge> success_threshold_half_open (config b1)
                 then b1\<lparr>cb_state := Closed, failure_count := 0, success_count := 0,
                         opened_at := None, half_open_at := None\<rparr>
                 else b1)
         | Open \<Rightarrow> b\<lparr>success_count := success_count b + 1\<rparr>)"

definition NANOS :: int where "NANOS = 1000000000"

definition record_failure :: "instant \<Rightarrow> EndpointCircuitBreaker \<Rightarrow> EndpointCircuitBreaker" where
  "record_failure now b0 =
     (let b = b0\<lparr>total_requests := total_requests b0 + 1,
                 total_failures := total_failures b0 + 1,
                 failure_count := failure_count b0 + 1,
                 recent_failures :=
                   filter (\<lambda>t. t > now - 3600 * NANOS) (recent_failures b0 @ [now])\<rparr>
      in case cb_state b of
           Closed \<Rightarrow>
             (let failure_rate = f64_div (f64_of_nat (unat (total_failures b)))
                                         (f64_of_nat (unat (max (total_requests b) 1)))
              in if failure_count b \<ge> failure_threshold (config b)
                    \<or> failure_rate > failure_rate_threshold (config b)
                 then b\<lparr>cb_state := Open, opened_at := Some now\<rparr>
                 else b)
         | HalfOpen \<Rightarrow> b\<lparr>cb_state := Open, opened_at := Some now, success_count := 0\<rparr>
         | Open \<Rightarrow> b)"

text \<open>\<open>TimeDelta::num_seconds\<close> truncates towards zero; \<open>as i64\<close> reinterprets the bits.\<close>

definition num_seconds :: "int \<Rightarrow> int" where
  "num_seconds d = sgn d * (\<bar>d\<bar> div NANOS)"

definition allow_request :: "instant \<Rightarrow> EndpointCircuitBreaker \<Rightarrow> bool \<times> EndpointCircuitBreaker" where
  "allow_request now b =
     (case cb_state b of
        Closed \<Rightarrow> (True, b)
      | Open \<Rightarrow>
          (case opened_at b of
             Some t \<Rightarrow>
               (if num_seconds (now - t) \<ge> sint (open_duration_secs (config b))
                then (True, b\<lparr>cb_state := HalfOpen, half_open_at := Some now, success_count := 0\<rparr>)
                else (False, b))
           | None \<Rightarrow> (False, b))
      | HalfOpen \<Rightarrow> (True, b))"

definition calculate_backoff_secs :: "EndpointCircuitBreaker \<Rightarrow> u64" where
  "calculate_backoff_secs b =
     (let n = min (length (recent_failures b)) 32
      in if n = 0 then 0 else min (2 ^ (n - 1)) 3600)"

definition failure_rate :: "EndpointCircuitBreaker \<Rightarrow> f64" where
  "failure_rate b =
     (if total_requests b = 0 then 0
      else f64_div (f64_of_nat (unat (total_failures b))) (f64_of_nat (unat (total_requests b))))"

section \<open>The manager\<close>

record CircuitBreakerManager =
  breakers :: "string \<rightharpoonup> EndpointCircuitBreaker"
  default_config :: CircuitBreakerConfig

definition manager_new :: "CircuitBreakerConfig \<Rightarrow> CircuitBreakerManager" where
  "manager_new cfg = \<lparr>breakers = Map.empty, default_config = cfg\<rparr>"

definition manager_allow_request ::
  "instant \<Rightarrow> string \<Rightarrow> CircuitBreakerManager \<Rightarrow> bool \<times> CircuitBreakerManager" where
  "manager_allow_request now endpoint m =
     (let b = (case breakers m endpoint of None \<Rightarrow> breaker_new (default_config m) | Some b \<Rightarrow> b);
          (ok, b') = allow_request now b
      in (ok, m\<lparr>breakers := (breakers m)(endpoint \<mapsto> b')\<rparr>))"

definition manager_record_success :: "string \<Rightarrow> CircuitBreakerManager \<Rightarrow> CircuitBreakerManager" where
  "manager_record_success endpoint m =
     (case breakers m endpoint of None \<Rightarrow> m
      | Some b \<Rightarrow> m\<lparr>breakers := (breakers m)(endpoint \<mapsto> record_success b)\<rparr>)"

definition manager_record_failure ::
  "instant \<Rightarrow> string \<Rightarrow> CircuitBreakerManager \<Rightarrow> CircuitBreakerManager" where
  "manager_record_failure now endpoint m =
     (case breakers m endpoint of None \<Rightarrow> m
      | Some b \<Rightarrow> m\<lparr>breakers := (breakers m)(endpoint \<mapsto> record_failure now b)\<rparr>)"

definition manager_get_state :: "string \<Rightarrow> CircuitBreakerManager \<Rightarrow> CircuitBreakerState option" where
  "manager_get_state endpoint m = map_option cb_state (breakers m endpoint)"

definition breaker_reset :: "EndpointCircuitBreaker \<Rightarrow> EndpointCircuitBreaker" where
  "breaker_reset b =
     b\<lparr>cb_state := Closed, failure_count := 0, success_count := 0, opened_at := None,
       half_open_at := None\<rparr>"

definition manager_reset :: "string \<Rightarrow> CircuitBreakerManager \<Rightarrow> CircuitBreakerManager" where
  "manager_reset endpoint m =
     (case breakers m endpoint of None \<Rightarrow> m
      | Some b \<Rightarrow> m\<lparr>breakers := (breakers m)(endpoint \<mapsto> breaker_reset b)\<rparr>)"

record EndpointCircuitBreakerStats =
  st_endpoint :: string
  st_state :: CircuitBreakerState
  st_failure_count :: u32
  st_success_count :: u32
  st_total_requests :: u64
  st_total_failures :: u64
  st_failure_rate :: f64
  st_backoff_seconds :: u64
  st_opened_at :: "instant option"
  st_half_open_at :: "instant option"

definition manager_get_stats ::
  "string \<Rightarrow> CircuitBreakerManager \<Rightarrow> EndpointCircuitBreakerStats option" where
  "manager_get_stats endpoint m =
     map_option (\<lambda>b. \<lparr>st_endpoint = endpoint, st_state = cb_state b,
       st_failure_count = failure_count b, st_success_count = success_count b,
       st_total_requests = total_requests b, st_total_failures = total_failures b,
       st_failure_rate = failure_rate b, st_backoff_seconds = calculate_backoff_secs b,
       st_opened_at = opened_at b, st_half_open_at = half_open_at b\<rparr>) (breakers m endpoint)"

section \<open>The breaker as a state machine\<close>

inductive breaker_step :: "EndpointCircuitBreaker \<Rightarrow> EndpointCircuitBreaker \<Rightarrow> bool" where
  success: "breaker_step b (record_success b)"
| failure: "breaker_step b (record_failure now b)"
| ask: "breaker_step b (snd (allow_request now b))"
| reset: "breaker_step b (breaker_reset b)"

inductive breaker_reachable :: "CircuitBreakerConfig \<Rightarrow> EndpointCircuitBreaker \<Rightarrow> bool"
  for cfg where
  init: "breaker_reachable cfg (breaker_new cfg)"
| step: "breaker_reachable cfg b \<Longrightarrow> breaker_step b b' \<Longrightarrow> breaker_reachable cfg b'"

inductive_cases breaker_stepE: "breaker_step b b'"

text \<open>
  The timestamps agree with the state: an open or half-open breaker knows when it opened, a
  half-open one when it started probing, a closed one has neither; and a half-open breaker has not
  yet reached its success threshold.
\<close>

definition breaker_inv :: "CircuitBreakerConfig \<Rightarrow> EndpointCircuitBreaker \<Rightarrow> bool" where
  "breaker_inv cfg b \<longleftrightarrow> config b = cfg \<and>
     (case cb_state b of
        Closed \<Rightarrow> opened_at b = None \<and> half_open_at b = None
      | Open \<Rightarrow> opened_at b \<noteq> None
      | HalfOpen \<Rightarrow> opened_at b \<noteq> None \<and> half_open_at b \<noteq> None \<and>
          (success_count b = 0 \<or> success_count b < success_threshold_half_open cfg))"

lemmas breaker_defs = record_success_def record_failure_def allow_request_def breaker_reset_def
  breaker_new_def Let_def

lemma breaker_step_inv: "breaker_step b b' \<Longrightarrow> breaker_inv cfg b \<Longrightarrow> breaker_inv cfg b'"
proof (erule breaker_stepE)
  assume "b' = record_success b" "breaker_inv cfg b"
  then show "breaker_inv cfg b'"
    by (cases "cb_state b") (auto simp: breaker_inv_def breaker_defs not_le)
next
  fix now assume "b' = record_failure now b" "breaker_inv cfg b"
  then show "breaker_inv cfg b'"
    by (cases "cb_state b") (auto simp: breaker_inv_def breaker_defs)
next
  fix now assume "b' = snd (allow_request now b)" "breaker_inv cfg b"
  then show "breaker_inv cfg b'"
    by (cases "cb_state b") (auto simp: breaker_inv_def breaker_defs split: option.splits)
next
  assume "b' = breaker_reset b" "breaker_inv cfg b"
  then show "breaker_inv cfg b'"
    by (auto simp: breaker_inv_def breaker_defs split: CircuitBreakerState.splits)
qed

lemma breaker_reachable_inv: "breaker_reachable cfg b \<Longrightarrow> breaker_inv cfg b"
proof (induction rule: breaker_reachable.induct)
  case init
  then show ?case by (simp add: breaker_inv_def breaker_new_def)
next
  case (step b b')
  then show ?case by (blast intro: breaker_step_inv)
qed

section \<open>Consecutive outcomes\<close>

lemma record_failure_opens:
  assumes "cb_state b = Closed" and "failure_count b + 1 \<ge> failure_threshold (config b)"
  shows "cb_state (record_failure now b) = Open"
  using assms by (simp add: record_failure_def Let_def)

lemma record_failure_stays_open: "cb_state b = Open \<Longrightarrow> cb_state (record_failure now b) = Open"
  by (simp add: record_failure_def)

lemma record_failure_frame [simp]:
  "config (record_failure now b) = config b"
  "failure_count (record_failure now b) = failure_count b + 1"
  by (cases "cb_state b"; simp add: record_failure_def Let_def)+

lemma failures_stay_open: "cb_state b = Open \<Longrightarrow> cb_state (fold record_failure ts b) = Open"
  by (induction ts arbitrary: b) (simp_all add: record_failure_stays_open)

lemma record_failure_closed_or_open:
  "cb_state b = Closed \<Longrightarrow> cb_state (record_failure now b) \<in> {Closed, Open}"
  by (simp add: record_failure_def Let_def)

lemma failures_open:
  assumes "cb_state b = Closed" and "ts \<noteq> []"
    and "unat (failure_threshold (config b)) \<le> unat (failure_count b) + length ts"
    and "unat (failure_count b) + length ts < 2 ^ 32"
  shows "cb_state (fold record_failure ts b) = Open"
  using assms
proof (induction ts arbitrary: b)
  case Nil
  then show ?case by simp
next
  case (Cons t ts)
  have fc: "unat (failure_count b + 1) = unat (failure_count b) + 1"
    using Cons.prems(4) by (intro unat_Suc_word) simp
  show ?case
  proof (cases "cb_state (record_failure t b) = Open")
    case True
    then show ?thesis by (simp add: failures_stay_open)
  next
    case False
    then have closed: "cb_state (record_failure t b) = Closed"
      using record_failure_closed_or_open [OF Cons.prems(1), of t] by simp
    have "ts \<noteq> []"
      using False Cons.prems fc record_failure_opens [OF Cons.prems(1), of t]
      by (auto simp: word_le_nat_alt)
    then show ?thesis
      using Cons.IH [OF closed] Cons.prems fc by simp
  qed
qed

lemma record_success_half_open:
  assumes "cb_state b = HalfOpen"
  shows "cb_state (record_success b) =
      (if success_count b + 1 \<ge> success_threshold_half_open (config b) then Closed else HalfOpen)"
    and "cb_state (record_success b) = HalfOpen \<Longrightarrow> success_count (record_success b) = success_count b + 1"
    and "config (record_success b) = config b"
  using assms by (auto simp: record_success_def Let_def)

lemma record_success_closed: "cb_state b = Closed \<Longrightarrow> cb_state (record_success b) = Closed"
  by (simp add: record_success_def)

lemma successes_stay_closed: "cb_state b = Closed \<Longrightarrow> cb_state ((record_success ^^ n) b) = Closed"
  by (induction n) (simp_all add: record_success_closed)

lemma successes_close:
  assumes "cb_state b = HalfOpen" and "n > 0"
    and "unat (success_threshold_half_open (config b)) \<le> unat (success_count b) + n"
    and "unat (success_count b) + n < 2 ^ 32"
  shows "cb_state ((record_success ^^ n) b) = Closed"
  using assms
proof (induction n arbitrary: b)
  case 0
  then show ?case by simp
next
  case (Suc n)
  have sc: "unat (success_count b + 1) = unat (success_count b) + 1"
    using Suc.prems(4) by (intro unat_Suc_word) simp
  have step: "(record_success ^^ Suc n) b = (record_success ^^ n) (record_success b)"
    by (simp only: funpow_Suc_right comp_apply)
  show ?case
  proof (cases "cb_state (record_success b) = Closed")
    case True
    then show ?thesis unfolding step by (rule successes_stay_closed)
  next
    case False
    with record_success_half_open [OF Suc.prems(1)]
    have half: "cb_state (record_success b) = HalfOpen"
      and lt: "success_count b + 1 < success_threshold_half_open (config b)"
      by (auto simp: not_le split: if_splits)
    have "n > 0"
      using lt Suc.prems(3) sc by (auto simp: word_less_nat_alt)
    then show ?thesis
      unfolding step using Suc.prems sc half record_success_half_open [OF Suc.prems(1)]
      by (intro Suc.IH) simp_all
  qed
qed

section \<open>Properties\<close>

text \<open>
  Recovery and isolation. In every reachable state, an open breaker knows the instant \<open>t\<close> at
  which it opened. Until the configured open duration has passed it rejects every request and does
  not change; from then on it lets a request through as a half-open probe, and
  \<open>success_threshold_half_open\<close> successes in a row close it again. A breaker is never stuck open.
\<close>

theorem breaker_recovers:
  assumes "breaker_reachable cfg b" and "cb_state b = Open"
    and "unat (open_duration_secs cfg) < 2 ^ 63" and "0 < success_threshold_half_open cfg"
  shows "\<exists>t. opened_at b = Some t \<and>
    (\<forall>now. t \<le> now \<and> now < t + int (unat (open_duration_secs cfg)) * NANOS \<longrightarrow>
       allow_request now b = (False, b)) \<and>
    (\<forall>now. t + int (unat (open_duration_secs cfg)) * NANOS \<le> now \<longrightarrow>
       fst (allow_request now b) \<and> cb_state (snd (allow_request now b)) = HalfOpen \<and>
       cb_state ((record_success ^^ unat (success_threshold_half_open cfg))
         (snd (allow_request now b))) = Closed)"
proof -
  from breaker_reachable_inv [OF assms(1)] assms(2)
  obtain t where t: "opened_at b = Some t" and cfg: "config b = cfg"
    by (auto simp: breaker_inv_def)
  let ?d = "int (unat (open_duration_secs cfg))"
  have sint: "sint (open_duration_secs (config b)) = ?d"
    using assms(3) cfg by (simp add: sint_u64_small)
  have early: "\<not> ?d \<le> num_seconds (now - t)" if "t \<le> now" "now < t + ?d * NANOS" for now
  proof -
    have "(now - t) div NANOS < ?d"
      using that by (simp add: NANOS_def)
    then show ?thesis
      using that by (auto simp: num_seconds_def sgn_if)
  qed
  have late: "num_seconds (now - t) \<ge> ?d" if "t + ?d * NANOS \<le> now" for now
  proof -
    have "?d \<le> (now - t) div NANOS"
      using that by (simp add: NANOS_def)
    moreover have "0 \<le> ?d * NANOS"
      by (simp add: NANOS_def)
    then have "0 \<le> now - t"
      using that by linarith
    ultimately show ?thesis
      by (auto simp: num_seconds_def sgn_if)
  qed
  let ?h = "\<lambda>now. b\<lparr>cb_state := HalfOpen, half_open_at := Some now, success_count := 0\<rparr>"
  have "cb_state ((record_success ^^ unat (success_threshold_half_open cfg)) (?h now)) = Closed" for now
    using assms(4) cfg unsigned_less [of "success_threshold_half_open cfg"]
    by (intro successes_close) (simp_all add: unat_gt_0 word_neq_0_conv)
  then show ?thesis
    using t early late sint assms(2)
    by (intro exI [of _ t]) (auto simp: allow_request_def not_less not_le [symmetric])
qed

theorem breaker_recovers_witness:
  "cb_state (snd (allow_request (60 * NANOS) (record_failure 0 (breaker_new CircuitBreakerConfig_default))))
     = HalfOpen"
proof -
  let ?c = CircuitBreakerConfig_default
  let ?b = "record_failure 0 (breaker_new ?c)"
  have r: "breaker_reachable ?c ?b"
    by (intro breaker_reachable.step [OF breaker_reachable.init] breaker_step.failure)
  have o: "cb_state ?b = Open"
    by (simp add: record_failure_def breaker_new_def CircuitBreakerConfig_default_def f64_div_def
        f64_of_nat_exact f64_rnd_one)
  have "opened_at ?b = Some 0"
    using o by (auto simp: record_failure_def breaker_new_def Let_def split: if_splits)
  then show ?thesis
    using breaker_recovers [OF r o] by (simp add: CircuitBreakerConfig_default_def)
qed

text \<open>
  A closed breaker opens after at most \<open>failure_threshold\<close> consecutive failures: whatever the
  failure-rate setting and the clock readings, once as many failures in a row as the threshold
  have been recorded (counting those already in the streak) the breaker is open, and further
  failures keep it open.
\<close>

theorem breaker_opens_after_threshold:
  assumes "cb_state b = Closed" and "ts \<noteq> []"
    and "unat (failure_threshold (config b)) \<le> unat (failure_count b) + length ts"
    and "unat (failure_count b) + length ts < 2 ^ 32"
  shows "cb_state (fold record_failure ts b) = Open"
  using assms by (rule failures_open)

theorem breaker_opens_after_threshold_witness:
  "cb_state (fold record_failure [1, 2, 3, 4, 5] (breaker_new CircuitBreakerConfig_default)) = Open"
  using breaker_opens_after_threshold [of "breaker_new CircuitBreakerConfig_default" "[1, 2, 3, 4, 5]"]
  by (simp add: breaker_new_def CircuitBreakerConfig_default_def)

text \<open>
  The failure-rate rule has no minimum sample: with any rate threshold below one the very first
  failure of a fresh endpoint already opens its breaker, because the rate is then 1/1. The
  documented default of five consecutive failures therefore never takes effect on a new endpoint.
\<close>

theorem first_failure_opens:
  assumes "failure_rate_threshold cfg < 1"
  shows "cb_state (record_failure now (breaker_new cfg)) = Open"
  using assms by (simp add: record_failure_def breaker_new_def Let_def f64_div_def f64_of_nat_exact
      f64_rnd_one)

theorem first_failure_opens_witness:
  "failure_threshold CircuitBreakerConfig_default = 5 \<and>
   cb_state (record_failure 0 (breaker_new CircuitBreakerConfig_default)) = Open"
  using first_failure_opens [of CircuitBreakerConfig_default 0]
  by (simp add: CircuitBreakerConfig_default_def)

end
