(* ===== verification/Cursor_Expiry.thy ===== *)
theory Cursor_Expiry
  imports Prelude
begin

text \<open>
  Model of \<open>src/cursor_expiry_handler.rs\<close>: recognising an expired pagination cursor from an RPC
  error message, and the bounded exponential backoff applied before the indexer falls back to
  ledger-based pagination.

  The source lower-cases with the Unicode tables. No character outside ASCII lower-cases to
  text in which one of the indicator words appears, so ASCII lower-casing decides the same.
\<close>

section \<open>Operations\<close>

definition cursor_expiry_indicators :: "string list" where
  "cursor_expiry_indicators = [''cursor'', ''expired'', ''invalid cursor'',
     ''cursor is no longer valid'', ''pagination cursor expired'']"

definition is_cursor_expiry_error :: "string \<Rightarrow> bool" where
  "is_cursor_expiry_error error_msg \<longleftrightarrow>
     (let lower_msg = to_ascii_lowercase error_msg
      in list_ex (contains_str lower_msg) cursor_expiry_indicators)"

record CursorExpiryBackoff =
  initial_backoff_ms :: u64
  max_backoff_ms :: u64
  current_backoff_ms :: u64
  retry_count :: u32
  max_retries :: u32

definition backoff_with_config :: "u64 \<Rightarrow> u64 \<Rightarrow> u32 \<Rightarrow> CursorExpiryBackoff" where
  "backoff_with_config initial maxi retries =
     \<lparr>initial_backoff_ms = initial, max_backoff_ms = maxi, current_backoff_ms = initial,
      retry_count = 0, max_retries = retries\<rparr>"

definition backoff_new :: CursorExpiryBackoff where
  "backoff_new = backoff_with_config 100 30000 5"

text \<open>The returned delay is in milliseconds; multiplication and power wrap at 64 bits.\<close>

definition next_backoff :: "CursorExpiryBackoff \<Rightarrow> u64 \<times> CursorExpiryBackoff" where
  "next_backoff b0 =
     (let b1 = b0\<lparr>retry_count := retry_count b0 + 1\<rparr>;
          exponential = initial_backoff_ms b1 * 2 ^ unat (saturating_sub (retry_count b1) 1);
          b2 = b1\<lparr>current_backoff_ms := min exponential (max_backoff_ms b1)\<rparr>
      in (current_backoff_ms b2, b2))"

definition should_fallback :: "CursorExpiryBackoff \<Rightarrow> bool" where
  "should_fallback b \<longleftrightarrow> retry_count b \<ge> max_retries b"

definition backoff_reset :: "CursorExpiryBackoff \<Rightarrow> CursorExpiryBackoff" where
  "backoff_reset b = b\<lparr>retry_count := 0, current_backoff_ms := initial_backoff_ms b\<rparr>"

section \<open>Facts\<close>

lemma is_cursor_expiry_error_iff:
  "is_cursor_expiry_error m \<longleftrightarrow>
     contains_str (to_ascii_lowercase m) ''cursor'' \<or> contains_str (to_ascii_lowercase m) ''expired''"
  unfolding is_cursor_expiry_error_def cursor_expiry_indicators_def Let_def
  using contains_str_part [of "to_ascii_lowercase m" "''invalid ''" "''cursor''" "[]"]
    contains_str_part [of "to_ascii_lowercase m" "[]" "''cursor''" "'' is no longer valid''"]
    contains_str_part [of "to_ascii_lowercase m" "''pagination ''" "''cursor''" "'' expired''"]
  by auto

lemma next_backoff_frame [simp]:
  "initial_backoff_ms (snd (next_backoff b)) = initial_backoff_ms b"
  "max_backoff_ms (snd (next_backoff b)) = max_backoff_ms b"
  "max_retries (snd (next_backoff b)) = max_retries b"
  "retry_count (snd (next_backoff b)) = retry_count b + 1"
  "current_backoff_ms (snd (next_backoff b)) = fst (next_backoff b)"
  by (simp_all add: next_backoff_def Let_def)

lemma next_backoff_capped: "fst (next_backoff b) \<le> max_backoff_ms b"
  by (simp add: next_backoff_def Let_def)

text \<open>While nothing wraps, the delay is \<open>initial * 2 ^ retries\<close>, capped.\<close>

lemma next_backoff_value:
  assumes "unat (initial_backoff_ms b) * 2 ^ unat (retry_count b) < 2 ^ 64"
    and "unat (retry_count b) + 1 < 2 ^ 32"
  shows "unat (fst (next_backoff b)) =
    min (unat (initial_backoff_ms b) * 2 ^ unat (retry_count b)) (unat (max_backoff_ms b))"
proof (cases "unat (initial_backoff_ms b) = 0")
  case True
  then show ?thesis
    by (simp add: next_backoff_def Let_def unat_eq_0)
next
  case False
  have n: "unat (retry_count b + 1) = Suc (unat (retry_count b))"
    using assms(2) unat_Suc_word [of "retry_count b"] by simp
  have "2 ^ unat (retry_count b) \<le> unat (initial_backoff_ms b) * 2 ^ unat (retry_count b)"
    using False by simp
  with assms(1) have "(2 :: nat) ^ unat (retry_count b) < 2 ^ 64"
    by linarith
  then have "unat ((2 :: u64) ^ unat (retry_count b)) = 2 ^ unat (retry_count b)"
    using unat_power_small [of 2 "unat (retry_count b)", where 'a = 64] by simp
  then have "unat (initial_backoff_ms b * 2 ^ unat (retry_count b)) =
      unat (initial_backoff_ms b) * 2 ^ unat (retry_count b)"
    using assms(1) by (simp add: unat_word_ariths)
  then show ?thesis
    by (simp add: next_backoff_def Let_def n min_def word_le_nat_alt)
qed

text \<open>The delays a handler hands out before it asks for the fallback.\<close>

fun backoff_run :: "nat \<Rightarrow> CursorExpiryBackoff \<Rightarrow> u64 list" where
  "backoff_run 0 b = []"
| "backoff_run (Suc n) b =
     (if should_fallback b then []
      else fst (next_backoff b) # backoff_run n (snd (next_backoff b)))"

section \<open>Properties\<close>

text \<open>
  Cursor-expiry backoff: with the configuration the indexer uses, a cursor that stays expired
  is retried exactly five times, after 100, 200, 400, 800 and 1600 milliseconds, and then the
  handler asks for the fallback to ledger-based pagination, however often it is asked; a reset
  makes the same sequence available again.
\<close>

theorem cursor_backoff_schedule:
  "backoff_run (n + 5) backoff_new = [100, 200, 400, 800, 1600] \<and>
   backoff_reset ((snd \<circ> next_backoff) ((snd \<circ> next_backoff) backoff_new)) = backoff_new"
proof -
  have e: "n + 5 = Suc (Suc (Suc (Suc (Suc n))))"
    by simp
  have "backoff_run n (backoff_new\<lparr>retry_count := 5, current_backoff_ms := c\<rparr>) = []" for c
    by (cases n) (simp_all add: should_fallback_def backoff_new_def backoff_with_config_def)
  then show ?thesis
    unfolding e by (simp add: backoff_new_def backoff_with_config_def should_fallback_def
        next_backoff_def backoff_reset_def saturating_sub_def Let_def word_le_nat_alt)
qed

end
