(* ===== verification/Retry_Policy.thy ===== *)
theory Retry_Policy
  imports F64
begin

text \<open>
  Model of \<open>src/retry_policy.rs\<close>: backoff strategies, the retry loop with and without metrics, and
  the registry of named policies.

  Two floating-point computations are parameters: \<open>expo attempt initial multiplier\<close> is the
  value of \<open>(initial as f64 * multiplier.powi(attempt - 1)) as u64\<close> (the precision of \<open>powi\<close> is
  platform dependent) and \<open>jit\<close> is the randomised \<open>apply_jitter\<close>. The asynchronous operation is a
  function from the attempt number to its result; the model returns the delays that are slept.
\<close>

section \<open>Policies\<close>

datatype RetryStrategy = Exponential | Linear | Fixed

type_synonym expo = "u32 \<Rightarrow> u64 \<Rightarrow> f64 \<Rightarrow> u64"

definition strategy_backoff :: "expo \<Rightarrow> RetryStrategy \<Rightarrow> u32 \<Rightarrow> u64 \<Rightarrow> f64 \<Rightarrow> u64" where
  "strategy_backoff expo s attempt initial_ms multiplier =
     (case s of
        Exponential \<Rightarrow> expo attempt initial_ms multiplier
      | Linear \<Rightarrow> initial_ms * ucast attempt
      | Fixed \<Rightarrow> initial_ms)"

record RetryPolicy =
  max_attempts :: u32
  rp_initial_backoff_ms :: u64
  backoff_multiplier :: f64
  rp_max_backoff_ms :: u64
  strategy :: "RetryStrategy option"
  use_jitter :: bool

definition RetryPolicy_default :: RetryPolicy where
  "RetryPolicy_default = \<lparr>max_attempts = 3, rp_initial_backoff_ms = 1000, backoff_multiplier = 2,
     rp_max_backoff_ms = 60000, strategy = Some Exponential, use_jitter = False\<rparr>"

definition webhook_default :: RetryPolicy where
  "webhook_default = \<lparr>max_attempts = 5, rp_initial_backoff_ms = 1000, backoff_multiplier = 2,
     rp_max_backoff_ms = 600000, strategy = Some Exponential, use_jitter = True\<rparr>"

definition email_default :: RetryPolicy where
  "email_default = \<lparr>max_attempts = 1, rp_initial_backoff_ms = 0, backoff_multiplier = 1,
     rp_max_backoff_ms = 0, strategy = Some Fixed, use_jitter = False\<rparr>"

definition sms_default :: RetryPolicy where
  "sms_default = \<lparr>max_attempts = 2, rp_initial_backoff_ms = 2000, backoff_multiplier = 3 / 2,
     rp_max_backoff_ms = 10000, strategy = Some Linear, use_jitter = True\<rparr>"

definition calculate_backoff :: "expo \<Rightarrow> (u64 \<Rightarrow> u64) \<Rightarrow> RetryPolicy \<Rightarrow> u32 \<Rightarrow> u64" where
  "calculate_backoff expo jit pol attempt =
     (if attempt = 0 \<or> rp_initial_backoff_ms pol = 0 then 0
      else let s = (case strategy pol of None \<Rightarrow> Exponential | Some s \<Rightarrow> s);
               backoff_ms = strategy_backoff expo s attempt (rp_initial_backoff_ms pol)
                              (backoff_multiplier pol);
               capped = min backoff_ms (rp_max_backoff_ms pol)
           in if use_jitter pol then jit capped else capped)"

section \<open>The retry loop\<close>

text \<open>
  One iteration of the \<open>loop\<close>: a success returns, an error is retried after a delay while the
  attempt number is below the limit, otherwise the error is returned.
\<close>

function retry_loop ::
  "(u32 \<Rightarrow> u64) \<Rightarrow> u32 \<Rightarrow> (u32 \<Rightarrow> 'e + 'a) \<Rightarrow> u32 \<Rightarrow> u64 list \<Rightarrow> ('e + 'a) \<times> u64 list" where
  "retry_loop backoff max_att operation attempt slept =
     (case operation attempt of
        Inr r \<Rightarrow> (Inr r, slept)
      | Inl e \<Rightarrow>
          if attempt < max_att
          then retry_loop backoff max_att operation (attempt + 1) (slept @ [backoff attempt])
          else (Inl e, slept))"
  by pat_completeness auto

termination retry_loop
proof (relation "measure (\<lambda>(_, m, _, a, _). unat m - unat a)", goal_cases)
  case (2 backoff m operation a slept e)
  then show ?case
    using unat_inc_below [of a m] by auto
qed simp

declare retry_loop.simps [simp del]

definition execute_with_retry ::
  "expo \<Rightarrow> (u64 \<Rightarrow> u64) \<Rightarrow> RetryPolicy \<Rightarrow> (u32 \<Rightarrow> 'e + 'a) \<Rightarrow> ('e + 'a) \<times> u64 list" where
  "execute_with_retry expo jit pol operation =
     retry_loop (calculate_backoff expo jit pol) (max (max_attempts pol) 1) operation 1 []"

section \<open>Metrics\<close>

record PolicyCounters =
  attempts :: u64
  successes :: u64
  retries :: u64
  exhausted :: u64
  total_backoff_ms :: u64

definition counters_zero :: PolicyCounters where
  "counters_zero = \<lparr>attempts = 0, successes = 0, retries = 0, exhausted = 0, total_backoff_ms = 0\<rparr>"

type_synonym RetryMetrics = "string \<rightharpoonup> PolicyCounters"

definition counters_for :: "RetryMetrics \<Rightarrow> string \<Rightarrow> PolicyCounters" where
  "counters_for m name = (case m name of None \<Rightarrow> counters_zero | Some c \<Rightarrow> c)"

definition record_attempt :: "string \<Rightarrow> RetryMetrics \<Rightarrow> RetryMetrics" where
  "record_attempt name m = (let c = counters_for m name in m(name \<mapsto> c\<lparr>attempts := attempts c + 1\<rparr>))"

definition metrics_record_success :: "string \<Rightarrow> RetryMetrics \<Rightarrow> RetryMetrics" where
  "metrics_record_success name m =
     (let c = counters_for m name in m(name \<mapsto> c\<lparr>successes := successes c + 1\<rparr>))"

definition record_retry :: "string \<Rightarrow> u64 \<Rightarrow> RetryMetrics \<Rightarrow> RetryMetrics" where
  "record_retry name backoff m =
     (let c = counters_for m name
      in m(name \<mapsto> c\<lparr>retries := retries c + 1, total_backoff_ms := total_backoff_ms c + backoff\<rparr>))"

definition record_exhausted :: "string \<Rightarrow> RetryMetrics \<Rightarrow> RetryMetrics" where
  "record_exhausted name m =
     (let c = counters_for m name in m(name \<mapsto> c\<lparr>exhausted := exhausted c + 1\<rparr>))"

function retry_metrics_loop ::
  "string \<Rightarrow> (u32 \<Rightarrow> u64) \<Rightarrow> u32 \<Rightarrow> (u32 \<Rightarrow> 'e + 'a) \<Rightarrow> u32 \<Rightarrow> u64 list \<Rightarrow> RetryMetrics
     \<Rightarrow> ('e + 'a) \<times> u64 list \<times> RetryMetrics" where
  "retry_metrics_loop name backoff max_att operation attempt slept m =
     (let m1 = record_attempt name m
      in case operation attempt of
           Inr r \<Rightarrow> (Inr r, slept, metrics_record_success name m1)
         | Inl e \<Rightarrow>
             if attempt < max_att
             then retry_metrics_loop name backoff max_att operation (attempt + 1)
                    (slept @ [backoff attempt]) (record_retry name (backoff attempt) m1)
             else (Inl e, slept, record_exhausted name m1))"
  by pat_completeness auto
termination retry_metrics_loop
proof (relation "measure (\<lambda>(_, _, m, _, a, _). unat m - unat a)", goal_cases)
  case (2 name backoff m operation a slept ms ms1 e)
  then show ?case
    using unat_inc_below [of a m] by auto
qed simp

declare retry_metrics_loop.simps [simp del]

definition execute_with_retry_metrics ::
  "expo \<Rightarrow> (u64 \<Rightarrow> u64) \<Rightarrow> RetryPolicy \<Rightarrow> string \<Rightarrow> RetryMetrics \<Rightarrow> (u32 \<Rightarrow> 'e + 'a)
     \<Rightarrow> ('e + 'a) \<times> u64 list \<times> RetryMetrics" where
  "execute_with_retry_metrics expo jit pol name m operation =
     retry_metrics_loop name (calculate_backoff expo jit pol) (max (max_attempts pol) 1) operation 1 [] m"

section \<open>Registry\<close>

type_synonym RetryPolicyRegistry = "string \<rightharpoonup> RetryPolicy"

definition registry_with_defaults :: RetryPolicyRegistry where
  "registry_with_defaults =
     [''webhook'' \<mapsto> webhook_default, ''email'' \<mapsto> email_default, ''sms'' \<mapsto> sms_default]"

definition registry_register :: "string \<Rightarrow> RetryPolicy \<Rightarrow> RetryPolicyRegistry \<Rightarrow> RetryPolicyRegistry" where
  "registry_register name pol r = r(name \<mapsto> pol)"

definition registry_get :: "string \<Rightarrow> RetryPolicyRegistry \<Rightarrow> RetryPolicy option" where
  "registry_get name r = r name"

section \<open>What the loop does\<close>

lemma retry_loop_success:
  assumes "unat a \<le> k" and "k \<le> unat m"
    and "\<And>i. unat a \<le> i \<Longrightarrow> i < k \<Longrightarrow> \<exists>e. op (of_nat i) = Inl e" and "op (of_nat k) = Inr r"
  shows "retry_loop bo m op a sl = (Inr r, sl @ map (\<lambda>i. bo (of_nat i)) [unat a..<k])"
  using assms
proof (induction bo m op a sl rule: retry_loop.induct)
  case (1 bo m op a sl)
  show ?case
  proof (cases "unat a = k")
    case True
    then have "of_nat k = a" by auto
    with "1.prems"(4) True show ?thesis by (subst retry_loop.simps) simp
  next
    case False
    with "1.prems" obtain e where e: "op a = Inl e"
      using "1.prems"(3) [of "unat a"] by auto
    have lt: "a < m"
      using False "1.prems"(1,2) by (simp add: word_less_nat_alt)
    then have u: "unat (a + 1) = Suc (unat a)"
      using unat_inc_below [of a m] by simp
    have "retry_loop bo m op (a + 1) (sl @ [bo a]) =
        (Inr r, (sl @ [bo a]) @ map (\<lambda>i. bo (of_nat i)) [unat (a + 1)..<k])"
      using False "1.prems" u by (intro "1.IH" [OF e lt]) auto
    moreover have "[unat a..<k] = unat a # [unat (a + 1)..<k]"
      using False "1.prems"(1) u by (simp add: upt_conv_Cons)
    ultimately show ?thesis
      using e lt by (subst retry_loop.simps) simp
  qed
qed

lemma retry_loop_exhausted:
  assumes "a \<le> m" and "\<And>i. unat a \<le> i \<Longrightarrow> i \<le> unat m \<Longrightarrow> \<exists>e. op (of_nat i) = Inl e"
  shows "retry_loop bo m op a sl = (op m, sl @ map (\<lambda>i. bo (of_nat i)) [unat a..<unat m])"
  using assms
proof (induction bo m op a sl rule: retry_loop.induct)
  case (1 bo m op a sl)
  obtain e where e: "op a = Inl e"
    using "1.prems"(2) [of "unat a"] "1.prems"(1) by (auto simp: word_le_nat_alt)
  show ?case
  proof (cases "a < m")
    case False
    then have "a = m" using "1.prems"(1) by simp
    with e show ?thesis by (subst retry_loop.simps) simp
  next
    case True
    then have u: "unat (a + 1) = Suc (unat a)" "unat a < unat m"
      using unat_inc_below [of a m] by simp_all
    have "retry_loop bo m op (a + 1) (sl @ [bo a]) =
        (op m, (sl @ [bo a]) @ map (\<lambda>i. bo (of_nat i)) [unat (a + 1)..<unat m])"
      using "1.prems"(2) u by (intro "1.IH" [OF e True]) (auto simp: word_le_nat_alt)
    moreover have "[unat a..<unat m] = unat a # [unat (a + 1)..<unat m]"
      using u by (simp add: upt_conv_Cons)
    ultimately show ?thesis
      using e True by (subst retry_loop.simps) simp
  qed
qed

lemma calculate_backoff_capped:
  assumes "\<And>x. jit x \<le> x"
  shows "calculate_backoff expo jit pol attempt \<le> rp_max_backoff_ms pol"
  using order_trans [OF assms min.cobounded2]
  by (auto simp: calculate_backoff_def Let_def intro: min.cobounded2)

text \<open>Both loops take the same decisions; the second one counts them.\<close>

lemma retry_metrics_loop_result:
  "fst (retry_metrics_loop name bo m op a sl ms) = fst (retry_loop bo m op a sl) \<and>
   fst (snd (retry_metrics_loop name bo m op a sl ms)) = snd (retry_loop bo m op a sl)"
proof (induction name bo m op a sl ms rule: retry_metrics_loop.induct)
  case (1 name bo m op a sl ms)
  show ?case
  proof (cases "op a")
    case (Inr r)
    then show ?thesis
      by (simp add: retry_metrics_loop.simps [of name bo m op a sl ms] retry_loop.simps [of bo m op a sl] Let_def)
  next
    case (Inl e)
    then show ?thesis
      using "1.IH" [OF refl Inl]
      by (auto simp: retry_metrics_loop.simps [of name bo m op a sl ms]
          retry_loop.simps [of bo m op a sl] Let_def)
  qed
qed

lemmas retry_metrics_defs = record_attempt_def metrics_record_success_def record_retry_def
  record_exhausted_def counters_for_def Let_def

definition outstanding :: "PolicyCounters \<Rightarrow> u64" where
  "outstanding c = attempts c - (retries c + successes c + exhausted c)"

lemma retry_metrics_loop_balance:
  "outstanding (counters_for (snd (snd (retry_metrics_loop name bo m op a sl ms))) name) =
     outstanding (counters_for ms name) \<and>
   (\<forall>other. other \<noteq> name \<longrightarrow> snd (snd (retry_metrics_loop name bo m op a sl ms)) other = ms other)"
proof (induction name bo m op a sl ms rule: retry_metrics_loop.induct)
  case (1 name bo m op a sl ms)
  show ?case
  proof (cases "op a")
    case (Inr r)
    then show ?thesis
      by (simp add: retry_metrics_loop.simps [of name bo m op a sl ms] retry_metrics_defs outstanding_def)
  next
    case (Inl e)
    show ?thesis
    proof (cases "a < m")
      case True
      have "outstanding (counters_for (record_retry name (bo a) (record_attempt name ms)) name)
          = outstanding (counters_for ms name)"
        by (simp add: retry_metrics_defs outstanding_def)
      moreover have "record_retry name (bo a) (record_attempt name ms) other = ms other"
        if "other \<noteq> name" for other
        using that by (simp add: retry_metrics_defs)
      ultimately show ?thesis
        using "1.IH" [OF refl Inl True] Inl True
        by (simp add: retry_metrics_loop.simps [of name bo m op a sl ms] Let_def)
    next
      case False
      with Inl show ?thesis
        by (simp add: retry_metrics_loop.simps [of name bo m op a sl ms] retry_metrics_defs outstanding_def)
    qed
  qed
qed

section \<open>Properties\<close>

definition attempt_limit :: "RetryPolicy \<Rightarrow> nat" where
  "attempt_limit pol = max 1 (unat (max_attempts pol))"

definition is_success :: "'e + 'a \<Rightarrow> bool" where
  "is_success r = (case r of Inl _ \<Rightarrow> False | Inr _ \<Rightarrow> True)"

lemma unat_limit: "unat (max (max_attempts pol) 1) = attempt_limit pol"
  by (auto simp: attempt_limit_def max_def word_le_nat_alt)

lemma execute_with_retry_result:
  "execute_with_retry expo jit pol op =
     (let bo = (\<lambda>i. calculate_backoff expo jit pol (of_nat i)) in
      case find (\<lambda>i. is_success (op (of_nat i))) [1..<Suc (attempt_limit pol)] of
        Some k \<Rightarrow> (op (of_nat k), map bo [1..<k])
      | None \<Rightarrow> (op (of_nat (attempt_limit pol)), map bo [1..<attempt_limit pol]))"
proof (cases "find (\<lambda>i. is_success (op (of_nat i))) [1..<Suc (attempt_limit pol)]")
  case (Some k)
  let ?m = "max (max_attempts pol) 1"
  from Some obtain j where j: "j < attempt_limit pol" "k = Suc j" "is_success (op (of_nat k))"
    and before: "\<And>i. i < j \<Longrightarrow> \<not> is_success (op (of_nat (Suc i)))"
    by (auto simp: find_Some_iff simp del: upt_Suc)
  then obtain r where r: "op (of_nat k) = Inr r"
    by (auto simp: is_success_def split: sum.splits)
  have "\<exists>e. op (of_nat i) = Inl e" if i: "1 \<le> i" "i < k" for i
  proof -
    obtain i' where "i = Suc i'" "i' < j"
      using i j(2) by (cases i) auto
    then show ?thesis
      using before [of i'] by (cases "op (of_nat i)") (auto simp: is_success_def)
  qed
  then have "retry_loop (calculate_backoff expo jit pol) ?m op 1 [] =
      (Inr r, [] @ map (\<lambda>i. calculate_backoff expo jit pol (of_nat i)) [unat (1 :: u32)..<k])"
    using j r by (intro retry_loop_success) (simp_all add: unat_limit)
  then show ?thesis
    using Some r by (simp add: execute_with_retry_def Let_def)
next
  case None
  let ?m = "max (max_attempts pol) 1"
  have "\<exists>e. op (of_nat i) = Inl e" if "1 \<le> i" "i \<le> attempt_limit pol" for i
    using None that
    by (cases "op (of_nat i)") (auto simp: find_None_iff is_success_def less_Suc_eq_le simp del: upt_Suc)
  then have "retry_loop (calculate_backoff expo jit pol) ?m op 1 [] =
      (op ?m, [] @ map (\<lambda>i. calculate_backoff expo jit pol (of_nat i)) [unat (1 :: u32)..<unat ?m])"
    by (intro retry_loop_exhausted) (simp_all add: unat_limit)
  moreover have "of_nat (attempt_limit pol) = ?m"
    by (simp flip: unat_limit)
  ultimately show ?thesis
    using None by (simp add: execute_with_retry_def unat_limit Let_def)
qed

text \<open>
  The retry loop, completely: it always returns; it makes at least one attempt and at most
  \<open>max(1, max_attempts)\<close>; it returns the result of the first attempt that succeeds, having slept
  exactly the backoff of every failed attempt before it, in order; if none succeeds it returns
  the error of the last attempt.
\<close>

theorem execute_with_retry_spec:
  "execute_with_retry expo jit pol op =
     (let bo = (\<lambda>i. calculate_backoff expo jit pol (of_nat i)) in
      case find (\<lambda>i. is_success (op (of_nat i))) [1..<Suc (attempt_limit pol)] of
        Some k \<Rightarrow> (op (of_nat k), map bo [1..<k])
      | None \<Rightarrow> (op (of_nat (attempt_limit pol)), map bo [1..<attempt_limit pol]))"
  by (rule execute_with_retry_result)

text \<open>
  Delays are bounded: if jitter never lengthens a delay, every delay the loop sleeps is at most
  the policy's \<open>max_backoff_ms\<close>, and there are fewer delays than attempts allowed.
\<close>

theorem retry_delays_bounded:
  assumes "\<And>x. jit x \<le> x"
  shows "list_all (\<lambda>d. d \<le> rp_max_backoff_ms pol) (snd (execute_with_retry expo jit pol op)) \<and>
    length (snd (execute_with_retry expo jit pol op)) < attempt_limit pol"
proof -
  have capped: "list_all (\<lambda>d. d \<le> rp_max_backoff_ms pol)
      (map (\<lambda>i. calculate_backoff expo jit pol (of_nat i)) js)" for js
    using calculate_backoff_capped [OF assms] by (simp add: list_all_iff)
  have limit: "1 \<le> attempt_limit pol"
    by (simp add: attempt_limit_def)
  show ?thesis
  proof (cases "find (\<lambda>i. is_success (op (of_nat i))) [1..<Suc (attempt_limit pol)]")
    case None
    then show ?thesis
      using capped limit by (simp add: execute_with_retry_spec Let_def del: upt_Suc)
  next
    case (Some k)
    then have "1 \<le> k \<and> k \<le> attempt_limit pol"
      by (auto simp: find_Some_iff simp del: upt_Suc)
    then have "k - 1 < attempt_limit pol"
      by linarith
    then show ?thesis
      using Some capped limit by (simp add: execute_with_retry_spec Let_def del: upt_Suc)
  qed
qed

theorem retry_delays_bounded_witness:
  "list_all (\<lambda>d. d \<le> rp_max_backoff_ms RetryPolicy_default)
     (snd (execute_with_retry (\<lambda>_ i _. i) (\<lambda>x. x) RetryPolicy_default (\<lambda>a. Inl a :: u32 + nat))) \<and>
   snd (execute_with_retry (\<lambda>_ i _. i) (\<lambda>x. x) RetryPolicy_default (\<lambda>a. Inl a :: u32 + nat))
     = [1000, 1000]"
proof
  have "(\<lambda>x. x) (x :: u64) \<le> x" for x
    by simp
  from retry_delays_bounded [OF this, of RetryPolicy_default "\<lambda>_ i _. i" "\<lambda>a. Inl a :: u32 + nat"]
  show "list_all (\<lambda>d. d \<le> rp_max_backoff_ms RetryPolicy_default)
     (snd (execute_with_retry (\<lambda>_ i _. i) (\<lambda>x. x) RetryPolicy_default (\<lambda>a. Inl a :: u32 + nat)))"
    by blast
  show "snd (execute_with_retry (\<lambda>_ i _. i) (\<lambda>x. x) RetryPolicy_default
      (\<lambda>a. Inl a :: u32 + nat)) = [1000, 1000]"
    by (simp add: execute_with_retry_def retry_loop.simps calculate_backoff_def strategy_backoff_def
        RetryPolicy_default_def Let_def)
qed

text \<open>
  The metrics variant of the loop behaves exactly like the plain one and its counters always
  balance: it changes only the counters of its own policy, and every attempt it counts is
  accounted for as a retry, a success or an exhaustion.
\<close>

theorem retry_metrics_faithful:
  "(let (res, slept, m') = execute_with_retry_metrics expo jit pol name m op in
      (res, slept) = execute_with_retry expo jit pol op \<and>
      outstanding (counters_for m' name) = outstanding (counters_for m name) \<and>
      m' |` (- {name}) = m |` (- {name}))"
proof -
  let ?r = "execute_with_retry_metrics expo jit pol name m op"
  have "fst ?r = fst (execute_with_retry expo jit pol op)"
    "fst (snd ?r) = snd (execute_with_retry expo jit pol op)"
    by (simp_all add: execute_with_retry_def execute_with_retry_metrics_def retry_metrics_loop_result)
  moreover have "snd (snd ?r) |` (- {name}) = m |` (- {name})"
    by (simp add: execute_with_retry_metrics_def restrict_map_def fun_eq_iff
        retry_metrics_loop_balance)
  ultimately show ?thesis
    by (simp add: execute_with_retry_metrics_def prod_eq_iff split_beta retry_metrics_loop_balance)
qed

end
