(* ===== verification/Webhook_Priority.thy ===== *)
theory Webhook_Priority
  imports Event_Model "HOL-Library.Multiset"
begin

text \<open>
  Model of \<open>src/webhook_priority.rs\<close>: the rules that give an event type a priority and the priority
  queue of webhook deliveries. \<open>std::collections::BinaryHeap\<close> is modelled by its contract: the
  heap is the collection of its elements (a list, in insertion order) and \<open>pop\<close> removes a greatest
  element with respect to \<open>Ord\<close>. Clock readings are parameters.
\<close>

section \<open>Priorities and rules\<close>

datatype WebhookPriority = Low | Normal | High | Critical

fun prio_rank :: "WebhookPriority \<Rightarrow> nat" where
  "prio_rank Low = 0"
| "prio_rank Normal = 1"
| "prio_rank High = 2"
| "prio_rank Critical = 3"

lemma prio_rank_inj [simp]: "prio_rank a = prio_rank b \<longleftrightarrow> a = b"
  by (cases a; cases b) simp_all

instantiation WebhookPriority :: linorder
begin

definition less_eq_WebhookPriority :: "WebhookPriority \<Rightarrow> WebhookPriority \<Rightarrow> bool" where
  "less_eq_WebhookPriority a b \<longleftrightarrow> prio_rank a \<le> prio_rank b"

definition less_WebhookPriority :: "WebhookPriority \<Rightarrow> WebhookPriority \<Rightarrow> bool" where
  "less_WebhookPriority a b \<longleftrightarrow> prio_rank a < prio_rank b"

instance
  by standard (auto simp: less_eq_WebhookPriority_def less_WebhookPriority_def)

end

definition max_wait_ms :: "WebhookPriority \<Rightarrow> u64" where
  "max_wait_ms p = (case p of Critical \<Rightarrow> 1000 | High \<Rightarrow> 5000 | Normal \<Rightarrow> 30000 | Low \<Rightarrow> 120000)"

definition priority_as_str :: "WebhookPriority \<Rightarrow> string" where
  "priority_as_str p = (case p of Critical \<Rightarrow> ''critical'' | High \<Rightarrow> ''high'' | Normal \<Rightarrow> ''normal''
     | Low \<Rightarrow> ''low'')"

record PriorityRule =
  event_type_pattern :: string
  rule_priority :: WebhookPriority

record PriorityRuleSet =
  rules :: "PriorityRule list"
  default_priority :: WebhookPriority

definition add_rule :: "string \<Rightarrow> WebhookPriority \<Rightarrow> PriorityRuleSet \<Rightarrow> PriorityRuleSet" where
  "add_rule pattern p rs =
     rs\<lparr>rules := rules rs @ [\<lparr>event_type_pattern = pattern, rule_priority = p\<rparr>]\<rparr>"

text \<open>\<open>strip_suffix('*')\<close>, then a prefix test; without the star, equality.\<close>

definition rule_matches :: "string \<Rightarrow> string \<Rightarrow> bool" where
  "rule_matches pattern et \<longleftrightarrow>
     (if ends_with pattern ''*'' then starts_with et (butlast pattern) else pattern = et)"

fun resolve_rules :: "PriorityRule list \<Rightarrow> WebhookPriority \<Rightarrow> string \<Rightarrow> WebhookPriority" where
  "resolve_rules [] d et = d"
| "resolve_rules (r # rs) d et =
     (if rule_matches (event_type_pattern r) et then rule_priority r else resolve_rules rs d et)"

definition resolve :: "PriorityRuleSet \<Rightarrow> string \<Rightarrow> WebhookPriority" where
  "resolve rs et = resolve_rules (rules rs) (default_priority rs) et"

section \<open>The queue\<close>

record WebhookDeliveryTask =
  task_id :: nat
  webhook_url :: string
  payload :: json
  priority :: WebhookPriority
  enqueued_at_ms :: u64
  task_seq :: u64

definition task_new :: "nat \<Rightarrow> u64 \<Rightarrow> string \<Rightarrow> json \<Rightarrow> WebhookPriority \<Rightarrow> WebhookDeliveryTask" where
  "task_new uid now url body p =
     \<lparr>task_id = uid, webhook_url = url, payload = body, priority = p, enqueued_at_ms = now,
      task_seq = 0\<rparr>"

definition wait_ms :: "u64 \<Rightarrow> WebhookDeliveryTask \<Rightarrow> u64" where
  "wait_ms now t = saturating_sub now (enqueued_at_ms t)"

definition is_violation :: "u64 \<Rightarrow> WebhookDeliveryTask \<Rightarrow> bool" where
  "is_violation now t \<longleftrightarrow> wait_ms now t > max_wait_ms (priority t)"

text \<open>\<open>Ord\<close> of a task: higher priority first, then the lower sequence number.\<close>

definition task_less :: "WebhookDeliveryTask \<Rightarrow> WebhookDeliveryTask \<Rightarrow> bool" where
  "task_less a b \<longleftrightarrow> priority a < priority b \<or> (priority a = priority b \<and> task_seq b < task_seq a)"

record PriorityQueueMetrics =
  total_enqueued :: u64
  total_dequeued :: u64
  violations :: u64
  enqueued_by_priority :: "WebhookPriority \<Rightarrow> u64"
  current_depth :: usize

record WebhookPriorityQueue =
  heap :: "WebhookDeliveryTask list"
  sequence :: u64
  metrics :: PriorityQueueMetrics

definition queue_new :: WebhookPriorityQueue where
  "queue_new = \<lparr>heap = [], sequence = 0,
     metrics = \<lparr>total_enqueued = 0, total_dequeued = 0, violations = 0,
                enqueued_by_priority = (\<lambda>_. 0), current_depth = 0\<rparr>\<rparr>"

definition queue_push :: "WebhookDeliveryTask \<Rightarrow> WebhookPriorityQueue \<Rightarrow> WebhookPriorityQueue" where
  "queue_push task0 q =
     (let seq = sequence q + 1;
          task = task0\<lparr>task_seq := seq\<rparr>;
          m = metrics q;
          m1 = m\<lparr>total_enqueued := total_enqueued m + 1,
                 enqueued_by_priority :=
                   (enqueued_by_priority m)(priority task := enqueued_by_priority m (priority task) + 1)\<rparr>;
          h = heap q @ [task]
      in \<lparr>heap = h, sequence = seq, metrics = m1\<lparr>current_depth := length h\<rparr>\<rparr>)"

text \<open>The greatest element of a non-empty heap, the first one among equals.\<close>

fun heap_max :: "WebhookDeliveryTask \<Rightarrow> WebhookDeliveryTask list \<Rightarrow> WebhookDeliveryTask" where
  "heap_max t [] = t"
| "heap_max t (x # xs) = heap_max (if task_less t x then x else t) xs"

definition queue_pop ::
  "u64 \<Rightarrow> WebhookPriorityQueue \<Rightarrow> WebhookDeliveryTask option \<times> WebhookPriorityQueue" where
  "queue_pop now q =
     (case heap q of
        [] \<Rightarrow> (None, q)
      | t # ts \<Rightarrow>
          (let task = heap_max t ts;
               h = remove1 task (heap q);
               m = metrics q;
               m1 = m\<lparr>total_dequeued := total_dequeued m + 1, current_depth := length h\<rparr>;
               m2 = (if is_violation now task then m1\<lparr>violations := violations m1 + 1\<rparr> else m1)
           in (Some task, q\<lparr>heap := h, metrics := m2\<rparr>)))"

definition violating_tasks :: "u64 \<Rightarrow> WebhookPriorityQueue \<Rightarrow> nat list" where
  "violating_tasks now q = map task_id (filter (is_violation now) (heap q))"

definition queue_len :: "WebhookPriorityQueue \<Rightarrow> usize" where
  "queue_len q = length (heap q)"

section \<open>Selecting the greatest task\<close>

text \<open>The sort key under which a delivery order is ascending: urgent first.\<close>

definition urgency :: "WebhookDeliveryTask \<Rightarrow> nat" where
  "urgency t = 3 - prio_rank (priority t)"

lemma prio_rank_le_3: "prio_rank p \<le> 3"
  by (cases p) simp_all

lemma urgency_less_iff: "urgency a < urgency b \<longleftrightarrow> priority b < priority a"
  using prio_rank_le_3 [of "priority a"] prio_rank_le_3 [of "priority b"]
  by (auto simp: urgency_def less_WebhookPriority_def)

lemma urgency_le_iff: "urgency a \<le> urgency b \<longleftrightarrow> priority b \<le> priority a"
  using urgency_less_iff [of b a] by (simp add: not_less [symmetric])

definition fifo :: "WebhookDeliveryTask list \<Rightarrow> bool" where
  "fifo ts \<longleftrightarrow> sorted_wrt (\<lambda>a b. task_seq a < task_seq b) ts"

lemma fifo_distinct: "fifo ts \<Longrightarrow> distinct ts"
  unfolding fifo_def by (induction ts) auto

text \<open>
  In a heap whose tasks are listed in sequence order, the maximum is the first task of the highest
  priority.
\<close>

lemma heap_max_split:
  assumes "fifo (t # ts)"
  shows "\<exists>a b. t # ts = a @ heap_max t ts # b \<and>
    (\<forall>x\<in>set a. priority x < priority (heap_max t ts)) \<and>
    (\<forall>x\<in>set b. priority x \<le> priority (heap_max t ts))"
  using assms
proof (induction ts arbitrary: t rule: length_induct)
  case (1 ts)
  show ?case
  proof (cases ts)
    case Nil
    then show ?thesis by (intro exI [of _ "[]"]) simp
  next
    case (Cons x xs)
    have less: "task_less t x \<longleftrightarrow> priority t < priority x"
      using "1.prems" Cons by (auto simp: task_less_def fifo_def)
    show ?thesis
    proof (cases "priority t < priority x")
      case True
      then have max: "heap_max t ts = heap_max x xs"
        using less Cons by simp
      have "fifo (x # xs)"
        using "1.prems" Cons by (simp add: fifo_def)
      then obtain a b where ab: "x # xs = a @ heap_max x xs # b"
        "\<forall>y\<in>set a. priority y < priority (heap_max x xs)"
        "\<forall>y\<in>set b. priority y \<le> priority (heap_max x xs)"
        using "1.IH" Cons by (metis lessI length_Cons)
      have "priority x \<le> priority (heap_max x xs)"
        using ab by (cases a) (auto simp: less_imp_le)
      then have "priority t < priority (heap_max x xs)"
        using True by simp
      moreover have "t # ts = (t # a) @ heap_max x xs # b"
        using ab(1) Cons by simp
      ultimately show ?thesis
        unfolding max using ab(2,3) by (metis set_ConsD)
    next
      case False
      then have max: "heap_max t ts = heap_max t xs"
        using less Cons by simp
      have "fifo (t # xs)"
        using "1.prems" Cons by (simp add: fifo_def)
      then obtain a b where ab: "t # xs = a @ heap_max t xs # b"
        "\<forall>y\<in>set a. priority y < priority (heap_max t xs)"
        "\<forall>y\<in>set b. priority y \<le> priority (heap_max t xs)"
        using "1.IH" Cons by (metis lessI length_Cons)
      show ?thesis
      proof (cases a)
        case Nil
        then have "heap_max t xs = t" and "xs = b"
          using ab(1) by (metis append_Nil list.inject)+
        then have "t # ts = [] @ heap_max t xs # (x # b)" "heap_max t xs = t"
          using \<open>ts = x # xs\<close> by simp_all
        then show ?thesis
          unfolding max using ab(3) False by (metis empty_iff empty_set not_less set_ConsD)
      next
        case (Cons t' a')
        then have "t' = t" and "xs = a' @ heap_max t xs # b"
          using ab(1) by (metis append_Cons list.inject)+
        then have "t # ts = (t # x # a') @ heap_max t xs # b"
          using \<open>ts = x # xs\<close> by (metis append_Cons)
        moreover have "\<forall>y\<in>set (t # x # a'). priority y < priority (heap_max t xs)"
          using ab(2) False Cons \<open>t' = t\<close> by auto
        ultimately show ?thesis
          unfolding max using ab(3) by blast
      qed
    qed
  qed
qed

text \<open>Taking the first most urgent task off the front of a stable sort.\<close>

lemma sort_key_first_min:
  assumes "\<forall>x\<in>set a. f m < f x" and "\<forall>x\<in>set b. f m \<le> f x"
  shows "sort_key f (a @ m # b) = m # sort_key f (a @ b)"
  using assms
proof (induction a)
  case Nil
  then show ?case
    by (simp add: insort_is_Cons)
next
  case (Cons x a)
  then have "\<not> f x \<le> f m" and "sort_key f (a @ m # b) = m # sort_key f (a @ b)"
    by (simp_all add: not_le)
  then show ?case by simp
qed

lemma sort_key_heap_max:
  assumes "fifo (t # ts)"
  shows "sort_key urgency (t # ts) = heap_max t ts # sort_key urgency (remove1 (heap_max t ts) (t # ts))"
proof -
  from heap_max_split [OF assms] obtain a b where ab: "t # ts = a @ heap_max t ts # b"
    "\<forall>x\<in>set a. priority x < priority (heap_max t ts)"
    "\<forall>x\<in>set b. priority x \<le> priority (heap_max t ts)"
    by blast
  then have "heap_max t ts \<notin> set a"
    by auto
  then have "remove1 (heap_max t ts) (t # ts) = a @ b"
    by (subst ab(1)) (simp add: remove1_append)
  moreover have "sort_key urgency (a @ heap_max t ts # b) = heap_max t ts # sort_key urgency (a @ b)"
    using ab(2,3) by (intro sort_key_first_min) (auto simp: urgency_less_iff urgency_le_iff)
  ultimately show ?thesis
    using ab(1) by metis
qed

lemma fifo_remove1: "fifo ts \<Longrightarrow> fifo (remove1 t ts)"
  unfolding fifo_def by (induction ts) (auto dest: set_remove1_subset [THEN subsetD])

section \<open>Reachable queues\<close>

text \<open>\<open>queue_reachable n q\<close>: \<open>q\<close> results from \<open>n\<close> pushes and any pops, interleaved in any order.\<close>

inductive queue_reachable :: "nat \<Rightarrow> WebhookPriorityQueue \<Rightarrow> bool" where
  empty: "queue_reachable 0 queue_new"
| push: "queue_reachable n q \<Longrightarrow> queue_reachable (Suc n) (queue_push t q)"
| pop: "queue_reachable n q \<Longrightarrow> queue_reachable n (snd (queue_pop now q))"

definition queue_inv :: "nat \<Rightarrow> WebhookPriorityQueue \<Rightarrow> bool" where
  "queue_inv n q \<longleftrightarrow> unat (sequence q) = n \<and> fifo (heap q) \<and>
     (\<forall>t\<in>set (heap q). unat (task_seq t) \<le> n) \<and>
     current_depth (metrics q) = length (heap q) \<and>
     total_enqueued (metrics q) - total_dequeued (metrics q) = of_nat (length (heap q))"

lemma queue_pop_Some:
  assumes "heap q = t # ts"
  shows "fst (queue_pop now q) = Some (heap_max t ts)"
    and "heap (snd (queue_pop now q)) = remove1 (heap_max t ts) (heap q)"
    and "sequence (snd (queue_pop now q)) = sequence q"
    and "current_depth (metrics (snd (queue_pop now q))) = length (remove1 (heap_max t ts) (heap q))"
    and "total_enqueued (metrics (snd (queue_pop now q))) = total_enqueued (metrics q)"
    and "total_dequeued (metrics (snd (queue_pop now q))) = total_dequeued (metrics q) + 1"
  using assms by (simp_all add: queue_pop_def Let_def del: heap_max.simps)

lemma heap_max_mem: "heap_max t ts \<in> set (t # ts)"
  by (induction ts arbitrary: t) auto

lemma length_remove1_heap_max: "length (remove1 (heap_max t ts) (t # ts)) = length ts"
  using heap_max_mem [of t ts] length_remove1 [of "heap_max t ts" "t # ts"] by simp

lemma queue_inv_pop: "queue_inv n q \<Longrightarrow> queue_inv n (snd (queue_pop now q))"
proof (cases "heap q")
  case Nil
  then show "queue_inv n q \<Longrightarrow> ?thesis"
    by (simp add: queue_pop_def)
next
  case (Cons t ts)
  assume inv: "queue_inv n q"
  have len: "length (remove1 (heap_max t ts) (heap q)) = length ts"
    unfolding Cons by (rule length_remove1_heap_max)
  have "total_enqueued (metrics q) - (total_dequeued (metrics q) + 1) = of_nat (length ts)"
    using inv Cons by (simp add: queue_inv_def algebra_simps)
  then show ?thesis
    using inv fifo_remove1 [of "heap q"] set_remove1_subset [of "heap_max t ts" "heap q"] len
    by (auto simp: queue_inv_def queue_pop_Some [OF Cons])
qed

lemma queue_inv_push:
  assumes "queue_inv n q" and "Suc n < 2 ^ 64"
  shows "queue_inv (Suc n) (queue_push t q)"
proof -
  have "unat (sequence q + 1) = Suc n"
    using assms unat_Suc_word [of "sequence q"] by (simp add: queue_inv_def)
  with assms(1) show ?thesis
    by (auto simp: queue_inv_def queue_push_def Let_def fifo_def sorted_wrt_append
        word_less_nat_alt algebra_simps le_SucI less_Suc_eq_le)
qed

lemma queue_reachable_inv: "queue_reachable n q \<Longrightarrow> n < 2 ^ 64 \<Longrightarrow> queue_inv n q"
proof (induction rule: queue_reachable.induct)
  case empty
  then show ?case by (simp add: queue_inv_def queue_new_def fifo_def)
next
  case (push n q t)
  then show ?case by (simp add: queue_inv_push)
next
  case (pop n q now)
  then show ?case by (simp add: queue_inv_pop)
qed

text \<open>Popping until the queue is empty, at arbitrary times.\<close>

fun drain :: "u64 list \<Rightarrow> WebhookPriorityQueue \<Rightarrow> WebhookDeliveryTask list" where
  "drain [] q = []"
| "drain (now # nows) q =
     (case queue_pop now q of (None, q') \<Rightarrow> [] | (Some t, q') \<Rightarrow> t # drain nows q')"

lemma drain_sorts:
  "fifo (heap q) \<Longrightarrow> length (heap q) \<le> length nows \<Longrightarrow> drain nows q = sort_key urgency (heap q)"
proof (induction nows arbitrary: q)
  case Nil
  then show ?case by simp
next
  case (Cons now nows)
  show ?case
  proof (cases "heap q")
    case Nil
    then show ?thesis by (simp add: queue_pop_def)
  next
    case (Cons t ts)
    let ?q = "snd (queue_pop now q)"
    have "length (heap ?q) \<le> length nows"
      using Cons.prems(2) length_remove1_heap_max [of t ts] \<open>heap q = t # ts\<close>
      by (simp add: queue_pop_Some [OF \<open>heap q = t # ts\<close>] del: remove1.simps)
    then have "drain nows ?q = sort_key urgency (heap ?q)"
      using Cons.prems by (intro Cons.IH) (simp add: queue_pop_Some [OF Cons] fifo_remove1)
    moreover have "queue_pop now q = (Some (heap_max t ts), ?q)"
      using queue_pop_Some(1) [OF \<open>heap q = t # ts\<close>] by (metis prod.collapse)
    then obtain q' where "queue_pop now q = (Some (heap_max t ts), q')" "?q = q'"
      by (metis snd_conv)
    then have "drain (now # nows) q = heap_max t ts # drain nows ?q"
      by simp
    moreover have "sort_key urgency (heap q) = heap_max t ts # sort_key urgency (heap ?q)"
      using sort_key_heap_max [of t ts] Cons.prems(1) \<open>heap q = t # ts\<close>
      by (simp only: queue_pop_Some [OF \<open>heap q = t # ts\<close>])
    ultimately show ?thesis
      by metis
  qed
qed

section \<open>Properties\<close>

text \<open>
  Delivery order: from any queue reached by fewer than \<open>2^64\<close> pushes interleaved with pops, draining
  it delivers exactly the queued tasks, ordered by priority with the most urgent first, and tasks
  of equal priority in the order in which they were enqueued.
\<close>

theorem drain_priority_fifo:
  assumes "queue_reachable n q" and "n < 2 ^ 64" and "queue_len q \<le> length nows"
  shows "drain nows q = sort_key urgency (heap q) \<and> mset (drain nows q) = mset (heap q) \<and>
    (\<forall>p. filter (\<lambda>t. priority t = p) (drain nows q) = filter (\<lambda>t. priority t = p) (heap q))"
proof -
  have d: "drain nows q = sort_key urgency (heap q)"
    using queue_reachable_inv [OF assms(1,2)] assms(3)
    by (intro drain_sorts) (simp_all add: queue_inv_def queue_len_def)
  have "priority t = p \<longleftrightarrow> urgency t = 3 - prio_rank p" for t p
    using prio_rank_le_3 [of "priority t"] prio_rank_le_3 [of p]
    by (auto simp: urgency_def simp flip: prio_rank_inj)
  then show ?thesis
    using sort_key_stable [of urgency _ "heap q"] by (simp add: d)
qed

theorem drain_priority_fifo_witness:
  "map task_id (drain [9, 9, 9] (queue_push (task_new 3 0 [] JNull Low)
     (queue_push (task_new 2 0 [] JNull Critical) (queue_push (task_new 1 0 [] JNull Low) queue_new))))
   = [2, 1, 3]"
proof -
  let ?q = "queue_push (task_new 3 0 [] JNull Low)
     (queue_push (task_new 2 0 [] JNull Critical) (queue_push (task_new 1 0 [] JNull Low) queue_new))"
  have "queue_reachable (Suc (Suc (Suc 0))) ?q"
    by (intro queue_reachable.intros)
  from drain_priority_fifo [OF this, of "[9, 9, 9]"]
  have "drain [9, 9, 9] ?q = sort_key urgency (heap ?q)"
    by (simp add: queue_len_def queue_push_def queue_new_def Let_def)
  then show ?thesis
    by (simp add: queue_push_def queue_new_def task_new_def urgency_def Let_def)
qed

text \<open>
  Queue accounting: in every reachable queue the depth metric equals the number of queued
  tasks, the counters of enqueued and dequeued tasks differ by exactly that number, and the
  sequence numbers in the heap are strictly increasing, so no two queued tasks compare equal.
\<close>

theorem queue_accounting:
  assumes "queue_reachable n q" and "n < 2 ^ 64"
  shows "current_depth (metrics q) = queue_len q \<and>
    total_enqueued (metrics q) - total_dequeued (metrics q) = of_nat (queue_len q) \<and>
    sorted_wrt (\<lambda>a b. task_seq a < task_seq b) (heap q)"
  using queue_reachable_inv [OF assms] by (simp add: queue_inv_def queue_len_def fifo_def)

theorem queue_accounting_witness:
  "current_depth (metrics (snd (queue_pop 5 (queue_push (task_new 1 0 [] JNull Low) queue_new)))) = 0"
proof -
  have "queue_reachable (Suc 0) (snd (queue_pop 5 (queue_push (task_new 1 0 [] JNull Low) queue_new)))"
    by (intro queue_reachable.intros)
  from queue_accounting [OF this] show ?thesis
    by (simp add: queue_len_def queue_pop_def queue_push_def queue_new_def Let_def)
qed

end
