(* ===== verification/Filter_Dsl.thy ===== *)
theory Filter_Dsl
  imports Event_Model F64
begin

text \<open>
  Model of \<open>src/filter_dsl.rs\<close>: the filter expression language, its validator, its optimiser, the
  transpiler to a parameterised SQL fragment, and the handlers that compile, run and save filters.
  The lemmas show that the optimiser keeps the three-valued SQL meaning of an expression, that
  an accepted expression always compiles, and that caller-supplied values reach the database only
  as bind parameters.
\<close>

section \<open>Expressions\<close>

datatype DslExpr =
  DAnd "DslExpr list" | DOr "DslExpr list" | DNot DslExpr
| DEq string json | DGt string json | DLt string json
| DContains string string | DIn string "json list" | DBetween string json json | DExists string

record DslFilter =
  expression :: DslExpr
  description :: "string option"

text \<open>The messages of the validator, and the errors of the transpiler.\<close>

datatype dsl_issue =
  NestingTooDeep nat | EmptyCompound | FieldNotAllowed string | EmptyIn string
| InvertedBetween string f64 f64

datatype DslError = ValidationErrors "string list" | TooDeep nat | DslEmpty

definition DSL_FIELDS :: "string list" where
  "DSL_FIELDS = [''contract_id'', ''event_type'', ''ledger'', ''timestamp'', ''tx_hash'',
     ''schema_version'', ''in_successful_call'', ''tenant_id'']"

definition field_to_sql :: "string \<Rightarrow> string option" where
  "field_to_sql f =
     (if f = ''contract_id'' then Some ''contract_id''
      else if f = ''event_type'' then Some ''event_type::text''
      else if f = ''ledger'' then Some ''ledger''
      else if f = ''timestamp'' then Some ''timestamp''
      else if f = ''tx_hash'' then Some ''tx_hash''
      else if f = ''schema_version'' then Some ''schema_version''
      else if f = ''in_successful_call'' then Some ''in_successful_call''
      else if f = ''tenant_id'' then Some ''tenant_id''
      else None)"

section \<open>Validator\<close>

text \<open>\<open>Value::as_f64\<close>.\<close>

fun as_f64 :: "json \<Rightarrow> f64 option" where
  "as_f64 (JNumber (PosInt n)) = Some (f64_of_nat (unat n))"
| "as_f64 (JNumber (NegInt i)) = Some (f64_rnd (of_int i))"
| "as_f64 (JNumber (Float x)) = Some x"
| "as_f64 _ = None"

definition check_field :: "string \<Rightarrow> dsl_issue list" where
  "check_field f = (if f \<in> set DSL_FIELDS then [] else [FieldNotAllowed f])"

fun validate_recursive :: "DslExpr \<Rightarrow> nat \<Rightarrow> nat \<Rightarrow> dsl_issue list" where
  "validate_recursive expr depth max_depth =
     (if depth > max_depth then [NestingTooDeep max_depth]
      else case expr of
        DAnd fs \<Rightarrow> (if fs = [] then [EmptyCompound] else [])
                   @ concat (map (\<lambda>c. validate_recursive c (depth + 1) max_depth) fs)
      | DOr fs \<Rightarrow> (if fs = [] then [EmptyCompound] else [])
                  @ concat (map (\<lambda>c. validate_recursive c (depth + 1) max_depth) fs)
      | DNot f \<Rightarrow> validate_recursive f (depth + 1) max_depth
      | DEq f v \<Rightarrow> check_field f
      | DGt f v \<Rightarrow> check_field f
      | DLt f v \<Rightarrow> check_field f
      | DExists f \<Rightarrow> check_field f
      | DContains f v \<Rightarrow> check_field f
      | DIn f vs \<Rightarrow> check_field f @ (if vs = [] then [EmptyIn f] else [])
      | DBetween f lo hi \<Rightarrow> check_field f @
          (case (as_f64 lo, as_f64 hi) of
             (Some l, Some h) \<Rightarrow> if l > h then [InvertedBetween f l h] else []
           | _ \<Rightarrow> []))"

declare validate_recursive.simps [simp del]

definition validate_dsl :: "DslExpr \<Rightarrow> dsl_issue list + unit" where
  "validate_dsl expr =
     (let errors = validate_recursive expr 0 10 in if errors = [] then Inr () else Inl errors)"

section \<open>Transpiler\<close>

text \<open>
  The parameter vector is threaded through; on an error the whole result is the error.
\<close>

definition push_param :: "json list \<Rightarrow> json \<Rightarrow> nat \<times> json list" where
  "push_param params v = (length params + 1, params @ [v])"

definition with_column :: "string \<Rightarrow> (string \<Rightarrow> DslError + 'a) \<Rightarrow> DslError + 'a" where
  "with_column f k = (case field_to_sql f of
     None \<Rightarrow> Inl (ValidationErrors [''unknown field: '' @ f]) | Some col \<Rightarrow> k col)"

definition placeholder :: "nat \<Rightarrow> string" where
  "placeholder i = CHR ''$'' # show_nat i"

fun push_all :: "json list \<Rightarrow> json list \<Rightarrow> string list \<times> json list" where
  "push_all [] params = ([], params)"
| "push_all (v # vs) params =
     (let (idx, params1) = push_param params v; (rest, params2) = push_all vs params1
      in (placeholder idx # rest, params2))"

fun transpile_recursive :: "DslExpr \<Rightarrow> json list \<Rightarrow> nat \<Rightarrow> nat \<Rightarrow> DslError + string \<times> json list"
and transpile_children :: "DslExpr list \<Rightarrow> json list \<Rightarrow> nat \<Rightarrow> nat \<Rightarrow> DslError + string list \<times> json list"
where
  "transpile_recursive expr params depth max_depth =
     (if depth > max_depth then Inl (TooDeep max_depth)
      else case expr of
        DAnd fs \<Rightarrow> if fs = [] then Inl DslEmpty
          else (case transpile_children fs params (depth + 1) max_depth of
                  Inl e \<Rightarrow> Inl e
                | Inr (parts, ps) \<Rightarrow> Inr (''('' @ join '' AND '' parts @ '')'', ps))
      | DOr fs \<Rightarrow> if fs = [] then Inl DslEmpty
          else (case transpile_children fs params (depth + 1) max_depth of
                  Inl e \<Rightarrow> Inl e
                | Inr (parts, ps) \<Rightarrow> Inr (''('' @ join '' OR '' parts @ '')'', ps))
      | DNot f \<Rightarrow> (case transpile_recursive f params (depth + 1) max_depth of
                  Inl e \<Rightarrow> Inl e | Inr (inner, ps) \<Rightarrow> Inr (''NOT '' @ inner, ps))
      | DEq f v \<Rightarrow> with_column f (\<lambda>col. let (idx, ps) = push_param params v
                  in Inr (col @ '' = '' @ placeholder idx, ps))
      | DGt f v \<Rightarrow> with_column f (\<lambda>col. let (idx, ps) = push_param params v
                  in Inr (col @ '' > '' @ placeholder idx, ps))
      | DLt f v \<Rightarrow> with_column f (\<lambda>col. let (idx, ps) = push_param params v
                  in Inr (col @ '' < '' @ placeholder idx, ps))
      | DContains f v \<Rightarrow> with_column f (\<lambda>col.
                  let (idx, ps) = push_param params (JString (''%'' @ v @ ''%''))
                  in Inr (col @ '' ILIKE '' @ placeholder idx, ps))
      | DIn f vs \<Rightarrow> with_column f (\<lambda>col. let (phs, ps) = push_all vs params
                  in Inr (col @ '' IN ('' @ join '', '' phs @ '')'', ps))
      | DBetween f lo hi \<Rightarrow> with_column f (\<lambda>col.
                  let (l, ps1) = push_param params lo; (h, ps2) = push_param ps1 hi
                  in Inr (col @ '' BETWEEN '' @ placeholder l @ '' AND '' @ placeholder h, ps2))
      | DExists f \<Rightarrow> with_column f (\<lambda>col. Inr (col @ '' IS NOT NULL'', params)))"
| "transpile_children [] params depth max_depth = Inr ([], params)"
| "transpile_children (f # fs) params depth max_depth =
     (case transpile_recursive f params depth max_depth of
        Inl e \<Rightarrow> Inl e
      | Inr (s, ps) \<Rightarrow> (case transpile_children fs ps depth max_depth of
          Inl e \<Rightarrow> Inl e | Inr (parts, ps') \<Rightarrow> Inr (s # parts, ps')))"

declare transpile_recursive.simps [simp del]

definition dsl_to_sql :: "DslExpr \<Rightarrow> DslError + string \<times> json list" where
  "dsl_to_sql expr = transpile_recursive expr [] 0 10"

section \<open>Optimiser\<close>

definition and_children :: "DslExpr \<Rightarrow> DslExpr list" where
  "and_children e = (case e of DAnd inner \<Rightarrow> inner | _ \<Rightarrow> [e])"

definition or_children :: "DslExpr \<Rightarrow> DslExpr list" where
  "or_children e = (case e of DOr inner \<Rightarrow> inner | _ \<Rightarrow> [e])"

fun optimize_dsl :: "DslExpr \<Rightarrow> DslExpr" where
  "optimize_dsl (DAnd fs) =
     (let flat = concat (map (\<lambda>c. and_children (optimize_dsl c)) fs)
      in case flat of [x] \<Rightarrow> x | _ \<Rightarrow> DAnd flat)"
| "optimize_dsl (DOr fs) =
     (let flat = concat (map (\<lambda>c. or_children (optimize_dsl c)) fs)
      in case flat of [x] \<Rightarrow> x | _ \<Rightarrow> DOr flat)"
| "optimize_dsl (DNot f) =
     (case optimize_dsl f of DNot inner_inner \<Rightarrow> inner_inner | other \<Rightarrow> DNot other)"
| "optimize_dsl leaf = leaf"

section \<open>Handlers\<close>

datatype compile_response =
  Unprocessable "dsl_issue list" | UnprocessableError DslError
| Compiled string "json list" nat

definition compile_dsl_filter :: "DslFilter \<Rightarrow> compile_response" where
  "compile_dsl_filter req =
     (case validate_dsl (expression req) of
        Inl errs \<Rightarrow> Unprocessable errs
      | Inr _ \<Rightarrow> (case dsl_to_sql (optimize_dsl (expression req)) of
          Inl e \<Rightarrow> UnprocessableError e
        | Inr (sql, params) \<Rightarrow> Compiled sql params (length params)))"

record DslFilterRequest =
  req_filter :: DslExpr
  req_page :: "i64 option"
  req_limit :: "i64 option"

record 'r events_page =
  page_data :: "'r list"
  page_total :: i64
  page_number :: i64
  page_size :: i64
  applied_filter :: string

datatype ('e, 'r) events_response =
  EventsRejected "dsl_issue list" | EventsRejectedError DslError
| EventsDbError 'e | EventsPage "'r events_page"

text \<open>
  The database is the parameter \<open>fetch_all\<close>, the events query as a function of the limit and the
  offset it is run with; every row carries its \<open>total_count\<close>. The multiplication is on \<open>i64\<close>,
  which wraps in a release build.
\<close>

definition wrap_i64 :: "int \<Rightarrow> i64" where
  "wrap_i64 x = (x + 2 ^ 63) mod 2 ^ 64 - 2 ^ 63"

definition get_events_with_dsl ::
  "(i64 \<Rightarrow> i64 \<Rightarrow> 'e + ('r \<times> i64 option) list) \<Rightarrow> DslFilterRequest \<Rightarrow> ('e, 'r) events_response"
where
  "get_events_with_dsl fetch_all req =
     (let page = max (case req_page req of None \<Rightarrow> 1 | Some p \<Rightarrow> p) 1;
          lim = clamp (case req_limit req of None \<Rightarrow> 20 | Some l \<Rightarrow> l) 1 500;
          offset = wrap_i64 ((page - 1) * lim)
      in case validate_dsl (req_filter req) of
           Inl errs \<Rightarrow> EventsRejected errs
         | Inr _ \<Rightarrow> (case dsl_to_sql (optimize_dsl (req_filter req)) of
             Inl e \<Rightarrow> EventsRejectedError e
           | Inr (where_clause, _) \<Rightarrow> (case fetch_all lim offset of
               Inl e \<Rightarrow> EventsDbError e
             | Inr rows \<Rightarrow> EventsPage
                 \<lparr>page_data = map fst rows,
                  page_total = (case rows of [] \<Rightarrow> 0
                     | r # _ \<Rightarrow> (case snd r of None \<Rightarrow> 0 | Some n \<Rightarrow> n)),
                  page_number = page, page_size = lim, applied_filter = where_clause\<rparr>)))"

text \<open>The in-process store of named filters; the creation time is a parameter.\<close>

record SavedDslFilter =
  saved_name :: string
  saved_filter :: DslFilter
  created_at :: int
  saved_description :: "string option"

type_synonym dsl_store = "string \<rightharpoonup> SavedDslFilter"

datatype save_response = SaveBadRequest | SaveUnprocessable "dsl_issue list" | Saved string

definition save_dsl_filter :: "int \<Rightarrow> string \<Rightarrow> DslFilter \<Rightarrow> dsl_store \<Rightarrow> save_response \<times> dsl_store" where
  "save_dsl_filter now name f store =
     (if name = [] then (SaveBadRequest, store)
      else case validate_dsl (expression f) of
        Inl errs \<Rightarrow> (SaveUnprocessable errs, store)
      | Inr _ \<Rightarrow> (Saved name,
          store(name \<mapsto> \<lparr>saved_name = name, saved_filter = f, created_at = now,
                          saved_description = description f\<rparr>)))"

section \<open>Meaning of an expression\<close>

text \<open>
  SQL's three-valued logic, with \<^const>\<open>None\<close> for unknown: the meaning of the connectives,
  over a valuation of the leaf comparisons on a row.
\<close>

definition sql_all :: "bool option list \<Rightarrow> bool option" where
  "sql_all xs = (if Some False \<in> set xs then Some False else if None \<in> set xs then None else Some True)"

definition sql_any :: "bool option list \<Rightarrow> bool option" where
  "sql_any xs = (if Some True \<in> set xs then Some True else if None \<in> set xs then None else Some False)"

fun dsl_meaning :: "(DslExpr \<Rightarrow> bool option) \<Rightarrow> DslExpr \<Rightarrow> bool option" where
  "dsl_meaning v (DAnd fs) = sql_all (map (dsl_meaning v) fs)"
| "dsl_meaning v (DOr fs) = sql_any (map (dsl_meaning v) fs)"
| "dsl_meaning v (DNot f) = map_option Not (dsl_meaning v f)"
| "dsl_meaning v leaf = v leaf"

lemma sql_all_single [simp]: "sql_all [x] = x"
  by (cases x) (auto simp: sql_all_def)

lemma sql_any_single [simp]: "sql_any [x] = x"
  by (cases x) (auto simp: sql_any_def)

lemma option_bool_cases: "x = None \<or> x = Some True \<or> x = Some False" for x :: "bool option"
  by (cases x) auto

lemma sql_all_concat: "sql_all (concat (map g xs)) = sql_all (map (\<lambda>x. sql_all (g x)) xs)"
  by (auto simp: sql_all_def image_iff split: if_splits)

lemma sql_any_concat: "sql_any (concat (map g xs)) = sql_any (map (\<lambda>x. sql_any (g x)) xs)"
  by (auto simp: sql_any_def image_iff split: if_splits)

lemma meaning_and_children: "sql_all (map (dsl_meaning v) (and_children e)) = dsl_meaning v e"
  by (cases e) (simp_all add: and_children_def)

lemma meaning_or_children: "sql_any (map (dsl_meaning v) (or_children e)) = dsl_meaning v e"
  by (cases e) (simp_all add: or_children_def)

lemma unwrap_and: "dsl_meaning v (case fs of [x] \<Rightarrow> x | _ \<Rightarrow> DAnd fs) = sql_all (map (dsl_meaning v) fs)"
  by (cases fs rule: remdups_adj.cases) auto

lemma unwrap_or: "dsl_meaning v (case fs of [x] \<Rightarrow> x | _ \<Rightarrow> DOr fs) = sql_any (map (dsl_meaning v) fs)"
  by (cases fs rule: remdups_adj.cases) auto

lemma unwrap_not:
  "dsl_meaning v (case e of DNot i \<Rightarrow> i | other \<Rightarrow> DNot other) = map_option Not (dsl_meaning v e)"
  by (cases e) (auto simp: option.map_comp comp_def option.map_ident)

text \<open>
  The optimiser is correct: flattening nested conjunctions and disjunctions, unwrapping
  singletons and cancelling double negations never changes the three-valued meaning of a filter,
  whatever the leaf comparisons evaluate to on a row.
\<close>

theorem optimize_dsl_meaning: "dsl_meaning v (optimize_dsl e) = dsl_meaning v e"
proof (induction e rule: optimize_dsl.induct)
  case (1 fs)
  then show ?case
    by (simp add: Let_def unwrap_and map_concat comp_def sql_all_concat meaning_and_children
        cong: map_cong)
next
  case (2 fs)
  then show ?case
    by (simp add: Let_def unwrap_or map_concat comp_def sql_any_concat meaning_or_children
        cong: map_cong)
qed (simp_all add: unwrap_not)

section \<open>Accepted expressions compile\<close>

text \<open>What the validator accepts, without the accumulation of messages.\<close>

fun dsl_depth :: "DslExpr \<Rightarrow> nat" where
  "dsl_depth (DAnd fs) = Suc (Max (insert 0 (set (map dsl_depth fs))))"
| "dsl_depth (DOr fs) = Suc (Max (insert 0 (set (map dsl_depth fs))))"
| "dsl_depth (DNot f) = Suc (dsl_depth f)"
| "dsl_depth leaf = 0"

fun well_formed :: "DslExpr \<Rightarrow> bool" where
  "well_formed (DAnd fs) \<longleftrightarrow> fs \<noteq> [] \<and> (\<forall>f \<in> set fs. well_formed f)"
| "well_formed (DOr fs) \<longleftrightarrow> fs \<noteq> [] \<and> (\<forall>f \<in> set fs. well_formed f)"
| "well_formed (DNot f) \<longleftrightarrow> well_formed f"
| "well_formed (DEq f v) \<longleftrightarrow> f \<in> set DSL_FIELDS"
| "well_formed (DGt f v) \<longleftrightarrow> f \<in> set DSL_FIELDS"
| "well_formed (DLt f v) \<longleftrightarrow> f \<in> set DSL_FIELDS"
| "well_formed (DContains f v) \<longleftrightarrow> f \<in> set DSL_FIELDS"
| "well_formed (DIn f vs) \<longleftrightarrow> f \<in> set DSL_FIELDS \<and> vs \<noteq> []"
| "well_formed (DBetween f lo hi) \<longleftrightarrow> f \<in> set DSL_FIELDS \<and>
     (case (as_f64 lo, as_f64 hi) of (Some l, Some h) \<Rightarrow> l \<le> h | _ \<Rightarrow> True)"
| "well_formed (DExists f) \<longleftrightarrow> f \<in> set DSL_FIELDS"

lemma Suc_Max_le_iff: "Suc (Max (insert 0 (g ` set fs))) \<le> n \<longleftrightarrow> (0 < n \<and> (\<forall>f \<in> set fs. Suc (g f) \<le> n))"
  for g :: "'a \<Rightarrow> nat"
  by (cases n) auto

lemma validate_recursive_iff:
  "validate_recursive e d m = [] \<longleftrightarrow> well_formed e \<and> d + dsl_depth e \<le> m"
proof (induction e d m rule: validate_recursive.induct)
  case (1 e d m)
  show ?case
  proof (cases "d > m")
    case True
    then show ?thesis by (simp add: validate_recursive.simps)
  next
    case False
    note IH = "1.IH" [OF False]
    have children: "(\<forall>f \<in> set fs. validate_recursive f (d + 1) m = []) \<and> fs \<noteq> [] \<longleftrightarrow>
        fs \<noteq> [] \<and> (\<forall>f \<in> set fs. well_formed f) \<and> d + Suc (Max (insert 0 (dsl_depth ` set fs))) \<le> m"
      if "\<And>f. f \<in> set fs \<Longrightarrow> (validate_recursive f (d + 1) m = []) = (well_formed f \<and> d + 1 + dsl_depth f \<le> m)"
      for fs
    proof -
      have "d + Suc (Max (insert 0 (dsl_depth ` set fs))) \<le> m \<longleftrightarrow>
          0 < m - d \<and> (\<forall>f \<in> set fs. d + 1 + dsl_depth f \<le> m)"
        using False Suc_Max_le_iff [of dsl_depth fs "m - d"] by (auto simp: le_diff_conv2)
      then show ?thesis
        using that by (cases fs) (auto simp: ball_conj_distrib)
    qed
    show ?thesis
    proof (cases e)
      case (DAnd fs)
      with False IH(1) [OF DAnd] children [of fs] show ?thesis
        by (auto simp: validate_recursive.simps [of "DAnd fs"])
    next
      case (DOr fs)
      with False IH(2) [OF DOr] children [of fs] show ?thesis
        by (auto simp: validate_recursive.simps [of "DOr fs"])
    next
      case (DNot f)
      with False IH(3) [OF DNot] show ?thesis
        by (simp add: validate_recursive.simps [of "DNot f"])
    qed (use False in \<open>auto simp: validate_recursive.simps check_field_def split: option.splits\<close>)
  qed
qed

lemma validate_dsl_iff: "validate_dsl e = Inr () \<longleftrightarrow> well_formed e \<and> dsl_depth e \<le> 10"
  by (simp add: validate_dsl_def validate_recursive_iff)

text \<open>The values an expression binds, in the order of its leaves.\<close>

fun dsl_values :: "DslExpr \<Rightarrow> json list" where
  "dsl_values (DAnd fs) = concat (map dsl_values fs)"
| "dsl_values (DOr fs) = concat (map dsl_values fs)"
| "dsl_values (DNot f) = dsl_values f"
| "dsl_values (DEq f v) = [v]"
| "dsl_values (DGt f v) = [v]"
| "dsl_values (DLt f v) = [v]"
| "dsl_values (DContains f v) = [JString (''%'' @ v @ ''%'')]"
| "dsl_values (DIn f vs) = vs"
| "dsl_values (DBetween f lo hi) = [lo, hi]"
| "dsl_values (DExists f) = []"

lemma and_children_wf:
  "well_formed e \<Longrightarrow> and_children e \<noteq> [] \<and> (\<forall>x \<in> set (and_children e). well_formed x \<and> dsl_depth x \<le> dsl_depth e)"
  by (cases e) (auto simp: and_children_def intro: le_SucI Max_ge)

lemma or_children_wf:
  "well_formed e \<Longrightarrow> or_children e \<noteq> [] \<and> (\<forall>x \<in> set (or_children e). well_formed x \<and> dsl_depth x \<le> dsl_depth e)"
  by (cases e) (auto simp: or_children_def intro: le_SucI Max_ge)

lemma unwrap_wf:
  assumes "fs \<noteq> []" and "\<And>x. x \<in> set fs \<Longrightarrow> well_formed x \<and> dsl_depth x \<le> k"
  shows "well_formed (case fs of [x] \<Rightarrow> x | _ \<Rightarrow> DAnd fs) \<and> dsl_depth (case fs of [x] \<Rightarrow> x | _ \<Rightarrow> DAnd fs) \<le> Suc k"
    and "well_formed (case fs of [x] \<Rightarrow> x | _ \<Rightarrow> DOr fs) \<and> dsl_depth (case fs of [x] \<Rightarrow> x | _ \<Rightarrow> DOr fs) \<le> Suc k"
  using assms by (cases fs rule: remdups_adj.cases; force)+

lemma optimize_dsl_wf:
  "well_formed e \<Longrightarrow> well_formed (optimize_dsl e) \<and> dsl_depth (optimize_dsl e) \<le> dsl_depth e"
proof (induction e rule: optimize_dsl.induct)
  case (1 fs)
  let ?flat = "concat (map (\<lambda>c. and_children (optimize_dsl c)) fs)"
  let ?k = "Max (insert 0 (dsl_depth ` set fs))"
  have IH: "well_formed (optimize_dsl c) \<and> dsl_depth (optimize_dsl c) \<le> ?k" if "c \<in> set fs" for c
    using 1 that by (fastforce intro: order_trans [OF _ Max_ge])
  have "?flat \<noteq> []"
    using IH 1(2) and_children_wf by (cases fs) auto
  moreover have "well_formed x \<and> dsl_depth x \<le> ?k" if "x \<in> set ?flat" for x
    using that IH and_children_wf by (fastforce intro: order_trans)
  ultimately show ?case
    using unwrap_wf(1) [of ?flat ?k] by (simp add: Let_def)
next
  case (2 fs)
  let ?flat = "concat (map (\<lambda>c. or_children (optimize_dsl c)) fs)"
  let ?k = "Max (insert 0 (dsl_depth ` set fs))"
  have IH: "well_formed (optimize_dsl c) \<and> dsl_depth (optimize_dsl c) \<le> ?k" if "c \<in> set fs" for c
    using 2 that by (fastforce intro: order_trans [OF _ Max_ge])
  have "?flat \<noteq> []"
    using IH 2(2) or_children_wf by (cases fs) auto
  moreover have "well_formed x \<and> dsl_depth x \<le> ?k" if "x \<in> set ?flat" for x
    using that IH or_children_wf by (fastforce intro: order_trans)
  ultimately show ?case
    using unwrap_wf(2) [of ?flat ?k] by (simp add: Let_def)
next
  case (3 f)
  then show ?case
    by (cases "optimize_dsl f") auto
qed simp_all

lemma field_to_sql_Some: "(\<exists>col. field_to_sql f = Some col) \<longleftrightarrow> f \<in> set DSL_FIELDS"
  by (auto simp: field_to_sql_def DSL_FIELDS_def)

lemma with_column_ok: "f \<in> set DSL_FIELDS \<Longrightarrow> \<exists>col. field_to_sql f = Some col \<and> with_column f k = k col"
  using field_to_sql_Some [of f] by (auto simp: with_column_def)

lemma push_all_params: "snd (push_all vs ps) = ps @ vs"
  by (induction vs ps rule: push_all.induct) (auto simp: push_param_def Let_def split: prod.splits)

lemma transpile_complete:
  "well_formed e \<Longrightarrow> d + dsl_depth e \<le> m \<Longrightarrow> \<exists>s ps'. transpile_recursive e ps d m = Inr (s, ps')"
  "\<forall>f \<in> set fs. well_formed f \<and> d + dsl_depth f \<le> m \<Longrightarrow>
     \<exists>parts ps'. transpile_children fs ps d m = Inr (parts, ps')"
proof (induction e ps d m and fs ps d m rule: transpile_recursive_transpile_children.induct)
  case (1 e ps d m)
  then have d: "\<not> m < d" by simp
  show ?case
  proof (cases e)
    case (DAnd fs)
    with 1 d have "\<forall>f \<in> set fs. well_formed f \<and> d + 1 + dsl_depth f \<le> m"
      using Suc_Max_le_iff [of dsl_depth fs "m - d"] by auto
    with 1 d DAnd show ?thesis
      by (fastforce simp: transpile_recursive.simps [of "DAnd fs"])
  next
    case (DOr fs)
    with 1 d have "\<forall>f \<in> set fs. well_formed f \<and> d + 1 + dsl_depth f \<le> m"
      using Suc_Max_le_iff [of dsl_depth fs "m - d"] by auto
    with 1 d DOr show ?thesis
      by (fastforce simp: transpile_recursive.simps [of "DOr fs"])
  next
    case (DNot f)
    with 1 d show ?thesis
      by (fastforce simp: transpile_recursive.simps [of "DNot f"])
  qed (use 1 d field_to_sql_Some in
      \<open>auto simp: transpile_recursive.simps with_column_def push_param_def Let_def split: option.splits prod.splits\<close>)
next
  case (2 ps d m)
  then show ?case by simp
next
  case (3 f fs ps d m)
  then show ?case by fastforce
qed

section \<open>Placeholders\<close>

text \<open>The indices of the placeholders \<open>$i\<close> in a SQL text, from left to right.\<close>

fun placeholders :: "string \<Rightarrow> nat list" where
  "placeholders [] = []"
| "placeholders (c # cs) =
     (if c = CHR ''$''
      then (case digits_value 10 0 (takeWhile is_ascii_digit cs) of None \<Rightarrow> [] | Some n \<Rightarrow> [n])
           @ placeholders cs
      else placeholders cs)"

lemma placeholders_plain [simp]: "CHR ''$'' \<notin> set a \<Longrightarrow> placeholders (a @ b) = placeholders b"
  by (induction a) auto

lemma placeholders_none [simp]: "CHR ''$'' \<notin> set a \<Longrightarrow> placeholders a = []"
  using placeholders_plain [of a "[]"] by simp

lemma placeholders_append:
  "b = [] \<or> \<not> is_ascii_digit (hd b) \<Longrightarrow> placeholders (a @ b) = placeholders a @ placeholders b"
proof (induction a)
  case (Cons c cs)
  have "takeWhile is_ascii_digit (cs @ b) = takeWhile is_ascii_digit cs"
    using Cons.prems by (cases b) (auto simp: takeWhile_tail takeWhile_append takeWhile_eq_all_conv [THEN iffD2])
  with Cons show ?case by simp
qed simp

lemma not_dollar_digit: "is_ascii_digit c \<Longrightarrow> c \<noteq> CHR ''$''"
  by (auto simp: is_ascii_digit_def)

lemma placeholders_placeholder [simp]: "placeholders (placeholder i) = [i]"
proof -
  have "takeWhile is_ascii_digit (show_nat i) = show_nat i"
    by (meson takeWhile_eq_all_conv show_nat_digits)
  moreover have "CHR ''$'' \<notin> set (show_nat i)"
    using show_nat_digits not_dollar_digit by blast
  ultimately show ?thesis
    by (simp only: placeholder_def placeholders.simps digits_value_show_nat placeholders_none) simp
qed

lemma placeholders_join:
  assumes "sep \<noteq> []" and "\<not> is_ascii_digit (hd sep)" and "CHR ''$'' \<notin> set sep"
  shows "placeholders (join sep xs) = concat (map placeholders xs)"
  using assms by (induction sep xs rule: join.induct) (auto simp: placeholders_append)

lemma field_to_sql_plain: "field_to_sql f = Some col \<Longrightarrow> CHR ''$'' \<notin> set col"
  by (auto simp: field_to_sql_def split: if_splits)

lemma push_all_placeholders:
  "concat (map placeholders (fst (push_all vs ps))) = [Suc (length ps) ..< Suc (length ps + length vs)]"
proof (induction vs ps rule: push_all.induct)
  case (2 v vs ps)
  have "[Suc (length ps) ..< Suc (length ps + length (v # vs))] =
      Suc (length ps) # [Suc (Suc (length ps)) ..< Suc (length ps + length (v # vs))]"
    by (rule upt_conv_Cons) simp
  then show ?case
    using 2 [OF refl, of "Suc (length ps)" "ps @ [v]"]
    by (simp add: push_param_def Let_def case_prod_beta del: upt_Suc)
qed simp

lemma not_digit_simps [simp]:
  "\<not> is_ascii_digit CHR '' ''" "\<not> is_ascii_digit CHR ''('' " "\<not> is_ascii_digit CHR '')''" "\<not> is_ascii_digit CHR '',''"
  by (simp_all add: is_ascii_digit_def)

lemma transpile_sound:
  "transpile_recursive e ps d m = Inr (s, ps') \<Longrightarrow>
     ps' = ps @ dsl_values e \<and> placeholders s = [Suc (length ps) ..< Suc (length ps')]"
  "transpile_children fs ps d m = Inr (parts, ps') \<Longrightarrow>
     ps' = ps @ concat (map dsl_values fs) \<and>
     concat (map placeholders parts) = [Suc (length ps) ..< Suc (length ps')]"
proof (induction e ps d m and fs ps d m arbitrary: s ps' and parts ps'
    rule: transpile_recursive_transpile_children.induct)
  case (1 e ps d m)
  then have d: "\<not> m < d" by (auto simp: transpile_recursive.simps split: if_splits)
  note leaf_simps = transpile_recursive.simps with_column_def push_param_def Let_def
    placeholders_append field_to_sql_plain
  show ?case
  proof (cases e)
    case (DAnd fs)
    with 1 d show ?thesis
      by (auto simp: transpile_recursive.simps [of "DAnd fs"] placeholders_append placeholders_join
          split: sum.splits if_splits)
  next
    case (DOr fs)
    with 1 d show ?thesis
      by (auto simp: transpile_recursive.simps [of "DOr fs"] placeholders_append placeholders_join
          split: sum.splits if_splits)
  next
    case (DNot f)
    with 1 d show ?thesis
      by (auto simp: transpile_recursive.simps [of "DNot f"] placeholders_append split: sum.splits)
  next
    case (DIn f vs)
    with 1 d show ?thesis
      using push_all_placeholders [of vs ps] push_all_params [of vs ps]
      by (auto simp: leaf_simps placeholders_join split: option.splits prod.splits)
  qed (use 1 d in \<open>auto simp: leaf_simps split: option.splits\<close>)
next
  case (2 ps d m)
  then show ?case by simp
next
  case (3 f fs ps d m)
  then obtain s0 ps0 parts0 where
    "transpile_recursive f ps d m = Inr (s0, ps0)" "transpile_children fs ps0 d m = Inr (parts0, ps')"
    "parts = s0 # parts0"
    by (auto split: sum.splits)
  moreover from this have
    "ps0 = ps @ dsl_values f \<and> placeholders s0 = [Suc (length ps) ..< Suc (length ps0)]"
    "ps' = ps0 @ concat (map dsl_values fs) \<and>
     concat (map placeholders parts0) = [Suc (length ps0) ..< Suc (length ps')]"
    using "3.IH" by blast+
  ultimately show ?case
    by (simp add: upt_glue del: upt_Suc)
qed

text \<open>The optimiser keeps the bound values and their order.\<close>

lemma values_and_children: "concat (map dsl_values (and_children e)) = dsl_values e"
  by (cases e) (simp_all add: and_children_def)

lemma values_or_children: "concat (map dsl_values (or_children e)) = dsl_values e"
  by (cases e) (simp_all add: or_children_def)

lemma concat_map_children:
  "(\<And>e. concat (map h (g e)) = h e) \<Longrightarrow>
   concat (map h (concat (map (\<lambda>c. g (opt c)) fs))) = concat (map (\<lambda>c. h (opt c)) fs)"
  by (induction fs) simp_all

lemma values_unwrap:
  "dsl_values (case fs of [x] \<Rightarrow> x | _ \<Rightarrow> DAnd fs) = concat (map dsl_values fs)"
  "dsl_values (case fs of [x] \<Rightarrow> x | _ \<Rightarrow> DOr fs) = concat (map dsl_values fs)"
  by (cases fs rule: remdups_adj.cases; simp)+

lemma optimize_dsl_values: "dsl_values (optimize_dsl e) = dsl_values e"
proof (induction e rule: optimize_dsl.induct)
  case (1 fs)
  then show ?case
    by (simp add: Let_def values_unwrap concat_map_children values_and_children cong: map_cong
        del: map_concat)
next
  case (2 fs)
  then show ?case
    by (simp add: Let_def values_unwrap concat_map_children values_or_children cong: map_cong
        del: map_concat)
next
  case (3 f)
  then show ?case
    by (cases "optimize_dsl f") auto
qed simp_all

section \<open>Properties of the compiler\<close>

text \<open>
  Compilation is complete and its placeholders are exact. A filter the validator rejects is
  answered with the validator's messages; every filter it accepts compiles. The bind parameters
  are the values of the caller's expression in order, and the placeholders of the SQL text, read
  from left to right, are \<open>$1\<close>, \<open>$2\<close>, \<open>\<dots>\<close> up to the number of parameters, each exactly once.
\<close>

theorem compile_dsl_filter_complete:
  "case validate_dsl (expression req) of
     Inl errs \<Rightarrow> errs \<noteq> [] \<and> compile_dsl_filter req = Unprocessable errs
   | Inr _ \<Rightarrow> \<exists>sql. compile_dsl_filter req =
       Compiled sql (dsl_values (expression req)) (length (dsl_values (expression req))) \<and>
       placeholders sql = [1 ..< Suc (length (dsl_values (expression req)))]"
proof (cases "validate_dsl (expression req)")
  case (Inl errs)
  then show ?thesis
    by (auto simp: compile_dsl_filter_def validate_dsl_def Let_def split: if_splits)
next
  case (Inr u)
  then have "well_formed (expression req) \<and> dsl_depth (expression req) \<le> 10"
    by (simp add: validate_dsl_iff [symmetric])
  then have "well_formed (optimize_dsl (expression req)) \<and> 0 + dsl_depth (optimize_dsl (expression req)) \<le> 10"
    using optimize_dsl_wf [of "expression req"] by auto
  then obtain s ps where "transpile_recursive (optimize_dsl (expression req)) [] 0 10 = Inr (s, ps)"
    using transpile_complete(1) by blast
  with transpile_sound(1) [OF this] Inr show ?thesis
    by (simp add: compile_dsl_filter_def dsl_to_sql_def optimize_dsl_values del: upt_Suc)
qed

text \<open>The expression with every caller-supplied value blanked out.\<close>

fun blank_values :: "DslExpr \<Rightarrow> DslExpr" where
  "blank_values (DAnd fs) = DAnd (map blank_values fs)"
| "blank_values (DOr fs) = DOr (map blank_values fs)"
| "blank_values (DNot f) = DNot (blank_values f)"
| "blank_values (DEq f v) = DEq f JNull"
| "blank_values (DGt f v) = DGt f JNull"
| "blank_values (DLt f v) = DLt f JNull"
| "blank_values (DContains f v) = DContains f []"
| "blank_values (DIn f vs) = DIn f (map (\<lambda>v. JNull) vs)"
| "blank_values (DBetween f lo hi) = DBetween f JNull JNull"
| "blank_values (DExists f) = DExists f"

definition sql_shape :: "DslError + 'a \<times> json list \<Rightarrow> DslError + 'a \<times> nat" where
  "sql_shape r = map_sum id (\<lambda>(s, ps). (s, length ps)) r"

lemma sql_shape_eqD:
  "sql_shape r = sql_shape r' \<Longrightarrow>
     (\<exists>e. r = Inl e \<and> r' = Inl e) \<or>
     (\<exists>s ps ps'. r = Inr (s, ps) \<and> r' = Inr (s, ps') \<and> length ps = length ps')"
  by (cases r; cases r') (auto simp: sql_shape_def)

lemma push_all_blank:
  "length ps = length qs \<Longrightarrow> fst (push_all vs ps) = fst (push_all (map (\<lambda>v. JNull) vs) qs)"
proof (induction vs arbitrary: ps qs)
  case (Cons v vs)
  show ?case
    using Cons.prems Cons.IH [of "ps @ [v]" "qs @ [JNull]"] by (simp add: push_param_def Let_def case_prod_beta)
qed simp

lemma transpile_blank:
  "length ps = length qs \<Longrightarrow>
     sql_shape (transpile_recursive e ps d m) = sql_shape (transpile_recursive (blank_values e) qs d m)"
  "length ps = length qs \<Longrightarrow>
     sql_shape (transpile_children fs ps d m) = sql_shape (transpile_children (map blank_values fs) qs d m)"
proof (induction e ps d m and fs ps d m arbitrary: qs and qs
    rule: transpile_recursive_transpile_children.induct)
  case (1 e ps d m)
  show ?case
  proof (cases "m < d")
    case True
    then show ?thesis by (simp add: transpile_recursive.simps)
  next
    case False
    note leaf_simps = transpile_recursive.simps with_column_def push_param_def Let_def sql_shape_def
    show ?thesis
    proof (cases e)
      case (DAnd fs)
      then show ?thesis
        using "1.IH"(1) [OF False DAnd _ "1.prems"] False
        by (cases "fs = []")
           (auto simp: transpile_recursive.simps dest!: sql_shape_eqD, auto simp: sql_shape_def)
    next
      case (DOr fs)
      then show ?thesis
        using "1.IH"(2) [OF False DOr _ "1.prems"] False
        by (cases "fs = []")
           (auto simp: transpile_recursive.simps dest!: sql_shape_eqD, auto simp: sql_shape_def)
    next
      case (DNot f)
      then show ?thesis
        using "1.IH"(3) [OF False DNot "1.prems"] False
        by (auto simp: transpile_recursive.simps dest!: sql_shape_eqD) (auto simp: sql_shape_def)
    next
      case (DIn f vs)
      then show ?thesis
        using 1(4) False push_all_blank [OF "1.prems", of vs] push_all_params [of vs ps]
          push_all_params [of "map (\<lambda>v. JNull) vs" qs]
        by (auto simp: leaf_simps case_prod_beta split: option.splits)
    qed (use 1 False in \<open>auto simp: leaf_simps split: option.splits\<close>)
  qed
next
  case (2 ps d m)
  then show ?case by (simp add: sql_shape_def)
next
  case (3 f fs ps d m)
  show ?case
  proof (cases "transpile_recursive f ps d m")
    case (Inl e)
    then show ?thesis
      using sql_shape_eqD [OF "3.IH"(1) [OF "3.prems"]] by (auto simp: sql_shape_def)
  next
    case (Inr r)
    then obtain s ps1 qs1 where r: "transpile_recursive f ps d m = Inr (s, ps1)"
      "transpile_recursive (blank_values f) qs d m = Inr (s, qs1)" "length ps1 = length qs1"
      using sql_shape_eqD [OF "3.IH"(1) [OF "3.prems"]] by auto
    then show ?thesis
      using sql_shape_eqD [OF "3.IH"(2) [OF r(1) refl r(3)]] by (auto simp: sql_shape_def)
  qed
qed

text \<open>
  No injection through values. The SQL text of a filter, and the number of its bind
  parameters, are those of the same filter with every caller-supplied value blanked out, and a
  filter fails to compile exactly when the blanked one does, with the same error: values reach
  the database only as bind parameters, never as SQL text.
\<close>

theorem dsl_values_not_in_sql: "sql_shape (dsl_to_sql e) = sql_shape (dsl_to_sql (blank_values e))"
  unfolding dsl_to_sql_def by (rule transpile_blank(1)) simp

section \<open>The filter store\<close>

inductive store_reachable :: "dsl_store \<Rightarrow> bool" where
  store_empty: "store_reachable Map.empty"
| store_save: "store_reachable store \<Longrightarrow> store_reachable (snd (save_dsl_filter now name f store))"

lemma save_dsl_filter_lookup:
  "snd (save_dsl_filter now name f store) k =
     (if k = name \<and> name \<noteq> [] \<and> validate_dsl (expression f) = Inr ()
      then Some \<lparr>saved_name = name, saved_filter = f, created_at = now, saved_description = description f\<rparr>
      else store k)"
  by (auto simp: save_dsl_filter_def split: sum.splits)

text \<open>
  Every filter in the store, after any sequence of save requests, is stored under its own
  non-empty name and passes the validator, so a saved filter always compiles when it is used.
\<close>

theorem saved_filters_valid:
  assumes "store_reachable store" and "store n = Some f"
  shows "saved_name f = n \<and> n \<noteq> [] \<and> validate_dsl (expression (saved_filter f)) = Inr ()"
  using assms by (induction arbitrary: n f) (auto simp: save_dsl_filter_lookup split: if_splits)

theorem saved_filters_valid_witness:
  "validate_dsl (DNot (DExists ''ledger'')) = Inr ()"
proof -
  let ?f = "\<lparr>expression = DNot (DExists ''ledger''), description = None\<rparr>"
  have valid: "validate_dsl (DNot (DExists ''ledger'')) = Inr ()"
    by (simp add: validate_dsl_def validate_recursive.simps check_field_def DSL_FIELDS_def)
  have "store_reachable (snd (save_dsl_filter 0 ''x'' ?f Map.empty))"
    by (intro store_save store_empty)
  moreover have "snd (save_dsl_filter 0 ''x'' ?f Map.empty) ''x'' =
      Some \<lparr>saved_name = ''x'', saved_filter = ?f, created_at = 0, saved_description = None\<rparr>"
    by (simp add: save_dsl_filter_lookup valid)
  ultimately show ?thesis
    using saved_filters_valid by fastforce
qed

text \<open>
  The events endpoint answers every accepted filter with the same rows: the transpiled clause is
  reported as \<open>applied_filter\<close> and not part of the query that runs.
\<close>

lemma get_events_with_dsl_ignores_filter:
  assumes "get_events_with_dsl fetch (req\<lparr>req_filter := e\<rparr>) = EventsPage p"
    and "get_events_with_dsl fetch (req\<lparr>req_filter := e'\<rparr>) = EventsPage p'"
  shows "page_data p = page_data p' \<and> page_total p = page_total p'"
  using assms by (auto simp: get_events_with_dsl_def Let_def split: sum.splits)

end
