(* ===== verification/Net_Addr.thy ===== *)
theory Net_Addr
  imports Prelude
begin

text \<open>
  Network addresses as the service sees them: Rust's \<open>std::net::IpAddr\<close> with its parser, the
  runtime environment of \<open>src/config/mod.rs\<close>, and the parts of a parsed URL that the callers read.
\<close>

unbundle bit_operations_syntax

section \<open>Addresses\<close>

datatype IpAddr = V4 u8 u8 u8 u8 | V6 u16 u16 u16 u16 u16 u16 u16 u16

text \<open>
  \<open>Ipv4Addr::from_str\<close>: four decimal octets without leading zeros, separated by dots.
\<close>

definition parse_octet :: "string \<Rightarrow> nat option" where
  "parse_octet p =
     (if p = [] \<or> length p > 3 \<or> (length p > 1 \<and> hd p = CHR ''0'') then None
      else case digits_value 10 0 p of None \<Rightarrow> None | Some n \<Rightarrow> if n < 256 then Some n else None)"

definition parse_ipv4 :: "string \<Rightarrow> (nat \<times> nat \<times> nat \<times> nat) option" where
  "parse_ipv4 s = (case map parse_octet (split_on (CHR ''.'') s) of
     [Some a, Some b, Some c, Some d] \<Rightarrow> Some (a, b, c, d) | _ \<Rightarrow> None)"

text \<open>
  \<open>Ipv6Addr::from_str\<close>: groups of one to four hexadecimal digits separated by colons, at most one
  \<open>::\<close> standing for one or more zero groups, the last two groups possibly written as an IPv4
  address.
\<close>

definition parse_hextet :: "string \<Rightarrow> nat option" where
  "parse_hextet p = (if p = [] \<or> length p > 4 then None else digits_value 16 0 p)"

fun parse_groups :: "bool \<Rightarrow> string list \<Rightarrow> nat list option" where
  "parse_groups v4 [] = Some []"
| "parse_groups v4 [p] =
     (case (if v4 then parse_ipv4 p else None) of
        Some (a, b, c, d) \<Rightarrow> Some [a * 256 + b, c * 256 + d]
      | None \<Rightarrow> map_option (\<lambda>n. [n]) (parse_hextet p))"
| "parse_groups v4 (p # ps) =
     (case (parse_hextet p, parse_groups v4 ps) of (Some n, Some ns) \<Rightarrow> Some (n # ns) | _ \<Rightarrow> None)"

fun split_double_colon :: "string \<Rightarrow> (string \<times> string) option" where
  "split_double_colon (a # b # cs) =
     (if a = CHR '':'' \<and> b = CHR '':'' then Some ([], cs)
      else map_option (\<lambda>(h, t). (a # h, t)) (split_double_colon (b # cs)))"
| "split_double_colon _ = None"

definition parse_side :: "bool \<Rightarrow> string \<Rightarrow> nat list option" where
  "parse_side v4 s = (if s = [] then Some [] else parse_groups v4 (split_on (CHR '':'') s))"

definition parse_ipv6 :: "string \<Rightarrow> nat list option" where
  "parse_ipv6 s =
     (case split_double_colon s of
        None \<Rightarrow> (case parse_groups True (split_on (CHR '':'') s) of
                   Some gs \<Rightarrow> if length gs = 8 then Some gs else None | None \<Rightarrow> None)
      | Some (h, t) \<Rightarrow> (case (parse_side False h, parse_side True t) of
           (Some hs, Some ts) \<Rightarrow>
             if length hs + length ts \<le> 7
             then Some (hs @ replicate (8 - (length hs + length ts)) 0 @ ts) else None
         | _ \<Rightarrow> None))"

text \<open>\<open>IpAddr::from_str\<close>.\<close>

definition parse_ip :: "string \<Rightarrow> IpAddr option" where
  "parse_ip s =
     (case parse_ipv4 s of
        Some (a, b, c, d) \<Rightarrow> Some (V4 (of_nat a) (of_nat b) (of_nat c) (of_nat d))
      | None \<Rightarrow> (case parse_ipv6 s of
          Some [a, b, c, d, e, f, g, h] \<Rightarrow>
            Some (V6 (of_nat a) (of_nat b) (of_nat c) (of_nat d) (of_nat e) (of_nat f) (of_nat g) (of_nat h))
        | _ \<Rightarrow> None))"

text \<open>The dotted-decimal form of an IPv4 address, as \<open>Display\<close> prints it.\<close>

definition show_ipv4 :: "u8 \<Rightarrow> u8 \<Rightarrow> u8 \<Rightarrow> u8 \<Rightarrow> string" where
  "show_ipv4 a b c d = show_nat (unat a) @ ''.'' @ show_nat (unat b) @ ''.'' @ show_nat (unat c)
     @ ''.'' @ show_nat (unat d)"

section \<open>Environment\<close>

datatype Environment = Development | Staging | Production

definition Environment_from_str :: "string \<Rightarrow> Environment" where
  "Environment_from_str s =
     (let l = to_ascii_lowercase s
      in if l = ''production'' \<or> l = ''prod'' then Production
         else if l = ''staging'' \<or> l = ''stage'' then Staging else Development)"

definition is_production_like :: "Environment \<Rightarrow> bool" where
  "is_production_like env \<longleftrightarrow> env = Staging \<or> env = Production"

section \<open>URLs\<close>

text \<open>
  What the service reads of a URL that the \<open>url\<close> crate has parsed. The parser itself is a
  parameter of the operations that call it.
\<close>

record url =
  scheme :: string
  host_str :: "string option"
  port_or_default :: "nat option"

section \<open>Printing and parsing\<close>

lemma show_nat_no_dot: "CHR ''.'' \<notin> set (show_nat n)" and show_nat_no_colon: "CHR '':'' \<notin> set (show_nat n)"
  using show_nat_digits [of _ n] by (force simp: is_ascii_digit_def)+

lemma show_nat_length: "n < 10 ^ k \<Longrightarrow> 0 < k \<Longrightarrow> length (show_nat n) \<le> k"
proof (induction n arbitrary: k rule: show_nat.induct)
  case (1 n)
  show ?case
  proof (cases "n < 10")
    case True
    then show ?thesis using 1 by (simp add: show_nat.simps [of n])
  next
    case False
    then have "0 < k - 1" "n div 10 < 10 ^ (k - 1)"
      using 1(2,3) by (cases k; cases "k - 1"; auto)+
    then show ?thesis
      using 1 False by (subst show_nat.simps) fastforce
  qed
qed

lemma show_nat_hd: "n \<ge> 10 \<Longrightarrow> hd (show_nat n) \<noteq> CHR ''0''"
proof (induction n rule: show_nat.induct)
  case (1 n)
  show ?case
  proof (cases "n div 10 < 10")
    case True
    have "digit_char (n div 10) \<noteq> CHR ''0''"
    proof
      assume "digit_char (n div 10) = CHR ''0''"
      then have "(of_char (digit_char (n div 10)) :: nat) = 48" by simp
      then show False using True 1(2) by simp
    qed
    then show ?thesis
      using True 1(2) by (subst show_nat.simps, subst show_nat.simps) simp
  next
    case False
    then show ?thesis
      using 1 by (subst show_nat.simps) (simp add: hd_append)
  qed
qed

lemma show_nat_length_1: "length (show_nat n) > 1 \<Longrightarrow> n \<ge> 10"
  by (rule ccontr) (simp add: show_nat.simps)

lemma parse_octet_show [simp]: "n < 256 \<Longrightarrow> parse_octet (show_nat n) = Some n"
  using show_nat_length [of n 3] show_nat_length_1 [of n] show_nat_hd [of n]
  by (auto simp: parse_octet_def digits_value_show_nat)

lemma unat_u8_less [simp]: "unat (w :: u8) < 256"
  using unsigned_less [of w] by simp

lemma split_on_show_ipv4:
  "split_on (CHR ''.'') (show_ipv4 a b c d) =
     [show_nat (unat a), show_nat (unat b), show_nat (unat c), show_nat (unat d)]"
  by (simp add: show_ipv4_def split_on_append split_on_no_sep show_nat_no_dot)

lemma parse_ipv4_show: "parse_ipv4 (show_ipv4 a b c d) = Some (unat a, unat b, unat c, unat d)"
  by (simp add: parse_ipv4_def split_on_show_ipv4)

lemma parse_ip_show: "parse_ip (show_ipv4 a b c d) = Some (V4 a b c d)"
  by (simp add: parse_ip_def parse_ipv4_show)

lemma split_double_colon_none: "CHR '':'' \<notin> set s \<Longrightarrow> split_double_colon s = None"
  by (induction s rule: split_double_colon.induct) auto

lemma parse_ip_no_sep:
  assumes "CHR ''.'' \<notin> set s" and "CHR '':'' \<notin> set s"
  shows "parse_ip s = None"
proof -
  have "parse_ipv4 s = None"
    using assms(1) by (simp add: parse_ipv4_def split_on_no_sep split: option.split)
  moreover have "parse_ipv6 s = None"
    using assms(2) \<open>parse_ipv4 s = None\<close>
    by (auto simp: parse_ipv6_def split_double_colon_none split_on_no_sep split: option.splits)
  ultimately show ?thesis
    by (simp add: parse_ip_def)
qed

end
