(* ===== verification/Outbound.thy ===== *)
theory Outbound
  imports Net_Addr
begin

text \<open>
  Model of the outbound URL guard of \<open>src/net/outbound.rs\<close> and of the callback URL guard of
  \<open>src/subscriptions.rs\<close>. The environment variables, the \<open>url\<close> crate's parser and the name resolver
  are parameters. The locale \<open>ssrf_guard\<close> is the contract the two guards share: what their address
  check covers and that a literal address in the host goes through it.
\<close>

unbundle bit_operations_syntax

datatype outbound_error =
  PrefixMismatch | InvalidUrl | HttpsRequired | SchemeNotPermitted string
| PrivateHost string | Unresolvable string | PrivateAddress string IpAddr

section \<open>Private addresses\<close>

fun v6_reserved :: "IpAddr \<Rightarrow> bool" where
  "v6_reserved (V6 a b c d e f g h) \<longleftrightarrow>
     (a = 0 \<and> b = 0 \<and> c = 0 \<and> d = 0 \<and> e = 0 \<and> f = 0 \<and> g = 0 \<and> h = 1)
     \<or> (a = 0 \<and> b = 0 \<and> c = 0 \<and> d = 0 \<and> e = 0 \<and> f = 0 \<and> g = 0 \<and> h = 0)
     \<or> a AND 0xffc0 = 0xfe80
     \<or> a AND 0xfe00 = 0xfc00"
| "v6_reserved (V4 a b c d) \<longleftrightarrow> False"

fun is_private_ip :: "IpAddr \<Rightarrow> bool" where
  "is_private_ip (V4 a b c d) \<longleftrightarrow>
     a = 127
     \<or> a = 10
     \<or> (a = 172 \<and> 16 \<le> b \<and> b \<le> 31)
     \<or> (a = 192 \<and> b = 168)
     \<or> (a = 169 \<and> b = 254)
     \<or> (a = 0 \<and> b = 0 \<and> c = 0)
     \<or> a \<ge> 224
     \<or> (a = 100 \<and> 64 \<le> b \<and> b \<le> 127)"
| "is_private_ip ip \<longleftrightarrow> v6_reserved ip"

text \<open>The copy in \<open>subscriptions.rs\<close>, without the shared address space.\<close>

fun sub_is_private_ip :: "IpAddr \<Rightarrow> bool" where
  "sub_is_private_ip (V4 a b c d) \<longleftrightarrow>
     a = 127
     \<or> a = 10
     \<or> (a = 172 \<and> 16 \<le> b \<and> b \<le> 31)
     \<or> (a = 192 \<and> b = 168)
     \<or> (a = 169 \<and> b = 254)
     \<or> (a = 0 \<and> b = 0 \<and> c = 0)
     \<or> a \<ge> 224"
| "sub_is_private_ip ip \<longleftrightarrow> v6_reserved ip"

section \<open>Host checks\<close>

definition is_allowed_domain :: "string \<Rightarrow> string list \<Rightarrow> bool" where
  "is_allowed_domain hostname allowed =
     (if allowed = [] then False
      else let host_lower = to_ascii_lowercase hostname
           in list_ex (\<lambda>domain. let d = to_ascii_lowercase domain
                in host_lower = d \<or> ends_with host_lower (''.'' @ d)) allowed)"

text \<open>The loop over the parts: a decimal part leaves its octet at zero.\<close>

definition alternate_octet :: "string \<Rightarrow> nat option" where
  "alternate_octet part =
     (if starts_with part ''0x'' \<or> starts_with part ''0X'' then parse_u8_radix 16 (drop 2 part)
      else if starts_with part ''0'' \<and> length part > 1 then parse_u8_radix 8 (drop 1 part)
      else Some 0)"

definition try_parse_alternate_ipv4 :: "string \<Rightarrow> IpAddr option" where
  "try_parse_alternate_ipv4 h =
     (case map alternate_octet (split_on (CHR ''.'') h) of
        [Some a, Some b, Some c, Some d] \<Rightarrow> Some (V4 (of_nat a) (of_nat b) (of_nat c) (of_nat d))
      | _ \<Rightarrow> None)"

definition loopback_name :: "string \<Rightarrow> bool" where
  "loopback_name h \<longleftrightarrow> h = ''localhost'' \<or> h = ''127.0.0.1'' \<or> h = ''::1''
     \<or> ends_with h ''.local'' \<or> ends_with h ''.localhost''"

definition private_prefix :: "string \<Rightarrow> bool" where
  "private_prefix h \<longleftrightarrow>
     starts_with h ''10.'' \<or> starts_with h ''192.168.'' \<or> starts_with h ''169.254.''
     \<or> (starts_with h ''172.'' \<and>
         (case split_on (CHR ''.'') h of
            _ # o1 # _ \<Rightarrow> (case parse_u8_radix 10 o1 of Some n \<Rightarrow> 16 \<le> n \<and> n \<le> 31 | None \<Rightarrow> False)
          | _ \<Rightarrow> False))"

definition be_bytes_v4 :: "nat \<Rightarrow> IpAddr" where
  "be_bytes_v4 n = V4 (of_nat (n div 2 ^ 24)) (of_nat (n div 2 ^ 16 mod 256))
     (of_nat (n div 2 ^ 8 mod 256)) (of_nat (n mod 256))"

definition is_ssrf_hostname :: "string \<Rightarrow> bool" where
  "is_ssrf_hostname h =
     (if loopback_name h then True
      else if h = ''169.254.169.254'' \<or> h = ''metadata.google.internal'' \<or> h = ''169.254.170.2'' then True
      else case parse_ip h of
        Some ip \<Rightarrow> is_private_ip ip
      | None \<Rightarrow> (case try_parse_alternate_ipv4 h of
          Some ip \<Rightarrow> is_private_ip ip
        | None \<Rightarrow> (case parse_u32 h of
            Some n \<Rightarrow> is_private_ip (be_bytes_v4 n)
          | None \<Rightarrow> private_prefix h)))"

definition is_ssrf_host :: "string \<Rightarrow> bool" where
  "is_ssrf_host h =
     (if loopback_name h then True
      else case parse_ip h of Some ip \<Rightarrow> sub_is_private_ip ip | None \<Rightarrow> private_prefix h)"

section \<open>Validators\<close>

text \<open>
  \<open>prefix_var\<close> is the value of SUBSCRIPTION_ALLOWED_URL_PREFIXES, \<open>allow_private\<close> whether
  SSRF_ALLOW_PRIVATE_IPS is 1.
\<close>

definition url_prefixes :: "string option \<Rightarrow> string list" where
  "url_prefixes prefix_var =
     filter (\<lambda>s. s \<noteq> []) (map trim (split_on (CHR '','') (case prefix_var of None \<Rightarrow> [] | Some v \<Rightarrow> v)))"

definition check_scheme :: "Environment \<Rightarrow> string \<Rightarrow> outbound_error + unit" where
  "check_scheme env s =
     (if s = ''https'' then Inr ()
      else if s = ''http'' \<and> \<not> is_production_like env then Inr ()
      else if s = ''http'' then Inl HttpsRequired
      else Inl (SchemeNotPermitted s))"

definition host_of :: "url \<Rightarrow> string" where
  "host_of u = (case host_str u of None \<Rightarrow> [] | Some h \<Rightarrow> h)"


definition validate_outbound_url_static ::
  "(string \<Rightarrow> url option) \<Rightarrow> string option \<Rightarrow> string \<Rightarrow> Environment \<Rightarrow> string list \<Rightarrow> outbound_error + unit" where
  "validate_outbound_url_static parse prefix_var raw env allowed_domains =
     (let prefixes = url_prefixes prefix_var
      in if prefixes \<noteq> []
         then (if list_ex (\<lambda>p. starts_with raw p) prefixes then Inr () else Inl PrefixMismatch)
         else case parse raw of
           None \<Rightarrow> Inl InvalidUrl
         | Some u \<Rightarrow> (case check_scheme env (scheme u) of
             Inl e \<Rightarrow> Inl e
           | Inr _ \<Rightarrow> (let h = host_of u
               in if is_allowed_domain h allowed_domains then Inr ()
                  else if is_ssrf_hostname h then Inl (PrivateHost h)
                  else Inr ())))"

definition validate_callback_url ::
  "(string \<Rightarrow> url option) \<Rightarrow> string option \<Rightarrow> string \<Rightarrow> Environment \<Rightarrow> outbound_error + unit" where
  "validate_callback_url parse prefix_var raw env =
     (let prefixes = url_prefixes prefix_var
      in if prefixes \<noteq> []
         then (if list_ex (\<lambda>p. starts_with raw p) prefixes then Inr () else Inl PrefixMismatch)
         else case parse raw of
           None \<Rightarrow> Inl InvalidUrl
         | Some u \<Rightarrow> (case check_scheme env (scheme u) of
             Inl e \<Rightarrow> Inl e
           | Inr _ \<Rightarrow> if is_ssrf_host (host_of u) then Inl (PrivateHost (host_of u)) else Inr ()))"

section \<open>Address blocks\<close>

text \<open>
  The specification of the address check: an IPv4 address as a 32-bit number, and the reserved
  blocks in CIDR form, as pairs of the network address and the prefix length.
\<close>

definition v4_num :: "u8 \<Rightarrow> u8 \<Rightarrow> u8 \<Rightarrow> u8 \<Rightarrow> nat" where
  "v4_num a b c d = unat a * 2 ^ 24 + unat b * 2 ^ 16 + unat c * 2 ^ 8 + unat d"

definition in_block :: "nat \<Rightarrow> nat \<times> nat \<Rightarrow> bool" where
  "in_block n = (\<lambda>(net, len). n div 2 ^ (32 - len) = net div 2 ^ (32 - len))"

definition CORE_BLOCKS :: "(nat \<times> nat) list" where
  "CORE_BLOCKS =
     [(v4_num 127 0 0 0, 8), (v4_num 10 0 0 0, 8), (v4_num 172 16 0 0, 12), (v4_num 192 168 0 0, 16),
      (v4_num 169 254 0 0, 16), (v4_num 0 0 0 0, 24), (v4_num 224 0 0 0, 3)]"

definition RESERVED_BLOCKS :: "(nat \<times> nat) list" where
  "RESERVED_BLOCKS = CORE_BLOCKS @ [(v4_num 100 64 0 0, 10)]"

lemma octets_div:
  fixes a b c d :: nat
  assumes "a < 256" "b < 256" "c < 256" "d < 256"
  shows "(a * 16777216 + b * 65536 + c * 256 + d) div 16777216 = a"
    and "(a * 16777216 + b * 65536 + c * 256 + d) div 65536 = a * 256 + b"
    and "(a * 16777216 + b * 65536 + c * 256 + d) div 256 = a * 65536 + b * 256 + c"
    and "(a * 16777216 + b * 65536 + c * 256 + d) div 1048576 = a * 16 + b div 16"
    and "(a * 16777216 + b * 65536 + c * 256 + d) div 4194304 = a * 4 + b div 64"
    and "(a * 16777216 + b * 65536 + c * 256 + d) div 536870912 = a div 32"
  using assms by linarith+

lemma octets_block:
  fixes a b c :: nat
  assumes "a < 256" "b < 256" "c < 256"
  shows "a div 32 = 7 \<longleftrightarrow> 224 \<le> a"
    and "a * 16 + b div 16 = 2753 \<longleftrightarrow> a = 172 \<and> 16 \<le> b \<and> b \<le> 31"
    and "a * 256 + b = 49320 \<longleftrightarrow> a = 192 \<and> b = 168"
    and "a * 256 + b = 43518 \<longleftrightarrow> a = 169 \<and> b = 254"
    and "a * 4 + b div 64 = 401 \<longleftrightarrow> a = 100 \<and> 64 \<le> b \<and> b \<le> 127"
proof -
  show "a div 32 = 7 \<longleftrightarrow> 224 \<le> a" using assms by linarith
  have "a = 172" if "a * 16 + b div 16 = 2753" using that assms by linarith
  then show "a * 16 + b div 16 = 2753 \<longleftrightarrow> a = 172 \<and> 16 \<le> b \<and> b \<le> 31" by auto
  have "a = 192" if "a * 256 + b = 49320" using that assms by linarith
  then show "a * 256 + b = 49320 \<longleftrightarrow> a = 192 \<and> b = 168" by auto
  have "a = 169" if "a * 256 + b = 43518" using that assms by linarith
  then show "a * 256 + b = 43518 \<longleftrightarrow> a = 169 \<and> b = 254" by auto
  have "a = 100" if "a * 4 + b div 64 = 401" using that assms by linarith
  then show "a * 4 + b div 64 = 401 \<longleftrightarrow> a = 100 \<and> 64 \<le> b \<and> b \<le> 127" by auto
qed

lemma u8_eq_iff: "(x :: u8) = y \<longleftrightarrow> unat x = unat y" and u8_le_iff: "x \<le> y \<longleftrightarrow> unat x \<le> unat y"
  by (simp_all add: word_le_nat_alt word_unat_eq_iff)

lemma private_ip_blocks:
  "sub_is_private_ip (V4 a b c d) \<longleftrightarrow> list_ex (in_block (v4_num a b c d)) CORE_BLOCKS"
  "is_private_ip (V4 a b c d) \<longleftrightarrow> list_ex (in_block (v4_num a b c d)) RESERVED_BLOCKS"
proof -
  note divs = octets_div [OF unat_u8_less unat_u8_less unat_u8_less unat_u8_less]
    octets_block [OF unat_u8_less unat_u8_less unat_u8_less]
  show "sub_is_private_ip (V4 a b c d) \<longleftrightarrow> list_ex (in_block (v4_num a b c d)) CORE_BLOCKS"
    unfolding CORE_BLOCKS_def by (simp add: in_block_def v4_num_def divs u8_eq_iff u8_le_iff)
  then show "is_private_ip (V4 a b c d) \<longleftrightarrow> list_ex (in_block (v4_num a b c d)) RESERVED_BLOCKS"
    unfolding RESERVED_BLOCKS_def list_ex_append
    by (auto simp: in_block_def v4_num_def divs u8_eq_iff u8_le_iff)
qed

section \<open>The contract of the guards\<close>

text \<open>
  A guard checks a host name and an address; the address check covers the core reserved blocks and
  the reserved IPv6 ranges, an address literal goes through it, loopback names are refused.
\<close>

locale ssrf_guard =
  fixes blocked_ip :: "IpAddr \<Rightarrow> bool" and blocked_host :: "string \<Rightarrow> bool"
  assumes core_blocked: "list_ex (in_block (v4_num a b c d)) CORE_BLOCKS \<Longrightarrow> blocked_ip (V4 a b c d)"
    and v6_blocked: "v6_reserved ip \<Longrightarrow> blocked_ip ip"
    and literal_checked: "parse_ip h = Some ip \<Longrightarrow> blocked_ip ip \<Longrightarrow> blocked_host h"
    and loopback_blocked: "loopback_name h \<Longrightarrow> blocked_host h"
begin

lemma dotted_literal_blocked:
  "list_ex (in_block (v4_num a b c d)) CORE_BLOCKS \<Longrightarrow> blocked_host (show_ipv4 a b c d)"
  by (rule literal_checked [OF parse_ip_show core_blocked])

lemma v6_literal_blocked: "parse_ip h = Some ip \<Longrightarrow> v6_reserved ip \<Longrightarrow> blocked_host h"
  by (rule literal_checked [OF _ v6_blocked])

lemma localhost_blocked: "blocked_host ''localhost''" "blocked_host (sub @ ''.localhost'')" "blocked_host (sub @ ''.local'')"
  by (rule loopback_blocked, simp add: loopback_name_def ends_with_iff)+

lemma accepted_host:
  assumes "\<not> blocked_host h"
  shows "h \<noteq> ''localhost'' \<and> (\<forall>sub. h \<noteq> sub @ ''.localhost'' \<and> h \<noteq> sub @ ''.local'') \<and>
    (\<forall>a b c d. h = show_ipv4 a b c d \<longrightarrow> \<not> list_ex (in_block (v4_num a b c d)) CORE_BLOCKS) \<and>
    (\<forall>ip. parse_ip h = Some ip \<longrightarrow> \<not> v6_reserved ip)"
  using assms dotted_literal_blocked v6_literal_blocked localhost_blocked by metis

end

lemma v6_reserved_private: "v6_reserved ip \<Longrightarrow> is_private_ip ip \<and> sub_is_private_ip ip"
  by (cases ip) auto

interpretation outbound_guard: ssrf_guard is_private_ip is_ssrf_hostname
proof
  fix h ip
  assume "parse_ip h = Some ip" "is_private_ip ip"
  then show "is_ssrf_hostname h" by (simp add: is_ssrf_hostname_def)
qed (auto simp: private_ip_blocks RESERVED_BLOCKS_def is_ssrf_hostname_def dest: v6_reserved_private
    simp del: is_private_ip.simps(1))

interpretation callback_guard: ssrf_guard sub_is_private_ip is_ssrf_host
proof
  fix h ip
  assume "parse_ip h = Some ip" "sub_is_private_ip ip"
  then show "is_ssrf_host h" by (simp add: is_ssrf_host_def)
qed (auto simp: private_ip_blocks is_ssrf_host_def dest: v6_reserved_private
    simp del: sub_is_private_ip.simps(1))

section \<open>Literal hosts\<close>

lemma show_ipv4_chars: "x \<in> set (show_ipv4 a b c d) \<Longrightarrow> is_ascii_digit x \<or> x = CHR ''.''"
  using show_nat_digits by (auto simp: show_ipv4_def)

lemma loopback_name_digits:
  assumes "\<And>x. x \<in> set h \<Longrightarrow> is_ascii_digit x \<or> x = CHR ''.''" and "loopback_name h"
  shows "h = ''127.0.0.1''"
proof -
  have "CHR ''l'' \<notin> set h" "CHR '':'' \<notin> set h"
    using assms(1) by (force simp: is_ascii_digit_def)+
  with assms(2) show ?thesis
    by (auto simp: loopback_name_def ends_with_iff)
qed

lemma parse_ip_metadata:
  "parse_ip ''127.0.0.1'' = Some (V4 127 0 0 1)"
  "parse_ip ''169.254.169.254'' = Some (V4 169 254 169 254)"
  "parse_ip ''169.254.170.2'' = Some (V4 169 254 170 2)"
  by code_simp+

lemma is_ssrf_hostname_dotted: "is_ssrf_hostname (show_ipv4 a b c d) \<longleftrightarrow> is_private_ip (V4 a b c d)"
proof -
  let ?h = "show_ipv4 a b c d"
  have "is_private_ip (V4 a b c d)" if "?h = ''127.0.0.1'' \<or> ?h = ''169.254.169.254'' \<or> ?h = ''169.254.170.2''"
    using that parse_ip_metadata parse_ip_show [of a b c d] by auto
  moreover have "?h \<noteq> ''metadata.google.internal''"
    using show_ipv4_chars [of "CHR ''m''" a b c d] by (auto simp: is_ascii_digit_def)
  moreover have "loopback_name ?h \<Longrightarrow> ?h = ''127.0.0.1''"
    using loopback_name_digits show_ipv4_chars by blast
  ultimately show ?thesis
    unfolding is_ssrf_hostname_def by (auto simp: parse_ip_show simp del: is_private_ip.simps)
qed

lemma unat_of_nat_u8: "k < 256 \<Longrightarrow> unat (of_nat k :: u8) = k"
  by (simp add: unat_of_nat take_bit_nat_eq_self)

lemma byte_sum: "n div 16777216 * 16777216 + n div 65536 mod 256 * 65536 + n div 256 mod 256 * 256 + n mod 256 = n"
  for n :: nat
proof -
  have "n div 65536 = n div 256 div 256" "n div 16777216 = n div 256 div 256 div 256"
    using div_mult2_eq [of n 256 256] div_mult2_eq [of n 65536 256] by simp_all
  moreover have "q3 * 16777216 + r2 * 65536 + r1 * 256 + r0 = n"
    if "q1 * 256 + r0 = n" "q2 * 256 + r1 = q1" "q3 * 256 + r2 = q2" for q1 q2 q3 r0 r1 r2 :: nat
    using that by simp
  ultimately show ?thesis
    using div_mult_mod_eq by metis
qed

lemma v4_num_be_bytes:
  assumes "n < 2 ^ 32"
  shows "\<exists>a b c d. be_bytes_v4 n = V4 a b c d \<and> v4_num a b c d = n"
proof -
  have "n div 2 ^ 24 < 256" using assms by simp
  then have "v4_num (of_nat (n div 2 ^ 24)) (of_nat (n div 2 ^ 16 mod 256))
      (of_nat (n div 2 ^ 8 mod 256)) (of_nat (n mod 256)) = n"
    unfolding v4_num_def using byte_sum [of n] by (simp only: unat_of_nat_u8 mod_less_divisor) simp
  then show ?thesis
    unfolding be_bytes_v4_def by blast
qed

lemma is_ssrf_hostname_u32:
  assumes "n < 2 ^ 32"
  shows "is_ssrf_hostname (show_nat n) \<longleftrightarrow> is_private_ip (be_bytes_v4 n)"
proof -
  have no: "CHR ''.'' \<notin> set (show_nat n)" "CHR '':'' \<notin> set (show_nat n)"
    by (rule show_nat_no_dot show_nat_no_colon)+
  then have "\<not> loopback_name (show_nat n)"
    using loopback_name_digits [of "show_nat n"] show_nat_digits by force
  moreover have "show_nat n \<noteq> ''169.254.169.254''" "show_nat n \<noteq> ''169.254.170.2''"
      "show_nat n \<noteq> ''metadata.google.internal''"
    using no by auto
  moreover have "try_parse_alternate_ipv4 (show_nat n) = None"
    using no by (simp add: try_parse_alternate_ipv4_def split_on_no_sep split: option.split)
  moreover have "parse_u32 (show_nat n) = Some n"
    using assms parse_uint_zero_padded [of n "2 ^ 32" 0] by (simp add: parse_u32_def zero_padded_def)
  ultimately show ?thesis
    using no by (simp add: is_ssrf_hostname_def parse_ip_no_sep)
qed

section \<open>Properties\<close>

text \<open>
  Literal hosts are classified exactly. For a host written as a dotted-decimal IPv4 address,
  and for a host written as one decimal 32-bit number, the static check refuses it precisely when
  the address lies in one of the reserved CIDR blocks: loopback 127/8, private 10/8, 172.16/12 and
  192.168/16, link-local 169.254/16, 0.0.0/24, 224/3 and the shared address space 100.64/10.
\<close>

theorem ssrf_literal_exact:
  "(is_ssrf_hostname (show_ipv4 a b c d) \<longleftrightarrow> list_ex (in_block (v4_num a b c d)) RESERVED_BLOCKS) \<and>
   (n < 2 ^ 32 \<longrightarrow> (is_ssrf_hostname (show_nat n) \<longleftrightarrow> list_ex (in_block n) RESERVED_BLOCKS))"
proof (intro conjI impI)
  show "is_ssrf_hostname (show_ipv4 a b c d) \<longleftrightarrow> list_ex (in_block (v4_num a b c d)) RESERVED_BLOCKS"
    by (simp only: is_ssrf_hostname_dotted private_ip_blocks)
  assume n: "n < 2 ^ 32"
  obtain a b c d where "be_bytes_v4 n = V4 a b c d" "v4_num a b c d = n"
    using v4_num_be_bytes [OF n] by blast
  then show "is_ssrf_hostname (show_nat n) \<longleftrightarrow> list_ex (in_block n) RESERVED_BLOCKS"
    using is_ssrf_hostname_u32 [OF n] private_ip_blocks(2) [of a b c d] by simp
qed

theorem ssrf_literal_exact_witness: "is_ssrf_hostname (show_nat 2130706433)"
proof -
  have "list_ex (in_block 2130706433) RESERVED_BLOCKS"
    by (simp add: RESERVED_BLOCKS_def CORE_BLOCKS_def in_block_def v4_num_def)
  moreover have "(2130706433 :: nat) < 2 ^ 32"
    by simp
  ultimately show ?thesis
    using ssrf_literal_exact [of 0 0 0 0 2130706433] by blast
qed


text \<open>A world for the examples: one public host, reached over https.\<close>

definition example_parse :: "string \<Rightarrow> url option" where
  "example_parse raw = Some \<lparr>scheme = ''https'', host_str = Some ''hooks.example.com'', port_or_default = Some 443\<rparr>"


lemma url_prefixes_None [simp]: "url_prefixes None = []"
  by (simp add: url_prefixes_def trim_def strip_prefixes.simps white_space_def starts_with_def)

lemmas host_eval =
  is_ssrf_hostname_def is_ssrf_host_def loopback_name_def private_prefix_def starts_with_def
  ends_with_def parse_ip_def parse_ipv4_def parse_octet_def parse_ipv6_def parse_side_def
  parse_hextet_def try_parse_alternate_ipv4_def alternate_octet_def parse_u8_radix_def
  parse_u32_def parse_uint_def to_digit_def



text \<open>Splitting a name into its labels distributes over a dot.\<close>

lemma split_on_append_sep: "split_on c (x @ c # d) = split_on c x @ split_on c d"
proof (induction x)
  case (Cons y ys)
  then show ?case
    using split_on_nonempty [of c ys] by (auto split: list.splits)
qed simp

lemma join_append: "xs \<noteq> [] \<Longrightarrow> ys \<noteq> [] \<Longrightarrow> join sep (xs @ ys) = join sep xs @ sep @ join sep ys"
proof (induction sep xs rule: join.induct)
  case (2 sep x)
  then show ?case by (cases ys) auto
qed auto

lemma suffix_labels: "suffix (split_on c d) (split_on c h) \<longleftrightarrow> h = d \<or> ends_with h (c # d)"
proof
  assume "suffix (split_on c d) (split_on c h)"
  then obtain ls where ls: "split_on c h = ls @ split_on c d"
    by (auto simp: suffix_def)
  have "h = join [c] (ls @ split_on c d)"
    using join_split_on [of c h] ls by simp
  then show "h = d \<or> ends_with h (c # d)"
    by (cases "ls = []") (auto simp: join_append join_split_on ends_with_iff)
next
  assume "h = d \<or> ends_with h (c # d)"
  then show "suffix (split_on c d) (split_on c h)"
    by (auto simp: ends_with_iff split_on_append_sep suffix_def)
qed

text \<open>
  The provider allowlist matches whole labels: a host is allowed exactly when the dot-separated
  labels of some allowlist entry are a suffix of the labels of the host, case-insensitively, so
  \<open>hooks.discord.com\<close> matches \<open>discord.com\<close> and \<open>evildiscord.com\<close> does not.
\<close>

theorem is_allowed_domain_labels:
  "is_allowed_domain h allowed \<longleftrightarrow>
     (\<exists>d \<in> set allowed. suffix (split_on (CHR ''.'') (to_ascii_lowercase d))
                              (split_on (CHR ''.'') (to_ascii_lowercase h)))"
  by (auto simp: is_allowed_domain_def Let_def list_ex_iff suffix_labels)

text \<open>
  The callback guard. When no prefix allowlist is configured, an accepted callback URL uses
  https in staging and production, and its host is no loopback name, no dotted-decimal address
  in a core reserved block, and no reserved IPv6 literal.
\<close>

theorem validate_callback_url_safe:
  assumes "url_prefixes prefix_var = []"
    and "validate_callback_url parse prefix_var raw env = Inr ()"
  shows "\<exists>u. parse raw = Some u \<and> scheme u \<in> {''http'', ''https''} \<and>
    (is_production_like env \<longrightarrow> scheme u = ''https'') \<and>
    host_of u \<noteq> ''localhost'' \<and> (\<forall>sub. host_of u \<noteq> sub @ ''.localhost'' \<and> host_of u \<noteq> sub @ ''.local'') \<and>
    (\<forall>a b c d. host_of u = show_ipv4 a b c d \<longrightarrow> \<not> list_ex (in_block (v4_num a b c d)) CORE_BLOCKS) \<and>
    (\<forall>ip. parse_ip (host_of u) = Some ip \<longrightarrow> \<not> v6_reserved ip)"
proof -
  from assms obtain u where u: "parse raw = Some u" "check_scheme env (scheme u) = Inr ()"
      "\<not> is_ssrf_host (host_of u)"
    by (auto simp: validate_callback_url_def split: option.splits sum.splits if_splits)
  then have "scheme u \<in> {''http'', ''https''}" "is_production_like env \<longrightarrow> scheme u = ''https''"
    by (auto simp: check_scheme_def split: if_splits)
  with u(1) callback_guard.accepted_host [OF u(3)] show ?thesis
    by blast
qed

theorem validate_callback_url_safe_witness:
  "\<exists>u. example_parse ''https://hooks.example.com/x'' = Some u \<and> host_of u \<noteq> ''localhost''"
proof -
  have "\<not> is_ssrf_host ''hooks.example.com''"
    by (simp add: host_eval)
  then have "validate_callback_url example_parse None ''https://hooks.example.com/x'' Production = Inr ()"
    by (simp add: validate_callback_url_def example_parse_def check_scheme_def host_of_def)
  from validate_callback_url_safe [OF url_prefixes_None this] show ?thesis
    by blast
qed

section \<open>Gaps of the guards\<close>

text \<open>
  The \<open>url\<close> crate reports an IPv6 host in brackets; neither static check recognises that form, and
  neither address check covers IPv4-mapped IPv6 addresses. A decimal octet beside an octal one
  is read as zero.
\<close>

lemma bracketed_loopback_accepted: "\<not> is_ssrf_hostname ''[::1]'' \<and> \<not> is_ssrf_host ''[::1]''"
  by (simp add: host_eval)

lemma mapped_loopback_accepted: "\<not> is_private_ip (V6 0 0 0 0 0 0xffff 0x7f00 1)"
  by simp

lemma mixed_octal_accepted: "\<not> is_ssrf_hostname ''192.0250.0.1''"
  by (simp add: host_eval)

end
