(* ===== verification/Rpc_Endpoints.thy ===== *)
theory Rpc_Endpoints
  imports Event_Model F64 Bounded_Log "HOL-Library.Product_Lexorder" "HOL-Library.Multiset"
begin

text \<open>
  Model of \<open>src/rpc_endpoints.rs\<close> and of the failover call of \<open>src/indexer.rs\<close>: the health record of
  every RPC endpoint, the latency probe, the order in which endpoints are tried, and the call that
  tries them until one returns a result. Instants are nanoseconds; the replies of the network are
  parameters. The latency window is an instance of the bounded log.
\<close>

section \<open>Health of an endpoint\<close>

definition SECOND :: int where "SECOND = 1000000000"
definition PROBE_INTERVAL :: int where "PROBE_INTERVAL = 30 * SECOND"
definition UNAVAILABLE_REPROBE_INTERVAL :: int where "UNAVAILABLE_REPROBE_INTERVAL = 60 * SECOND"
definition MAX_CONSECUTIVE_ERRORS :: u32 where "MAX_CONSECUTIVE_ERRORS = 3"
definition LATENCY_WINDOW :: nat where "LATENCY_WINDOW = 10"
definition SCHEDULE_SLACK :: int where "SCHEDULE_SLACK = SECOND"

record EndpointHealth =
  samples :: "f64 list"
  consecutive_errors :: u32
  unavailable :: bool
  last_probe :: "int option"

definition health_default :: EndpointHealth where
  "health_default = \<lparr>samples = [], consecutive_errors = 0, unavailable = False, last_probe = None\<rparr>"

definition p50_ms :: "EndpointHealth \<Rightarrow> f64 option" where
  "p50_ms h =
     (if samples h = [] then None
      else let sorted = sort (samples h); mid = length sorted div 2
           in Some (if length sorted mod 2 = 0
                    then f64_div (f64_add (sorted ! (mid - 1)) (sorted ! mid)) 2
                    else sorted ! mid))"

definition health_success :: "EndpointHealth \<Rightarrow> EndpointHealth" where
  "health_success h = h\<lparr>consecutive_errors := 0, unavailable := False\<rparr>"

definition push_sample :: "f64 \<Rightarrow> EndpointHealth \<Rightarrow> EndpointHealth" where
  "push_sample x h =
     (let s = (if length (samples h) = LATENCY_WINDOW then drop 1 (samples h) else samples h)
      in h\<lparr>samples := s @ [x]\<rparr>)"

definition health_failure :: "EndpointHealth \<Rightarrow> bool \<times> EndpointHealth" where
  "health_failure h =
     (let h1 = h\<lparr>consecutive_errors := saturating_add (consecutive_errors h) 1\<rparr>
      in if \<not> unavailable h1 \<and> consecutive_errors h1 \<ge> MAX_CONSECUTIVE_ERRORS
         then (True, h1\<lparr>unavailable := True, samples := []\<rparr>)
         else (False, h1))"

section \<open>The endpoint set\<close>

record RpcEndpoints =
  urls :: "string list"
  health :: "EndpointHealth list"

fun push_unique :: "string list \<Rightarrow> string list \<Rightarrow> string list" where
  "push_unique acc [] = acc"
| "push_unique acc (u # us) = push_unique (if u \<in> set acc then acc else acc @ [u]) us"

text \<open>An empty list panics: the value is \<^const>\<open>None\<close>.\<close>

definition endpoints_new :: "string list \<Rightarrow> RpcEndpoints option" where
  "endpoints_new us =
     (let unique = push_unique [] us
      in if unique = [] then None
         else Some \<lparr>urls = unique, health = map (\<lambda>_. health_default) unique\<rparr>)"

definition endpoints_len :: "RpcEndpoints \<Rightarrow> nat" where
  "endpoints_len es = length (urls es)"

definition update_health :: "nat \<Rightarrow> (EndpointHealth \<Rightarrow> EndpointHealth) \<Rightarrow> RpcEndpoints \<Rightarrow> RpcEndpoints" where
  "update_health idx f es = es\<lparr>health := (health es)[idx := f (health es ! idx)]\<rparr>"

definition is_available :: "RpcEndpoints \<Rightarrow> nat \<Rightarrow> bool" where
  "is_available es idx \<longleftrightarrow> \<not> unavailable (health es ! idx)"

text \<open>
  The sort key. An unmeasured endpoint counts as infinitely slow: it sorts after every measured one.
\<close>

definition candidate_key :: "RpcEndpoints \<Rightarrow> nat \<Rightarrow> bool \<times> bool \<times> bool \<times> f64 \<times> nat" where
  "candidate_key es idx =
     (let h = health es ! idx
      in (unavailable h, consecutive_errors h > 0, p50_ms h = None,
          (case p50_ms h of None \<Rightarrow> 0 | Some ms \<Rightarrow> ms), idx))"

definition candidates :: "RpcEndpoints \<Rightarrow> nat list" where
  "candidates es = sort_key (candidate_key es) [0 ..< endpoints_len es]"

definition best :: "RpcEndpoints \<Rightarrow> nat" where
  "best es = candidates es ! 0"

definition record_success :: "nat \<Rightarrow> RpcEndpoints \<Rightarrow> RpcEndpoints" where
  "record_success idx es = update_health idx health_success es"

text \<open>\<open>Duration::as_secs_f64\<close>, in milliseconds.\<close>

definition duration_ms :: "nat \<Rightarrow> f64" where
  "duration_ms ns = f64_mul (f64_add (f64_of_nat (ns div 10 ^ 9)) (f64_div (f64_of_nat (ns mod 10 ^ 9)) (10 ^ 9))) 1000"

definition record_latency :: "nat \<Rightarrow> nat \<Rightarrow> RpcEndpoints \<Rightarrow> RpcEndpoints" where
  "record_latency idx latency es = record_success idx (update_health idx (push_sample (duration_ms latency)) es)"

definition record_failure :: "nat \<Rightarrow> RpcEndpoints \<Rightarrow> bool \<times> RpcEndpoints" where
  "record_failure idx es =
     (fst (health_failure (health es ! idx)), update_health idx (\<lambda>h. snd (health_failure h)) es)"

definition due_for_probe :: "RpcEndpoints \<Rightarrow> nat \<Rightarrow> int \<Rightarrow> bool" where
  "due_for_probe es idx now =
     (let h = health es ! idx;
          interval = (if unavailable h then UNAVAILABLE_REPROBE_INTERVAL else PROBE_INTERVAL)
      in case last_probe h of
           None \<Rightarrow> True
         | Some t \<Rightarrow> max 0 (now - t) + SCHEDULE_SLACK \<ge> interval)"

definition mark_probed :: "nat \<Rightarrow> int \<Rightarrow> RpcEndpoints \<Rightarrow> RpcEndpoints" where
  "mark_probed idx t es = update_health idx (\<lambda>h. h\<lparr>last_probe := Some t\<rparr>) es"

text \<open>A ping either fails or returns after some nanoseconds.\<close>

definition probe_one :: "(nat \<Rightarrow> nat option) \<Rightarrow> int \<Rightarrow> nat \<Rightarrow> RpcEndpoints \<Rightarrow> RpcEndpoints" where
  "probe_one ping now idx es =
     (let es1 = mark_probed idx now es
      in case ping idx of
           Some elapsed \<Rightarrow> record_latency idx elapsed es1
         | None \<Rightarrow> snd (record_failure idx es1))"

definition probe_due :: "(nat \<Rightarrow> nat option) \<Rightarrow> int \<Rightarrow> RpcEndpoints \<Rightarrow> RpcEndpoints" where
  "probe_due ping now es =
     fold (probe_one ping now) (filter (\<lambda>idx. due_for_probe es idx now) [0 ..< endpoints_len es]) es"

section \<open>Failover\<close>

datatype 'r rpc_reply = Transport string | Reply "'r RpcResponse"

record rpc_client =
  endpoints :: RpcEndpoints
  active_idx :: nat

fun failover_loop ::
  "(nat \<Rightarrow> 'r rpc_reply) \<Rightarrow> nat list \<Rightarrow> string option \<Rightarrow> string \<Rightarrow> rpc_client \<Rightarrow> (string + 'r) \<times> rpc_client" where
  "failover_loop post [] rpc_err transport_err c =
     (Inl (case rpc_err of Some m \<Rightarrow> m | None \<Rightarrow> transport_err), c)"
| "failover_loop post (idx # idxs) rpc_err transport_err c =
     (case post idx of
        Transport e \<Rightarrow> failover_loop post idxs rpc_err e
          (c\<lparr>endpoints := snd (record_failure idx (endpoints c))\<rparr>)
      | Reply r \<Rightarrow> (case result r of
          Some v \<Rightarrow> (Inr v, c\<lparr>endpoints := record_success idx (endpoints c), active_idx := idx\<rparr>)
        | None \<Rightarrow>
            (let message = (case rpc_error r of Some err \<Rightarrow> err_message err | None \<Rightarrow> ''RPC returned no result'')
             in failover_loop post idxs (case rpc_err of Some m \<Rightarrow> Some m | None \<Rightarrow> Some message)
                  transport_err c)))"

definition call_with_failover :: "(nat \<Rightarrow> 'r rpc_reply) \<Rightarrow> rpc_client \<Rightarrow> (string + 'r) \<times> rpc_client" where
  "call_with_failover post c =
     failover_loop post (candidates (endpoints c)) None ''no RPC endpoint reachable'' c"

section \<open>The latency window is a bounded log\<close>

lemma samples_push_sample:
  "length (samples h) \<le> LATENCY_WINDOW \<Longrightarrow> samples (push_sample x h) = last_n LATENCY_WINDOW (samples h @ [x])"
  by (auto simp: push_sample_def last_n_def LATENCY_WINDOW_def Let_def)

interpretation window: bounded_log push_sample samples "\<lambda>_. LATENCY_WINDOW"
  by unfold_locales (auto simp: samples_push_sample)

section \<open>Invariant\<close>

text \<open>
  An endpoint is unavailable exactly when it has seen at least three failures since its last
  success; the window never exceeds ten samples.
\<close>

definition health_ok :: "EndpointHealth \<Rightarrow> bool" where
  "health_ok h \<longleftrightarrow> (unavailable h \<longleftrightarrow> MAX_CONSECUTIVE_ERRORS \<le> consecutive_errors h) \<and>
     length (samples h) \<le> LATENCY_WINDOW"

definition endpoints_ok :: "RpcEndpoints \<Rightarrow> bool" where
  "endpoints_ok es \<longleftrightarrow> length (health es) = length (urls es) \<and> list_all health_ok (health es)"

lemma health_ok_default: "health_ok health_default"
  by (simp add: health_ok_def health_default_def MAX_CONSECUTIVE_ERRORS_def)

lemma health_ok_success: "health_ok h \<Longrightarrow> health_ok (health_success h)"
  by (simp add: health_ok_def health_success_def MAX_CONSECUTIVE_ERRORS_def)

lemma health_ok_push: "health_ok h \<Longrightarrow> health_ok (push_sample x h)"
  using samples_push_sample [of h x] by (auto simp: health_ok_def push_sample_def Let_def)

lemma saturating_inc_ge: "m \<le> x \<Longrightarrow> m \<le> saturating_add (x :: u32) 1"
proof -
  have "unat m < 2 ^ 32"
    using unsigned_less [of m, where ?'a = nat] by simp
  then show "m \<le> x \<Longrightarrow> m \<le> saturating_add x 1"
    by (simp add: word_le_nat_alt unat_saturating_add)
qed

lemma health_ok_failure: "health_ok h \<Longrightarrow> health_ok (snd (health_failure h))"
  using saturating_inc_ge [of MAX_CONSECUTIVE_ERRORS "consecutive_errors h"]
  by (auto simp: health_ok_def health_failure_def Let_def)

lemma endpoints_ok_update:
  assumes "endpoints_ok es" and "\<And>h. health_ok h \<Longrightarrow> health_ok (f h)"
  shows "endpoints_ok (update_health idx f es)"
  using assms set_update_subset_insert [of "health es" idx "f (health es ! idx)"]
  by (cases "idx < length (health es)")
    (auto simp: endpoints_ok_def update_health_def list_all_iff list_update_beyond)

lemma length_update [simp]: "endpoints_len (update_health idx f es) = endpoints_len es"
  by (simp add: endpoints_len_def update_health_def)

lemmas endpoint_ops = record_success_def record_latency_def record_failure_def mark_probed_def

lemma endpoints_ok_basic:
  assumes "endpoints_ok es"
  shows "endpoints_ok (record_success idx es)" "endpoints_ok (record_latency idx l es)"
    "endpoints_ok (snd (record_failure idx es))" "endpoints_ok (mark_probed idx t es)"
  using assms
  by (simp_all add: endpoint_ops endpoints_ok_update health_ok_success health_ok_push health_ok_failure)
     (rule endpoints_ok_update, simp_all add: health_ok_def)

lemma endpoints_ok_probe:
  assumes "endpoints_ok es"
  shows "endpoints_ok (probe_one ping t idx es)" "endpoints_ok (probe_due ping t es)"
proof -
  have one: "endpoints_ok (probe_one ping t idx es)" if "endpoints_ok es" for es idx
    using that by (auto simp: probe_one_def Let_def endpoints_ok_basic split: option.split)
  with assms show "endpoints_ok (probe_one ping t idx es)"
    by simp
  have "endpoints_ok (fold (probe_one ping t) xs es)" if "endpoints_ok es" for xs es
    using that by (induction xs arbitrary: es) (simp_all add: one)
  with assms show "endpoints_ok (probe_due ping t es)"
    by (simp add: probe_due_def)
qed

inductive endpoints_reachable :: "RpcEndpoints \<Rightarrow> bool" where
  er_new: "endpoints_new us = Some es \<Longrightarrow> endpoints_reachable es"
| er_success: "endpoints_reachable es \<Longrightarrow> endpoints_reachable (record_success idx es)"
| er_failure: "endpoints_reachable es \<Longrightarrow> endpoints_reachable (snd (record_failure idx es))"
| er_latency: "endpoints_reachable es \<Longrightarrow> endpoints_reachable (record_latency idx l es)"
| er_probe: "endpoints_reachable es \<Longrightarrow> endpoints_reachable (probe_due ping t es)"

lemma endpoints_reachable_ok: "endpoints_reachable es \<Longrightarrow> endpoints_ok es"
proof (induction rule: endpoints_reachable.induct)
  case (er_new us es)
  then show ?case
    by (auto simp: endpoints_new_def Let_def endpoints_ok_def list_all_iff health_ok_default split: if_splits)
qed (simp_all add: endpoints_ok_basic endpoints_ok_probe)

lemma probe_due_len [simp]: "endpoints_len (probe_due ping t es) = endpoints_len es"
proof -
  have "endpoints_len (fold (probe_one ping t) xs es) = endpoints_len es" for xs es
    by (induction xs arbitrary: es) (auto simp: probe_one_def endpoint_ops Let_def split: option.split)
  then show ?thesis by (simp add: probe_due_def)
qed

lemma endpoints_reachable_nonempty: "endpoints_reachable es \<Longrightarrow> 0 < endpoints_len es"
proof (induction rule: endpoints_reachable.induct)
  case (er_new us es)
  then show ?case by (auto simp: endpoints_new_def Let_def endpoints_len_def split: if_splits)
qed (simp_all add: endpoint_ops)

text \<open>Probing touches only the probed endpoint.\<close>

lemma health_update: "health (update_health idx f es) ! j = (if j = idx \<and> idx < length (health es) then f (health es ! idx) else health es ! j)"
  by (cases "idx < length (health es)") (auto simp: update_health_def list_update_beyond)

lemma length_health_update [simp]: "length (health (update_health idx f es)) = length (health es)"
  by (simp add: update_health_def)

lemma length_health_probe [simp]: "length (health (probe_one ping t idx es)) = length (health es)"
  by (auto simp: probe_one_def endpoint_ops Let_def split: option.split)

lemma probe_one_other: "j \<noteq> idx \<Longrightarrow> health (probe_one ping t idx es) ! j = health es ! j"
  by (auto simp: probe_one_def endpoint_ops Let_def health_update split: option.split)

lemma probe_one_self:
  "j < length (health es) \<Longrightarrow> ping j = Some l \<Longrightarrow>
     \<not> unavailable (health (probe_one ping t j es) ! j) \<and> consecutive_errors (health (probe_one ping t j es) ! j) = 0"
  by (simp add: probe_one_def endpoint_ops Let_def health_update health_success_def)

lemma fold_probe_other: "j \<notin> set xs \<Longrightarrow> health (fold (probe_one ping t) xs es) ! j = health es ! j"
  by (induction xs arbitrary: es) (simp_all add: probe_one_other)

lemma fold_probe_self:
  "j \<in> set xs \<Longrightarrow> distinct xs \<Longrightarrow> j < length (health es) \<Longrightarrow> ping j = Some l \<Longrightarrow>
     \<not> unavailable (health (fold (probe_one ping t) xs es) ! j)"
proof (induction xs arbitrary: es)
  case (Cons x xs)
  then show ?case
    by (cases "j = x") (auto simp: fold_probe_other probe_one_self)
qed simp

section \<open>Properties\<close>

text \<open>
  Health tracking. In every reachable state an endpoint is marked unavailable exactly when at
  least three failures were recorded since its last success, and its latency window holds at most
  ten samples. An unavailable endpoint is never given up: sixty seconds after its last probe (less
  one second of slack) the next probe round includes it, and a successful ping makes it available.
\<close>

theorem endpoint_health:
  assumes "endpoints_reachable es" and "idx < endpoints_len es"
  shows "(unavailable (health es ! idx) \<longleftrightarrow> MAX_CONSECUTIVE_ERRORS \<le> consecutive_errors (health es ! idx)) \<and>
    length (samples (health es ! idx)) \<le> LATENCY_WINDOW \<and>
    (\<forall>t now ping l. last_probe (health es ! idx) = Some t \<and> t + 59 * SECOND \<le> now \<and> ping idx = Some l \<longrightarrow>
       is_available (probe_due ping now es) idx)"
proof -
  have ok: "length (health es) = endpoints_len es" "health_ok (health es ! idx)"
    using endpoints_reachable_ok [OF assms(1)] assms(2)
    by (auto simp: endpoints_ok_def endpoints_len_def list_all_length)
  have "is_available (probe_due ping now es) idx"
    if "last_probe (health es ! idx) = Some t" "t + 59 * SECOND \<le> now" "ping idx = Some l" for t now ping l
  proof -
    have "due_for_probe es idx now"
      using that(1,2) by (auto simp: due_for_probe_def Let_def PROBE_INTERVAL_def
          UNAVAILABLE_REPROBE_INTERVAL_def SCHEDULE_SLACK_def SECOND_def)
    then show ?thesis
      unfolding probe_due_def is_available_def
      using that(3) ok(1) assms(2) by (intro fold_probe_self) auto
  qed
  then show ?thesis
    using ok(2) by (auto simp: health_ok_def)
qed

definition example_endpoints :: RpcEndpoints where
  "example_endpoints = \<lparr>urls = [''a'', ''b''], health = [health_default, health_default]\<rparr>"

lemma example_endpoints_new: "endpoints_new [''a'', ''b'', ''a''] = Some example_endpoints"
  by (simp add: endpoints_new_def example_endpoints_def)

theorem endpoint_health_witness:
  "unavailable (health (snd (record_failure 0 (snd (record_failure 0 (snd (record_failure 0 example_endpoints)))))) ! 0)"
proof -
  let ?es = "snd (record_failure 0 (snd (record_failure 0 (snd (record_failure 0 example_endpoints)))))"
  have "endpoints_reachable ?es"
    by (intro er_failure er_new [OF example_endpoints_new])
  moreover have "0 < endpoints_len ?es" "MAX_CONSECUTIVE_ERRORS \<le> consecutive_errors (health ?es ! 0)"
    by (simp_all add: record_failure_def update_health_def health_failure_def endpoints_len_def
        example_endpoints_def health_default_def MAX_CONSECUTIVE_ERRORS_def saturating_add_def Let_def)
  ultimately show ?thesis
    using endpoint_health by blast
qed

lemma set_candidates [simp]: "set (candidates es) = {..< endpoints_len es}"
  by (auto simp: candidates_def)

lemma distinct_candidates [simp]: "distinct (candidates es)"
  by (simp add: candidates_def distinct_sort)

lemma length_candidates [simp]: "length (candidates es) = endpoints_len es"
  by (simp add: candidates_def)

lemma candidates_sorted:
  "i \<le> j \<Longrightarrow> j < endpoints_len es \<Longrightarrow>
     candidate_key es (candidates es ! i) \<le> candidate_key es (candidates es ! j)"
  using sorted_nth_mono [of "map (candidate_key es) (candidates es)" i j]
  by (simp add: candidates_def endpoints_len_def)

lemma candidates_available_first:
  "i \<le> j \<Longrightarrow> j < endpoints_len es \<Longrightarrow> is_available es (candidates es ! j) \<Longrightarrow> is_available es (candidates es ! i)"
  using candidates_sorted [of i j es]
  by (auto simp: candidate_key_def Let_def is_available_def less_eq_prod_def)

lemma best_fastest:
  assumes "idx < endpoints_len es" "is_available es idx" "consecutive_errors (health es ! idx) = 0"
    "p50_ms (health es ! idx) = Some ms"
  shows "is_available es (best es) \<and> consecutive_errors (health es ! best es) = 0 \<and>
    (\<exists>ms'. p50_ms (health es ! best es) = Some ms' \<and> ms' \<le> ms)"
proof -
  from assms(1) obtain j where j: "j < endpoints_len es" "candidates es ! j = idx"
    using set_candidates [of es] by (metis in_set_conv_nth length_candidates lessThan_iff)
  have "candidate_key es (best es) \<le> candidate_key es idx"
    using candidates_sorted [of 0 j es] j by (simp add: best_def)
  then have "\<not> unavailable (health es ! best es) \<and> \<not> consecutive_errors (health es ! best es) > 0 \<and>
      (\<exists>ms'. p50_ms (health es ! best es) = Some ms' \<and> ms' \<le> ms)"
    using assms by (auto simp: candidate_key_def Let_def is_available_def less_eq_prod_def split: option.splits)
  then show ?thesis
    by (simp add: is_available_def word_gt_0)
qed

text \<open>
  Routing order. The candidate list contains every endpoint exactly once. No unavailable
  endpoint comes before an available one. When some endpoint is available, has no recent error and
  has a measured latency, requests go first to such an endpoint with the lowest median latency.
\<close>

theorem candidates_order:
  "distinct (candidates es) \<and> set (candidates es) = {..< endpoints_len es} \<and>
   (\<forall>i j. i \<le> j \<and> j < endpoints_len es \<and> is_available es (candidates es ! j) \<longrightarrow>
      is_available es (candidates es ! i)) \<and>
   (\<forall>idx ms. idx < endpoints_len es \<and> is_available es idx \<and> consecutive_errors (health es ! idx) = 0 \<and>
      p50_ms (health es ! idx) = Some ms \<longrightarrow>
      is_available es (best es) \<and> consecutive_errors (health es ! best es) = 0 \<and>
      (\<exists>ms'. p50_ms (health es ! best es) = Some ms' \<and> ms' \<le> ms))"
  using candidates_available_first best_fastest by (simp, blast)

text \<open>Two endpoints, the second one measured at two milliseconds.\<close>

theorem candidates_order_witness:
  "let es = \<lparr>urls = [''a'', ''b''], health = [health_default\<lparr>samples := [5]\<rparr>, health_default\<lparr>samples := [2]\<rparr>]\<rparr>
   in \<exists>ms'. p50_ms (health es ! best es) = Some ms' \<and> ms' \<le> 2"
proof -
  let ?es = "\<lparr>urls = [''a'', ''b''], health = [health_default\<lparr>samples := [5]\<rparr>, health_default\<lparr>samples := [2]\<rparr>]\<rparr>"
  have "1 < endpoints_len ?es" "is_available ?es 1" "consecutive_errors (health ?es ! 1) = 0"
    "p50_ms (health ?es ! 1) = Some 2"
    by (simp_all add: endpoints_len_def is_available_def health_default_def p50_ms_def)
  then show ?thesis
    using candidates_order [of ?es] unfolding Let_def by blast
qed

text \<open>The result an endpoint returns, if any, and whether it failed to answer at all.\<close>

fun reply_result :: "'r rpc_reply \<Rightarrow> 'r option" where
  "reply_result (Transport e) = None"
| "reply_result (Reply r) = result r"

fun is_transport :: "'r rpc_reply \<Rightarrow> bool" where
  "is_transport (Transport e) = True"
| "is_transport (Reply r) = False"

definition record_failures :: "nat list \<Rightarrow> RpcEndpoints \<Rightarrow> RpcEndpoints" where
  "record_failures idxs es = fold (\<lambda>i es. snd (record_failure i es)) idxs es"

lemma failover_loop_success:
  assumes "\<forall>i \<in> set pre. reply_result (post i) = None" and "reply_result (post idx) = Some v"
  shows "failover_loop post (pre @ idx # rest) rerr terr c =
    (Inr v, c\<lparr>endpoints := record_success idx (record_failures (filter (\<lambda>i. is_transport (post i)) pre) (endpoints c)),
              active_idx := idx\<rparr>)"
  using assms(1)
proof (induction pre arbitrary: rerr terr c)
  case Nil
  then show ?case
    using assms(2) by (cases "post idx") (simp_all add: record_failures_def)
next
  case (Cons i pre)
  then show ?case
    by (cases "post i") (simp_all add: record_failures_def Let_def)
qed

lemma failover_loop_failure:
  assumes "\<forall>i \<in> set idxs. reply_result (post i) = None"
  shows "\<exists>m. failover_loop post idxs rerr terr c =
    (Inl m, c\<lparr>endpoints := record_failures (filter (\<lambda>i. is_transport (post i)) idxs) (endpoints c)\<rparr>)"
  using assms
proof (induction idxs arbitrary: rerr terr c)
  case Nil
  then show ?case by (simp add: record_failures_def)
next
  case (Cons i idxs)
  then have "reply_result (post i) = None" "\<forall>i \<in> set idxs. reply_result (post i) = None"
    by simp_all
  then show ?case
    using Cons.IH [of rerr _ "c\<lparr>endpoints := snd (record_failure i (endpoints c))\<rparr>"] Cons.IH [of _ terr c]
    by (cases "post i") (simp_all add: record_failures_def Let_def)
qed

text \<open>
  Failover. If any endpoint answers with a result, the call returns the result of the first
  such endpoint in routing order, makes that endpoint the active one and records its success; the
  endpoints tried before it have a failure recorded exactly when they failed to answer. Otherwise
  every endpoint was tried and the call returns an error.
\<close>

theorem call_with_failover_spec:
  "(\<forall>pre idx rest v. candidates (endpoints c) = pre @ idx # rest \<and>
      (\<forall>i \<in> set pre. reply_result (post i) = None) \<and> reply_result (post idx) = Some v \<longrightarrow>
      call_with_failover post c =
        (Inr v, c\<lparr>endpoints := record_success idx
                    (record_failures (filter (\<lambda>i. is_transport (post i)) pre) (endpoints c)),
                  active_idx := idx\<rparr>)) \<and>
   ((\<forall>i < endpoints_len (endpoints c). reply_result (post i) = None) \<longrightarrow>
      (\<exists>m. call_with_failover post c =
        (Inl m, c\<lparr>endpoints := record_failures
                    (filter (\<lambda>i. is_transport (post i)) (candidates (endpoints c))) (endpoints c)\<rparr>)))"
proof (intro conjI allI impI, goal_cases)
  case (1 pre idx rest v)
  then show ?case
    unfolding call_with_failover_def by (simp add: failover_loop_success)
next
  case 2
  then have "\<forall>i \<in> set (candidates (endpoints c)). reply_result (post i) = None"
    by simp
  then show ?case
    unfolding call_with_failover_def by (rule failover_loop_failure)
qed

text \<open>The primary endpoint fails to answer, the fallback serves the request.\<close>

theorem call_with_failover_spec_witness:
  "let c = \<lparr>endpoints = example_endpoints, active_idx = 0\<rparr>;
       post = (\<lambda>i. if i = 0 then Transport ''timeout'' else Reply \<lparr>result = Some (7 :: nat), rpc_error = None\<rparr>)
   in fst (call_with_failover post c) = Inr 7 \<and> active_idx (snd (call_with_failover post c)) = 1"
proof -
  let ?c = "\<lparr>endpoints = example_endpoints, active_idx = 0\<rparr>"
  let ?post = "\<lambda>i :: nat. if i = 0 then Transport ''timeout'' else Reply \<lparr>result = Some (7 :: nat), rpc_error = None\<rparr>"
  have "candidates (endpoints ?c) = [0] @ 1 # []"
    by (simp add: candidates_def endpoints_len_def example_endpoints_def candidate_key_def
        health_default_def p50_ms_def upt_rec less_eq_prod_def)
  moreover have "\<forall>i \<in> set [0]. reply_result (?post i) = None" "reply_result (?post 1) = Some 7"
    by simp_all
  ultimately have "call_with_failover ?post ?c =
      (Inr 7, ?c\<lparr>endpoints := record_success 1 (record_failures (filter (\<lambda>i. is_transport (?post i)) [0]) (endpoints ?c)),
                active_idx := 1\<rparr>)"
    using call_with_failover_spec [of ?c ?post] by blast
  then show ?thesis
    by (simp add: Let_def)
qed

end
