(* ===== verification/Event_Store.thy ===== *)
theory Event_Store
  imports Event_Model Toid
begin

text \<open>
  The events table as the SQL statements of the service see it, with the content fingerprint of
  \<open>src/dedup.rs\<close> and the notification bookkeeping of \<open>src/notification_dedup.rs\<close>. The unique constraint
  on transaction hash, contract and event type makes the table a map from that key to rows.
  SHA-256 with hexadecimal encoding and the printing of JSON are parameters.
\<close>

section \<open>The table\<close>

type_synonym event_key = "string \<times> string \<times> string"

definition event_key :: "SorobanEvent \<Rightarrow> event_key" where
  "event_key e = (tx_hash e, contract_id e, event_type e)"

text \<open>
  A row. \<open>row_derived\<close> stands for the columns other modules compute from the event (the decoded
  data, the compressed copy, the SEP-41 and asset columns and the address index rows).
\<close>

record 'd event_row =
  row_key :: event_key
  row_ledger :: i64
  row_timestamp :: int
  row_data :: json
  row_ledger_hash :: "string option"
  row_success :: bool
  row_tenant :: "string option"
  row_fingerprint :: string
  row_chain :: string
  row_ordinal :: "EventOrdinal option"
  row_derived :: 'd
  row_created_at :: int
  row_notified_at :: "int option"

type_synonym 'd events_table = "event_key \<rightharpoonup> 'd event_row"

text \<open>\<open>INSERT ... ON CONFLICT (tx_hash, contract_id, event_type) DO NOTHING RETURNING id\<close>.\<close>

definition insert_event :: "'d event_row \<Rightarrow> 'd events_table \<Rightarrow> bool \<times> 'd events_table" where
  "insert_event r t = (if row_key r \<in> dom t then (False, t) else (True, t(row_key r \<mapsto> r)))"

section \<open>Content fingerprint\<close>

definition NUL :: string where "NUL = [CHR 0x00]"

definition fingerprint_input :: "(json \<Rightarrow> string) \<Rightarrow> string \<Rightarrow> string \<Rightarrow> string \<Rightarrow> json \<Rightarrow> string" where
  "fingerprint_input to_string tx cid et data = tx @ NUL @ cid @ NUL @ et @ NUL @ to_string data"

definition compute_fingerprint ::
  "(string \<Rightarrow> string) \<Rightarrow> (json \<Rightarrow> string) \<Rightarrow> string \<Rightarrow> string \<Rightarrow> string \<Rightarrow> json \<Rightarrow> string" where
  "compute_fingerprint sha256_hex to_string tx cid et data =
     sha256_hex (fingerprint_input to_string tx cid et data)"

record DedupConfig =
  enable_content_dedup :: bool
  window_secs :: u64

definition DedupConfig_default :: DedupConfig where
  "DedupConfig_default = \<lparr>enable_content_dedup = False, window_secs = 3600\<rparr>"

text \<open>
  The count over the rows with this fingerprint created within the window, compared with zero;
  instants are in microseconds as in the database. The window is cast to \<open>i64\<close>.
\<close>

definition is_content_duplicate :: "'d events_table \<Rightarrow> string \<Rightarrow> u64 \<Rightarrow> int \<Rightarrow> bool" where
  "is_content_duplicate t fp window now \<longleftrightarrow>
     (\<exists>r \<in> ran t. row_fingerprint r = fp \<and> row_created_at r \<ge> now - sint window * 1000000)"

section \<open>Notification deduplication\<close>

text \<open>A database error is the value \<^const>\<open>Inl\<close>; \<open>ok\<close> says whether the database answers.\<close>

definition already_notified :: "bool \<Rightarrow> 'd events_table \<Rightarrow> SorobanEvent \<Rightarrow> unit + bool" where
  "already_notified ok t e =
     (if \<not> ok then Inl ()
      else Inr (case t (event_key e) of None \<Rightarrow> False | Some r \<Rightarrow> row_notified_at r \<noteq> None))"

definition mark_notified :: "bool \<Rightarrow> int \<Rightarrow> SorobanEvent \<Rightarrow> 'd events_table \<Rightarrow> (unit + unit) \<times> 'd events_table" where
  "mark_notified ok now e t =
     (if \<not> ok then (Inl (), t)
      else (Inr (), case t (event_key e) of
          None \<Rightarrow> t
        | Some r \<Rightarrow> if row_notified_at r = None
                    then t(event_key e \<mapsto> r\<lparr>row_notified_at := Some now\<rparr>) else t))"

definition should_deliver :: "bool \<Rightarrow> 'd events_table \<Rightarrow> SorobanEvent \<Rightarrow> bool" where
  "should_deliver ok t e = (case already_notified ok t e of Inr True \<Rightarrow> False | Inr False \<Rightarrow> True | Inl _ \<Rightarrow> True)"

section \<open>Facts\<close>

lemma insert_event_mono: "t \<subseteq>\<^sub>m snd (insert_event r t)"
  by (auto simp: insert_event_def map_le_def)

lemma insert_event_key: "row_key r \<in> dom (snd (insert_event r t))"
  by (auto simp: insert_event_def)

lemma dom_insert_event: "dom (snd (insert_event r t)) = insert (row_key r) (dom t)"
  by (auto simp: insert_event_def)

text \<open>
  Two events with the same fingerprint have the same fields and data, or exhibit a collision of
  the hash function.
\<close>

lemma fingerprint_input_inject:
  assumes "CHR 0x00 \<notin> set tx \<union> set tx' \<union> set cid \<union> set cid' \<union> set et \<union> set et'" and "inj to_string"
  shows "fingerprint_input to_string tx cid et d = fingerprint_input to_string tx' cid' et' d' \<longleftrightarrow>
    tx = tx' \<and> cid = cid' \<and> et = et' \<and> d = d'"
proof -
  have split: "a @ CHR 0x00 # b = a' @ CHR 0x00 # b' \<longleftrightarrow> a = a' \<and> b = b'"
    if "CHR 0x00 \<notin> set a" "CHR 0x00 \<notin> set a'" for a a' b b'
    using that split_once_Some [of "CHR 0x00"] by (metis option.inject prod.inject)
  show ?thesis
    using assms by (simp add: fingerprint_input_def NUL_def split inj_eq)
qed

lemma fingerprint_collision:
  assumes "compute_fingerprint sha to_string tx cid et d = compute_fingerprint sha to_string tx' cid' et' d'"
    and "CHR 0x00 \<notin> set tx \<union> set tx' \<union> set cid \<union> set cid' \<union> set et \<union> set et'" and "inj to_string"
  shows "(tx, cid, et, d) = (tx', cid', et', d') \<or> (\<exists>m m'. m \<noteq> m' \<and> sha m = sha m')"
  using assms fingerprint_input_inject [OF assms(2,3)] unfolding compute_fingerprint_def by blast

lemma mark_keep:
  "map_option row_notified_at (t (event_key e)) = Some (Some n) \<Longrightarrow>
   map_option row_notified_at (snd (mark_notified ok n' e' t) (event_key e)) = Some (Some n)"
  by (auto simp: mark_notified_def split: option.split)

lemma marks_keep:
  "map_option row_notified_at (t (event_key e)) = Some (Some n) \<Longrightarrow>
   map_option row_notified_at (fold (\<lambda>(ok, n, e') t. snd (mark_notified ok n e' t)) marks t (event_key e)) = Some (Some n)"
proof (induction marks arbitrary: t)
  case (Cons m marks)
  then show ?case
    by (cases m) (simp del: map_option_eq_Some add: mark_keep)
qed simp

section \<open>Properties\<close>

text \<open>
  A notification is delivered at most once. Once a stored event is marked as notified, it is
  not delivered again while the database answers, after any further marks of any events; the time
  of the first mark is kept. Marking one event never changes whether another is delivered, and a
  database failure never suppresses a delivery.
\<close>

theorem notified_once:
  fixes t :: "'d events_table"
  assumes "event_key e \<in> dom t"
  shows "let t1 = snd (mark_notified True now e t);
             t2 = fold (\<lambda>(ok, n, e') t. snd (mark_notified ok n e' t)) marks t1
    in \<not> should_deliver True t2 e \<and>
       map_option row_notified_at (t2 (event_key e)) = map_option row_notified_at (t1 (event_key e)) \<and>
       (event_key e'' \<noteq> event_key e \<longrightarrow> should_deliver True t1 e'' = should_deliver True t e'') \<and>
       should_deliver False t2 e''"
proof -
  let ?t1 = "snd (mark_notified True now e t)"
  let ?t2 = "fold (\<lambda>(ok, n, e') t. snd (mark_notified ok n e' t)) marks ?t1"
  from assms obtain r where "t (event_key e) = Some r"
    by blast
  then obtain n where n: "map_option row_notified_at (?t1 (event_key e)) = Some (Some n)"
    by (cases "row_notified_at r") (simp_all add: mark_notified_def)
  have "map_option row_notified_at (?t2 (event_key e)) = Some (Some n)"
    using n by (rule marks_keep)
  moreover have "should_deliver True ?t1 e'' = should_deliver True t e''" if "event_key e'' \<noteq> event_key e"
    using that by (auto simp: should_deliver_def already_notified_def mark_notified_def split: option.split)
  moreover have "\<not> should_deliver True u e" if "map_option row_notified_at (u (event_key e)) = Some (Some n)"
    for u :: "'d events_table"
    using that by (auto simp: should_deliver_def already_notified_def)
  moreover have "should_deliver False ?t2 e''"
    by (simp add: should_deliver_def already_notified_def)
  ultimately show ?thesis
    unfolding Let_def using n by (simp del: map_option_eq_Some)
qed

theorem notified_once_witness:
  "\<not> should_deliver True (snd (mark_notified True 9 sample_event [event_key sample_event \<mapsto>
      \<lparr>row_key = event_key sample_event, row_ledger = 5, row_timestamp = 0, row_data = JNull,
       row_ledger_hash = None, row_success = True, row_tenant = None, row_fingerprint = [], row_chain = [],
       row_ordinal = None, row_derived = (), row_created_at = 0, row_notified_at = None\<rparr>])) sample_event"
  (is "\<not> should_deliver True (snd (mark_notified True 9 sample_event ?t)) sample_event")
  using notified_once [of sample_event ?t 9 "[]" sample_event] by (simp add: Let_def)

end
