(* ===== verification/Bloom.thy ===== *)
theory Bloom
  imports Event_Model F64
begin

text \<open>
  Model of \<open>src/bloom_filter.rs\<close>: the session filter that is reset on every new ledger, and the
  long-lived event filter with double-buffer rotation. The \<open>bloomfilter\<close> crate is a parameter, a
  record of its operations; the lemmas rely on the documented property of Bloom filters that an
  inserted key is always reported, the hypothesis \<open>bloom_laws\<close>. The atomic counters are natural
  numbers: they count inserts and cannot reach \<open>2^64\<close>. Metrics calls have no influence on the
  results and are left out.
\<close>

section \<open>The \<open>bloomfilter\<close> crate\<close>

record 'b bloom_ops =
  new_for_fp_rate :: "nat \<Rightarrow> f64 \<Rightarrow> 'b option"
  bloom_set :: "'b \<Rightarrow> string \<Rightarrow> 'b"
  bloom_check :: "'b \<Rightarrow> string \<Rightarrow> bool"
  bloom_clear :: "'b \<Rightarrow> 'b"

text \<open>
  No false negatives: a key that was set is found, and setting a key never hides another. A new
  or cleared filter is empty.
\<close>

definition bloom_laws :: "'b bloom_ops \<Rightarrow> bool" where
  "bloom_laws ops \<longleftrightarrow>
     (\<forall>b k. bloom_check ops (bloom_set ops b k) k) \<and>
     (\<forall>b k k'. bloom_check ops b k \<longrightarrow> bloom_check ops (bloom_set ops b k') k) \<and>
     (\<forall>cap rate b k. new_for_fp_rate ops cap rate = Some b \<longrightarrow> \<not> bloom_check ops b k) \<and>
     (\<forall>b k. \<not> bloom_check ops (bloom_clear ops b) k)"

datatype init_error = InvalidConfig

definition new_bloom :: "'b bloom_ops \<Rightarrow> nat \<Rightarrow> f64 \<Rightarrow> init_error + 'b" where
  "new_bloom ops cap rate = (case new_for_fp_rate ops cap rate of None \<Rightarrow> Inl InvalidConfig | Some b \<Rightarrow> Inr b)"

text \<open>The deduplication key of an event, in both filters.\<close>

definition bloom_key :: "string \<Rightarrow> string \<Rightarrow> string \<Rightarrow> string" where
  "bloom_key tx cid et = tx @ '':'' @ cid @ '':'' @ et"

section \<open>Session filter\<close>

record 'b SessionBloomFilter =
  session_inner :: 'b
  session_ledger :: u64
  session_capacity :: nat
  session_fp_rate :: f64

definition session_new :: "'b bloom_ops \<Rightarrow> nat \<Rightarrow> f64 \<Rightarrow> init_error + 'b SessionBloomFilter" where
  "session_new ops cap rate =
     (case new_bloom ops cap rate of
        Inl e \<Rightarrow> Inl e
      | Inr b \<Rightarrow> Inr \<lparr>session_inner = b, session_ledger = 0, session_capacity = cap, session_fp_rate = rate\<rparr>)"

definition session_reset :: "'b bloom_ops \<Rightarrow> u64 \<Rightarrow> 'b SessionBloomFilter \<Rightarrow> 'b SessionBloomFilter" where
  "session_reset ops l s =
     s\<lparr>session_inner := (case new_bloom ops (session_capacity s) (session_fp_rate s) of
          Inr fresh \<Rightarrow> fresh | Inl _ \<Rightarrow> bloom_clear ops (session_inner s)),
       session_ledger := l\<rparr>"

definition session_check_and_set ::
  "'b bloom_ops \<Rightarrow> string \<Rightarrow> string \<Rightarrow> string \<Rightarrow> u64 \<Rightarrow> 'b SessionBloomFilter \<Rightarrow> bool \<times> 'b SessionBloomFilter" where
  "session_check_and_set ops tx cid et l s =
     (let k = bloom_key tx cid et;
          s1 = (if l > session_ledger s then session_reset ops l s else s)
      in if bloom_check ops (session_inner s1) k then (True, s1)
         else (False, s1\<lparr>session_inner := bloom_set ops (session_inner s1) k\<rparr>))"

section \<open>Event filter\<close>

record 'b EventBloomFilter =
  bf_inner :: 'b
  bf_previous :: "'b option"
  bf_capacity :: nat
  fp_rate :: f64
  fill_ratio_threshold :: f64
  insert_count :: nat
  rotation_count :: nat
  contract_filter :: 'b
  known_contracts :: "string set"

definition with_fill_threshold :: "'b bloom_ops \<Rightarrow> nat \<Rightarrow> f64 \<Rightarrow> f64 \<Rightarrow> init_error + 'b EventBloomFilter" where
  "with_fill_threshold ops cap rate thr =
     (case new_bloom ops cap rate of
        Inl e \<Rightarrow> Inl e
      | Inr b \<Rightarrow> (case new_bloom ops (max (cap div 10) 1) rate of
          Inl e \<Rightarrow> Inl e
        | Inr cb \<Rightarrow> Inr \<lparr>bf_inner = b, bf_previous = None, bf_capacity = cap, fp_rate = rate,
            fill_ratio_threshold = clamp thr (f64_rnd (1 / 100)) 1, insert_count = 0,
            rotation_count = 0, contract_filter = cb, known_contracts = {}\<rparr>))"

definition event_filter_new :: "'b bloom_ops \<Rightarrow> nat \<Rightarrow> f64 \<Rightarrow> init_error + 'b EventBloomFilter" where
  "event_filter_new ops cap rate = with_fill_threshold ops cap rate (f64_rnd (8 / 10))"

definition fill_ratio :: "'b EventBloomFilter \<Rightarrow> f64" where
  "fill_ratio f = f64_div (f64_of_nat (insert_count f)) (f64_of_nat (bf_capacity f))"

definition maybe_rotate :: "'b bloom_ops \<Rightarrow> 'b EventBloomFilter \<Rightarrow> bool \<times> 'b EventBloomFilter" where
  "maybe_rotate ops f =
     (if fill_ratio f < fill_ratio_threshold f then (False, f)
      else case new_bloom ops (bf_capacity f) (fp_rate f) of
        Inl _ \<Rightarrow> (False, f)
      | Inr fresh \<Rightarrow> (True, f\<lparr>bf_inner := fresh, bf_previous := Some (bf_inner f), insert_count := 0,
                              rotation_count := rotation_count f + 1\<rparr>))"

definition filter_check :: "'b bloom_ops \<Rightarrow> string \<Rightarrow> string \<Rightarrow> string \<Rightarrow> 'b EventBloomFilter \<Rightarrow> bool" where
  "filter_check ops tx cid et f =
     (let k = bloom_key tx cid et; hit_current = bloom_check ops (bf_inner f) k;
          hit_previous = (if \<not> hit_current
             then (case bf_previous f of None \<Rightarrow> False | Some b \<Rightarrow> bloom_check ops b k) else False)
      in hit_current \<or> hit_previous)"

definition filter_set :: "'b bloom_ops \<Rightarrow> string \<Rightarrow> string \<Rightarrow> string \<Rightarrow> 'b EventBloomFilter \<Rightarrow> 'b EventBloomFilter" where
  "filter_set ops tx cid et f =
     snd (maybe_rotate ops (f\<lparr>bf_inner := bloom_set ops (bf_inner f) (bloom_key tx cid et),
                               insert_count := insert_count f + 1\<rparr>))"

fun seed_entry :: "'b bloom_ops \<Rightarrow> string \<times> string \<times> string \<Rightarrow> 'b EventBloomFilter \<Rightarrow> 'b EventBloomFilter" where
  "seed_entry ops (tx, cid, et) f =
     f\<lparr>bf_inner := bloom_set ops (bf_inner f) (bloom_key tx cid et),
       contract_filter := bloom_set ops (contract_filter f) cid,
       known_contracts := insert cid (known_contracts f)\<rparr>"

definition filter_seed :: "'b bloom_ops \<Rightarrow> (string \<times> string \<times> string) list \<Rightarrow> 'b EventBloomFilter \<Rightarrow> 'b EventBloomFilter" where
  "filter_seed ops entries f =
     (let f1 = fold (seed_entry ops) entries f
      in snd (maybe_rotate ops (f1\<lparr>insert_count := insert_count f1 + length entries\<rparr>)))"

definition contains_contract :: "'b bloom_ops \<Rightarrow> string \<Rightarrow> 'b EventBloomFilter \<Rightarrow> bool" where
  "contains_contract ops cid f =
     (if cid \<in> known_contracts f then True else bloom_check ops (contract_filter f) cid)"

definition add_contract :: "'b bloom_ops \<Rightarrow> string \<Rightarrow> 'b EventBloomFilter \<Rightarrow> 'b EventBloomFilter" where
  "add_contract ops cid f =
     f\<lparr>contract_filter := bloom_set ops (contract_filter f) cid,
       known_contracts := insert cid (known_contracts f)\<rparr>"

text \<open>Parameters from the expected load; the multiplication is on \<open>usize\<close>.\<close>

definition auto_size_bloom_filter :: "nat \<Rightarrow> f64 \<Rightarrow> nat \<times> f64" where
  "auto_size_bloom_filter expected target =
     (if expected = 0 then (1000000, f64_rnd (1 / 1000))
      else (expected * 10 mod 2 ^ 64, clamp target (f64_rnd (1 / 10000)) (f64_rnd (1 / 100))))"

section \<open>What the event filter remembers\<close>

text \<open>The operations that change the filter, and the entries each one inserts.\<close>

datatype filter_op =
  OpSet string string string | OpSeed "(string \<times> string \<times> string) list" | OpContract string

fun apply_op :: "'b bloom_ops \<Rightarrow> filter_op \<Rightarrow> 'b EventBloomFilter \<Rightarrow> 'b EventBloomFilter" where
  "apply_op ops (OpSet tx cid et) f = filter_set ops tx cid et f"
| "apply_op ops (OpSeed es) f = filter_seed ops es f"
| "apply_op ops (OpContract cid) f = add_contract ops cid f"

fun op_entries :: "filter_op \<Rightarrow> (string \<times> string \<times> string) list" where
  "op_entries (OpSet tx cid et) = [(tx, cid, et)]"
| "op_entries (OpSeed es) = es"
| "op_entries (OpContract cid) = []"

text \<open>A rotation is not due while the filter holds \<open>n\<close> entries.\<close>

definition below_threshold :: "'b EventBloomFilter \<Rightarrow> nat \<Rightarrow> bool" where
  "below_threshold f n \<longleftrightarrow> f64_div (f64_of_nat n) (f64_of_nat (bf_capacity f)) < fill_ratio_threshold f"

text \<open>The filter before the rotation check: every entry set in the current buffer.\<close>

definition insert_entries :: "'b bloom_ops \<Rightarrow> (string \<times> string \<times> string) list \<Rightarrow> 'b \<Rightarrow> 'b" where
  "insert_entries ops es b = fold (\<lambda>(tx, cid, et) b. bloom_set ops b (bloom_key tx cid et)) es b"

lemma fold_seed_entry:
  "bf_inner (fold (seed_entry ops) es f) = insert_entries ops es (bf_inner f)"
  "bf_previous (fold (seed_entry ops) es f) = bf_previous f"
  "insert_count (fold (seed_entry ops) es f) = insert_count f"
  "bf_capacity (fold (seed_entry ops) es f) = bf_capacity f"
  "fill_ratio_threshold (fold (seed_entry ops) es f) = fill_ratio_threshold f"
  "fp_rate (fold (seed_entry ops) es f) = fp_rate f"
  by (induction es arbitrary: f) (auto simp: insert_entries_def)

lemma insert_entries_mono:
  "bloom_laws ops \<Longrightarrow> bloom_check ops b k \<Longrightarrow> bloom_check ops (insert_entries ops es b) k"
  unfolding insert_entries_def by (induction es arbitrary: b) (auto simp: bloom_laws_def)

lemma insert_entries_found:
  "bloom_laws ops \<Longrightarrow> (tx, cid, et) \<in> set es \<Longrightarrow> bloom_check ops (insert_entries ops es b) (bloom_key tx cid et)"
proof (induction es arbitrary: b)
  case (Cons e es)
  then show ?case
    using insert_entries_mono [of ops "bloom_set ops b (bloom_key tx cid et)" "bloom_key tx cid et" es]
    by (auto simp: insert_entries_def bloom_laws_def)
qed simp

text \<open>An operation either keeps the buffers, with the new entries in the current one, or rotates.\<close>

lemma apply_op_cases:
  fixes f :: "'b EventBloomFilter"
  defines "f' \<equiv> \<lambda>ops op. apply_op ops op f"
  shows "bf_capacity (f' ops op) = bf_capacity f \<and> fill_ratio_threshold (f' ops op) = fill_ratio_threshold f \<and>
    (bf_inner (f' ops op) = insert_entries ops (op_entries op) (bf_inner f) \<and> bf_previous (f' ops op) = bf_previous f \<and>
       insert_count (f' ops op) = insert_count f + length (op_entries op)
     \<or> bf_previous (f' ops op) = Some (insert_entries ops (op_entries op) (bf_inner f)) \<and> insert_count (f' ops op) = 0 \<and>
       \<not> below_threshold f (insert_count f + length (op_entries op)))"
  unfolding f'_def
  by (cases op)
    (auto simp: filter_set_def filter_seed_def add_contract_def maybe_rotate_def Let_def fill_ratio_def
      below_threshold_def fold_seed_entry insert_entries_def split: sum.splits)

definition remembers :: "'b bloom_ops \<Rightarrow> string \<Rightarrow> nat \<Rightarrow> 'b EventBloomFilter \<Rightarrow> bool" where
  "remembers ops k n f \<longleftrightarrow> bloom_check ops (bf_inner f) k \<or>
     insert_count f \<le> n \<and> (\<exists>b. bf_previous f = Some b \<and> bloom_check ops b k)"

lemma remembers_step:
  assumes "bloom_laws ops" and "remembers ops k n f" and "\<forall>i \<le> n + length (op_entries op). below_threshold f i"
  shows "remembers ops k (n + length (op_entries op)) (apply_op ops op f)"
  using apply_op_cases [of ops op f] assms insert_entries_mono [OF assms(1), of _ k "op_entries op"]
  unfolding remembers_def by (metis add_le_mono1 le0)

lemma remembers_steps:
  assumes "bloom_laws ops" and "remembers ops k n f"
    and "\<forall>i \<le> n + sum_list (map (\<lambda>op. length (op_entries op)) os). below_threshold f i"
  shows "remembers ops k (n + sum_list (map (\<lambda>op. length (op_entries op)) os)) (fold (apply_op ops) os f)"
  using assms(2,3)
proof (induction os arbitrary: n f)
  case (Cons op os)
  have "below_threshold (apply_op ops op f) i = below_threshold f i" for i
    using apply_op_cases [of ops op f] by (simp add: below_threshold_def)
  with Cons.prems Cons.IH [of "n + length (op_entries op)" "apply_op ops op f"]
    remembers_step [OF assms(1), of k n f op] show ?case
    by (simp add: add.assoc)
qed simp

lemma remembers_check: "remembers ops (bloom_key tx cid et) n f \<Longrightarrow> filter_check ops tx cid et f"
  by (auto simp: remembers_def filter_check_def)

text \<open>
  C10. Bounded memory without false negatives. An event recorded by \<open>set\<close> or by seeding is reported
  as seen after any further sequence of operations, as long as the number of entries they insert
  stays below the rotation threshold: a rotation keeps the previous generation, and the second
  one needs a full generation of inserts.
\<close>

theorem event_filter_remembers:
  assumes "bloom_laws ops" and "(tx, cid, et) \<in> set (op_entries op)"
    and "\<forall>i \<le> sum_list (map (\<lambda>op. length (op_entries op)) os). below_threshold f i"
  shows "filter_check ops tx cid et (fold (apply_op ops) os (apply_op ops op f))"
proof -
  let ?k = "bloom_key tx cid et"
  have "remembers ops ?k 0 (apply_op ops op f)"
    using apply_op_cases [of ops op f] insert_entries_found [OF assms(1,2), of "bf_inner f"]
    unfolding remembers_def by (elim conjE disjE) simp_all
  moreover have "below_threshold (apply_op ops op f) i = below_threshold f i" for i
    using apply_op_cases [of ops op f] by (simp add: below_threshold_def)
  ultimately show ?thesis
    using remembers_steps [OF assms(1), of ?k 0 _ os] assms(3) remembers_check by fastforce
qed

text \<open>An exact filter, a list of keys, satisfies the laws; the witnesses use it.\<close>

definition exact_bloom :: "string list bloom_ops" where
  "exact_bloom = \<lparr>new_for_fp_rate = (\<lambda>cap rate. if cap = 0 then None else Some []),
     bloom_set = (\<lambda>b k. k # b), bloom_check = (\<lambda>b k. k \<in> set b), bloom_clear = (\<lambda>b. [])\<rparr>"

lemma exact_bloom_laws: "bloom_laws exact_bloom"
  by (auto simp: bloom_laws_def exact_bloom_def)

definition small_filter :: "string list EventBloomFilter" where
  "small_filter = \<lparr>bf_inner = [], bf_previous = None, bf_capacity = 2, fp_rate = 1 / 128, fill_ratio_threshold = 1,
     insert_count = 1, rotation_count = 0, contract_filter = [], known_contracts = {}\<rparr>"

theorem event_filter_remembers_witness:
  "filter_check exact_bloom ''a'' ''c'' ''t''
     (apply_op exact_bloom (OpSet ''b'' ''c'' ''t'') (apply_op exact_bloom (OpSet ''a'' ''c'' ''t'') small_filter))"
proof -
  have "f64_div (f64_of_nat 1) (f64_of_nat 2) < 1" "f64_div (f64_of_nat 0) (f64_of_nat 2) < 1"
    by code_simp+
  then have "\<forall>i \<le> sum_list (map (\<lambda>op. length (op_entries op)) [OpSet ''b'' ''c'' ''t'']). below_threshold small_filter i"
    by (auto simp: below_threshold_def small_filter_def le_Suc_eq)
  then show ?thesis
    using event_filter_remembers [OF exact_bloom_laws, of "''a''" "''c''" "''t''" "OpSet ''a'' ''c'' ''t''"
        "[OpSet ''b'' ''c'' ''t'']" small_filter] by simp
qed

text \<open>The exact contract set and its filter never miss a contract that was added or seeded.\<close>

lemma contains_contract_added:
  "contains_contract ops cid (add_contract ops cid f)"
  "cid \<in> known_contracts f \<Longrightarrow> contains_contract ops cid f"
  by (simp_all add: contains_contract_def add_contract_def)

section \<open>What the session filter remembers\<close>

type_synonym session_call = "string \<times> string \<times> string \<times> u64"

definition session_call :: "'b bloom_ops \<Rightarrow> session_call \<Rightarrow> 'b SessionBloomFilter \<Rightarrow> 'b SessionBloomFilter" where
  "session_call ops = (\<lambda>(tx, cid, et, l) s. snd (session_check_and_set ops tx cid et l s))"

lemma session_call_keeps:
  assumes "bloom_laws ops" and "bloom_check ops (session_inner s) k"
    and "\<forall>(tx, cid, et, l) \<in> set calls. l \<le> session_ledger s"
  shows "bloom_check ops (session_inner (fold (session_call ops) calls s)) k \<and>
    session_ledger (fold (session_call ops) calls s) = session_ledger s"
  using assms(2,3)
proof (induction calls arbitrary: s)
  case (Cons c calls)
  obtain tx cid et l where c: "c = (tx, cid, et, l)" by (cases c)
  have "bloom_check ops (session_inner (session_call ops c s)) k \<and>
      session_ledger (session_call ops c s) = session_ledger s"
    using Cons.prems assms(1)
    by (auto simp: c session_call_def session_check_and_set_def Let_def bloom_laws_def)
  then show ?case
    using Cons.IH [of "session_call ops c s"] Cons.prems by simp
qed simp

lemma session_check_and_set_marks:
  assumes "bloom_laws ops"
  shows "bloom_check ops (session_inner (snd (session_check_and_set ops tx cid et l s))) (bloom_key tx cid et) \<and>
    session_ledger (snd (session_check_and_set ops tx cid et l s)) = max l (session_ledger s)"
  using assms
  by (auto simp: session_check_and_set_def session_reset_def Let_def bloom_laws_def max_def)

text \<open>
  Session deduplication. The first sight of an event of a new ledger is never reported as a
  duplicate, whatever was recorded before; and once an event has been checked, checking it
  again reports a duplicate, after any other calls, until a later ledger appears.
\<close>

theorem session_filter_dedup:
  assumes "bloom_laws ops"
  shows "(l > session_ledger s \<longrightarrow> \<not> fst (session_check_and_set ops tx cid et l s)) \<and>
    (let s1 = snd (session_check_and_set ops tx cid et l s)
     in (\<forall>(tx', cid', et', l') \<in> set calls. l' \<le> session_ledger s1) \<and> l2 \<le> session_ledger s1 \<longrightarrow>
        fst (session_check_and_set ops tx cid et l2 (fold (session_call ops) calls s1)))"
proof (intro conjI impI)
  assume "l > session_ledger s"
  then show "\<not> fst (session_check_and_set ops tx cid et l s)"
    using assms
    by (auto simp: session_check_and_set_def session_reset_def new_bloom_def bloom_laws_def Let_def
        split: sum.splits option.splits)
next
  let ?s1 = "snd (session_check_and_set ops tx cid et l s)"
  note marked = conjunct1 [OF session_check_and_set_marks [OF assms, of tx cid et l s]]
  show "let s1 = ?s1 in (\<forall>(tx', cid', et', l') \<in> set calls. l' \<le> session_ledger s1) \<and>
      l2 \<le> session_ledger s1 \<longrightarrow> fst (session_check_and_set ops tx cid et l2 (fold (session_call ops) calls s1))"
    unfolding Let_def
  proof (intro impI, elim conjE)
    assume a: "\<forall>(tx', cid', et', l') \<in> set calls. l' \<le> session_ledger ?s1" "l2 \<le> session_ledger ?s1"
    from session_call_keeps [OF assms marked a(1)] a(2)
    show "fst (session_check_and_set ops tx cid et l2 (fold (session_call ops) calls ?s1))"
      by (simp add: session_check_and_set_def [of ops tx cid et l2] Let_def not_less [symmetric])
  qed
qed

theorem session_filter_dedup_witness:
  "let s = \<lparr>session_inner = [], session_ledger = 4, session_capacity = 10, session_fp_rate = 1 / 128\<rparr>;
       s1 = snd (session_check_and_set exact_bloom ''a'' ''c'' ''t'' 5 s)
   in \<not> fst (session_check_and_set exact_bloom ''a'' ''c'' ''t'' 5 s) \<and>
      fst (session_check_and_set exact_bloom ''a'' ''c'' ''t'' 5
        (fold (session_call exact_bloom) [(''b'', ''c'', ''t'', 3)] s1))"
proof -
  let ?s = "\<lparr>session_inner = [], session_ledger = 4, session_capacity = 10, session_fp_rate = 1 / 128\<rparr> :: string list SessionBloomFilter"
  let ?s1 = "snd (session_check_and_set exact_bloom ''a'' ''c'' ''t'' 5 ?s)"
  have "session_ledger ?s1 = 5"
    by (simp add: session_check_and_set_def session_reset_def Let_def)
  then show ?thesis
    using session_filter_dedup [OF exact_bloom_laws, where s = ?s and l = 5 and tx = "''a''" and cid = "''c''"
        and et = "''t''" and calls = "[(''b'', ''c'', ''t'', 3)]" and ?l2.0 = 5]
    by (simp add: Let_def)
qed

section \<open>Keys\<close>

lemma bloom_key_inject:
  assumes "CHR '':'' \<notin> set tx" "CHR '':'' \<notin> set tx'" "CHR '':'' \<notin> set cid" "CHR '':'' \<notin> set cid'"
  shows "bloom_key tx cid et = bloom_key tx' cid' et' \<longleftrightarrow> tx = tx' \<and> cid = cid' \<and> et = et'"
proof -
  have split: "a @ CHR '':'' # b = a' @ CHR '':'' # b' \<longleftrightarrow> a = a' \<and> b = b'"
    if "CHR '':'' \<notin> set a" "CHR '':'' \<notin> set a'" for a a' b b'
    using that split_once_Some [of "CHR '':''"] by (metis option.inject prod.inject)
  show ?thesis
    using assms by (simp add: bloom_key_def split)
qed

text \<open>
  Two events of one transaction that one contract emits with the same event type share their key,
  whatever their topics and values are.
\<close>

lemma bloom_key_ignores_content:
  "bloom_key (tx_hash e) (contract_id e) (event_type e) =
   bloom_key (tx_hash (e\<lparr>topic := ts, ev_value := v, rpc_id := i\<rparr>)) (contract_id (e\<lparr>topic := ts, ev_value := v, rpc_id := i\<rparr>))
     (event_type (e\<lparr>topic := ts, ev_value := v, rpc_id := i\<rparr>))"
  by simp

end
