(* ===== verification/Xdr_Validation.thy ===== *)
theory Xdr_Validation
  imports Event_Model
begin

text \<open>
  Model of \<open>src/xdr_validation.rs\<close> and of the depth guard and the rendering of \<open>src/scval_format.rs\<close>.
  Decoding a JSON value as an XDR \<open>ScVal\<close> is the \<open>stellar-xdr\<close> crate's work and a parameter here;
  the service's own part is the nesting guard in front of it and the checks around it.
\<close>

section \<open>Nesting depth\<close>

definition MAX_SCVAL_JSON_DEPTH :: nat where
  "MAX_SCVAL_JSON_DEPTH = 64"

text \<open>
  The loop over an explicit stack; its top is the head of the list, so \<open>extend\<close> pushes the
  children in order and the last one is on top.
\<close>

fun json_children :: "json \<Rightarrow> json list" where
  "json_children (JArray vs) = vs"
| "json_children (JObject kvs) = map snd kvs"
| "json_children _ = []"

definition stack_size :: "(json \<times> nat) list \<Rightarrow> nat" where
  "stack_size st = sum_list (map (\<lambda>(v, d). Suc (size v)) st)"

lemma size_json_children: "sum_list (map (\<lambda>v. Suc (size v)) (json_children v)) < Suc (size v)"
proof (cases v)
  case (JArray vs)
  have "sum_list (map (\<lambda>v. Suc (size v)) vs) \<le> size_list size vs"
    by (induction vs) auto
  then show ?thesis by (simp add: JArray)
next
  case (JObject kvs)
  have "sum_list (map (\<lambda>v. Suc (size v)) (map snd kvs)) \<le> size_list (size_prod (\<lambda>x. 0) size) kvs"
    by (induction kvs) (auto simp: size_prod_simp)
  then show ?thesis by (simp add: JObject)
qed simp_all

lemma stack_size_push:
  "stack_size (rev (map (\<lambda>c. (c, d)) vs) @ st) = sum_list (map (\<lambda>v. Suc (size v)) vs) + stack_size st"
  by (induction vs) (simp_all add: stack_size_def)

function depth_loop :: "(json \<times> nat) list \<Rightarrow> bool" where
  "depth_loop [] = False"
| "depth_loop ((v, depth) # st) =
     (if depth > MAX_SCVAL_JSON_DEPTH then True
      else depth_loop (rev (map (\<lambda>c. (c, depth + 1)) (json_children v)) @ st))"
  by pat_completeness auto
termination
proof (relation "measure stack_size")
  fix v :: json and depth :: nat and st :: "(json \<times> nat) list"
  show "(rev (map (\<lambda>c. (c, depth + 1)) (json_children v)) @ st, (v, depth) # st) \<in> measure stack_size"
    using size_json_children [of v] stack_size_push [of "depth + 1" "json_children v" st]
    by (simp add: stack_size_def)
qed simp

definition exceeds_max_depth :: "json \<Rightarrow> bool" where
  "exceeds_max_depth v = depth_loop [(v, 1)]"

section \<open>ScVal decoding and rendering\<close>

definition decode_scval :: "(json \<Rightarrow> 's option) \<Rightarrow> json \<Rightarrow> 's option" where
  "decode_scval from_value v = (if exceeds_max_depth v then None else from_value v)"

datatype ScValFormat = Json | Native | Xdr

definition ScValFormat_from_str :: "string \<Rightarrow> string + ScValFormat" where
  "ScValFormat_from_str s =
     (let l = to_ascii_lowercase s
      in if l = ''json'' then Inr Json else if l = ''native'' then Inr Native
         else if l = ''xdr'' then Inr Xdr
         else Inl (''invalid format '' @ [CHR 0x27] @ l @ [CHR 0x27] @ '': expected one of native, json, xdr''))"

text \<open>
  The codec of the \<open>stellar-xdr\<close> crate, with the native rendering of a decoded value.
\<close>

record 's scval_codec =
  from_value :: "json \<Rightarrow> 's option"
  to_native :: "'s \<Rightarrow> json"
  to_xdr_base64 :: "'s \<Rightarrow> string option"

definition render :: "'s scval_codec \<Rightarrow> json \<Rightarrow> ScValFormat \<Rightarrow> json" where
  "render codec v fmt =
     (case fmt of
        Json \<Rightarrow> v
      | Native \<Rightarrow> (case decode_scval (from_value codec) v of Some s \<Rightarrow> to_native codec s | None \<Rightarrow> v)
      | Xdr \<Rightarrow> (case decode_scval (from_value codec) v of
           Some s \<Rightarrow> (case to_xdr_base64 codec s of Some b64 \<Rightarrow> JString b64 | None \<Rightarrow> v)
         | None \<Rightarrow> v))"

text \<open>\<open>Map::get\<close> and \<open>Map::insert\<close> on an object; an insert under an existing key keeps its place.\<close>

definition obj_get :: "string \<Rightarrow> (string \<times> json) list \<Rightarrow> json option" where
  "obj_get k kvs = map_of kvs k"

fun obj_insert :: "string \<Rightarrow> json \<Rightarrow> (string \<times> json) list \<Rightarrow> (string \<times> json) list" where
  "obj_insert k v [] = [(k, v)]"
| "obj_insert k v ((k', v') # kvs) = (if k' = k then (k, v) # kvs else (k', v') # obj_insert k v kvs)"

definition render_event_data :: "'s scval_codec \<Rightarrow> json \<Rightarrow> ScValFormat \<Rightarrow> json" where
  "render_event_data codec event_data fmt =
     (if fmt = Json then event_data
      else case event_data of
        JObject kvs \<Rightarrow>
          (let kvs1 = (case obj_get ''value'' kvs of
                 Some v \<Rightarrow> obj_insert ''value'' (render codec v fmt) kvs | None \<Rightarrow> kvs)
           in JObject (case obj_get ''topic'' kvs1 of
                 Some (JArray topics) \<Rightarrow> obj_insert ''topic'' (JArray (map (\<lambda>t. render codec t fmt) topics)) kvs1
               | _ \<Rightarrow> kvs1))
      | _ \<Rightarrow> event_data)"

section \<open>Validation\<close>

datatype XdrValidationError = InvalidContractId string | InvalidTxHash string

definition base32_char :: "char \<Rightarrow> bool" where
  "base32_char c \<longleftrightarrow> (65 \<le> (of_char c :: nat) \<and> (of_char c :: nat) \<le> 90)
     \<or> (50 \<le> (of_char c :: nat) \<and> (of_char c :: nat) \<le> 55)"

definition validate_contract_id :: "string \<Rightarrow> bool" where
  "validate_contract_id s =
     (if length s \<noteq> 56 then False
      else if \<not> starts_with s ''C'' then False
      else list_all base32_char s)"

definition validate_tx_hash :: "string \<Rightarrow> bool" where
  "validate_tx_hash s = (if length s \<noteq> 64 then False else list_all is_ascii_hexdigit s)"

definition validate_contract_id_strict :: "string \<Rightarrow> XdrValidationError + unit" where
  "validate_contract_id_strict s = (if validate_contract_id s then Inr () else Inl (InvalidContractId s))"

definition validate_tx_hash_strict :: "string \<Rightarrow> XdrValidationError + unit" where
  "validate_tx_hash_strict s = (if validate_tx_hash s then Inr () else Inl (InvalidTxHash s))"

definition is_valid_sc_val :: "(json \<Rightarrow> 's option) \<Rightarrow> json \<Rightarrow> bool" where
  "is_valid_sc_val fv v \<longleftrightarrow> decode_scval fv v \<noteq> None"

definition validate_xdr :: "(json \<Rightarrow> 's option) \<Rightarrow> string \<Rightarrow> string \<Rightarrow> json \<Rightarrow> json list option \<Rightarrow> bool" where
  "validate_xdr fv tx cid v topics =
     (if \<not> validate_contract_id cid then False
      else if \<not> validate_tx_hash tx then False
      else if \<not> is_null v \<and> \<not> is_valid_sc_val fv v then False
      else case topics of None \<Rightarrow> True | Some ts \<Rightarrow> list_all (is_valid_sc_val fv) ts)"

section \<open>Properties\<close>

fun json_depth :: "json \<Rightarrow> nat" where
  "json_depth (JArray vs) = Suc (Max (insert 0 (set (map json_depth vs))))"
| "json_depth (JObject kvs) = Suc (Max (insert 0 (set (map (\<lambda>(k, v). json_depth v) kvs))))"
| "json_depth _ = 1"

lemma json_depth_children: "json_depth v = Suc (Max (insert 0 (set (map json_depth (json_children v)))))"
  by (cases v) (auto simp: case_prod_beta image_image)

lemma depth_loop_iff:
  "depth_loop st \<longleftrightarrow> (\<exists>(v, d) \<in> set st. d + json_depth v > Suc MAX_SCVAL_JSON_DEPTH)"
proof (induction st rule: depth_loop.induct)
  case 1
  then show ?case by simp
next
  case (2 v depth st)
  have gt: "depth + json_depth v > Suc MAX_SCVAL_JSON_DEPTH \<longleftrightarrow>
      (\<exists>c \<in> set (json_children v). depth + 1 + json_depth c > Suc MAX_SCVAL_JSON_DEPTH)"
    if "\<not> depth > MAX_SCVAL_JSON_DEPTH"
  proof -
    have "Max (insert 0 (set (map json_depth (json_children v)))) > MAX_SCVAL_JSON_DEPTH - depth \<longleftrightarrow>
        (\<exists>c \<in> set (json_children v). json_depth c > MAX_SCVAL_JSON_DEPTH - depth)"
      by (subst Max_gr_iff) auto
    moreover have "Suc MAX_SCVAL_JSON_DEPTH < depth + Suc m \<longleftrightarrow> MAX_SCVAL_JSON_DEPTH - depth < m" for m
      using that by linarith
    ultimately show ?thesis
      by (subst json_depth_children) simp
  qed
  show ?case
  proof (cases "depth > MAX_SCVAL_JSON_DEPTH")
    case True
    then show ?thesis by (subst json_depth_children) auto
  next
    case False
    then show ?thesis
      using 2 [OF False] gt [OF False] by (simp add: bex_Un)
  qed
qed

text \<open>
  The iterative depth guard terminates and decides exactly whether the JSON value nests deeper
  than 64 levels, so the recursive decoder, renderer and encoder behind it never see deeper input.
\<close>

theorem exceeds_max_depth_exact: "exceeds_max_depth v \<longleftrightarrow> json_depth v > MAX_SCVAL_JSON_DEPTH"
  by (simp add: exceeds_max_depth_def depth_loop_iff)

lemma obj_get_insert: "obj_get k (obj_insert k' v xs) = (if k = k' then Some v else obj_get k xs)"
  unfolding obj_get_def by (induction xs) auto

lemma obj_insert_keys: "obj_get k xs = Some w \<Longrightarrow> map fst (obj_insert k v xs) = map fst xs"
  unfolding obj_get_def by (induction xs) (auto split: if_splits)

text \<open>
  Rendering keeps the shape of the event data: for every format the result is the stored value
  when it is not an object; otherwise it has the same keys in the same order, every entry other
  than \<open>value\<close> and \<open>topic\<close> is unchanged, a topic list keeps its length, and input that is nested
  too deeply is returned as it is.
\<close>

theorem render_event_data_shape:
  "case event_data of
     JObject kvs \<Rightarrow> \<exists>kvs'. render_event_data codec event_data fmt = JObject kvs' \<and> map fst kvs' = map fst kvs \<and>
       (\<forall>k. k \<noteq> ''value'' \<and> k \<noteq> ''topic'' \<longrightarrow> obj_get k kvs' = obj_get k kvs) \<and>
       (\<forall>v. obj_get ''value'' kvs = Some v \<longrightarrow> obj_get ''value'' kvs' = Some (render codec v fmt)) \<and>
       (\<forall>ts. obj_get ''topic'' kvs = Some (JArray ts) \<longrightarrow>
          obj_get ''topic'' kvs' = Some (JArray (map (\<lambda>t. render codec t fmt) ts)))
   | v \<Rightarrow> render_event_data codec v fmt = v"
proof (cases event_data)
  case (JObject kvs)
  show ?thesis
  proof (cases "fmt = Json")
    case True
    then show ?thesis by (simp add: JObject render_event_data_def render_def)
  next
    case False
    define kvs1 where "kvs1 = (case obj_get ''value'' kvs of
        Some v \<Rightarrow> obj_insert ''value'' (render codec v fmt) kvs | None \<Rightarrow> kvs)"
    define kvs2 where "kvs2 = (case obj_get ''topic'' kvs1 of
        Some (JArray ts) \<Rightarrow> obj_insert ''topic'' (JArray (map (\<lambda>t. render codec t fmt) ts)) kvs1 | _ \<Rightarrow> kvs1)"
    have 1: "map fst kvs1 = map fst kvs"
        "obj_get k kvs1 = (if k = ''value'' then map_option (\<lambda>v. render codec v fmt) (obj_get k kvs) else obj_get k kvs)" for k
      by (auto simp: kvs1_def obj_get_insert obj_insert_keys split: option.split)
    have 2: "map fst kvs2 = map fst kvs1" "k \<noteq> ''topic'' \<Longrightarrow> obj_get k kvs2 = obj_get k kvs1"
        "obj_get ''topic'' kvs1 = Some (JArray ts) \<Longrightarrow>
           obj_get ''topic'' kvs2 = Some (JArray (map (\<lambda>t. render codec t fmt) ts))" for k ts
      by (simp_all add: kvs2_def obj_get_insert obj_insert_keys split: option.split json.split)
    have "render_event_data codec event_data fmt = JObject kvs2"
      by (simp only: JObject render_event_data_def False if_False json.case Let_def kvs1_def kvs2_def)
    then show ?thesis
      by (simp add: JObject 1 2)
  qed
qed (simp_all add: render_event_data_def)

definition example_codec :: "json scval_codec" where
  "example_codec = \<lparr>from_value = (\<lambda>v. Some v), to_native = (\<lambda>v. JBool True), to_xdr_base64 = (\<lambda>v. None)\<rparr>"

theorem render_event_data_shape_witness:
  "\<exists>kvs'. render_event_data example_codec (JObject [(''topic'', JArray [JNull])]) Native = JObject kvs' \<and>
     map fst kvs' = [''topic''] \<and> obj_get ''topic'' kvs' = Some (JArray [JBool True])"
proof -
  have r: "render example_codec JNull Native = JBool True"
    by (simp add: render_def example_codec_def decode_scval_def exceeds_max_depth_def MAX_SCVAL_JSON_DEPTH_def)
  have t: "obj_get ''topic'' [(''topic'', JArray [JNull])] = Some (JArray [JNull])"
    by (simp add: obj_get_def)
  obtain kvs' where "render_event_data example_codec (JObject [(''topic'', JArray [JNull])]) Native = JObject kvs'"
      "map fst kvs' = [''topic'']"
      "obj_get ''topic'' kvs' = Some (JArray (map (\<lambda>t. render example_codec t Native) [JNull]))"
    using render_event_data_shape [where event_data = "JObject [(''topic'', JArray [JNull])]"
        and fmt = Native and codec = example_codec] t unfolding json.case by (elim exE conjE) fastforce
  then show ?thesis
    using r by auto
qed

end
