(* ===== verification/Indexer.thy ===== *)
theory Indexer
  imports Event_Store Bloom Xdr_Validation Sse_Ring_Buffer Cursor_Expiry
begin

text \<open>
  Model of the indexer of \<open>src/indexer.rs\<close>: one poll cycle (\<open>fetch_and_store_events\<close> with the
  insert path \<open>store_event_in_tx\<close>), the backfill sink, the polling loop and the per-network lock key.

  A poll cycle is a recursion over the replies of the RPC server; running out of replies means the
  cycle is still waiting. A database transaction is a working copy of the database: a statement
  that fails marks it aborted, after which every statement fails and the commit leaves the
  database unchanged, as PostgreSQL does. The faults of a page are part of its environment. The
  queue publishers, the contract tracker, the ledger hash table and metrics have no influence on
  the tables modelled here; the optional script transformation is left out.
\<close>

section \<open>Configuration and environment\<close>

record indexer_config =
  start_ledger :: u64
  indexer_ignore_checkpoint :: bool
  rpc_max_events_per_page :: nat
  multi_tenant :: bool
  indexer_tenant_id :: "string option"
  tenant_contract_filter :: "string \<rightharpoonup> string list"
  dedup :: DedupConfig
  max_event_data_bytes :: nat
  chain_id :: string
  indexer_poll_interval_ms :: u64
  indexer_error_backoff_ms :: u64

text \<open>
  Functions of other crates and modules: the ScVal decoder, the timestamp parser, SHA-256 in
  hexadecimal, the JSON printer and the derived columns.
\<close>

record ('s, 'd) externals =
  scval_from_value :: "json \<Rightarrow> 's option"
  parse_from_rfc3339 :: "string \<Rightarrow> int option"
  sha256_hex :: "string \<Rightarrow> string"
  json_to_string :: "json \<Rightarrow> string"
  derive_columns :: "SorobanEvent \<Rightarrow> json \<Rightarrow> 'd"

record 'd database =
  events_tbl :: "'d events_table"
  checkpoint :: "string option"
  ledger_state :: "(i64 \<times> i64) option"

record 'd transaction =
  tx_db :: "'d database"
  aborted :: bool

record ('b, 'd) world =
  db :: "'d database"
  session_bloom :: "'b SessionBloomFilter option"
  bloom_filter :: "'b EventBloomFilter option"
  event_tx :: bool
  ring :: "SseRingBuffer option"
  sent :: "SorobanEvent list"
  requests :: "(u64 \<times> string option) list"

text \<open>What can happen to one event: the dedup query and the insert may fail; the clock and the fresh id.\<close>

record event_env =
  dedup_query_ok :: bool
  insert_ok :: bool
  env_now :: int
  fresh_id :: nat

record page_env =
  begin_ok :: bool
  event_envs :: "nat \<Rightarrow> event_env"
  checkpoint_ok :: bool
  state_ok :: bool
  commit_ok :: bool

section \<open>Validation\<close>

definition validate_event_data :: "('s, 'd) externals \<Rightarrow> SorobanEvent \<Rightarrow> bool" where
  "validate_event_data ext e =
     (case ev_value e of
        JObject _ \<Rightarrow> validate_xdr (scval_from_value ext) (tx_hash e) (contract_id e) (ev_value e) (topic e)
      | JNull \<Rightarrow> validate_xdr (scval_from_value ext) (tx_hash e) (contract_id e) (ev_value e) (topic e)
      | _ \<Rightarrow> False)"

definition tenant_allows :: "indexer_config \<Rightarrow> SorobanEvent \<Rightarrow> bool" where
  "tenant_allows cfg e =
     (if multi_tenant cfg
      then (case indexer_tenant_id cfg of
              None \<Rightarrow> True
            | Some tid \<Rightarrow> (case tenant_contract_filter cfg tid of
                None \<Rightarrow> True
              | Some allowed \<Rightarrow> \<not> (allowed \<noteq> [] \<and> contract_id e \<notin> set allowed)))
      else True)"

definition topic_json :: "json list option \<Rightarrow> json" where
  "topic_json ts = (case ts of None \<Rightarrow> JNull | Some vs \<Rightarrow> JArray vs)"

definition event_data_of :: "SorobanEvent \<Rightarrow> json" where
  "event_data_of e = JObject [(''topic'', topic_json (topic e)), (''value'', ev_value e)]"

section \<open>The insert path\<close>

datatype store_error = UnparseableTimestamp | InsertFailed

definition row_of_event :: "indexer_config \<Rightarrow> ('s, 'd) externals \<Rightarrow> int \<Rightarrow> int \<Rightarrow> SorobanEvent \<Rightarrow> 'd event_row" where
  "row_of_event cfg ext ts now e =
     \<lparr>row_key = event_key e, row_ledger = int (unat (ledger e)), row_timestamp = ts,
      row_data = event_data_of e, row_ledger_hash = ledger_hash e, row_success = in_successful_call e,
      row_tenant = (if multi_tenant cfg then indexer_tenant_id cfg else None),
      row_fingerprint = compute_fingerprint (sha256_hex ext) (json_to_string ext) (tx_hash e) (contract_id e)
                          (event_type e) (event_data_of e),
      row_chain = chain_id cfg,
      row_ordinal = (case rpc_id e of None \<Rightarrow> None | Some i \<Rightarrow> parse_event_id i),
      row_derived = derive_columns ext e (event_data_of e), row_created_at = now, row_notified_at = None\<rparr>"

text \<open>A statement in a transaction: it fails in an aborted transaction, and a failure aborts it.\<close>

definition tx_insert :: "bool \<Rightarrow> 'd event_row \<Rightarrow> 'd transaction \<Rightarrow> (store_error + bool) \<times> 'd transaction" where
  "tx_insert ok r tx =
     (if aborted tx \<or> \<not> ok then (Inl InsertFailed, tx\<lparr>aborted := True\<rparr>)
      else let (ins, t) = insert_event r (events_tbl (tx_db tx))
           in (Inr ins, tx\<lparr>tx_db := (tx_db tx)\<lparr>events_tbl := t\<rparr>\<rparr>))"

definition session_hit :: "'b bloom_ops \<Rightarrow> SorobanEvent \<Rightarrow> ('b, 'd) world \<Rightarrow> bool \<times> ('b, 'd) world" where
  "session_hit ops e w =
     (case session_bloom w of
        None \<Rightarrow> (False, w)
      | Some s \<Rightarrow> let (hit, s') = session_check_and_set ops (tx_hash e) (contract_id e) (event_type e) (ledger e) s
                  in (hit, w\<lparr>session_bloom := Some s'\<rparr>))"

definition bloom_hit :: "'b bloom_ops \<Rightarrow> SorobanEvent \<Rightarrow> ('b, 'd) world \<Rightarrow> bool" where
  "bloom_hit ops e w =
     (case bloom_filter w of
        None \<Rightarrow> False | Some f \<Rightarrow> filter_check ops (tx_hash e) (contract_id e) (event_type e) f)"

definition bloom_record :: "'b bloom_ops \<Rightarrow> SorobanEvent \<Rightarrow> ('b, 'd) world \<Rightarrow> ('b, 'd) world" where
  "bloom_record ops e w =
     (case bloom_filter w of
        None \<Rightarrow> w
      | Some f \<Rightarrow> w\<lparr>bloom_filter := Some (filter_set ops (tx_hash e) (contract_id e) (event_type e) f)\<rparr>)"

definition content_duplicate ::
  "indexer_config \<Rightarrow> ('s, 'd) externals \<Rightarrow> event_env \<Rightarrow> SorobanEvent \<Rightarrow> ('b, 'd) world \<Rightarrow> bool" where
  "content_duplicate cfg ext env e w \<longleftrightarrow>
     enable_content_dedup (dedup cfg) \<and> dedup_query_ok env \<and>
     is_content_duplicate (events_tbl (db w))
       (compute_fingerprint (sha256_hex ext) (json_to_string ext) (tx_hash e) (contract_id e) (event_type e) (event_data_of e))
       (window_secs (dedup cfg)) (env_now env)"

definition store_event_in_tx ::
  "'b bloom_ops \<Rightarrow> indexer_config \<Rightarrow> ('s, 'd) externals \<Rightarrow> event_env \<Rightarrow> SorobanEvent \<Rightarrow>
   ('b, 'd) world \<Rightarrow> 'd transaction \<Rightarrow> (store_error + nat) \<times> ('b, 'd) world \<times> 'd transaction" where
  "store_event_in_tx ops cfg ext env e w0 tx =
     (let (hit, w) = session_hit ops e w0
      in if hit then (Inr 0, w, tx)
         else if bloom_hit ops e w then (Inr 0, w, tx)
         else if \<not> tenant_allows cfg e then (Inr 0, w, tx)
         else if \<not> validate_event_data ext e then (Inr 0, w, tx)
         else if \<not> unat (ledger e) < 2 ^ 63 then (Inr 0, w, tx)
         else case parse_from_rfc3339 ext (ledger_closed_at e) of
           None \<Rightarrow> (Inl UnparseableTimestamp, w, tx)
         | Some ts \<Rightarrow>
             if content_duplicate cfg ext env e w then (Inr 0, w, tx)
             else if length (json_to_string ext (event_data_of e)) > max_event_data_bytes cfg then (Inr 0, w, tx)
             else case tx_insert (insert_ok env) (row_of_event cfg ext ts (env_now env) e) tx of
               (Inl err, tx') \<Rightarrow> (Inl err, w, tx')
             | (Inr False, tx') \<Rightarrow> (Inr 0, w, tx')
             | (Inr True, tx') \<Rightarrow> (Inr 1, bloom_record ops e w, tx'))"

section \<open>One page\<close>

definition broadcast :: "indexer_config \<Rightarrow> event_env \<Rightarrow> SorobanEvent \<Rightarrow> ('b, 'd) world \<Rightarrow> ('b, 'd) world" where
  "broadcast cfg env e w =
     (if event_tx w
      then let e1 = (if multi_tenant cfg then e\<lparr>tenant_id := indexer_tenant_id cfg\<rparr> else e)
           in (case ring w of
                 None \<Rightarrow> w\<lparr>sent := sent w @ [e1]\<rparr>
               | Some buf \<Rightarrow> w\<lparr>ring := Some (ring_push (fresh_id env) e1 buf),
                              sent := sent w @ [e1\<lparr>sse_id := Some (fresh_id env)\<rparr>]\<rparr>)
      else w)"

record cycle_totals =
  total_inserted :: nat
  total_skipped_duplicate :: nat
  total_skipped_out_of_order :: nat

definition process_event ::
  "'b bloom_ops \<Rightarrow> indexer_config \<Rightarrow> ('s, 'd) externals \<Rightarrow> u64 \<Rightarrow> event_env \<Rightarrow> SorobanEvent \<Rightarrow>
   cycle_totals \<times> ('b, 'd) world \<times> 'd transaction \<Rightarrow> cycle_totals \<times> ('b, 'd) world \<times> 'd transaction" where
  "process_event ops cfg ext start env e st =
     (let (tot, w, tx) = st
      in if ledger e < start
         then (tot\<lparr>total_skipped_out_of_order := total_skipped_out_of_order tot + 1\<rparr>, w, tx)
         else case store_event_in_tx ops cfg ext env e w tx of
           (Inr rows, w', tx') \<Rightarrow>
             (let tot1 = tot\<lparr>total_inserted := total_inserted tot + rows\<rparr>
              in if rows = 0 then (tot1\<lparr>total_skipped_duplicate := total_skipped_duplicate tot1 + 1\<rparr>, w', tx')
                 else (tot1, broadcast cfg env e w', tx'))
         | (Inl _, w', tx') \<Rightarrow> (tot, w', tx'))"

fun process_events ::
  "'b bloom_ops \<Rightarrow> indexer_config \<Rightarrow> ('s, 'd) externals \<Rightarrow> u64 \<Rightarrow> (nat \<Rightarrow> event_env) \<Rightarrow> nat \<Rightarrow> SorobanEvent list \<Rightarrow>
   cycle_totals \<times> ('b, 'd) world \<times> 'd transaction \<Rightarrow> cycle_totals \<times> ('b, 'd) world \<times> 'd transaction" where
  "process_events ops cfg ext start envs i [] st = st"
| "process_events ops cfg ext start envs i (e # es) st =
     process_events ops cfg ext start envs (i + 1) es (process_event ops cfg ext start (envs i) e st)"

definition tx_update :: "bool \<Rightarrow> ('d database \<Rightarrow> 'd database) \<Rightarrow> 'd transaction \<Rightarrow> 'd transaction" where
  "tx_update ok f tx = (if aborted tx \<or> \<not> ok then tx\<lparr>aborted := True\<rparr> else tx\<lparr>tx_db := f (tx_db tx)\<rparr>)"

definition save_checkpoint :: "bool \<Rightarrow> string \<Rightarrow> 'd transaction \<Rightarrow> 'd transaction" where
  "save_checkpoint ok c tx = tx_update ok (\<lambda>d. d\<lparr>checkpoint := Some c\<rparr>) tx"

definition save_indexer_state :: "bool \<Rightarrow> u64 \<Rightarrow> u64 \<Rightarrow> 'd transaction \<Rightarrow> 'd transaction" where
  "save_indexer_state ok cur lat tx = tx_update ok (\<lambda>d. d\<lparr>ledger_state := Some (sint cur, sint lat)\<rparr>) tx"

text \<open>The commit: an error, or success, which in an aborted transaction is a rollback.\<close>

definition commit :: "bool \<Rightarrow> 'd transaction \<Rightarrow> ('b, 'd) world \<Rightarrow> bool \<times> ('b, 'd) world" where
  "commit ok tx w = (if \<not> ok then (False, w) else (True, if aborted tx then w else w\<lparr>db := tx_db tx\<rparr>))"

definition store_page ::
  "'b bloom_ops \<Rightarrow> indexer_config \<Rightarrow> ('s, 'd) externals \<Rightarrow> u64 \<Rightarrow> string option \<Rightarrow> page_env \<Rightarrow> GetEventsResult \<Rightarrow>
   cycle_totals \<Rightarrow> ('b, 'd) world \<Rightarrow> bool \<times> cycle_totals \<times> ('b, 'd) world" where
  "store_page ops cfg ext start cursor env r tot w =
     (if \<not> begin_ok env then (False, tot, w)
      else let evs = take (rpc_max_events_per_page cfg) (events r);
               (tot1, w1, tx1) = process_events ops cfg ext start (event_envs env) 0 evs
                                   (tot, w, \<lparr>tx_db = db w, aborted = False\<rparr>);
               tx2 = (case (case rpc_cursor r of Some c \<Rightarrow> Some c | None \<Rightarrow> cursor) of
                        Some c \<Rightarrow> save_checkpoint (checkpoint_ok env) c tx1 | None \<Rightarrow> tx1);
               tx3 = save_indexer_state (state_ok env) start (latest_ledger r) tx2;
               (ok, w2) = commit (commit_ok env) tx3 w1
           in (ok, tot1, w2))"

section \<open>A poll cycle\<close>

datatype fetch_error = RpcFailure string | DbConnection

record FetchResult =
  next_ledger :: u64
  fetched_latest :: u64

datatype rpc_outcome = RpcErr string | RpcPage GetEventsResult page_env

fun fetch_loop ::
  "'b bloom_ops \<Rightarrow> indexer_config \<Rightarrow> ('s, 'd) externals \<Rightarrow> u64 \<Rightarrow> rpc_outcome list \<Rightarrow> string option \<Rightarrow>
   CursorExpiryBackoff \<Rightarrow> cycle_totals \<Rightarrow> ('b, 'd) world \<Rightarrow> (fetch_error + FetchResult) option \<times> ('b, 'd) world" where
  "fetch_loop ops cfg ext start [] cursor backoff tot w =
     (None, w\<lparr>requests := requests w @ [(start, cursor)]\<rparr>)"
| "fetch_loop ops cfg ext start (o1 # os) cursor backoff tot w =
     (let w0 = w\<lparr>requests := requests w @ [(start, cursor)]\<rparr>
      in case o1 of
        RpcErr msg \<Rightarrow>
          if is_cursor_expiry_error msg
          then if should_fallback backoff
               then fetch_loop ops cfg ext start os None (backoff_reset backoff) tot w0
               else fetch_loop ops cfg ext start os cursor (snd (next_backoff backoff)) tot w0
          else (Some (Inl (RpcFailure msg)), w0)
      | RpcPage r env \<Rightarrow>
          (case store_page ops cfg ext start cursor env r tot w0 of
             (False, _, w1) \<Rightarrow> (Some (Inl DbConnection), w1)
           | (True, tot1, w1) \<Rightarrow>
               (case rpc_cursor r of
                  Some c \<Rightarrow> fetch_loop ops cfg ext start os (Some c) (backoff_reset backoff) tot1 w1
                | None \<Rightarrow>
                    (Some (Inr \<lparr>next_ledger = (if latest_ledger r > start then latest_ledger r + 1 else start),
                                fetched_latest = latest_ledger r\<rparr>), w1))))"

definition fetch_and_store_events ::
  "'b bloom_ops \<Rightarrow> indexer_config \<Rightarrow> ('s, 'd) externals \<Rightarrow> u64 \<Rightarrow> rpc_outcome list \<Rightarrow> ('b, 'd) world \<Rightarrow>
   (fetch_error + FetchResult) option \<times> ('b, 'd) world" where
  "fetch_and_store_events ops cfg ext start os w =
     fetch_loop ops cfg ext start os (if indexer_ignore_checkpoint cfg then None else checkpoint (db w))
       backoff_new \<lparr>total_inserted = 0, total_skipped_duplicate = 0, total_skipped_out_of_order = 0\<rparr> w"

section \<open>The backfill sink\<close>

fun store_all ::
  "'b bloom_ops \<Rightarrow> indexer_config \<Rightarrow> ('s, 'd) externals \<Rightarrow> (nat \<Rightarrow> event_env) \<Rightarrow> nat \<Rightarrow> SorobanEvent list \<Rightarrow> nat \<Rightarrow>
   ('b, 'd) world \<Rightarrow> 'd transaction \<Rightarrow> (store_error + nat) \<times> ('b, 'd) world \<times> 'd transaction" where
  "store_all ops cfg ext envs i [] n w tx = (Inr n, w, tx)"
| "store_all ops cfg ext envs i (e # es) n w tx =
     (case store_event_in_tx ops cfg ext (envs i) e w tx of
        (Inl err, w', tx') \<Rightarrow> (Inl err, w', tx')
      | (Inr rows, w', tx') \<Rightarrow> store_all ops cfg ext envs (i + 1) es (n + rows) w' tx')"

datatype sink_error = BeginFailed | StoreFailed store_error | CommitFailed

text \<open>On an error the transaction is dropped, which rolls it back.\<close>

definition store_events ::
  "'b bloom_ops \<Rightarrow> indexer_config \<Rightarrow> ('s, 'd) externals \<Rightarrow> page_env \<Rightarrow> SorobanEvent list \<Rightarrow> ('b, 'd) world \<Rightarrow>
   (sink_error + nat) \<times> ('b, 'd) world" where
  "store_events ops cfg ext env es w =
     (if es = [] then (Inr 0, w)
      else if \<not> begin_ok env then (Inl BeginFailed, w)
      else case store_all ops cfg ext (event_envs env) 0 es 0 w \<lparr>tx_db = db w, aborted = False\<rparr> of
        (Inl err, w', _) \<Rightarrow> (Inl (StoreFailed err), w')
      | (Inr n, w', tx) \<Rightarrow> (case commit (commit_ok env) tx w' of
          (False, w'') \<Rightarrow> (Inl CommitFailed, w'') | (True, w'') \<Rightarrow> (Inr n, w'')))"

section \<open>The polling loop\<close>

record indexer_state =
  is_paused :: bool
  st_current :: u64
  st_latest :: u64

record loop_state =
  cur_ledger :: u64
  consecutive_db_errors :: u32
  shared :: "indexer_state option"

text \<open>
  The ledger to start from: the configured one, else the persisted one, else the latest ledger of
  the network, asked for with a doubling backoff until it is known (\<^const>\<open>None\<close> while it is not).
\<close>

definition restore_state :: "indexer_config \<Rightarrow> (i64 \<times> i64) option \<Rightarrow> indexer_state option \<Rightarrow> loop_state" where
  "restore_state cfg persisted sh =
     (case persisted of
        None \<Rightarrow> \<lparr>cur_ledger = start_ledger cfg, consecutive_db_errors = 0, shared = sh\<rparr>
      | Some (c, l) \<Rightarrow>
          (let pc = word_of_int c :: u64; pl = word_of_int l :: u64
           in if pc > 0
              then \<lparr>cur_ledger = (if start_ledger cfg = 0 then pc else start_ledger cfg), consecutive_db_errors = 0,
                    shared = map_option (\<lambda>s. s\<lparr>st_current := pc, st_latest := pl\<rparr>) sh\<rparr>
              else \<lparr>cur_ledger = start_ledger cfg, consecutive_db_errors = 0, shared = sh\<rparr>))"

fun wait_for_latest :: "(string + u64) list \<Rightarrow> u64 \<Rightarrow> u64 list \<times> u64 option" where
  "wait_for_latest [] backoff = ([], None)"
| "wait_for_latest (Inr l # rs) backoff = ([], Some l)"
| "wait_for_latest (Inl _ # rs) backoff =
     (let (sleeps, l) = wait_for_latest rs (min (backoff * 2) 60000) in (backoff # sleeps, l))"

text \<open>The bookkeeping after a poll cycle, with the sleep before the next one in milliseconds.\<close>

definition after_fetch ::
  "indexer_config \<Rightarrow> (string + u64) \<Rightarrow> fetch_error + FetchResult \<Rightarrow> loop_state \<Rightarrow> nat \<times> loop_state" where
  "after_fetch cfg latest_probe res ls =
     (case res of
        Inr r \<Rightarrow>
          (let ls1 = ls\<lparr>consecutive_db_errors := 0\<rparr>
           in if next_ledger r > cur_ledger ls
              then (0, let c = next_ledger r;
                           sh = map_option (\<lambda>s. s\<lparr>st_current := c\<rparr>) (shared ls1)
                       in ls1\<lparr>cur_ledger := c,
                              shared := (if fetched_latest r > c
                                         then map_option (\<lambda>s. s\<lparr>st_latest := fetched_latest r\<rparr>) sh else sh)\<rparr>)
              else (unat (indexer_poll_interval_ms cfg),
                    case latest_probe of
                      Inr l \<Rightarrow> ls1\<lparr>shared := map_option (\<lambda>s. s\<lparr>st_latest := l\<rparr>) (shared ls1)\<rparr>
                    | Inl _ \<Rightarrow> ls1))
      | Inl DbConnection \<Rightarrow>
          (let n = consecutive_db_errors ls + 1
           in ((if n \<ge> 5 then 60 else 10) * 1000, ls\<lparr>consecutive_db_errors := n\<rparr>))
      | Inl (RpcFailure _) \<Rightarrow> (unat (indexer_error_backoff_ms cfg), ls))"

section \<open>The lock key\<close>

definition INDEXER_LOCK_KEY :: u64 where "INDEXER_LOCK_KEY = 0x536f726f62616e50"

definition fnv_step :: "char \<Rightarrow> u64 \<Rightarrow> u64" where
  "fnv_step c h = xor h (of_char c) * 0x100000001b3"

definition lock_key_for_chain :: "string \<Rightarrow> u64" where
  "lock_key_for_chain chain =
     (if chain = ''mainnet'' then INDEXER_LOCK_KEY
      else xor (fold fnv_step chain 0xcbf29ce484222325) INDEXER_LOCK_KEY)"

section \<open>What one event does\<close>

text \<open>The conditions under which the insert path reaches the insert statement.\<close>

definition acceptable :: "indexer_config \<Rightarrow> ('s, 'd) externals \<Rightarrow> SorobanEvent \<Rightarrow> bool" where
  "acceptable cfg ext e \<longleftrightarrow> tenant_allows cfg e \<and> validate_event_data ext e \<and> unat (ledger e) < 2 ^ 63 \<and>
     parse_from_rfc3339 ext (ledger_closed_at e) \<noteq> None \<and>
     length (json_to_string ext (event_data_of e)) \<le> max_event_data_bytes cfg"

text \<open>A row that the insert path writes for an event.\<close>

definition row_for :: "indexer_config \<Rightarrow> ('s, 'd) externals \<Rightarrow> SorobanEvent \<Rightarrow> 'd event_row \<Rightarrow> bool" where
  "row_for cfg ext e r \<longleftrightarrow> (\<exists>ts now. parse_from_rfc3339 ext (ledger_closed_at e) = Some ts \<and>
     r = row_of_event cfg ext ts now e)"

lemma row_for_key: "row_for cfg ext e r \<Longrightarrow> row_key r = event_key e"
  by (auto simp: row_for_def row_of_event_def)

definition tx_tbl :: "'d transaction \<Rightarrow> 'd events_table" where
  "tx_tbl tx = events_tbl (tx_db tx)"

definition same_log :: "('b, 'd) world \<Rightarrow> ('b, 'd) world \<Rightarrow> bool" where
  "same_log w w' \<longleftrightarrow> db w' = db w \<and> sent w' = sent w \<and> ring w' = ring w \<and> event_tx w' = event_tx w \<and>
     requests w' = requests w"

lemma same_log_refl [simp]: "same_log w w"
  by (simp add: same_log_def)

lemma session_hit_log [simp]: "same_log w (snd (session_hit ops e w))"
  by (auto simp: session_hit_def same_log_def Let_def case_prod_beta split: option.split)

lemma bloom_record_log: "same_log w w' \<Longrightarrow> same_log w (bloom_record ops e w')"
  by (auto simp: bloom_record_def same_log_def split: option.split)

inductive store_step ::
  "indexer_config \<Rightarrow> ('s, 'd) externals \<Rightarrow> SorobanEvent \<Rightarrow> 'd transaction \<Rightarrow> store_error + nat \<Rightarrow> 'd transaction \<Rightarrow> bool"
  for cfg ext e where
  step_skip: "store_step cfg ext e tx (Inr 0) tx"
| step_time: "\<not> acceptable cfg ext e \<Longrightarrow> store_step cfg ext e tx (Inl UnparseableTimestamp) tx"
| step_abort: "store_step cfg ext e tx (Inl InsertFailed) (tx\<lparr>aborted := True\<rparr>)"
| step_insert: "\<not> aborted tx \<Longrightarrow> acceptable cfg ext e \<Longrightarrow> row_for cfg ext e r \<Longrightarrow> event_key e \<notin> dom (tx_tbl tx) \<Longrightarrow>
    store_step cfg ext e tx (Inr 1) (tx\<lparr>tx_db := (tx_db tx)\<lparr>events_tbl := (tx_tbl tx)(event_key e \<mapsto> r)\<rparr>\<rparr>)"

lemma store_event_in_tx_step:
  assumes "store_event_in_tx ops cfg ext env e w tx = (res, w', tx')"
  shows "same_log w w' \<and> store_step cfg ext e tx res tx'"
proof -
  have row: "row_for cfg ext e (row_of_event cfg ext ts now e)"
    if "parse_from_rfc3339 ext (ledger_closed_at e) = Some ts" for ts now
    using that by (auto simp: row_for_def)
  have key: "row_key (row_of_event cfg ext ts now e) = event_key e" for ts now
    by (simp add: row_of_event_def)
  have ins: "store_step cfg ext e tx (Inr (Suc 0))
      (tx\<lparr>tx_db := (tx_db tx)\<lparr>events_tbl := (events_tbl (tx_db tx))(event_key e \<mapsto> row_of_event cfg ext ts now e)\<rparr>\<rparr>)"
    if "\<not> aborted tx" "acceptable cfg ext e" "parse_from_rfc3339 ext (ledger_closed_at e) = Some ts"
      "events_tbl (tx_db tx) (event_key e) = None" for ts now
    using step_insert [OF that(1,2) row [OF that(3)], of now] that(4) by (auto simp: tx_tbl_def)
  have same: "tx\<lparr>tx_db := (tx_db tx)\<lparr>events_tbl := events_tbl (tx_db tx)\<rparr>\<rparr> = tx"
    by simp
  obtain hit w1 where h: "session_hit ops e w = (hit, w1)"
    by (cases "session_hit ops e w")
  then have log: "same_log w w1"
    using session_hit_log [of w ops e] by simp
  show ?thesis
    using assms log bloom_record_log [OF log, of ops e] same
    unfolding store_event_in_tx_def h tx_insert_def insert_event_def
    by (auto simp: Let_def key acceptable_def not_less domIff
        split: if_splits option.splits intro: step_skip step_time step_abort ins)
qed

section \<open>What a page does\<close>

definition new_rows_ok ::
  "indexer_config \<Rightarrow> ('s, 'd) externals \<Rightarrow> u64 \<Rightarrow> 'd events_table \<Rightarrow> 'd events_table \<Rightarrow> bool" where
  "new_rows_ok cfg ext start t0 t \<longleftrightarrow> t0 \<subseteq>\<^sub>m t \<and>
     (\<forall>k r. t k = Some r \<and> t0 k = None \<longrightarrow>
        (\<exists>e. k = event_key e \<and> acceptable cfg ext e \<and> start \<le> ledger e \<and> row_for cfg ext e r))"

definition sent_exactly :: "('b, 'd) world \<Rightarrow> ('b, 'd) world \<Rightarrow> nat \<Rightarrow> 'd events_table \<Rightarrow> bool" where
  "sent_exactly w0 w n t \<longleftrightarrow>
     (\<exists>new. sent w = sent w0 @ new \<and> distinct (map event_key new) \<and> n = length new \<and>
        set (map event_key new) = dom t - dom (events_tbl (db w0)))"

definition page_inv ::
  "indexer_config \<Rightarrow> ('s, 'd) externals \<Rightarrow> u64 \<Rightarrow> ('b, 'd) world \<Rightarrow> nat \<Rightarrow>
   cycle_totals \<times> ('b, 'd) world \<times> 'd transaction \<Rightarrow> bool" where
  "page_inv cfg ext start w0 n0 = (\<lambda>(tot, w, tx).
     db w = db w0 \<and> event_tx w = event_tx w0 \<and> requests w = requests w0 \<and> n0 \<le> total_inserted tot \<and>
     checkpoint (tx_db tx) = checkpoint (db w0) \<and> ledger_state (tx_db tx) = ledger_state (db w0) \<and>
     new_rows_ok cfg ext start (events_tbl (db w0)) (tx_tbl tx) \<and>
     (event_tx w0 \<longrightarrow> sent_exactly w0 w (total_inserted tot - n0) (tx_tbl tx)))"

lemma event_key_broadcast [simp]:
  "event_key (e\<lparr>tenant_id := t\<rparr>) = event_key e" "event_key (e\<lparr>sse_id := i\<rparr>) = event_key e"
  by (simp_all add: event_key_def)

lemma broadcast_log:
  "db (broadcast cfg env e w) = db w" "event_tx (broadcast cfg env e w) = event_tx w"
  "requests (broadcast cfg env e w) = requests w" "session_bloom (broadcast cfg env e w) = session_bloom w"
  "bloom_filter (broadcast cfg env e w) = bloom_filter w"
  by (simp_all add: broadcast_def Let_def split: option.split)

lemma broadcast_sent:
  "event_tx w \<Longrightarrow> \<exists>e'. event_key e' = event_key e \<and> sent (broadcast cfg env e w) = sent w @ [e']"
  by (auto simp: broadcast_def Let_def split: option.split)

lemma sent_exactly_insert:
  assumes "sent_exactly w0 w n t" and "sent w' = sent w @ [e']" and "event_key e' \<notin> dom t"
    and "events_tbl (db w0) \<subseteq>\<^sub>m t"
  shows "sent_exactly w0 w' (Suc n) (t(event_key e' \<mapsto> r))"
proof -
  obtain new where new: "sent w = sent w0 @ new" "distinct (map event_key new)" "n = length new"
    "set (map event_key new) = dom t - dom (events_tbl (db w0))"
    using assms(1) by (auto simp: sent_exactly_def)
  have "event_key e' \<notin> dom (events_tbl (db w0))"
    using assms(3,4) map_le_implies_dom_le by blast
  then show ?thesis
    unfolding sent_exactly_def using new assms(2,3)
    by (intro exI [of _ "new @ [e']"]) auto
qed

lemma new_rows_ok_insert:
  assumes "new_rows_ok cfg ext start t0 t" and "event_key e \<notin> dom t" and "acceptable cfg ext e"
    and "start \<le> ledger e" and "row_for cfg ext e r"
  shows "new_rows_ok cfg ext start t0 (t(event_key e \<mapsto> r))"
proof -
  have "t0 \<subseteq>\<^sub>m t"
    using assms(1) by (simp add: new_rows_ok_def)
  then have "event_key e \<notin> dom t0"
    using assms(2) map_le_implies_dom_le by blast
  with \<open>t0 \<subseteq>\<^sub>m t\<close> have "t0 \<subseteq>\<^sub>m t(event_key e \<mapsto> r)"
    by (simp add: map_le_def)
  then show ?thesis
    using assms by (auto simp: new_rows_ok_def split: if_splits)
qed

lemma process_event_inv:
  assumes "page_inv cfg ext start w0 n0 (tot, w, tx)"
  shows "page_inv cfg ext start w0 n0 (process_event ops cfg ext start env e (tot, w, tx))"
proof (cases "ledger e < start")
  case True
  then show ?thesis
    using assms by (simp add: process_event_def page_inv_def)
next
  case False
  obtain res w' tx' where r: "store_event_in_tx ops cfg ext env e w tx = (res, w', tx')"
    by (cases "store_event_in_tx ops cfg ext env e w tx")
  from store_event_in_tx_step [OF r] have log: "same_log w w'" and step: "store_step cfg ext e tx res tx'"
    by auto
  have sent_eq: "sent_exactly w0 w' n t \<longleftrightarrow> sent_exactly w0 w n t" for n t
    using log by (simp add: sent_exactly_def same_log_def)
  from step show ?thesis
  proof (cases rule: store_step.cases)
    case (step_insert rw)
    have w: "event_tx w' = event_tx w0" "events_tbl (db w0) \<subseteq>\<^sub>m tx_tbl tx"
      using assms log by (auto simp: page_inv_def same_log_def new_rows_ok_def)
    have "sent_exactly w0 (broadcast cfg env e w') (Suc (total_inserted tot - n0)) ((tx_tbl tx)(event_key e \<mapsto> rw))"
      if tx0: "event_tx w0"
    proof -
      obtain e' where e': "event_key e' = event_key e" "sent (broadcast cfg env e w') = sent w' @ [e']"
        using broadcast_sent [of w' e cfg env] w(1) tx0 by auto
      have "sent_exactly w0 w' (total_inserted tot - n0) (tx_tbl tx)"
        using assms tx0 by (simp add: page_inv_def sent_eq)
      from sent_exactly_insert [OF this e'(2)] show ?thesis
        using e'(1) step_insert w(2) by auto
    qed
    moreover have "new_rows_ok cfg ext start (events_tbl (db w0)) ((tx_tbl tx)(event_key e \<mapsto> rw))"
      using assms step_insert False by (intro new_rows_ok_insert) (auto simp: page_inv_def not_less)
    ultimately show ?thesis
      using assms False r log step_insert
      by (auto simp: process_event_def page_inv_def broadcast_log same_log_def tx_tbl_def Suc_diff_le)
  qed (use assms False r log sent_eq in \<open>auto simp: process_event_def page_inv_def same_log_def tx_tbl_def\<close>)
qed

lemma process_events_inv:
  "page_inv cfg ext start w0 n0 st \<Longrightarrow> page_inv cfg ext start w0 n0 (process_events ops cfg ext start envs i es st)"
proof (induction es arbitrary: i st)
  case (Cons e es)
  then show ?case
    using process_event_inv [of cfg ext start w0 n0 "fst st" "fst (snd st)" "snd (snd st)"] by simp
qed simp

lemma page_inv_init: "page_inv cfg ext start w (total_inserted tot) (tot, w, \<lparr>tx_db = db w, aborted = False\<rparr>)"
  by (auto simp: page_inv_def new_rows_ok_def sent_exactly_def tx_tbl_def)

definition fault_free :: "page_env \<Rightarrow> bool" where
  "fault_free env \<longleftrightarrow> begin_ok env \<and> checkpoint_ok env \<and> state_ok env \<and> commit_ok env \<and>
     (\<forall>i. insert_ok (event_envs env i))"

lemma tx_update_cases:
  "tx_update ok f tx = (if ok \<and> \<not> aborted tx then tx\<lparr>tx_db := f (tx_db tx)\<rparr> else tx\<lparr>aborted := True\<rparr>)"
  by (simp add: tx_update_def)

lemma store_event_in_tx_not_aborted:
  assumes "insert_ok env" and "\<not> aborted tx"
  shows "\<not> aborted (snd (snd (store_event_in_tx ops cfg ext env e w tx)))"
  using assms
  by (auto simp: store_event_in_tx_def tx_insert_def Let_def case_prod_beta split: option.split bool.split)

lemma process_events_not_aborted:
  "\<forall>i. insert_ok (envs i) \<Longrightarrow> \<not> aborted (snd (snd st)) \<Longrightarrow>
     \<not> aborted (snd (snd (process_events ops cfg ext start envs i es st)))"
proof (induction es arbitrary: i st)
  case (Cons e es)
  have "\<not> aborted (snd (snd (process_event ops cfg ext start (envs i) e st)))"
    using Cons.prems store_event_in_tx_not_aborted [of "envs i" "snd (snd st)" ops cfg ext e "fst (snd st)"]
    by (auto simp: process_event_def Let_def case_prod_beta split: sum.split prod.split)
  with Cons show ?case by simp
qed simp

text \<open>What is in the database after a page: the old state, or all of the page.\<close>

definition page_committed ::
  "indexer_config \<Rightarrow> ('s, 'd) externals \<Rightarrow> u64 \<Rightarrow> string option \<Rightarrow> GetEventsResult \<Rightarrow> nat \<Rightarrow> ('b, 'd) world \<Rightarrow> ('b, 'd) world \<Rightarrow> bool" where
  "page_committed cfg ext start cursor r n w w' \<longleftrightarrow>
     new_rows_ok cfg ext start (events_tbl (db w)) (events_tbl (db w')) \<and>
     checkpoint (db w') = (case rpc_cursor r of Some c \<Rightarrow> Some c
        | None \<Rightarrow> (case cursor of Some c \<Rightarrow> Some c | None \<Rightarrow> checkpoint (db w))) \<and>
     ledger_state (db w') = Some (sint start, sint (latest_ledger r)) \<and>
     (event_tx w \<longrightarrow> sent_exactly w w' n (events_tbl (db w')))"

lemma store_page_result:
  assumes "store_page ops cfg ext start cursor env r tot w = (ok, tot', w')"
  shows "event_tx w' = event_tx w \<and> requests w' = requests w \<and>
    (db w' = db w \<or> ok \<and> page_committed cfg ext start cursor r (total_inserted tot' - total_inserted tot) w w')"
proof (cases "begin_ok env")
  case False
  then show ?thesis using assms by (simp add: store_page_def)
next
  case True
  let ?evs = "take (rpc_max_events_per_page cfg) (events r)"
  obtain tot1 w1 tx1 where p: "process_events ops cfg ext start (event_envs env) 0 ?evs
      (tot, w, \<lparr>tx_db = db w, aborted = False\<rparr>) = (tot1, w1, tx1)"
    by (cases "process_events ops cfg ext start (event_envs env) 0 ?evs
      (tot, w, \<lparr>tx_db = db w, aborted = False\<rparr>)")
  have inv: "page_inv cfg ext start w (total_inserted tot) (tot1, w1, tx1)"
    using process_events_inv [OF page_inv_init] p by metis
  have sent_db: "sent_exactly w (w1\<lparr>db := d\<rparr>) n t = sent_exactly w w1 n t" for d n t
    by (simp add: sent_exactly_def)
  show ?thesis
    using assms True p inv
    by (auto simp: store_page_def Let_def commit_def save_checkpoint_def save_indexer_state_def tx_update_cases
        page_inv_def page_committed_def tx_tbl_def sent_db split: option.splits if_splits)
qed

lemma store_page_committed:
  assumes "store_page ops cfg ext start cursor env r tot w = (ok, tot', w')" and "fault_free env"
  shows "ok \<and> page_committed cfg ext start cursor r (total_inserted tot' - total_inserted tot) w w'"
proof -
  let ?evs = "take (rpc_max_events_per_page cfg) (events r)"
  obtain tot1 w1 tx1 where p: "process_events ops cfg ext start (event_envs env) 0 ?evs
      (tot, w, \<lparr>tx_db = db w, aborted = False\<rparr>) = (tot1, w1, tx1)"
    by (cases "process_events ops cfg ext start (event_envs env) 0 ?evs
      (tot, w, \<lparr>tx_db = db w, aborted = False\<rparr>)")
  have inv: "page_inv cfg ext start w (total_inserted tot) (tot1, w1, tx1)"
    using process_events_inv [OF page_inv_init] p by metis
  have "\<not> aborted tx1"
    using process_events_not_aborted [of "event_envs env" "(tot, w, \<lparr>tx_db = db w, aborted = False\<rparr>)"
        ops cfg ext start 0 ?evs] assms(2)
    by (simp add: p fault_free_def)
  moreover have "sent_exactly w (w1\<lparr>db := d\<rparr>) n t = sent_exactly w w1 n t" for d n t
    by (simp add: sent_exactly_def)
  ultimately show ?thesis
    using assms p inv
    by (auto simp: store_page_def Let_def commit_def save_checkpoint_def save_indexer_state_def tx_update_cases
        page_inv_def page_committed_def tx_tbl_def fault_free_def split: option.splits)
qed

lemma new_rows_ok_refl: "new_rows_ok cfg ext start t t"
  by (auto simp: new_rows_ok_def)

lemma new_rows_ok_trans:
  assumes "new_rows_ok cfg ext start t0 t1" and "new_rows_ok cfg ext start t1 t2"
  shows "new_rows_ok cfg ext start t0 t2"
proof -
  have le: "t0 \<subseteq>\<^sub>m t1" "t1 \<subseteq>\<^sub>m t2"
    using assms by (simp_all add: new_rows_ok_def)
  have "\<exists>e. k = event_key e \<and> acceptable cfg ext e \<and> start \<le> ledger e \<and> row_for cfg ext e r"
    if "t2 k = Some r" "t0 k = None" for k r
  proof (cases "t1 k")
    case None
    then show ?thesis using assms(2) that(1) unfolding new_rows_ok_def by blast
  next
    case (Some r')
    then have "t2 k = Some r'"
      using le(2) unfolding map_le_def by (metis domI)
    then show ?thesis
      using assms(1) that Some unfolding new_rows_ok_def by (metis option.inject)
  qed
  then show ?thesis
    using map_le_trans [OF le] unfolding new_rows_ok_def by blast
qed

lemma fetch_loop_rows:
  "new_rows_ok cfg ext start (events_tbl (db w))
     (events_tbl (db (snd (fetch_loop ops cfg ext start os cursor backoff tot w))))"
proof (induction os arbitrary: cursor backoff tot w)
  case Nil
  then show ?case by (simp add: new_rows_ok_refl)
next
  case (Cons o1 os)
  let ?w0 = "w\<lparr>requests := requests w @ [(start, cursor)]\<rparr>"
  note IH0 = Cons.IH [where w = ?w0, simplified]
  show ?case
  proof (cases o1)
    case (RpcErr msg)
    then show ?thesis
      using IH0 by (simp add: Let_def new_rows_ok_refl)
  next
    case (RpcPage r env)
    obtain ok tot1 w1 where p: "store_page ops cfg ext start cursor env r tot ?w0 = (ok, tot1, w1)"
      by (cases "store_page ops cfg ext start cursor env r tot ?w0")
    have "new_rows_ok cfg ext start (events_tbl (db w)) (events_tbl (db w1))"
      using store_page_result [OF p] by (auto simp: page_committed_def new_rows_ok_refl)
    then show ?thesis
      using RpcPage p new_rows_ok_trans [OF _ Cons.IH [where w = w1]]
      by (auto simp: Let_def split: bool.split option.split)
  qed
qed

lemma fetch_loop_result:
  "fst (fetch_loop ops cfg ext start os cursor backoff tot w) = Some (Inr res) \<Longrightarrow>
     next_ledger res = (if fetched_latest res > start then fetched_latest res + 1 else start)"
proof (induction os arbitrary: cursor backoff tot w)
  case (Cons o1 os)
  then show ?case
    by (cases o1) (auto simp: Let_def split: if_splits prod.splits bool.splits option.splits)
qed simp

section \<open>Properties\<close>

text \<open>
  C3. Storage safety of a poll cycle. Whatever the RPC server returns and whichever database
  operations fail, a cycle never changes or deletes a stored event, and every event it adds is
  stored under its own transaction, contract and type, passed every check of the insert path
  (tenant filter, ScVal validation, ledger range, timestamp, size limit), is not older than the
  start ledger, and its row is the one computed from that event. A finished cycle continues after
  the latest ledger, or at the same ledger when there was nothing new.
\<close>

theorem fetch_cycle_safe:
  "new_rows_ok cfg ext start (events_tbl (db w)) (events_tbl (db (snd (fetch_and_store_events ops cfg ext start os w)))) \<and>
   (\<forall>res. fst (fetch_and_store_events ops cfg ext start os w) = Some (Inr res) \<longrightarrow>
      next_ledger res = (if fetched_latest res > start then fetched_latest res + 1 else start))"
  using fetch_loop_rows fetch_loop_result unfolding fetch_and_store_events_def by blast

text \<open>
  C2. A page is all or nothing. After a page the database is exactly as before, or the commit
  succeeded and it contains the new events together with the checkpoint for the next page and the
  ledger state; the events broadcast to subscribers during a committed page are exactly the newly
  stored ones, each once, and their number is the page's insert count. When no statement fails
  the page is committed.
\<close>

theorem store_page_atomic:
  assumes "store_page ops cfg ext start cursor env r tot w = (ok, tot', w')"
  shows "(db w' = db w \<or> ok \<and> page_committed cfg ext start cursor r (total_inserted tot' - total_inserted tot) w w') \<and>
    (fault_free env \<longrightarrow> ok \<and> page_committed cfg ext start cursor r (total_inserted tot' - total_inserted tot) w w')"
  using store_page_result [OF assms] store_page_committed [OF assms] by blast

section \<open>No event is lost\<close>



definition reported :: "'b bloom_ops \<Rightarrow> ('b, 'd) world \<Rightarrow> string set" where
  "reported ops w =
     {k. \<exists>s. session_bloom w = Some s \<and> bloom_check ops (session_inner s) k} \<union>
     {k. \<exists>f. bloom_filter w = Some f \<and>
        (bloom_check ops (bf_inner f) k \<or> (\<exists>b. bf_previous f = Some b \<and> bloom_check ops b k))}"











lemma reported_broadcast [simp]: "reported ops (broadcast cfg env e w) = reported ops w"
  by (simp add: reported_def broadcast_log)





section \<open>Cursor expiry\<close>

lemma expiry_retries:
  assumes "\<forall>m \<in> set msgs. is_cursor_expiry_error m" and "unat (retry_count b) + length msgs \<le> unat (max_retries b)"
  shows "\<exists>b'. retry_count b' = retry_count b + of_nat (length msgs) \<and> max_retries b' = max_retries b \<and>
    fetch_loop ops cfg ext start (map RpcErr msgs @ os) cursor b tot w =
    fetch_loop ops cfg ext start os cursor b' tot (w\<lparr>requests := requests w @ replicate (length msgs) (start, cursor)\<rparr>)"
  using assms
proof (induction msgs arbitrary: b w)
  case Nil
  then show ?case by (intro exI [of _ b]) simp
next
  case (Cons m msgs)
  let ?b = "snd (next_backoff b)" and ?w = "w\<lparr>requests := requests w @ [(start, cursor)]\<rparr>"
  have lt: "retry_count b < max_retries b"
    using Cons.prems(2) by (simp add: word_less_nat_alt)
  then have "unat (retry_count ?b) = unat (retry_count b) + 1"
    using unat_inc_below [OF lt] by simp
  then obtain b' where "retry_count b' = retry_count ?b + of_nat (length msgs)" "max_retries b' = max_retries ?b"
    "fetch_loop ops cfg ext start (map RpcErr msgs @ os) cursor ?b tot ?w =
     fetch_loop ops cfg ext start os cursor b' tot (?w\<lparr>requests := requests ?w @ replicate (length msgs) (start, cursor)\<rparr>)"
    using Cons.IH [of ?b ?w] Cons.prems by auto
  moreover have "\<not> should_fallback b"
    using lt by (simp add: should_fallback_def)
  ultimately show ?case
    using Cons.prems(1) by (intro exI [of _ b']) (simp add: Let_def add.assoc)
qed

text \<open>
  C4. An expired cursor never blocks the indexer. If the server answers six requests in a row with
  a cursor expiry error, those six requests all carried the persisted cursor and the cycle goes on
  with no cursor, from the start ledger, with the retry counter reset.
\<close>

theorem cursor_expiry_falls_back:
  assumes "length msgs = 6" and "\<forall>m \<in> set msgs. is_cursor_expiry_error m"
  shows "\<exists>b. retry_count b = 0 \<and>
    fetch_and_store_events ops cfg ext start (map RpcErr msgs @ os) w =
    fetch_loop ops cfg ext start os None b
      \<lparr>total_inserted = 0, total_skipped_duplicate = 0, total_skipped_out_of_order = 0\<rparr>
      (w\<lparr>requests := requests w @ replicate 6
          (start, if indexer_ignore_checkpoint cfg then None else checkpoint (db w))\<rparr>)"
proof -
  let ?cur = "if indexer_ignore_checkpoint cfg then None else checkpoint (db w)"
  let ?tot = "\<lparr>total_inserted = 0, total_skipped_duplicate = 0, total_skipped_out_of_order = 0\<rparr>"
  obtain ms m where ms: "msgs = ms @ [m]" "length ms = 5"
    using assms(1) by (cases msgs rule: rev_cases) auto
  have new: "retry_count backoff_new = 0" "max_retries backoff_new = 5"
    by (simp_all add: backoff_new_def backoff_with_config_def)
  obtain b where b: "retry_count b = 5" "max_retries b = 5"
    "fetch_loop ops cfg ext start (map RpcErr ms @ RpcErr m # os) ?cur backoff_new ?tot w =
     fetch_loop ops cfg ext start (RpcErr m # os) ?cur b ?tot (w\<lparr>requests := requests w @ replicate 5 (start, ?cur)\<rparr>)"
    using expiry_retries [of ms backoff_new ops cfg ext start "RpcErr m # os" ?cur ?tot w] ms assms(2) new by auto
  have "replicate 5 (start, ?cur) @ [(start, ?cur)] = replicate 6 (start, ?cur)"
    by (simp add: numeral_eq_Suc replicate_append_same)
  then show ?thesis
    using b assms(2) ms(1)
    by (intro exI [of _ "backoff_reset b"])
       (simp add: fetch_and_store_events_def Let_def should_fallback_def backoff_reset_def)
qed

section \<open>The polling loop\<close>

lemma after_fetch_ledger:
  "cur_ledger (snd (after_fetch cfg probe res ls)) =
     (case res of Inr r \<Rightarrow> max (cur_ledger ls) (next_ledger r) | Inl _ \<Rightarrow> cur_ledger ls)"
  by (auto simp: after_fetch_def Let_def max_def not_less split: sum.split fetch_error.split)

text \<open>
  C5. The polling loop never goes back, and backs off under database failure. Over any sequence of
  cycle results the current ledger never decreases; after five database errors in a row the
  loop sleeps 60 seconds between attempts, before that 10, and a successful cycle resets the count.
\<close>

theorem poll_loop_progress:
  assumes "unat (consecutive_db_errors ls) + length results < 2 ^ 32"
  shows "cur_ledger ls \<le> cur_ledger (fold (\<lambda>(probe, res) ls. snd (after_fetch cfg probe res ls)) results ls) \<and>
    (\<forall>res. after_fetch cfg probe (Inr res) ls = after_fetch cfg probe (Inr res) (ls\<lparr>consecutive_db_errors := 0\<rparr>)) \<and>
    ((\<forall>x \<in> set results. snd x = Inl DbConnection) \<and> results \<noteq> [] \<longrightarrow>
       fst (after_fetch cfg probe (Inl DbConnection)
         (fold (\<lambda>(probe, res) ls. snd (after_fetch cfg probe res ls)) (tl results) ls)) =
       (if unat (consecutive_db_errors ls) + length results \<ge> 5 then 60000 else 10000))"
proof (intro conjI impI allI)
  have "cur_ledger ls \<le> cur_ledger (snd (after_fetch cfg p r ls))" for p r ls
    by (auto simp: after_fetch_ledger split: sum.split)
  then show "cur_ledger ls \<le> cur_ledger (fold (\<lambda>(probe, res) ls. snd (after_fetch cfg probe res ls)) results ls)"
    by (induction results arbitrary: ls) (auto, meson order_trans)
next
  fix res
  show "after_fetch cfg probe (Inr res) ls = after_fetch cfg probe (Inr res) (ls\<lparr>consecutive_db_errors := 0\<rparr>)"
    by (simp add: after_fetch_def Let_def)
next
  assume a: "(\<forall>x \<in> set results. snd x = Inl DbConnection) \<and> results \<noteq> []"
  have count: "unat (consecutive_db_errors (fold (\<lambda>(probe, res) ls. snd (after_fetch cfg probe res ls)) rs ls)) =
      unat (consecutive_db_errors ls) + length rs"
    if "\<forall>x \<in> set rs. snd x = Inl DbConnection" "unat (consecutive_db_errors ls) + length rs < 2 ^ 32" for rs ls
    using that
  proof (induction rs arbitrary: ls)
    case (Cons x rs)
    have "unat (consecutive_db_errors ls + 1) = unat (consecutive_db_errors ls) + 1"
      using Cons.prems(2) by (intro unat_Suc_word) simp
    then show ?case
      using Cons by (cases x) (simp add: after_fetch_def Let_def)
  qed simp
  let ?ls = "fold (\<lambda>(probe, res) ls. snd (after_fetch cfg probe res ls)) (tl results) ls"
  have n: "unat (consecutive_db_errors ?ls) = unat (consecutive_db_errors ls) + (length results - 1)"
    using count [of "tl results" ls] a assms by (cases results) auto
  then have "unat (consecutive_db_errors ?ls + 1) = unat (consecutive_db_errors ls) + length results"
    using a assms by (cases results) (simp_all add: unat_Suc_word)
  then show "fst (after_fetch cfg probe (Inl DbConnection) ?ls) =
      (if unat (consecutive_db_errors ls) + length results \<ge> 5 then 60000 else 10000)"
    by (simp add: after_fetch_def Let_def word_le_nat_alt)
qed

text \<open>
  The lag of a busy cycle is never recorded: after a cycle that moved forward, the current ledger
  is one past the latest ledger of the response, so the comparison that guards the lag metrics and
  the shared \<open>latest_ledger\<close> is false (short of wrap-around).
\<close>

lemma lag_branch_dead:
  assumes "fst (fetch_and_store_events ops cfg ext start os w) = Some (Inr res)" and "next_ledger res > start"
    and "fetched_latest res \<noteq> - 1"
  shows "\<not> fetched_latest res > next_ledger res"
proof -
  have "next_ledger res = fetched_latest res + 1"
    using fetch_loop_result assms unfolding fetch_and_store_events_def by (metis order_less_irrefl)
  then show ?thesis
    using word_less_inc [OF assms(3)] by simp
qed

section \<open>The lock key\<close>

lemma odd_mult_inject:
  assumes "(a :: u64) * 0x100000001b3 = b * 0x100000001b3"
  shows "a = b"
proof -
  have "a * 0x100000001b3 * 0xce965057aff6957b = b * 0x100000001b3 * 0xce965057aff6957b"
    using assms by (rule arg_cong)
  moreover have "(0x100000001b3 :: u64) * 0xce965057aff6957b = 1" by simp
  ultimately show ?thesis by (simp only: mult.assoc mult_1_right)
qed

lemma fnv_step_inject: "fnv_step c h = fnv_step c h' \<longleftrightarrow> h = h'"
  by (auto simp: fnv_step_def xor_cancel dest!: odd_mult_inject)

lemma fnv_step_char: "fnv_step c h = fnv_step d h \<longleftrightarrow> c = d"
  using xor_cancel [of "of_char c" h "of_char d"]
  by (auto simp: fnv_step_def xor.commute u64_of_char_inj dest!: odd_mult_inject)

lemma fold_fnv_inject: "fold fnv_step cs h = fold fnv_step cs h' \<longleftrightarrow> h = h'"
  by (induction cs arbitrary: h h') (simp_all add: fnv_step_inject)

text \<open>Networks whose names differ in one character, apart from \<open>mainnet\<close>, never share a lock.\<close>

lemma lock_keys_distinct:
  assumes "a @ c # b \<noteq> ''mainnet''" and "a @ d # b \<noteq> ''mainnet''"
  shows "lock_key_for_chain (a @ c # b) = lock_key_for_chain (a @ d # b) \<longleftrightarrow> c = d"
  using assms by (simp add: lock_key_for_chain_def xor_cancel fold_fnv_inject fnv_step_char)

section \<open>Examples\<close>

definition example_cfg :: indexer_config where
  "example_cfg = \<lparr>start_ledger = 0, indexer_ignore_checkpoint = False, rpc_max_events_per_page = 100,
     multi_tenant = False, indexer_tenant_id = None, tenant_contract_filter = Map.empty,
     dedup = DedupConfig_default, max_event_data_bytes = 1000, chain_id = ''testnet'',
     indexer_poll_interval_ms = 5000, indexer_error_backoff_ms = 10000\<rparr>"

definition example_ext :: "(unit, unit) externals" where
  "example_ext = \<lparr>scval_from_value = (\<lambda>v. Some ()), parse_from_rfc3339 = (\<lambda>s. Some 0), sha256_hex = (\<lambda>s. s),
     json_to_string = (\<lambda>v. ''{}''), derive_columns = (\<lambda>e v. ())\<rparr>"

definition example_world :: "(string list, unit) world" where
  "example_world = \<lparr>db = \<lparr>events_tbl = Map.empty, checkpoint = Some ''c0'', ledger_state = None\<rparr>, session_bloom = None,
     bloom_filter = Some \<lparr>bf_inner = [], bf_previous = None, bf_capacity = 100, fp_rate = 1 / 128, fill_ratio_threshold = 1,
       insert_count = 0, rotation_count = 0, contract_filter = [], known_contracts = {}\<rparr>,
     event_tx = True, ring = None, sent = [], requests = []\<rparr>"

definition example_event :: SorobanEvent where
  "example_event = sample_event\<lparr>contract_id := replicate 56 (CHR ''C''), tx_hash := replicate 64 (CHR ''a'')\<rparr>"

definition example_page :: GetEventsResult where
  "example_page = \<lparr>events = [example_event], latest_ledger = 7, rpc_cursor = None, protocol_version = None\<rparr>"

definition good_env :: page_env where
  "good_env = \<lparr>begin_ok = True, event_envs = (\<lambda>i. \<lparr>dedup_query_ok = True, insert_ok = True, env_now = 0, fresh_id = i\<rparr>),
     checkpoint_ok = True, state_ok = True, commit_ok = True\<rparr>"

definition zero_totals :: cycle_totals where
  "zero_totals = \<lparr>total_inserted = 0, total_skipped_duplicate = 0, total_skipped_out_of_order = 0\<rparr>"

lemma good_env_fault_free: "fault_free good_env"
  by (simp add: fault_free_def good_env_def)





theorem store_page_atomic_witness:
  "fst (store_page exact_bloom example_cfg example_ext 5 None good_env example_page zero_totals example_world) \<and>
   ledger_state (db (snd (snd (store_page exact_bloom example_cfg example_ext 5 None good_env example_page zero_totals example_world))))
     = Some (5, 7)"
proof -
  obtain ok tot' w' where p: "store_page exact_bloom example_cfg example_ext 5 None good_env example_page zero_totals example_world
      = (ok, tot', w')"
    by (cases "store_page exact_bloom example_cfg example_ext 5 None good_env example_page zero_totals example_world")
  have "rpc_cursor example_page = None" "latest_ledger example_page = 7"
    by (simp_all add: example_page_def)
  with store_page_atomic [OF p] good_env_fault_free show ?thesis
    by (simp add: p page_committed_def)
qed

theorem fetch_cycle_safe_witness:
  "\<exists>res. fst (fetch_and_store_events exact_bloom example_cfg example_ext 5
      [RpcPage (example_page\<lparr>events := []\<rparr>) good_env] example_world) = Some (Inr res) \<and> next_ledger res = 8"
proof -
  let ?r = "fst (fetch_and_store_events exact_bloom example_cfg example_ext 5
      [RpcPage (example_page\<lparr>events := []\<rparr>) good_env] example_world)"
  have r: "?r = Some (Inr \<lparr>next_ledger = 8, fetched_latest = 7\<rparr>)"
    by (simp add: fetch_and_store_events_def store_page_def example_page_def good_env_def Let_def commit_def)
  with fetch_cycle_safe [of example_cfg example_ext 5 example_world exact_bloom
      "[RpcPage (example_page\<lparr>events := []\<rparr>) good_env]"]
  have "next_ledger \<lparr>next_ledger = 8, fetched_latest = 7\<rparr> = (8 :: u64)"
    by (elim conjE allE [of _ "\<lparr>next_ledger = 8, fetched_latest = 7\<rparr>"]) simp
  with r show ?thesis by blast
qed

theorem cursor_expiry_falls_back_witness:
  "requests (snd (fetch_and_store_events exact_bloom example_cfg example_ext 5
     (map RpcErr (replicate 6 ''cursor expired'')) example_world)) = replicate 6 (5, Some ''c0'') @ [(5, None)]"
proof -
  have "is_cursor_expiry_error ''cursor expired''"
    by (simp add: is_cursor_expiry_error_iff to_ascii_lowercase_def ascii_lower_def starts_with_def)
  then have "\<exists>b. retry_count b = 0 \<and> fetch_and_store_events exact_bloom example_cfg example_ext 5
      (map RpcErr (replicate 6 ''cursor expired'') @ []) example_world =
      fetch_loop exact_bloom example_cfg example_ext 5 [] None b zero_totals
        (example_world\<lparr>requests := requests example_world @ replicate 6 (5, Some ''c0'')\<rparr>)"
    using cursor_expiry_falls_back [of "replicate 6 ''cursor expired''" exact_bloom example_cfg example_ext 5 "[]" example_world]
    by (simp add: example_cfg_def example_world_def zero_totals_def)
  then show ?thesis
    by (auto simp: example_world_def)
qed

theorem poll_loop_progress_witness:
  "fst (after_fetch example_cfg (Inl []) (Inl DbConnection)
     (fold (\<lambda>(probe, res) ls. snd (after_fetch example_cfg probe res ls)) (replicate 4 (Inl [], Inl DbConnection))
        \<lparr>cur_ledger = 5, consecutive_db_errors = 0, shared = None\<rparr>)) = 60000"
  using poll_loop_progress [of "\<lparr>cur_ledger = 5, consecutive_db_errors = 0, shared = None\<rparr>"
      "replicate 5 (Inl [], Inl DbConnection)" example_cfg "Inl []"]
  by simp

section \<open>Events lost after a failed commit\<close>

text \<open>
  The event filter is updated and subscribers are served while the transaction is still open. When
  the commit then fails, the filter reports the events of the page although they are not stored,
  and the next poll, which fetches them again, skips them.
\<close>

lemma filter_set_check: "bloom_laws ops \<Longrightarrow> filter_check ops tx cid et (filter_set ops tx cid et f)"
  by (auto simp: filter_set_def maybe_rotate_def filter_check_def bloom_laws_def Let_def split: sum.split)

lemma store_event_hit: "session_bloom w = None \<Longrightarrow> bloom_hit ops e w \<Longrightarrow> store_event_in_tx ops cfg ext env e w tx = (Inr 0, w, tx)"
  by (simp add: store_event_in_tx_def session_hit_def)

lemma commit_failure_loses_event:
  fixes w :: "('b, 'd) world"
  assumes laws: "bloom_laws ops" and w: "session_bloom w = None" "bloom_filter w = Some f" "\<not> bloom_hit ops e w"
    and new: "event_key e \<notin> dom (events_tbl (db w))" and acc: "acceptable cfg ext e" and e: "start \<le> ledger e" "events r = [e]"
    and cfg: "\<not> enable_content_dedup (dedup cfg)" "0 < rpc_max_events_per_page cfg"
    and env: "fault_free (env\<lparr>commit_ok := True\<rparr>)" "\<not> commit_ok env" and env': "fault_free env'"
  shows "let (ok, tot1, w1) = store_page ops cfg ext start cursor env r tot w;
             (ok2, tot2, w2) = store_page ops cfg ext start cursor env' r tot w1
    in \<not> ok \<and> ok2 \<and> length (sent w1) = length (sent w) + (if event_tx w then 1 else 0) \<and>
       event_key e \<notin> dom (events_tbl (db w2))"
proof -
  obtain ts where ts: "parse_from_rfc3339 ext (ledger_closed_at e) = Some ts"
    using acc by (auto simp: acceptable_def)
  have one: "take (rpc_max_events_per_page cfg) [e] = [e]"
    using cfg(2) by (cases "rpc_max_events_per_page cfg") auto
  have nl: "\<not> ledger e < start"
    using e(1) by auto
  let ?w1 = "broadcast cfg (event_envs env 0) e (bloom_record ops e w)"
  have "\<exists>tx'. store_event_in_tx ops cfg ext (event_envs env 0) e w \<lparr>tx_db = db w, aborted = False\<rparr> = (Inr 1, bloom_record ops e w, tx')"
    using w acc ts cfg(1) env(1) new
    by (auto simp: store_event_in_tx_def session_hit_def acceptable_def content_duplicate_def fault_free_def
        tx_insert_def insert_event_def row_of_event_def)
  then have 1: "\<exists>tot1. store_page ops cfg ext start cursor env r tot w = (False, tot1, ?w1)"
    using env nl one e(2) by (auto simp: store_page_def Let_def process_event_def fault_free_def commit_def)
  define v where "v = ?w1"
  have v: "bloom_hit ops e v" "session_bloom v = None" "db v = db w"
    unfolding v_def using w filter_set_check [OF laws] by (simp_all add: bloom_hit_def bloom_record_def broadcast_log)
  note hit = store_event_hit [OF v(2,1), of cfg ext]
  have "\<exists>tot2 w2. store_page ops cfg ext start cursor env' r tot v = (True, tot2, w2) \<and> events_tbl (db w2) = events_tbl (db w)"
    using env' nl one e(2) v(3)
    by (cases "rpc_cursor r"; cases cursor)
       (simp_all add: store_page_def Let_def process_event_def fault_free_def commit_def tx_update_cases save_checkpoint_def
        save_indexer_state_def hit)
  moreover have "length (sent ?w1) = length (sent w) + (if event_tx w then 1 else 0)"
    using w(2) by (auto simp: broadcast_def bloom_record_def Let_def split: option.split)
  ultimately show ?thesis
    using 1 new unfolding v_def by auto
qed

end
