(* ===== verification/Event_Router.thy ===== *)
theory Event_Router
  imports Event_Model F64
begin

text \<open>
  Model of \<open>src/event_router.rs\<close>: routing rules, the token bucket of a destination, batching, and
  delivery with retries and a dead-letter queue. A destination's sink is a parameter: the outcome
  of each publish attempt and the time it took. The clock is a parameter in nanoseconds. The
  iteration order of the hash map of destinations is a parameter of \<open>route\<close>.
\<close>

section \<open>Routing rules\<close>

datatype RouteMatcher =
  MatchAll | ContractId "string list" | EventTypes "string list" | MinLedger u32
| AllOf "RouteMatcher list" | AnyOf "RouteMatcher list"

fun matches :: "RouteMatcher \<Rightarrow> SorobanEvent \<Rightarrow> bool" where
  "matches MatchAll e \<longleftrightarrow> True"
| "matches (ContractId ids) e \<longleftrightarrow> list_ex (\<lambda>i. i = contract_id e) ids"
| "matches (EventTypes types) e \<longleftrightarrow> list_ex (\<lambda>t. t = event_type e) types"
| "matches (MinLedger lo) e \<longleftrightarrow> ledger e \<ge> ucast lo"
| "matches (AllOf ms) e \<longleftrightarrow> list_all (\<lambda>m. matches m e) ms"
| "matches (AnyOf ms) e \<longleftrightarrow> list_ex (\<lambda>m. matches m e) ms"

record RoutingRule =
  destination :: string
  matcher :: RouteMatcher
  rule_topic :: "string option"
  enabled :: bool

definition rule_new :: "string \<Rightarrow> RouteMatcher \<Rightarrow> RoutingRule" where
  "rule_new d m = \<lparr>destination = d, matcher = m, rule_topic = None, enabled = True\<rparr>"

definition with_topic :: "string \<Rightarrow> RoutingRule \<Rightarrow> RoutingRule" where
  "with_topic t r = r\<lparr>rule_topic := Some t\<rparr>"

fun resolve_loop :: "RoutingRule list \<Rightarrow> SorobanEvent \<Rightarrow> string list \<Rightarrow> string list" where
  "resolve_loop [] e seen = seen"
| "resolve_loop (r # rs) e seen =
     resolve_loop rs e (if matches (matcher r) e \<and> destination r \<notin> set seen then seen @ [destination r] else seen)"

definition resolve_destinations :: "RoutingRule list \<Rightarrow> SorobanEvent \<Rightarrow> string list" where
  "resolve_destinations rules e = resolve_loop (filter enabled rules) e []"

fun find_map :: "('a \<Rightarrow> 'b option) \<Rightarrow> 'a list \<Rightarrow> 'b option" where
  "find_map f [] = None"
| "find_map f (x # xs) = (case f x of Some y \<Rightarrow> Some y | None \<Rightarrow> find_map f xs)"

definition resolve_topic :: "RoutingRule list \<Rightarrow> string \<Rightarrow> SorobanEvent \<Rightarrow> string \<Rightarrow> string" where
  "resolve_topic rules d e default_topic =
     (case find_map rule_topic (filter (\<lambda>r. enabled r \<and> destination r = d \<and> matches (matcher r) e) rules) of
        Some t \<Rightarrow> t | None \<Rightarrow> default_topic)"

section \<open>Rate limiting\<close>

record RateLimiter =
  bucket_capacity :: f64
  tokens :: f64
  refill_per_sec :: f64
  last_refill :: int

definition limiter_new :: "int \<Rightarrow> f64 \<Rightarrow> f64 \<Rightarrow> RateLimiter" where
  "limiter_new now cap rate = \<lparr>bucket_capacity = cap, tokens = cap, refill_per_sec = rate, last_refill = now\<rparr>"

text \<open>\<open>Duration::as_secs_f64\<close>.\<close>

definition as_secs_f64 :: "int \<Rightarrow> f64" where
  "as_secs_f64 ns = f64_add (f64_of_nat (nat ns div 10 ^ 9)) (f64_div (f64_of_nat (nat ns mod 10 ^ 9)) (10 ^ 9))"

definition try_acquire :: "int \<Rightarrow> f64 \<Rightarrow> RateLimiter \<Rightarrow> bool \<times> RateLimiter" where
  "try_acquire now n l =
     (let elapsed = as_secs_f64 (now - last_refill l);
          t = min (f64_add (tokens l) (f64_mul elapsed (refill_per_sec l))) (bucket_capacity l);
          l1 = l\<lparr>tokens := t, last_refill := now\<rparr>
      in if t \<ge> n then (True, l1\<lparr>tokens := f64_sub t n\<rparr>) else (False, l1))"

section \<open>Delivery\<close>

datatype DeliveryStatus = Delivered | Retrying | DeadLettered | Throttled

record DestinationMetrics =
  published :: u64
  failed :: u64
  retried :: u64
  dead_lettered :: u64
  throttled :: u64
  total_latency_ms :: u64
  batches :: u64
  healthy :: bool

definition avg_latency_ms :: "DestinationMetrics \<Rightarrow> f64" where
  "avg_latency_ms m =
     (if batches m = 0 then 0
      else f64_div (f64_of_nat (unat (total_latency_ms m))) (f64_of_nat (unat (batches m))))"

record DeliveryBatch =
  batch_events :: "SorobanEvent list"
  idempotency_keys :: "string list"

record RouterConfig =
  max_batch_size :: nat
  router_max_retries :: nat
  retry_backoff_base_ms :: u64
  rate_limit_per_sec :: f64

definition RouterConfig_default :: RouterConfig where
  "RouterConfig_default = \<lparr>max_batch_size = 100, router_max_retries = 3, retry_backoff_base_ms = 100, rate_limit_per_sec = 1000\<rparr>"

text \<open>
  What the world did with a batch: the outcome of each publish attempt with its duration in
  milliseconds, and whether the dead-letter sink, if there is one, accepted it.
\<close>

record delivery_env =
  env_clock :: int
  attempt_outcome :: "nat \<Rightarrow> string + nat"
  park_outcome :: "bool option"

record Destination =
  metrics :: DestinationMetrics
  limiter :: RateLimiter
  received :: "DeliveryBatch list"
  parked :: "DeliveryBatch list"

definition idempotency_key :: "SorobanEvent \<Rightarrow> string" where
  "idempotency_key e = tx_hash e @ '':'' @ contract_id e @ '':'' @ show_nat (unat (ledger e))"

text \<open>The attempts, from number \<open>a\<close> on with \<open>left\<close> retries left; the waits are in milliseconds.\<close>

fun publish_attempts ::
  "RouterConfig \<Rightarrow> delivery_env \<Rightarrow> DeliveryBatch \<Rightarrow> nat \<Rightarrow> nat \<Rightarrow> Destination \<Rightarrow> bool \<times> u64 list \<times> Destination" where
  "publish_attempts cfg env b a left d =
     (let n = of_nat (length (batch_events b)) :: u64; m = metrics d
      in case attempt_outcome env a of
           Inr ms \<Rightarrow>
             (True, [], d\<lparr>metrics := m\<lparr>published := published m + n,
                total_latency_ms := total_latency_ms m + of_nat ms, batches := batches m + 1, healthy := True\<rparr>,
                received := received d @ [b]\<rparr>)
         | Inl _ \<Rightarrow>
             (let d1 = d\<lparr>metrics := m\<lparr>failed := failed m + n\<rparr>\<rparr>
              in case left of
                   0 \<Rightarrow> (False, [], d1)
                 | Suc left' \<Rightarrow>
                     (let (ok, waits, d2) = publish_attempts cfg env b (a + 1) left'
                            (d1\<lparr>metrics := (metrics d1)\<lparr>retried := retried (metrics d1) + 1\<rparr>\<rparr>)
                      in (ok, retry_backoff_base_ms cfg * 2 ^ a # waits, d2))))"

declare publish_attempts.simps [simp del]

definition deliver :: "RouterConfig \<Rightarrow> delivery_env \<Rightarrow> DeliveryBatch \<Rightarrow> Destination \<Rightarrow> DeliveryStatus \<times> Destination" where
  "deliver cfg env b d =
     (let n = length (batch_events b); (ok, l) = try_acquire (env_clock env) (f64_of_nat n) (limiter d);
          d0 = d\<lparr>limiter := l\<rparr>
      in if \<not> ok then (Throttled, d0\<lparr>metrics := (metrics d0)\<lparr>throttled := throttled (metrics d0) + of_nat n\<rparr>\<rparr>)
         else let (sent, waits, d1) = publish_attempts cfg env b 0 (router_max_retries cfg) d0
              in if sent then (Delivered, d1)
                 else let d2 = d1\<lparr>metrics := (metrics d1)\<lparr>healthy := False\<rparr>\<rparr>
                      in case park_outcome env of
                           Some True \<Rightarrow> (DeadLettered,
                             d2\<lparr>metrics := (metrics d2)\<lparr>dead_lettered := dead_lettered (metrics d2) + of_nat n\<rparr>,
                                parked := parked d2 @ [b]\<rparr>)
                         | _ \<Rightarrow> (Retrying, d2))"

section \<open>The router\<close>

record EventRouter =
  destinations :: "string \<rightharpoonup> Destination"
  rules :: "RoutingRule list"
  router_config :: RouterConfig

definition register :: "int \<Rightarrow> string \<Rightarrow> EventRouter \<Rightarrow> EventRouter" where
  "register now name r =
     r\<lparr>destinations := (destinations r)(name \<mapsto>
        \<lparr>metrics = \<lparr>published = 0, failed = 0, retried = 0, dead_lettered = 0, throttled = 0, total_latency_ms = 0,
                    batches = 0, healthy = True\<rparr>,
         limiter = limiter_new now (rate_limit_per_sec (router_config r)) (rate_limit_per_sec (router_config r)),
         received = [], parked = []\<rparr>)\<rparr>"

definition add_rule :: "RoutingRule \<Rightarrow> EventRouter \<Rightarrow> EventRouter" where
  "add_rule rule r = r\<lparr>rules := rules r @ [rule]\<rparr>"

text \<open>\<open>slice::chunks\<close>, for a positive chunk size.\<close>

function chunks :: "nat \<Rightarrow> 'a list \<Rightarrow> 'a list list" where
  "chunks n xs = (if xs = [] \<or> n = 0 then [] else take n xs # chunks n (drop n xs))"
  by pat_completeness auto
termination
  by (relation "measure (\<lambda>(n, xs). length xs)") auto

declare chunks.simps [simp del]

definition batch :: "RouterConfig \<Rightarrow> SorobanEvent list \<Rightarrow> DeliveryBatch list" where
  "batch cfg es =
     map (\<lambda>chunk. \<lparr>batch_events = chunk, idempotency_keys = map idempotency_key chunk\<rparr>)
       (chunks (max (max_batch_size cfg) 1) es)"

definition group_push :: "SorobanEvent \<Rightarrow> string \<Rightarrow> (string \<rightharpoonup> SorobanEvent list) \<Rightarrow> (string \<rightharpoonup> SorobanEvent list)" where
  "group_push e d g = g(d \<mapsto> (case g d of None \<Rightarrow> [] | Some es \<Rightarrow> es) @ [e])"

definition partition_by_destination :: "RoutingRule list \<Rightarrow> SorobanEvent list \<Rightarrow> (string \<rightharpoonup> SorobanEvent list)" where
  "partition_by_destination rs es =
     fold (\<lambda>e g. fold (group_push e) (resolve_destinations rs e) g) es Map.empty"

fun deliver_batches ::
  "RouterConfig \<Rightarrow> (nat \<Rightarrow> delivery_env) \<Rightarrow> nat \<Rightarrow> DeliveryBatch list \<Rightarrow> DeliveryStatus \<Rightarrow> Destination \<Rightarrow> DeliveryStatus \<times> Destination" where
  "deliver_batches cfg envs i [] status d = (status, d)"
| "deliver_batches cfg envs i (b # bs) status d =
     (let (s, d') = deliver cfg (envs i) b d
      in deliver_batches cfg envs (i + 1) bs (if s \<noteq> Delivered then s else status) d')"

text \<open>
  \<open>order\<close> enumerates the routed destinations, \<open>envs\<close> gives the environment of every batch of every
  destination.
\<close>

fun route_loop ::
  "(string \<Rightarrow> nat \<Rightarrow> delivery_env) \<Rightarrow> (string \<rightharpoonup> SorobanEvent list) \<Rightarrow> string list \<Rightarrow> EventRouter \<Rightarrow>
   (string \<rightharpoonup> DeliveryStatus) \<Rightarrow> (string \<rightharpoonup> DeliveryStatus) \<times> EventRouter" where
  "route_loop envs groups [] r outcomes = (outcomes, r)"
| "route_loop envs groups (name # names) r outcomes =
     (case (groups name, destinations r name) of
        (Some routed, Some target) \<Rightarrow>
          (let (s, d) = deliver_batches (router_config r) (envs name) 0 (batch (router_config r) routed) Delivered target
           in route_loop envs groups names (r\<lparr>destinations := (destinations r)(name \<mapsto> d)\<rparr>) (outcomes(name \<mapsto> s)))
      | _ \<Rightarrow> route_loop envs groups names r outcomes)"

definition route ::
  "(string \<Rightarrow> nat \<Rightarrow> delivery_env) \<Rightarrow> string list \<Rightarrow> SorobanEvent list \<Rightarrow> EventRouter \<Rightarrow> (string \<rightharpoonup> DeliveryStatus) \<times> EventRouter" where
  "route envs order es r = route_loop envs (partition_by_destination (rules r) es) order r Map.empty"

definition failing_destination :: "f64 \<Rightarrow> DestinationMetrics \<Rightarrow> bool" where
  "failing_destination threshold m \<longleftrightarrow>
     (let total = published m + failed m
      in total > 0 \<and> f64_div (f64_of_nat (unat (failed m))) (f64_of_nat (unat total)) > threshold)"

section \<open>Facts\<close>

lemma resolve_loop_spec:
  "distinct seen \<Longrightarrow> distinct (resolve_loop rs e seen) \<and>
   set (resolve_loop rs e seen) = set seen \<union> {destination r | r. r \<in> set rs \<and> matches (matcher r) e}"
  by (induction rs e seen rule: resolve_loop.induct) auto

lemma resolve_destinations_spec:
  "distinct (resolve_destinations rs e) \<and>
   set (resolve_destinations rs e) = {destination r | r. r \<in> set rs \<and> enabled r \<and> matches (matcher r) e}"
  using resolve_loop_spec [of "[]" "filter enabled rs" e] by (auto simp: resolve_destinations_def)

lemma fold_group_push:
  "distinct ds \<Longrightarrow> fold (group_push e) ds g d = (if d \<in> set ds then Some ((case g d of None \<Rightarrow> [] | Some es \<Rightarrow> es) @ [e]) else g d)"
  by (induction ds arbitrary: g) (auto simp: group_push_def)

definition routed_to :: "RoutingRule list \<Rightarrow> string \<Rightarrow> SorobanEvent list \<Rightarrow> SorobanEvent list" where
  "routed_to rs d es = filter (\<lambda>e. \<exists>r \<in> set rs. enabled r \<and> destination r = d \<and> matches (matcher r) e) es"

lemma fold_partition:
  "fold (\<lambda>e g. fold (group_push e) (resolve_destinations rs e) g) es g d =
     (if routed_to rs d es = [] then g d
      else Some ((case g d of None \<Rightarrow> [] | Some xs \<Rightarrow> xs) @ routed_to rs d es))"
proof (induction es arbitrary: g)
  case (Cons e es)
  have "d \<in> set (resolve_destinations rs e) \<longleftrightarrow> (\<exists>r \<in> set rs. enabled r \<and> destination r = d \<and> matches (matcher r) e)"
    using resolve_destinations_spec [of rs e] by auto
  then show ?case
    using Cons resolve_destinations_spec [of rs e]
    by (auto simp: fold_group_push routed_to_def split: option.split)
qed (simp add: routed_to_def)

lemma partition_spec:
  "partition_by_destination rs es d = (if routed_to rs d es = [] then None else Some (routed_to rs d es))"
  by (simp add: partition_by_destination_def fold_partition)

lemma concat_chunks: "0 < n \<Longrightarrow> concat (chunks n xs) = xs"
proof (induction n xs rule: chunks.induct)
  case (1 n xs)
  then show ?case by (subst chunks.simps) auto
qed

lemma chunks_size: "c \<in> set (chunks n xs) \<Longrightarrow> 0 < length c \<and> length c \<le> n"
proof (induction n xs rule: chunks.induct)
  case (1 n xs)
  then show ?case
    by (subst (asm) (2) chunks.simps) (auto split: if_splits)
qed

text \<open>The publish attempts deliver exactly when one of the allowed attempts succeeds.\<close>

lemma publish_attempts_spec:
  assumes "publish_attempts cfg env b a left d = (ok, waits, d')"
  shows "(ok \<longleftrightarrow> (\<exists>i. a \<le> i \<and> i \<le> a + left \<and> \<not> isl (attempt_outcome env i))) \<and>
    received d' = received d @ (if ok then [b] else []) \<and> parked d' = parked d \<and> limiter d' = limiter d \<and>
    published (metrics d') = published (metrics d) + (if ok then of_nat (length (batch_events b)) else 0) \<and>
    throttled (metrics d') = throttled (metrics d) \<and> dead_lettered (metrics d') = dead_lettered (metrics d) \<and>
    length waits \<le> left"
  using assms
proof (induction cfg env b a left d arbitrary: ok waits d' rule: publish_attempts.induct)
  case (1 cfg env b a left d)
  show ?case
  proof (cases "attempt_outcome env a")
    case (Inr ms)
    then show ?thesis
      using "1.prems" by (subst (asm) publish_attempts.simps) (auto simp: Let_def intro!: exI [of _ a])
  next
    case (Inl err)
    have range: "(\<exists>i. a \<le> i \<and> i \<le> a + Suc l \<and> \<not> isl (attempt_outcome env i)) \<longleftrightarrow>
        (\<exists>i. a + 1 \<le> i \<and> i \<le> a + 1 + l \<and> \<not> isl (attempt_outcome env i))" for l
      using Inl by (metis Suc_eq_plus1 add_Suc_shift isl_def le_SucI le_antisym not_less_eq_eq sum.disc(1))
    show ?thesis
    proof (cases left)
      case 0
      then show ?thesis
        using "1.prems" Inl by (subst (asm) publish_attempts.simps) (auto simp: Let_def le_antisym)
    next
      case (Suc l)
      let ?d1 = "d\<lparr>metrics := (metrics d)\<lparr>failed := failed (metrics d) + of_nat (length (batch_events b))\<rparr>\<rparr>"
      let ?d2 = "?d1\<lparr>metrics := (metrics ?d1)\<lparr>retried := retried (metrics ?d1) + 1\<rparr>\<rparr>"
      obtain ok1 w1 d1 where r: "publish_attempts cfg env b (a + 1) l ?d2 = (ok1, w1, d1)"
        by (cases "publish_attempts cfg env b (a + 1) l ?d2")
      have "ok = ok1" "d' = d1" "waits = retry_backoff_base_ms cfg * 2 ^ a # w1"
        using "1.prems" Inl Suc r by (subst (asm) publish_attempts.simps, auto simp: Let_def)+
      then show ?thesis
        using "1.IH" [OF refl refl Inl refl Suc r] Suc range [of l] by auto
    qed
  qed
qed

text \<open>The batches that ended with a given status.\<close>

definition with_status :: "DeliveryStatus \<Rightarrow> DeliveryBatch list \<Rightarrow> DeliveryStatus list \<Rightarrow> DeliveryBatch list" where
  "with_status s bs ss = map fst (filter (\<lambda>(b, s'). s' = s) (zip bs ss))"

definition event_count :: "DeliveryBatch list \<Rightarrow> u64" where
  "event_count bs = of_nat (sum_list (map (\<lambda>b. length (batch_events b)) bs))"

definition accounted :: "DeliveryBatch list \<Rightarrow> DeliveryStatus list \<Rightarrow> Destination \<Rightarrow> Destination \<Rightarrow> bool" where
  "accounted bs ss d d' \<longleftrightarrow> length ss = length bs \<and>
     received d' = received d @ with_status Delivered bs ss \<and>
     parked d' = parked d @ with_status DeadLettered bs ss \<and>
     published (metrics d') = published (metrics d) + event_count (with_status Delivered bs ss) \<and>
     dead_lettered (metrics d') = dead_lettered (metrics d) + event_count (with_status DeadLettered bs ss) \<and>
     throttled (metrics d') = throttled (metrics d) + event_count (with_status Throttled bs ss)"

lemma with_status_Cons [simp]:
  "with_status s (b # bs) (s' # ss) = (if s' = s then b # with_status s bs ss else with_status s bs ss)"
  by (simp add: with_status_def)

lemma with_status_Nil [simp]: "with_status s [] ss = []"
  by (simp add: with_status_def)

lemma event_count_Cons [simp]: "event_count (b # bs) = of_nat (length (batch_events b)) + event_count bs"
  by (simp add: event_count_def)

lemma event_count_Nil [simp]: "event_count [] = 0"
  by (simp add: event_count_def)

lemma deliver_accounted: "deliver cfg env b d = (s, d') \<Longrightarrow> accounted [b] [s] d d'"
proof -
  assume del: "deliver cfg env b d = (s, d')"
  obtain ok l where a: "try_acquire (env_clock env) (f64_of_nat (length (batch_events b))) (limiter d) = (ok, l)"
    by (cases "try_acquire (env_clock env) (f64_of_nat (length (batch_events b))) (limiter d)")
  obtain sn waits d1 where p: "publish_attempts cfg env b 0 (router_max_retries cfg) (d\<lparr>limiter := l\<rparr>) = (sn, waits, d1)"
    by (cases "publish_attempts cfg env b 0 (router_max_retries cfg) (d\<lparr>limiter := l\<rparr>)")
  show ?thesis
    using del publish_attempts_spec [OF p]
    by (auto simp: deliver_def Let_def a p accounted_def split: if_splits option.splits bool.splits)
qed

lemma deliver_batches_accounted:
  "deliver_batches cfg envs i bs st d = (s, d') \<Longrightarrow>
   \<exists>ss. accounted bs ss d d' \<and> (st = Delivered \<longrightarrow> (s = Delivered \<longleftrightarrow> set ss \<subseteq> {Delivered})) \<and>
     (st \<noteq> Delivered \<longrightarrow> s \<noteq> Delivered)"
proof (induction bs arbitrary: i st d)
  case Nil
  then show ?case by (auto simp: accounted_def intro!: exI [of _ "[]"])
next
  case (Cons b bs)
  obtain s1 d1 where del: "deliver cfg (envs i) b d = (s1, d1)"
    by (cases "deliver cfg (envs i) b d")
  obtain ss where "accounted bs ss d1 d'"
    "(if s1 \<noteq> Delivered then s1 else st) = Delivered \<longrightarrow> (s = Delivered \<longleftrightarrow> set ss \<subseteq> {Delivered})"
    "(if s1 \<noteq> Delivered then s1 else st) \<noteq> Delivered \<longrightarrow> s \<noteq> Delivered"
    using Cons.IH [of "i + 1" "if s1 \<noteq> Delivered then s1 else st" d1] Cons.prems del by auto
  then show ?case
    using deliver_accounted [OF del]
    by (intro exI [of _ "s1 # ss"]) (auto simp: accounted_def add.assoc split: if_splits)
qed

lemma route_loop_other:
  "name \<notin> set names \<Longrightarrow> destinations (snd (route_loop envs g names r out)) name = destinations r name \<and>
     fst (route_loop envs g names r out) name = out name"
  by (induction envs g names r out rule: route_loop.induct)
     (auto simp: Let_def split: option.split prod.split)

lemma route_loop_self:
  assumes "name \<in> set names" "distinct names" "g name = Some routed" "destinations r name = Some target"
  shows "\<exists>s d'. deliver_batches (router_config r) (envs name) 0 (batch (router_config r) routed) Delivered target = (s, d') \<and>
    destinations (snd (route_loop envs g names r out)) name = Some d' \<and> fst (route_loop envs g names r out) name = Some s"
  using assms
proof (induction names arbitrary: r out)
  case (Cons n names)
  show ?case
  proof (cases "n = name")
    case True
    then show ?thesis
      using Cons.prems by (auto simp: Let_def route_loop_other split: prod.split)
  next
    case False
    have step: "\<exists>s d'. deliver_batches (router_config r) (envs name) 0 (batch (router_config r) routed) Delivered target = (s, d') \<and>
        destinations (snd (route_loop envs g names (r\<lparr>destinations := (destinations r)(n \<mapsto> d)\<rparr>) out')) name = Some d' \<and>
        fst (route_loop envs g names (r\<lparr>destinations := (destinations r)(n \<mapsto> d)\<rparr>) out') name = Some s" for d out'
      using Cons.IH [of "r\<lparr>destinations := (destinations r)(n \<mapsto> d)\<rparr>" out'] Cons.prems False by simp
    show ?thesis
      using Cons.IH [of r out] Cons.prems False step
      by (cases "g n"; cases "destinations r n") (simp_all add: Let_def case_prod_beta)
  qed
qed simp

section \<open>Properties\<close>

text \<open>
  Every routed event is in exactly one batch per destination. A destination gets the events
  that some enabled rule for it matches, in their order and each once however many rules match;
  the batches are non-empty, within the configured size, concatenate to exactly those events, and
  carry one idempotency key per event in order.
\<close>

theorem routing_exact:
  "partition_by_destination rs es d = (if routed_to rs d es = [] then None else Some (routed_to rs d es)) \<and>
   concat (map batch_events (batch cfg (routed_to rs d es))) = routed_to rs d es \<and>
   list_all (\<lambda>b. 0 < length (batch_events b) \<and> length (batch_events b) \<le> max (max_batch_size cfg) 1 \<and>
      idempotency_keys b = map idempotency_key (batch_events b)) (batch cfg (routed_to rs d es))"
proof -
  have "concat (map batch_events (batch cfg xs)) = xs" for xs
    using concat_chunks [of "max (max_batch_size cfg) 1" xs] by (simp add: batch_def comp_def)
  moreover have "list_all (\<lambda>b. 0 < length (batch_events b) \<and> length (batch_events b) \<le> max (max_batch_size cfg) 1 \<and>
      idempotency_keys b = map idempotency_key (batch_events b)) (batch cfg xs)" for xs
    using chunks_size [of _ "max (max_batch_size cfg) 1" xs] by (auto simp: batch_def list_all_iff)
  ultimately show ?thesis
    by (simp add: partition_spec)
qed

text \<open>
  Destinations are independent and every batch is accounted for. Whatever happens on other
  destinations, a registered destination that events are routed to has each of its batches either
  received by its sink, parked in the dead-letter queue, throttled, or left as retrying; its
  counters grow by exactly the events of the batches with that status, and the reported outcome
  is Delivered precisely when the sink received all of them.
\<close>

theorem route_accounted:
  assumes "distinct order" and "name \<in> set order" and "destinations r name = Some target"
    and "routed_to (rules r) name es \<noteq> []"
  shows "\<exists>ss s d'. fst (route envs order es r) name = Some s \<and> destinations (snd (route envs order es r)) name = Some d' \<and>
    accounted (batch (router_config r) (routed_to (rules r) name es)) ss target d' \<and>
    (s = Delivered \<longleftrightarrow> set ss \<subseteq> {Delivered})"
proof -
  have "partition_by_destination (rules r) es name = Some (routed_to (rules r) name es)"
    using assms(4) by (simp add: partition_spec)
  from route_loop_self [where g = "partition_by_destination (rules r) es" and out = Map.empty and envs = envs,
      OF assms(2,1) this assms(3)]
  obtain s d' where "deliver_batches (router_config r) (envs name) 0
      (batch (router_config r) (routed_to (rules r) name es)) Delivered target = (s, d')"
    "destinations (snd (route envs order es r)) name = Some d'" "fst (route envs order es r) name = Some s"
    unfolding route_def by blast
  then show ?thesis
    using deliver_batches_accounted by blast
qed

definition example_router :: EventRouter where
  "example_router = register 0 ''k'' (add_rule (rule_new ''k'' MatchAll)
     \<lparr>destinations = Map.empty, rules = [], router_config = RouterConfig_default\<rparr>)"

theorem route_accounted_witness:
  "\<exists>s. fst (route (\<lambda>n i. \<lparr>env_clock = 0, attempt_outcome = (\<lambda>a. Inr 5), park_outcome = None\<rparr>) [''k''] [sample_event]
     example_router) ''k'' = Some s"
proof -
  have "routed_to (rules example_router) ''k'' [sample_event] \<noteq> []"
    by (simp add: example_router_def register_def add_rule_def rule_new_def routed_to_def)
  moreover obtain t where "destinations example_router ''k'' = Some t"
    by (simp add: example_router_def register_def)
  ultimately show ?thesis
    using route_accounted [of "[''k'']" "''k''" example_router t "[sample_event]"
        "\<lambda>n i. \<lparr>env_clock = 0, attempt_outcome = (\<lambda>a. Inr 5), park_outcome = None\<rparr>"] by auto
qed

section \<open>Gaps\<close>

text \<open>
  A throttled batch is neither retried nor parked; a batch larger than the bucket is throttled
  forever; and two events of one contract in one transaction share their idempotency key.
\<close>

lemma throttled_batch_dropped:
  "deliver cfg env b d = (Throttled, d') \<Longrightarrow> received d' = received d \<and> parked d' = parked d"
  using deliver_accounted [of cfg env b d Throttled d'] by (simp add: accounted_def)

lemma oversized_batch_throttled:
  "bucket_capacity (limiter d) < f64_of_nat (length (batch_events b)) \<Longrightarrow> fst (deliver cfg env b d) = Throttled"
  by (auto simp: deliver_def try_acquire_def Let_def)

lemma idempotency_key_collision:
  "idempotency_key e = idempotency_key (e\<lparr>event_type := t, topic := ts, ev_value := v\<rparr>)"
  by (simp add: idempotency_key_def)

end
