(* ===== verification/Rate_Limiter.thy ===== *)
theory Rate_Limiter
  imports Net_Addr
begin

text \<open>
  Model of the request limiters: the per-API-key limiter of \<open>src/rate_limiter.rs\<close> (the counter table
  as its SQL statements use it) and the per-address limiters of \<open>src/subscriptions.rs\<close>, for
  subscription creation and for concurrent SSE connections. The clock readings are parameters, in
  microseconds for the database and in nanoseconds for the in-memory limiters. The locale
  \<open>window_limiter\<close> is the contract of the two window-based limiters.
\<close>

section \<open>API key limiter\<close>

record RateLimitConfig =
  requests_per_minute :: "u32 option"
  requests_per_hour :: "u32 option"
  requests_per_day :: "u32 option"
  requests_per_month :: "u32 option"

definition config_none :: RateLimitConfig where
  "config_none = \<lparr>requests_per_minute = None, requests_per_hour = None, requests_per_day = None, requests_per_month = None\<rparr>"

definition is_configured :: "RateLimitConfig \<Rightarrow> bool" where
  "is_configured cfg \<longleftrightarrow> requests_per_minute cfg \<noteq> None \<or> requests_per_hour cfg \<noteq> None
     \<or> requests_per_day cfg \<noteq> None \<or> requests_per_month cfg \<noteq> None"

record RateLimitStatus =
  remaining_minute :: "u32 option"
  limit_minute :: "u32 option"
  remaining_hour :: "u32 option"
  limit_hour :: "u32 option"
  remaining_day :: "u32 option"
  limit_day :: "u32 option"
  remaining_month :: "u32 option"
  limit_month :: "u32 option"
  is_rate_limited :: bool
  reset_at :: "i64 option"

text \<open>The table, one entry per key hash and minute.\<close>

type_synonym counters = "((string \<times> int) \<times> nat) list"

definition MINUTE :: int where "MINUTE = 60 * 1000000"
definition HOUR :: int where "HOUR = 60 * MINUTE"
definition DAY :: int where "DAY = 24 * HOUR"
definition MONTH :: int where "MONTH = 30 * DAY"

definition window_sum :: "string \<Rightarrow> int \<Rightarrow> int \<Rightarrow> counters \<Rightarrow> nat" where
  "window_sum h lo hi tbl = sum_list (map snd (filter (\<lambda>((h', w), c). h' = h \<and> lo \<le> w \<and> w \<le> hi) tbl))"

definition get_and_update_counter :: "string \<Rightarrow> int \<Rightarrow> int \<Rightarrow> counters \<Rightarrow> u32 \<times> bool" where
  "get_and_update_counter h window_start now tbl = (of_nat (window_sum h window_start now tbl), False)"

definition get_current_minute_window :: "int \<Rightarrow> int" where
  "get_current_minute_window now = now - now mod MINUTE"

fun bump :: "string \<times> int \<Rightarrow> counters \<Rightarrow> counters" where
  "bump k [] = [(k, 1)]"
| "bump k ((k', c) # tbl) = (if k' = k then (k', c + 1) # tbl else (k', c) # bump k tbl)"

text \<open>One window: its remaining quota, whether it limits the request, and the reset time.\<close>

definition check_window ::
  "u32 option \<Rightarrow> int \<Rightarrow> u32 \<Rightarrow> int \<Rightarrow> bool \<times> i64 option \<Rightarrow> u32 option \<times> bool \<times> i64 option" where
  "check_window quota width count now = (\<lambda>(limited, reset).
     case quota of
       None \<Rightarrow> (None, limited, reset)
     | Some l \<Rightarrow>
         if count \<ge> l
         then (Some 0, True, case reset of None \<Rightarrow> Some (((now - width) + width) div 1000000) | Some r \<Rightarrow> Some r)
         else (Some (saturating_sub l count), limited, reset))"

definition build_status :: "RateLimitConfig \<Rightarrow> int \<Rightarrow> (int \<Rightarrow> u32) \<Rightarrow> RateLimitStatus" where
  "build_status cfg now count =
     (let (rm, s1) = check_window (requests_per_minute cfg) MINUTE (count (now - MINUTE)) now (False, None);
          (rh, s2) = check_window (requests_per_hour cfg) HOUR (count (now - HOUR)) now s1;
          (rd, s3) = check_window (requests_per_day cfg) DAY (count (now - DAY)) now s2;
          (rmo, s4) = check_window (requests_per_month cfg) MONTH (count (now - MONTH)) now s3
      in \<lparr>remaining_minute = rm, limit_minute = requests_per_minute cfg,
          remaining_hour = rh, limit_hour = requests_per_hour cfg,
          remaining_day = rd, limit_day = requests_per_day cfg,
          remaining_month = rmo, limit_month = requests_per_month cfg,
          is_rate_limited = fst s4, reset_at = snd s4\<rparr>)"

definition unlimited_status :: RateLimitStatus where
  "unlimited_status = \<lparr>remaining_minute = None, limit_minute = None, remaining_hour = None, limit_hour = None,
     remaining_day = None, limit_day = None, remaining_month = None, limit_month = None,
     is_rate_limited = False, reset_at = None\<rparr>"

text \<open>\<open>hash_api_key\<close>, a SHA-256 digest, is a parameter.\<close>

definition check_rate_limit ::
  "(string \<Rightarrow> string) \<Rightarrow> int \<Rightarrow> string \<Rightarrow> RateLimitConfig \<Rightarrow> counters \<Rightarrow> (bool \<times> RateLimitStatus) \<times> counters" where
  "check_rate_limit hash_api_key now api_key cfg tbl =
     (if \<not> is_configured cfg then ((True, unlimited_status), tbl)
      else let h = hash_api_key api_key;
               status = build_status cfg now (\<lambda>start. fst (get_and_update_counter h start now tbl));
               tbl' = (if \<not> is_rate_limited status then bump (h, get_current_minute_window now) tbl else tbl)
           in ((\<not> is_rate_limited status, status), tbl'))"

definition get_rate_limit_status ::
  "(string \<Rightarrow> string) \<Rightarrow> int \<Rightarrow> string \<Rightarrow> RateLimitConfig \<Rightarrow> counters \<Rightarrow> RateLimitStatus" where
  "get_rate_limit_status hash_api_key now api_key cfg tbl =
     (if \<not> is_configured cfg then unlimited_status
      else let h = hash_api_key api_key
           in build_status cfg now (\<lambda>start. of_nat
                (sum_list (map snd (filter (\<lambda>((h', w), c). h' = h \<and> start \<le> w) tbl)))))"


section \<open>Subscription creation limiter\<close>

definition SUBSCRIPTION_RATE_WINDOW :: int where
  "SUBSCRIPTION_RATE_WINDOW = 60 * 1000000000"

record WindowCounter =
  win_start :: int
  win_count :: u32

record SubscriptionRateLimiter =
  sub_inner :: "IpAddr \<rightharpoonup> WindowCounter"
  sub_limit :: u32
  sub_window :: int

definition sub_new :: "u32 \<Rightarrow> SubscriptionRateLimiter" where
  "sub_new l = \<lparr>sub_inner = Map.empty, sub_limit = max l 1, sub_window = SUBSCRIPTION_RATE_WINDOW\<rparr>"

text \<open>The entry of an address, opened or restarted when its window has passed.\<close>

definition sub_entry :: "int \<Rightarrow> IpAddr \<Rightarrow> SubscriptionRateLimiter \<Rightarrow> WindowCounter" where
  "sub_entry now ip s =
     (let e = (case sub_inner s ip of None \<Rightarrow> \<lparr>win_start = now, win_count = 0\<rparr> | Some c \<Rightarrow> c)
      in if max 0 (now - win_start e) \<ge> sub_window s then \<lparr>win_start = now, win_count = 0\<rparr> else e)"

definition retry_after_secs :: "int \<Rightarrow> nat" where
  "retry_after_secs remaining =
     max (nat (max 0 remaining div 10 ^ 9 + (if max 0 remaining mod 10 ^ 9 > 0 then 1 else 0))) 1"

definition sub_check :: "int \<Rightarrow> IpAddr \<Rightarrow> SubscriptionRateLimiter \<Rightarrow> (nat + unit) \<times> SubscriptionRateLimiter" where
  "sub_check now ip s =
     (let e = sub_entry now ip s
      in if win_count e \<ge> sub_limit s
         then (Inl (retry_after_secs (sub_window s - max 0 (now - win_start e))),
               s\<lparr>sub_inner := (sub_inner s)(ip \<mapsto> e)\<rparr>)
         else (Inr (), s\<lparr>sub_inner := (sub_inner s)(ip \<mapsto> e\<lparr>win_count := win_count e + 1\<rparr>)\<rparr>))"

definition sub_prune :: "int \<Rightarrow> SubscriptionRateLimiter \<Rightarrow> SubscriptionRateLimiter" where
  "sub_prune now s =
     s\<lparr>sub_inner := (\<lambda>ip. case sub_inner s ip of
          None \<Rightarrow> None | Some c \<Rightarrow> if max 0 (now - win_start c) < sub_window s then Some c else None)\<rparr>"

section \<open>SSE connection limiter\<close>

record SseConnectionLimiter =
  sse_inner :: "IpAddr \<rightharpoonup> nat"
  sse_max :: nat

definition sse_new :: "nat \<Rightarrow> SseConnectionLimiter" where
  "sse_new m = \<lparr>sse_inner = Map.empty, sse_max = max m 1\<rparr>"

text \<open>
  The map entry stays locked from the load to the increment, so acquiring is one step; a granted
  guard is identified with its address, and dropping it releases the slot.
\<close>

definition sse_try_acquire :: "IpAddr \<Rightarrow> SseConnectionLimiter \<Rightarrow> (nat + IpAddr) \<times> SseConnectionLimiter" where
  "sse_try_acquire ip s =
     (let current = (case sse_inner s ip of None \<Rightarrow> 0 | Some n \<Rightarrow> n)
      in if current \<ge> sse_max s then (Inl 1, s\<lparr>sse_inner := (sse_inner s)(ip \<mapsto> current)\<rparr>)
         else (Inr ip, s\<lparr>sse_inner := (sse_inner s)(ip \<mapsto> current + 1)\<rparr>))"

definition sse_release :: "IpAddr \<Rightarrow> SseConnectionLimiter \<Rightarrow> SseConnectionLimiter" where
  "sse_release ip s =
     (case sse_inner s ip of None \<Rightarrow> s | Some n \<Rightarrow> s\<lparr>sse_inner := (sse_inner s)(ip \<mapsto> n - 1)\<rparr>)"

section \<open>The contract of a window limiter\<close>

text \<open>
  \<open>used t s\<close> is the quota in use at time \<open>t\<close>: it does not grow by waiting, a request is only admitted
  below the cap, and it uses one unit. \<open>inv T s\<close> says that nothing in the state is later than \<open>T\<close>.
  \<open>foreign\<close> are the operations other clients and the maintenance tasks run on the same state.
\<close>

locale window_limiter =
  fixes admit :: "int \<Rightarrow> 's \<Rightarrow> bool \<times> 's"
    and used :: "int \<Rightarrow> 's \<Rightarrow> nat"
    and cap :: "'s \<Rightarrow> nat"
    and inv :: "int \<Rightarrow> 's \<Rightarrow> bool"
    and apart :: "'a \<Rightarrow> bool"
    and foreign :: "'a \<Rightarrow> int \<Rightarrow> 's \<Rightarrow> 's"
  assumes admit_below: "inv T s \<Longrightarrow> T \<le> now \<Longrightarrow> used now s \<le> cap s \<Longrightarrow> fst (admit now s) \<Longrightarrow> used now s < cap s"
    and used_admit: "inv T s \<Longrightarrow> T \<le> now \<Longrightarrow>
      used now (snd (admit now s)) \<le> used now s + (if fst (admit now s) then 1 else 0)"
    and used_wait: "inv T s \<Longrightarrow> T \<le> now \<Longrightarrow> now \<le> t \<Longrightarrow> used t s \<le> used now s"
    and inv_admit: "inv T s \<Longrightarrow> T \<le> now \<Longrightarrow> inv now (snd (admit now s))"
    and cap_admit: "cap (snd (admit now s)) = cap s"
    and used_foreign: "inv T s \<Longrightarrow> T \<le> now \<Longrightarrow> apart a \<Longrightarrow> used now (foreign a now s) \<le> used now s"
    and inv_foreign: "inv T s \<Longrightarrow> T \<le> now \<Longrightarrow> inv now (foreign a now s)"
    and cap_foreign: "cap (foreign a now s) = cap s"
begin

lemma never_exceeds:
  assumes "inv T s" and "used T s \<le> cap s" and "sorted (T # map fst steps)"
    and "\<forall>(now, a) \<in> set steps. \<forall>b. a = Some b \<longrightarrow> apart b"
  shows "let s' = fold (\<lambda>(now, a) s. case a of None \<Rightarrow> snd (admit now s) | Some b \<Rightarrow> foreign b now s) steps s
    in inv (last (T # map fst steps)) s' \<and> cap s' = cap s \<and> (\<forall>t \<ge> last (T # map fst steps). used t s' \<le> cap s)"
  using assms
proof (induction steps arbitrary: T s)
  case Nil
  then show ?case
    using used_wait [of T s T] by (auto intro: order_trans)
next
  case (Cons e steps)
  obtain now a where e: "e = (now, a)"
    by fastforce
  then have now: "T \<le> now" "used now s \<le> cap s"
    using used_wait [of T s T now] Cons.prems by (auto intro: order_trans)
  note s = Cons.prems(1) now(1)
  let ?s = "case a of None \<Rightarrow> snd (admit now s) | Some b \<Rightarrow> foreign b now s"
  have "used now ?s \<le> cap s"
  proof (cases a)
    case None
    then show ?thesis
      using used_admit [OF s] admit_below [OF s now(2)] now(2) by (cases "fst (admit now s)") auto
  next
    case (Some b)
    then show ?thesis
      using used_foreign [OF s, of b] now(2) Cons.prems(4) e by auto
  qed
  moreover have "inv now ?s" "cap ?s = cap s"
    using inv_admit [OF s] inv_foreign [OF s] by (auto simp: cap_admit cap_foreign split: option.split)
  ultimately show ?case
    using Cons.IH [of now ?s] Cons.prems(3,4) e by (simp add: Let_def)
qed

end

section \<open>The API key limiter is a window limiter\<close>

datatype window = WMinute | WHour | WDay | WMonth

fun width :: "window \<Rightarrow> int" where
  "width WMinute = MINUTE" | "width WHour = HOUR" | "width WDay = DAY" | "width WMonth = MONTH"

fun quota :: "RateLimitConfig \<Rightarrow> window \<Rightarrow> u32 option" where
  "quota cfg WMinute = requests_per_minute cfg"
| "quota cfg WHour = requests_per_hour cfg"
| "quota cfg WDay = requests_per_day cfg"
| "quota cfg WMonth = requests_per_month cfg"



definition key_admit :: "(string \<Rightarrow> string) \<Rightarrow> string \<Rightarrow> RateLimitConfig \<Rightarrow> int \<Rightarrow> counters \<Rightarrow> bool \<times> counters" where
  "key_admit hash k cfg now tbl = (fst (fst (check_rate_limit hash now k cfg tbl)), snd (check_rate_limit hash now k cfg tbl))"







lemma build_status_limited:
  "is_rate_limited (build_status cfg now count) \<longleftrightarrow> (\<exists>w l. quota cfg w = Some l \<and> l \<le> count (now - width w))"
proof -
  have ex: "(\<exists>w. P w) \<longleftrightarrow> P WMinute \<or> P WHour \<or> P WDay \<or> P WMonth" for P
    by (metis window.exhaust)
  show ?thesis
    by (auto simp: ex build_status_def check_window_def Let_def split: option.splits if_splits)
qed


lemma key_admit_cases:
  "key_admit hash k cfg now tbl =
     (if \<exists>w l. quota cfg w = Some l \<and> l \<le> of_nat (window_sum (hash k) (now - width w) now tbl) then (False, tbl)
      else (True, if is_configured cfg then bump (hash k, get_current_minute_window now) tbl else tbl))"
proof -
  have "quota cfg w = None" if "\<not> is_configured cfg" for w
    using that by (cases w) (auto simp: is_configured_def)
  then show ?thesis
    by (auto simp: key_admit_def check_rate_limit_def Let_def build_status_limited get_and_update_counter_def)
qed







section \<open>The subscription limiter is a window limiter\<close>

definition sub_used :: "IpAddr \<Rightarrow> int \<Rightarrow> SubscriptionRateLimiter \<Rightarrow> nat" where
  "sub_used ip t s = (case sub_inner s ip of None \<Rightarrow> 0
     | Some c \<Rightarrow> if t - win_start c \<ge> sub_window s then 0 else unat (win_count c))"

definition sub_admit :: "IpAddr \<Rightarrow> int \<Rightarrow> SubscriptionRateLimiter \<Rightarrow> bool \<times> SubscriptionRateLimiter" where
  "sub_admit ip now s = (\<not> isl (fst (sub_check now ip s)), snd (sub_check now ip s))"

definition sub_inv :: "int \<Rightarrow> SubscriptionRateLimiter \<Rightarrow> bool" where
  "sub_inv T s \<longleftrightarrow> 0 < sub_window s \<and> (\<forall>ip c. sub_inner s ip = Some c \<longrightarrow> win_start c \<le> T)"

lemma unat_inc_le: "unat (x + 1 :: 'a::len word) \<le> unat x + 1"
  by (simp add: unat_word_ariths)

lemma sub_admit_eq:
  "sub_admit ip now s = (let e = sub_entry now ip s; ok = win_count e < sub_limit s
     in (ok, s\<lparr>sub_inner := (sub_inner s)(ip \<mapsto> if ok then e\<lparr>win_count := win_count e + 1\<rparr> else e)\<rparr>))"
  by (simp add: sub_admit_def sub_check_def Let_def not_le)

lemma sub_entry_used:
  assumes "sub_inv T s" and "T \<le> now"
  shows "unat (win_count (sub_entry now ip s)) = sub_used ip now s"
    and "win_start (sub_entry now ip s) \<le> now"
    and "now - win_start (sub_entry now ip s) < sub_window s"
  using assms by (fastforce simp: sub_entry_def sub_used_def sub_inv_def Let_def max_def split: option.split)+

datatype sub_op = Check_ip IpAddr | Prune

fun sub_foreign :: "sub_op \<Rightarrow> int \<Rightarrow> SubscriptionRateLimiter \<Rightarrow> SubscriptionRateLimiter" where
  "sub_foreign (Check_ip ip) now s = snd (sub_admit ip now s)"
| "sub_foreign Prune now s = sub_prune now s"

lemma sub_inv_admit:
  assumes "sub_inv T s" and "T \<le> now"
  shows "sub_inv now (snd (sub_admit ip now s))"
  using assms sub_entry_used(2) [OF assms] by (auto simp: sub_inv_def sub_admit_eq Let_def intro: order_trans)

lemma sub_inv_prune: "sub_inv T s \<Longrightarrow> T \<le> now \<Longrightarrow> sub_inv now (sub_prune now s)"
  by (auto simp: sub_inv_def sub_prune_def split: option.splits if_splits intro: order_trans)

lemma sub_limit_admit: "sub_limit (snd (sub_admit ip now s)) = sub_limit s"
  by (simp add: sub_admit_eq Let_def)

lemma sub_used_other: "ip' \<noteq> ip \<Longrightarrow> sub_used ip t (snd (sub_admit ip' now s)) = sub_used ip t s"
  by (simp add: sub_used_def sub_admit_eq Let_def cong: option.case_cong)

lemma sub_used_prune: "sub_used ip t (sub_prune now s) \<le> sub_used ip t s"
  by (auto simp: sub_used_def sub_prune_def split: option.split)

interpretation sub: window_limiter "sub_admit ip" "sub_used ip" "\<lambda>s. unat (sub_limit s)" sub_inv
  "\<lambda>a. a \<noteq> Check_ip ip" sub_foreign
proof
  fix T now t :: int and s :: SubscriptionRateLimiter
  assume inv: "sub_inv T s" and T: "T \<le> now"
  note entry = sub_entry_used [OF inv T, of ip]
  show "sub_used ip now s < unat (sub_limit s)" if "fst (sub_admit ip now s)"
    using that entry(1) by (simp add: sub_admit_eq Let_def word_less_nat_alt)
  show "sub_used ip now (snd (sub_admit ip now s)) \<le> sub_used ip now s + (if fst (sub_admit ip now s) then 1 else 0)"
    unfolding entry(1) [symmetric]
    using unat_inc_le [of "win_count (sub_entry now ip s)"] by (auto simp: sub_used_def sub_admit_eq Let_def)
  show "sub_used ip t s \<le> sub_used ip now s" if "now \<le> t"
    using that by (auto simp: sub_used_def split: option.split)
  show "sub_inv now (snd (sub_admit ip now s))"
    by (rule sub_inv_admit [OF inv T])
  show "sub_used ip now (sub_foreign a now s) \<le> sub_used ip now s" if "a \<noteq> Check_ip ip" for a
    using that by (cases a) (auto simp: sub_used_other sub_used_prune)
  show "sub_inv now (sub_foreign a now s)" for a
    by (cases a) (simp_all add: sub_inv_admit [OF inv T] sub_inv_prune [OF inv T])
next
  show "unat (sub_limit (sub_foreign a now s)) = unat (sub_limit s)" for a now s
    by (cases a) (simp_all add: sub_limit_admit sub_prune_def)
qed (simp add: sub_limit_admit)

section \<open>Properties of the API key limiter\<close>

text \<open>Requests as they arrive, with the resulting table and the admitted ones.\<close>

fun serve ::
  "(string \<Rightarrow> string) \<Rightarrow> (string \<Rightarrow> RateLimitConfig) \<Rightarrow> (int \<times> string) list \<Rightarrow> counters \<Rightarrow> counters \<times> (int \<times> string) list" where
  "serve hash cfgs [] tbl = (tbl, [])"
| "serve hash cfgs ((now, k) # reqs) tbl =
     (let (r, tbl') = check_rate_limit hash now k (cfgs k) tbl; (tbl'', adm) = serve hash cfgs reqs tbl'
      in (tbl'', if fst r then (now, k) # adm else adm))"

lemma serve_Cons:
  "serve hash cfgs ((now, k) # reqs) tbl =
     (let (ok, tbl') = key_admit hash k (cfgs k) now tbl; (tbl'', adm) = serve hash cfgs reqs tbl'
      in (tbl'', if ok then (now, k) # adm else adm))"
  by (simp add: key_admit_def case_prod_beta Let_def)

lemmas serve_simps = serve.simps(1) serve_Cons






text \<open>
  The window is not sliding: an admitted request counts with the start of its clock minute, so a
  minute quota can be used twice within a second. The reset time reported to a limited client is
  the current time.
\<close>

lemma minute_quota_twice:
  "snd (serve hash (\<lambda>_. config_none\<lparr>requests_per_minute := Some 1\<rparr>) [(59900000, k), (60100000, k)] [])
     = [(59900000, k), (60100000, k)]"
  by (simp add: serve_simps key_admit_cases window_sum_def get_current_minute_window_def MINUTE_def config_none_def
      is_configured_def split: if_splits del: serve.simps(2)) (auto elim!: quota.elims simp: MINUTE_def)

lemma reset_at_is_now:
  "is_rate_limited (build_status cfg now count) \<Longrightarrow> reset_at (build_status cfg now count) = Some (now div 1000000)"
  by (auto simp: build_status_def check_window_def Let_def split: option.splits if_splits)

section \<open>Properties of the subscription limiter\<close>

lemma retry_after_secs_bounds:
  assumes "0 < r" and "r \<le> SUBSCRIPTION_RATE_WINDOW"
  shows "1 \<le> retry_after_secs r" and "retry_after_secs r \<le> 60" and "r \<le> int (retry_after_secs r) * 10 ^ 9"
proof -
  define q m where "q = r div 1000000000" and "m = r mod 1000000000"
  then have r: "r = 1000000000 * q + m" "0 \<le> m" "m < 1000000000"
    by simp_all
  then have "0 \<le> q" "q \<le> 60" "0 < m \<Longrightarrow> q < 60" "m = 0 \<Longrightarrow> 0 < q"
    using assms unfolding SUBSCRIPTION_RATE_WINDOW_def by linarith+
  moreover have "retry_after_secs r = max (nat (q + (if 0 < m then 1 else 0))) 1"
    using assms(1) by (simp add: retry_after_secs_def q_def m_def)
  ultimately show "1 \<le> retry_after_secs r" "retry_after_secs r \<le> 60" "r \<le> int (retry_after_secs r) * 10 ^ 9"
    using r by (auto simp: max_def)
qed

lemma sub_window_foreign: "sub_window (sub_foreign a now s) = sub_window s"
  by (cases a) (simp_all add: sub_admit_eq sub_prune_def Let_def)

lemma sub_window_run: "sub_window (fold (\<lambda>(t, a). sub_foreign a t) steps s) = sub_window s"
  by (induction steps arbitrary: s) (auto simp: sub_window_foreign)

lemma sub_limit_run: "sub_limit (fold (\<lambda>(t, a). sub_foreign a t) steps s) = sub_limit s"
proof (induction steps arbitrary: s)
  case (Cons e steps)
  then show ?case by (cases e; cases "snd e") (simp_all add: sub_limit_admit sub_prune_def)
qed simp

lemma sub_run_quota:
  assumes "sorted (T # map fst steps)" and "sub_inv T s" and "sub_used ip T s \<le> unat (sub_limit s)"
  shows "let s' = fold (\<lambda>(t, a). sub_foreign a t) steps s
    in sub_inv (last (T # map fst steps)) s' \<and> (\<forall>t \<ge> last (T # map fst steps). sub_used ip t s' \<le> unat (sub_limit s))"
proof -
  let ?steps = "map (\<lambda>(t, a). (t, if a = Check_ip ip then None else Some a)) steps"
  have fst_steps: "map fst ?steps = map fst steps"
    by (auto simp: case_prod_beta)
  have "fold (\<lambda>(t, a). sub_foreign a t) steps s =
    fold (\<lambda>(now, a) s. case a of None \<Rightarrow> snd (sub_admit ip now s) | Some b \<Rightarrow> sub_foreign b now s) ?steps s"
    by (induction steps arbitrary: s) auto
  moreover have "\<forall>(now, a) \<in> set ?steps. \<forall>b. a = Some b \<longrightarrow> b \<noteq> Check_ip ip"
    by (auto split: if_splits)
  ultimately show ?thesis
    using sub.never_exceeds [of T s ip ?steps] assms unfolding fst_steps by (simp add: Let_def)
qed

lemma sub_check_below:
  assumes "sub_inv T s" and "T \<le> now" and "sub_used ip now s < unat (sub_limit s)"
  shows "\<exists>s'. sub_check now ip s = (Inr (), s') \<and> sub_used ip now s' = sub_used ip now s + 1"
proof -
  note entry = sub_entry_used [OF assms(1,2), of ip]
  have below: "win_count (sub_entry now ip s) < sub_limit s"
    using assms(3) entry(1) by (simp add: word_less_nat_alt)
  then show ?thesis
    using entry unat_inc_below [OF below] by (simp add: sub_check_def Let_def not_le sub_used_def)
qed

lemma sub_check_full:
  assumes "sub_inv T s" and "T \<le> now" and "sub_used ip now s = unat (sub_limit s)"
    and "sub_window s = SUBSCRIPTION_RATE_WINDOW" and "0 < sub_limit s"
  shows "\<exists>secs s'. sub_check now ip s = (Inl secs, s') \<and> 1 \<le> secs \<and> secs \<le> 60
    \<and> fst (sub_check (now + int secs * 10 ^ 9) ip s') = Inr ()"
proof -
  define e where "e = sub_entry now ip s"
  define r where "r = sub_window s - max 0 (now - win_start e)"
  define s1 where "s1 = s\<lparr>sub_inner := (sub_inner s)(ip \<mapsto> e)\<rparr>"
  note entry = sub_entry_used [OF assms(1,2), of ip, folded e_def]
  have r: "0 < r" "r \<le> SUBSCRIPTION_RATE_WINDOW"
    using entry(2,3) assms(4) by (auto simp: r_def)
  have "sub_check now ip s = (Inl (retry_after_secs r), s1)"
    using entry(1) assms(3) by (simp add: sub_check_def Let_def r_def s1_def word_le_nat_alt flip: e_def)
  moreover have "sub_window s \<le> max 0 (now + int (retry_after_secs r) * 10 ^ 9 - win_start e)"
    using retry_after_secs_bounds(3) [OF r] entry(2) by (simp add: r_def)
  then have "fst (sub_check (now + int (retry_after_secs r) * 10 ^ 9) ip s1) = Inr ()"
    using assms(5) by (simp add: sub_check_def sub_entry_def s1_def Let_def)
  ultimately show ?thesis
    using retry_after_secs_bounds [OF r] by blast
qed

text \<open>
  Creating subscriptions is limited per address: after any history of requests and prunings the
  counter of the current window is within the limit, a request is admitted exactly when it is below
  it, and a refused client is told a delay of 1 to 60 seconds after which it is admitted.
\<close>

theorem subscription_quota:
  assumes "sorted (map fst steps)" and "\<forall>e \<in> set steps. fst e \<le> now"
  shows "let s = fold (\<lambda>(t, a). sub_foreign a t) steps (sub_new l); (r, s') = sub_check now ip s
    in sub_used ip now s \<le> unat (max l 1)
       \<and> (case r of
            Inr _ \<Rightarrow> sub_used ip now s < unat (max l 1) \<and> sub_used ip now s' = sub_used ip now s + 1
          | Inl secs \<Rightarrow> sub_used ip now s = unat (max l 1) \<and> 1 \<le> secs \<and> secs \<le> 60
              \<and> fst (sub_check (now + int secs * 10 ^ 9) ip s') = Inr ())"
proof -
  define s where "s = fold (\<lambda>(t, a). sub_foreign a t) steps (sub_new l)"
  define T where "T = (case steps of [] \<Rightarrow> now | e # _ \<Rightarrow> fst e)"
  have T1: "sorted (T # map fst steps)"
    using assms(1) by (cases steps) (auto simp: T_def)
  have T2: "last (T # map fst steps) \<le> now"
    using assms(2) by (cases steps rule: rev_cases) (auto simp: T_def)
  have s: "sub_window s = SUBSCRIPTION_RATE_WINDOW" "sub_limit s = max l 1" "0 < sub_limit s"
    by (simp_all add: s_def sub_window_run sub_limit_run sub_new_def max_def word_less_nat_alt word_le_nat_alt)
  have run: "sub_inv (last (T # map fst steps)) s" "sub_used ip now s \<le> unat (sub_limit s)"
    using sub_run_quota [OF T1, of "sub_new l" ip] T2
    by (auto simp: s_def sub_limit_run Let_def sub_inv_def sub_new_def sub_used_def SUBSCRIPTION_RATE_WINDOW_def)
  show ?thesis
    unfolding s_def [symmetric] Let_def
    using sub_check_below [OF run(1) T2, of ip] sub_check_full [OF run(1) T2, of ip] run(2) s
    by (cases "sub_used ip now s < unat (sub_limit s)") auto
qed

theorem subscription_quota_witness:
  "let ip = V4 1 2 3 4; steps = [(0, Check_ip ip), (1000000000, Prune)]; now = 2000000000;
       s = fold (\<lambda>(t, a). sub_foreign a t) steps (sub_new 0); (r, s') = sub_check now ip s
   in r = Inl 58 \<and> fst (sub_check (now + int 58 * 10 ^ 9) ip s') = Inr ()"
  using subscription_quota [of "[(0, Check_ip (V4 1 2 3 4)), (1000000000, Prune)]" 2000000000 0 "V4 1 2 3 4"]
  by code_simp

section \<open>Properties of the SSE connection limiter\<close>

datatype sse_op = Acquire IpAddr | Drop_guard IpAddr

text \<open>The limiter with the number of live guards per address; only a live guard can be dropped.\<close>

fun sse_step :: "sse_op \<Rightarrow> SseConnectionLimiter \<times> (IpAddr \<Rightarrow> nat) \<Rightarrow> SseConnectionLimiter \<times> (IpAddr \<Rightarrow> nat)" where
  "sse_step (Acquire ip) (s, live) =
     (case sse_try_acquire ip s of (Inl _, s') \<Rightarrow> (s', live) | (Inr g, s') \<Rightarrow> (s', live(g := live g + 1)))"
| "sse_step (Drop_guard ip) (s, live) =
     (if live ip > 0 then (sse_release ip s, live(ip := live ip - 1)) else (s, live))"

definition sse_count :: "SseConnectionLimiter \<Rightarrow> IpAddr \<Rightarrow> nat" where
  "sse_count s ip = (case sse_inner s ip of None \<Rightarrow> 0 | Some n \<Rightarrow> n)"

lemma sse_step_inv:
  assumes "\<forall>ip. sse_count s ip = live ip \<and> live ip \<le> sse_max s"
  shows "case sse_step a (s, live) of (s', live') \<Rightarrow>
    sse_max s' = sse_max s \<and> (\<forall>ip. sse_count s' ip = live' ip \<and> live' ip \<le> sse_max s)"
proof (cases a)
  case (Acquire ip)
  then show ?thesis
    using assms [THEN spec, of ip] assms
    by (auto simp: sse_try_acquire_def sse_count_def Let_def split: option.splits)
next
  case (Drop_guard ip)
  then show ?thesis
    using assms [THEN spec, of ip] assms
    by (cases "sse_inner s ip") (auto simp: sse_release_def sse_count_def intro: diff_le_self [THEN order_trans])
qed

lemma sse_run_inv:
  assumes "\<forall>ip. sse_count s ip = live ip \<and> live ip \<le> sse_max s"
  shows "case fold sse_step ops (s, live) of (s', live') \<Rightarrow>
    sse_max s' = sse_max s \<and> (\<forall>ip. sse_count s' ip = live' ip \<and> live' ip \<le> sse_max s)"
  using assms
proof (induction ops arbitrary: s live)
  case (Cons a ops)
  obtain s1 live1 where "sse_step a (s, live) = (s1, live1)" by fastforce
  then show ?case
    using sse_step_inv [OF Cons.prems, of a] Cons.IH [of s1 live1] by simp
qed simp

text \<open>
  Concurrent SSE connections are bounded per address: after any sequence of acquisitions and
  dropped guards the counter of an address is the number of its live guards and at most the
  maximum, and a further acquisition succeeds exactly when fewer are live.
\<close>

theorem sse_connections_bounded:
  "case fold sse_step ops (sse_new m, \<lambda>_. 0) of (s, live) \<Rightarrow>
     sse_count s ip = live ip \<and> live ip \<le> max m 1
     \<and> fst (sse_try_acquire ip s) = (if live ip < max m 1 then Inr ip else Inl 1)"
proof -
  obtain s live where run: "fold sse_step ops (sse_new m, \<lambda>_. 0) = (s, live)" by fastforce
  then have "sse_max s = max m 1" "sse_count s ip = live ip" "live ip \<le> max m 1"
    using sse_run_inv [of "sse_new m" "\<lambda>_. 0" ops] by (auto simp: sse_new_def sse_count_def)
  then show ?thesis
    by (auto simp: run sse_try_acquire_def sse_count_def Let_def split: option.splits)
qed

end
