(* ===== verification/Webhook_Delivery.thy ===== *)
theory Webhook_Delivery
  imports Retry_Policy Xdr_Validation
begin

text \<open>
  Model of \<open>src/webhook.rs\<close>: delivering an event to a webhook with the retry policy, the per-endpoint
  rate limit and backoff, the failure and retry tables, failover, and the dead-letter queue with its
  replay. The tables are those of the migrations, with the constraints the statements run into.

  Parameters are the serde codec, HMAC-SHA256 and SHA-256, the replies of the endpoint per attempt,
  the clock (microseconds) and, for every SQL statement, whether it succeeds. The spans and the cost
  accounting of an attempt are left out.
\<close>

section \<open>Tables and environment\<close>

record endpoint_row =
  per_minute_limit :: i32
  ep_window_start :: int
  ep_window_count :: i32
  ep_consecutive_failures :: i32
  backoff_until :: "int option"
  health_status :: string

record failure_row =
  wf_url :: string
  wf_payload :: json
  wf_attempts :: i32
  wf_last_error :: string
  wf_next_retry_at :: int

record retry_row =
  rq_url :: string
  rq_payload :: json
  rq_secret_hash :: "string option"
  rq_attempt :: i32
  rq_max_attempts :: i32
  rq_next_retry_at :: int
  rq_last_error :: string
  rq_status :: string

record dlq_row =
  dlq_id :: string
  dlq_subscription_id :: string
  dlq_event_id :: string
  dlq_payload :: json
  dlq_last_error :: "string option"
  dlq_failed_at :: int
  replayed_at :: "int option"

record ack_row =
  ack_channel :: string
  ack_contract_id :: string
  ack_event_type :: string
  ack_priority :: string
  ack_status :: string

record http_request =
  req_url :: string
  req_headers :: "(string \<times> string) list"
  req_body :: string

record exchange =
  ex_request :: http_request
  ex_status :: "nat option"
  ex_response :: "json option"

record webhook_state =
  suppressions :: "(string \<times> int option) list"
  endpoints :: "string \<rightharpoonup> endpoint_row"
  failures :: "failure_row list"
  retry_queue :: "retry_row list"
  dlq :: "dlq_row list"
  acks :: "ack_row list"
  sent :: "http_request list"
  exchanges :: "exchange list"
  suppressed_total :: nat
  delivered_total :: nat
  failed_total :: nat
  failover_total :: nat
  dlq_depth :: nat

datatype reply = Response nat string | Send_error string

text \<open>The SQL statements, each of which may fail.\<close>

datatype stmt = Select_suppressed | Upsert_endpoint | Insert_retry | Reset_endpoint | Insert_ack
  | Fail_endpoint | Insert_failure | Insert_dlq | Count_dlq | Select_dlq | Mark_replayed

record webhook_env =
  pool :: bool
  stmt_ok :: "stmt \<Rightarrow> bool"
  now :: int
  send :: "u32 \<Rightarrow> reply"
  new_uuid :: string

record webhook_codec =
  to_value :: "SorobanEvent \<Rightarrow> json option"
  from_value :: "json \<Rightarrow> SorobanEvent option"
  to_vec :: "json \<Rightarrow> string option"
  event_to_vec :: "SorobanEvent \<Rightarrow> string option"
  parse_json :: "string \<Rightarrow> json option"
  hmac_hex :: "string \<Rightarrow> string \<Rightarrow> string"
  sha256_hex :: "string \<Rightarrow> string"
  status_line :: "nat \<Rightarrow> string"

section \<open>Payload, signature and priority\<close>

definition sign_payload :: "webhook_codec \<Rightarrow> string \<Rightarrow> string \<Rightarrow> string" where
  "sign_payload codec secret body = hmac_hex codec secret body"

fun json_get :: "string \<Rightarrow> json \<Rightarrow> json option" where
  "json_get k (JObject kvs) = obj_get k kvs"
| "json_get k _ = None"

fun json_walk :: "string list \<Rightarrow> json \<Rightarrow> json option" where
  "json_walk [] v = Some v"
| "json_walk (s # ss) v = (case json_get s v of None \<Rightarrow> None | Some w \<Rightarrow> json_walk ss w)"

definition evaluate_priority ::
  "SorobanEvent \<Rightarrow> string option \<Rightarrow> string option \<Rightarrow> string option \<Rightarrow> string \<Rightarrow> string" where
  "evaluate_priority event rule_path rule_value rule_priority default_priority =
     (case (rule_path, rule_value, rule_priority) of
        (Some path, Some expected, Some priority) \<Rightarrow>
          let segments = filter (\<lambda>s. s \<noteq> []) (split_on (CHR ''.'') (strip_prefixes [''$.''] path))
          in if json_walk segments (ev_value event) = Some (JString expected) then priority else default_priority
      | _ \<Rightarrow> default_priority)"

definition with_priority :: "string \<Rightarrow> json \<Rightarrow> json" where
  "with_priority priority v =
     (case v of JObject kvs \<Rightarrow> JObject (obj_insert ''priority'' (JString priority) kvs) | _ \<Rightarrow> v)"

section \<open>Endpoint rate limit and health\<close>

definition SECOND :: int where "SECOND = 1000000"

definition is_suppressed :: "int \<Rightarrow> string \<Rightarrow> webhook_state \<Rightarrow> bool" where
  "is_suppressed t url st \<longleftrightarrow>
     list_ex (\<lambda>(target, expires). target = url \<and> (case expires of None \<Rightarrow> True | Some e \<Rightarrow> e > t)) (suppressions st)"

definition touch_endpoint :: "int \<Rightarrow> endpoint_row option \<Rightarrow> endpoint_row" where
  "touch_endpoint t row =
     (case row of
        None \<Rightarrow> \<lparr>per_minute_limit = 60, ep_window_start = t, ep_window_count = 1,
                 ep_consecutive_failures = 0, backoff_until = None, health_status = ''healthy''\<rparr>
      | Some e \<Rightarrow>
          if ep_window_start e < t - 60 * SECOND
          then e\<lparr>ep_window_start := t, ep_window_count := 1\<rparr>
          else e\<lparr>ep_window_count := ep_window_count e + 1\<rparr>)"

definition endpoint_rate_limited ::
  "bool \<Rightarrow> int \<Rightarrow> string \<Rightarrow> webhook_state \<Rightarrow> (unit + int option) \<times> webhook_state" where
  "endpoint_rate_limited ok t url st =
     (let e = touch_endpoint t (endpoints st url)
      in if \<not> ok \<or> \<not> in_i32 (ep_window_count e) then (Inl (), st)
         else let st' = st\<lparr>endpoints := (endpoints st)(url \<mapsto> e)\<rparr>;
                  window = (if ep_window_count e > per_minute_limit e then Some (t + 60 * SECOND) else None)
              in (Inr (case backoff_until e of
                         Some b \<Rightarrow> if b > t then Some b else window
                       | None \<Rightarrow> window), st'))"

definition record_endpoint_success :: "bool \<Rightarrow> string \<Rightarrow> webhook_state \<Rightarrow> webhook_state" where
  "record_endpoint_success ok url st =
     (case endpoints st url of
        Some e \<Rightarrow> if ok then st\<lparr>endpoints := (endpoints st)(url \<mapsto>
            e\<lparr>ep_consecutive_failures := 0, health_status := ''healthy'', backoff_until := None\<rparr>)\<rparr> else st
      | None \<Rightarrow> st)"

definition fail_endpoint :: "int \<Rightarrow> endpoint_row \<Rightarrow> endpoint_row" where
  "fail_endpoint t e =
     (let n = ep_consecutive_failures e + 1
      in e\<lparr>ep_consecutive_failures := n,
           health_status := (if n \<ge> 3 then ''unhealthy'' else ''degraded''),
           backoff_until := Some (t + min 900 (2 ^ nat (min n 10)) * SECOND)\<rparr>)"

definition record_endpoint_failure :: "bool \<Rightarrow> int \<Rightarrow> string \<Rightarrow> webhook_state \<Rightarrow> int \<times> webhook_state" where
  "record_endpoint_failure ok t url st =
     (t + 60 * SECOND,
      case endpoints st url of
        Some e \<Rightarrow> if ok \<and> in_i32 (ep_consecutive_failures e + 1)
                  then st\<lparr>endpoints := (endpoints st)(url \<mapsto> fail_endpoint t e)\<rparr> else st
      | None \<Rightarrow> st)"

section \<open>Queues\<close>

definition event_json :: "webhook_codec \<Rightarrow> SorobanEvent \<Rightarrow> json" where
  "event_json codec event = (case to_value codec event of Some v \<Rightarrow> v | None \<Rightarrow> JObject [])"

definition enqueue_endpoint_retry ::
  "webhook_codec \<Rightarrow> bool \<Rightarrow> string \<Rightarrow> SorobanEvent \<Rightarrow> string option \<Rightarrow> string \<Rightarrow> int \<Rightarrow> webhook_state \<Rightarrow> webhook_state" where
  "enqueue_endpoint_retry codec ok url event secret reason next_retry_at st =
     (if ok then st\<lparr>retry_queue := retry_queue st @
        [\<lparr>rq_url = url, rq_payload = event_json codec event, rq_secret_hash = map_option (sha256_hex codec) secret,
          rq_attempt = 0, rq_max_attempts = 5, rq_next_retry_at = next_retry_at, rq_last_error = reason,
          rq_status = ''pending''\<rparr>]\<rparr>
      else st)"

definition pending_dlq :: "webhook_state \<Rightarrow> dlq_row list" where
  "pending_dlq st = filter (\<lambda>r. replayed_at r = None) (dlq st)"

definition refresh_dlq_depth :: "bool \<Rightarrow> webhook_state \<Rightarrow> webhook_state" where
  "refresh_dlq_depth ok st = (if ok then st\<lparr>dlq_depth := length (pending_dlq st)\<rparr> else st)"

text \<open>The column \<open>subscription_id\<close> is \<open>NOT NULL\<close>: a statement that binds \<open>None\<close> fails.\<close>

definition enqueue_dlq ::
  "webhook_codec \<Rightarrow> webhook_env \<Rightarrow> string option \<Rightarrow> SorobanEvent \<Rightarrow> string \<Rightarrow> webhook_state \<Rightarrow> (unit + string) \<times> webhook_state" where
  "enqueue_dlq codec env subscription_id event last_error st =
     (case subscription_id of
        None \<Rightarrow> (Inl (), st)
      | Some sid \<Rightarrow>
          if \<not> stmt_ok env Insert_dlq then (Inl (), st)
          else (Inr (new_uuid env), refresh_dlq_depth (stmt_ok env Count_dlq) (st\<lparr>dlq := dlq st @
                 [\<lparr>dlq_id = new_uuid env, dlq_subscription_id = sid, dlq_event_id = tx_hash event,
                   dlq_payload = event_json codec event, dlq_last_error = Some last_error,
                   dlq_failed_at = now env, replayed_at = None\<rparr>]\<rparr>)))"

definition insert_failure ::
  "webhook_codec \<Rightarrow> bool \<Rightarrow> string \<Rightarrow> SorobanEvent \<Rightarrow> RetryPolicy \<Rightarrow> string \<Rightarrow> int \<Rightarrow> webhook_state \<Rightarrow> webhook_state" where
  "insert_failure codec ok url event pol err next_retry st =
     (if ok then st\<lparr>failures := failures st @
        [\<lparr>wf_url = url, wf_payload = event_json codec event, wf_attempts = sint (max_attempts pol),
          wf_last_error = err, wf_next_retry_at = next_retry\<rparr>]\<rparr>
      else st)"

section \<open>Delivery\<close>

definition is_success_status :: "nat \<Rightarrow> bool" where
  "is_success_status s \<longleftrightarrow> 200 \<le> s \<and> s < 300"

definition attempt_result :: "reply \<Rightarrow> string + unit" where
  "attempt_result r =
     (case r of
        Response s body \<Rightarrow> if is_success_status s then Inr () else Inl (''HTTP '' @ show_nat s @ '': '' @ body)
      | Send_error e \<Rightarrow> Inl (''Request error: '' @ e))"

definition delivery_request :: "webhook_codec \<Rightarrow> string \<Rightarrow> string option \<Rightarrow> string \<Rightarrow> string \<Rightarrow> http_request" where
  "delivery_request codec url secret priority body =
     \<lparr>req_url = url,
      req_headers = [(''Content-Type'', ''application/json''), (''X-Notification-Priority'', priority)]
        @ (case secret of None \<Rightarrow> [] | Some s \<Rightarrow> [(''X-Signature-256'', ''sha256='' @ sign_payload codec s body)]),
      req_body = body\<rparr>"

definition response_log :: "webhook_codec \<Rightarrow> http_request \<Rightarrow> reply \<Rightarrow> exchange" where
  "response_log codec req r =
     (case r of
        Response s body \<Rightarrow> \<lparr>ex_request = req, ex_status = Some s, ex_response =
           (if body = [] then None
            else Some (case parse_json codec body of Some v \<Rightarrow> v | None \<Rightarrow> JObject [(''raw'', JString body)]))\<rparr>
      | Send_error _ \<Rightarrow> \<lparr>ex_request = req, ex_status = None, ex_response = None\<rparr>)"

text \<open>The requests of the attempts \<open>1..n\<close>, with their log entries when there is a pool.\<close>

definition record_attempts :: "webhook_codec \<Rightarrow> webhook_env \<Rightarrow> http_request \<Rightarrow> nat \<Rightarrow> webhook_state \<Rightarrow> webhook_state" where
  "record_attempts codec env req n st =
     st\<lparr>sent := sent st @ replicate n req,
        exchanges := exchanges st @
          (if pool env then map (\<lambda>i. response_log codec req (send env (of_nat i))) [1..<Suc n] else [])\<rparr>"

definition finish_success :: "webhook_env \<Rightarrow> string \<Rightarrow> SorobanEvent \<Rightarrow> string \<Rightarrow> webhook_state \<Rightarrow> webhook_state" where
  "finish_success env url event priority st =
     (let st1 = st\<lparr>delivered_total := delivered_total st + 1\<rparr>;
          st2 = (if pool env then record_endpoint_success (stmt_ok env Reset_endpoint) url st1 else st1)
      in if pool env \<and> stmt_ok env Insert_ack
         then st2\<lparr>acks := acks st2 @ [\<lparr>ack_channel = ''webhook'', ack_contract_id = contract_id event,
                ack_event_type = event_type event, ack_priority = priority, ack_status = ''pending''\<rparr>]\<rparr>
         else st2)"

definition finish_failure ::
  "webhook_codec \<Rightarrow> webhook_env \<Rightarrow> RetryPolicy \<Rightarrow> string \<Rightarrow> SorobanEvent \<Rightarrow> string \<Rightarrow> webhook_state \<Rightarrow> webhook_state" where
  "finish_failure codec env pol url event err st =
     (let st3 = (if pool env
                 then let (next_retry, st1) = record_endpoint_failure (stmt_ok env Fail_endpoint) (now env) url st;
                          st2 = insert_failure codec (stmt_ok env Insert_failure) url event pol err next_retry st1
                      in snd (enqueue_dlq codec env None event err st2)
                 else st)
      in st3\<lparr>failed_total := failed_total st3 + 1\<rparr>)"

definition deliver_with_retry_policy ::
  "webhook_codec \<Rightarrow> expo \<Rightarrow> (u64 \<Rightarrow> u64) \<Rightarrow> webhook_env \<Rightarrow> string \<Rightarrow> string option \<Rightarrow> SorobanEvent
     \<Rightarrow> RetryPolicy \<Rightarrow> string \<Rightarrow> webhook_state \<Rightarrow> webhook_state" where
  "deliver_with_retry_policy codec expo jit env url secret event pol priority st =
     (if pool env \<and> stmt_ok env Select_suppressed \<and> is_suppressed (now env) url st
      then st\<lparr>suppressed_total := suppressed_total st + 1\<rparr>
      else
        let (limited, st1) = (if pool env then endpoint_rate_limited (stmt_ok env Upsert_endpoint) (now env) url st
                              else (Inr None, st))
        in case limited of
             Inr (Some next_retry_at) \<Rightarrow>
               enqueue_endpoint_retry codec (stmt_ok env Insert_retry) url event secret ''endpoint rate limited'' next_retry_at st1
           | _ \<Rightarrow>
               (case Option.bind (to_value codec event) (\<lambda>v. to_vec codec (with_priority priority v)) of
                  None \<Rightarrow> st1
                | Some body \<Rightarrow>
                    let (result, slept) = execute_with_retry expo jit pol (\<lambda>a. attempt_result (send env a));
                        st2 = record_attempts codec env (delivery_request codec url secret priority body) (length slept + 1) st1
                    in case result of
                         Inr _ \<Rightarrow> finish_success env url event priority st2
                       | Inl err \<Rightarrow> finish_failure codec env pol url event err st2))"

definition deliver ::
  "webhook_codec \<Rightarrow> expo \<Rightarrow> (u64 \<Rightarrow> u64) \<Rightarrow> webhook_env \<Rightarrow> string \<Rightarrow> string option \<Rightarrow> SorobanEvent \<Rightarrow> webhook_state \<Rightarrow> webhook_state" where
  "deliver codec expo jit env url secret event st =
     deliver_with_retry_policy codec expo jit env url secret event webhook_default ''medium'' st"

section \<open>Failover\<close>

definition failover_result :: "webhook_codec \<Rightarrow> reply \<Rightarrow> string + unit" where
  "failover_result codec r =
     (case r of
        Response s _ \<Rightarrow> if is_success_status s then Inr () else Inl (''HTTP '' @ status_line codec s)
      | Send_error e \<Rightarrow> Inl (''Request error: '' @ e))"

definition failover_request :: "webhook_codec \<Rightarrow> string \<Rightarrow> string option \<Rightarrow> string \<Rightarrow> http_request" where
  "failover_request codec url secret body =
     \<lparr>req_url = url,
      req_headers = (''Content-Type'', ''application/json'')
        # (case secret of None \<Rightarrow> [] | Some s \<Rightarrow> [(''X-Signature-256'', ''sha256='' @ sign_payload codec s body)]),
      req_body = body\<rparr>"

text \<open>One target with all its retries: whether it succeeded, and the requests and counter recorded.\<close>

definition try_target ::
  "webhook_codec \<Rightarrow> expo \<Rightarrow> (u64 \<Rightarrow> u64) \<Rightarrow> RetryPolicy \<Rightarrow> (u32 \<Rightarrow> reply) \<Rightarrow> http_request \<Rightarrow> webhook_state \<Rightarrow> bool \<times> webhook_state" where
  "try_target codec expo jit pol replies req st =
     (let (result, slept) = execute_with_retry expo jit pol (\<lambda>a. failover_result codec (replies a));
          st1 = st\<lparr>sent := sent st @ replicate (length slept + 1) req\<rparr>
      in case result of
           Inr _ \<Rightarrow> (True, st1\<lparr>delivered_total := delivered_total st1 + 1\<rparr>)
         | Inl _ \<Rightarrow> (False, st1))"

definition deliver_with_failover ::
  "webhook_codec \<Rightarrow> expo \<Rightarrow> (u64 \<Rightarrow> u64) \<Rightarrow> webhook_env \<Rightarrow> (u32 \<Rightarrow> reply) \<Rightarrow> string \<Rightarrow> string option \<Rightarrow> string option
     \<Rightarrow> string option \<Rightarrow> SorobanEvent \<Rightarrow> RetryPolicy \<Rightarrow> webhook_state \<Rightarrow> bool \<times> webhook_state" where
  "deliver_with_failover codec expo jit env failover_send primary_url primary_secret failover_url failover_secret event pol st =
     (case event_to_vec codec event of
        None \<Rightarrow> (False, st)
      | Some body \<Rightarrow>
          let (ok1, st1) = try_target codec expo jit pol (send env) (failover_request codec primary_url primary_secret body) st
          in if ok1 then (True, st1)
             else
               let (ok2, st2) = (case failover_url of
                      None \<Rightarrow> (False, st1)
                    | Some f_url \<Rightarrow> try_target codec expo jit pol failover_send
                        (failover_request codec f_url failover_secret body) (st1\<lparr>failover_total := failover_total st1 + 1\<rparr>))
               in if ok2 then (True, st2)
                  else
                    let st3 = (if pool env
                               then snd (enqueue_dlq codec env None event ''Primary and failover both failed''
                                      (insert_failure codec (stmt_ok env Insert_failure) primary_url event pol
                                         ''Primary and failover both failed'' (now env + 60 * SECOND) st2))
                               else st2)
                    in (False, st3\<lparr>failed_total := failed_total st3 + 1\<rparr>))"

section \<open>Replay of the dead-letter queue\<close>

definition replay_dlq_entry ::
  "webhook_codec \<Rightarrow> webhook_env \<Rightarrow> string \<Rightarrow> webhook_state \<Rightarrow> (unit + bool) \<times> webhook_state" where
  "replay_dlq_entry codec env i st =
     (if \<not> stmt_ok env Select_dlq then (Inl (), st)
      else case find (\<lambda>r. dlq_id r = i \<and> replayed_at r = None) (dlq st) of
             None \<Rightarrow> (Inr False, st)
           | Some row \<Rightarrow>
               (case from_value codec (dlq_payload row) of
                  None \<Rightarrow> (Inr False, st)
                | Some event \<Rightarrow>
                    let st1 = enqueue_endpoint_retry codec (stmt_ok env Insert_retry) (contract_id event) event None
                          (case dlq_last_error row of Some e \<Rightarrow> e | None \<Rightarrow> ''replayed from DLQ'') (now env) st
                    in if \<not> stmt_ok env Mark_replayed then (Inl (), st1)
                       else (Inr True, refresh_dlq_depth (stmt_ok env Count_dlq) (st1\<lparr>dlq :=
                              map (\<lambda>r. if dlq_id r = i then r\<lparr>replayed_at := Some (now env)\<rparr> else r) (dlq st1)\<rparr>))))"

fun replay_loop :: "webhook_codec \<Rightarrow> (string \<Rightarrow> webhook_env) \<Rightarrow> string list \<Rightarrow> nat \<Rightarrow> webhook_state \<Rightarrow> nat \<times> webhook_state" where
  "replay_loop codec envs [] n st = (n, st)"
| "replay_loop codec envs (i # ids) n st =
     (let (r, st') = replay_dlq_entry codec (envs i) i st
      in replay_loop codec envs ids (if r = Inr True then n + 1 else n) st')"

definition replay_dlq_bulk ::
  "webhook_codec \<Rightarrow> webhook_env \<Rightarrow> (string \<Rightarrow> webhook_env) \<Rightarrow> string option \<Rightarrow> webhook_state \<Rightarrow> (unit + nat) \<times> webhook_state" where
  "replay_dlq_bulk codec env envs subscription_id st =
     (if \<not> stmt_ok env Select_dlq then (Inl (), st)
      else let ids = map dlq_id (filter (\<lambda>r. case subscription_id of None \<Rightarrow> True | Some sid \<Rightarrow> dlq_subscription_id r = sid)
                                   (pending_dlq st));
               (n, st') = replay_loop codec envs ids 0 st
           in (Inr n, refresh_dlq_depth (stmt_ok env Count_dlq) st'))"

section \<open>Delivery outcomes\<close>

text \<open>The first attempt that the endpoint answers with success, within the limit of the policy.\<close>

definition first_delivered :: "RetryPolicy \<Rightarrow> (u32 \<Rightarrow> string + unit) \<Rightarrow> nat option" where
  "first_delivered pol att = find (\<lambda>i. is_success (att (of_nat i))) [1..<Suc (attempt_limit pol)]"

lemma attempt_limit_pos: "0 < attempt_limit pol"
  by (simp add: attempt_limit_def)

lemma retry_delivered:
  assumes "first_delivered pol att = Some k"
  shows "\<exists>slept. execute_with_retry expo jit pol att = (Inr (), slept) \<and> Suc (length slept) = k"
proof -
  have "1 \<le> k" "is_success (att (of_nat k))"
    using assms by (auto simp: first_delivered_def find_Some_iff nth_append simp del: upt_Suc)
  then show ?thesis
    using assms by (cases "att (of_nat k)")
      (auto simp: execute_with_retry_result first_delivered_def is_success_def Let_def)
qed

lemma retry_undelivered:
  assumes "first_delivered pol att = None"
  shows "\<exists>err slept. execute_with_retry expo jit pol att = (Inl err, slept) \<and> Suc (length slept) = attempt_limit pol"
proof -
  have "\<not> is_success (att (of_nat (attempt_limit pol)))"
    using assms attempt_limit_pos [of pol] by (auto simp: first_delivered_def find_None_iff simp del: upt_Suc)
  then show ?thesis
    using assms attempt_limit_pos [of pol] by (cases "att (of_nat (attempt_limit pol))")
      (auto simp: execute_with_retry_result first_delivered_def is_success_def Let_def simp del: upt_Suc)
qed

lemma record_attempts_simps [simp]:
  "sent (record_attempts codec env req n st) = sent st @ replicate n req"
  "endpoints (record_attempts codec env req n st) = endpoints st"
  "failures (record_attempts codec env req n st) = failures st"
  "retry_queue (record_attempts codec env req n st) = retry_queue st"
  "dlq (record_attempts codec env req n st) = dlq st"
  "acks (record_attempts codec env req n st) = acks st"
  "failed_total (record_attempts codec env req n st) = failed_total st"
  by (simp_all add: record_attempts_def)

lemma endpoint_rate_limited_frame:
  assumes "endpoint_rate_limited ok t url st = (r, st')"
  shows "sent st' = sent st \<and> failures st' = failures st \<and> retry_queue st' = retry_queue st
    \<and> dlq st' = dlq st \<and> acks st' = acks st"
  using assms by (auto simp: endpoint_rate_limited_def Let_def split: if_splits)

lemma endpoint_rate_limited_later:
  assumes "endpoint_rate_limited ok t url st = (Inr (Some b), st')"
  shows "t < b"
  using assms by (auto simp: endpoint_rate_limited_def Let_def SECOND_def split: if_splits option.splits)

lemma endpoint_rate_limited_row:
  assumes "in_i32 (ep_window_count (touch_endpoint t (endpoints st url)))"
  shows "\<exists>r. endpoint_rate_limited True t url st =
    (Inr r, st\<lparr>endpoints := (endpoints st)(url \<mapsto> touch_endpoint t (endpoints st url))\<rparr>)"
  using assms by (auto simp: endpoint_rate_limited_def Let_def)

text \<open>What a delivery that reaches the endpoint leaves behind.\<close>

definition delivered_in :: "webhook_env \<Rightarrow> string \<Rightarrow> SorobanEvent \<Rightarrow> webhook_state \<Rightarrow> webhook_state \<Rightarrow> bool" where
  "delivered_in env url event st st' \<longleftrightarrow>
     failures st' = failures st \<and> length (acks st') = length (acks st) + 1
     \<and> ack_contract_id (last (acks st')) = contract_id event
     \<and> (\<exists>e. endpoints st' url = Some e \<and> health_status e = ''healthy'' \<and> backoff_until e = None \<and> ep_consecutive_failures e = 0)"

definition failed_in ::
  "webhook_codec \<Rightarrow> webhook_env \<Rightarrow> RetryPolicy \<Rightarrow> string \<Rightarrow> SorobanEvent \<Rightarrow> webhook_state \<Rightarrow> webhook_state \<Rightarrow> bool" where
  "failed_in codec env pol url event st st' \<longleftrightarrow>
     acks st' = acks st \<and> failed_total st' = failed_total st + 1
     \<and> (\<exists>row. failures st' = failures st @ [row] \<and> wf_url row = url \<and> wf_payload row = event_json codec event
              \<and> wf_next_retry_at row = now env + 60 * SECOND)"

lemma finish_success_outcome:
  assumes "pool env" and "\<forall>s. stmt_ok env s" and "endpoints st url = Some e"
    and "failures st = failures st0" and "acks st = acks st0"
  shows "delivered_in env url event st0 (finish_success env url event priority st)"
    and "sent (finish_success env url event priority st) = sent st"
    and "retry_queue (finish_success env url event priority st) = retry_queue st"
    and "dlq (finish_success env url event priority st) = dlq st"
  using assms by (simp_all add: finish_success_def delivered_in_def record_endpoint_success_def Let_def)

lemma finish_failure_outcome:
  assumes "pool env" and "\<forall>s. stmt_ok env s"
    and "failures st = failures st0" and "acks st = acks st0" and "failed_total st = failed_total st0"
  shows "failed_in codec env pol url event st0 (finish_failure codec env pol url event err st)"
    and "sent (finish_failure codec env pol url event err st) = sent st"
    and "retry_queue (finish_failure codec env pol url event err st) = retry_queue st"
    and "dlq (finish_failure codec env pol url event err st) = dlq st"
  using assms
  by (auto simp: finish_failure_def failed_in_def record_endpoint_failure_def insert_failure_def enqueue_dlq_def
      Let_def split: option.split)

text \<open>
  C36. Where an event handed to webhook delivery ends up, when the statements succeed: a suppressed
  URL gets nothing; an endpoint over its limit or in backoff gets a pending retry row with a time in
  the future and no request; otherwise the request is sent once per attempt up to the first success
  or the limit of the policy, a success is acknowledged and resets the endpoint, and an exhausted
  delivery leaves one failure row with the event and is counted.
\<close>

theorem webhook_outcome:
  assumes "pool env" and "\<forall>s. stmt_ok env s"
    and "to_value codec event = Some v" and "to_vec codec (with_priority priority v) = Some body"
    and "in_i32 (ep_window_count (touch_endpoint (now env) (endpoints st url)))"
  shows "let st' = deliver_with_retry_policy codec expo jit env url secret event pol priority st;
             req = delivery_request codec url secret priority body
    in if is_suppressed (now env) url st then st' = st\<lparr>suppressed_total := suppressed_total st + 1\<rparr>
       else case fst (endpoint_rate_limited True (now env) url st) of
              Inr (Some t) \<Rightarrow> now env < t \<and> sent st' = sent st \<and>
                (\<exists>row. retry_queue st' = retry_queue st @ [row] \<and> rq_url row = url
                   \<and> rq_payload row = event_json codec event \<and> rq_next_retry_at row = t \<and> rq_status row = ''pending'')
            | _ \<Rightarrow> retry_queue st' = retry_queue st \<and>
                (case first_delivered pol (\<lambda>a. attempt_result (send env a)) of
                   Some k \<Rightarrow> sent st' = sent st @ replicate k req \<and> delivered_in env url event st st'
                 | None \<Rightarrow> sent st' = sent st @ replicate (attempt_limit pol) req \<and> failed_in codec env pol url event st st')"
proof -
  let ?lim = "endpoint_rate_limited True (now env) url st"
  obtain r where lim: "?lim = (Inr r, st\<lparr>endpoints := (endpoints st)(url \<mapsto> touch_endpoint (now env) (endpoints st url))\<rparr>)"
    using endpoint_rate_limited_row [OF assms(5)] by blast
  consider (sup) "is_suppressed (now env) url st"
    | (lim) t where "\<not> is_suppressed (now env) url st" "r = Some t"
    | (del) k where "\<not> is_suppressed (now env) url st" "r = None"
        "first_delivered pol (\<lambda>a. attempt_result (send env a)) = Some k"
    | (fail) "\<not> is_suppressed (now env) url st" "r = None"
        "first_delivered pol (\<lambda>a. attempt_result (send env a)) = None"
    by (cases r; cases "first_delivered pol (\<lambda>a. attempt_result (send env a))") auto
  then show ?thesis
  proof cases
    case sup
    then show ?thesis
      using assms by (simp add: deliver_with_retry_policy_def)
  next
    case (lim t)
    then show ?thesis
      using assms \<open>?lim = _\<close> endpoint_rate_limited_later [of True "now env" url st t]
      by (simp add: deliver_with_retry_policy_def enqueue_endpoint_retry_def Let_def)
  next
    case (del k)
    obtain slept where "execute_with_retry expo jit pol (\<lambda>a. attempt_result (send env a)) = (Inr (), slept)"
      "Suc (length slept) = k"
      using retry_delivered [OF del(3)] by blast
    then show ?thesis
      using assms del \<open>?lim = _\<close>
      by (simp add: deliver_with_retry_policy_def finish_success_outcome [where ?st0.0 = st])
  next
    case fail
    obtain err slept where "execute_with_retry expo jit pol (\<lambda>a. attempt_result (send env a)) = (Inl err, slept)"
      "Suc (length slept) = attempt_limit pol"
      using retry_undelivered [OF fail(3)] by blast
    then show ?thesis
      using assms fail \<open>?lim = _\<close>
      by (simp add: deliver_with_retry_policy_def finish_failure_outcome [where ?st0.0 = st])
  qed
qed

definition example_codec :: webhook_codec where
  "example_codec = \<lparr>to_value = (\<lambda>e. Some (JObject [(''contractId'', JString (contract_id e))])),
     from_value = (\<lambda>v. Some sample_event), to_vec = (\<lambda>v. Some ''{}''), event_to_vec = (\<lambda>e. Some ''{}''),
     parse_json = (\<lambda>s. None), hmac_hex = (\<lambda>k b. k @ b), sha256_hex = (\<lambda>s. s), status_line = show_nat\<rparr>"

definition example_webhook_env :: webhook_env where
  "example_webhook_env = \<lparr>pool = True, stmt_ok = (\<lambda>s. True), now = 0,
     send = (\<lambda>a. if a = 2 then Response 204 [] else Response 500 ''busy''), new_uuid = ''u1''\<rparr>"

definition empty_webhook_state :: webhook_state where
  "empty_webhook_state = \<lparr>suppressions = [], endpoints = Map.empty, failures = [], retry_queue = [], dlq = [], acks = [],
     sent = [], exchanges = [], suppressed_total = 0, delivered_total = 0, failed_total = 0, failover_total = 0, dlq_depth = 0\<rparr>"

theorem webhook_outcome_witness:
  "let st' = deliver_with_retry_policy example_codec (\<lambda>_ _ _. 0) id example_webhook_env ''u'' (Some ''k'') sample_event
               RetryPolicy_default ''high'' empty_webhook_state
   in sent st' = replicate 2 (delivery_request example_codec ''u'' (Some ''k'') ''high'' ''{}'')
      \<and> delivered_in example_webhook_env ''u'' sample_event empty_webhook_state st'"
proof -
  let ?pol = RetryPolicy_default
  have "first_delivered ?pol (\<lambda>a. attempt_result (send example_webhook_env a)) = Some 2"
    by code_simp
  moreover have "\<not> is_suppressed (now example_webhook_env) ''u'' empty_webhook_state"
    and "fst (endpoint_rate_limited True (now example_webhook_env) ''u'' empty_webhook_state) = Inr None"
    and "in_i32 (ep_window_count (touch_endpoint (now example_webhook_env) (endpoints empty_webhook_state ''u'')))"
    by code_simp+
  ultimately show ?thesis
    using webhook_outcome [of example_webhook_env example_codec sample_event
        "JObject [(''contractId'', JString (contract_id sample_event))]" "''high''" "''{}''" empty_webhook_state "''u''"
        "\<lambda>_ _ _. 0" id "Some ''k''" ?pol]
    by (simp add: example_codec_def example_webhook_env_def empty_webhook_state_def Let_def)
qed

text \<open>
  Both callers of \<open>enqueue_dlq\<close> pass no subscription, which the \<open>NOT NULL\<close> column refuses: no delivery
  ever reaches the dead-letter queue.
\<close>

lemma dlq_frame:
  "dlq (record_endpoint_success ok url st) = dlq st"
  "dlq (snd (record_endpoint_failure ok t url st)) = dlq st"
  "dlq (insert_failure codec ok url event pol err n st) = dlq st"
  "dlq (enqueue_endpoint_retry codec ok url event secret reason n st) = dlq st"
  "dlq (snd (enqueue_dlq codec env None event err st)) = dlq st"
  "dlq (snd (endpoint_rate_limited ok t url st)) = dlq st"
  by (simp_all add: record_endpoint_success_def record_endpoint_failure_def insert_failure_def enqueue_endpoint_retry_def
      enqueue_dlq_def endpoint_rate_limited_def Let_def split: option.split)

lemma dlq_never_filled:
  "dlq (deliver_with_retry_policy codec expo jit env url secret event pol priority st) = dlq st"
  using dlq_frame(6) [of "stmt_ok env Upsert_endpoint" "now env" url st]
  by (auto simp: deliver_with_retry_policy_def finish_success_def finish_failure_def dlq_frame Let_def case_prod_beta
      split: sum.split option.split bind_split)

section \<open>Endpoint backoff\<close>

lemma fail_endpoints:
  assumes "endpoints st url = Some e" and "ts \<noteq> []" and "ep_consecutive_failures e = n" and "0 \<le> n"
    and "n + int (length ts) \<le> i32_max"
  shows "\<exists>e'. endpoints (fold (\<lambda>t s. snd (record_endpoint_failure True t url s)) ts st) url = Some e'
    \<and> ep_consecutive_failures e' = n + int (length ts)
    \<and> health_status e' = (if n + int (length ts) \<ge> 3 then ''unhealthy'' else ''degraded'')
    \<and> backoff_until e' = Some (last ts + min 900 (2 ^ nat (min (n + int (length ts)) 10)) * SECOND)
    \<and> per_minute_limit e' = per_minute_limit e \<and> ep_window_count e' = ep_window_count e \<and> ep_window_start e' = ep_window_start e"
  using assms
proof (induction ts arbitrary: st e n)
  case (Cons t ts)
  let ?st = "snd (record_endpoint_failure True t url st)"
  have row: "endpoints ?st url = Some (fail_endpoint t e)"
    using Cons.prems by (simp add: record_endpoint_failure_def in_i32_def i32_min_def)
  show ?case
  proof (cases "ts = []")
    case True
    then show ?thesis
      using row Cons.prems by (simp add: fail_endpoint_def Let_def)
  next
    case False
    then show ?thesis
      using Cons.IH [OF row, of "n + 1"] Cons.prems by (simp add: fail_endpoint_def Let_def add.assoc)
  qed
qed simp

text \<open>
  The endpoint backoff: after \<open>n\<close> consecutive exhausted deliveries the endpoint is degraded, from
  the third on unhealthy, and receives nothing before \<open>min(900, 2^min(n,10))\<close> seconds after the last
  of them; one success makes it healthy again and lifts the backoff.
\<close>

theorem endpoint_backoff:
  assumes "endpoints st url = Some e" and "ep_consecutive_failures e = 0"
    and "ts \<noteq> []" and "int (length ts) \<le> i32_max" and "in_i32 (ep_window_count e + 1)"
  shows "let st' = fold (\<lambda>t s. snd (record_endpoint_failure True t url s)) ts st;
             b = last ts + min 900 (2 ^ min (length ts) 10) * SECOND
    in (\<exists>e'. endpoints st' url = Some e' \<and> health_status e' = (if length ts \<ge> 3 then ''unhealthy'' else ''degraded''))
       \<and> (\<forall>t < b. fst (endpoint_rate_limited True t url st') = Inr (Some b))
       \<and> (\<exists>e'. endpoints (record_endpoint_success True url st') url = Some e' \<and> health_status e' = ''healthy''
              \<and> backoff_until e' = None \<and> ep_consecutive_failures e' = 0)"
proof -
  define n where "n = length ts"
  define st' where "st' = fold (\<lambda>t s. snd (record_endpoint_failure True t url s)) ts st"
  obtain e' where e': "endpoints st' url = Some e'" "health_status e' = (if n \<ge> 3 then ''unhealthy'' else ''degraded'')"
    "backoff_until e' = Some (last ts + min 900 (2 ^ nat (min (int n) 10)) * SECOND)" "ep_window_count e' = ep_window_count e"
    using fail_endpoints [OF assms(1,3) refl] assms(2,4) unfolding st'_def n_def by auto
  have b: "nat (min (int n) 10) = min n 10"
    by auto
  have "fst (endpoint_rate_limited True t url st') = Inr (Some (last ts + min 900 (2 ^ min n 10) * SECOND))"
    if "t < last ts + min 900 (2 ^ min n 10) * SECOND" for t
    using that e' assms(5)
    by (auto simp: endpoint_rate_limited_def touch_endpoint_def Let_def b in_i32_def i32_min_def i32_max_def)
  moreover have "\<exists>e'. endpoints (record_endpoint_success True url st') url = Some e' \<and> health_status e' = ''healthy''
      \<and> backoff_until e' = None \<and> ep_consecutive_failures e' = 0"
    using e'(1) by (simp add: record_endpoint_success_def)
  ultimately show ?thesis
    unfolding Let_def st'_def [symmetric] n_def [symmetric] using e'(1,2) by blast
qed

theorem endpoint_backoff_witness:
  "let st = snd (endpoint_rate_limited True 0 ''u'' empty_webhook_state);
       st' = fold (\<lambda>t s. snd (record_endpoint_failure True t ''u'' s)) [10, 20, 30] st
   in fst (endpoint_rate_limited True 8000029 ''u'' st') = Inr (Some 8000030)"
proof -
  let ?e = "\<lparr>per_minute_limit = 60, ep_window_start = 0, ep_window_count = 1, ep_consecutive_failures = 0,
    backoff_until = None, health_status = ''healthy''\<rparr>"
  let ?st = "snd (endpoint_rate_limited True 0 ''u'' empty_webhook_state)"
  have "endpoints ?st ''u'' = Some ?e"
    by code_simp
  then show ?thesis
    using endpoint_backoff [of ?st "''u''" ?e "[10, 20, 30]"]
    by (simp add: Let_def in_i32_def i32_min_def i32_max_def SECOND_def)
qed

section \<open>Replay\<close>

lemma refresh_simps [simp]:
  "dlq (refresh_dlq_depth ok st) = dlq st" "retry_queue (refresh_dlq_depth ok st) = retry_queue st"
  "pending_dlq (refresh_dlq_depth ok st) = pending_dlq st"
  "pending_dlq (st\<lparr>retry_queue := q\<rparr>) = pending_dlq st"
  by (simp_all add: refresh_dlq_depth_def pending_dlq_def)

lemma pending_mark:
  "filter (\<lambda>r. replayed_at r = None) (map (\<lambda>r. if dlq_id r = i then r\<lparr>replayed_at := Some t\<rparr> else r) rows)
     = filter (\<lambda>r. dlq_id r \<noteq> i) (filter (\<lambda>r. replayed_at r = None) rows)"
  by (induction rows) auto

text \<open>One entry: it is queued once and leaves the pending rows, whatever the others are.\<close>

lemma replay_entry_step:
  assumes "\<forall>s. stmt_ok env s" and "i \<in> dlq_id ` set (pending_dlq st)"
    and "\<forall>r \<in> set (dlq st). from_value codec (dlq_payload r) \<noteq> None"
  shows "\<exists>row st'. replay_dlq_entry codec env i st = (Inr True, st')
    \<and> retry_queue st' = retry_queue st @ [row] \<and> rq_status row = ''pending''
    \<and> pending_dlq st' = filter (\<lambda>r. dlq_id r \<noteq> i) (pending_dlq st)
    \<and> (\<forall>r \<in> set (dlq st'). from_value codec (dlq_payload r) \<noteq> None)"
proof -
  obtain row where row: "find (\<lambda>r. dlq_id r = i \<and> replayed_at r = None) (dlq st) = Some row" "row \<in> set (dlq st)"
  proof (cases "find (\<lambda>r. dlq_id r = i \<and> replayed_at r = None) (dlq st)")
    case None
    then show ?thesis using assms(2) by (auto simp: find_None_iff pending_dlq_def)
  next
    case (Some row)
    then show ?thesis using that [OF Some] by (auto simp: find_Some_iff)
  qed
  then obtain event where "from_value codec (dlq_payload row) = Some event"
    using assms(3) by blast
  then show ?thesis
    using row assms(1,3)
    by (auto simp: replay_dlq_entry_def enqueue_endpoint_retry_def Let_def) (simp add: pending_dlq_def pending_mark)
qed

lemma replay_loop_all:
  assumes "\<forall>i s. stmt_ok (envs i) s" and "set ids \<subseteq> dlq_id ` set (pending_dlq st)" and "distinct ids"
    and "\<forall>r \<in> set (dlq st). from_value codec (dlq_payload r) \<noteq> None"
  shows "\<exists>rows st'. replay_loop codec envs ids n st = (n + length ids, st')
    \<and> retry_queue st' = retry_queue st @ rows \<and> length rows = length ids
    \<and> pending_dlq st' = filter (\<lambda>r. dlq_id r \<notin> set ids) (pending_dlq st)"
  using assms
proof (induction ids arbitrary: n st)
  case Nil
  then show ?case by simp
next
  case (Cons i ids)
  have "i \<in> dlq_id ` set (pending_dlq st)" "\<forall>s. stmt_ok (envs i) s"
    using Cons.prems by auto
  from replay_entry_step [OF this(2,1) Cons.prems(4)] obtain row st1 where
    st1: "replay_dlq_entry codec (envs i) i st = (Inr True, st1)" "retry_queue st1 = retry_queue st @ [row]"
    "pending_dlq st1 = filter (\<lambda>r. dlq_id r \<noteq> i) (pending_dlq st)"
    "\<forall>r \<in> set (dlq st1). from_value codec (dlq_payload r) \<noteq> None"
    by blast
  have "set ids \<subseteq> dlq_id ` set (pending_dlq st1)"
    using Cons.prems(2,3) st1(3) by fastforce
  from Cons.IH [OF Cons.prems(1) this _ st1(4), of "n + 1"] Cons.prems(3) obtain rows st' where
    "replay_loop codec envs ids (n + 1) st1 = (n + 1 + length ids, st')"
    "retry_queue st' = retry_queue st1 @ rows" "length rows = length ids"
    "pending_dlq st' = filter (\<lambda>r. dlq_id r \<notin> set ids) (pending_dlq st1)"
    by auto
  then show ?case
    using st1 by (intro exI [of _ "row # rows"] exI [of _ st']) (auto simp: conj_commute)
qed

definition replay_matches :: "string option \<Rightarrow> dlq_row \<Rightarrow> bool" where
  "replay_matches subscription_id r \<longleftrightarrow> (case subscription_id of None \<Rightarrow> True | Some sid \<Rightarrow> dlq_subscription_id r = sid)"

text \<open>
  Bulk replay of the dead-letter queue takes every pending entry of the subscription (or all)
  exactly once: it reports their number, queues one retry for each, leaves the other entries
  pending, keeps the depth gauge equal to the pending entries, and a second replay finds nothing.
\<close>

theorem replay_dlq_once:
  assumes "\<forall>s. stmt_ok env s" and "\<forall>i s. stmt_ok (envs i) s" and "distinct (map dlq_id (dlq st))"
    and "\<forall>r \<in> set (dlq st). from_value codec (dlq_payload r) \<noteq> None"
  shows "let (r, st') = replay_dlq_bulk codec env envs sub st; todo = filter (replay_matches sub) (pending_dlq st)
    in r = Inr (length todo)
       \<and> (\<exists>rows. retry_queue st' = retry_queue st @ rows \<and> length rows = length todo)
       \<and> pending_dlq st' = filter (\<lambda>r. \<not> replay_matches sub r) (pending_dlq st)
       \<and> dlq_depth st' = length (pending_dlq st')
       \<and> fst (replay_dlq_bulk codec env envs sub st') = Inr 0"
proof -
  let ?todo = "filter (replay_matches sub) (pending_dlq st)"
  have sel: "replay_dlq_bulk codec env envs sub s =
      (let (n, st') = replay_loop codec envs (map dlq_id (filter (replay_matches sub) (pending_dlq s))) 0 s
       in (Inr n, refresh_dlq_depth True st'))" for s
    using assms(1) by (simp add: replay_dlq_bulk_def replay_matches_def [abs_def] Let_def)
  have "distinct (map dlq_id (pending_dlq st))"
    using assms(3) by (simp add: pending_dlq_def distinct_map_filter)
  then have inj: "inj_on dlq_id (set (pending_dlq st))" and "distinct (map dlq_id ?todo)"
    by (auto simp: distinct_map intro: inj_on_subset)
  then obtain rows st' where st':
    "replay_loop codec envs (map dlq_id ?todo) 0 st = (length ?todo, st')"
    "retry_queue st' = retry_queue st @ rows" "length rows = length ?todo"
    "pending_dlq st' = filter (\<lambda>r. dlq_id r \<notin> set (map dlq_id ?todo)) (pending_dlq st)"
    using replay_loop_all [OF assms(2) _ _ assms(4), of "map dlq_id ?todo" 0] by auto
  have "pending_dlq st' = filter (\<lambda>r. \<not> replay_matches sub r) (pending_dlq st)"
    unfolding st'(4) using inj by (intro filter_cong refl) (auto simp: inj_on_eq_iff)
  then show ?thesis
    using st'(1-3) unfolding sel [of st]
    by (simp add: sel refresh_dlq_depth_def) (simp add: pending_dlq_def)
qed

theorem replay_dlq_once_witness:
  "let row = \<lparr>dlq_id = ''a'', dlq_subscription_id = ''s'', dlq_event_id = ''t'', dlq_payload = JNull,
               dlq_last_error = None, dlq_failed_at = 0, replayed_at = None\<rparr>;
       st = empty_webhook_state\<lparr>dlq := [row, row\<lparr>dlq_id := ''b'', dlq_subscription_id := ''x''\<rparr>]\<rparr>;
       (r, st') = replay_dlq_bulk example_codec example_webhook_env (\<lambda>_. example_webhook_env) (Some ''s'') st
   in r = Inr 1 \<and> dlq_depth st' = 1
      \<and> fst (replay_dlq_bulk example_codec example_webhook_env (\<lambda>_. example_webhook_env) (Some ''s'') st') = Inr 0"
proof -
  let ?row = "\<lparr>dlq_id = ''a'', dlq_subscription_id = ''s'', dlq_event_id = ''t'', dlq_payload = JNull,
               dlq_last_error = None, dlq_failed_at = 0, replayed_at = None\<rparr>"
  show ?thesis
    using replay_dlq_once [of example_webhook_env "\<lambda>_. example_webhook_env"
        "empty_webhook_state\<lparr>dlq := [?row, ?row\<lparr>dlq_id := ''b'', dlq_subscription_id := ''x''\<rparr>]\<rparr>"
        example_codec "Some ''s''"]
    by (auto simp: example_webhook_env_def example_codec_def pending_dlq_def empty_webhook_state_def replay_matches_def Let_def)
qed

text \<open>A replayed entry is queued for the contract id of its event instead of a URL, and unsigned.\<close>

lemma replay_url_is_contract_id:
  assumes "find (\<lambda>r. dlq_id r = i \<and> replayed_at r = None) (dlq st) = Some row"
    and "from_value codec (dlq_payload row) = Some event" and "\<forall>s. stmt_ok env s"
  shows "\<exists>q. retry_queue (snd (replay_dlq_entry codec env i st)) = retry_queue st @ [q]
    \<and> rq_url q = contract_id event \<and> rq_secret_hash q = None"
  using assms by (simp add: replay_dlq_entry_def enqueue_endpoint_retry_def Let_def)

section \<open>Failover outcomes\<close>

lemma try_target_ok: "fst (try_target codec expo jit pol replies req st)
    \<longleftrightarrow> first_delivered pol (\<lambda>a. failover_result codec (replies a)) \<noteq> None"
proof (cases "first_delivered pol (\<lambda>a. failover_result codec (replies a))")
  case None
  then obtain err slept where "execute_with_retry expo jit pol (\<lambda>a. failover_result codec (replies a)) = (Inl err, slept)"
    using retry_undelivered by blast
  then show ?thesis using None by (simp add: try_target_def)
next
  case (Some k)
  then obtain slept where "execute_with_retry expo jit pol (\<lambda>a. failover_result codec (replies a)) = (Inr (), slept)"
    using retry_delivered by blast
  then show ?thesis using Some by (simp add: try_target_def)
qed

lemma deliver_with_failover_result:
  assumes "event_to_vec codec event = Some body"
  shows "fst (deliver_with_failover codec expo jit env failover_send primary_url s1 failover_url s2 event pol st) \<longleftrightarrow>
    first_delivered pol (\<lambda>a. failover_result codec (send env a)) \<noteq> None
    \<or> failover_url \<noteq> None \<and> first_delivered pol (\<lambda>a. failover_result codec (failover_send a)) \<noteq> None"
  using assms
  by (auto simp: deliver_with_failover_def Let_def case_prod_beta try_target_ok split: option.split)

end
