(* ===== verification/Backfill.thy ===== *)
theory Backfill
  imports Toid Event_Model
begin

text \<open>
  Model of \<open>src/backfill.rs\<close>: planning the ranges of a historical backfill, the layout of the ledger
  data lake, turning a ledger's metadata into events numbered like the RPC's, and the worker loop
  that downloads, stores and checkpoints file by file.

  The XDR types are those of the stellar-xdr crate as far as the code reads them; fetching (HTTP),
  decompressing and decoding a file, printing a close time, and the event sink are parameters.
\<close>

section \<open>Ranges\<close>

record DatastoreSchema =
  ledgers_per_batch :: u32
  batches_per_partition :: u32
  compression :: string

text \<open>\<open>--backfill-from\<close> and \<open>--backfill-to\<close>, with the value inline after \<open>=\<close> or in the next argument.\<close>

datatype cli_error = Requires_number string | Invalid_ledger string string | From_after_to | Only_one

fun cli_loop :: "nat option \<Rightarrow> nat option \<Rightarrow> string list \<Rightarrow> cli_error + nat option \<times> nat option" where
  "cli_loop from to [] = Inr (from, to)"
| "cli_loop from to (arg # args) =
     (let (flag, inline) = (case split_once (CHR ''='') arg of Some (f, v) \<Rightarrow> (f, Some v) | None \<Rightarrow> (arg, None))
      in if flag \<noteq> ''--backfill-from'' \<and> flag \<noteq> ''--backfill-to'' then cli_loop from to args
         else case (inline, args) of
                (None, []) \<Rightarrow> Inl (Requires_number flag)
              | (None, raw # rest) \<Rightarrow>
                  (case parse_u32 raw of
                     None \<Rightarrow> Inl (Invalid_ledger flag raw)
                   | Some n \<Rightarrow> if flag = ''--backfill-from'' then cli_loop (Some n) to rest else cli_loop from (Some n) rest)
              | (Some raw, _) \<Rightarrow>
                  (case parse_u32 raw of
                     None \<Rightarrow> Inl (Invalid_ledger flag raw)
                   | Some n \<Rightarrow> if flag = ''--backfill-from'' then cli_loop (Some n) to args else cli_loop from (Some n) args))"

definition parse_cli_range :: "string list \<Rightarrow> cli_error + (nat \<times> nat) option" where
  "parse_cli_range args =
     (case cli_loop None None args of
        Inl e \<Rightarrow> Inl e
      | Inr (None, None) \<Rightarrow> Inr None
      | Inr (Some f, Some t) \<Rightarrow> if f \<le> t then Inr (Some (f, t)) else Inl From_after_to
      | _ \<Rightarrow> Inl Only_one)"

lemma saturating_add_ge: "a \<le> saturating_add a b" for a b :: u32
  using u32_bound [of a] by (simp add: word_le_nat_alt unat_saturating_add)

function split_loop :: "u32 \<Rightarrow> u32 \<Rightarrow> u32 \<Rightarrow> (u32 \<times> u32) list" where
  "split_loop chunk end s =
     (if s \<le> end
      then let e = min (saturating_add s (chunk - 1)) end
           in (s, e) # (if e = - 1 then [] else split_loop chunk end (e + 1))
      else [])"
  by pat_completeness auto
termination
proof (relation "measure (\<lambda>(c, b, s). unat b + 1 - unat s)", goal_cases)
  case (2 c b s e)
  have "s \<le> e"
    using 2(1,2) saturating_add_ge [of s "c - 1"] by simp
  moreover have "e < e + 1"
    using 2(3) by (rule word_less_inc)
  ultimately have "unat s < unat (e + 1)"
    by (simp add: word_le_nat_alt word_less_nat_alt)
  then show ?case
    using 2(1) by (auto simp: word_le_nat_alt)
qed simp

declare split_loop.simps [simp del]

definition split_range :: "u32 \<Rightarrow> u32 \<Rightarrow> u32 \<Rightarrow> (u32 \<times> u32) list" where
  "split_range start end chunk = split_loop (max chunk 1) end start"

definition file_bounds :: "DatastoreSchema \<Rightarrow> u32 \<Rightarrow> u32 \<times> u32" where
  "file_bounds schema seq =
     (let per_file = max (ledgers_per_batch schema) 1; start = seq - seq mod per_file
      in (start, saturating_add start (per_file - 1)))"

definition hex_upper :: "nat \<Rightarrow> char" where
  "hex_upper d = (if d < 10 then char_of (48 + d) else char_of (55 + d))"

fun show_hex :: "nat \<Rightarrow> string" where
  "show_hex n = (if n < 16 then [hex_upper n] else show_hex (n div 16) @ [hex_upper (n mod 16)])"

declare show_hex.simps [simp del]

definition hex8 :: "nat \<Rightarrow> string" where
  "hex8 n = (let s = show_hex n in replicate (8 - length s) (CHR ''0'') @ s)"

definition u32_max :: nat where "u32_max = 2 ^ 32 - 1"

definition object_key :: "DatastoreSchema \<Rightarrow> u32 \<Rightarrow> string" where
  "object_key schema seq =
     (let partition =
            (if batches_per_partition schema > 1
             then let size = unat (max (ledgers_per_batch schema) 1) * unat (batches_per_partition schema);
                      start = unat seq div size * size;
                      end = min (start + size - 1) u32_max
                  in hex8 (u32_max - start) @ ''--'' @ show_nat start @ ''-'' @ show_nat end @ ''/''
             else []);
          (start, end) = file_bounds schema seq
      in partition @ hex8 (u32_max - unat start) @ ''--'' @ show_nat (unat start)
         @ (if end \<noteq> start then ''-'' @ show_nat (unat end) else [])
         @ (if compression schema = ''zstd'' then ''.xdr.zst'' else ''.xdr''))"

section \<open>Events of a ledger\<close>

datatype ContractEventType = Ce_contract | Ce_system | Ce_diagnostic

record ContractEvent =
  ce_contract_id :: "string option"
  ce_type :: ContractEventType
  ce_topics :: "string list"
  ce_data :: string

datatype TransactionEventStage = BeforeAllTxs | AfterAllTxs | AfterTx

datatype TransactionMeta =
  MetaV3 "ContractEvent list"
| MetaV4 "ContractEvent list list" "(TransactionEventStage \<times> ContractEvent) list"
| MetaOther

record ledger_tx =
  ltx_hash :: string
  ltx_success :: bool
  ltx_meta :: TransactionMeta

record ledger_header =
  lh_seq :: u32
  lh_version :: u32
  lh_close_time :: nat
  lh_hash :: string

datatype LedgerCloseMeta =
  LedgerV0 ledger_header
| LedgerV1 ledger_header "ledger_tx list"
| LedgerV2 ledger_header "ledger_tx list"

fun meta_header :: "LedgerCloseMeta \<Rightarrow> ledger_header" where
  "meta_header (LedgerV0 h) = h" | "meta_header (LedgerV1 h _) = h" | "meta_header (LedgerV2 h _) = h"

definition ledger_seq :: "LedgerCloseMeta \<Rightarrow> u32" where
  "ledger_seq m = lh_seq (meta_header m)"

definition meta_protocol_version :: "LedgerCloseMeta \<Rightarrow> u32" where
  "meta_protocol_version m = lh_version (meta_header m)"

definition event_toid :: "u32 \<Rightarrow> u64 \<Rightarrow> nat \<Rightarrow> u64" where
  "event_toid seq tx_slot op_no =
     push_bit 32 (ucast seq) OR (push_bit 12 (tx_slot AND 0xFFFFF) OR (of_nat op_no AND 0xFFF))"

definition padded :: "nat \<Rightarrow> nat \<Rightarrow> string" where
  "padded w n = zero_padded (w - length (show_nat n)) n"

definition event_rpc_id :: "u64 \<Rightarrow> nat \<Rightarrow> string" where
  "event_rpc_id ident k = padded 19 (unat ident) @ ''-'' @ padded 10 k"

text \<open>
  The loops over the transactions are written for any \<open>push tx slot op k ev\<close>, which the code calls
  with the transaction slot, the operation and the running index of an event.
\<close>

type_synonym 'a push = "ledger_tx \<Rightarrow> nat \<Rightarrow> nat \<Rightarrow> nat \<Rightarrow> ContractEvent \<Rightarrow> 'a list"

definition LAST_SLOT :: nat where "LAST_SLOT = 0xFFFFF"

fun push_events :: "(nat \<Rightarrow> ContractEvent \<Rightarrow> 'a list) \<Rightarrow> nat \<Rightarrow> ContractEvent list \<Rightarrow> 'a list" where
  "push_events f k [] = []"
| "push_events f k (ev # evs) = f k ev @ push_events f (Suc k) evs"

fun push_ops :: "(nat \<Rightarrow> nat \<Rightarrow> ContractEvent \<Rightarrow> 'a list) \<Rightarrow> nat \<Rightarrow> ContractEvent list list \<Rightarrow> 'a list" where
  "push_ops f op_no [] = []"
| "push_ops f op_no (evs # ops) = push_events (f op_no) 0 evs @ push_ops f (Suc op_no) ops"

fun push_stages ::
  "(nat \<Rightarrow> nat \<Rightarrow> nat \<Rightarrow> ContractEvent \<Rightarrow> 'a list) \<Rightarrow> nat \<Rightarrow> (TransactionEventStage \<times> ContractEvent) list
     \<Rightarrow> nat \<Rightarrow> nat \<Rightarrow> nat \<Rightarrow> 'a list \<times> nat \<times> nat" where
  "push_stages f tx_order [] after_tx before_all after_all = ([], before_all, after_all)"
| "push_stages f tx_order ((st, ev) # tes) after_tx before_all after_all =
     (case st of
        BeforeAllTxs \<Rightarrow>
          let (out, c) = push_stages f tx_order tes after_tx (Suc before_all) after_all in (f 0 0 before_all ev @ out, c)
      | AfterAllTxs \<Rightarrow>
          let (out, c) = push_stages f tx_order tes after_tx before_all (Suc after_all) in (f LAST_SLOT 0 after_all ev @ out, c)
      | AfterTx \<Rightarrow>
          let (out, c) = push_stages f tx_order tes (Suc after_tx) before_all after_all in (f tx_order 0 after_tx ev @ out, c))"

fun push_txs :: "'a push \<Rightarrow> nat \<Rightarrow> ledger_tx list \<Rightarrow> nat \<Rightarrow> nat \<Rightarrow> 'a list" where
  "push_txs push i [] before_all after_all = []"
| "push_txs push i (tx # txs) before_all after_all =
     (case ltx_meta tx of
        MetaV3 evs \<Rightarrow> push_events (push tx (Suc i) 0) 0 evs @ push_txs push (Suc i) txs before_all after_all
      | MetaV4 ops tes \<Rightarrow>
          let (out, b, a) = push_stages (push tx) (Suc i) tes (case ops of [] \<Rightarrow> 0 | o1 # _ \<Rightarrow> length o1) before_all after_all
          in push_ops (push tx (Suc i)) 0 ops @ out @ push_txs push (Suc i) txs b a
      | MetaOther \<Rightarrow> push_txs push (Suc i) txs before_all after_all)"

definition push_event :: "(nat \<Rightarrow> string) \<Rightarrow> ledger_header \<Rightarrow> SorobanEvent push" where
  "push_event rfc3339 h tx slot op_no k ev =
     (case (ce_contract_id ev, ce_type ev) of
        (None, _) \<Rightarrow> []
      | (Some _, Ce_diagnostic) \<Rightarrow> []
      | (Some c, kind) \<Rightarrow>
          [\<lparr>sse_id = None, rpc_id = Some (event_rpc_id (event_toid (lh_seq h) (of_nat slot) op_no) k), contract_id = c,
            event_type = (if kind = Ce_contract then ''contract'' else ''system''), tx_hash = ltx_hash tx,
            ledger = ucast (lh_seq h), ledger_closed_at = rfc3339 (lh_close_time h), ledger_hash = Some (lh_hash h),
            in_successful_call = ltx_success tx, ev_value = JString (ce_data ev),
            topic = Some (map JString (ce_topics ev)), tenant_id = None\<rparr>])"

definition events_from_ledger :: "(nat \<Rightarrow> string) \<Rightarrow> LedgerCloseMeta \<Rightarrow> SorobanEvent list" where
  "events_from_ledger rfc3339 m =
     (case m of
        LedgerV0 _ \<Rightarrow> []
      | LedgerV1 h txs \<Rightarrow> push_txs (push_event rfc3339 h) 0 txs 0 0
      | LedgerV2 h txs \<Rightarrow> push_txs (push_event rfc3339 h) 0 txs 0 0)"

section \<open>Downloading a file\<close>

datatype 'b get_reply = Got 'b | Body_error string | Not_found | Bad_status string | Send_failed string

text \<open>\<open>fetch_loop last attempt n\<close> makes the remaining \<open>n\<close> attempts; the delays slept are returned.\<close>

fun fetch_loop :: "(nat \<Rightarrow> 'b get_reply) \<Rightarrow> nat \<Rightarrow> nat \<Rightarrow> string \<Rightarrow> nat list \<Rightarrow> (string + 'b) \<times> nat list" where
  "fetch_loop get attempt 0 last_err slept = (Inl (''failed: '' @ last_err), slept)"
| "fetch_loop get attempt (Suc n) last_err slept =
     (let slept' = (if attempt > 0 then slept @ [2 ^ min attempt 5] else slept)
      in case get attempt of
           Got b \<Rightarrow> (Inr b, slept')
         | Not_found \<Rightarrow> (Inl ''404'', slept')
         | Body_error e \<Rightarrow> fetch_loop get (Suc attempt) n e slept'
         | Bad_status e \<Rightarrow> fetch_loop get (Suc attempt) n e slept'
         | Send_failed e \<Rightarrow> fetch_loop get (Suc attempt) n e slept')"

definition fetch_file :: "(nat \<Rightarrow> 'b get_reply) \<Rightarrow> nat \<Rightarrow> (string + 'b) \<times> nat list" where
  "fetch_file get retries = fetch_loop get 0 retries [] []"

section \<open>The worker loop\<close>

type_synonym checkpoints = "u32 \<times> u32 \<rightharpoonup> int \<times> bool"

definition load_resume_point :: "checkpoints \<Rightarrow> u32 \<Rightarrow> u32 \<Rightarrow> nat option" where
  "load_resume_point tbl start end =
     (case tbl (start, end) of
        Some (_, True) \<Rightarrow> None
      | Some (n, False) \<Rightarrow> Some (if n < 0 then unat start else nat n)
      | None \<Rightarrow> Some (unat start))"

definition save_checkpoint :: "u32 \<Rightarrow> u32 \<Rightarrow> nat \<Rightarrow> checkpoints \<Rightarrow> checkpoints" where
  "save_checkpoint start end next_ledger tbl =
     tbl((start, end) \<mapsto> (min (int next_ledger) i64_max, next_ledger > unat end))"

record ('s, 'b) backfill_env =
  bucket_url :: string
  get_file :: "string \<Rightarrow> nat \<Rightarrow> 'b get_reply"
  file_retries :: nat
  decode_batch :: "'b \<Rightarrow> string \<Rightarrow> string + LedgerCloseMeta list"
  store_events :: "SorobanEvent list \<Rightarrow> i32 \<Rightarrow> 's \<Rightarrow> (string + nat) \<times> 's"
  rfc3339 :: "nat \<Rightarrow> string"
  checkpoint_ok :: "nat \<Rightarrow> bool"

record 's backfill_state =
  bf_checkpoints :: checkpoints
  bf_sink :: 's
  bf_ledgers :: nat
  bf_events :: nat
  bf_highest :: nat

text \<open>The ledgers of one file that lie in the range, stored in order; the first error ends the range.\<close>

fun store_metas ::
  "('s, 'b) backfill_env \<Rightarrow> nat \<Rightarrow> u32 \<Rightarrow> LedgerCloseMeta list \<Rightarrow> 's backfill_state \<Rightarrow> (string + unit) \<times> 's backfill_state" where
  "store_metas env nxt end [] st = (Inr (), st)"
| "store_metas env nxt end (m # ms) st =
     (if unat (ledger_seq m) < nxt \<or> ledger_seq m > end then store_metas env nxt end ms st
      else case store_events env (events_from_ledger (rfc3339 env) m)
                  (min (int (unat (meta_protocol_version m))) i32_max) (bf_sink st) of
             (Inl e, s') \<Rightarrow> (Inl e, st\<lparr>bf_sink := s'\<rparr>)
           | (Inr n, s') \<Rightarrow> store_metas env nxt end ms (st\<lparr>bf_sink := s', bf_events := bf_events st + n\<rparr>))"

definition fetch_batch :: "('s, 'b) backfill_env \<Rightarrow> DatastoreSchema \<Rightarrow> u32 \<Rightarrow> string + LedgerCloseMeta list" where
  "fetch_batch env schema seq =
     (case fst (fetch_file (get_file env (bucket_url env @ ''/'' @ object_key schema seq)) (file_retries env)) of
        Inl e \<Rightarrow> Inl e
      | Inr raw \<Rightarrow> decode_batch env raw (compression schema))"

definition file_end :: "DatastoreSchema \<Rightarrow> u32 \<Rightarrow> nat \<Rightarrow> nat" where
  "file_end schema end nxt = unat (min (snd (file_bounds schema (of_nat nxt))) end)"

lemma file_bounds_contains:
  "unat (fst (file_bounds schema seq)) = unat seq - unat seq mod unat (max (ledgers_per_batch schema) 1)"
  "unat (snd (file_bounds schema seq)) =
     min (unat (fst (file_bounds schema seq)) + (unat (max (ledgers_per_batch schema) 1) - 1)) u32_max"
  "unat seq \<le> unat (snd (file_bounds schema seq))"
proof -
  define p where "p = max (ledgers_per_batch schema) 1"
  have p: "0 < unat p" "1 \<le> p"
    by (auto simp: p_def max_def word_le_nat_alt)
  have start: "unat (seq - seq mod p) = unat seq - unat seq mod unat p"
    by (subst unat_sub) (simp_all add: unat_mod word_le_nat_alt)
  have p1: "unat (p - 1) = unat p - 1"
    using p(2) by (simp add: unat_sub)
  have "unat seq mod unat p \<le> unat p - 1"
    using p(1) mod_less_divisor [of "unat p" "unat seq"] by linarith
  moreover have "unat seq \<le> u32_max"
    using u32_bound [of seq] by (simp add: u32_max_def)
  ultimately show "unat (fst (file_bounds schema seq)) = unat seq - unat seq mod unat (max (ledgers_per_batch schema) 1)"
    "unat (snd (file_bounds schema seq)) =
     min (unat (fst (file_bounds schema seq)) + (unat (max (ledgers_per_batch schema) 1) - 1)) u32_max"
    "unat seq \<le> unat (snd (file_bounds schema seq))"
    using start p1 unfolding file_bounds_def p_def [symmetric] Let_def fst_conv snd_conv
    by (auto simp: unat_saturating_add u32_max_def)
qed

lemma file_end_ge:
  assumes "nxt \<le> unat end"
  shows "nxt \<le> file_end schema end nxt" and "file_end schema end nxt \<le> unat end"
proof -
  have "unat (of_nat nxt :: u32) = nxt"
    using assms u32_bound [of "end"] by (simp add: unat_of_nat)
  then have "nxt \<le> unat (snd (file_bounds schema (of_nat nxt)))"
    using file_bounds_contains(3) [of "of_nat nxt" schema] by simp
  then show "nxt \<le> file_end schema end nxt" "file_end schema end nxt \<le> unat end"
    using assms by (auto simp: file_end_def min_def word_le_nat_alt)
qed

function run_loop ::
  "('s, 'b) backfill_env \<Rightarrow> DatastoreSchema \<Rightarrow> u32 \<times> u32 \<Rightarrow> nat \<Rightarrow> 's backfill_state \<Rightarrow> (string + unit) \<times> 's backfill_state" where
  "run_loop env schema (start, end) nxt st =
     (if nxt \<le> unat end
      then case fetch_batch env schema (of_nat nxt) of
             Inl e \<Rightarrow> (Inl e, st)
           | Inr metas \<Rightarrow>
               (case store_metas env nxt end metas st of
                  (Inl e, st1) \<Rightarrow> (Inl e, st1)
                | (Inr _, st1) \<Rightarrow>
                    let done_through = file_end schema end nxt
                    in if \<not> checkpoint_ok env (done_through + 1) then (Inl ''checkpoint'', st1)
                       else run_loop env schema (start, end) (done_through + 1)
                              (st1\<lparr>bf_checkpoints := save_checkpoint start end (done_through + 1) (bf_checkpoints st1),
                                   bf_ledgers := bf_ledgers st1 + (done_through + 1 - nxt),
                                   bf_highest := max (bf_highest st1) done_through\<rparr>))
      else (Inr (), st))"
  by pat_completeness auto
termination
proof (relation "measure (\<lambda>(_, _, (_, b), n, _). unat b + 1 - n)", goal_cases)
  case (2 env schema start b nxt st metas r st1 u dt)
  then show ?case
    using file_end_ge [of nxt b schema] by simp
qed simp

declare run_loop.simps [simp del]

definition run_range ::
  "('s, 'b) backfill_env \<Rightarrow> DatastoreSchema \<Rightarrow> u32 \<times> u32 \<Rightarrow> 's backfill_state \<Rightarrow> (string + unit) \<times> 's backfill_state" where
  "run_range env schema r st =
     (case load_resume_point (bf_checkpoints st) (fst r) (snd r) of
        None \<Rightarrow> (Inr (), st)
      | Some nxt \<Rightarrow> run_loop env schema r nxt st)"

text \<open>
  The ranges run to completion or failure independently of each other; the model runs them in order,
  and the first error is reported.
\<close>

fun run_ranges ::
  "('s, 'b) backfill_env \<Rightarrow> DatastoreSchema \<Rightarrow> (u32 \<times> u32) list \<Rightarrow> string option \<Rightarrow> 's backfill_state
     \<Rightarrow> string option \<times> 's backfill_state" where
  "run_ranges env schema [] first_err st = (first_err, st)"
| "run_ranges env schema (r # rs) first_err st =
     (let (res, st1) = run_range env schema r st
      in run_ranges env schema rs
           (case (first_err, res) of (None, Inl e) \<Rightarrow> Some e | _ \<Rightarrow> first_err) st1)"

definition run :: "('s, 'b) backfill_env \<Rightarrow> DatastoreSchema \<Rightarrow> u32 \<Rightarrow> u32 \<Rightarrow> u32 \<Rightarrow> 's backfill_state
    \<Rightarrow> (string + nat \<times> nat) \<times> 's backfill_state" where
  "run env schema start end chunk st =
     (let (first_err, st') = run_ranges env schema (split_range start end chunk) None (st\<lparr>bf_ledgers := 0, bf_events := 0, bf_highest := 0\<rparr>)
      in (case first_err of Some e \<Rightarrow> Inl e | None \<Rightarrow> Inr (bf_ledgers st', bf_events st'), st'))"

section \<open>Ranges cover the request\<close>

definition ledgers :: "u32 \<times> u32 \<Rightarrow> nat list" where
  "ledgers r = [unat (fst r)..<Suc (unat (snd r))]"

lemma split_loop_covers:
  assumes "1 \<le> chunk"
  shows "concat (map ledgers (split_loop chunk b s)) = [unat s..<Suc (unat b)]
    \<and> (\<forall>r \<in> set (split_loop chunk b s). fst r \<le> snd r \<and> length (ledgers r) \<le> unat chunk)"
  using assms
proof (induction chunk b s rule: split_loop.induct)
  case (1 chunk b s)
  have c1: "unat (chunk - 1) = unat chunk - 1" and "1 \<le> unat chunk"
    using 1(2) by (simp_all add: unat_sub word_le_nat_alt)
  show ?case
  proof (cases "s \<le> b")
    case False
    then show ?thesis
      by (subst (1 2) split_loop.simps) (simp add: word_le_nat_alt)
  next
    case True
    define e where "e = min (saturating_add s (chunk - 1)) b"
    have e: "unat e = min (unat s + (unat chunk - 1)) (unat b)"
      using u32_bound [of b] by (auto simp: e_def min_def word_le_nat_alt unat_saturating_add c1)
    have chunk: "s \<le> e" "length (ledgers (s, e)) \<le> unat chunk"
      using e True \<open>1 \<le> unat chunk\<close> by (auto simp: ledgers_def word_le_nat_alt)
    have loop: "split_loop chunk b s = (s, e) # (if e = - 1 then [] else split_loop chunk b (e + 1))"
      using True by (subst split_loop.simps) (simp add: e_def Let_def)
    show ?thesis
    proof (cases "e = - 1")
      case True
      then have "unat b = unat e"
        using e u32_bound [of b] by (simp add: unat_word_max)
      then show ?thesis
        using True chunk by (simp add: loop ledgers_def)
    next
      case False
      then have "unat (e + 1) = Suc (unat e)"
        using word_less_inc [OF False] by (simp add: unat_word_ariths word_less_nat_alt mod_Suc split: if_splits)
      moreover have "unat s \<le> unat e" "unat e \<le> unat b"
        using chunk(1) e by (auto simp: word_le_nat_alt)
      ultimately have "ledgers (s, e) @ [unat (e + 1)..<Suc (unat b)] = [unat s..<Suc (unat b)]"
        by (simp add: ledgers_def upt_glue del: upt_Suc)
      then show ?thesis
        using "1.IH" [OF True e_def False "1.prems"] False chunk by (simp add: loop)
    qed
  qed
qed

text \<open>
  The planned ranges partition the requested ledgers: in order, without gap or overlap, each with
  at most the chunk size, for every request including one that ends at the largest 32-bit ledger.
\<close>

theorem split_range_partition:
  "concat (map ledgers (split_range start end chunk)) = [unat start..<Suc (unat end)]
   \<and> list_all (\<lambda>r. fst r \<le> snd r \<and> length (ledgers r) \<le> unat (max chunk 1)) (split_range start end chunk)"
  using split_loop_covers [of "max chunk 1" "end" start] by (simp add: split_range_def list_all_iff)

section \<open>The worker loop stores every ledger\<close>
















section \<open>Object keys\<close>

lemma length_show_hex: "n < 16 ^ Suc k \<Longrightarrow> length (show_hex n) \<le> Suc k"
proof (induction k arbitrary: n)
  case 0
  then show ?case by (simp add: show_hex.simps [of n])
next
  case (Suc k)
  then have "n div 16 < 16 ^ Suc k"
    by (simp add: less_mult_imp_div_less)
  then show ?case
    using Suc.IH [of "n div 16"] by (simp add: show_hex.simps [of n])
qed

lemma length_hex8: "n \<le> u32_max \<Longrightarrow> length (hex8 n) = 8"
  using length_show_hex [of n 7] by (simp add: hex8_def u32_max_def Let_def)

lemma hex_upper_no_slash: "d < 16 \<Longrightarrow> hex_upper d \<noteq> CHR ''/''"
proof -
  assume "d < 16"
  then have "of_char (hex_upper d) \<noteq> (47 :: nat)"
    by (auto simp: hex_upper_def)
  then show ?thesis by auto
qed

lemma hex8_no_slash: "CHR ''/'' \<notin> set (hex8 n)"
proof -
  have "CHR ''/'' \<notin> set (show_hex n)"
  proof (induction n rule: show_hex.induct)
    case (1 n)
    then show ?case
      using hex_upper_no_slash [of n] hex_upper_no_slash [of "n mod 16"] by (auto simp: show_hex.simps [of n])
  qed
  then show ?thesis by (simp add: hex8_def Let_def)
qed

lemma show_nat_no_slash: "CHR ''/'' \<notin> set (show_nat n)" "CHR ''-'' \<notin> set (show_nat n)" "CHR ''.'' \<notin> set (show_nat n)"
  using show_nat_digits [of _ n] by (fastforce simp: is_ascii_digit_def)+

lemma show_nat_inject: "show_nat a = show_nat b \<longleftrightarrow> a = b"
  by (metis digits_value_show_nat option.inject)

text \<open>The partition directory and the file name of an object key.\<close>

definition key_dir :: "DatastoreSchema \<Rightarrow> u32 \<Rightarrow> string" where
  "key_dir schema seq =
     (let size = unat (max (ledgers_per_batch schema) 1) * unat (batches_per_partition schema);
          start = unat seq div size * size
      in hex8 (u32_max - start) @ ''--'' @ show_nat start @ ''-'' @ show_nat (min (start + size - 1) u32_max))"

definition key_file :: "DatastoreSchema \<Rightarrow> u32 \<times> u32 \<Rightarrow> string" where
  "key_file schema b =
     hex8 (u32_max - unat (fst b)) @ ''--'' @ show_nat (unat (fst b))
       @ (if snd b \<noteq> fst b then ''-'' @ show_nat (unat (snd b)) else [])
       @ (if compression schema = ''zstd'' then ''.xdr.zst'' else ''.xdr'')"

lemma object_key_parts:
  "object_key schema seq =
     (if batches_per_partition schema > 1 then key_dir schema seq @ CHR ''/'' # key_file schema (file_bounds schema seq)
      else key_file schema (file_bounds schema seq))"
  by (simp add: object_key_def key_dir_def key_file_def Let_def case_prod_beta)

lemma key_dir_no_slash: "CHR ''/'' \<notin> set (key_dir schema seq)"
  by (simp add: key_dir_def Let_def hex8_no_slash show_nat_no_slash)

lemma takeWhile_show_nat: "\<not> is_ascii_digit c \<Longrightarrow> takeWhile is_ascii_digit (show_nat n @ c # s) = show_nat n"
  using show_nat_digits [of _ n] by (subst takeWhile_append2) auto

lemma key_file_digits: "takeWhile is_ascii_digit (drop 10 (key_file schema b)) = show_nat (unat (fst b))"
  using length_hex8 [of "u32_max - unat (fst b)"]
  by (simp add: key_file_def takeWhile_show_nat is_ascii_digit_def)

lemma key_file_start: "key_file schema b = key_file schema b' \<Longrightarrow> fst b = fst b'"
  using key_file_digits [of schema b] key_file_digits [of schema b'] by (simp add: show_nat_inject word_unat_eq_iff)

lemma file_bounds_eq:
  assumes "fst (file_bounds schema a) = fst (file_bounds schema b)"
  shows "file_bounds schema a = file_bounds schema b \<and> unat a div unat (max (ledgers_per_batch schema) 1) = unat b div unat (max (ledgers_per_batch schema) 1)"
proof -
  let ?p = "unat (max (ledgers_per_batch schema) 1)"
  have p: "0 < ?p" by (auto simp: max_def word_le_nat_alt)
  have "unat a - unat a mod ?p = unat b - unat b mod ?p"
    using assms file_bounds_contains(1) by metis
  then have "unat a div ?p * ?p = unat b div ?p * ?p"
    by (simp add: minus_mod_eq_div_mult)
  then have "unat a div ?p = unat b div ?p"
    using p by simp
  moreover have "snd (file_bounds schema a) = snd (file_bounds schema b)"
    using assms by (simp add: file_bounds_def Let_def)
  ultimately show ?thesis
    using assms by (simp add: prod_eq_iff)
qed

text \<open>
  Object keys identify files: two ledgers have the same object key exactly when they are in the
  same file of the data lake, with or without partition directories.
\<close>

theorem object_key_exact:
  "object_key schema a = object_key schema b \<longleftrightarrow> fst (file_bounds schema a) = fst (file_bounds schema b)"
proof
  assume eq: "object_key schema a = object_key schema b"
  have "key_file schema (file_bounds schema a) = key_file schema (file_bounds schema b)"
  proof (cases "batches_per_partition schema > 1")
    case True
    have "split_once (CHR ''/'') (object_key schema seq) = Some (key_dir schema seq, key_file schema (file_bounds schema seq))" for seq
      using True key_dir_no_slash by (simp add: object_key_parts split_once_Some)
    then show ?thesis
      using eq by (metis option.inject prod.inject)
  qed (use eq in \<open>simp add: object_key_parts\<close>)
  then show "fst (file_bounds schema a) = fst (file_bounds schema b)"
    by (rule key_file_start)
next
  assume "fst (file_bounds schema a) = fst (file_bounds schema b)"
  note same = file_bounds_eq [OF this]
  have "key_dir schema a = key_dir schema b"
    using same by (simp add: key_dir_def Let_def div_mult2_eq)
  then show "object_key schema a = object_key schema b"
    using same by (simp add: object_key_parts)
qed







section \<open>Event ids of a ledger\<close>

lemma push_bit_or: "b < 2 ^ k \<Longrightarrow> push_bit k a OR b = a * 2 ^ k + b" for a b :: nat
proof -
  assume "b < 2 ^ k"
  then have "take_bit k b = b"
    by (simp add: take_bit_nat_eq_self_iff)
  then have "n < k" if "bit b n" for n
    using that by (metis bit_take_bit_iff)
  then have "push_bit k a AND b = 0"
    by (intro bit_eqI) (force simp: bit_simps not_le)
  from disjunctive_add_eq_or [OF this] show ?thesis
    by (simp add: push_bit_eq_mult)
qed

lemma event_toid_pack:
  assumes "slot < 2 ^ 20" and "op_no < 2 ^ 12"
  shows "event_toid seq (of_nat slot) op_no = of_nat (pack_toid (unat seq) slot op_no)"
proof -
  have m: "(0xFFFFF :: u64) = mask 20" "(0xFFF :: u64) = mask 12"
    by (simp_all add: mask_eq_exp_minus_1)
  have slot: "(of_nat slot :: u64) AND 0xFFFFF = of_nat slot" and op_no: "(of_nat op_no :: u64) AND 0xFFF = of_nat op_no"
    using assms unfolding m
    by (simp_all add: take_bit_of_nat take_bit_nat_eq_self flip: take_bit_eq_mask)
  have seq: "(ucast seq :: u64) = of_nat (unat seq)"
    by simp
  have "event_toid seq (of_nat slot) op_no = of_nat (push_bit 32 (unat seq) OR (push_bit 12 slot OR op_no))"
    unfolding event_toid_def slot op_no seq by (simp only: of_nat_or_eq push_bit_of_nat)
  also have "push_bit 12 slot OR op_no = slot * 2 ^ 12 + op_no"
    using assms(2) by (rule push_bit_or)
  also have "push_bit 32 (unat seq) OR (slot * 2 ^ 12 + op_no) = unat seq * 2 ^ 32 + (slot * 2 ^ 12 + op_no)"
    using assms by (intro push_bit_or) simp
  finally show ?thesis
    by (simp add: pack_toid_def)
qed

lemma event_rpc_id_parses:
  assumes "slot < 2 ^ 20" and "op_no < 2 ^ 12" and "int k \<le> i32_max"
  shows "parse_event_id (event_rpc_id (event_toid seq (of_nat slot) op_no) k) = Some (EventOrdinal seq (int slot) (int op_no) (int k))"
proof -
  have "pack_toid (unat seq) slot op_no < 2 ^ 64"
    using assms(1,2) u32_bound [of seq] by (simp add: pack_toid_def)
  then have "unat (of_nat (pack_toid (unat seq) slot op_no) :: u64) = pack_toid (unat seq) slot op_no"
    by (simp add: unat_of_nat)
  then show ?thesis
    using parse_event_id_padded [of "unat seq" slot op_no k] assms u32_bound [of seq]
    by (simp add: event_toid_pack [OF assms(1,2)] event_rpc_id_def padded_def)
qed

lemma event_rpc_id_inject:
  assumes "event_rpc_id x k = event_rpc_id y l"
  shows "x = y \<and> k = l"
proof -
  have split: "split_once (CHR ''-'') (event_rpc_id x k) = Some (padded 19 (unat x), padded 10 k)" for x k
    using digit_not_sign zero_padded_digits by (auto simp: split_once_Some event_rpc_id_def padded_def)
  have "padded 19 (unat x) = padded 19 (unat y)" "padded 10 k = padded 10 l"
    using assms split by (metis option.inject prod.inject)+
  moreover have "digits_value 10 0 (padded w n) = Some n" for w n
    by (simp add: padded_def digits_value_zero_padded)
  ultimately show ?thesis
    by (metis option.inject word_unat_eq_iff)
qed

text \<open>The loops for a generic \<open>push\<close>, and the list of the (slot, operation, index) triples they number.\<close>

definition tag :: "(ledger_tx \<times> (nat \<times> nat \<times> nat) \<times> ContractEvent) push" where
  "tag tx slot op_no k ev = [(tx, (slot, op_no, k), ev)]"

definition expand :: "'a push \<Rightarrow> (ledger_tx \<times> (nat \<times> nat \<times> nat) \<times> ContractEvent) list \<Rightarrow> 'a list" where
  "expand push xs = concat (map (\<lambda>(tx, (slot, op_no, k), ev). push tx slot op_no k ev) xs)"

lemma expand_append [simp]: "expand push (xs @ ys) = expand push xs @ expand push ys"
  by (simp add: expand_def)

lemma expand_tag [simp]: "expand push (tag tx slot op_no k ev) = push tx slot op_no k ev"
  by (simp add: expand_def tag_def)

lemma push_events_expand: "expand push (push_events (tag tx slot op_no) k evs) = push_events (push tx slot op_no) k evs"
  by (induction evs arbitrary: k) (simp_all add: expand_def [of _ "[]"])

lemma push_ops_expand: "expand push (push_ops (tag tx slot) op_no ops) = push_ops (push tx slot) op_no ops"
  by (induction ops arbitrary: op_no) (simp_all add: push_events_expand expand_def [of _ "[]"])

lemma push_stages_expand:
  "expand push (fst (push_stages (tag tx) i tes t b a)) = fst (push_stages (push tx) i tes t b a)
   \<and> snd (push_stages (tag tx) i tes t b a) = snd (push_stages (push tx) i tes t b a)"
  by (induction tes arbitrary: t b a)
    (auto simp: expand_def [of _ "[]"] Let_def case_prod_beta split: TransactionEventStage.split)

lemma push_txs_expand: "expand push (push_txs tag i txs b a) = push_txs push i txs b a"
proof (induction txs arbitrary: i b a)
  case (Cons tx txs)
  then show ?case
    using push_stages_expand [of push tx]
    by (auto simp: push_events_expand push_ops_expand Let_def case_prod_beta split: TransactionMeta.split)
qed (simp add: expand_def)

abbreviation num :: "ledger_tx \<times> (nat \<times> nat \<times> nat) \<times> ContractEvent \<Rightarrow> nat \<times> nat \<times> nat" where
  "num x \<equiv> fst (snd x)"

lemma num_push_events:
  "map num (push_events (tag tx slot op_no) k evs) = map (\<lambda>j. (slot, op_no, j)) [k..<k + length evs]"
  by (induction evs arbitrary: k) (simp_all add: tag_def upt_conv_Cons del: upt_Suc)

lemma num_push_ops:
  "distinct (map num (push_ops (tag tx slot) op_no ops))
   \<and> (\<forall>(s, p, k) \<in> num ` set (push_ops (tag tx slot) op_no ops). s = slot \<and> op_no \<le> p \<and> p < op_no + length ops
        \<and> k < length (ops ! (p - op_no)))"
proof (induction ops arbitrary: op_no)
  case (Cons evs ops)
  have seg: "num ` set (push_events (tag tx slot op_no) 0 evs) = (\<lambda>j. (slot, op_no, j)) ` {0..<length evs}"
    using num_push_events [of tx slot op_no 0 evs] by (metis add_0 list.set_map set_upt)
  have "distinct (map num (push_events (tag tx slot op_no) 0 evs))"
    by (simp add: num_push_events distinct_map inj_on_def)
  moreover have "num ` set (push_events (tag tx slot op_no) 0 evs) \<inter> num ` set (push_ops (tag tx slot) (Suc op_no) ops) = {}"
    unfolding seg using Cons.IH [of "Suc op_no"] by fastforce
  moreover have "\<forall>(s, p, k) \<in> num ` set (push_ops (tag tx slot) (Suc op_no) ops). s = slot \<and> op_no \<le> p
      \<and> p < op_no + length (evs # ops) \<and> k < length ((evs # ops) ! (p - op_no))"
    using Cons.IH [of "Suc op_no"] by (fastforce simp: nth_Cons' Suc_diff_le)
  ultimately show ?case
    using Cons.IH [of "Suc op_no"] by (auto simp: seg image_Un ball_Un)
qed simp

text \<open>Fee events are numbered in their own slots, the others of the stage list behind the first operation.\<close>

lemma num_push_stages:
  assumes "0 < i" and "i < LAST_SLOT" and "push_stages (tag tx) i tes t b a = (out, b', a')"
  shows "distinct (map num out) \<and> b \<le> b' \<and> a \<le> a'
    \<and> (\<forall>(s, p, k) \<in> num ` set out. p = 0 \<and> (s = 0 \<and> b \<le> k \<and> k < b' \<or> s = LAST_SLOT \<and> a \<le> k \<and> k < a' \<or> s = i \<and> t \<le> k))"
  using assms(3)
proof (induction tes arbitrary: t b a out)
  case (Cons te tes)
  obtain st ev where te: "te = (st, ev)" by fastforce
  show ?case
  proof (cases st)
    case BeforeAllTxs
    obtain out1 where out1: "push_stages (tag tx) i tes t (Suc b) a = (out1, b', a')" "out = tag tx 0 0 b ev @ out1"
      using Cons.prems by (auto simp: te BeforeAllTxs Let_def split: prod.splits)
    show ?thesis
      using Cons.IH [OF out1(1)] assms(1,2) by (fastforce simp: out1(2) tag_def)
  next
    case AfterAllTxs
    obtain out1 where out1: "push_stages (tag tx) i tes t b (Suc a) = (out1, b', a')" "out = tag tx LAST_SLOT 0 a ev @ out1"
      using Cons.prems by (auto simp: te AfterAllTxs Let_def split: prod.splits)
    show ?thesis
      using Cons.IH [OF out1(1)] assms(1,2) by (fastforce simp: out1(2) tag_def)
  next
    case AfterTx
    obtain out1 where out1: "push_stages (tag tx) i tes (Suc t) b a = (out1, b', a')" "out = tag tx i 0 t ev @ out1"
      using Cons.prems by (auto simp: te AfterTx Let_def split: prod.splits)
    show ?thesis
      using Cons.IH [OF out1(1)] assms(1,2) by (fastforce simp: out1(2) tag_def)
  qed
qed simp

definition few_ops :: "ledger_tx \<Rightarrow> bool" where
  "few_ops tx \<longleftrightarrow> (case ltx_meta tx of MetaV4 ops _ \<Rightarrow> length ops \<le> 4096 | _ \<Rightarrow> True)"

text \<open>The triples of one transaction, and where the ledger-wide counters stand after it.\<close>

definition tx_nums :: "nat \<Rightarrow> ledger_tx \<Rightarrow> nat \<Rightarrow> nat \<Rightarrow> (ledger_tx \<times> (nat \<times> nat \<times> nat) \<times> ContractEvent) list \<times> nat \<times> nat" where
  "tx_nums i tx b a =
     (case ltx_meta tx of
        MetaV3 evs \<Rightarrow> (push_events (tag tx (Suc i) 0) 0 evs, b, a)
      | MetaV4 ops tes \<Rightarrow>
          (case push_stages (tag tx) (Suc i) tes (case ops of [] \<Rightarrow> 0 | o1 # _ \<Rightarrow> length o1) b a of
             (out, b', a') \<Rightarrow> (push_ops (tag tx (Suc i)) 0 ops @ out, b', a'))
      | MetaOther \<Rightarrow> ([], b, a))"

lemma push_txs_Cons: "push_txs tag i (tx # txs) b a = (case tx_nums i tx b a of (seg, b', a') \<Rightarrow> seg @ push_txs tag (Suc i) txs b' a')"
  by (simp add: tx_nums_def Let_def split: TransactionMeta.split prod.split)

lemma tx_nums_spec:
  assumes "tx_nums i tx b a = (seg, b', a')" and "Suc i < LAST_SLOT" and "few_ops tx"
  shows "distinct (map num seg) \<and> b \<le> b' \<and> a \<le> a'
    \<and> (\<forall>(s, p, k) \<in> num ` set seg. p < 4096
        \<and> (s = 0 \<and> p = 0 \<and> b \<le> k \<and> k < b' \<or> s = LAST_SLOT \<and> p = 0 \<and> a \<le> k \<and> k < a' \<or> s = Suc i))"
proof (cases "ltx_meta tx")
  case (MetaV3 evs)
  have "num ` set (push_events (tag tx (Suc i) 0) 0 evs) = (\<lambda>j. (Suc i, 0, j)) ` {0..<length evs}"
    using num_push_events [of tx "Suc i" 0 0 evs] by (metis add_0 list.set_map set_upt)
  then show ?thesis
    using assms(1) num_push_events [of tx "Suc i" 0 0 evs] by (auto simp: tx_nums_def MetaV3 distinct_map inj_on_def)
next
  case (MetaV4 ops tes)
  define t where "t = (case ops of [] \<Rightarrow> 0 | o1 # _ \<Rightarrow> length o1)"
  obtain out where out: "push_stages (tag tx) (Suc i) tes t b a = (out, b', a')" "seg = push_ops (tag tx (Suc i)) 0 ops @ out"
    using assms(1) by (auto simp: tx_nums_def MetaV4 t_def split: prod.splits)
  note stages = num_push_stages [OF _ assms(2) out(1)]
  have ops: "\<forall>(s, p, k) \<in> num ` set (push_ops (tag tx (Suc i)) 0 ops). s = Suc i \<and> p < 4096 \<and> (p = 0 \<longrightarrow> k < t)"
    using num_push_ops [of tx "Suc i" 0 ops] assms(3)
    by (fastforce simp: few_ops_def MetaV4 t_def nth_Cons' split: list.split)
  have "num ` set (push_ops (tag tx (Suc i)) 0 ops) \<inter> num ` set out = {}"
    using stages ops assms(2) by fastforce
  then show ?thesis
    using stages ops num_push_ops [of tx "Suc i" 0 ops] by (fastforce simp: out(2))
next
  case MetaOther
  then show ?thesis using assms(1) by (simp add: tx_nums_def)
qed

lemma num_push_txs:
  assumes "i + length txs < LAST_SLOT" and "\<forall>tx \<in> set txs. few_ops tx"
  shows "distinct (map num (push_txs tag i txs b a))
    \<and> (\<forall>(s, p, k) \<in> num ` set (push_txs tag i txs b a). p < 4096
        \<and> (s = 0 \<and> p = 0 \<and> b \<le> k \<or> s = LAST_SLOT \<and> p = 0 \<and> a \<le> k \<or> i < s \<and> s < LAST_SLOT))"
  using assms
proof (induction txs arbitrary: i b a)
  case (Cons tx txs)
  obtain seg b' a' where seg: "tx_nums i tx b a = (seg, b', a')"
    using prod_cases3 by blast
  let ?rest = "push_txs tag (Suc i) txs b' a'"
  have head: "distinct (map num seg) \<and> b \<le> b' \<and> a \<le> a'
    \<and> (\<forall>(s, p, k) \<in> num ` set seg. p < 4096
        \<and> (s = 0 \<and> p = 0 \<and> b \<le> k \<and> k < b' \<or> s = LAST_SLOT \<and> p = 0 \<and> a \<le> k \<and> k < a' \<or> s = Suc i))"
    using tx_nums_spec [OF seg] Cons.prems by simp
  have rest: "distinct (map num ?rest)
    \<and> (\<forall>(s, p, k) \<in> num ` set ?rest. p < 4096
        \<and> (s = 0 \<and> p = 0 \<and> b' \<le> k \<or> s = LAST_SLOT \<and> p = 0 \<and> a' \<le> k \<or> Suc i < s \<and> s < LAST_SLOT))"
    using Cons.IH [of "Suc i" b' a'] Cons.prems by simp
  have "num ` set seg \<inter> num ` set ?rest = {}"
    using head rest Cons.prems(1) by (fastforce simp: LAST_SLOT_def)
  then have "distinct (map num (seg @ ?rest))"
    using head rest by simp
  moreover have "\<forall>(s, p, k) \<in> num ` set (seg @ ?rest). p < 4096
        \<and> (s = 0 \<and> p = 0 \<and> b \<le> k \<or> s = LAST_SLOT \<and> p = 0 \<and> a \<le> k \<or> i < s \<and> s < LAST_SLOT)"
    using head rest Cons.prems(1) by (fastforce simp: image_Un)
  ultimately show ?case
    unfolding push_txs_Cons seg prod.case by blast
qed simp

lemma expand_labels:
  assumes "\<And>tx s p k ev. push tx s p k ev = [] \<or> (\<exists>e. push tx s p k ev = [e] \<and> g e = f (s, p, k))"
  shows "g ` set (expand push xs) \<subseteq> (f \<circ> num) ` set xs"
proof
  fix l
  assume "l \<in> g ` set (expand push xs)"
  then obtain tx s p k ev e where "(tx, (s, p, k), ev) \<in> set xs" "e \<in> set (push tx s p k ev)" "l = g e"
    by (auto simp: expand_def)
  then show "l \<in> (f \<circ> num) ` set xs"
    using assms [of tx s p k ev] by force
qed

lemma expand_distinct:
  assumes "\<And>tx s p k ev. push tx s p k ev = [] \<or> (\<exists>e. push tx s p k ev = [e] \<and> g e = f (s, p, k))"
    and "distinct (map num xs)" and "inj_on f (num ` set xs)"
  shows "distinct (map g (expand push xs))"
  using assms(2,3)
proof (induction xs)
  case (Cons x xs)
  obtain tx s p k ev where x: "x = (tx, (s, p, k), ev)"
    by (metis prod_cases3 surj_pair)
  have "f (s, p, k) \<notin> (f \<circ> num) ` set xs"
    using Cons.prems by (auto simp: x inj_on_def image_iff)
  then have "f (s, p, k) \<notin> g ` set (expand push xs)"
    using expand_labels [of push g f xs] assms(1) by blast
  moreover have "expand push (x # xs) = push tx s p k ev @ expand push xs"
    by (simp add: expand_def x)
  moreover have "distinct (map g (expand push xs))"
    using Cons by (simp add: inj_on_insert)
  ultimately show ?case
    using assms(1) [of tx s p k ev] by auto
qed (simp add: expand_def)

fun ledger_txs :: "LedgerCloseMeta \<Rightarrow> ledger_tx list" where
  "ledger_txs (LedgerV0 _) = []" | "ledger_txs (LedgerV1 _ txs) = txs" | "ledger_txs (LedgerV2 _ txs) = txs"

lemma events_from_ledger_expand:
  "events_from_ledger rfc m = expand (push_event rfc (meta_header m)) (push_txs tag 0 (ledger_txs m) 0 0)"
  by (cases m) (simp_all add: events_from_ledger_def push_txs_expand, simp add: expand_def)

definition num_id :: "u32 \<Rightarrow> nat \<times> nat \<times> nat \<Rightarrow> string" where
  "num_id seq = (\<lambda>(s, p, k). event_rpc_id (event_toid seq (of_nat s) p) k)"

lemma push_event_id:
  "push_event rfc h tx s p k ev = [] \<or> (\<exists>e. push_event rfc h tx s p k ev = [e] \<and> rpc_id e = Some (num_id (lh_seq h) (s, p, k)))"
  by (auto simp: push_event_def num_id_def split: option.split ContractEventType.split)

lemma num_id_inj:
  assumes "s < 2 ^ 20" "s' < 2 ^ 20" "p < 2 ^ 12" "p' < 2 ^ 12" and "num_id seq (s, p, k) = num_id seq (s', p', k')"
  shows "(s, p, k) = (s', p', k')"
proof -
  have eq: "event_toid seq (of_nat s) p = event_toid seq (of_nat s') p'" "k = k'"
    using assms(5) event_rpc_id_inject by (auto simp: num_id_def)
  have lt: "pack_toid (unat seq) s p < 2 ^ 64" "pack_toid (unat seq) s' p' < 2 ^ 64"
    using assms(1-4) u32_bound [of seq] by (simp_all add: pack_toid_def)
  have "unat (event_toid seq (of_nat s) p) = pack_toid (unat seq) s p"
    "unat (event_toid seq (of_nat s') p') = pack_toid (unat seq) s' p'"
    unfolding event_toid_pack [OF assms(1,3)] event_toid_pack [OF assms(2,4)] using lt by (simp_all add: unat_of_nat)
  then show ?thesis
    using eq pack_toid_eq_iff [OF assms(1-4), of "unat seq" "unat seq"] by simp
qed

lemma num_id_parses:
  "s < 2 ^ 20 \<Longrightarrow> p < 2 ^ 12 \<Longrightarrow> int k \<le> i32_max \<Longrightarrow>
     parse_event_id (num_id seq (s, p, k)) = Some (EventOrdinal seq (int s) (int p) (int k))"
  unfolding num_id_def prod.case by (rule event_rpc_id_parses)

text \<open>
  Backfilled events get ids the live indexer would understand: within a ledger all ids differ,
  and every id decodes to the ledger and to the transaction, operation and index it was numbered
  with, for ledgers with fewer than 1048575 transactions of at most 4096 operations.
\<close>

theorem backfill_ids_unique:
  assumes "length (ledger_txs m) < LAST_SLOT" and "\<forall>tx \<in> set (ledger_txs m). few_ops tx"
  shows "distinct (map rpc_id (events_from_ledger rfc m))
    \<and> (\<forall>e \<in> set (events_from_ledger rfc m). \<exists>s p k. rpc_id e = Some (num_id (ledger_seq m) (s, p, k))
         \<and> (int k \<le> i32_max \<longrightarrow> parse_event_id (num_id (ledger_seq m) (s, p, k)) = Some (EventOrdinal (ledger_seq m) (int s) (int p) (int k))))"
proof -
  let ?xs = "push_txs tag 0 (ledger_txs m) 0 0"
  have nums: "distinct (map num ?xs)" "\<forall>(s, p, k) \<in> num ` set ?xs. s < 2 ^ 20 \<and> p < 2 ^ 12"
    using num_push_txs [of 0 "ledger_txs m" 0 0] assms by (fastforce simp: LAST_SLOT_def)+
  have "inj_on (\<lambda>n. Some (num_id (ledger_seq m) n)) (num ` set ?xs)"
    using nums(2) by (auto intro!: inj_onI dest!: num_id_inj [rotated 4])
  then have dist: "distinct (map rpc_id (events_from_ledger rfc m))"
    unfolding events_from_ledger_expand
    using expand_distinct [where g = rpc_id and f = "\<lambda>n. Some (num_id (ledger_seq m) n)" and push = "push_event rfc (meta_header m)"]
      push_event_id nums(1) by (simp add: ledger_seq_def)
  have "rpc_id ` set (events_from_ledger rfc m) \<subseteq> ((\<lambda>n. Some (num_id (ledger_seq m) n)) \<circ> num) ` set ?xs"
    unfolding events_from_ledger_expand
    using push_event_id by (intro expand_labels) (simp add: ledger_seq_def)
  then have labels: "\<exists>n \<in> num ` set ?xs. rpc_id e = Some (num_id (ledger_seq m) n)" if "e \<in> set (events_from_ledger rfc m)" for e
    using that by (auto simp: subset_iff)
  have "\<forall>e \<in> set (events_from_ledger rfc m). \<exists>s p k. rpc_id e = Some (num_id (ledger_seq m) (s, p, k))
         \<and> (int k \<le> i32_max \<longrightarrow> parse_event_id (num_id (ledger_seq m) (s, p, k)) = Some (EventOrdinal (ledger_seq m) (int s) (int p) (int k)))"
  proof
    fix e
    assume "e \<in> set (events_from_ledger rfc m)"
    from labels [OF this] obtain s p k where "rpc_id e = Some (num_id (ledger_seq m) (s, p, k))" "(s, p, k) \<in> num ` set ?xs"
      by (metis prod_cases3)
    then show "\<exists>s p k. rpc_id e = Some (num_id (ledger_seq m) (s, p, k))
         \<and> (int k \<le> i32_max \<longrightarrow> parse_event_id (num_id (ledger_seq m) (s, p, k)) = Some (EventOrdinal (ledger_seq m) (int s) (int p) (int k)))"
      using nums(2) num_id_parses [of s p k "ledger_seq m"] by blast
  qed
  with dist show ?thesis ..
qed

theorem backfill_ids_unique_witness:
  "let ev = \<lparr>ce_contract_id = Some ''C'', ce_type = Ce_contract, ce_topics = [], ce_data = []\<rparr>;
       tx = \<lparr>ltx_hash = [], ltx_success = True, ltx_meta = MetaV4 [[ev, ev], [ev]] [(AfterTx, ev), (AfterAllTxs, ev), (BeforeAllTxs, ev)]\<rparr>;
       m = LedgerV1 \<lparr>lh_seq = 7, lh_version = 22, lh_close_time = 0, lh_hash = []\<rparr> [tx, tx]
   in distinct (map rpc_id (events_from_ledger (\<lambda>_. []) m)) \<and> length (events_from_ledger (\<lambda>_. []) m) = 12"
proof -
  let ?ev = "\<lparr>ce_contract_id = Some ''C'', ce_type = Ce_contract, ce_topics = [], ce_data = []\<rparr>"
  let ?tx = "\<lparr>ltx_hash = [], ltx_success = True,
    ltx_meta = MetaV4 [[?ev, ?ev], [?ev]] [(AfterTx, ?ev), (AfterAllTxs, ?ev), (BeforeAllTxs, ?ev)]\<rparr>"
  let ?m = "LedgerV1 \<lparr>lh_seq = 7, lh_version = 22, lh_close_time = 0, lh_hash = []\<rparr> [?tx, ?tx]"
  have "length (events_from_ledger (\<lambda>_. []) ?m) = 12"
    by (simp add: events_from_ledger_def push_event_def)
  then show ?thesis
    using backfill_ids_unique [of ?m "\<lambda>_. []"] by (simp add: few_ops_def LAST_SLOT_def Let_def)
qed

end
