(* ===== verification/Api_Keys.thy ===== *)
theory Api_Keys
  imports Prelude
begin

text \<open>
  Model of \<open>src/api_keys.rs\<close>: scopes and the scope a request needs, the base58 encoding of generated
  keys, and the \<open>api_keys\<close> table with the operations on it (create, look up, revoke, list). SHA-256 is
  the parameter \<open>hash\<close>; the random bytes of a key, the row id and the clock (microseconds) are
  arguments. Strings are UTF-8 byte sequences.
\<close>

section \<open>Scopes\<close>

datatype ApiKeyScope = ReadEvents | WriteSubscriptions | Admin

definition ALL_SCOPES :: "ApiKeyScope list" where
  "ALL_SCOPES = [ReadEvents, WriteSubscriptions, Admin]"

fun scope_as_str :: "ApiKeyScope \<Rightarrow> string" where
  "scope_as_str ReadEvents = ''read:events''"
| "scope_as_str WriteSubscriptions = ''write:subscriptions''"
| "scope_as_str Admin = ''admin''"

definition scope_parse :: "string \<Rightarrow> ApiKeyScope option" where
  "scope_parse s = find (\<lambda>scope. scope_as_str scope = s) ALL_SCOPES"

definition READ_ONLY_POST_PATHS :: "string list" where
  "READ_ONLY_POST_PATHS = [''/v1/events/tx/batch'', ''/graphql'']"

definition is_admin_path :: "string \<Rightarrow> bool" where
  "is_admin_path path \<longleftrightarrow> path = ''/v1/admin'' \<or> starts_with path ''/v1/admin/''
     \<or> path = ''/admin'' \<or> starts_with path ''/admin/''"

definition required_scope :: "string \<Rightarrow> string \<Rightarrow> ApiKeyScope" where
  "required_scope meth path =
     (if is_admin_path path then Admin
      else if meth \<in> {''GET'', ''HEAD'', ''OPTIONS''} \<or> meth = ''POST'' \<and> path \<in> set READ_ONLY_POST_PATHS then ReadEvents
      else if list_ex (\<lambda>segment. segment = ''subscriptions'') (split_on (CHR ''/'') path) then WriteSubscriptions
      else Admin)"

section \<open>Key generation\<close>

definition KEY_PREFIX :: string where "KEY_PREFIX = ''sp_''"

definition BASE58_ALPHABET :: string where
  "BASE58_ALPHABET = ''123456789ABCDEFGHJKLMNPQRSTUVWXYZabcdefghijkmnopqrstuvwxyz''"

text \<open>One input byte: multiply the little-endian digits by 256 and add it, then push the carry.\<close>

fun carry_digits :: "nat \<Rightarrow> nat \<Rightarrow> nat list" where
  "carry_digits 0 c = []"
| "carry_digits (Suc fuel) c = (if c > 0 then c mod 58 # carry_digits fuel (c div 58) else [])"

fun add_byte :: "nat \<Rightarrow> nat list \<Rightarrow> nat list" where
  "add_byte c [] = carry_digits c c"
| "add_byte c (d # ds) = (let c' = c + d * 256 in c' mod 58 # add_byte (c' div 58) ds)"

definition base58_encode :: "u8 list \<Rightarrow> string" where
  "base58_encode input =
     (let leading_zeros = length (takeWhile (\<lambda>b. b = 0) input);
          digits = fold (\<lambda>b ds. add_byte (unat b) ds) input []
      in replicate leading_zeros (CHR ''1'') @ map (\<lambda>d. BASE58_ALPHABET ! d) (rev digits))"

definition generate_api_key :: "u8 list \<Rightarrow> string" where
  "generate_api_key bytes = KEY_PREFIX @ base58_encode bytes"

section \<open>The table\<close>

record ScopedApiKey =
  sk_id :: string
  sk_name :: string
  sk_scopes :: "ApiKeyScope list"
  sk_tenant_id :: "string option"

definition has_scope :: "ApiKeyScope \<Rightarrow> ScopedApiKey \<Rightarrow> bool" where
  "has_scope scope k \<longleftrightarrow> Admin \<in> set (sk_scopes k) \<or> scope \<in> set (sk_scopes k)"

record api_key_row =
  ak_id :: string
  ak_name :: string
  ak_key_hash :: string
  ak_scopes :: "string list"
  ak_tenant_id :: "string option"
  ak_created_at :: int
  ak_last_used_at :: "int option"
  ak_revoked_at :: "int option"

definition parse_scopes :: "string list \<Rightarrow> ApiKeyScope list" where
  "parse_scopes ss = List.map_filter scope_parse ss"

definition scoped_of_row :: "api_key_row \<Rightarrow> ScopedApiKey" where
  "scoped_of_row r = \<lparr>sk_id = ak_id r, sk_name = ak_name r, sk_scopes = parse_scopes (ak_scopes r), sk_tenant_id = ak_tenant_id r\<rparr>"

definition touch :: "int \<Rightarrow> string \<Rightarrow> api_key_row list \<Rightarrow> api_key_row list" where
  "touch now i tbl = map (\<lambda>r. if ak_id r = i
       \<and> (case ak_last_used_at r of None \<Rightarrow> True | Some t \<Rightarrow> t < now - 60 * 1000000)
     then r\<lparr>ak_last_used_at := Some now\<rparr> else r) tbl"

definition lookup_active_key ::
  "(string \<Rightarrow> string) \<Rightarrow> bool \<Rightarrow> int \<Rightarrow> string \<Rightarrow> api_key_row list \<Rightarrow> (unit + ScopedApiKey option) \<times> api_key_row list" where
  "lookup_active_key hash ok now raw_key tbl =
     (if \<not> starts_with raw_key KEY_PREFIX then (Inr None, tbl)
      else if \<not> ok then (Inl (), tbl)
      else case find (\<lambda>r. ak_key_hash r = hash raw_key \<and> ak_revoked_at r = None) tbl of
             None \<Rightarrow> (Inr None, tbl)
           | Some r \<Rightarrow> (Inr (Some (scoped_of_row r)), touch now (ak_id r) tbl))"

record CreateApiKeyRequest =
  cr_name :: string
  cr_scopes :: "ApiKeyScope list"
  cr_tenant_id :: "string option"

datatype key_error = Validation string | Database | Key_not_found

definition MAX_NAME_LEN :: nat where "MAX_NAME_LEN = 100"

definition char_count :: "string \<Rightarrow> nat" where
  "char_count s = length (filter (\<lambda>c. \<not> (0x80 \<le> (of_char c :: nat) \<and> (of_char c :: nat) < 0xC0)) s)"

definition validate_create :: "CreateApiKeyRequest \<Rightarrow> key_error + CreateApiKeyRequest" where
  "validate_create req =
     (let name = trim (cr_name req)
      in if name = [] then Inl (Validation ''name must not be empty'')
         else if char_count name > MAX_NAME_LEN then Inl (Validation ''name must be at most 100 characters'')
         else if cr_scopes req = [] then Inl (Validation ''at least one scope is required'')
         else Inr \<lparr>cr_name = name, cr_scopes = filter (\<lambda>s. s \<in> set (cr_scopes req)) ALL_SCOPES,
                   cr_tenant_id = (case map_option trim (cr_tenant_id req) of Some [] \<Rightarrow> None | t \<Rightarrow> t)\<rparr>)"

text \<open>The key hash is \<open>UNIQUE\<close> and the id the primary key: inserting an existing one is a database error.\<close>

definition create_api_key ::
  "(string \<Rightarrow> string) \<Rightarrow> bool \<Rightarrow> int \<Rightarrow> string \<Rightarrow> u8 list \<Rightarrow> CreateApiKeyRequest \<Rightarrow> api_key_row list
     \<Rightarrow> (key_error + string \<times> CreateApiKeyRequest) \<times> api_key_row list" where
  "create_api_key hash ok now new_id bytes req0 tbl =
     (case validate_create req0 of
        Inl e \<Rightarrow> (Inl e, tbl)
      | Inr req \<Rightarrow>
          let key = generate_api_key bytes
          in if \<not> ok \<or> hash key \<in> ak_key_hash ` set tbl \<or> new_id \<in> ak_id ` set tbl then (Inl Database, tbl)
             else (Inr (key, req), tbl @
               [\<lparr>ak_id = new_id, ak_name = cr_name req, ak_key_hash = hash key, ak_scopes = map scope_as_str (cr_scopes req),
                 ak_tenant_id = cr_tenant_id req, ak_created_at = now, ak_last_used_at = None, ak_revoked_at = None\<rparr>]))"

definition revoke_api_key :: "bool \<Rightarrow> int \<Rightarrow> string \<Rightarrow> api_key_row list \<Rightarrow> (key_error + unit) \<times> api_key_row list" where
  "revoke_api_key ok now i tbl =
     (if \<not> ok then (Inl Database, tbl)
      else if i \<notin> ak_id ` set tbl then (Inl Key_not_found, tbl)
      else (Inr (), map (\<lambda>r. if ak_id r = i
              then r\<lparr>ak_revoked_at := Some (case ak_revoked_at r of Some t \<Rightarrow> t | None \<Rightarrow> now)\<rparr> else r) tbl))"

record ApiKeyInfo =
  ki_id :: string
  ki_name :: string
  ki_scopes :: "ApiKeyScope list"
  ki_tenant_id :: "string option"
  ki_created_at :: int
  ki_last_used_at :: "int option"
  ki_revoked_at :: "int option"

definition info_of_row :: "api_key_row \<Rightarrow> ApiKeyInfo" where
  "info_of_row r = \<lparr>ki_id = ak_id r, ki_name = ak_name r, ki_scopes = parse_scopes (ak_scopes r), ki_tenant_id = ak_tenant_id r,
     ki_created_at = ak_created_at r, ki_last_used_at = ak_last_used_at r, ki_revoked_at = ak_revoked_at r\<rparr>"

definition list_api_keys :: "api_key_row list \<Rightarrow> ApiKeyInfo list" where
  "list_api_keys tbl = map info_of_row (sort_key (\<lambda>r. - ak_created_at r) tbl)"

section \<open>Scopes round trip\<close>

lemma scope_parse_as_str [simp]: "scope_parse (scope_as_str s) = Some s"
  by (cases s) (simp_all add: scope_parse_def ALL_SCOPES_def)

lemma parse_scopes_map [simp]: "parse_scopes (map scope_as_str ss) = ss"
  by (induction ss) (simp_all add: parse_scopes_def List.map_filter_simps)

section \<open>Base58\<close>

text \<open>The value of little-endian digits, and the digit lists without a leading zero at the top.\<close>

fun lval :: "nat \<Rightarrow> nat list \<Rightarrow> nat" where
  "lval B [] = 0"
| "lval B (d # ds) = d + B * lval B ds"

definition canonical :: "nat \<Rightarrow> nat list \<Rightarrow> bool" where
  "canonical B ds \<longleftrightarrow> (\<forall>d \<in> set ds. d < B) \<and> (ds \<noteq> [] \<longrightarrow> last ds \<noteq> 0)"

lemma canonical_Cons: "canonical B (d # ds) \<longleftrightarrow> d < B \<and> canonical B ds \<and> (ds = [] \<longrightarrow> d \<noteq> 0)"
  by (auto simp: canonical_def)

lemma lval_pos: "canonical B ds \<Longrightarrow> ds \<noteq> [] \<Longrightarrow> 0 < B \<Longrightarrow> 0 < lval B ds"
  by (induction ds) (auto simp: canonical_Cons)

lemma canonical_unique:
  assumes "canonical B ds" and "canonical B es" and "lval B ds = lval B es"
  shows "ds = es"
  using assms
proof (induction ds arbitrary: es)
  case Nil
  then show ?case
    using lval_pos [of B es] by (cases es) (auto simp: canonical_Cons)
next
  case (Cons d ds)
  show ?case
  proof (cases es)
    case Nil
    then show ?thesis
      using Cons.prems lval_pos [of B "d # ds"] by (auto simp: canonical_Cons)
  next
    case (Cons e es')
    with Cons.prems have "d < B" "e < B" "d + B * lval B ds = e + B * lval B es'"
      by (auto simp: canonical_Cons)
    moreover have "(x + B * y) mod B = x" "(x + B * y) div B = y" if "x < B" for x y
      using that by simp_all
    ultimately have "d = e" "lval B ds = lval B es'"
      by metis+
    then show ?thesis
      using Cons Cons.IH [of es'] Cons.prems by (simp add: canonical_Cons)
  qed
qed

lemma carry_digits_spec: "c \<le> fuel \<Longrightarrow> canonical 58 (carry_digits fuel c) \<and> lval 58 (carry_digits fuel c) = c"
proof (induction fuel arbitrary: c)
  case (Suc fuel)
  then have "c > 0 \<Longrightarrow> c div 58 \<le> fuel"
    by (cases c) auto
  moreover have "carry_digits fuel (c div 58) = [] \<Longrightarrow> c div 58 = 0" if "c div 58 \<le> fuel"
    using Suc.IH [OF that] by auto
  ultimately show ?case
    using Suc.IH [of "c div 58"] by (auto simp: canonical_Cons) (simp add: canonical_def)
qed (simp add: canonical_def)

lemma carry_digits_nonempty: "0 < c \<Longrightarrow> c \<le> fuel \<Longrightarrow> carry_digits fuel c \<noteq> []"
  by (cases fuel) auto

text \<open>The carry stays below 256, so the code's 32-bit additions do not wrap.\<close>

lemma carry_small: "c < 256 \<Longrightarrow> d < 58 \<Longrightarrow> c + d * 256 < 2 ^ 32 \<and> (c + d * 256) div 58 < 256" for c d :: nat
  by (auto intro: less_mult_imp_div_less)

lemma add_byte_spec: "canonical 58 ds \<Longrightarrow> canonical 58 (add_byte c ds) \<and> lval 58 (add_byte c ds) = c + 256 * lval 58 ds
    \<and> (0 < c \<or> ds \<noteq> [] \<longrightarrow> add_byte c ds \<noteq> [])"
proof (induction ds arbitrary: c)
  case Nil
  then show ?case
    using carry_digits_spec [of c c] carry_digits_nonempty [of c c] by auto
next
  case (Cons d ds)
  let ?c = "c + d * 256"
  have IH: "canonical 58 (add_byte (?c div 58) ds) \<and> lval 58 (add_byte (?c div 58) ds) = ?c div 58 + 256 * lval 58 ds
      \<and> (0 < ?c div 58 \<or> ds \<noteq> [] \<longrightarrow> add_byte (?c div 58) ds \<noteq> [])"
    using Cons by (simp add: canonical_Cons)
  have "add_byte (?c div 58) ds \<noteq> []"
  proof (cases "ds = []")
    case True
    then have "58 \<le> ?c" using Cons.prems by (simp add: canonical_Cons)
    then have "0 < ?c div 58" by (simp add: div_greater_zero_iff)
    then show ?thesis using IH by blast
  qed (use IH in blast)
  moreover have "?c mod 58 + 58 * (?c div 58) = ?c"
    by simp
  ultimately show ?case
    using IH by (simp add: canonical_Cons Let_def algebra_simps)
qed

lemma fold_add_byte:
  "canonical 58 ds \<Longrightarrow> canonical 58 (fold (\<lambda>b ds. add_byte (unat (b :: u8)) ds) bs ds)
    \<and> lval 58 (fold (\<lambda>b ds. add_byte (unat b) ds) bs ds) = foldl (\<lambda>v b. 256 * v + unat b) (lval 58 ds) bs"
proof (induction bs arbitrary: ds)
  case (Cons b bs)
  then show ?case
    using add_byte_spec [OF Cons.prems, of "unat b"] by (simp add: add.commute)
qed simp

lemma foldl_bytes: "foldl (\<lambda>v b. 256 * v + unat b) 0 bs = lval 256 (rev (map unat (bs :: u8 list)))"
proof (induction bs rule: rev_induct)
  case (snoc b bs)
  then show ?case by simp
qed simp

lemma bytes_canonical:
  assumes "bs \<noteq> [] \<Longrightarrow> hd bs \<noteq> (0 :: u8)"
  shows "canonical 256 (rev (map unat bs))"
proof -
  have "unat b < 256" for b :: u8
    using unsigned_less [of b] by simp
  moreover have "bs \<noteq> [] \<Longrightarrow> unat (hd bs) \<noteq> 0"
    using assms by (auto simp: unat_eq_0)
  ultimately show ?thesis
    by (auto simp: canonical_def last_rev hd_map)
qed

lemma alphabet_nth: "i < 58 \<Longrightarrow> j < 58 \<Longrightarrow> BASE58_ALPHABET ! i = BASE58_ALPHABET ! j \<longleftrightarrow> i = j"
proof -
  have "distinct BASE58_ALPHABET" "length BASE58_ALPHABET = 58"
    by (simp_all add: BASE58_ALPHABET_def)
  then show "i < 58 \<Longrightarrow> j < 58 \<Longrightarrow> BASE58_ALPHABET ! i = BASE58_ALPHABET ! j \<longleftrightarrow> i = j"
    by (simp add: nth_eq_iff_index_eq)
qed

lemma map_alphabet_inject:
  "\<forall>d \<in> set xs. d < 58 \<Longrightarrow> \<forall>d \<in> set ys. d < 58 \<Longrightarrow>
     map (\<lambda>d. BASE58_ALPHABET ! d) xs = map (\<lambda>d. BASE58_ALPHABET ! d) ys \<longleftrightarrow> xs = ys"
  by (subst inj_on_map_eq_map) (auto simp: inj_on_def alphabet_nth)

text \<open>The digits of the encoding: the leading ones, then the canonical digits of the value.\<close>

definition digits58 :: "u8 list \<Rightarrow> nat list" where
  "digits58 bs = fold (\<lambda>b ds. add_byte (unat b) ds) bs []"

lemma digits58_spec: "canonical 58 (digits58 bs)" "lval 58 (digits58 bs) = lval 256 (rev (map unat bs))"
  using fold_add_byte [of "[]" bs] by (simp_all add: digits58_def foldl_bytes canonical_def)

lemma leading_ones:
  assumes "canonical 58 ds"
  shows "length (takeWhile (\<lambda>c. c = CHR ''1'') (replicate z (CHR ''1'') @ map (\<lambda>d. BASE58_ALPHABET ! d) (rev ds))) = z"
proof -
  have "takeWhile (\<lambda>c. c = CHR ''1'') (map (\<lambda>d. BASE58_ALPHABET ! d) (rev ds)) = []"
  proof (cases ds rule: rev_cases)
    case (snoc ds' d)
    then have "d < 58" "d \<noteq> 0"
      using assms by (auto simp: canonical_def)
    then have "BASE58_ALPHABET ! d \<noteq> BASE58_ALPHABET ! 0"
      by (simp add: alphabet_nth)
    then show ?thesis
      using snoc by (simp add: BASE58_ALPHABET_def)
  qed simp
  then show ?thesis
    by (simp add: takeWhile_append)
qed

lemma canonical_stripped: "canonical 256 (rev (map unat (dropWhile (\<lambda>b. b = 0) (bs :: u8 list))))"
proof (rule bytes_canonical)
  show "hd (dropWhile (\<lambda>b. b = 0) bs) \<noteq> 0" if "dropWhile (\<lambda>b. b = 0) bs \<noteq> []"
    using that by (induction bs) auto
qed

lemma lval_snoc_zero: "lval B (xs @ [0]) = lval B xs"
  by (induction xs) simp_all

lemma lval_strip_zeros: "lval 256 (rev (map unat bs)) = lval 256 (rev (map unat (dropWhile (\<lambda>b. b = 0) (bs :: u8 list))))"
  by (induction bs) (simp_all add: lval_snoc_zero)

lemma zeros_split: "bs = replicate (length (takeWhile (\<lambda>b. b = 0) bs)) 0 @ dropWhile (\<lambda>b. b = 0) bs" for bs :: "u8 list"
  by (induction bs) simp_all

text \<open>
  Different random bytes give different API keys: the base58 encoding, leading zero bytes
  included, is injective.
\<close>

theorem generate_api_key_injective:
  "generate_api_key bs = generate_api_key cs \<longleftrightarrow> bs = cs"
proof
  assume "generate_api_key bs = generate_api_key cs"
  then have enc: "base58_encode bs = base58_encode cs"
    by (simp add: generate_api_key_def)
  define zeros :: "u8 list \<Rightarrow> nat" where "zeros bs = length (takeWhile (\<lambda>b. b = 0) bs)" for bs
  have form: "base58_encode bs = replicate (zeros bs) (CHR ''1'') @ map (\<lambda>d. BASE58_ALPHABET ! d) (rev (digits58 bs))" for bs
    by (simp add: base58_encode_def zeros_def digits58_def Let_def)
  have zeros: "zeros bs = zeros cs"
    using enc leading_ones [OF digits58_spec(1)] unfolding form by metis
  then have "rev (digits58 bs) = rev (digits58 cs)"
    using enc digits58_spec(1) [of bs] digits58_spec(1) [of cs] unfolding form
    by (subst map_alphabet_inject [symmetric]) (auto simp: canonical_def)
  then have "lval 256 (rev (map unat bs)) = lval 256 (rev (map unat cs))"
    using digits58_spec(2) by (metis rev_rev_ident)
  then have "lval 256 (rev (map unat (dropWhile (\<lambda>b. b = 0) bs))) = lval 256 (rev (map unat (dropWhile (\<lambda>b. b = 0) cs)))"
    by (simp only: lval_strip_zeros [symmetric])
  then have "rev (map unat (dropWhile (\<lambda>b. b = 0) bs)) = rev (map unat (dropWhile (\<lambda>b. b = 0) cs))"
    by (rule canonical_unique [OF canonical_stripped canonical_stripped])
  then have "dropWhile (\<lambda>b. b = 0) bs = dropWhile (\<lambda>b. b = 0) cs"
    by (simp add: inj_map_eq_map inj_def word_unat_eq_iff)
  then have "replicate (zeros bs) 0 @ dropWhile (\<lambda>b. b = 0) bs = replicate (zeros cs) 0 @ dropWhile (\<lambda>b. b = 0) cs"
    using zeros by simp
  then show "bs = cs"
    unfolding zeros_def zeros_split [symmetric] .
qed simp

section \<open>Life cycle of a key\<close>

datatype key_op =
  Create_op bool int string "u8 list" CreateApiKeyRequest
| Lookup_op bool int string
| Revoke_op bool int string

fun key_step :: "(string \<Rightarrow> string) \<Rightarrow> key_op \<Rightarrow> api_key_row list \<Rightarrow> api_key_row list" where
  "key_step hash (Create_op ok now i bytes req) tbl = snd (create_api_key hash ok now i bytes req tbl)"
| "key_step hash (Lookup_op ok now key) tbl = snd (lookup_active_key hash ok now key tbl)"
| "key_step hash (Revoke_op ok now i) tbl = snd (revoke_api_key ok now i tbl)"

definition keys_wf :: "api_key_row list \<Rightarrow> bool" where
  "keys_wf tbl \<longleftrightarrow> distinct (map ak_id tbl) \<and> distinct (map ak_key_hash tbl)"

definition same_key :: "api_key_row \<Rightarrow> api_key_row \<Rightarrow> bool" where
  "same_key r r' \<longleftrightarrow> ak_id r' = ak_id r \<and> ak_key_hash r' = ak_key_hash r \<and> scoped_of_row r' = scoped_of_row r"

text \<open>The row of a key keeps its identity under every operation and is revoked by its revocation only.\<close>

definition holds_key :: "api_key_row \<Rightarrow> bool \<Rightarrow> api_key_row list \<Rightarrow> bool" where
  "holds_key r live tbl \<longleftrightarrow> keys_wf tbl \<and> (\<exists>r' \<in> set tbl. same_key r r' \<and> (ak_revoked_at r' = None \<longleftrightarrow> live))"

lemma map_rows:
  assumes "\<And>r. ak_id (f r) = ak_id r" and "\<And>r. ak_key_hash (f r) = ak_key_hash r"
  shows "keys_wf (map f tbl) \<longleftrightarrow> keys_wf tbl"
  using assms by (simp add: keys_wf_def comp_def)

lemma keys_wf_step: "keys_wf tbl \<Longrightarrow> keys_wf (key_step hash kop tbl)"
proof (cases kop)
  case (Create_op ok now i bytes req)
  assume "keys_wf tbl"
  then show ?thesis
    by (auto simp: Create_op create_api_key_def keys_wf_def Let_def split: sum.split)
next
  case (Lookup_op ok now key)
  assume "keys_wf tbl"
  then show ?thesis
    by (auto simp: Lookup_op lookup_active_key_def touch_def map_rows split: option.split)
next
  case (Revoke_op ok now i)
  assume "keys_wf tbl"
  then show ?thesis
    by (simp add: Revoke_op revoke_api_key_def map_rows)
qed

lemma holds_key_step:
  assumes "holds_key r live tbl"
  shows "holds_key r (live \<and> (\<forall>now. kop \<noteq> Revoke_op True now (ak_id r))) (key_step hash kop tbl)"
proof -
  obtain r' where r': "r' \<in> set tbl" "same_key r r'" "ak_revoked_at r' = None \<longleftrightarrow> live"
    using assms by (auto simp: holds_key_def)
  have "\<exists>r'' \<in> set (key_step hash kop tbl). same_key r r''
      \<and> (ak_revoked_at r'' = None \<longleftrightarrow> live \<and> (\<forall>now. kop \<noteq> Revoke_op True now (ak_id r)))"
  proof (cases kop)
    case (Create_op ok now i bytes req)
    then show ?thesis
      using r' by (intro bexI [of _ r']) (auto simp: create_api_key_def Let_def split: sum.split)
  next
    case (Lookup_op ok now key)
    have "same_key r r'' \<and> (ak_revoked_at r'' = None \<longleftrightarrow> live)" if "r'' = r' \<or> r'' = r'\<lparr>ak_last_used_at := Some now\<rparr>" for r''
      using that r'(2,3) by (auto simp: same_key_def scoped_of_row_def)
    moreover have "r' \<in> set (touch now i tbl) \<or> r'\<lparr>ak_last_used_at := Some now\<rparr> \<in> set (touch now i tbl)" for i
      using r'(1) by (force simp: touch_def image_iff)
    moreover have "key_step hash kop tbl = tbl \<or> (\<exists>i. key_step hash kop tbl = touch now i tbl)"
      by (auto simp: Lookup_op lookup_active_key_def split: option.split)
    moreover have "\<not> (\<exists>now. kop = Revoke_op True now (ak_id r))"
      by (simp add: Lookup_op)
    ultimately show ?thesis
      using r'(1) by metis
  next
    case (Revoke_op ok now i)
    let ?g = "\<lambda>r. if ak_id r = i
      then r\<lparr>ak_revoked_at := Some (case ak_revoked_at r of None \<Rightarrow> now | Some t \<Rightarrow> t)\<rparr> else r"
    show ?thesis
    proof (cases "ok \<and> i \<in> ak_id ` set tbl")
      case True
      then have "key_step hash kop tbl = map ?g tbl"
        by (auto simp: Revoke_op revoke_api_key_def)
      then show ?thesis
        using r' True by (intro bexI [of _ "?g r'"]) (auto simp: Revoke_op same_key_def scoped_of_row_def)
    next
      case False
      then have "key_step hash kop tbl = tbl"
        by (auto simp: Revoke_op revoke_api_key_def intro: map_idI)
      then show ?thesis
        using r' False by (intro bexI [of _ r']) (auto simp: Revoke_op same_key_def image_iff)
    qed
  qed
  then show ?thesis
    using assms keys_wf_step by (auto simp: holds_key_def)
qed

lemma holds_key_steps:
  "holds_key r live tbl \<Longrightarrow>
     holds_key r (live \<and> (\<forall>now. Revoke_op True now (ak_id r) \<notin> set ops)) (fold (key_step hash) ops tbl)"
proof (induction ops arbitrary: live tbl)
  case (Cons kop ops)
  have "(live \<and> (\<forall>now. kop \<noteq> Revoke_op True now (ak_id r)) \<and> (\<forall>now. Revoke_op True now (ak_id r) \<notin> set ops))
      \<longleftrightarrow> live \<and> (\<forall>now. Revoke_op True now (ak_id r) \<notin> set (kop # ops))"
    by auto
  then show ?case
    using Cons.IH [OF holds_key_step [OF Cons.prems, of kop hash]] by simp
qed simp

lemma holds_key_lookup:
  assumes "holds_key r live tbl" and "ak_key_hash r = hash key" and "starts_with key KEY_PREFIX"
  shows "fst (lookup_active_key hash True now key tbl) = Inr (if live then Some (scoped_of_row r) else None)"
proof -
  obtain r' where r': "r' \<in> set tbl" "same_key r r'" "ak_revoked_at r' = None \<longleftrightarrow> live"
    using assms(1) by (auto simp: holds_key_def)
  have unique: "s = r'" if "s \<in> set tbl" "ak_key_hash s = hash key" for s
    using assms(1,2) that r' by (auto simp: holds_key_def keys_wf_def same_key_def distinct_map inj_on_def)
  show ?thesis
  proof (cases "find (\<lambda>r. ak_key_hash r = hash key \<and> ak_revoked_at r = None) tbl")
    case None
    then have "ak_revoked_at r' \<noteq> None"
      using r'(1,2) assms(2) by (auto simp: find_None_iff same_key_def)
    then have "\<not> live"
      using r'(3) by simp
    then show ?thesis
      using None assms(3) by (simp add: lookup_active_key_def)
  next
    case (Some s)
    then have "s = r'" "ak_revoked_at s = None"
      using unique [of s] by (auto simp: find_Some_iff)
    then show ?thesis
      using Some r' assms(3) by (simp add: lookup_active_key_def same_key_def)
  qed
qed

lemma created_key_lookup:
  assumes "keys_wf tbl" and "create_api_key hash ok now i bytes req tbl = (Inr (key, req'), tbl1)"
  shows "fst (lookup_active_key hash True t key (fold (key_step hash) ops tbl1)) =
    Inr (if \<exists>now. Revoke_op True now i \<in> set ops then None
         else Some \<lparr>sk_id = i, sk_name = cr_name req', sk_scopes = cr_scopes req', sk_tenant_id = cr_tenant_id req'\<rparr>)"
proof -
  define r where "r = \<lparr>ak_id = i, ak_name = cr_name req', ak_key_hash = hash key, ak_scopes = map scope_as_str (cr_scopes req'),
    ak_tenant_id = cr_tenant_id req', ak_created_at = now, ak_last_used_at = None, ak_revoked_at = None\<rparr>"
  have created: "tbl1 = tbl @ [r]" "key = generate_api_key bytes"
    using assms(2) by (auto simp: create_api_key_def r_def Let_def split: sum.splits if_splits)
  have "keys_wf tbl1"
    using keys_wf_step [OF assms(1), of hash "Create_op ok now i bytes req"] assms(2) by simp
  then have "holds_key r True tbl1"
    by (auto simp: holds_key_def created(1) same_key_def r_def)
  from holds_key_lookup [OF holds_key_steps [OF this, of ops hash], of hash key t] show ?thesis
    by (auto simp: r_def scoped_of_row_def created(2) generate_api_key_def)
qed

text \<open>
  A created key authenticates with exactly the validated scopes and tenant until it is revoked,
  and never again after that, whatever other keys are created, used or revoked in between.
\<close>

theorem api_key_lifecycle:
  assumes "keys_wf tbl" and "create_api_key hash ok now i bytes req tbl = (Inr (key, req'), tbl1)"
  shows "fst (lookup_active_key hash True t key (fold (key_step hash) ops tbl1)) =
    Inr (if \<exists>now. Revoke_op True now i \<in> set ops then None
         else Some \<lparr>sk_id = i, sk_name = cr_name req', sk_scopes = cr_scopes req', sk_tenant_id = cr_tenant_id req'\<rparr>)"
  by (rule created_key_lookup [OF assms])

theorem api_key_lifecycle_witness:
  "let (r, tbl1) = create_api_key (\<lambda>s. s) True 0 ''id1'' [0, 1] \<lparr>cr_name = '' ci '', cr_scopes = [Admin, ReadEvents], cr_tenant_id = None\<rparr> [];
       lookup = \<lambda>ops. fst (lookup_active_key (\<lambda>s. s) True 9 ''sp_12'' (fold (key_step (\<lambda>s. s)) ops tbl1))
   in lookup [Lookup_op True 5 ''sp_12''] = Inr (Some \<lparr>sk_id = ''id1'', sk_name = ''ci'', sk_scopes = [ReadEvents, Admin], sk_tenant_id = None\<rparr>)
      \<and> lookup [Revoke_op True 5 ''id1'', Lookup_op True 6 ''sp_12''] = Inr None"
proof -
  let ?req = "\<lparr>cr_name = '' ci '', cr_scopes = [Admin, ReadEvents], cr_tenant_id = None\<rparr>"
  let ?req' = "\<lparr>cr_name = ''ci'', cr_scopes = [ReadEvents, Admin], cr_tenant_id = None\<rparr>"
  have "create_api_key (\<lambda>s. s) True 0 ''id1'' [0, 1] ?req [] = (Inr (''sp_12'', ?req'),
      [\<lparr>ak_id = ''id1'', ak_name = ''ci'', ak_key_hash = ''sp_12'', ak_scopes = [''read:events'', ''admin''],
        ak_tenant_id = None, ak_created_at = 0, ak_last_used_at = None, ak_revoked_at = None\<rparr>])"
    by code_simp
  note created = this
  have "keys_wf []"
    by (simp add: keys_wf_def)
  note life = api_key_lifecycle [OF this created]
  show ?thesis
    unfolding created Let_def prod.case life by simp
qed

end
