(* ===== verification/Zero_Trust.thy ===== *)
theory Zero_Trust
  imports Bounded_Log Net_Addr
begin

text \<open>
  Model of \<open>src/zero_trust.rs\<close>: request signatures, rotating key sets, the IP allow and deny lists
  with their CIDR entries, the policy evaluator and the access log. HMAC-SHA256 (with hexadecimal
  output) and the RFC 3339 parser of chrono are parameters; clock readings are arguments, in
  nanoseconds.
\<close>

unbundle bit_operations_syntax

section \<open>Request signatures\<close>

definition MAX_TIMESTAMP_AGE_SECS :: i64 where "MAX_TIMESTAMP_AGE_SECS = 300"

definition canonical_payload :: "string \<Rightarrow> string \<Rightarrow> string \<Rightarrow> string \<Rightarrow> string" where
  "canonical_payload meth path timestamp body = meth @ ''\<newline>'' @ path @ ''\<newline>'' @ timestamp @ ''\<newline>'' @ body"

text \<open>\<open>Duration::num_seconds\<close> truncates towards zero.\<close>

definition num_seconds :: "int \<Rightarrow> i64" where
  "num_seconds ns = sgn ns * (\<bar>ns\<bar> div 1000000000)"

definition is_timestamp_fresh :: "(string \<Rightarrow> int option) \<Rightarrow> int \<Rightarrow> string \<Rightarrow> bool" where
  "is_timestamp_fresh parse_ts now timestamp =
     (case parse_ts timestamp of None \<Rightarrow> False
      | Some ts \<Rightarrow> \<bar>num_seconds (now - ts)\<bar> \<le> MAX_TIMESTAMP_AGE_SECS)"

definition sign :: "(string \<Rightarrow> string \<Rightarrow> string) \<Rightarrow> string \<Rightarrow> string \<Rightarrow> string \<Rightarrow> string \<Rightarrow> string \<Rightarrow> string" where
  "sign hmac_hex secret meth path timestamp body = hmac_hex secret (canonical_payload meth path timestamp body)"

definition verify ::
  "(string \<Rightarrow> string \<Rightarrow> string) \<Rightarrow> (string \<Rightarrow> int option) \<Rightarrow> int \<Rightarrow>
     string \<Rightarrow> string \<Rightarrow> string \<Rightarrow> string \<Rightarrow> string \<Rightarrow> string \<Rightarrow> bool" where
  "verify hmac_hex parse_ts now secret meth path timestamp body provided_sig =
     (if \<not> is_timestamp_fresh parse_ts now timestamp then False
      else sign hmac_hex secret meth path timestamp body = provided_sig)"

section \<open>Rotating keys\<close>

record ApiKeySet =
  primary :: string
  secondary :: "string option"
  rotated_at :: "int option"

definition key_set_new :: "string \<Rightarrow> ApiKeySet" where
  "key_set_new k = \<lparr>primary = k, secondary = None, rotated_at = None\<rparr>"

definition is_valid :: "ApiKeySet \<Rightarrow> string \<Rightarrow> bool" where
  "is_valid ks key \<longleftrightarrow> primary ks = key \<or> (case secondary ks of None \<Rightarrow> False | Some s \<Rightarrow> s = key)"

definition rotate_key :: "int \<Rightarrow> string \<Rightarrow> ApiKeySet \<Rightarrow> ApiKeySet" where
  "rotate_key now new_key ks = \<lparr>primary = new_key, secondary = Some (primary ks), rotated_at = Some now\<rparr>"

definition is_in_grace_period :: "int \<Rightarrow> i64 \<Rightarrow> ApiKeySet \<Rightarrow> bool" where
  "is_in_grace_period now grace_period_secs ks =
     (case rotated_at ks of None \<Rightarrow> False
      | Some t \<Rightarrow> num_seconds (now - t) < grace_period_secs)"

section \<open>Decisions and rules\<close>

datatype ChallengeMethod = Mfa | Reauthenticate | Captcha

datatype AccessDecision = Allow | Deny string | Challenge ChallengeMethod

fun show_challenge :: "ChallengeMethod \<Rightarrow> string" where
  "show_challenge Mfa = ''MFA''"
| "show_challenge Reauthenticate = ''Reauthenticate''"
| "show_challenge Captcha = ''CAPTCHA''"

fun show_decision :: "AccessDecision \<Rightarrow> string" where
  "show_decision Allow = ''Allow''"
| "show_decision (Deny reason) = ''Deny('' @ reason @ '')''"
| "show_decision (Challenge m) = ''Challenge('' @ show_challenge m @ '')''"

record RequestContext =
  ip_address :: string
  api_key_hash :: string
  req_path :: string
  req_method :: string
  req_timestamp :: int
  user_agent :: "string option"

definition context_new :: "int \<Rightarrow> string \<Rightarrow> string \<Rightarrow> string \<Rightarrow> string \<Rightarrow> RequestContext" where
  "context_new now ip h path meth =
     \<lparr>ip_address = ip, api_key_hash = h, req_path = path, req_method = meth, req_timestamp = now, user_agent = None\<rparr>"

definition with_user_agent :: "string \<Rightarrow> RequestContext \<Rightarrow> RequestContext" where
  "with_user_agent ua ctx = ctx\<lparr>user_agent := Some ua\<rparr>"

definition with_timestamp :: "int \<Rightarrow> RequestContext \<Rightarrow> RequestContext" where
  "with_timestamp ts ctx = ctx\<lparr>req_timestamp := ts\<rparr>"

record IpFilterEntry =
  network :: IpAddr
  prefix_len :: u8

fun max_prefix :: "IpAddr \<Rightarrow> nat" where
  "max_prefix (V4 a b c d) = 32"
| "max_prefix (V6 a b c d e f g h) = 128"

definition entry_parse :: "string \<Rightarrow> IpFilterEntry option" where
  "entry_parse entry =
     (case split_once (CHR ''/'') entry of
        Some (addr, len) \<Rightarrow>
          (case (parse_ip (trim addr), parse_u8_radix 10 (trim len)) of
             (Some net, Some n) \<Rightarrow> if n > max_prefix net then None
                                  else Some \<lparr>network = net, prefix_len = of_nat n\<rparr>
           | _ \<Rightarrow> None)
      | None \<Rightarrow> map_option (\<lambda>net. \<lparr>network = net, prefix_len = of_nat (max_prefix net)\<rparr>) (parse_ip (trim entry)))"

text \<open>\<open>u32::from\<close> and \<open>u128::from\<close> of an address: its bytes, or 16-bit groups, in network order.\<close>

definition u32_of :: "u8 \<Rightarrow> u8 \<Rightarrow> u8 \<Rightarrow> u8 \<Rightarrow> u32" where
  "u32_of a b c d = word_rcat [a, b, c, d]"

definition u128_of :: "u16 list \<Rightarrow> 128 word" where
  "u128_of gs = word_rcat gs"

definition prefix_mask :: "u8 \<Rightarrow> 'a::len word" where
  "prefix_mask n = (if n = 0 then 0 else push_bit (LENGTH('a) - unat n) (- 1))"

fun addr_in :: "IpAddr \<Rightarrow> u8 \<Rightarrow> IpAddr \<Rightarrow> bool" where
  "addr_in (V4 a b c d) n (V4 a' b' c' d') \<longleftrightarrow>
     u32_of a b c d AND prefix_mask n = u32_of a' b' c' d' AND prefix_mask n"
| "addr_in (V6 a b c d e f g h) n (V6 a' b' c' d' e' f' g' h') \<longleftrightarrow>
     u128_of [a, b, c, d, e, f, g, h] AND prefix_mask n = u128_of [a', b', c', d', e', f', g', h'] AND prefix_mask n"
| "addr_in _ n _ \<longleftrightarrow> False"

definition entry_contains :: "IpFilterEntry \<Rightarrow> IpAddr \<Rightarrow> bool" where
  "entry_contains e candidate = addr_in (network e) (prefix_len e) candidate"

definition parse_ip_filter_list :: "string list \<Rightarrow> IpFilterEntry list" where
  "parse_ip_filter_list entries = List.map_filter entry_parse entries"

definition deny_list_evaluate :: "string list \<Rightarrow> RequestContext \<Rightarrow> AccessDecision option" where
  "deny_list_evaluate denied ctx =
     (case parse_ip (ip_address ctx) of
        None \<Rightarrow> None
      | Some candidate \<Rightarrow>
          if list_ex (\<lambda>e. entry_contains e candidate) (parse_ip_filter_list denied)
          then Some (Deny (''IP address '' @ ip_address ctx @ '' is blocked'')) else None)"

definition allow_list_evaluate :: "string list \<Rightarrow> RequestContext \<Rightarrow> AccessDecision option" where
  "allow_list_evaluate allowed ctx =
     (case parse_ip (ip_address ctx) of
        None \<Rightarrow> Some (Deny ''Unparseable client IP address'')
      | Some candidate \<Rightarrow>
          if list_ex (\<lambda>e. entry_contains e candidate) (parse_ip_filter_list allowed)
          then None else Some (Deny (''IP address '' @ ip_address ctx @ '' is not on the allow list'')))"

text \<open>
  \<open>str::to_uppercase\<close>, as far as it can produce one of the four method names below: ASCII letters,
  the long s and the two ligatures of s and t. Other characters are kept; none of them has an upper
  case of these letters.
\<close>

fun to_uppercase :: "string \<Rightarrow> string" where
  "to_uppercase [] = []"
| "to_uppercase (c # cs) =
     (if starts_with (c # cs) [CHR 0xC5, CHR 0xBF] then CHR ''S'' # to_uppercase (drop 1 cs)
      else if starts_with (c # cs) [CHR 0xEF, CHR 0xAC, CHR 0x85] \<or> starts_with (c # cs) [CHR 0xEF, CHR 0xAC, CHR 0x86]
        then ''ST'' @ to_uppercase (drop 2 cs)
      else (if 97 \<le> (of_char c :: nat) \<and> (of_char c :: nat) \<le> 122 then char_of ((of_char c :: nat) - 32) else c) # to_uppercase cs)"

definition mutation_challenge_evaluate :: "RequestContext \<Rightarrow> AccessDecision option" where
  "mutation_challenge_evaluate ctx =
     (if to_uppercase (req_method ctx) \<in> {''POST'', ''PUT'', ''PATCH'', ''DELETE''} then Some (Challenge Mfa) else None)"

definition allowed_keys_evaluate :: "string list \<Rightarrow> RequestContext \<Rightarrow> AccessDecision option" where
  "allowed_keys_evaluate hashes ctx = (if api_key_hash ctx \<in> set hashes then Some Allow else None)"

text \<open>A rule object is its type with the data it was built from.\<close>

datatype rule =
  IpDenyListRule "string list" | IpAllowListRule "string list" | MutationChallengeRule | AllowedKeysRule "string list"

fun rule_evaluate :: "rule \<Rightarrow> RequestContext \<Rightarrow> AccessDecision option" where
  "rule_evaluate (IpDenyListRule xs) = deny_list_evaluate xs"
| "rule_evaluate (IpAllowListRule xs) = allow_list_evaluate xs"
| "rule_evaluate MutationChallengeRule = mutation_challenge_evaluate"
| "rule_evaluate (AllowedKeysRule hs) = allowed_keys_evaluate hs"

definition add_rule :: "rule \<Rightarrow> rule list \<Rightarrow> rule list" where
  "add_rule r rules = rules @ [r]"

fun evaluate :: "rule list \<Rightarrow> RequestContext \<Rightarrow> AccessDecision" where
  "evaluate [] ctx = Deny ''no matching policy rule''"
| "evaluate (r # rs) ctx = (case rule_evaluate r ctx of Some d \<Rightarrow> d | None \<Rightarrow> evaluate rs ctx)"

section \<open>Access log\<close>

record AccessLogEntry =
  log_context :: RequestContext
  log_decision :: AccessDecision
  recorded_at :: int

record AccessLogger =
  log_entries :: "AccessLogEntry list"
  capacity :: nat

definition logger_new :: "nat \<Rightarrow> AccessLogger" where
  "logger_new cap = \<lparr>log_entries = [], capacity = cap\<rparr>"

text \<open>\<open>Vec::remove(0)\<close> panics on an empty vector, which leaves the log as it was: \<open>None\<close>.\<close>

definition record_access :: "AccessLogEntry \<Rightarrow> AccessLogger \<Rightarrow> AccessLogger option" where
  "record_access entry l =
     (if length (log_entries l) \<ge> capacity l
      then (case log_entries l of [] \<Rightarrow> None | _ # rest \<Rightarrow> Some (l\<lparr>log_entries := rest @ [entry]\<rparr>))
      else Some (l\<lparr>log_entries := log_entries l @ [entry]\<rparr>))"

definition after_record :: "AccessLogEntry \<Rightarrow> AccessLogger \<Rightarrow> AccessLogger" where
  "after_record entry l = (case record_access entry l of None \<Rightarrow> l | Some l' \<Rightarrow> l')"

definition recent_entries :: "nat \<Rightarrow> AccessLogger \<Rightarrow> AccessLogEntry list" where
  "recent_entries n l = take n (rev (log_entries l))"

definition entries_for_key :: "string \<Rightarrow> nat \<Rightarrow> AccessLogger \<Rightarrow> AccessLogEntry list" where
  "entries_for_key h n l = take n (filter (\<lambda>e. api_key_hash (log_context e) = h) (rev (log_entries l)))"

definition logger_len :: "AccessLogger \<Rightarrow> nat" where
  "logger_len l = length (log_entries l)"

section \<open>CIDR entries\<close>

text \<open>The bits of an address in network order, from its octets or 16-bit groups.\<close>

definition bits_msb :: "'a::len word \<Rightarrow> bool list" where
  "bits_msb w = rev (map (bit w) [0..<LENGTH('a)])"

fun ip_bits :: "IpAddr \<Rightarrow> bool list" where
  "ip_bits (V4 a b c d) = bits_msb a @ bits_msb b @ bits_msb c @ bits_msb d"
| "ip_bits (V6 a b c d e f g h) = bits_msb a @ bits_msb b @ bits_msb c @ bits_msb d
     @ bits_msb e @ bits_msb f @ bits_msb g @ bits_msb h"

lemma chunk_bits:
  fixes us :: "'a::len word list"
  shows "map (\<lambda>n. bit (us ! (n div LENGTH('a))) (n mod LENGTH('a))) [0..<length us * LENGTH('a)]
     = concat (map (\<lambda>u. map (bit u) [0..<LENGTH('a)]) us)"
proof (induction us)
  case (Cons u us)
  have split: "[0..<length (u # us) * LENGTH('a)] = [0..<LENGTH('a)] @ map (\<lambda>n. n + LENGTH('a)) [0..<length us * LENGTH('a)]"
    using upt_add_eq_append [of 0 "LENGTH('a)" "length us * LENGTH('a)"]
    by (simp only: map_add_upt length_Cons mult_Suc add.commute [of "length us * LENGTH('a)"])
  show ?case
    unfolding split map_append map_map comp_def by (simp add: Cons.IH)
qed simp

lemma bits_msb_rcat:
  fixes ws :: "'a::len word list"
  assumes "length ws * LENGTH('a) = LENGTH('b::len)"
  shows "bits_msb (word_rcat ws :: 'b word) = concat (map bits_msb ws)"
proof -
  have "bit (word_rcat ws :: 'b word) n = bit (rev ws ! (n div LENGTH('a))) (n mod LENGTH('a))" if "n < LENGTH('b)" for n
    using that assms
    by (simp add: word_rcat_def bit_word_of_int_iff bit_horner_sum_uint_exp_iff less_mult_imp_div_less)
  then have "map (bit (word_rcat ws :: 'b word)) [0..<LENGTH('b)]
      = map (\<lambda>n. bit (rev ws ! (n div LENGTH('a))) (n mod LENGTH('a))) [0..<LENGTH('b)]"
    by (intro map_cong) simp_all
  also have "\<dots> = concat (map (\<lambda>u. map (bit u) [0..<LENGTH('a)]) (rev ws))"
    using chunk_bits [of "rev ws"] assms by simp
  finally have eq: "map (bit (word_rcat ws :: 'b word)) [0..<LENGTH('b)] = concat (map (\<lambda>u. map (bit u) [0..<LENGTH('a)]) (rev ws))" .
  show ?thesis
    unfolding bits_msb_def [of "word_rcat ws"] eq rev_concat
    by (simp add: bits_msb_def [abs_def] rev_map comp_def)
qed

lemma bit_prefix_mask: "bit (prefix_mask n :: 'a::len word) i \<longleftrightarrow> LENGTH('a) - unat n \<le> i \<and> i < LENGTH('a)"
  by (auto simp: prefix_mask_def bit_not_iff bit_mask_iff)

lemma prefix_mask_eq:
  fixes x y :: "'a::len word"
  assumes "unat n \<le> LENGTH('a)"
  shows "x AND prefix_mask n = y AND prefix_mask n \<longleftrightarrow> take (unat n) (bits_msb x) = take (unat n) (bits_msb y)"
proof -
  have "take (unat n) (bits_msb z) = rev (map (bit z) [LENGTH('a) - unat n..<LENGTH('a)])" for z :: "'a word"
    using assms by (simp add: bits_msb_def take_rev drop_map)
  then show ?thesis
    by (auto simp: bit_eq_iff bit_and_iff bit_prefix_mask)
qed

lemma length_bits_msb [simp]: "length (bits_msb (w :: 'a::len word)) = LENGTH('a)"
  by (simp add: bits_msb_def)

lemma length_ip_bits: "length (ip_bits a) = max_prefix a"
  by (cases a) simp_all

lemma addr_in_exact:
  assumes "unat n \<le> max_prefix net"
  shows "addr_in net n a \<longleftrightarrow> max_prefix a = max_prefix net \<and> take (unat n) (ip_bits a) = take (unat n) (ip_bits net)"
  using assms by (cases net; cases a) (auto simp: u32_of_def u128_of_def prefix_mask_eq bits_msb_rcat)

lemma entry_parse_prefix: "entry_parse s = Some e \<Longrightarrow> unat (prefix_len e) \<le> max_prefix (network e)"
  by (cases "network e")
    (auto simp: entry_parse_def parse_u8_radix_def parse_uint_def Let_def unat_of_nat split: option.splits if_splits)

text \<open>An entry covers the addresses of its family that share its first \<open>prefix_len\<close> bits.\<close>

definition covers :: "string \<Rightarrow> IpAddr \<Rightarrow> bool" where
  "covers s a = (case entry_parse s of None \<Rightarrow> False
     | Some e \<Rightarrow> length (ip_bits a) = length (ip_bits (network e))
         \<and> take (unat (prefix_len e)) (ip_bits a) = take (unat (prefix_len e)) (ip_bits (network e)))"

lemma listed_iff: "list_ex (\<lambda>e. entry_contains e a) (parse_ip_filter_list xs) \<longleftrightarrow> list_ex (\<lambda>s. covers s a) xs"
  by (induction xs)
    (auto simp: parse_ip_filter_list_def List.map_filter_def covers_def entry_contains_def addr_in_exact
      entry_parse_prefix length_ip_bits split: option.splits)

text \<open>
  The lists decide by address bits: a request is refused by a deny list exactly when its client
  address parses and shares the leading bits of an entry of its family, and passes an allow list
  exactly then. A client address that does not parse passes every deny list and no allow list.
\<close>

theorem ip_lists_exact:
  "(deny_list_evaluate xs ctx \<noteq> None \<longleftrightarrow>
      (case parse_ip (ip_address ctx) of None \<Rightarrow> False | Some a \<Rightarrow> list_ex (\<lambda>s. covers s a) xs))
   \<and> (allow_list_evaluate xs ctx = None \<longleftrightarrow>
      (case parse_ip (ip_address ctx) of None \<Rightarrow> False | Some a \<Rightarrow> list_ex (\<lambda>s. covers s a) xs))
   \<and> deny_list_evaluate xs ctx \<noteq> Some Allow \<and> allow_list_evaluate xs ctx \<noteq> Some Allow"
  by (simp add: deny_list_evaluate_def allow_list_evaluate_def listed_iff split: option.split)

section \<open>Keys, policies and the log\<close>

text \<open>
  Two rotations retire a key; the grace period is never consulted, so the previous key stays valid
  until the next rotation.
\<close>

definition rotations :: "(int \<times> string) list \<Rightarrow> ApiKeySet \<Rightarrow> ApiKeySet" where
  "rotations ops ks = fold (\<lambda>(now, k). rotate_key now k) ops ks"

lemma rotation_state:
  "let ks = rotations ops (key_set_new k0); h = k0 # map snd ops
   in primary ks = last h \<and> secondary ks = (if ops = [] then None else Some (last (butlast h)))"
proof (induction ops rule: rev_induct)
  case (snoc p ops)
  then show ?case
    by (cases p) (auto simp: rotations_def rotate_key_def Let_def butlast_append)
qed (simp add: rotations_def key_set_new_def)

text \<open>
  Whatever rotations happened, the keys a set accepts are exactly its last two.
\<close>

lemma rotation_keeps_two:
  "is_valid (rotations ops (key_set_new k0)) key \<longleftrightarrow> key \<in> set (last_n 2 (k0 # map snd ops))"
proof (cases ops rule: rev_cases)
  case Nil
  then show ?thesis
    by (auto simp: rotations_def key_set_new_def is_valid_def)
next
  case (snoc ops' p)
  obtain h x where h: "k0 # map snd ops' = h @ [x]"
    by (metis rev_exhaust list.distinct(1))
  have full: "k0 # map snd ops = h @ [x, snd p]"
    using snoc h by simp
  have "primary (rotations ops (key_set_new k0)) = snd p \<and> secondary (rotations ops (key_set_new k0)) = Some x"
    using rotation_state [of ops k0] snoc unfolding full Let_def by (simp add: butlast_append)
  then show ?thesis
    unfolding full by (auto simp: is_valid_def last_n_def)
qed

lemma evaluate_first:
  "evaluate rules ctx = (case find (\<lambda>r. rule_evaluate r ctx \<noteq> None) rules of
     None \<Rightarrow> Deny ''no matching policy rule'' | Some r \<Rightarrow> the (rule_evaluate r ctx))"
  by (induction rules) (auto split: option.splits)

text \<open>
  An evaluator allows a request only on the word of a key rule: the key hash is listed, and
  every rule before that one let the request pass, so no earlier deny list covers the client, every
  earlier allow list does, and no earlier rule challenges the method.
\<close>

lemma policy_allows_only_listed_keys:
  "evaluate rules ctx = Allow \<longleftrightarrow>
     (\<exists>before hashes after. rules = before @ AllowedKeysRule hashes # after \<and> api_key_hash ctx \<in> set hashes
        \<and> list_all (\<lambda>r. rule_evaluate r ctx = None) before)"
proof (induction rules)
  case (Cons r rules)
  define allows where "allows rs \<longleftrightarrow> (\<exists>before hashes after. rs = before @ AllowedKeysRule hashes # after
      \<and> api_key_hash ctx \<in> set hashes \<and> list_all (\<lambda>r. rule_evaluate r ctx = None) before)" for rs
  have word: "\<exists>hashes. r = AllowedKeysRule hashes \<and> api_key_hash ctx \<in> set hashes" if "rule_evaluate r ctx = Some Allow"
    using that by (cases r) (auto simp: deny_list_evaluate_def allow_list_evaluate_def mutation_challenge_evaluate_def
        allowed_keys_evaluate_def split: option.splits if_splits)
  show ?case
  proof (cases "rule_evaluate r ctx")
    case None
    then have silent: "r = AllowedKeysRule hashes \<Longrightarrow> api_key_hash ctx \<notin> set hashes" for hashes
      by (auto simp: allowed_keys_evaluate_def)
    have "allows (r # rules) \<longleftrightarrow> allows rules"
    proof
      assume "allows (r # rules)"
      then obtain before hashes after where split: "r # rules = before @ AllowedKeysRule hashes # after"
        and *: "api_key_hash ctx \<in> set hashes" "list_all (\<lambda>r. rule_evaluate r ctx = None) before"
        unfolding allows_def by blast
      show "allows rules"
      proof (cases before)
        case Nil
        then show ?thesis
          using split * silent by simp
      next
        case (Cons b bs)
        then have "rules = bs @ AllowedKeysRule hashes # after" "list_all (\<lambda>r. rule_evaluate r ctx = None) bs"
          using split * by simp_all
        then show ?thesis
          unfolding allows_def using *(1) by blast
      qed
    next
      assume "allows rules"
      then obtain before hashes after where "rules = before @ AllowedKeysRule hashes # after"
        "api_key_hash ctx \<in> set hashes" "list_all (\<lambda>r. rule_evaluate r ctx = None) before"
        by (auto simp: allows_def)
      then have "r # rules = (r # before) @ AllowedKeysRule hashes # after \<and> api_key_hash ctx \<in> set hashes
          \<and> list_all (\<lambda>r. rule_evaluate r ctx = None) (r # before)"
        using None by simp
      then show "allows (r # rules)"
        unfolding allows_def by blast
    qed
    then show ?thesis
      using None Cons.IH by (simp add: allows_def)
  next
    case (Some d)
    have "allows (r # rules)" if "r = AllowedKeysRule hashes" "api_key_hash ctx \<in> set hashes" for hashes
    proof -
      have "r # rules = [] @ AllowedKeysRule hashes # rules \<and> api_key_hash ctx \<in> set hashes
          \<and> list_all (\<lambda>r. rule_evaluate r ctx = None) []"
        using that by simp
      then show ?thesis
        unfolding allows_def by blast
    qed
    moreover have "\<exists>hashes. r = AllowedKeysRule hashes \<and> api_key_hash ctx \<in> set hashes" if "allows (r # rules)"
      using that Some by (auto simp: allows_def Cons_eq_append_conv)
    ultimately have "allows (r # rules) \<longleftrightarrow> (\<exists>hashes. r = AllowedKeysRule hashes \<and> api_key_hash ctx \<in> set hashes)"
      by blast
    also have "\<dots> \<longleftrightarrow> d = Allow"
      using word Some by (auto simp: allowed_keys_evaluate_def split: if_splits)
    finally show ?thesis
      using Some by (simp add: allows_def)
  qed
qed simp

interpretation access: bounded_log after_record log_entries capacity
  by unfold_locales
    (auto simp: after_record_def record_access_def last_n_def split: list.split)

text \<open>
  The access log holds the newest entries up to its capacity: the recent entries, and those of
  one key, are the newest ones of everything recorded since the start that are still within it. A
  logger of capacity 0 panics on every record.
\<close>

lemma access_log_keeps_newest:
  "recent_entries n (fold after_record es (logger_new cap)) = take n (take cap (rev es))
   \<and> entries_for_key h n (fold after_record es (logger_new cap))
       = take n (filter (\<lambda>e. api_key_hash (log_context e) = h) (take cap (rev es)))
   \<and> logger_len (fold after_record es (logger_new cap)) = min cap (length es)
   \<and> (record_access e (fold after_record es (logger_new cap)) = None \<longleftrightarrow> cap = 0)"
proof -
  let ?l = "fold after_record es (logger_new cap)"
  have entries: "log_entries ?l = last_n cap es"
    using access.contents_pushes [of "logger_new cap" es] by (simp add: logger_new_def)
  moreover have "rev (last_n cap es) = take cap (rev es)"
    by (cases "cap \<le> length es") (simp_all add: last_n_def rev_drop)
  moreover have "capacity ?l = cap"
    using access.bound_pushes [of es "logger_new cap"] by (simp add: logger_new_def)
  moreover have "record_access e l = None \<longleftrightarrow> capacity l \<le> length (log_entries l) \<and> log_entries l = []" for l
    by (auto simp: record_access_def split: list.split)
  moreover have "last_n cap es = [] \<longleftrightarrow> cap = 0 \<or> es = []"
    by (cases es) (auto simp: last_n_def)
  ultimately show ?thesis
    by (auto simp: recent_entries_def entries_for_key_def logger_len_def)
qed

end
