(* ===== verification/Access_Control.thy ===== *)
theory Access_Control
  imports Api_Keys Zero_Trust
begin

text \<open>
  Model of \<open>src/middleware/auth.rs\<close>, \<open>src/middleware/ip_access.rs\<close>, the client address of
  \<open>src/handlers/mod.rs\<close>, \<open>is_dashboard_path\<close> of \<open>src/dashboard.rs\<close> and the order in which
  \<open>src/routes.rs\<close> runs these layers. A middleware returns the rejection, or the request it hands to
  the next layer. SHA-256 (hexadecimal) is the parameter \<open>hash\<close>.
\<close>

section \<open>Requests\<close>

text \<open>Header names are lower case, as the HTTP library stores them; a lookup finds the first value.\<close>

record request =
  r_method :: string
  r_path :: string
  headers :: "(string \<times> string) list"
  ext_principal :: "string option"
  ext_tenant :: "string option"
  ext_scoped :: "ScopedApiKey option"

definition header_str :: "string \<Rightarrow> request \<Rightarrow> string option" where
  "header_str name req =
     (case map_of (headers req) name of None \<Rightarrow> None
      | Some v \<Rightarrow> if list_all (\<lambda>c. c = CHR 0x09 \<or> (32 \<le> (of_char c :: nat) \<and> (of_char c :: nat) < 127)) v
                  then Some v else None)"

datatype rejection = Unauthorized string | Forbidden string "ApiKeyScope option" | Ip_blocked

section \<open>Authentication\<close>

definition principal_from_api_key :: "(string \<Rightarrow> string) \<Rightarrow> string \<Rightarrow> string" where
  "principal_from_api_key hash key = ''key:'' @ take 16 (hash key)"

definition ANONYMOUS :: string where "ANONYMOUS = ''anonymous''"

record AuthState =
  api_keys :: "string list"
  admin_api_keys :: "string list"
  tenant_map :: "string \<rightharpoonup> string"
  multi_tenant :: bool
  has_pool :: bool
  require_auth :: bool

definition auth_enabled :: "AuthState \<Rightarrow> bool" where
  "auth_enabled st \<longleftrightarrow> require_auth st \<or> api_keys st \<noteq> []"

definition key_matches_any :: "string \<Rightarrow> string list \<Rightarrow> bool" where
  "key_matches_any key candidates = list_ex (\<lambda>expected. key = expected) candidates"

definition strip_prefix :: "string \<Rightarrow> string \<Rightarrow> string option" where
  "strip_prefix p s = (if starts_with s p then Some (drop (length p) s) else None)"

definition extract_api_key :: "request \<Rightarrow> string option" where
  "extract_api_key req =
     (let bearer = Option.bind (header_str ''authorization'' req) (strip_prefix ''Bearer '');
          x_api_key = header_str ''x-api-key'' req
      in case bearer of Some k \<Rightarrow> Some k | None \<Rightarrow> x_api_key)"

definition is_dashboard_path :: "string \<Rightarrow> bool" where
  "is_dashboard_path path \<longleftrightarrow> path = ''/ui'' \<or> starts_with path ''/ui/''"

definition is_public_path :: "string \<Rightarrow> bool" where
  "is_public_path path \<longleftrightarrow> path = ''/health'' \<or> starts_with path ''/healthz/'' \<or> path = ''/unsubscribe''
     \<or> path = ''/v1/meta'' \<or> is_dashboard_path path"

definition lookup_scoped_key ::
  "(string \<Rightarrow> string) \<Rightarrow> AuthState \<Rightarrow> bool \<Rightarrow> int \<Rightarrow> string option \<Rightarrow> api_key_row list
     \<Rightarrow> ScopedApiKey option \<times> api_key_row list" where
  "lookup_scoped_key hash st ok now provided tbl =
     (if \<not> has_pool st then (None, tbl)
      else case provided of None \<Rightarrow> (None, tbl)
        | Some key \<Rightarrow>
            if \<not> starts_with key KEY_PREFIX then (None, tbl)
            else (case lookup_active_key hash ok now key tbl of
                    (Inr found, tbl') \<Rightarrow> (found, tbl')
                  | (Inl _, tbl') \<Rightarrow> (None, tbl')))"

definition has_admin_scoped_key :: "request \<Rightarrow> bool" where
  "has_admin_scoped_key req = (case ext_scoped req of None \<Rightarrow> False | Some k \<Rightarrow> has_scope Admin k)"

definition unwrap_or_default :: "string option \<Rightarrow> string" where
  "unwrap_or_default s = (case s of None \<Rightarrow> [] | Some x \<Rightarrow> x)"

definition no_tenant :: rejection where
  "no_tenant = Forbidden ''api key is not associated with a tenant'' None"

text \<open>A request with an active scoped key.\<close>

definition scoped_branch ::
  "(string \<Rightarrow> string) \<Rightarrow> AuthState \<Rightarrow> string option \<Rightarrow> ScopedApiKey \<Rightarrow> request \<Rightarrow> rejection + request" where
  "scoped_branch hash st provided scoped req =
     (let required = required_scope (r_method req) (r_path req)
      in if \<not> has_scope required scoped then Inl (Forbidden ''insufficient scope'' (Some required))
         else
           let key = unwrap_or_default provided;
               req1 = req\<lparr>ext_principal := Some (principal_from_api_key hash key)\<rparr>
           in if multi_tenant st \<and> \<not> has_scope Admin scoped
              then (case (case sk_tenant_id scoped of Some t \<Rightarrow> Some t | None \<Rightarrow> tenant_map st (hash key)) of
                      Some tid \<Rightarrow> Inr (req1\<lparr>ext_tenant := Some tid, ext_scoped := Some scoped\<rparr>)
                    | None \<Rightarrow> Inl no_tenant)
              else Inr (req1\<lparr>ext_scoped := Some scoped\<rparr>))"

text \<open>A request without one, checked against the keys of the environment.\<close>

definition env_branch :: "(string \<Rightarrow> string) \<Rightarrow> AuthState \<Rightarrow> string option \<Rightarrow> request \<Rightarrow> rejection + request" where
  "env_branch hash st provided req =
     (if auth_enabled st
      then
        let is_admin = (case provided of None \<Rightarrow> False | Some k \<Rightarrow> key_matches_any k (admin_api_keys st));
            valid = (is_admin \<or> (case provided of None \<Rightarrow> False | Some k \<Rightarrow> key_matches_any k (api_keys st)))
        in if \<not> valid then Inl (Unauthorized ''unauthorized'')
           else
             let key = unwrap_or_default provided;
                 req1 = req\<lparr>ext_principal := Some (principal_from_api_key hash key)\<rparr>
             in if multi_tenant st \<and> \<not> is_admin
                then (case tenant_map st (hash key) of
                        Some tid \<Rightarrow> Inr (req1\<lparr>ext_tenant := Some tid\<rparr>)
                      | None \<Rightarrow> Inl no_tenant)
                else Inr req1
      else Inr (req\<lparr>ext_principal := Some ANONYMOUS\<rparr>))"

definition auth_middleware ::
  "(string \<Rightarrow> string) \<Rightarrow> AuthState \<Rightarrow> bool \<Rightarrow> int \<Rightarrow> request \<Rightarrow> api_key_row list
     \<Rightarrow> (rejection + request) \<times> api_key_row list" where
  "auth_middleware hash st ok now req tbl =
     (if is_public_path (r_path req) then (Inr req, tbl)
      else
        let provided = extract_api_key req;
            (found, tbl') = lookup_scoped_key hash st ok now provided tbl
        in (case found of
              Some scoped \<Rightarrow> scoped_branch hash st provided scoped req
            | None \<Rightarrow> env_branch hash st provided req, tbl'))"

definition check_admin_key :: "string list \<Rightarrow> request \<Rightarrow> rejection + request" where
  "check_admin_key admins req =
     (case extract_api_key req of
        None \<Rightarrow> Inl (Unauthorized ''admin authentication required'')
      | Some key \<Rightarrow> if key_matches_any key admins then Inr req
                    else Inl (Forbidden ''admin privileges required'' None))"

definition admin_auth_middleware :: "string list \<Rightarrow> request \<Rightarrow> rejection + request" where
  "admin_auth_middleware admins req =
     (if admins = [] \<or> has_admin_scoped_key req then Inr req else check_admin_key admins req)"

definition require_admin_middleware :: "string list \<Rightarrow> request \<Rightarrow> rejection + request" where
  "require_admin_middleware admins req =
     (if has_admin_scoped_key req then Inr req else check_admin_key admins req)"

section \<open>Client addresses\<close>

definition extract_client_ip :: "request \<Rightarrow> string" where
  "extract_client_ip req =
     (case map_option (\<lambda>s. trim (hd (split_on (CHR '','') s))) (header_str ''x-forwarded-for'' req) of
        Some ip \<Rightarrow> ip
      | None \<Rightarrow> (case map_option trim (header_str ''x-real-ip'' req) of Some ip \<Rightarrow> ip | None \<Rightarrow> ''unknown''))"

record ip_config =
  ip_denylist :: "string list"
  ip_allowlist :: "string list"

definition ip_rule :: "ip_config \<Rightarrow> rule option" where
  "ip_rule cfg = (if ip_denylist cfg \<noteq> [] then Some (IpDenyListRule (ip_denylist cfg))
     else if ip_allowlist cfg \<noteq> [] then Some (IpAllowListRule (ip_allowlist cfg)) else None)"

definition ip_access_control_middleware :: "ip_config \<Rightarrow> int \<Rightarrow> request \<Rightarrow> rejection + request" where
  "ip_access_control_middleware cfg now req =
     (case ip_rule cfg of None \<Rightarrow> Inr req
      | Some rule \<Rightarrow>
          let ctx = context_new now (extract_client_ip req) [] (r_path req) (r_method req)
          in (case rule_evaluate rule ctx of Some (Deny reason) \<Rightarrow> Inl Ip_blocked | _ \<Rightarrow> Inr req))"

section \<open>The stack\<close>

text \<open>
  The routes of \<open>api_key_routes\<close>, with the strict gate as route layer. The other admin routes that
  are served have no layer of their own: the router that carries \<open>admin_auth_middleware\<close> is built
  but never merged.
\<close>

definition is_key_management :: "string \<Rightarrow> bool" where
  "is_key_management path \<longleftrightarrow> path = ''/v1/admin/api-keys''
     \<or> (case strip_prefix ''/v1/admin/api-keys/'' path of None \<Rightarrow> False | Some i \<Rightarrow> i \<noteq> [] \<and> CHR ''/'' \<notin> set i)"

definition route_gate :: "string list \<Rightarrow> request \<Rightarrow> rejection + request" where
  "route_gate admins req = (if is_key_management (r_path req) then require_admin_middleware admins req else Inr req)"

text \<open>The last layer added is the outermost: authentication, then the address filter, then the route.\<close>

definition serve ::
  "(string \<Rightarrow> string) \<Rightarrow> AuthState \<Rightarrow> ip_config \<Rightarrow> bool \<Rightarrow> int \<Rightarrow> request \<Rightarrow> api_key_row list
     \<Rightarrow> (rejection + request) \<times> api_key_row list" where
  "serve hash st cfg ok now req tbl =
     (case auth_middleware hash st ok now req tbl of
        (Inl e, tbl') \<Rightarrow> (Inl e, tbl')
      | (Inr req1, tbl') \<Rightarrow>
          (case ip_access_control_middleware cfg now req1 of
             Inl e \<Rightarrow> (Inl e, tbl')
           | Inr req2 \<Rightarrow> (route_gate (admin_api_keys st) req2, tbl')))"

section \<open>Who passes\<close>

text \<open>The scoped key a request presents: an unrevoked row of the table, when a database is there.\<close>

definition presented_scoped ::
  "(string \<Rightarrow> string) \<Rightarrow> AuthState \<Rightarrow> bool \<Rightarrow> request \<Rightarrow> api_key_row list \<Rightarrow> ScopedApiKey option" where
  "presented_scoped hash st ok req tbl =
     (case extract_api_key req of None \<Rightarrow> None
      | Some key \<Rightarrow> if has_pool st \<and> ok \<and> starts_with key KEY_PREFIX
                    then map_option scoped_of_row (find (\<lambda>r. ak_key_hash r = hash key \<and> ak_revoked_at r = None) tbl)
                    else None)"

definition presents_key :: "string list \<Rightarrow> request \<Rightarrow> bool" where
  "presents_key keys req = (case extract_api_key req of None \<Rightarrow> False | Some k \<Rightarrow> k \<in> set keys)"

lemma key_matches_any_iff [simp]: "key_matches_any k ks \<longleftrightarrow> k \<in> set ks"
  by (auto simp: key_matches_any_def list_ex_iff)

lemma lookup_scoped_key_fst:
  "fst (lookup_scoped_key hash st ok now (extract_api_key req) tbl) = presented_scoped hash st ok req tbl"
  by (auto simp: lookup_scoped_key_def presented_scoped_def lookup_active_key_def split: option.splits)

lemma auth_middleware_fst:
  "fst (auth_middleware hash st ok now req tbl) =
     (if is_public_path (r_path req) then Inr req
      else case presented_scoped hash st ok req tbl of
             Some scoped \<Rightarrow> scoped_branch hash st (extract_api_key req) scoped req
           | None \<Rightarrow> env_branch hash st (extract_api_key req) req)"
  using lookup_scoped_key_fst [of hash st ok now req tbl]
  by (auto simp: auth_middleware_def Let_def split: prod.splits)

lemma presented_scoped_key: "presented_scoped hash st ok req tbl = Some k \<Longrightarrow> \<exists>key. extract_api_key req = Some key"
  by (auto simp: presented_scoped_def split: option.splits)

text \<open>
  C12. The decision of the authentication layer. It answers 401 exactly when keys are required and
  the request presents none of the accepted ones, and 403 exactly when the presented key lacks the
  scope of the request or, in multi-tenant mode, a tenant; every other request is handed on.
\<close>

theorem auth_rejections:
  "let decision = fst (auth_middleware hash st ok now req tbl); scoped = presented_scoped hash st ok req tbl;
       tenant = tenant_map st (hash (unwrap_or_default (extract_api_key req)))
   in (decision = Inl (Unauthorized ''unauthorized'') \<longleftrightarrow>
         \<not> is_public_path (r_path req) \<and> scoped = None \<and> auth_enabled st
         \<and> \<not> presents_key (admin_api_keys st) req \<and> \<not> presents_key (api_keys st) req)
      \<and> ((\<exists>e s. decision = Inl (Forbidden e s)) \<longleftrightarrow>
         \<not> is_public_path (r_path req)
         \<and> (case scoped of
              Some k \<Rightarrow> \<not> (has_scope (required_scope (r_method req) (r_path req)) k
                \<and> (if multi_tenant st \<and> \<not> has_scope Admin k then \<not> (sk_tenant_id k = None \<and> tenant = None) else True))
            | None \<Rightarrow> multi_tenant st \<and> auth_enabled st \<and> presents_key (api_keys st) req
                \<and> \<not> presents_key (admin_api_keys st) req \<and> tenant = None))
      \<and> decision \<noteq> Inl Ip_blocked"
  unfolding Let_def auth_middleware_fst
  by (cases "presented_scoped hash st ok req tbl"; cases "extract_api_key req")
    (auto simp: scoped_branch_def env_branch_def presents_key_def no_tenant_def Let_def unwrap_or_default_def
      split: option.splits)

text \<open>
  C11. Where keys are required, a request behind the authentication layer carries the principal of the
  key it presented, and that key is a key of the environment or an active one with the scope of the
  request; in multi-tenant mode the tenant is the one bound to that key, and only administrators have
  none.
\<close>

theorem authenticated_identity:
  assumes "fst (auth_middleware hash st ok now req tbl) = Inr req'"
    and "\<not> is_public_path (r_path req)" and "auth_enabled st" and "ext_tenant req = None"
  shows "\<exists>key. extract_api_key req = Some key
    \<and> ext_principal req' = Some (principal_from_api_key hash key)
    \<and> (case presented_scoped hash st ok req tbl of
         Some k \<Rightarrow> has_scope (required_scope (r_method req) (r_path req)) k \<and> ext_scoped req' = Some k
           \<and> ext_tenant req' = (if multi_tenant st \<and> Admin \<notin> set (sk_scopes k)
               then (case sk_tenant_id k of None \<Rightarrow> tenant_map st (hash key) | t \<Rightarrow> t) else None)
           \<and> (ext_tenant req' = None \<longrightarrow> \<not> multi_tenant st \<or> Admin \<in> set (sk_scopes k))
       | None \<Rightarrow> key \<in> set (admin_api_keys st) \<union> set (api_keys st)
           \<and> ext_tenant req' = (if multi_tenant st \<and> key \<notin> set (admin_api_keys st) then tenant_map st (hash key) else None)
           \<and> (ext_tenant req' = None \<longrightarrow> \<not> multi_tenant st \<or> key \<in> set (admin_api_keys st)))"
proof (cases "presented_scoped hash st ok req tbl")
  case None
  then have env: "env_branch hash st (extract_api_key req) req = Inr req'"
    using assms(1,2) unfolding auth_middleware_fst by simp
  then obtain key where key: "extract_api_key req = Some key"
    using assms(3) by (cases "extract_api_key req") (simp_all add: env_branch_def)
  with env None assms(3,4) show ?thesis
    by (cases "tenant_map st (hash key)") (auto simp: env_branch_def Let_def unwrap_or_default_def split: if_splits)
next
  case (Some k)
  then obtain key where "extract_api_key req = Some key"
    using presented_scoped_key by blast
  moreover have "scoped_branch hash st (extract_api_key req) k req = Inr req'"
    using assms(1,2) Some unfolding auth_middleware_fst by simp
  ultimately show ?thesis
    using Some assms(4)
    by (cases "sk_tenant_id k"; cases "tenant_map st (hash key)")
      (auto simp: scoped_branch_def has_scope_def Let_def unwrap_or_default_def split: if_splits)
qed

text \<open>A request and a configuration to evaluate the layer on.\<close>

definition demo_request :: "string \<Rightarrow> string \<Rightarrow> string \<Rightarrow> request" where
  "demo_request meth path key = \<lparr>r_method = meth, r_path = path, headers = [(''x-api-key'', key)],
     ext_principal = None, ext_tenant = None, ext_scoped = None\<rparr>"

definition demo_auth :: AuthState where
  "demo_auth = \<lparr>api_keys = [''reader''], admin_api_keys = [''root''], tenant_map = [''reader'' \<mapsto> ''acme''],
     multi_tenant = True, has_pool = True, require_auth = False\<rparr>"

theorem authenticated_identity_witness:
  "let req = demo_request ''GET'' ''/v1/events'' ''reader'';
       req' = req\<lparr>ext_principal := Some ''key:reader'', ext_tenant := Some ''acme''\<rparr>
   in fst (auth_middleware (\<lambda>s. s) demo_auth True 0 req []) = Inr req'
      \<and> (\<exists>key. extract_api_key req = Some key \<and> ext_principal req' = Some (principal_from_api_key (\<lambda>s. s) key)
           \<and> key \<in> set (admin_api_keys demo_auth) \<union> set (api_keys demo_auth))"
proof -
  let ?req = "demo_request ''GET'' ''/v1/events'' ''reader''"
  let ?req' = "?req\<lparr>ext_principal := Some ''key:reader'', ext_tenant := Some ''acme''\<rparr>"
  have run: "fst (auth_middleware (\<lambda>s. s) demo_auth True 0 ?req []) = Inr ?req'"
    by code_simp
  have "\<not> is_public_path (r_path ?req)" "auth_enabled demo_auth" "ext_tenant ?req = None"
      "presented_scoped (\<lambda>s. s) demo_auth True ?req [] = None"
    by code_simp+
  then show ?thesis
    using authenticated_identity [OF run] run by (auto simp: Let_def)
qed

section \<open>Issued keys\<close>

lemma presented_scoped_lookup:
  assumes "extract_api_key req = Some key" and "has_pool st" and "starts_with key KEY_PREFIX"
    and "fst (lookup_active_key hash True t key tbl) = Inr found"
  shows "presented_scoped hash st True req tbl = found"
  using assms by (auto simp: presented_scoped_def lookup_active_key_def split: option.splits)

lemma issued_key_presented:
  assumes "keys_wf tbl" and "create_api_key hash ok now i bytes r tbl = (Inr (key, r'), tbl1)"
    and "extract_api_key req = Some key" and "has_pool st"
  shows "presented_scoped hash st True req (fold (key_step hash) ops tbl1) =
    (if \<exists>now. Revoke_op True now i \<in> set ops then None
     else Some \<lparr>sk_id = i, sk_name = cr_name r', sk_scopes = cr_scopes r', sk_tenant_id = cr_tenant_id r'\<rparr>)"
proof -
  have "starts_with key KEY_PREFIX"
    using assms(2) by (auto simp: create_api_key_def generate_api_key_def Let_def split: sum.splits if_splits)
  then show ?thesis
    using presented_scoped_lookup [OF assms(3,4)] created_key_lookup [OF assms(1,2)] by blast
qed

text \<open>
  Revocation takes effect at once: whatever is done with other keys in between, a request with a
  created key is refused with 401 as soon as the key is revoked, and before that passes exactly when
  the scopes it was created with cover the request.
\<close>

theorem issued_key_access:
  assumes "keys_wf tbl" and "create_api_key hash ok now i bytes r tbl = (Inr (key, r'), tbl1)"
    and "extract_api_key req = Some key" and "has_pool st" and "require_auth st" and "\<not> multi_tenant st"
    and "key \<notin> set (api_keys st)" and "key \<notin> set (admin_api_keys st)" and "\<not> is_public_path (r_path req)"
  shows "fst (auth_middleware hash st True t req (fold (key_step hash) ops tbl1)) =
    (let required = required_scope (r_method req) (r_path req);
         scoped = \<lparr>sk_id = i, sk_name = cr_name r', sk_scopes = cr_scopes r', sk_tenant_id = cr_tenant_id r'\<rparr>
     in if \<exists>now. Revoke_op True now i \<in> set ops then Inl (Unauthorized ''unauthorized'')
        else if Admin \<in> set (cr_scopes r') \<or> required \<in> set (cr_scopes r')
        then Inr (req\<lparr>ext_principal := Some (principal_from_api_key hash key), ext_scoped := Some scoped\<rparr>)
        else Inl (Forbidden ''insufficient scope'' (Some required)))"
  unfolding auth_middleware_fst issued_key_presented [OF assms(1-4)]
  using assms(3-) by (simp add: scoped_branch_def env_branch_def auth_enabled_def has_scope_def Let_def unwrap_or_default_def)

theorem issued_key_access_witness:
  "let st = demo_auth\<lparr>multi_tenant := False, require_auth := True\<rparr>;
       (r, tbl1) = create_api_key (\<lambda>s. s) True 0 ''id1'' [0, 1] \<lparr>cr_name = ''ci'', cr_scopes = [ReadEvents], cr_tenant_id = None\<rparr> [];
       answer = \<lambda>meth ops. fst (auth_middleware (\<lambda>s. s) st True 9 (demo_request meth ''/v1/events'' ''sp_12'') (fold (key_step (\<lambda>s. s)) ops tbl1))
   in (\<exists>req. answer ''GET'' [] = Inr req) \<and> answer ''POST'' [] = Inl (Forbidden ''insufficient scope'' (Some Admin))
      \<and> answer ''GET'' [Revoke_op True 5 ''id1''] = Inl (Unauthorized ''unauthorized'')"
proof -
  let ?st = "demo_auth\<lparr>multi_tenant := False, require_auth := True\<rparr>"
  let ?r = "\<lparr>cr_name = ''ci'', cr_scopes = [ReadEvents], cr_tenant_id = None\<rparr>"
  let ?req = "\<lambda>meth. demo_request meth ''/v1/events'' ''sp_12''"
  have created: "create_api_key (\<lambda>s. s) True 0 ''id1'' [0, 1] ?r [] = (Inr (''sp_12'', ?r),
      [\<lparr>ak_id = ''id1'', ak_name = ''ci'', ak_key_hash = ''sp_12'', ak_scopes = [''read:events''],
        ak_tenant_id = None, ak_created_at = 0, ak_last_used_at = None, ak_revoked_at = None\<rparr>])"
    by code_simp
  have scopes: "required_scope ''GET'' ''/v1/events'' = ReadEvents" "required_scope ''POST'' ''/v1/events'' = Admin"
    by code_simp+
  have wf: "keys_wf []" and key: "extract_api_key (?req meth) = Some ''sp_12''" for meth
    by (simp_all add: keys_wf_def extract_api_key_def header_str_def demo_request_def)
  have env: "has_pool ?st" "require_auth ?st" "\<not> multi_tenant ?st" "''sp_12'' \<notin> set (api_keys ?st)"
      "''sp_12'' \<notin> set (admin_api_keys ?st)"
    by (simp_all add: demo_auth_def)
  have "\<not> is_public_path (r_path (?req meth))" for meth
    by (simp add: demo_request_def is_public_path_def is_dashboard_path_def starts_with_def)
  note answer = issued_key_access [OF wf created key env this]
  show ?thesis
    unfolding created Let_def prod.case answer by (simp add: demo_request_def scopes)
qed

section \<open>The admin gates and the address filter\<close>

lemma key_management_not_public: "is_key_management path \<Longrightarrow> \<not> is_public_path path"
  by (auto simp: is_key_management_def is_public_path_def is_dashboard_path_def strip_prefix_def starts_with_iff
      split: option.splits if_splits)

lemma auth_keeps: "fst (auth_middleware hash st ok now req tbl) = Inr req' \<Longrightarrow>
    r_path req' = r_path req \<and> r_method req' = r_method req \<and> headers req' = headers req"
  unfolding auth_middleware_fst
  by (auto simp: scoped_branch_def env_branch_def Let_def split: option.splits if_splits)

lemma auth_scoped: "fst (auth_middleware hash st ok now req tbl) = Inr req' \<Longrightarrow> \<not> is_public_path (r_path req) \<Longrightarrow>
    ext_scoped req = None \<Longrightarrow> ext_scoped req' = presented_scoped hash st ok req tbl"
  unfolding auth_middleware_fst
  by (auto simp: scoped_branch_def env_branch_def Let_def split: option.splits if_splits)

lemma ip_access_result: "ip_access_control_middleware cfg now req = Inr req' \<Longrightarrow> req' = req"
  by (auto simp: ip_access_control_middleware_def Let_def split: option.splits AccessDecision.splits)

lemma extract_api_key_headers: "headers req' = headers req \<Longrightarrow> extract_api_key req' = extract_api_key req"
  by (simp add: extract_api_key_def header_str_def)

lemma serve_steps: "fst (serve hash st cfg ok now req tbl) = Inr req' \<longleftrightarrow>
    (\<exists>req1. fst (auth_middleware hash st ok now req tbl) = Inr req1
       \<and> ip_access_control_middleware cfg now req1 = Inr req1 \<and> route_gate (admin_api_keys st) req1 = Inr req')"
  using ip_access_result
  by (auto simp: serve_def split: prod.splits sum.splits)

text \<open>
  C33. Keys are minted, listed and revoked by administrators only, in every configuration: a request
  that reaches key management presents an admin key of the environment or an active key with the
  admin scope, also when no key is configured and when authentication is off.
\<close>

theorem key_management_admin_only:
  assumes "fst (serve hash st cfg ok now req tbl) = Inr req'" and "is_key_management (r_path req)"
    and "ext_scoped req = None"
  shows "presents_key (admin_api_keys st) req
    \<or> (\<exists>k. presented_scoped hash st ok req tbl = Some k \<and> Admin \<in> set (sk_scopes k))"
proof -
  obtain req1 where auth: "fst (auth_middleware hash st ok now req tbl) = Inr req1"
    and gate: "route_gate (admin_api_keys st) req1 = Inr req'"
    using assms(1) serve_steps by blast
  have same: "r_path req1 = r_path req" "extract_api_key req1 = extract_api_key req"
    using auth_keeps [OF auth] extract_api_key_headers [of req1 req] by simp_all
  have "ext_scoped req1 = presented_scoped hash st ok req tbl"
    using auth_scoped [OF auth key_management_not_public [OF assms(2)] assms(3)] .
  then show ?thesis
    using gate assms(2) same
    by (auto simp: route_gate_def require_admin_middleware_def check_admin_key_def has_admin_scoped_key_def presents_key_def
        has_scope_def split: option.splits if_splits)
qed

theorem key_management_admin_only_witness:
  "let req = demo_request ''POST'' ''/v1/admin/api-keys'' ''root''; st = demo_auth\<lparr>api_keys := []\<rparr>;
       cfg = \<lparr>ip_denylist = [], ip_allowlist = []\<rparr>
   in fst (serve (\<lambda>s. s) st cfg True 0 req []) = Inr (req\<lparr>ext_principal := Some ANONYMOUS\<rparr>)
      \<and> presents_key (admin_api_keys st) req"
proof -
  let ?req = "demo_request ''POST'' ''/v1/admin/api-keys'' ''root''"
  let ?st = "demo_auth\<lparr>api_keys := []\<rparr>"
  have run: "fst (serve (\<lambda>s. s) ?st \<lparr>ip_denylist = [], ip_allowlist = []\<rparr> True 0 ?req []) = Inr (?req\<lparr>ext_principal := Some ANONYMOUS\<rparr>)"
    by code_simp
  have "is_key_management (r_path ?req)" "ext_scoped ?req = None" "presented_scoped (\<lambda>s. s) ?st True ?req [] = None"
    by code_simp+
  then show ?thesis
    using key_management_admin_only [OF run] run by (auto simp: Let_def)
qed

text \<open>
  The other admin routes are behind the authentication layer alone: a regular key of the
  environment reaches them, whatever admin keys are configured.
\<close>

lemma regular_key_reaches_admin_routes:
  assumes "\<not> is_key_management (r_path req)" and "\<not> is_public_path (r_path req)"
    and "presents_key (api_keys st) req" and "presented_scoped hash st ok req tbl = None"
    and "\<not> multi_tenant st" and "ip_rule cfg = None"
  shows "\<exists>req'. fst (serve hash st cfg ok now req tbl) = Inr req'"
proof -
  obtain key where key: "extract_api_key req = Some key" "key \<in> set (api_keys st)"
    using assms(3) by (auto simp: presents_key_def split: option.splits)
  then have "auth_enabled st"
    by (auto simp: auth_enabled_def)
  then have "fst (auth_middleware hash st ok now req tbl) =
      Inr (req\<lparr>ext_principal := Some (principal_from_api_key hash key)\<rparr>)"
    using assms key unfolding auth_middleware_fst by (auto simp: env_branch_def Let_def unwrap_or_default_def)
  moreover have "route_gate (admin_api_keys st) r = Inr r" if "r_path r = r_path req" for r
    using that assms(1) by (simp add: route_gate_def)
  ultimately show ?thesis
    unfolding serve_steps using assms(6) by (force simp: ip_access_control_middleware_def)
qed

text \<open>
  The address filter blocks exactly the clients a deny list covers, or those an allow list does
  not cover when there is no deny list; with a deny list the allow list is never read, and a client
  whose forwarded address does not parse passes every deny list.
\<close>

lemma ip_access_exact:
  "(ip_access_control_middleware cfg now req = Inl Ip_blocked \<longleftrightarrow>
      (let covered = (\<lambda>xs. case parse_ip (extract_client_ip req) of None \<Rightarrow> False | Some a \<Rightarrow> list_ex (\<lambda>s. covers s a) xs)
       in if ip_denylist cfg \<noteq> [] then covered (ip_denylist cfg)
          else ip_allowlist cfg \<noteq> [] \<and> \<not> covered (ip_allowlist cfg)))
   \<and> (ip_access_control_middleware cfg now req \<noteq> Inl Ip_blocked \<longleftrightarrow> ip_access_control_middleware cfg now req = Inr req)"
  by (auto simp: ip_access_control_middleware_def ip_rule_def context_new_def deny_list_evaluate_def
      allow_list_evaluate_def listed_iff Let_def split: option.splits if_splits)

end
