(* ===== verification/Idempotency.thy ===== *)
theory Idempotency
  imports Prelude "HOL-Library.AList"
begin

text \<open>
  Model of \<open>src/idempotency.rs\<close>: the store of cached responses as an interface (the trait
  \<open>IdempotencyStore\<close>) with its in-memory and Postgres implementations, \<open>dedup_or_execute\<close> and the
  middleware for POST requests. Times are nanoseconds since the epoch; a database statement that fails
  is \<open>ok = False\<close>; the handler is a function from the request body to its response.
\<close>

section \<open>Records and keys\<close>

definition IDEMPOTENCY_KEY_HEADER :: string where "IDEMPOTENCY_KEY_HEADER = ''idempotency-key''"

definition DEFAULT_TTL :: int where "DEFAULT_TTL = 24 * 60 * 60 * 1000000000"

record IdempotencyRecord =
  status_code :: u16
  rec_body :: string
  rec_created_at :: int
  rec_ttl :: int

text \<open>A creation time in the future has no elapsed time and counts as fresh.\<close>

definition is_expired :: "int \<Rightarrow> IdempotencyRecord \<Rightarrow> bool" where
  "is_expired now r = (if now < rec_created_at r then False else now - rec_created_at r > rec_ttl r)"

definition scoped_key :: "string \<Rightarrow> string \<Rightarrow> string" where
  "scoped_key route idempotency_key = route @ '':'' @ idempotency_key"

definition count_metric :: "string \<Rightarrow> (string \<Rightarrow> nat) \<Rightarrow> string \<Rightarrow> nat" where
  "count_metric outcome m = m(outcome := m outcome + 1)"

section \<open>The in-memory store\<close>

record InMemoryStore =
  records :: "(string \<times> IdempotencyRecord) list"
  hits :: u64
  misses :: u64
  mem_requests :: "string \<Rightarrow> nat"
  mem_expired :: nat


definition fresh :: "int \<Rightarrow> IdempotencyRecord option \<Rightarrow> IdempotencyRecord option" where
  "fresh now r = (case r of Some x \<Rightarrow> if is_expired now x then None else Some x | None \<Rightarrow> None)"

definition mem_get :: "int \<Rightarrow> string \<Rightarrow> InMemoryStore \<Rightarrow> IdempotencyRecord option \<times> InMemoryStore" where
  "mem_get now key s =
     (let r = map_of (records s) key
      in (fresh now r,
          case fresh now r of
            Some _ \<Rightarrow> s\<lparr>hits := hits s + 1, mem_requests := count_metric ''hit'' (mem_requests s)\<rparr>
          | None \<Rightarrow> s\<lparr>misses := misses s + 1, mem_requests := count_metric ''miss'' (mem_requests s)\<rparr>))"

definition mem_put :: "string \<Rightarrow> IdempotencyRecord \<Rightarrow> InMemoryStore \<Rightarrow> InMemoryStore" where
  "mem_put key r s = s\<lparr>records := AList.update key r (records s), mem_requests := count_metric ''stored'' (mem_requests s)\<rparr>"

definition mem_remove_expired :: "int \<Rightarrow> InMemoryStore \<Rightarrow> InMemoryStore" where
  "mem_remove_expired now s =
     (let kept = filter (\<lambda>(_, r). \<not> is_expired now r) (records s); removed = length (records s) - length kept
      in s\<lparr>records := kept, mem_expired := mem_expired s + removed\<rparr>)"

section \<open>The Postgres store\<close>

record idempotency_row =
  row_request_hash :: string
  row_response_body :: string
  row_status_code :: i32
  row_created_at :: int

record PostgresStore =
  idempotency_keys :: "(string \<times> idempotency_row) list"
  pg_requests :: "string \<Rightarrow> nat"
  pg_expired :: nat

definition record_of_row :: "idempotency_row \<Rightarrow> IdempotencyRecord" where
  "record_of_row row = \<lparr>status_code = word_of_int (row_status_code row), rec_body = row_response_body row,
     rec_created_at = row_created_at row, rec_ttl = DEFAULT_TTL\<rparr>"

definition pg_get :: "bool \<Rightarrow> int \<Rightarrow> string \<Rightarrow> PostgresStore \<Rightarrow> IdempotencyRecord option \<times> PostgresStore" where
  "pg_get ok now key s =
     (let r = (if ok then map_option record_of_row (map_of (idempotency_keys s) key) else None)
      in (fresh now r,
          s\<lparr>pg_requests := count_metric (case fresh now r of Some _ \<Rightarrow> ''hit'' | None \<Rightarrow> ''miss'') (pg_requests s)\<rparr>))"

text \<open>\<open>ON CONFLICT (key) DO NOTHING\<close>: a row that is there stays, expired or not.\<close>

definition pg_put :: "bool \<Rightarrow> string \<Rightarrow> IdempotencyRecord \<Rightarrow> PostgresStore \<Rightarrow> PostgresStore" where
  "pg_put ok key r s =
     s\<lparr>idempotency_keys := (if ok \<and> map_of (idempotency_keys s) key = None
          then idempotency_keys s @ [(key, \<lparr>row_request_hash = '''', row_response_body = rec_body r,
                 row_status_code = uint (status_code r), row_created_at = rec_created_at r\<rparr>)]
          else idempotency_keys s),
       pg_requests := count_metric ''stored'' (pg_requests s)\<rparr>"

definition pg_remove_expired :: "bool \<Rightarrow> int \<Rightarrow> PostgresStore \<Rightarrow> PostgresStore" where
  "pg_remove_expired ok now s =
     (let kept = (if ok then filter (\<lambda>(_, row). \<not> row_created_at row < now - DEFAULT_TTL) (idempotency_keys s)
                  else idempotency_keys s);
          removed = length (idempotency_keys s) - length kept
      in s\<lparr>idempotency_keys := kept, pg_expired := pg_expired s + removed\<rparr>)"

section \<open>Running a request once\<close>

text \<open>A store object: its three methods over its state.\<close>

record 's store_ops =
  op_get :: "int \<Rightarrow> string \<Rightarrow> 's \<Rightarrow> IdempotencyRecord option \<times> 's"
  op_put :: "string \<Rightarrow> IdempotencyRecord \<Rightarrow> 's \<Rightarrow> 's"
  op_remove_expired :: "int \<Rightarrow> 's \<Rightarrow> 's"

definition in_memory :: "InMemoryStore store_ops" where
  "in_memory = \<lparr>op_get = mem_get, op_put = mem_put, op_remove_expired = mem_remove_expired\<rparr>"

definition postgres :: "bool \<Rightarrow> PostgresStore store_ops" where
  "postgres ok = \<lparr>op_get = pg_get ok, op_put = pg_put ok, op_remove_expired = pg_remove_expired ok\<rparr>"

definition dedup_or_execute ::
  "'s store_ops \<Rightarrow> int \<Rightarrow> string \<Rightarrow> int \<Rightarrow> (u16 \<times> string) \<Rightarrow> 's \<Rightarrow> (u16 \<times> string \<times> bool) \<times> 's" where
  "dedup_or_execute ops now key ttl outcome s =
     (case op_get ops now key s of
        (Some cached, s1) \<Rightarrow> ((status_code cached, rec_body cached, True), s1)
      | (None, s1) \<Rightarrow>
          let (status, body) = outcome
          in ((status, body, False),
              op_put ops key \<lparr>status_code = status, rec_body = body, rec_created_at = now, rec_ttl = ttl\<rparr> s1))"

text \<open>
  \<open>String::from_utf8_lossy\<close>: every maximal ill-formed piece becomes the replacement character. A lead
  byte fixes the range of the second byte and the number of continuation bytes.
\<close>

definition utf8_lead :: "nat \<Rightarrow> (nat \<times> nat \<times> nat) option" where
  "utf8_lead b =
     (if 0xC2 \<le> b \<and> b \<le> 0xDF then Some (0x80, 0xBF, 1)
      else if b = 0xE0 then Some (0xA0, 0xBF, 2)
      else if b = 0xED then Some (0x80, 0x9F, 2)
      else if 0xE1 \<le> b \<and> b \<le> 0xEF then Some (0x80, 0xBF, 2)
      else if b = 0xF0 then Some (0x90, 0xBF, 3)
      else if 0xF1 \<le> b \<and> b \<le> 0xF3 then Some (0x80, 0xBF, 3)
      else if b = 0xF4 then Some (0x80, 0x8F, 3) else None)"

fun continuation :: "nat \<Rightarrow> nat \<Rightarrow> nat \<Rightarrow> string \<Rightarrow> nat" where
  "continuation lo hi (Suc n) (c # cs) =
     (if lo \<le> (of_char c :: nat) \<and> (of_char c :: nat) \<le> hi then Suc (continuation 0x80 0xBF n cs) else 0)"
| "continuation lo hi _ _ = 0"

function utf8_lossy :: "string \<Rightarrow> string" where
  "utf8_lossy [] = []"
| "utf8_lossy (b # bs) =
     (if (of_char b :: nat) < 0x80 then b # utf8_lossy bs
      else case utf8_lead (of_char b) of
             None \<Rightarrow> [CHR 0xEF, CHR 0xBF, CHR 0xBD] @ utf8_lossy bs
           | Some (lo, hi, n) \<Rightarrow>
               (let k = continuation lo hi n bs
                in (if k = n then b # take k bs else [CHR 0xEF, CHR 0xBF, CHR 0xBD]) @ utf8_lossy (drop k bs)))"
  by pat_completeness auto
termination
  by (relation "measure length") auto

text \<open>\<open>to_bytes\<close> with a limit of one mebibyte fails on a longer body.\<close>

definition to_bytes :: "string \<Rightarrow> string option" where
  "to_bytes body = (if int (length body) > 1048576 then None else Some body)"

record http_request =
  h_method :: string
  h_path :: string
  h_key :: "string option"
  h_body :: string

record http_response =
  resp_status :: u16
  resp_body :: string
  resp_replayed :: bool

definition is_success :: "u16 \<Rightarrow> bool" where
  "is_success status \<longleftrightarrow> 200 \<le> uint status \<and> uint status < 300"

text \<open>Besides the response, whether the handler ran.\<close>

definition idempotency_middleware ::
  "'s store_ops \<Rightarrow> int \<Rightarrow> int \<Rightarrow> (string \<Rightarrow> u16 \<times> string) \<Rightarrow> http_request \<Rightarrow> 's \<Rightarrow> (http_response \<times> bool) \<times> 's" where
  "idempotency_middleware ops ttl now handler req s =
     (let run = (let (status, body) = handler (h_body req) in \<lparr>resp_status = status, resp_body = body, resp_replayed = False\<rparr>)
      in if h_method req \<noteq> ''POST'' then ((run, True), s)
         else case h_key req of
           None \<Rightarrow> ((run, True), s)
         | Some raw_key \<Rightarrow>
             let key = scoped_key (h_path req) raw_key
             in case to_bytes (h_body req) of
                  None \<Rightarrow> ((\<lparr>resp_status = 400, resp_body = ''request body too large'', resp_replayed = False\<rparr>, False), s)
                | Some bytes \<Rightarrow>
                    (case op_get ops now key s of
                       (Some cached, s1) \<Rightarrow>
                         ((\<lparr>resp_status = (if 100 \<le> uint (status_code cached) \<and> uint (status_code cached) \<le> 999
                              then status_code cached else 200), resp_body = rec_body cached, resp_replayed = True\<rparr>, False), s1)
                     | (None, s1) \<Rightarrow>
                         let (status, body) = handler bytes;
                             resp_bytes = (case to_bytes body of Some b \<Rightarrow> b | None \<Rightarrow> [])
                         in ((\<lparr>resp_status = status, resp_body = resp_bytes, resp_replayed = False\<rparr>, True),
                             if is_success status
                             then op_put ops key \<lparr>status_code = status, rec_body = utf8_lossy resp_bytes,
                                    rec_created_at = now, rec_ttl = ttl\<rparr> s1
                             else s1)))"

text \<open>
  A run of the layer: requests in the order it sees them, each with the clock and the handler behind
  it. A request is a repeat of a key when it is a POST of readable size under that key.
\<close>

fun serve_requests ::
  "'s store_ops \<Rightarrow> int \<Rightarrow> (int \<times> (string \<Rightarrow> u16 \<times> string) \<times> http_request) list \<Rightarrow> 's \<Rightarrow> (http_response \<times> bool) list" where
  "serve_requests ops ttl [] s = []"
| "serve_requests ops ttl ((now, handler, req) # rs) s =
     (let (out, s') = idempotency_middleware ops ttl now handler req s in out # serve_requests ops ttl rs s')"

definition repeats :: "string \<Rightarrow> http_request \<Rightarrow> bool" where
  "repeats k req \<longleftrightarrow> h_method req = ''POST'' \<and> to_bytes (h_body req) \<noteq> None
     \<and> (case h_key req of None \<Rightarrow> False | Some raw \<Rightarrow> scoped_key (h_path req) raw = k)"

definition answered_once ::
  "'s store_ops \<Rightarrow> int \<Rightarrow> int \<Rightarrow> (string \<Rightarrow> u16 \<times> string) \<Rightarrow> http_request
     \<Rightarrow> (int \<times> (string \<Rightarrow> u16 \<times> string) \<times> http_request) list \<Rightarrow> string \<Rightarrow> 's \<Rightarrow> bool" where
  "answered_once ops ttl now handler req rs k s \<longleftrightarrow>
     (let (status, body) = handler (h_body req)
      in case serve_requests ops ttl ((now, handler, req) # rs) s of
           first # rest \<Rightarrow>
             first = (\<lparr>resp_status = status, resp_body = body, resp_replayed = False\<rparr>, True)
             \<and> list_all2 (\<lambda>(_, _, q) out. repeats k q \<longrightarrow>
                 out = (\<lparr>resp_status = status, resp_body = utf8_lossy body, resp_replayed = True\<rparr>, False)) rs rest
         | [] \<Rightarrow> False)"

section \<open>The contract of a store\<close>

text \<open>
  What every implementation promises: \<open>get\<close> returns the record of a key while it is fresh and changes
  no record, \<open>put\<close> fills a key that has no record and leaves the others alone, and purging removes
  expired records only. An implementation may keep records for a time of its own.
\<close>

locale idempotency_store =
  fixes ops :: "'s store_ops"
    and view :: "'s \<Rightarrow> string \<Rightarrow> IdempotencyRecord option"
    and inv :: "'s \<Rightarrow> bool"
    and keeps :: "int \<Rightarrow> int"
  assumes get_result: "inv s \<Longrightarrow> fst (op_get ops now k s) = fresh now (view s k)"
    and get_view: "view (snd (op_get ops now k s)) = view s"
    and get_inv: "inv s \<Longrightarrow> inv (snd (op_get ops now k s))"
    and put_absent: "inv s \<Longrightarrow> view s k = None \<Longrightarrow>
      view (op_put ops k r s) k = Some (r\<lparr>rec_ttl := keeps (rec_ttl r)\<rparr>)"
    and put_other: "k' \<noteq> k \<Longrightarrow> view (op_put ops k r s) k' = view s k'"
    and put_inv: "inv s \<Longrightarrow> inv (op_put ops k r s)"
    and purge_view: "inv s \<Longrightarrow> view (op_remove_expired ops now s) k = fresh now (view s k)"
    and purge_inv: "inv s \<Longrightarrow> inv (op_remove_expired ops now s)"
begin

definition holds :: "string \<Rightarrow> IdempotencyRecord \<Rightarrow> 's \<Rightarrow> bool" where
  "holds k r s \<longleftrightarrow> inv s \<and> view s k = Some r"

lemma fresh_until: "now \<le> rec_created_at r + rec_ttl r \<Longrightarrow> fresh now (Some r) = Some r"
  by (simp add: fresh_def is_expired_def)

lemma holds_get:
  "holds k r s \<Longrightarrow> now \<le> rec_created_at r + rec_ttl r \<Longrightarrow> fst (op_get ops now k s) = Some r"
  by (simp add: holds_def get_result fresh_until)

lemma holds_after_get: "holds k r s \<Longrightarrow> holds k r (snd (op_get ops now k' s))"
  by (simp add: holds_def get_view get_inv)

lemma holds_after_put: "holds k r s \<Longrightarrow> k' \<noteq> k \<Longrightarrow> holds k r (op_put ops k' x s)"
  using put_other [of k k'] by (simp add: holds_def put_inv)

lemma holds_after_purge:
  "holds k r s \<Longrightarrow> now \<le> rec_created_at r + rec_ttl r \<Longrightarrow> holds k r (op_remove_expired ops now s)"
  by (simp add: holds_def purge_view purge_inv fresh_until)

lemma holds_dedup:
  assumes "holds k r s" and "now \<le> rec_created_at r + rec_ttl r"
  shows "holds k r (snd (dedup_or_execute ops now k' ttl outcome s))
     \<and> fst (dedup_or_execute ops now k ttl outcome s) = (status_code r, rec_body r, True)"
proof -
  have own: "fst (op_get ops now k s) = Some r"
    by (rule holds_get [OF assms])
  have kept: "holds k r (snd (op_get ops now k' s))" for k'
    by (rule holds_after_get [OF assms(1)])
  show ?thesis
    using own kept [of k'] holds_after_put
    by (cases "k' = k") (auto simp: dedup_or_execute_def split: prod.splits option.splits)
qed

lemma first_dedup:
  assumes "inv s" and "view s k = None"
  shows "fst (dedup_or_execute ops now k ttl (st, b) s) = (st, b, False)
     \<and> holds k \<lparr>status_code = st, rec_body = b, rec_created_at = now, rec_ttl = keeps ttl\<rparr>
         (snd (dedup_or_execute ops now k ttl (st, b) s))"
proof -
  have "fst (op_get ops now k s) = None"
    using assms by (simp add: get_result fresh_def)
  moreover have "inv (snd (op_get ops now k s))" "view (snd (op_get ops now k s)) k = None"
    using assms by (simp_all add: get_inv get_view)
  ultimately show ?thesis
    using put_absent put_inv by (auto simp: dedup_or_execute_def holds_def split: prod.splits)
qed

text \<open>Requests in the order the layer sees them, each with the clock and the handler it would run.\<close>

lemma holds_middleware:
  assumes "holds k r s" and "now \<le> rec_created_at r + rec_ttl r"
  shows "holds k r (snd (idempotency_middleware ops ttl now handler req s))"
proof (cases "h_key req")
  case (Some raw)
  let ?k = "scoped_key (h_path req) raw"
  have own: "fst (op_get ops now k s) = Some r"
    by (rule holds_get [OF assms])
  have kept: "holds k r (snd (op_get ops now ?k s))"
    by (rule holds_after_get [OF assms(1)])
  show ?thesis
    using Some own kept assms(1) holds_after_put
    by (cases "?k = k") (auto simp: idempotency_middleware_def Let_def split: prod.splits option.splits)
qed (simp add: idempotency_middleware_def assms(1) Let_def split: prod.split)

lemma replayed:
  assumes "holds k r s" and "now \<le> rec_created_at r + rec_ttl r" and "is_success (status_code r)"
    and "h_method req = ''POST''" and "h_key req = Some raw" and "scoped_key (h_path req) raw = k"
    and "to_bytes (h_body req) \<noteq> None"
  shows "fst (idempotency_middleware ops ttl now handler req s) =
    (\<lparr>resp_status = status_code r, resp_body = rec_body r, resp_replayed = True\<rparr>, False)"
  using assms(3-) holds_get [OF assms(1,2)]
  by (auto simp: idempotency_middleware_def Let_def is_success_def split: prod.splits option.splits)

lemma first_middleware:
  assumes "inv s" and "h_method req = ''POST''" and "h_key req = Some raw" and "scoped_key (h_path req) raw = k"
    and "view s k = None" and "to_bytes (h_body req) \<noteq> None" and "handler (h_body req) = (status, body)"
    and "is_success status" and "to_bytes body \<noteq> None"
  shows "fst (idempotency_middleware ops ttl now handler req s) =
      (\<lparr>resp_status = status, resp_body = body, resp_replayed = False\<rparr>, True)
    \<and> holds k \<lparr>status_code = status, rec_body = utf8_lossy body, rec_created_at = now, rec_ttl = keeps ttl\<rparr>
        (snd (idempotency_middleware ops ttl now handler req s))"
proof -
  have "fst (op_get ops now k s) = None"
    using assms by (simp add: get_result fresh_def)
  moreover have "inv (snd (op_get ops now k s))" "view (snd (op_get ops now k s)) k = None"
    using assms by (simp_all add: get_inv get_view)
  moreover have "to_bytes (h_body req) = Some (h_body req)" "to_bytes body = Some body"
    using assms(6,9) by (simp_all add: to_bytes_def split: if_splits)
  ultimately show ?thesis
    using assms put_absent put_inv
    by (auto simp: idempotency_middleware_def Let_def holds_def split: prod.splits)
qed

lemma replayed_all:
  assumes "holds k r s" and "is_success (status_code r)" and "list_all (\<lambda>(t, _). t \<le> rec_created_at r + rec_ttl r) rs"
  shows "list_all2 (\<lambda>(_, _, q) out. repeats k q \<longrightarrow>
      out = (\<lparr>resp_status = status_code r, resp_body = rec_body r, resp_replayed = True\<rparr>, False))
    rs (serve_requests ops ttl rs s)"
  using assms
proof (induction rs arbitrary: s)
  case (Cons x rs)
  obtain t h q where x: "x = (t, h, q)" by (cases x)
  with Cons.prems have t: "t \<le> rec_created_at r + rec_ttl r" by simp
  obtain out s' where run: "idempotency_middleware ops ttl t h q s = (out, s')"
    by (cases "idempotency_middleware ops ttl t h q s")
  have "holds k r s'"
    using holds_middleware [OF Cons.prems(1) t, of ttl h q] run by simp
  moreover have "out = (\<lparr>resp_status = status_code r, resp_body = rec_body r, resp_replayed = True\<rparr>, False)" if "repeats k q"
    using that replayed [OF Cons.prems(1) t Cons.prems(2), of q _ ttl h] run
    by (auto simp: repeats_def split: option.splits)
  ultimately show ?case
    using Cons.IH Cons.prems(2,3) by (simp add: x run)
qed simp

lemma answers_once:
  assumes "inv s" and "view s k = None" and "repeats k req" and "handler (h_body req) = (status, body)"
    and "is_success status" and "to_bytes body \<noteq> None" and "list_all (\<lambda>(t, _). t \<le> now + keeps ttl) rs"
  shows "answered_once ops ttl now handler req rs k s"
proof -
  obtain raw where req: "h_method req = ''POST''" "h_key req = Some raw" "scoped_key (h_path req) raw = k" "to_bytes (h_body req) \<noteq> None"
    using assms(3) by (auto simp: repeats_def split: option.splits)
  obtain out s' where run: "idempotency_middleware ops ttl now handler req s = (out, s')"
    by (cases "idempotency_middleware ops ttl now handler req s")
  have first: "out = (\<lparr>resp_status = status, resp_body = body, resp_replayed = False\<rparr>, True)"
    and kept: "holds k \<lparr>status_code = status, rec_body = utf8_lossy body, rec_created_at = now, rec_ttl = keeps ttl\<rparr> s'"
    using first_middleware [where ttl = ttl and now = now and handler = handler and body = body, OF assms(1) req(1-3) assms(2) req(4) assms(4,5,6)] run by simp_all
  show ?thesis
    using replayed_all [OF kept, of rs ttl] assms(4,5,7) first by (simp add: answered_once_def run)
qed

end

lemma map_of_filter_keys:
  "distinct (map fst xs) \<Longrightarrow> map_of (filter (\<lambda>(_, v). P v) xs) k =
     (case map_of xs k of Some v \<Rightarrow> if P v then Some v else None | None \<Rightarrow> None)"
proof (induction xs)
  case (Cons x xs)
  then show ?case
    by (cases x) (auto simp: map_of_eq_None_iff split: option.splits intro!: map_of_eq_None_iff [THEN iffD2])
qed simp

interpretation mem: idempotency_store in_memory "\<lambda>s. map_of (records s)" "\<lambda>s. distinct (map fst (records s))" "\<lambda>ttl. ttl"
proof unfold_locales
  show "distinct (map fst (records (op_remove_expired in_memory now s)))" if "distinct (map fst (records s))" for now s
    using that by (simp add: in_memory_def mem_remove_expired_def Let_def distinct_map_filter)
qed (auto simp: in_memory_def mem_get_def mem_put_def mem_remove_expired_def Let_def update_conv' distinct_update
    map_of_filter_keys fresh_def split: option.splits)


section \<open>Retries\<close>



text \<open>\<open>dedup_or_execute\<close> caches every outcome, errors included.\<close>

lemma dedup_runs_once:
  assumes "distinct (map fst (records s))" and "k \<notin> fst ` set (records s)" and "t \<le> now + ttl"
  shows "let (r1, s1) = dedup_or_execute in_memory now k ttl (st, b) s
    in r1 = (st, b, False) \<and> fst (dedup_or_execute in_memory t k ttl' outcome s1) = (st, b, True)"
  using mem.first_dedup [OF assms(1), of k now ttl st b] mem.holds_dedup [of k _ _ t k ttl' outcome] assms(2,3)
  by (auto simp: map_of_eq_None_iff Let_def split: prod.split)

text \<open>
  With the Postgres store an expired record that was not purged yet stays in the table: until then
  nothing is cached for its key and every retry runs again.
\<close>

lemma postgres_expired_row_stays:
  assumes "map_of (idempotency_keys p) k = Some row" and "now - row_created_at row > DEFAULT_TTL"
  shows "let (r1, p1) = dedup_or_execute (postgres True) now k ttl (st, b) p
    in r1 = (st, b, False) \<and> idempotency_keys p1 = idempotency_keys p"
  using assms by (auto simp: dedup_or_execute_def postgres_def pg_get_def pg_put_def fresh_def is_expired_def record_of_row_def
      DEFAULT_TTL_def Let_def split: option.splits)

text \<open>Two routes can share a cache key; routes without a colon cannot.\<close>

lemma scoped_key_clash: "scoped_key ''/v1/a'' ''b:c'' = scoped_key ''/v1/a:b'' ''c''"
  by (simp add: scoped_key_def)

lemma scoped_key_inject:
  "CHR '':'' \<notin> set r \<Longrightarrow> CHR '':'' \<notin> set r' \<Longrightarrow> scoped_key r k = scoped_key r' k' \<longleftrightarrow> r = r' \<and> k = k'"
proof (induction r arbitrary: r')
  case (Cons c r)
  then show ?case by (cases r') (auto simp: scoped_key_def)
next
  case Nil
  then show ?case by (cases r') (auto simp: scoped_key_def)
qed

end
