(* ===== verification/Notification_Batching.thy ===== *)
theory Notification_Batching
  imports Prelude "HOL-Library.Sublist"
begin

text \<open>
  Model of \<open>src/notification_batching.rs\<close>: a batcher collects notifications and flushes them when the
  batch is full, when its time window has passed or on demand; the error handler chooses what to do
  with a batch that could not be delivered. The clock is an argument, in nanoseconds. The atomic
  counters wrap at 64 bits.
\<close>

section \<open>The batcher\<close>

record BatchConfig =
  enabled :: bool
  max_batch_size :: usize
  max_batch_window :: int
  max_concurrent_batches :: usize
  dedup_enabled :: bool

definition default_config :: BatchConfig where
  "default_config = \<lparr>enabled = True, max_batch_size = 50, max_batch_window = 5 * 1000000000,
     max_concurrent_batches = 10, dedup_enabled = True\<rparr>"

record QueuedNotification =
  qn_id :: string
  dedup_key :: "string option"
  channel :: string
  payload :: string

datatype FlushReason = SizeThreshold | TimeWindow | Manual

record FlushedBatch =
  notifications :: "QueuedNotification list"
  fb_duplicates_dropped :: usize
  flush_reason :: FlushReason

record BatchMetrics =
  notifications_enqueued :: u64
  notifications_delivered :: u64
  batches_flushed :: u64
  duplicates_dropped :: u64
  delivery_failures :: u64

definition metrics_new :: BatchMetrics where
  "metrics_new = \<lparr>notifications_enqueued = 0, notifications_delivered = 0, batches_flushed = 0, duplicates_dropped = 0,
     delivery_failures = 0\<rparr>"

record NotificationBatcher =
  config :: BatchConfig
  pending :: "QueuedNotification list"
  seen_dedup_keys :: "string set"
  batch_started_at :: "int option"
  metrics :: BatchMetrics

definition batcher_new :: "BatchConfig \<Rightarrow> NotificationBatcher" where
  "batcher_new cfg = \<lparr>config = cfg, pending = [], seen_dedup_keys = {}, batch_started_at = None, metrics = metrics_new\<rparr>"

definition with_metrics :: "BatchConfig \<Rightarrow> BatchMetrics \<Rightarrow> NotificationBatcher" where
  "with_metrics cfg m = \<lparr>config = cfg, pending = [], seen_dedup_keys = {}, batch_started_at = None, metrics = m\<rparr>"

definition flush :: "FlushReason \<Rightarrow> NotificationBatcher \<Rightarrow> FlushedBatch \<times> NotificationBatcher" where
  "flush reason b =
     (\<lparr>notifications = pending b, fb_duplicates_dropped = 0, flush_reason = reason\<rparr>,
      b\<lparr>pending := [], batch_started_at := None, seen_dedup_keys := {},
        metrics := (metrics b)\<lparr>batches_flushed := batches_flushed (metrics b) + 1,
          notifications_delivered := notifications_delivered (metrics b) + of_nat (length (pending b))\<rparr>\<rparr>)"

definition add :: "int \<Rightarrow> QueuedNotification \<Rightarrow> NotificationBatcher \<Rightarrow> FlushedBatch option \<times> NotificationBatcher" where
  "add now n b =
     (if \<not> enabled (config b)
      then (Some \<lparr>notifications = [n], fb_duplicates_dropped = 0, flush_reason = Manual\<rparr>, b)
      else if dedup_enabled (config b) \<and> (case dedup_key n of None \<Rightarrow> False | Some k \<Rightarrow> k \<in> seen_dedup_keys b)
      then (None, b\<lparr>metrics := (metrics b)\<lparr>duplicates_dropped := duplicates_dropped (metrics b) + 1\<rparr>\<rparr>)
      else
        let seen = (case dedup_key n of Some k \<Rightarrow> if dedup_enabled (config b) then insert k (seen_dedup_keys b) else seen_dedup_keys b
                    | None \<Rightarrow> seen_dedup_keys b);
            b1 = b\<lparr>seen_dedup_keys := seen,
                   batch_started_at := (case batch_started_at b of None \<Rightarrow> Some now | t \<Rightarrow> t),
                   pending := pending b @ [n],
                   metrics := (metrics b)\<lparr>notifications_enqueued := notifications_enqueued (metrics b) + 1\<rparr>\<rparr>
        in if length (pending b1) \<ge> max_batch_size (config b)
           then (let (out, b2) = flush SizeThreshold b1 in (Some out, b2))
           else (None, b1))"

text \<open>\<open>Instant::elapsed\<close> is zero for a start in the future.\<close>

definition poll_time_window :: "int \<Rightarrow> NotificationBatcher \<Rightarrow> FlushedBatch option \<times> NotificationBatcher" where
  "poll_time_window now b =
     (if \<not> enabled (config b) \<or> pending b = [] then (None, b)
      else case batch_started_at b of
             None \<Rightarrow> (None, b)
           | Some started \<Rightarrow>
               if max 0 (now - started) \<ge> max_batch_window (config b)
               then (let (out, b1) = flush TimeWindow b in (Some out, b1)) else (None, b))"

definition flush_now :: "NotificationBatcher \<Rightarrow> FlushedBatch option \<times> NotificationBatcher" where
  "flush_now b = (if pending b = [] then (None, b) else let (out, b1) = flush Manual b in (Some out, b1))"

definition pending_count :: "NotificationBatcher \<Rightarrow> usize" where
  "pending_count b = length (pending b)"

section \<open>Delivery errors\<close>

datatype BatchDeliveryError = Timeout int | ChannelRejected string | ConcurrencyLimitExceeded usize

datatype BatchErrorAction = RetryWhole | SplitAndRetry | RequeueLater

definition handle_batch_error :: "FlushedBatch \<Rightarrow> BatchDeliveryError \<Rightarrow> BatchMetrics \<Rightarrow> BatchErrorAction \<times> BatchMetrics" where
  "handle_batch_error b err m =
     (case err of
        Timeout _ \<Rightarrow> if length (notifications b) > 1 then SplitAndRetry else RetryWhole
      | ConcurrencyLimitExceeded _ \<Rightarrow> RequeueLater
      | ChannelRejected _ \<Rightarrow> RetryWhole,
      m\<lparr>delivery_failures := delivery_failures m + 1\<rparr>)"

section \<open>Runs\<close>

datatype batch_op = Add int QueuedNotification | Poll int | Flush_now

fun batch_step :: "batch_op \<Rightarrow> NotificationBatcher \<Rightarrow> FlushedBatch option \<times> NotificationBatcher" where
  "batch_step (Add now n) b = add now n b"
| "batch_step (Poll now) b = poll_time_window now b"
| "batch_step Flush_now b = flush_now b"

fun run_batcher :: "batch_op list \<Rightarrow> NotificationBatcher \<Rightarrow> FlushedBatch list \<times> NotificationBatcher" where
  "run_batcher [] b = ([], b)"
| "run_batcher (x # xs) b =
     (let (out, b1) = batch_step x b; (outs, b2) = run_batcher xs b1
      in ((case out of None \<Rightarrow> outs | Some f \<Rightarrow> f # outs), b2))"

fun added :: "batch_op list \<Rightarrow> QueuedNotification list" where
  "added [] = []"
| "added (Add _ n # xs) = n # added xs"
| "added (_ # xs) = added xs"

fun keys_of :: "QueuedNotification list \<Rightarrow> string list" where
  "keys_of [] = []"
| "keys_of (n # ns) = (case dedup_key n of None \<Rightarrow> keys_of ns | Some k \<Rightarrow> k # keys_of ns)"

lemma keys_of_append [simp]: "keys_of (xs @ ys) = keys_of xs @ keys_of ys"
  by (induction xs) (auto split: option.splits)

text \<open>
  The invariant of a batcher: the keys seen are those of the pending notifications, which are
  distinct; a batch has a start exactly while something is pending; it is never full.
\<close>

definition batcher_inv :: "NotificationBatcher \<Rightarrow> bool" where
  "batcher_inv b \<longleftrightarrow>
     (if dedup_enabled (config b) then seen_dedup_keys b = set (keys_of (pending b)) \<and> distinct (keys_of (pending b))
      else seen_dedup_keys b = {})
     \<and> (batch_started_at b = None \<longleftrightarrow> pending b = [])
     \<and> (pending b = [] \<or> length (pending b) < max_batch_size (config b))
     \<and> notifications_enqueued (metrics b) = notifications_delivered (metrics b) + of_nat (length (pending b))"

lemma batcher_inv_new: "batcher_inv (batcher_new cfg)"
  by (simp add: batcher_inv_def batcher_new_def metrics_new_def)

lemma config_step: "batch_step x b = (out, b') \<Longrightarrow> config b' = config b"
  by (cases x) (auto simp: add_def poll_time_window_def flush_now_def flush_def Let_def split: if_splits option.splits)

definition batch_ok :: "BatchConfig \<Rightarrow> FlushedBatch \<Rightarrow> bool" where
  "batch_ok cfg f \<longleftrightarrow> notifications f \<noteq> [] \<and> length (notifications f) \<le> max 1 (max_batch_size cfg)
     \<and> (dedup_enabled cfg \<longrightarrow> distinct (keys_of (notifications f)))"

lemma batcher_inv_flush:
  "batcher_inv b \<Longrightarrow> batcher_inv (snd (flush r b))"
  by (simp add: batcher_inv_def flush_def)

text \<open>A notification that is queued, before the size check.\<close>

definition enqueue :: "int \<Rightarrow> QueuedNotification \<Rightarrow> NotificationBatcher \<Rightarrow> NotificationBatcher" where
  "enqueue now n b = b\<lparr>seen_dedup_keys := (case dedup_key n of
         Some k \<Rightarrow> if dedup_enabled (config b) then insert k (seen_dedup_keys b) else seen_dedup_keys b
       | None \<Rightarrow> seen_dedup_keys b),
     batch_started_at := (case batch_started_at b of None \<Rightarrow> Some now | t \<Rightarrow> t),
     pending := pending b @ [n],
     metrics := (metrics b)\<lparr>notifications_enqueued := notifications_enqueued (metrics b) + 1\<rparr>\<rparr>"

definition duplicate :: "QueuedNotification \<Rightarrow> NotificationBatcher \<Rightarrow> bool" where
  "duplicate n b \<longleftrightarrow> dedup_enabled (config b) \<and> (case dedup_key n of None \<Rightarrow> False | Some k \<Rightarrow> k \<in> seen_dedup_keys b)"

lemma add_cases:
  "add now n b =
     (if \<not> enabled (config b) then (Some \<lparr>notifications = [n], fb_duplicates_dropped = 0, flush_reason = Manual\<rparr>, b)
      else if duplicate n b then (None, b\<lparr>metrics := (metrics b)\<lparr>duplicates_dropped := duplicates_dropped (metrics b) + 1\<rparr>\<rparr>)
      else if length (pending b) + 1 \<ge> max_batch_size (config b)
           then (Some (fst (flush SizeThreshold (enqueue now n b))), snd (flush SizeThreshold (enqueue now n b)))
           else (None, enqueue now n b))"
  by (simp add: add_def duplicate_def enqueue_def Let_def split: prod.split)

lemma enqueue_simps [simp]:
  "config (enqueue now n b) = config b" "pending (enqueue now n b) = pending b @ [n]"
  "batch_started_at (enqueue now n b) \<noteq> None"
  "notifications_enqueued (metrics (enqueue now n b)) = notifications_enqueued (metrics b) + 1"
  "notifications_delivered (metrics (enqueue now n b)) = notifications_delivered (metrics b)"
  by (auto simp: enqueue_def split: option.split)

text \<open>What a flush finds: everything but the size bound of the invariant.\<close>

definition batch_wf :: "NotificationBatcher \<Rightarrow> bool" where
  "batch_wf b \<longleftrightarrow> (if dedup_enabled (config b) then seen_dedup_keys b = set (keys_of (pending b)) \<and> distinct (keys_of (pending b))
      else seen_dedup_keys b = {})
     \<and> (batch_started_at b = None \<longleftrightarrow> pending b = [])
     \<and> notifications_enqueued (metrics b) = notifications_delivered (metrics b) + of_nat (length (pending b))"

lemma batcher_inv_iff: "batcher_inv b \<longleftrightarrow> batch_wf b \<and> (pending b = [] \<or> length (pending b) < max_batch_size (config b))"
  by (auto simp: batcher_inv_def batch_wf_def)

lemma enqueue_wf: "batch_wf b \<Longrightarrow> \<not> duplicate n b \<Longrightarrow> batch_wf (enqueue now n b)"
  unfolding batch_wf_def enqueue_simps
  by (cases "dedup_key n") (auto simp: duplicate_def enqueue_def split: option.split if_splits)

lemma flush_wf: "batch_wf b \<Longrightarrow> batcher_inv (snd (flush r b))"
  by (simp add: batcher_inv_iff batch_wf_def flush_def)

lemma flush_ok: "batch_wf b \<Longrightarrow> pending b \<noteq> [] \<Longrightarrow> length (pending b) \<le> max 1 (max_batch_size (config b)) \<Longrightarrow>
    batch_ok (config b) (fst (flush r b))"
  by (simp add: batch_wf_def batch_ok_def flush_def split: if_splits)

lemma counted_duplicate:
  "batcher_inv b \<Longrightarrow> batcher_inv (b\<lparr>metrics := (metrics b)\<lparr>duplicates_dropped := d\<rparr>\<rparr>)"
  by (simp add: batcher_inv_def)

lemma add_inv:
  assumes "batcher_inv b" and "add now n b = (out, b')"
  shows "batcher_inv b' \<and> (case out of None \<Rightarrow> True | Some f \<Rightarrow> batch_ok (config b) f)"
proof -
  consider (off) "\<not> enabled (config b)" | (dup) "enabled (config b)" "duplicate n b"
    | (queued) "enabled (config b)" "\<not> duplicate n b" by blast
  then show ?thesis
  proof cases
    case off
    then show ?thesis
      using assms by (auto simp: add_cases batch_ok_def split: option.split)
  next
    case dup
    then show ?thesis
      using assms counted_duplicate [OF assms(1)] by (auto simp: add_cases)
  next
    case queued
    let ?b = "enqueue now n b"
    have wf: "batch_wf ?b"
      using enqueue_wf queued(2) assms(1) batcher_inv_iff by blast
    have size: "length (pending ?b) \<le> max 1 (max_batch_size (config ?b))"
      using assms(1) by (auto simp: batcher_inv_def)
    show ?thesis
    proof (cases "length (pending b) + 1 \<ge> max_batch_size (config b)")
      case True
      then show ?thesis
        using queued assms(2) flush_wf [OF wf] flush_ok [OF wf _ size] by (auto simp: add_cases)
    next
      case False
      then show ?thesis
        using queued assms(2) wf by (auto simp: add_cases batcher_inv_iff)
    qed
  qed
qed

lemma step_inv:
  assumes "batcher_inv b" and "batch_step x b = (out, b')"
  shows "batcher_inv b' \<and> (case out of None \<Rightarrow> True | Some f \<Rightarrow> batch_ok (config b) f)"
proof (cases x)
  case (Add now n)
  then show ?thesis using add_inv [OF assms(1)] assms(2) by simp
qed (use assms in \<open>auto simp: poll_time_window_def flush_now_def batcher_inv_def batch_ok_def flush_def Let_def
  split: if_splits option.splits\<close>)

section \<open>Nothing is lost\<close>

definition emitted :: "FlushedBatch option \<Rightarrow> QueuedNotification list" where
  "emitted out = (case out of None \<Rightarrow> [] | Some f \<Rightarrow> notifications f)"

definition accepted :: "batch_op \<Rightarrow> NotificationBatcher \<Rightarrow> QueuedNotification list" where
  "accepted x b = (case x of Add _ n \<Rightarrow> if duplicate n b then [] else [n] | _ \<Rightarrow> [])"

lemma step_conserves:
  assumes "enabled (config b)" and "batch_step x b = (out, b')"
  shows "emitted out @ pending b' = pending b @ accepted x b"
  using assms
  by (cases x) (auto simp: emitted_def accepted_def add_cases flush_def poll_time_window_def flush_now_def Let_def
      split: if_splits option.splits)

lemma step_drops:
  assumes "enabled (config b)" and "batch_step x b = (out, b')"
  shows "duplicates_dropped (metrics b') = duplicates_dropped (metrics b) + of_nat (length (added [x]) - length (accepted x b))"
  using assms
  by (cases x) (auto simp: accepted_def add_cases flush_def poll_time_window_def flush_now_def Let_def enqueue_def
      split: if_splits option.splits)

lemma duplicate_key:
  "batcher_inv b \<Longrightarrow> duplicate n b \<Longrightarrow> dedup_enabled (config b) \<and> (\<exists>k \<in> set (keys_of (pending b)). dedup_key n = Some k)"
  by (auto simp: duplicate_def batcher_inv_def split: option.splits)

text \<open>A notification that deduplication never drops.\<close>

definition undroppable :: "BatchConfig \<Rightarrow> QueuedNotification \<Rightarrow> bool" where
  "undroppable cfg n \<longleftrightarrow> dedup_key n = None \<or> \<not> dedup_enabled cfg"

lemma run_conserves:
  assumes "batcher_inv b" and "enabled (config b)" and "run_batcher xs b = (outs, b')"
  defines "got \<equiv> concat (map notifications outs) @ pending b'"
  shows "batcher_inv b' \<and> config b' = config b \<and> list_all (batch_ok (config b)) outs
     \<and> subseq got (pending b @ added xs)
     \<and> filter (undroppable (config b)) got = filter (undroppable (config b)) (pending b @ added xs)
     \<and> set (keys_of got) = set (keys_of (pending b @ added xs))
     \<and> duplicates_dropped (metrics b') = duplicates_dropped (metrics b) + of_nat (length (pending b @ added xs) - length got)"
  using assms(1-3) unfolding got_def
proof (induction xs arbitrary: b outs)
  case Nil
  then show ?case by simp
next
  case (Cons x xs)
  obtain out b1 outs1 where step: "batch_step x b = (out, b1)" and run: "run_batcher xs b1 = (outs1, b')"
    and outs: "outs = (case out of None \<Rightarrow> outs1 | Some f \<Rightarrow> f # outs1)"
    using Cons.prems(3) by (auto simp: Let_def split: prod.splits)
  have inv: "batcher_inv b1" and ok: "case out of None \<Rightarrow> True | Some f \<Rightarrow> batch_ok (config b) f" and cfg: "config b1 = config b"
    using step_inv [OF Cons.prems(1) step] config_step [OF step] by auto
  note IH = Cons.IH [OF inv _ run, unfolded cfg, OF Cons.prems(2)]
  let ?rest = "concat (map notifications outs1) @ pending b'"
  have got: "concat (map notifications outs) @ pending b' = emitted out @ ?rest"
    by (simp add: outs emitted_def split: option.split)
  have whole: "emitted out @ pending b1 @ added xs = pending b @ accepted x b @ added xs"
    using step_conserves [OF Cons.prems(2) step] by (metis append_assoc)
  have split: "added (x # xs) = added [x] @ added xs"
    by (cases x) simp_all
  have sub: "subseq (accepted x b) (added [x])" and len: "length (accepted x b) \<le> length (added [x])"
    by (simp_all add: accepted_def split: batch_op.split)
  have dropped: "dedup_enabled (config b) \<and> (\<exists>k \<in> set (keys_of (pending b)). dedup_key n = Some k)" if "duplicate n b" for n
    by (rule duplicate_key [OF Cons.prems(1) that])
  have undrop: "filter (undroppable (config b)) (accepted x b) = filter (undroppable (config b)) (added [x])"
  proof (cases x)
    case (Add now n)
    then show ?thesis
      using dropped [of n] by (cases "duplicate n b") (auto simp: accepted_def undroppable_def)
  qed (simp_all add: accepted_def)
  have keys: "set (keys_of (pending b @ accepted x b)) = set (keys_of (pending b @ added [x]))"
  proof (cases x)
    case (Add now n)
    then show ?thesis
      using dropped [of n] by (cases "duplicate n b") (auto simp: accepted_def)
  qed (simp_all add: accepted_def)
  have sub_rest: "subseq ?rest (pending b1 @ added xs)"
    using IH by simp
  have "subseq (emitted out @ ?rest) (pending b @ accepted x b @ added xs)"
    unfolding whole [symmetric] by (rule list_emb_append_mono [OF subseq_order.refl sub_rest])
  moreover have "subseq (pending b @ accepted x b @ added xs) (pending b @ added (x # xs))"
    unfolding split by (intro list_emb_append_mono subseq_order.refl sub)
  ultimately have subseq: "subseq (emitted out @ ?rest) (pending b @ added (x # xs))"
    by (rule subseq_order.trans)
  have "filter (undroppable (config b)) (emitted out @ ?rest) = filter (undroppable (config b)) (emitted out @ pending b1 @ added xs)"
    using IH by simp
  then have filtered: "filter (undroppable (config b)) (emitted out @ ?rest) = filter (undroppable (config b)) (pending b @ added (x # xs))"
    unfolding whole split by (simp add: undrop)
  have "set (keys_of (emitted out @ ?rest)) = set (keys_of (emitted out @ pending b1 @ added xs))"
    using IH by simp
  then have same_keys: "set (keys_of (emitted out @ ?rest)) = set (keys_of (pending b @ added (x # xs)))"
    unfolding whole split using keys by auto
  have "length ?rest \<le> length (pending b1 @ added xs)"
    using list_emb_length [OF sub_rest] .
  then have "length (pending b @ added (x # xs)) - length (emitted out @ ?rest)
      = (length (added [x]) - length (accepted x b)) + (length (pending b1 @ added xs) - length ?rest)"
    using arg_cong [OF whole, of length] len unfolding split by simp
  moreover have "duplicates_dropped (metrics b') = duplicates_dropped (metrics b1) + of_nat (length (pending b1 @ added xs) - length ?rest)"
    using IH by simp
  ultimately have counted: "duplicates_dropped (metrics b')
      = duplicates_dropped (metrics b) + of_nat (length (pending b @ added (x # xs)) - length (emitted out @ ?rest))"
    using step_drops [OF Cons.prems(2) step] by (simp only: of_nat_add) simp
  have batches: "list_all (batch_ok (config b)) outs"
    using IH ok by (cases out) (simp_all add: outs)
  show ?case
    unfolding got using IH subseq filtered same_keys counted batches by simp
qed

text \<open>
  Batching loses and reorders nothing. After any adds, polls and flushes of an enabled batcher the
  flushed batches followed by the pending notifications are the added ones in order, less those
  dropped as duplicates: without deduplication all of them, with it every notification without a key
  and every key. Batches are never empty, never larger than the limit and free of duplicate keys, and
  the counters agree with what was delivered, dropped and is pending.
\<close>

theorem batching_conserves:
  assumes "run_batcher xs (batcher_new cfg) = (outs, b)" and "enabled cfg"
  shows "let got = concat (map notifications outs) @ pending b
    in subseq got (added xs)
       \<and> filter (undroppable cfg) got = filter (undroppable cfg) (added xs)
       \<and> set (keys_of got) = set (keys_of (added xs))
       \<and> list_all (batch_ok cfg) outs
       \<and> pending_count b < max 1 (max_batch_size cfg)
       \<and> duplicates_dropped (metrics b) = of_nat (length (added xs) - length got)
       \<and> notifications_enqueued (metrics b) = notifications_delivered (metrics b) + of_nat (pending_count b)"
proof -
  note run = run_conserves [OF batcher_inv_new [of cfg] _ assms(1)]
  have new: "config (batcher_new cfg) = cfg" "pending (batcher_new cfg) = []" "duplicates_dropped (metrics (batcher_new cfg)) = 0"
    by (simp_all add: batcher_new_def metrics_new_def)
  from run [unfolded new, OF assms(2)] show ?thesis
    by (auto simp: Let_def batcher_inv_def pending_count_def)
qed

theorem batching_conserves_witness:
  "let n = (\<lambda>i k. \<lparr>qn_id = i, dedup_key = k, channel = ''email'', payload = ''p''\<rparr>);
       xs = [Add 0 (n ''1'' (Some ''a'')), Add 1 (n ''2'' (Some ''a'')), Poll 2, Add 3 (n ''3'' None), Add 4 (n ''4'' (Some ''a'')), Poll 20];
       (outs, b) = run_batcher xs (batcher_new (default_config\<lparr>max_batch_size := 2, max_batch_window := 10\<rparr>))
   in map (map qn_id \<circ> notifications) outs = [[''1'', ''3''], [''4'']] \<and> pending b = []
      \<and> duplicates_dropped (metrics b) = of_nat (length (added xs) - length (concat (map notifications outs)))"
proof -
  let ?n = "\<lambda>i k. \<lparr>qn_id = i, dedup_key = k, channel = ''email'', payload = ''p''\<rparr>"
  let ?xs = "[Add 0 (?n ''1'' (Some ''a'')), Add 1 (?n ''2'' (Some ''a'')), Poll 2, Add 3 (?n ''3'' None), Add 4 (?n ''4'' (Some ''a'')), Poll 20]"
  let ?cfg = "default_config\<lparr>max_batch_size := 2, max_batch_window := 10\<rparr>"
  obtain outs b where run: "run_batcher ?xs (batcher_new ?cfg) = (outs, b)"
    by (cases "run_batcher ?xs (batcher_new ?cfg)")
  have "enabled ?cfg"
    by (simp add: default_config_def)
  note conserves = batching_conserves [OF run this, unfolded Let_def]
  have "map (map qn_id \<circ> notifications) (fst (run_batcher ?xs (batcher_new ?cfg))) = [[''1'', ''3''], [''4'']]"
      "pending (snd (run_batcher ?xs (batcher_new ?cfg))) = []"
    by code_simp+
  then have "map (map qn_id \<circ> notifications) outs = [[''1'', ''3''], [''4'']]" "pending b = []"
    unfolding run fst_conv snd_conv .
  moreover from this conserves have "duplicates_dropped (metrics b) = of_nat (length (added ?xs) - length (concat (map notifications outs)))"
    by (simp only: append_Nil2)
  ultimately show ?thesis
    unfolding Let_def run prod.case by (intro conjI)
qed

text \<open>A disabled batcher hands every notification on at once, with no record in the metrics.\<close>

lemma disabled_immediate:
  "\<not> enabled (config b) \<Longrightarrow> pending b = [] \<Longrightarrow>
     run_batcher xs b = (map (\<lambda>n. \<lparr>notifications = [n], fb_duplicates_dropped = 0, flush_reason = Manual\<rparr>) (added xs), b)"
proof (induction xs)
  case (Cons x xs)
  then show ?case
    by (cases x) (simp_all add: add_def poll_time_window_def flush_now_def)
qed simp

text \<open>A poll after the window empties the batcher.\<close>

lemma poll_flushes:
  assumes "batcher_inv b" and "enabled (config b)" and "batch_started_at b = Some t" and "max_batch_window (config b) \<le> now - t"
  shows "\<exists>f b'. poll_time_window now b = (Some f, b') \<and> notifications f = pending b \<and> flush_reason f = TimeWindow \<and> pending b' = []"
  using assms by (auto simp: poll_time_window_def batcher_inv_def flush_def Let_def)

lemma flush_reports_no_duplicates: "fb_duplicates_dropped (fst (flush r b)) = 0"
  by (simp add: flush_def)

end
