(* ===== verification/Feature_Flags.thy ===== *)
theory Feature_Flags
  imports F64
begin

text \<open>
  Model of \<open>src/feature_flags.rs\<close>: evaluation of a flag for a context, percentage rollout, weighted
  variants, the watcher that rolls flags back when the error rate is high, and the flag metrics. The
  standard library's default hasher, whose algorithm is unspecified, is the parameter \<open>hasher\<close>, from
  the strings fed to it to the hash.
\<close>

section \<open>Evaluation\<close>

record FeatureFlagContext =
  contract_id :: "string option"
  user_id :: "string option"
  ip_address :: "string option"
  region :: "string option"

record flag_row =
  flag_id :: string
  flag_name :: string
  enabled :: bool
  auto_rollback :: bool
  rollout_percentage :: i32
  target_contract_ids :: "string list option"
  target_user_ids :: "string list option"
  target_ips :: "string list option"
  target_regions :: "string list option"

type_synonym hasher = "string list \<Rightarrow> u64"

definition compute_rollout_hash :: "hasher \<Rightarrow> string \<Rightarrow> FeatureFlagContext \<Rightarrow> u64" where
  "compute_rollout_hash hasher name ctx =
     hasher (name # (case contract_id ctx of Some c \<Rightarrow> [c]
       | None \<Rightarrow> (case user_id ctx of Some u \<Rightarrow> [u]
         | None \<Rightarrow> (case ip_address ctx of Some ip \<Rightarrow> [ip] | None \<Rightarrow> []))))"

definition target_hit :: "string list option \<Rightarrow> string option \<Rightarrow> bool" where
  "target_hit targets x = (case targets of None \<Rightarrow> False | Some ts \<Rightarrow> (case x of None \<Rightarrow> False | Some v \<Rightarrow> v \<in> set ts))"

text \<open>The row of the query; \<open>None\<close> for the result is a database error.\<close>

definition is_feature_enabled ::
  "hasher \<Rightarrow> bool \<Rightarrow> flag_row list \<Rightarrow> string \<Rightarrow> FeatureFlagContext \<Rightarrow> bool option" where
  "is_feature_enabled hasher ok tbl name ctx =
     (if \<not> ok then None
      else case find (\<lambda>r. flag_name r = name) tbl of
        None \<Rightarrow> Some False
      | Some row \<Rightarrow>
          if \<not> enabled row then Some False
          else
            let has_targeting = (target_contract_ids row \<noteq> None \<or> target_user_ids row \<noteq> None
                  \<or> target_ips row \<noteq> None \<or> target_regions row \<noteq> None);
                target_matched = (target_hit (target_contract_ids row) (contract_id ctx)
                  \<or> target_hit (target_user_ids row) (user_id ctx)
                  \<or> target_hit (target_ips row) (ip_address ctx)
                  \<or> target_hit (target_regions row) (region ctx))
            in if has_targeting \<and> \<not> target_matched then Some False
               else Some (uint (compute_rollout_hash hasher name ctx mod 100) < rollout_percentage row))"

section \<open>Variants\<close>

record FlagVariant =
  variant_name :: string
  weight :: u32

text \<open>The weights are added in 32 bits.\<close>

definition total_weight :: "FlagVariant list \<Rightarrow> u32" where
  "total_weight vs = sum_list (map weight vs)"

fun pick_variant :: "u32 \<Rightarrow> FlagVariant list \<Rightarrow> FlagVariant option" where
  "pick_variant bucket [] = None"
| "pick_variant bucket (v # vs) = (if bucket < weight v then Some v else pick_variant (bucket - weight v) vs)"

definition assign_variant :: "hasher \<Rightarrow> string \<Rightarrow> FeatureFlagContext \<Rightarrow> FlagVariant list \<Rightarrow> FlagVariant option" where
  "assign_variant hasher name ctx variants =
     (if variants = [] then None
      else if total_weight variants = 0 then None
      else
        let hash = compute_rollout_hash hasher name ctx;
            bucket = ucast (hash mod ucast (total_weight variants)) :: u32
        in (case pick_variant bucket variants of Some v \<Rightarrow> Some v | None \<Rightarrow> Some (last variants)))"

section \<open>Automatic rollback\<close>

definition DEFAULT_ERROR_RATE_WINDOW_SECS :: int where "DEFAULT_ERROR_RATE_WINDOW_SECS = 300"

definition DEFAULT_ROLLBACK_THRESHOLD :: f64 where "DEFAULT_ROLLBACK_THRESHOLD = f64_rnd (5 / 100)"

record request_log =
  log_status :: i32
  log_created_at :: int

record audit_entry =
  audit_flag_id :: string
  audit_action :: string
  audit_triggered_by :: string

record FeatureFlagWatcher =
  window_secs :: int
  rollback_threshold :: f64

definition watcher_new :: FeatureFlagWatcher where
  "watcher_new = \<lparr>window_secs = DEFAULT_ERROR_RATE_WINDOW_SECS, rollback_threshold = DEFAULT_ROLLBACK_THRESHOLD\<rparr>"

text \<open>
  Over no rows \<open>SUM\<close> is null, which does not decode to an integer: no rate, as for a failed query.
\<close>

definition current_error_rate :: "bool \<Rightarrow> int \<Rightarrow> FeatureFlagWatcher \<Rightarrow> request_log list \<Rightarrow> f64 option" where
  "current_error_rate ok now w logs =
     (let rows = filter (\<lambda>l. log_created_at l > now - window_secs w) logs;
          errors = length (filter (\<lambda>l. log_status l \<ge> 500) rows)
      in if \<not> ok \<or> rows = [] then None
         else Some (f64_div (f64_of_nat errors) (f64_of_nat (length rows))))"

text \<open>
  The flags to roll back are selected first; each is disabled and audited on its own, and a failing
  statement (\<open>update_ok\<close>, \<open>audit_ok\<close>) concerns its flag only.
\<close>

record rollback_faults =
  select_ok :: bool
  update_ok :: "string \<Rightarrow> bool"
  audit_ok :: "string \<Rightarrow> bool"

type_synonym flag_db = "flag_row list \<times> audit_entry list"

definition rollback_flag :: "rollback_faults \<Rightarrow> string \<Rightarrow> flag_db \<Rightarrow> flag_db" where
  "rollback_flag faults i db =
     (let (tbl, audit) = db
      in if \<not> update_ok faults i then (tbl, audit)
         else (map (\<lambda>r. if flag_id r = i then r\<lparr>enabled := False\<rparr> else r) tbl,
               if audit_ok faults i
               then audit @ [\<lparr>audit_flag_id = i, audit_action = ''rollback'', audit_triggered_by = ''auto-rollback''\<rparr>]
               else audit))"

definition rollback_enabled_flags :: "rollback_faults \<Rightarrow> flag_db \<Rightarrow> flag_db" where
  "rollback_enabled_flags faults db =
     (if \<not> select_ok faults then db
      else fold (rollback_flag faults) (map flag_id (filter (\<lambda>r. enabled r \<and> auto_rollback r) (fst db))) db)"

definition run_once :: "rollback_faults \<Rightarrow> bool \<Rightarrow> int \<Rightarrow> FeatureFlagWatcher \<Rightarrow> request_log list \<Rightarrow> flag_db \<Rightarrow> flag_db" where
  "run_once faults ok now w logs db =
     (case current_error_rate ok now w logs of
        None \<Rightarrow> db
      | Some rate \<Rightarrow> if rate > rollback_threshold w then rollback_enabled_flags faults db else db)"

section \<open>Metrics\<close>

record FlagCounters =
  evaluations :: u64
  enabled_count :: u64
  disabled_count :: u64
  variant_assignments :: "string \<rightharpoonup> u64"

type_synonym FlagMetrics = "string \<rightharpoonup> FlagCounters"

definition counters_for :: "string \<Rightarrow> FlagMetrics \<Rightarrow> FlagCounters" where
  "counters_for name m = (case m name of Some c \<Rightarrow> c
     | None \<Rightarrow> \<lparr>evaluations = 0, enabled_count = 0, disabled_count = 0, variant_assignments = (\<lambda>_. None)\<rparr>)"

definition record_evaluation :: "string \<Rightarrow> bool \<Rightarrow> FlagMetrics \<Rightarrow> FlagMetrics" where
  "record_evaluation name on m =
     (let c = counters_for name m; c1 = c\<lparr>evaluations := evaluations c + 1\<rparr>
      in m(name \<mapsto> (if on then c1\<lparr>enabled_count := enabled_count c1 + 1\<rparr> else c1\<lparr>disabled_count := disabled_count c1 + 1\<rparr>)))"

definition record_variant_assignment :: "string \<Rightarrow> string \<Rightarrow> FlagMetrics \<Rightarrow> FlagMetrics" where
  "record_variant_assignment name variant m =
     (let c = counters_for name m; n = (case variant_assignments c variant of None \<Rightarrow> 0 | Some k \<Rightarrow> k)
      in m(name \<mapsto> c\<lparr>variant_assignments := (variant_assignments c)(variant \<mapsto> n + 1)\<rparr>))"

record FlagMetricsSnapshot =
  snap_evaluations :: u64
  snap_enabled :: u64
  snap_disabled :: u64
  snap_enabled_rate :: f64
  snap_variants :: "string \<rightharpoonup> u64"

definition snapshot :: "FlagMetrics \<Rightarrow> string \<rightharpoonup> FlagMetricsSnapshot" where
  "snapshot m name = map_option (\<lambda>c. \<lparr>snap_evaluations = evaluations c, snap_enabled = enabled_count c,
     snap_disabled = disabled_count c,
     snap_enabled_rate = (if evaluations c = 0 then 0
       else f64_div (f64_of_nat (unat (enabled_count c))) (f64_of_nat (unat (evaluations c)))),
     snap_variants = variant_assignments c\<rparr>) (m name)"

definition is_feature_enabled_with_metrics ::
  "hasher \<Rightarrow> bool \<Rightarrow> flag_row list \<Rightarrow> string \<Rightarrow> FeatureFlagContext \<Rightarrow> FlagMetrics \<Rightarrow> bool option \<times> FlagMetrics" where
  "is_feature_enabled_with_metrics hasher ok tbl name ctx m =
     (case is_feature_enabled hasher ok tbl name ctx of
        None \<Rightarrow> (None, m)
      | Some r \<Rightarrow> (Some r, record_evaluation name r m))"

section \<open>Rollout and variants\<close>

lemma bucket_bounds: "0 \<le> uint (h mod (100 :: u64)) \<and> uint (h mod (100 :: u64)) < 100"
  by (simp add: uint_mod)

definition targets_context :: "flag_row \<Rightarrow> FeatureFlagContext \<Rightarrow> bool" where
  "targets_context row ctx \<longleftrightarrow>
     (let lists = [(target_contract_ids row, contract_id ctx), (target_user_ids row, user_id ctx),
                   (target_ips row, ip_address ctx), (target_regions row, region ctx)]
      in list_all (\<lambda>(ts, _). ts = None) lists \<or> list_ex (\<lambda>(ts, x). target_hit ts x) lists)"

lemma is_feature_enabled_row:
  assumes "find (\<lambda>r. flag_name r = name) tbl = Some row"
  shows "is_feature_enabled hasher True tbl name ctx = Some (enabled row \<and> targets_context row ctx
     \<and> uint (compute_rollout_hash hasher name ctx mod 100) < rollout_percentage row)"
  using assms by (auto simp: is_feature_enabled_def targets_context_def Let_def)

lemma rollout_monotone:
  assumes "find (\<lambda>r. flag_name r = name) tbl = Some row"
    and "find (\<lambda>r. flag_name r = name) tbl' = Some (row\<lparr>rollout_percentage := p\<rparr>)" and "rollout_percentage row \<le> p"
    and "is_feature_enabled hasher True tbl name ctx = Some True"
  shows "is_feature_enabled hasher True tbl' name ctx = Some True"
  using assms by (auto simp: is_feature_enabled_row targets_context_def)

text \<open>The weighted urn: every variant as often as its weight says, in order.\<close>

definition urn :: "FlagVariant list \<Rightarrow> FlagVariant list" where
  "urn vs = concat (map (\<lambda>v. replicate (unat (weight v)) v) vs)"

lemma length_urn: "length (urn vs) = sum_list (map (unat \<circ> weight) vs)"
  by (simp add: urn_def length_concat comp_def)

lemma unat_total_weight: "length (urn vs) < 2 ^ 32 \<Longrightarrow> unat (total_weight vs) = length (urn vs)"
proof (induction vs)
  case (Cons v vs)
  have "unat (weight v) + length (urn vs) < 2 ^ 32"
    using Cons.prems by (simp add: length_urn)
  moreover from this Cons.IH have "unat (total_weight vs) = length (urn vs)" by simp
  ultimately show ?case
    by (simp add: total_weight_def length_urn unat_plus_if' comp_def)
qed (simp add: total_weight_def urn_def)

lemma pick_variant_urn:
  "pick_variant b vs = (if unat b < length (urn vs) then Some (urn vs ! unat b) else None)"
proof (induction vs arbitrary: b)
  case (Cons v vs)
  show ?case
  proof (cases "b < weight v")
    case True
    then have "unat b < unat (weight v)" by (simp add: word_less_nat_alt)
    then show ?thesis
      using True by (simp add: urn_def nth_append)
  next
    case False
    then have "unat (b - weight v) = unat b - unat (weight v)" "unat (weight v) \<le> unat b"
      by (simp_all add: unat_sub word_le_nat_alt not_less)
    then show ?thesis
      using False Cons.IH [of "b - weight v"] by (auto simp: urn_def nth_append)
  qed
qed (simp add: urn_def)

text \<open>
  Variants are assigned in proportion to their weights: the variant of a context is the entry of
  the weighted urn at its hash modulo the size of the urn, as long as the weights fit 32 bits
  together. Without a positive weight there is none.
\<close>

theorem assign_variant_urn:
  assumes "length (urn vs) < 2 ^ 32"
  shows "assign_variant hasher name ctx vs =
    (if urn vs = [] then None
     else Some (urn vs ! (unat (compute_rollout_hash hasher name ctx) mod length (urn vs))))"
proof -
  let ?h = "compute_rollout_hash hasher name ctx"
  have total: "unat (total_weight vs) = length (urn vs)"
    by (rule unat_total_weight [OF assms])
  then have "total_weight vs = 0 \<longleftrightarrow> urn vs = []"
    by (metis length_0_conv unat_eq_zero)
  moreover have "unat (ucast (?h mod ucast (total_weight vs)) :: u32) = unat ?h mod length (urn vs)" if "urn vs \<noteq> []"
  proof -
    have "unat (ucast (total_weight vs) :: u64) = length (urn vs)"
      using total assms by (simp add: unsigned_ucast_eq take_bit_nat_eq_self_iff)
    then have "unat (?h mod ucast (total_weight vs)) = unat ?h mod length (urn vs)"
      by (simp add: unat_mod)
    moreover have "unat ?h mod length (urn vs) < 2 ^ 32"
      using that assms by (meson length_greater_0_conv less_trans mod_less_divisor)
    ultimately show ?thesis
      by (simp add: unsigned_ucast_eq take_bit_nat_eq_self_iff)
  qed
  ultimately show ?thesis
    by (auto simp: assign_variant_def Let_def pick_variant_urn urn_def)
qed

theorem assign_variant_urn_witness:
  "let vs = [\<lparr>variant_name = ''a'', weight = 1\<rparr>, \<lparr>variant_name = ''b'', weight = 3\<rparr>];
       ctx = \<lparr>contract_id = None, user_id = Some ''u'', ip_address = None, region = None\<rparr>
   in assign_variant (\<lambda>xs. of_nat (length xs) + 4) ''f'' ctx vs = Some (vs ! 1)"
proof -
  let ?vs = "[\<lparr>variant_name = ''a'', weight = 1\<rparr>, \<lparr>variant_name = ''b'', weight = 3\<rparr>]"
  have urn: "urn ?vs = [?vs ! 0, ?vs ! 1, ?vs ! 1, ?vs ! 1]"
    by code_simp
  have "length (urn ?vs) < 2 ^ 32"
    unfolding urn by simp
  from assign_variant_urn [OF this] show ?thesis
    unfolding urn by (simp add: compute_rollout_hash_def)
qed

text \<open>Weights that overflow 32 bits together can leave every context without a variant.\<close>

lemma overflowing_weights: "assign_variant hasher name ctx [\<lparr>variant_name = a, weight = 2 ^ 31\<rparr>, \<lparr>variant_name = b, weight = 2 ^ 31\<rparr>] = None"
  by (simp add: assign_variant_def total_weight_def)

section \<open>Rollback\<close>

lemma rollback_flag_pair:
  "rollback_flag faults i (tbl, audit) =
     (map (\<lambda>r. if flag_id r = i \<and> update_ok faults i then r\<lparr>enabled := False\<rparr> else r) tbl,
      audit @ (if update_ok faults i \<and> audit_ok faults i
        then [\<lparr>audit_flag_id = i, audit_action = ''rollback'', audit_triggered_by = ''auto-rollback''\<rparr>] else []))"
  by (simp add: rollback_flag_def map_idI)

lemma rollback_fold:
  "fold (rollback_flag faults) ids (tbl, audit) =
     (map (\<lambda>r. if flag_id r \<in> set ids \<and> update_ok faults (flag_id r) then r\<lparr>enabled := False\<rparr> else r) tbl,
      audit @ map (\<lambda>i. \<lparr>audit_flag_id = i, audit_action = ''rollback'', audit_triggered_by = ''auto-rollback''\<rparr>)
        (filter (\<lambda>i. update_ok faults i \<and> audit_ok faults i) ids))"
proof (induction ids arbitrary: tbl audit)
  case (Cons i ids)
  show ?case
    by (auto simp: rollback_flag_pair Cons.IH)
qed (simp add: map_idI)

text \<open>
  A spike in the error rate switches off exactly the enabled flags that ask for automatic
  rollback, each with one audit entry; other flags, and every flag while the rate is at or below the
  threshold or unknown, stay as they are. A failed statement concerns its own flag only.
\<close>

theorem rollback_exact:
  assumes "distinct (map flag_id tbl)" and "select_ok faults"
  shows "let hit = (\<lambda>r. enabled r \<and> auto_rollback r \<and> update_ok faults (flag_id r));
             spike = (case current_error_rate ok now w logs of None \<Rightarrow> False | Some rate \<Rightarrow> rollback_threshold w < rate)
    in run_once faults ok now w logs (tbl, audit) =
        (if spike then (map (\<lambda>r. if hit r then r\<lparr>enabled := False\<rparr> else r) tbl,
           audit @ map (\<lambda>r. \<lparr>audit_flag_id = flag_id r, audit_action = ''rollback'', audit_triggered_by = ''auto-rollback''\<rparr>)
             (filter (\<lambda>r. hit r \<and> audit_ok faults (flag_id r)) tbl))
         else (tbl, audit))"
proof -
  have own: "flag_id r \<in> flag_id ` {r \<in> set tbl. P r} \<longleftrightarrow> P r" if "r \<in> set tbl" for r and P :: "flag_row \<Rightarrow> bool"
    using that assms(1) by (auto simp: distinct_map inj_on_def)
  have "map (\<lambda>r. if flag_id r \<in> set (map flag_id (filter (\<lambda>r. enabled r \<and> auto_rollback r) tbl)) \<and> update_ok faults (flag_id r)
        then r\<lparr>enabled := False\<rparr> else r) tbl
      = map (\<lambda>r. if enabled r \<and> auto_rollback r \<and> update_ok faults (flag_id r) then r\<lparr>enabled := False\<rparr> else r) tbl"
    using own [where P = "\<lambda>r. enabled r \<and> auto_rollback r"] by (intro map_cong) auto
  then show ?thesis
    using assms(2)
    by (simp add: run_once_def rollback_enabled_flags_def rollback_fold Let_def filter_map comp_def conj_ac split: option.split)
qed

theorem rollback_exact_witness:
  "let row = (\<lambda>i auto. \<lparr>flag_id = i, flag_name = i, enabled = True, auto_rollback = auto, rollout_percentage = 100,
         target_contract_ids = None, target_user_ids = None, target_ips = None, target_regions = None\<rparr>);
       faults = \<lparr>select_ok = True, update_ok = (\<lambda>_. True), audit_ok = (\<lambda>_. True)\<rparr>;
       logs = [\<lparr>log_status = 500, log_created_at = 900\<rparr>, \<lparr>log_status = 200, log_created_at = 950\<rparr>]
   in map enabled (fst (run_once faults True 1000 watcher_new logs ([row ''a'' True, row ''b'' False], []))) = [False, True]"
proof -
  let ?row = "\<lambda>i auto. \<lparr>flag_id = i, flag_name = i, enabled = True, auto_rollback = auto, rollout_percentage = 100,
         target_contract_ids = None, target_user_ids = None, target_ips = None, target_regions = None\<rparr>"
  let ?faults = "\<lparr>select_ok = True, update_ok = (\<lambda>_. True), audit_ok = (\<lambda>_. True)\<rparr>"
  let ?logs = "[\<lparr>log_status = 500, log_created_at = 900\<rparr>, \<lparr>log_status = 200, log_created_at = 950\<rparr>]"
  have "current_error_rate True 1000 watcher_new ?logs = Some (f64_rnd (1 / 2))" "rollback_threshold watcher_new < f64_rnd (1 / 2)"
    by code_simp+
  then show ?thesis
    using rollback_exact [where tbl = "[?row ''a'' True, ?row ''b'' False]" and faults = ?faults and ok = True and now = 1000
        and w = watcher_new and logs = ?logs and audit = "[]"] by (simp add: Let_def)
qed

section \<open>Counters\<close>

datatype metric_op = Evaluation string bool | Assignment string string

fun metric_step :: "metric_op \<Rightarrow> FlagMetrics \<Rightarrow> FlagMetrics" where
  "metric_step (Evaluation name on) = record_evaluation name on"
| "metric_step (Assignment name v) = record_variant_assignment name v"

definition assigned :: "FlagCounters \<Rightarrow> string \<Rightarrow> u64" where
  "assigned c v = (case variant_assignments c v of None \<Rightarrow> 0 | Some n \<Rightarrow> n)"

lemma assigned_update [simp]:
  "assigned (c\<lparr>variant_assignments := f(v \<mapsto> n)\<rparr>) v' = (if v' = v then n else assigned (c\<lparr>variant_assignments := f\<rparr>) v')"
  "assigned (c\<lparr>evaluations := k\<rparr>) v' = assigned c v'" "assigned (c\<lparr>enabled_count := k\<rparr>) v' = assigned c v'"
  "assigned (c\<lparr>disabled_count := k\<rparr>) v' = assigned c v'" "assigned (c\<lparr>variant_assignments := variant_assignments c\<rparr>) v' = assigned c v'"
  by (simp_all add: assigned_def)

lemma counters_after:
  "counters_for name (record_evaluation name' on m) =
     (if name = name' then (let c = counters_for name m; c1 = c\<lparr>evaluations := evaluations c + 1\<rparr>
        in if on then c1\<lparr>enabled_count := enabled_count c1 + 1\<rparr> else c1\<lparr>disabled_count := disabled_count c1 + 1\<rparr>)
      else counters_for name m)"
  "counters_for name (record_variant_assignment name' v m) =
     (if name = name' then (let c = counters_for name m
        in c\<lparr>variant_assignments := (variant_assignments c)(v \<mapsto> assigned c v + 1)\<rparr>)
      else counters_for name m)"
  by (simp_all add: counters_for_def record_evaluation_def record_variant_assignment_def assigned_def Let_def)

definition counted :: "metric_op list \<Rightarrow> string \<Rightarrow> FlagCounters \<Rightarrow> bool" where
  "counted ops name c \<longleftrightarrow> enabled_count c = of_nat (length (filter (\<lambda>x. x = Evaluation name True) ops))
     \<and> disabled_count c = of_nat (length (filter (\<lambda>x. x = Evaluation name False) ops))
     \<and> evaluations c = enabled_count c + disabled_count c
     \<and> (\<forall>v. assigned c v = of_nat (length (filter (\<lambda>x. x = Assignment name v) ops)))"

lemma counters_exact: "counted ops name (counters_for name (fold metric_step ops Map.empty))"
proof (induction ops rule: rev_induct)
  case Nil
  then show ?case by (simp add: counted_def counters_for_def assigned_def)
next
  case (snoc x ops)
  then show ?case
    by (cases x) (auto simp: counted_def counters_after Let_def)
qed

end
