(* ===== verification/Graceful_Shutdown.thy ===== *)
theory Graceful_Shutdown
  imports Prelude
begin

text \<open>
  Model of \<open>src/graceful_shutdown.rs\<close>: the tracker of in-flight requests under concurrent use, the
  drain loop, and the degradation controller with its response cache. The tracker's methods are the
  atomic steps their threads take, in any interleaving. Loops that read a clock take the readings, one
  per iteration, as a list; they return nothing when the list ends before they do.
\<close>

section \<open>Configuration\<close>

record GracefulShutdownConfig =
  drain_timeout_secs :: u64
  max_requests :: u64

definition env_u64 :: "(string \<rightharpoonup> string) \<Rightarrow> string \<Rightarrow> u64 \<Rightarrow> u64" where
  "env_u64 env name dflt =
     (case Option.bind (env name) parse_u64 of None \<Rightarrow> dflt | Some n \<Rightarrow> of_nat n)"

definition config_from_env :: "(string \<rightharpoonup> string) \<Rightarrow> GracefulShutdownConfig" where
  "config_from_env env =
     \<lparr>drain_timeout_secs = env_u64 env ''GRACEFUL_SHUTDOWN_TIMEOUT_SECS'' 30,
      max_requests = env_u64 env ''GRACEFUL_SHUTDOWN_MAX_REQUESTS'' 1000\<rparr>"

section \<open>The request tracker\<close>

text \<open>
  A thread is idle, has added itself and holds the previous count (\<open>increment\<close> before its check), or
  serves an admitted request.
\<close>

datatype phase = Idle | Added u64 | Admitted

record RequestTracker =
  in_flight :: u64
  threads :: "phase list"

definition tracker_new :: "nat \<Rightarrow> RequestTracker" where
  "tracker_new n = \<lparr>in_flight = 0, threads = replicate n Idle\<rparr>"

definition tracker_count :: "RequestTracker \<Rightarrow> u64" where
  "tracker_count s = in_flight s"

text \<open>
  \<open>increment\<close> is \<open>fetch_add\<close>, then either success or \<open>fetch_sub\<close> and an error; \<open>decrement\<close> is
  \<open>fetch_sub\<close>. Each atomic access is a step.
\<close>

inductive tracker_step :: "u64 \<Rightarrow> RequestTracker \<Rightarrow> RequestTracker \<Rightarrow> bool" where
  fetch_add: "t < length (threads s) \<Longrightarrow> threads s ! t = Idle \<Longrightarrow>
    tracker_step mx s \<lparr>in_flight = in_flight s + 1, threads = (threads s)[t := Added (in_flight s)]\<rparr>"
| admit: "t < length (threads s) \<Longrightarrow> threads s ! t = Added current \<Longrightarrow> \<not> current \<ge> mx \<Longrightarrow>
    tracker_step mx s (s\<lparr>threads := (threads s)[t := Admitted]\<rparr>)"
| reject: "t < length (threads s) \<Longrightarrow> threads s ! t = Added current \<Longrightarrow> current \<ge> mx \<Longrightarrow>
    tracker_step mx s \<lparr>in_flight = in_flight s - 1, threads = (threads s)[t := Idle]\<rparr>"
| decrement: "t < length (threads s) \<Longrightarrow> threads s ! t = Admitted \<Longrightarrow>
    tracker_step mx s \<lparr>in_flight = in_flight s - 1, threads = (threads s)[t := Idle]\<rparr>"

inductive_cases tracker_stepE: "tracker_step mx s s'"

section \<open>Draining\<close>

datatype drain_result = Drained | Timed_out u64

text \<open>An iteration reads the count, then the time since the start in nanoseconds.\<close>

fun drain_requests :: "int \<Rightarrow> (u64 \<times> int) list \<Rightarrow> drain_result option" where
  "drain_requests timeout [] = None"
| "drain_requests timeout ((count, elapsed) # readings) =
     (if count = 0 then Some Drained
      else if elapsed > timeout then Some (Timed_out count)
      else drain_requests timeout readings)"

text \<open>The pool is polled until every connection it may hold is idle, for at most ten seconds.\<close>

fun close_database :: "nat \<Rightarrow> (nat \<times> int) list \<Rightarrow> nat option" where
  "close_database max_size [] = None"
| "close_database max_size ((num_idle, elapsed) # readings) =
     (if num_idle < max_size \<and> elapsed < 10 * 1000000000 then close_database max_size readings else Some num_idle)"

section \<open>Degradation\<close>

datatype DegradationLevel = Normal | Degraded | ReadOnly | Unavailable

record CachedResponse =
  cached_body :: string
  cached_at_ms :: nat

record DegradationController =
  level :: DegradationLevel
  read_only :: bool
  response_cache :: "string \<rightharpoonup> CachedResponse"
  transitions_total :: "string \<times> string \<Rightarrow> nat"
  level_gauge :: nat

definition controller_new :: DegradationController where
  "controller_new = \<lparr>level = Normal, read_only = False, response_cache = (\<lambda>_. None), transitions_total = (\<lambda>_. 0), level_gauge = 0\<rparr>"

fun level_label :: "DegradationLevel \<Rightarrow> string" where
  "level_label Normal = ''normal''"
| "level_label Degraded = ''degraded''"
| "level_label ReadOnly = ''read_only''"
| "level_label Unavailable = ''unavailable''"

fun level_value :: "DegradationLevel \<Rightarrow> nat" where
  "level_value Normal = 0"
| "level_value Degraded = 1"
| "level_value ReadOnly = 2"
| "level_value Unavailable = 3"

definition record_degradation_metric :: "string \<Rightarrow> DegradationLevel \<Rightarrow> DegradationController \<Rightarrow> DegradationController" where
  "record_degradation_metric dependency l c =
     (let k = (dependency, level_label l)
      in c\<lparr>transitions_total := (transitions_total c)(k := transitions_total c k + 1), level_gauge := level_value l\<rparr>)"

definition apply_fallback_strategy :: "string \<Rightarrow> bool \<Rightarrow> DegradationController \<Rightarrow> DegradationController" where
  "apply_fallback_strategy dependency healthy c =
     (if healthy then c\<lparr>level := Normal, read_only := False\<rparr>
      else
        let c1 = (if dependency = ''database'' then c\<lparr>read_only := True, level := ReadOnly\<rparr>
                  else if dependency = ''all'' then c\<lparr>level := Unavailable\<rparr>
                  else c\<lparr>level := Degraded\<rparr>)
        in record_degradation_metric dependency (level c1) c1)"

definition on_circuit_breaker_state_change :: "string \<Rightarrow> bool \<Rightarrow> DegradationController \<Rightarrow> DegradationController" where
  "on_circuit_breaker_state_change dependency is_open c = apply_fallback_strategy dependency (\<not> is_open) c"

definition cache_response :: "nat \<Rightarrow> string \<Rightarrow> string \<Rightarrow> DegradationController \<Rightarrow> DegradationController" where
  "cache_response now_ms key body c = c\<lparr>response_cache := (response_cache c)(key \<mapsto> \<lparr>cached_body = body, cached_at_ms = now_ms\<rparr>)\<rparr>"

text \<open>\<open>saturating_sub\<close> on milliseconds is subtraction of naturals.\<close>

definition serve_cached :: "nat \<Rightarrow> string \<Rightarrow> nat \<Rightarrow> DegradationController \<Rightarrow> CachedResponse option" where
  "serve_cached now_ms key max_age_ms c =
     (case response_cache c key of None \<Rightarrow> None
      | Some entry \<Rightarrow> if now_ms - cached_at_ms entry \<le> max_age_ms then Some entry else None)"

section \<open>Admission is bounded\<close>

definition busy :: "phase list \<Rightarrow> nat" where
  "busy ts = length (filter (\<lambda>p. p \<noteq> Idle) ts)"

text \<open>Threads that are admitted, or will be at their next step.\<close>

definition winning :: "u64 \<Rightarrow> phase \<Rightarrow> bool" where
  "winning mx p = (case p of Idle \<Rightarrow> False | Added c \<Rightarrow> c < mx | Admitted \<Rightarrow> True)"

definition winners :: "u64 \<Rightarrow> phase list \<Rightarrow> nat" where
  "winners mx ts = length (filter (winning mx) ts)"

lemma filter_update_length:
  assumes "t < length ts"
  shows "length (filter P (ts[t := x])) + of_bool (P (ts ! t)) = length (filter P ts) + of_bool (P x)"
  using assms
proof (induction ts arbitrary: t)
  case (Cons y ts)
  then show ?case by (cases t) auto
qed simp

lemma busy_update: "t < length ts \<Longrightarrow> busy (ts[t := x]) + of_bool (ts ! t \<noteq> Idle) = busy ts + of_bool (x \<noteq> Idle)"
  unfolding busy_def by (rule filter_update_length)

lemma winners_update: "t < length ts \<Longrightarrow> winners mx (ts[t := x]) + of_bool (winning mx (ts ! t)) = winners mx ts + of_bool (winning mx x)"
  unfolding winners_def by (rule filter_update_length)

lemma winners_busy: "winners mx ts \<le> busy ts"
  by (induction ts) (auto simp: winners_def busy_def winning_def split: phase.splits)

definition tracker_inv :: "u64 \<Rightarrow> RequestTracker \<Rightarrow> bool" where
  "tracker_inv mx s \<longleftrightarrow> length (threads s) < 2 ^ 64 \<and> unat (in_flight s) = busy (threads s) \<and> winners mx (threads s) \<le> unat mx"

lemma busy_le: "busy ts \<le> length ts"
  by (simp add: busy_def)

lemma tracker_inv_step:
  assumes "tracker_step mx s s'" and "tracker_inv mx s"
  shows "tracker_inv mx s' \<and> length (threads s') = length (threads s)"
  using assms
proof (induction rule: tracker_step.induct)
  case (fetch_add t s mx)
  have "busy ((threads s)[t := Added (in_flight s)]) = busy (threads s) + 1"
    using busy_update [OF fetch_add(1), of "Added (in_flight s)"] fetch_add(2) by simp
  moreover from this have "unat (in_flight s + 1) = unat (in_flight s) + 1"
    using fetch_add(3) busy_le [of "(threads s)[t := Added (in_flight s)]"]
    by (intro unat_Suc_word) (simp add: tracker_inv_def)
  moreover have "winners mx ((threads s)[t := Added (in_flight s)]) = winners mx (threads s) + of_bool (in_flight s < mx)"
    using winners_update [OF fetch_add(1), of mx "Added (in_flight s)"] fetch_add(2) by (simp add: winning_def)
  ultimately show ?case
    using fetch_add(3) winners_busy [of mx "threads s"] by (auto simp: tracker_inv_def word_less_nat_alt)
next
  case (admit t s current mx)
  then show ?case
    using busy_update [OF admit(1), of Admitted] winners_update [OF admit(1), of mx Admitted]
    by (simp add: tracker_inv_def winning_def not_le)
next
  case (reject t s current mx)
  have "busy ((threads s)[t := Idle]) + 1 = busy (threads s)"
    using busy_update [OF reject(1), of Idle] reject(2) by simp
  moreover from this have "unat (in_flight s - 1) = unat (in_flight s) - 1"
    using reject(4) by (simp add: tracker_inv_def unat_sub word_le_nat_alt)
  ultimately show ?case
    using reject winners_update [OF reject(1), of mx Idle] by (auto simp: tracker_inv_def winning_def split: if_splits)
next
  case (decrement t s mx)
  have "busy ((threads s)[t := Idle]) + 1 = busy (threads s)"
    using busy_update [OF decrement(1), of Idle] decrement(2) by simp
  moreover from this have "unat (in_flight s - 1) = unat (in_flight s) - 1"
    using decrement(3) by (simp add: tracker_inv_def unat_sub word_le_nat_alt)
  ultimately show ?case
    using decrement winners_update [OF decrement(1), of mx Idle] by (auto simp: tracker_inv_def winning_def)
qed

lemma tracker_reachable:
  assumes "(tracker_step mx)\<^sup>*\<^sup>* (tracker_new n) s" and "n < 2 ^ 64"
  shows "tracker_inv mx s \<and> length (threads s) = n"
  using assms(1)
proof (induction rule: rtranclp_induct)
  case base
  then show ?case
    using assms(2) by (simp add: tracker_inv_def tracker_new_def busy_def winners_def winning_def)
next
  case (step s s')
  then show ?case using tracker_inv_step by metis
qed

text \<open>
  C35. However the atomic steps of concurrent requests interleave, at most \<open>max_requests\<close> requests are
  admitted at once and the counter is the number of threads inside the tracker, so it is zero exactly
  when none is; a request that finds fewer than the maximum there is admitted.
\<close>

theorem admission_bounded:
  assumes "(tracker_step mx)\<^sup>*\<^sup>* (tracker_new n) s" and "n < 2 ^ 64"
  shows "length (filter (\<lambda>p. p = Admitted) (threads s)) \<le> unat mx
    \<and> unat (tracker_count s) = length (filter (\<lambda>p. p \<noteq> Idle) (threads s))
    \<and> (tracker_count s = 0 \<longleftrightarrow> list_all (\<lambda>p. p = Idle) (threads s))
    \<and> (\<forall>t < n. threads s ! t = Idle \<and> busy (threads s) < unat mx \<longrightarrow>
         (tracker_step mx OO tracker_step mx) s \<lparr>in_flight = in_flight s + 1, threads = (threads s)[t := Admitted]\<rparr>)"
proof -
  have inv: "tracker_inv mx s" and len: "length (threads s) = n"
    using tracker_reachable [OF assms] by auto
  have "length (filter (\<lambda>p. p = Admitted) ts) \<le> winners mx ts" for ts
    by (induction ts) (auto simp: winners_def winning_def)
  moreover have "(tracker_step mx OO tracker_step mx) s \<lparr>in_flight = in_flight s + 1, threads = (threads s)[t := Admitted]\<rparr>"
    if "t < n" "threads s ! t = Idle" "busy (threads s) < unat mx" for t
  proof -
    let ?s = "\<lparr>in_flight = in_flight s + 1, threads = (threads s)[t := Added (in_flight s)]\<rparr>"
    have "tracker_step mx s ?s"
      using that len by (intro fetch_add) simp_all
    moreover have "\<not> in_flight s \<ge> mx"
      using that(3) inv by (simp add: tracker_inv_def word_le_nat_alt)
    then have "tracker_step mx ?s (?s\<lparr>threads := (threads ?s)[t := Admitted]\<rparr>)"
      using that len by (intro admit [where current = "in_flight s"]) simp_all
    ultimately show ?thesis by auto
  qed
  moreover have "busy ts = 0 \<longleftrightarrow> list_all (\<lambda>p. p = Idle) ts" for ts
    by (induction ts) (simp_all add: busy_def)
  ultimately show ?thesis
    using inv le_trans [of "length (filter (\<lambda>p. p = Admitted) (threads s))" "winners mx (threads s)" "unat mx"]
    by (auto simp: tracker_inv_def tracker_count_def busy_def unat_eq_zero [symmetric])
qed

theorem admission_bounded_witness:
  "let s = \<lparr>in_flight = 2, threads = [Admitted, Added 1]\<rparr>
   in (tracker_step 1)\<^sup>*\<^sup>* (tracker_new 2) s \<and> length (filter (\<lambda>p. p = Admitted) (threads s)) \<le> 1"
proof -
  let ?s0 = "\<lparr>in_flight = 0, threads = [Idle, Idle]\<rparr>" and ?s1 = "\<lparr>in_flight = 1, threads = [Added 0, Idle]\<rparr>"
  let ?s2 = "\<lparr>in_flight = 1, threads = [Admitted, Idle]\<rparr>" and ?s3 = "\<lparr>in_flight = 2, threads = [Admitted, Added 1]\<rparr>"
  have "tracker_step 1 ?s0 ?s1" using fetch_add [of 0 ?s0 1] by simp
  moreover have "tracker_step 1 ?s1 ?s2" using admit [of 0 ?s1 0 1] by simp
  moreover have "tracker_step 1 ?s2 ?s3" using fetch_add [of 1 ?s2 1] by simp
  moreover have "tracker_new 2 = ?s0" by (simp add: tracker_new_def numeral_2_eq_2)
  ultimately have run: "(tracker_step 1)\<^sup>*\<^sup>* (tracker_new 2) ?s3"
    by (metis rtranclp.rtrancl_into_rtrancl rtranclp.rtrancl_refl)
  then show ?thesis
    using admission_bounded [OF run] by simp
qed

text \<open>
  A thread that is about to be turned away still counts: while it is there, a request can be rejected
  although fewer than \<open>max_requests\<close> are served.
\<close>

lemma spurious_rejection:
  "tracker_step 1 \<lparr>in_flight = 2, threads = [Admitted, Added 1, Idle]\<rparr> \<lparr>in_flight = 1, threads = [Idle, Added 1, Idle]\<rparr>"
  "tracker_step 1 \<lparr>in_flight = 1, threads = [Idle, Added 1, Idle]\<rparr> \<lparr>in_flight = 2, threads = [Idle, Added 1, Added 1]\<rparr>"
  "\<not> (\<exists>s. tracker_step 1 \<lparr>in_flight = 2, threads = [Idle, Added 1, Added 1]\<rparr> s \<and> Admitted \<in> set (threads s))"
proof -
  show "tracker_step 1 \<lparr>in_flight = 2, threads = [Admitted, Added 1, Idle]\<rparr> \<lparr>in_flight = 1, threads = [Idle, Added 1, Idle]\<rparr>"
    using decrement [of 0 "\<lparr>in_flight = 2, threads = [Admitted, Added 1, Idle]\<rparr>" 1] by simp
  show "tracker_step 1 \<lparr>in_flight = 1, threads = [Idle, Added 1, Idle]\<rparr> \<lparr>in_flight = 2, threads = [Idle, Added 1, Added 1]\<rparr>"
    using fetch_add [of 2 "\<lparr>in_flight = 1, threads = [Idle, Added 1, Idle]\<rparr>" 1] by (simp add: numeral_2_eq_2)
  show "\<not> (\<exists>s. tracker_step 1 \<lparr>in_flight = 2, threads = [Idle, Added 1, Added 1]\<rparr> s \<and> Admitted \<in> set (threads s))"
    by (auto elim!: tracker_stepE simp: less_Suc_eq numeral_3_eq_3)
qed

section \<open>The drain loop ends\<close>

lemma find_index:
  assumes "find P xs \<noteq> None"
  shows "\<exists>i. i < length xs \<and> find P xs = Some (xs ! i) \<and> P (xs ! i) \<and> (\<forall>j < i. \<not> P (xs ! j))"
proof -
  obtain y where y: "find P xs = Some y" using assms by blast
  then obtain i where "i < length xs" "P (xs ! i)" "y = xs ! i" "\<forall>j < i. \<not> P (xs ! j)"
    unfolding find_Some_iff by blast
  with y show ?thesis by blast
qed

lemma drain_find:
  "drain_requests timeout rs = map_option (\<lambda>(c, _). if c = 0 then Drained else Timed_out c)
     (find (\<lambda>(c, e). c = 0 \<or> e > timeout) rs)"
proof (induction rs)
  case (Cons x rs)
  then show ?case by (cases x) simp
qed simp

text \<open>
  Draining ends: when at least the 100 milliseconds of its sleep pass between two readings, the
  loop returns after at most \<open>timeout / 100 ms + 2\<close> iterations. It reports success exactly when some
  reading found no request in flight before the first reading past the timeout, and otherwise the
  number of requests still there.
\<close>

theorem drain_ends:
  assumes "0 \<le> timeout" and "\<forall>i < length rs. int i * 100000000 \<le> snd (rs ! i)"
    and "timeout div 100000000 + 2 \<le> int (length rs)"
  shows "\<exists>r. drain_requests timeout rs = Some r
    \<and> (r = Drained \<longleftrightarrow> (\<exists>i < length rs. fst (rs ! i) = 0 \<and> (\<forall>j < i. snd (rs ! j) \<le> timeout)))
    \<and> (\<forall>c. r = Timed_out c \<longrightarrow> c \<noteq> 0 \<and> (\<exists>i < length rs. fst (rs ! i) = c \<and> timeout < snd (rs ! i) \<and> (\<forall>j < i. fst (rs ! j) \<noteq> 0)))"
proof -
  let ?P = "\<lambda>(c, e). c = (0 :: u64) \<or> e > timeout"
  let ?k = "nat (timeout div 100000000 + 1)"
  have "?k < length rs"
    using assms(1,3) by linarith
  moreover from this have "timeout < snd (rs ! ?k)"
    using assms(2) [rule_format, of ?k] pos_imp_zdiv_nonneg_iff [of 100000000 timeout] assms(1) by linarith
  ultimately have "find ?P rs \<noteq> None"
    unfolding find_None_iff by (metis (mono_tags, lifting) case_prod_beta nth_mem)
  from find_index [OF this] obtain i where i: "i < length rs" "find ?P rs = Some (rs ! i)" "?P (rs ! i)" "\<forall>j < i. \<not> ?P (rs ! j)"
    by (elim exE conjE)
  have "drain_requests timeout rs = Some (if fst (rs ! i) = 0 then Drained else Timed_out (fst (rs ! i)))"
    by (simp add: drain_find i(2) split: prod.split)
  moreover have "(\<exists>k < length rs. fst (rs ! k) = 0 \<and> (\<forall>j < k. snd (rs ! j) \<le> timeout)) \<longleftrightarrow> fst (rs ! i) = 0"
  proof
    assume "\<exists>k < length rs. fst (rs ! k) = 0 \<and> (\<forall>j < k. snd (rs ! j) \<le> timeout)"
    then obtain k where k: "k < length rs" "fst (rs ! k) = 0" "\<forall>j < k. snd (rs ! j) \<le> timeout" by blast
    have "\<not> k < i" using i(4) k(2) by (auto simp: case_prod_beta)
    moreover have "fst (rs ! i) = 0" if "i < k" using i(3) k(3) that by (auto simp: case_prod_beta)
    ultimately show "fst (rs ! i) = 0" using k(2) by (metis nat_neq_iff)
  next
    assume "fst (rs ! i) = 0"
    then show "\<exists>k < length rs. fst (rs ! k) = 0 \<and> (\<forall>j < k. snd (rs ! j) \<le> timeout)"
      using i(1,4) by (auto simp: case_prod_beta not_less intro!: exI [of _ i])
  qed
  ultimately show ?thesis
    using i by (auto simp: case_prod_beta)
qed

theorem drain_ends_witness:
  "drain_requests 150000000 [(2, 0), (1, 100000000), (1, 200000000)] = Some (Timed_out 1)
   \<and> (\<exists>r. drain_requests 150000000 [(2, 0), (1, 100000000), (1, 200000000)] = Some r)"
  using drain_ends [of 150000000 "[(2, 0), (1, 100000000), (1, 200000000)]"]
  by (auto simp: less_Suc_eq numeral_3_eq_3)

section \<open>Degradation follows the last signal\<close>

definition signals :: "(string \<times> bool) list \<Rightarrow> DegradationController \<Rightarrow> DegradationController" where
  "signals xs c = fold (\<lambda>(d, healthy). apply_fallback_strategy d healthy) xs c"

text \<open>A database failure with no sign of health after it.\<close>

definition outage :: "(string \<times> bool) list \<Rightarrow> bool" where
  "outage xs \<longleftrightarrow> (\<exists>before after. xs = before @ (''database'', False) # after \<and> list_all (\<lambda>(_, healthy). \<not> healthy) after)"

lemma outage_snoc: "outage (xs @ [(d, h)]) \<longleftrightarrow> \<not> h \<and> (d = ''database'' \<or> outage xs)"
proof
  assume "outage (xs @ [(d, h)])"
  then obtain before after where *: "xs @ [(d, h)] = before @ (''database'', False) # after" "list_all (\<lambda>(_, healthy). \<not> healthy) after"
    unfolding outage_def by blast
  show "\<not> h \<and> (d = ''database'' \<or> outage xs)"
    using * by (cases after rule: rev_cases) (auto simp: outage_def)
next
  assume R: "\<not> h \<and> (d = ''database'' \<or> outage xs)"
  show "outage (xs @ [(d, h)])"
  proof (cases "d = ''database''")
    case True
    then have "xs @ [(d, h)] = xs @ (''database'', False) # [] \<and> list_all (\<lambda>(_, healthy). \<not> healthy) []"
      using R by simp
    then show ?thesis
      unfolding outage_def by blast
  next
    case False
    then obtain before after where "xs = before @ (''database'', False) # after" "list_all (\<lambda>(_, healthy). \<not> healthy) after"
      using R unfolding outage_def by blast
    then have "xs @ [(d, h)] = before @ (''database'', False) # (after @ [(d, h)]) \<and> list_all (\<lambda>(_, healthy). \<not> healthy) (after @ [(d, h)])"
      using R by simp
    then show ?thesis
      unfolding outage_def by blast
  qed
qed

text \<open>
  The level is that of the last signal alone, while the read-only flag lasts from a database failure
  to the next sign of health of any dependency: the two can disagree, and one healthy dependency
  clears the outage of another.
\<close>

lemma degradation_state:
  "level (signals xs controller_new) =
     (if xs = [] then Normal
      else case last xs of (d, healthy) \<Rightarrow>
        if healthy then Normal else if d = ''database'' then ReadOnly else if d = ''all'' then Unavailable else Degraded)"
  "read_only (signals xs controller_new) \<longleftrightarrow> outage xs"
proof (induction xs rule: rev_induct)
  case Nil
  show "level (signals [] controller_new) = (if [] = [] then Normal
      else case last [] of (d, healthy) \<Rightarrow>
        if healthy then Normal else if d = ''database'' then ReadOnly else if d = ''all'' then Unavailable else Degraded)"
    by (simp add: signals_def controller_new_def)
  show "read_only (signals [] controller_new) \<longleftrightarrow> outage []"
    by (simp add: signals_def controller_new_def outage_def)
next
  case (snoc x xs)
  obtain d h where x: "x = (d, h)" by (cases x)
  have step: "signals (xs @ [x]) controller_new = apply_fallback_strategy d h (signals xs controller_new)"
    by (simp add: signals_def x)
  show "level (signals (xs @ [x]) controller_new) = (if xs @ [x] = [] then Normal
      else case last (xs @ [x]) of (d, healthy) \<Rightarrow>
        if healthy then Normal else if d = ''database'' then ReadOnly else if d = ''all'' then Unavailable else Degraded)"
    unfolding step by (simp add: x apply_fallback_strategy_def record_degradation_metric_def Let_def)
  show "read_only (signals (xs @ [x]) controller_new) \<longleftrightarrow> outage (xs @ [x])"
    unfolding step using snoc.IH(2)
    by (simp add: x outage_snoc apply_fallback_strategy_def record_degradation_metric_def Let_def)
qed

lemma one_healthy_dependency_clears_outage:
  "level (signals [(''database'', False), (''webhook'', True)] controller_new) = Normal
   \<and> \<not> read_only (signals [(''database'', False), (''webhook'', True)] controller_new)"
  by (simp add: signals_def apply_fallback_strategy_def controller_new_def record_degradation_metric_def Let_def)

lemma cached_response_served:
  "serve_cached now key max_age (cache_response t key body c) =
     (if now - t \<le> max_age then Some \<lparr>cached_body = body, cached_at_ms = t\<rparr> else None)"
  "key' \<noteq> key \<Longrightarrow> serve_cached now key' max_age (cache_response t key body c) = serve_cached now key' max_age c"
  by (simp_all add: serve_cached_def cache_response_def)

lemma cache_survives_signals: "serve_cached now key max_age (apply_fallback_strategy d h c) = serve_cached now key max_age c"
  by (simp add: serve_cached_def apply_fallback_strategy_def record_degradation_metric_def Let_def)

end
