(* ===== verification/App_Error.thy ===== *)
theory App_Error
  imports Prelude
begin

text \<open>
  Model of \<open>src/error.rs\<close>: the domain errors, the unified \<open>AppError\<close> with its context wrapper, the map
  to an HTTP status and a machine-readable code, and the problem-details body sent to the client. The
  lemmas show that context changes neither status nor message, and which errors carry internal text out
  of the service. An error of the \<open>sqlx\<close> crate is its SQLSTATE code, when it has one, and its text.
\<close>

section \<open>Domain errors\<close>

record sqlx_error =
  sqlstate :: "string option"
  sqlx_text :: string

datatype DatabaseError =
  QueryFailed sqlx_error | DbTimeout | DbNotFound string | UniqueViolation string | PoolExhausted

datatype IndexerError =
  RpcCallFailed string | LedgerGap u64 u64 | LockNotAcquired | Stalled u64

datatype WebhookError =
  DeliveryFailed u32 string | InvalidEndpoint string | SignatureMismatch

datatype SubscriptionError =
  SubNotFound string | InvalidFilter string | LimitExceeded

datatype AuthError = Unauthenticated | AuthForbidden string | TokenExpired

datatype RpcFailure = Network string | UnexpectedResponse string | RateLimited

record ValidationErrorDetail =
  instance_path :: string
  schema_path :: string
  detail_message :: string

datatype AppError =
  Database sqlx_error
| DatabaseDomain DatabaseError
| Http string
| Rpc RpcFailure
| IndexerE IndexerError
| Webhook WebhookError
| Subscription SubscriptionError
| Auth AuthError
| NotFound
| Validation string
| ValidationWithDetails string "ValidationErrorDetail list"
| Forbidden string
| CallbackUrlNotAllowed string
| Internal string
| WithContext AppError "string option" "string option"

record ErrorContext =
  ctx_operation :: "string option"
  ctx_entity :: "string option"
  ctx_request_id :: "string option"

definition with_context :: "AppError \<Rightarrow> ErrorContext \<Rightarrow> AppError" where
  "with_context e ctx = WithContext e (ctx_operation ctx) (ctx_entity ctx)"

definition with_error_context :: "AppError + 'a \<Rightarrow> ErrorContext \<Rightarrow> AppError + 'a" where
  "with_error_context r ctx = (case r of Inl e \<Rightarrow> Inl (with_context e ctx) | Inr x \<Rightarrow> Inr x)"

definition unauthorized :: AppError where "unauthorized = Auth Unauthenticated"

definition rate_limited :: AppError where "rate_limited = Subscription LimitExceeded"

text \<open>The text of an indexer error, the one domain error whose \<open>Display\<close> is sent out.\<close>

definition IndexerError_display :: "IndexerError \<Rightarrow> string" where
  "IndexerError_display e = (case e of
     RpcCallFailed s \<Rightarrow> ''RPC call failed: '' @ s
   | LedgerGap x g \<Rightarrow> ''Ledger gap detected: expected '' @ show_nat (unat x) @ '', got '' @ show_nat (unat g)
   | LockNotAcquired \<Rightarrow> ''Advisory lock not acquired''
   | Stalled l \<Rightarrow> ''Indexer stalled: last ledger '' @ show_nat (unat l))"

section \<open>Status and code\<close>

definition is_query_timeout_sqlx :: "sqlx_error \<Rightarrow> bool" where
  "is_query_timeout_sqlx e \<longleftrightarrow> sqlstate e = Some ''57014''"

primrec status_and_code :: "AppError \<Rightarrow> nat \<times> string" where
  "status_and_code NotFound = (404, ''NOT_FOUND'')"
| "status_and_code (Validation m) = (400, ''VALIDATION_ERROR'')"
| "status_and_code (ValidationWithDetails m ds) = (400, ''VALIDATION_ERROR'')"
| "status_and_code (Forbidden m) = (403, ''FORBIDDEN'')"
| "status_and_code (CallbackUrlNotAllowed m) = (400, ''CALLBACK_URL_NOT_ALLOWED'')"
| "status_and_code (Auth a) = (case a of Unauthenticated \<Rightarrow> (401, ''UNAUTHORIZED'')
     | TokenExpired \<Rightarrow> (401, ''UNAUTHORIZED'') | AuthForbidden m \<Rightarrow> (403, ''FORBIDDEN''))"
| "status_and_code (Database e) = (if is_query_timeout_sqlx e then (503, ''DATABASE_TIMEOUT'')
     else (500, ''DATABASE_ERROR''))"
| "status_and_code (DatabaseDomain d) = (case d of DbNotFound m \<Rightarrow> (404, ''NOT_FOUND'')
     | DbTimeout \<Rightarrow> (503, ''DATABASE_TIMEOUT'') | UniqueViolation m \<Rightarrow> (409, ''CONFLICT'')
     | PoolExhausted \<Rightarrow> (503, ''DATABASE_POOL_EXHAUSTED'') | QueryFailed e \<Rightarrow> (500, ''DATABASE_ERROR''))"
| "status_and_code (Rpc r) = (if r = RateLimited then (429, ''UPSTREAM_RATE_LIMITED'')
     else (500, ''INTERNAL_ERROR''))"
| "status_and_code (Http m) = (500, ''INTERNAL_ERROR'')"
| "status_and_code (IndexerE i) = (case i of LockNotAcquired \<Rightarrow> (503, ''INDEXER_LOCK_NOT_ACQUIRED'')
     | Stalled l \<Rightarrow> (503, ''INDEXER_STALLED'') | _ \<Rightarrow> (500, ''INDEXER_ERROR''))"
| "status_and_code (Webhook w) = (case w of InvalidEndpoint m \<Rightarrow> (400, ''INVALID_WEBHOOK_ENDPOINT'')
     | SignatureMismatch \<Rightarrow> (401, ''WEBHOOK_SIGNATURE_MISMATCH'') | _ \<Rightarrow> (500, ''WEBHOOK_ERROR''))"
| "status_and_code (Subscription s) = (case s of SubNotFound m \<Rightarrow> (404, ''NOT_FOUND'')
     | InvalidFilter m \<Rightarrow> (400, ''INVALID_SUBSCRIPTION_FILTER'')
     | LimitExceeded \<Rightarrow> (429, ''SUBSCRIPTION_LIMIT_EXCEEDED''))"
| "status_and_code (Internal m) = (500, ''INTERNAL_ERROR'')"
| "status_and_code (WithContext e p q) = status_and_code e"

section \<open>Response body\<close>

primrec inner :: "AppError \<Rightarrow> AppError" where
  "inner (WithContext e p q) = inner e"
| "inner (Database e) = Database e"
| "inner (DatabaseDomain e) = DatabaseDomain e"
| "inner (Http e) = Http e"
| "inner (Rpc e) = Rpc e"
| "inner (IndexerE e) = IndexerE e"
| "inner (Webhook e) = Webhook e"
| "inner (Subscription e) = Subscription e"
| "inner (Auth e) = Auth e"
| "inner NotFound = NotFound"
| "inner (Validation m) = Validation m"
| "inner (ValidationWithDetails m ds) = ValidationWithDetails m ds"
| "inner (Forbidden m) = Forbidden m"
| "inner (CallbackUrlNotAllowed m) = CallbackUrlNotAllowed m"
| "inner (Internal m) = Internal m"

definition INTERNAL_TEXT :: string where "INTERNAL_TEXT = ''internal server error''"

definition message :: "AppError \<Rightarrow> string \<times> ValidationErrorDetail list option" where
  "message e = (case e of
     Validation m \<Rightarrow> (m, None)
   | ValidationWithDetails m ds \<Rightarrow> (m, Some ds)
   | Forbidden m \<Rightarrow> (m, None)
   | CallbackUrlNotAllowed m \<Rightarrow> (m, None)
   | Auth a \<Rightarrow> (case a of AuthForbidden m \<Rightarrow> (m, None) | Unauthenticated \<Rightarrow> (''unauthorized'', None)
       | TokenExpired \<Rightarrow> (''token expired'', None))
   | DatabaseDomain d \<Rightarrow> (case d of DbNotFound m \<Rightarrow> (m, None) | UniqueViolation m \<Rightarrow> (m, None)
       | _ \<Rightarrow> (INTERNAL_TEXT, None))
   | Subscription s \<Rightarrow> (case s of SubNotFound m \<Rightarrow> (m, None) | InvalidFilter m \<Rightarrow> (m, None)
       | LimitExceeded \<Rightarrow> (INTERNAL_TEXT, None))
   | Webhook w \<Rightarrow> (case w of InvalidEndpoint m \<Rightarrow> (m, None) | _ \<Rightarrow> (''webhook error'', None))
   | Database d \<Rightarrow> (if is_query_timeout_sqlx d then (''query timeout'', None) else (INTERNAL_TEXT, None))
   | Http m \<Rightarrow> (INTERNAL_TEXT, None)
   | Rpc r \<Rightarrow> (INTERNAL_TEXT, None)
   | IndexerE i \<Rightarrow> (IndexerError_display i, None)
   | Internal m \<Rightarrow> (INTERNAL_TEXT, None)
   | NotFound \<Rightarrow> (''not found'', None)
   | WithContext e' p q \<Rightarrow> (INTERNAL_TEXT, None))"

record ErrorResponse =
  er_error :: string
  er_code :: string
  er_correlation_id :: string
  er_operation :: "string option"
  er_entity :: "string option"
  er_validation_errors :: "ValidationErrorDetail list option"

text \<open>
  \<open>get_request_id\<close> reads the thread-local identifier and makes a fresh one when it is not set.
\<close>

definition get_request_id :: "string option \<Rightarrow> string \<Rightarrow> string" where
  "get_request_id stored fresh = (case stored of Some r \<Rightarrow> r | None \<Rightarrow> fresh)"

definition build_response :: "string option \<Rightarrow> string \<Rightarrow> AppError \<Rightarrow> nat \<times> ErrorResponse" where
  "build_response stored fresh e =
     (let (st, c) = status_and_code e;
          (oper, ent) = (case e of WithContext e' p q \<Rightarrow> (p, q) | _ \<Rightarrow> (None, None));
          (msg, details) = message (inner e)
      in (st, \<lparr>er_error = msg, er_code = c, er_correlation_id = get_request_id stored fresh,
               er_operation = oper, er_entity = ent, er_validation_errors = details\<rparr>))"

definition PROBLEM_TYPE_BASE_URI :: string where
  "PROBLEM_TYPE_BASE_URI = ''https://sorobanpulse.dev/errors/''"

definition type_uri_for_code :: "string \<Rightarrow> string" where
  "type_uri_for_code c = PROBLEM_TYPE_BASE_URI @ to_ascii_lowercase c"

text \<open>
  The codes are ASCII, so \<open>char::to_uppercase\<close> on the first letter of a word is its ASCII upper case.
\<close>

definition ascii_upper :: "char \<Rightarrow> char" where
  "ascii_upper c = (if 97 \<le> (of_char c :: nat) \<and> (of_char c :: nat) \<le> 122
                    then char_of ((of_char c :: nat) - 32) else c)"

fun title_word :: "string \<Rightarrow> string" where
  "title_word [] = []"
| "title_word (c # cs) = ascii_upper c # to_ascii_lowercase cs"

definition title_for_code :: "string \<Rightarrow> string" where
  "title_for_code c = join '' '' (map title_word (filter (\<lambda>w. w \<noteq> []) (split_on (CHR ''_'') c)))"

record ProblemDetail =
  type_uri :: string
  title :: string
  pd_status :: nat
  pd_detail :: "string option"
  pd_instance :: "string option"
  pd_correlation_id :: "string option"
  pd_validation_errors :: "ValidationErrorDetail list option"

definition to_problem_detail :: "string option \<Rightarrow> string \<Rightarrow> AppError \<Rightarrow> string option \<Rightarrow> ProblemDetail" where
  "to_problem_detail stored fresh e path =
     (let (st, c) = status_and_code e; body = snd (build_response stored fresh e)
      in \<lparr>type_uri = type_uri_for_code c, title = title_for_code c, pd_status = st,
          pd_detail = Some (er_error body), pd_instance = path,
          pd_correlation_id = Some (er_correlation_id body),
          pd_validation_errors = er_validation_errors body\<rparr>)"

definition into_response :: "string option \<Rightarrow> string \<Rightarrow> AppError \<Rightarrow> nat \<times> string \<times> ProblemDetail" where
  "into_response stored fresh e =
     (fst (status_and_code e), ''application/problem+json'', to_problem_detail stored fresh e None)"

section \<open>Properties\<close>

lemma inner_no_context [simp]: "inner e \<noteq> WithContext e' p q"
  by (induction e) simp_all

lemma status_inner: "status_and_code (inner e) = status_and_code e"
  by (induction e) simp_all

lemma inner_inner [simp]: "inner (inner e) = inner e"
  by (induction e) simp_all

text \<open>The status and the code of a response depend on each other the same way everywhere.\<close>

lemma status_cases: "fst (status_and_code e) \<in> {400, 401, 403, 404, 409, 429, 500, 503}"
  by (induction e) (simp_all split: AuthError.split DatabaseError.split IndexerError.split
      WebhookError.split SubscriptionError.split)

text \<open>
  Context is transparent: whatever context is attached, any number of times, the status line, the media
  type and the whole body sent to the client are those of the error itself. The operation and the
  entity stay in the log record, and only those of the outermost context.
\<close>

fun in_contexts :: "ErrorContext list \<Rightarrow> AppError \<Rightarrow> AppError" where
  "in_contexts [] e = e"
| "in_contexts (c # cs) e = with_context (in_contexts cs e) c"

lemma inner_in_contexts [simp]: "inner (in_contexts cs e) = inner e"
  by (induction cs) (simp_all add: with_context_def)

lemma status_in_contexts [simp]: "status_and_code (in_contexts cs e) = status_and_code e"
  by (induction cs) (simp_all add: with_context_def)

lemma problem_by_inner:
  "to_problem_detail stored fresh e path =
     \<lparr>type_uri = type_uri_for_code (snd (status_and_code e)), title = title_for_code (snd (status_and_code e)),
      pd_status = fst (status_and_code e), pd_detail = Some (fst (message (inner e))), pd_instance = path,
      pd_correlation_id = Some (get_request_id stored fresh),
      pd_validation_errors = snd (message (inner e))\<rparr>"
  by (simp add: to_problem_detail_def build_response_def Let_def split: prod.split)

theorem context_transparent:
  "into_response stored fresh (in_contexts cs e) = into_response stored fresh e \<and>
   er_operation (snd (build_response stored fresh (in_contexts (c # cs) e))) = ctx_operation c"
  by (simp add: into_response_def problem_by_inner build_response_def with_context_def Let_def
      split: prod.split)

text \<open>
  What a client can learn from a failure. The text of the body of a server-side failure (status 500 or
  503) is one of three fixed texts, so that no database, network or internal text leaves the service,
  unless the error is an indexer error, whose whole text is sent, the text of the failed RPC call included.
\<close>

definition fixed_texts :: "string list" where
  "fixed_texts = [INTERNAL_TEXT, ''query timeout'', ''webhook error'']"

theorem server_error_text:
  "let body = to_problem_detail stored fresh e path; base = inner e in
     (case base of
        IndexerE i \<Rightarrow> pd_detail body = Some (IndexerError_display i)
      | _ \<Rightarrow> if 500 \<le> pd_status body then pd_detail body \<in> Some ` set fixed_texts \<and> pd_validation_errors body = None
            else True)"
proof -
  have "status_and_code e = status_and_code (inner e)"
    by (simp add: status_inner)
  then show ?thesis
    by (cases "inner e") (simp_all add: problem_by_inner message_def fixed_texts_def Let_def
        split: AuthError.split DatabaseError.split WebhookError.split SubscriptionError.split)
qed

text \<open>
  The text does not always fit the status: a subscriber over its limit gets status 429 with the text of
  an internal failure, and a rejected webhook signature status 401 with the text of a delivery failure.
\<close>

lemma limit_reported_as_internal:
  "pd_status (to_problem_detail stored fresh rate_limited path) = 429 \<and>
   pd_detail (to_problem_detail stored fresh rate_limited path) = Some ''internal server error'' \<and>
   pd_status (to_problem_detail stored fresh (Webhook SignatureMismatch) path) = 401 \<and>
   pd_detail (to_problem_detail stored fresh (Webhook SignatureMismatch) path) = Some ''webhook error''"
  by (simp add: problem_by_inner rate_limited_def message_def INTERNAL_TEXT_def)

text \<open>The title of a code: its words capitalised.\<close>

lemma title_examples:
  "title_for_code ''VALIDATION_ERROR'' = ''Validation Error'' \<and> title_for_code ''NOT_FOUND'' = ''Not Found''"
  by code_simp

end
