(* ===== verification/Keyset_Paging.thy ===== *)
theory Keyset_Paging
  imports App_Error Event_Model "HOL-Library.Multiset"
begin

text \<open>
  Keyset pagination as the list endpoints use it: the opaque cursors of \<open>src/handlers/mod.rs\<close>
  (\<open>encode_cursor\<close>, \<open>decode_cursor\<close> and their tagged forms), the plain cursors of \<open>src/token_events.rs\<close>,
  \<open>src/sep41.rs\<close> and \<open>src/account_events.rs\<close>, and the two ways a handler decides whether there is a next
  page. The locale \<open>keyset\<close> is the contract between a query that starts after a key and the handler
  that hands out cursors; its lemmas show that following them returns every row once. A UUID is its
  128-bit number, whose order is the order of its bytes.
\<close>

section \<open>Signed integers as text\<close>

definition parse_signed :: "int \<Rightarrow> string \<Rightarrow> int option" where
  "parse_signed bound s =
     (let (neg, ds) = (case s of [] \<Rightarrow> (False, [])
                       | c # cs \<Rightarrow> if c = CHR ''+'' then (False, cs)
                                   else if c = CHR ''-'' then (True, cs) else (False, s))
      in if ds = [] then None
         else case digits_value 10 0 ds of None \<Rightarrow> None
              | Some n \<Rightarrow> let v = (if neg then - int n else int n)
                          in if - bound \<le> v \<and> v < bound then Some v else None)"

definition parse_i64 :: "string \<Rightarrow> i64 option" where
  "parse_i64 s = parse_signed (2 ^ 63) s"

definition parse_i128 :: "string \<Rightarrow> int option" where
  "parse_i128 s = parse_signed (2 ^ 127) s"

definition show_int :: "int \<Rightarrow> string" where
  "show_int i = (if i < 0 then CHR ''-'' # show_nat (nat (- i)) else show_nat (nat i))"

lemma parse_signed_bound: "parse_signed b s = Some v \<Longrightarrow> - b \<le> v \<and> v < b"
  by (auto simp: parse_signed_def Let_def split: option.splits if_splits list.splits)

lemma show_nat_first: "\<exists>c cs. show_nat n = c # cs \<and> is_ascii_digit c \<and> c \<noteq> CHR ''+'' \<and> c \<noteq> CHR ''-''"
proof (cases "show_nat n")
  case Nil then show ?thesis by simp
next
  case (Cons c cs)
  then have "is_ascii_digit c" using show_nat_digits [of c n] by simp
  with Cons show ?thesis using digit_not_sign by blast
qed

lemma parse_signed_show_int:
  assumes "- b \<le> v" "v < b" shows "parse_signed b (show_int v) = Some v"
proof -
  obtain c cs where c: "show_nat (nat v) = c # cs" "c \<noteq> CHR ''+''" "c \<noteq> CHR ''-''"
    using show_nat_first by blast
  have "digits_value 10 0 (c # cs) = Some (nat v)"
    using digits_value_show_nat [of "nat v"] c(1) by metis
  with c assms show ?thesis
    by (cases "v < 0") (simp_all add: parse_signed_def show_int_def digits_value_show_nat Let_def
        del: digits_value.simps)
qed

lemma parse_i64_show [simp]: "in_i64 v \<Longrightarrow> parse_i64 (show_int v) = Some v"
  unfolding parse_i64_def by (rule parse_signed_show_int) (auto simp: in_i64_def i64_min_def i64_max_def)

lemma show_int_chars: "c \<in> set (show_int v) \<Longrightarrow> is_ascii_digit c \<or> c = CHR ''-''"
  by (auto simp: show_int_def dest: show_nat_digits split: if_splits)

lemma colon_not_in_show_int [simp]: "CHR '':'' \<notin> set (show_int v)"
proof
  assume "CHR '':'' \<in> set (show_int v)"
  from show_int_chars [OF this] show False by (auto simp: is_ascii_digit_def)
qed

section \<open>UTF-8\<close>

text \<open>\<open>std::str::from_utf8\<close>: the byte sequences of the Unicode standard's table of well-formed UTF-8.\<close>

definition byte_in :: "nat \<Rightarrow> nat \<Rightarrow> char \<Rightarrow> bool" where
  "byte_in lo hi c \<longleftrightarrow> lo \<le> (of_char c :: nat) \<and> (of_char c :: nat) \<le> hi"

fun from_utf8 :: "string \<Rightarrow> bool" where
  "from_utf8 [] = True"
| "from_utf8 (a # s) =
     (if byte_in 0 0x7F a then from_utf8 s
      else if byte_in 0xC2 0xDF a then (case s of b # s' \<Rightarrow> byte_in 0x80 0xBF b \<and> from_utf8 s' | [] \<Rightarrow> False)
      else if byte_in 0xE0 0xEF a then
        (case s of b # c # s' \<Rightarrow>
           byte_in (if byte_in 0xE0 0xE0 a then 0xA0 else 0x80) (if byte_in 0xED 0xED a then 0x9F else 0xBF) b
           \<and> byte_in 0x80 0xBF c \<and> from_utf8 s' | _ \<Rightarrow> False)
      else if byte_in 0xF0 0xF4 a then
        (case s of b # c # d # s' \<Rightarrow>
           byte_in (if byte_in 0xF0 0xF0 a then 0x90 else 0x80) (if byte_in 0xF4 0xF4 a then 0x8F else 0xBF) b
           \<and> byte_in 0x80 0xBF c \<and> byte_in 0x80 0xBF d \<and> from_utf8 s' | _ \<Rightarrow> False)
      else False)"

definition ascii :: "string \<Rightarrow> bool" where "ascii s \<longleftrightarrow> list_all (byte_in 0 0x7F) s"

lemma from_utf8_ascii: "ascii s \<Longrightarrow> from_utf8 s"
  by (induction s) (simp_all add: ascii_def)

lemma ascii_append [simp]: "ascii (a @ b) \<longleftrightarrow> ascii a \<and> ascii b"
  by (simp add: ascii_def)

lemma ascii_show_int [simp]: "ascii (show_int v)"
  unfolding ascii_def list_all_iff
proof
  fix c assume "c \<in> set (show_int v)"
  from show_int_chars [OF this] show "byte_in 0 0x7F c" by (auto simp: is_ascii_digit_def byte_in_def)
qed

section \<open>Cursors\<close>

text \<open>The \<open>base64\<close> engine and the \<open>uuid\<close> crate.\<close>

record cursor_codec =
  b64_encode :: "string \<Rightarrow> string"
  b64_decode :: "string \<Rightarrow> string option"
  show_uuid :: "nat \<Rightarrow> string"
  parse_uuid :: "string \<Rightarrow> nat option"
  random_version :: "nat \<Rightarrow> bool"

text \<open>
  What is used of them: decoding inverts encoding, parsing inverts printing, a printed UUID is ASCII
  without a colon, and the parser accepts no text longer than the longest of its documented forms, the
  45 bytes of the URN.
\<close>

definition codec_laws :: "cursor_codec \<Rightarrow> bool" where
  "codec_laws K \<longleftrightarrow> (\<forall>s. b64_decode K (b64_encode K s) = Some s) \<and>
     (\<forall>u. (u < 2 ^ 128 \<longrightarrow> parse_uuid K (show_uuid K u) = Some u) \<and> ascii (show_uuid K u)
          \<and> CHR '':'' \<notin> set (show_uuid K u)) \<and>
     (\<forall>s. 45 < length s \<longrightarrow> parse_uuid K s = None)"

definition INVALID_CURSOR :: AppError where "INVALID_CURSOR = Validation ''invalid cursor''"

definition encode_cursor_tagged :: "cursor_codec \<Rightarrow> string \<Rightarrow> string \<Rightarrow> nat \<Rightarrow> string" where
  "encode_cursor_tagged K tag v u = b64_encode K (tag @ '':'' @ v @ '':'' @ show_uuid K u)"

text \<open>\<open>s.splitn(3, ':')\<close>.\<close>

definition splitn3 :: "string \<Rightarrow> string list" where
  "splitn3 s = (case split_once (CHR '':'') s of None \<Rightarrow> [s]
     | Some (a, r) \<Rightarrow> (case split_once (CHR '':'') r of None \<Rightarrow> [a, r] | Some (b, c) \<Rightarrow> [a, b, c]))"

definition decode_cursor_tagged :: "cursor_codec \<Rightarrow> string \<Rightarrow> AppError + string \<times> string \<times> nat" where
  "decode_cursor_tagged K cur =
     (case b64_decode K cur of None \<Rightarrow> Inl INVALID_CURSOR
      | Some s \<Rightarrow> if \<not> from_utf8 s then Inl INVALID_CURSOR
        else (case splitn3 s of
            [tag, v, i] \<Rightarrow> (case parse_uuid K i of None \<Rightarrow> Inl INVALID_CURSOR
               | Some u \<Rightarrow> if \<not> random_version K u then Inl INVALID_CURSOR else Inr (tag, v, u))
          | _ \<Rightarrow> Inl (Validation ''invalid cursor format'')))"

definition encode_cursor :: "cursor_codec \<Rightarrow> i64 \<Rightarrow> nat \<Rightarrow> string" where
  "encode_cursor K l u = b64_encode K (show_int l @ '':'' @ show_uuid K u)"

definition decode_cursor :: "cursor_codec \<Rightarrow> string \<Rightarrow> AppError + i64 \<times> nat" where
  "decode_cursor K cur =
     (case b64_decode K cur of None \<Rightarrow> Inl INVALID_CURSOR
      | Some s \<Rightarrow> if \<not> from_utf8 s then Inl INVALID_CURSOR
        else (case split_once (CHR '':'') s of None \<Rightarrow> Inl INVALID_CURSOR
          | Some (ls, i) \<Rightarrow>
              (case parse_i64 ls of None \<Rightarrow> Inl INVALID_CURSOR
               | Some l \<Rightarrow>
                   if l \<le> 0 then Inl INVALID_CURSOR
                   else if l > 4294967295 then Inl INVALID_CURSOR
                   else (case parse_uuid K i of None \<Rightarrow> Inl INVALID_CURSOR
                      | Some u \<Rightarrow> if \<not> random_version K u then Inl INVALID_CURSOR else Inr (l, u)))))"

text \<open>The plain cursors \<open>ledger:id\<close> of the token, SEP-41 and account endpoints.\<close>

definition plain_cursor :: "cursor_codec \<Rightarrow> i64 \<times> nat \<Rightarrow> string" where
  "plain_cursor K k = show_int (fst k) @ '':'' @ show_uuid K (snd k)"

definition parse_cursor :: "cursor_codec \<Rightarrow> string \<Rightarrow> AppError + i64 \<times> nat" where
  "parse_cursor K c =
     (case split_once (CHR '':'') c of None \<Rightarrow> Inl INVALID_CURSOR
      | Some (ls, i) \<Rightarrow> (case parse_i64 ls of None \<Rightarrow> Inl INVALID_CURSOR
         | Some l \<Rightarrow> (case parse_uuid K i of None \<Rightarrow> Inl INVALID_CURSOR | Some u \<Rightarrow> Inr (l, u))))"

lemma splitn3_simp: "CHR '':'' \<notin> set a \<Longrightarrow> splitn3 (a @ '':'' @ r) =
    (case split_once (CHR '':'') r of None \<Rightarrow> [a, r] | Some (b, c) \<Rightarrow> [a, b, c])"
  using split_once_Some [of "CHR '':''" "a @ '':'' @ r" a r] by (simp add: splitn3_def)

lemma split_once_app: "c \<notin> set a \<Longrightarrow> split_once c (a @ [c] @ b) = Some (a, b)"
  by (simp add: split_once_Some)

lemma parse_cursor_plain:
  "codec_laws K \<Longrightarrow> in_i64 (fst k) \<Longrightarrow> snd k < 2 ^ 128 \<Longrightarrow> parse_cursor K (plain_cursor K k) = Inr k"
  by (cases k) (simp add: codec_laws_def parse_cursor_def plain_cursor_def split_once_app [simplified])

lemma decode_cursor_encode:
  assumes "codec_laws K" "0 < l" "l \<le> 4294967295" "random_version K u" "u < 2 ^ 128"
  shows "decode_cursor K (encode_cursor K l u) = Inr (l, u)"
proof -
  have "from_utf8 (show_int l @ CHR '':'' # show_uuid K u)"
    using assms(1) ascii_show_int [of l] by (intro from_utf8_ascii) (auto simp: codec_laws_def ascii_def byte_in_def)
  moreover have "in_i64 l" using assms by (simp add: in_i64_def i64_min_def i64_max_def)
  ultimately show ?thesis
    using assms by (simp add: codec_laws_def decode_cursor_def encode_cursor_def split_once_app [simplified])
qed

text \<open>
  A tagged cursor is decoded to what was encoded when the value has no colon, as the ledger cursors
  have none.
\<close>

lemma decode_cursor_tagged_encode:
  assumes "codec_laws K" "ascii tag" "ascii v" "CHR '':'' \<notin> set tag" "CHR '':'' \<notin> set v" "random_version K u" "u < 2 ^ 128"
  shows "decode_cursor_tagged K (encode_cursor_tagged K tag v u) = Inr (tag, v, u)"
proof -
  have "from_utf8 (tag @ CHR '':'' # v @ CHR '':'' # show_uuid K u)"
    using assms by (intro from_utf8_ascii) (auto simp: codec_laws_def ascii_def byte_in_def)
  moreover have "splitn3 (tag @ CHR '':'' # v @ CHR '':'' # show_uuid K u) = [tag, v, show_uuid K u]"
    using assms splitn3_simp [of tag "v @ CHR '':'' # show_uuid K u"]
    by (simp add: split_once_app [simplified])
  ultimately show ?thesis
    using assms by (simp add: codec_laws_def decode_cursor_tagged_def encode_cursor_tagged_def)
qed

text \<open>
  A value with colons is cut at the first of them; the rest of it is then taken for a part of the
  UUID, which it makes too long.
\<close>

lemma decode_cursor_tagged_colons:
  assumes K: "codec_laws K" and "CHR '':'' \<notin> set tag" "CHR '':'' \<notin> set d" and long: "length r + length (show_uuid K u) \<ge> 45"
  shows "decode_cursor_tagged K (encode_cursor_tagged K tag (d @ '':'' @ r) u) = Inl INVALID_CURSOR"
proof -
  have "parse_uuid K (r @ CHR '':'' # show_uuid K u) = None"
    using K long by (simp add: codec_laws_def)
  moreover have "splitn3 (tag @ CHR '':'' # d @ CHR '':'' # r @ CHR '':'' # show_uuid K u)
      = [tag, d, r @ CHR '':'' # show_uuid K u]"
    using assms splitn3_simp [of tag "d @ CHR '':'' # r @ CHR '':'' # show_uuid K u"]
    by (simp add: split_once_app [simplified])
  ultimately show ?thesis
    using K by (simp add: codec_laws_def decode_cursor_tagged_def encode_cursor_tagged_def)
qed

text \<open>A codec that satisfies the laws, used to evaluate the definitions on examples.\<close>

definition sample_codec :: cursor_codec where
  "sample_codec = \<lparr>b64_encode = (\<lambda>s. s), b64_decode = Some, show_uuid = show_nat,
     parse_uuid = (\<lambda>s. if 45 < length s then None else digits_value 10 0 s), random_version = (\<lambda>u. True)\<rparr>"

lemma length_show_nat: "n < 10 ^ Suc k \<Longrightarrow> length (show_nat n) \<le> Suc k"
proof (induction k arbitrary: n)
  case (Suc k)
  then have "n div 10 < 10 ^ Suc k" by (simp add: less_mult_imp_div_less)
  with Suc.IH have "length (show_nat (n div 10)) \<le> Suc k" by blast
  then show ?case by (subst show_nat.simps) simp
qed (simp add: show_nat.simps)

lemma sample_codec_laws: "codec_laws sample_codec"
proof -
  have "length (show_nat u) \<le> 39" if "u < 2 ^ 128" for u
    using length_show_nat [of u 38] that by simp
  moreover have "CHR '':'' \<notin> set (show_nat u) \<and> ascii (show_nat u)" for u
    using colon_not_in_show_int [of "int u"] ascii_show_int [of "int u"] by (simp add: show_int_def)
  ultimately show ?thesis
    by (fastforce simp: codec_laws_def sample_codec_def digits_value_show_nat)
qed

section \<open>Pages\<close>

text \<open>
  The page of a handler, given the decoding of its cursor text, the query and the key of a row.
  \<open>probe_page\<close> asks for one row more than it returns and hands out a cursor when it got it;
  \<open>full_page\<close> hands one out when the page is full.
\<close>

definition probe_page ::
  "('c \<Rightarrow> 'e + 'k) \<Rightarrow> ('k \<Rightarrow> 'c) \<Rightarrow> ('k option \<Rightarrow> nat \<Rightarrow> 'r list) \<Rightarrow> ('r \<Rightarrow> 'k) \<Rightarrow> nat \<Rightarrow> 'c option \<Rightarrow>
   'e + 'r list \<times> 'c option" where
  "probe_page dec enc fetch key sz cur =
     (case (case cur of None \<Rightarrow> Inr None | Some c \<Rightarrow> (case dec c of Inl e \<Rightarrow> Inl e | Inr k \<Rightarrow> Inr (Some k))) of
        Inl e \<Rightarrow> Inl e
      | Inr after \<Rightarrow>
          let rows = fetch after (sz + 1); has_more = sz < length rows; items = take sz rows;
              next_key = (if items = [] then None else Some (enc (key (last items))))
          in Inr (items, if has_more then next_key else None))"

definition full_page ::
  "('c \<Rightarrow> 'e + 'k) \<Rightarrow> ('k \<Rightarrow> 'c) \<Rightarrow> ('k option \<Rightarrow> nat \<Rightarrow> 'r list) \<Rightarrow> ('r \<Rightarrow> 'k) \<Rightarrow> nat \<Rightarrow> 'c option \<Rightarrow>
   'e + 'r list \<times> 'c option" where
  "full_page dec enc fetch key sz cur =
     (case (case cur of None \<Rightarrow> Inr None | Some c \<Rightarrow> (case dec c of Inl e \<Rightarrow> Inl e | Inr k \<Rightarrow> Inr (Some k))) of
        Inl e \<Rightarrow> Inl e
      | Inr after \<Rightarrow>
          let rows = fetch after sz
          in Inr (rows, if length rows = sz \<and> rows \<noteq> [] then Some (enc (key (last rows))) else None))"

text \<open>
  A client that follows the cursors until there is none, with fuel for its requests; an error or the
  end of the fuel is no result.
\<close>

fun follow :: "nat \<Rightarrow> ('c option \<Rightarrow> 'e + 'r list \<times> 'c option) \<Rightarrow> 'c option \<Rightarrow> 'r list list option" where
  "follow 0 page cur = None"
| "follow (Suc n) page cur =
     (case page cur of
        Inl e \<Rightarrow> None
      | Inr (rows, None) \<Rightarrow> Some [rows]
      | Inr (rows, Some c) \<Rightarrow> map_option (\<lambda>ps. rows # ps) (follow n page (Some c)))"

text \<open>\<open>ORDER BY ledger DESC, id DESC\<close> and the row comparison \<open>(ledger, id) < (l, i)\<close>.\<close>

definition key_less :: "int \<times> nat \<Rightarrow> int \<times> nat \<Rightarrow> bool" where
  "key_less a b \<longleftrightarrow> fst a < fst b \<or> fst a = fst b \<and> snd a < snd b"

lemma key_less_asym: "key_less a b \<Longrightarrow> \<not> key_less b a"
  by (auto simp: key_less_def)

lemma key_less_trans: "key_less a b \<Longrightarrow> key_less b c \<Longrightarrow> key_less a c"
  by (auto simp: key_less_def)

lemma key_less_total: "\<not> key_less a b \<Longrightarrow> \<not> key_less b a \<Longrightarrow> a = b"
  by (auto simp: key_less_def prod_eq_iff)

fun insert_by :: "('r \<Rightarrow> 'r \<Rightarrow> bool) \<Rightarrow> 'r \<Rightarrow> 'r list \<Rightarrow> 'r list" where
  "insert_by first x [] = [x]"
| "insert_by first x (y # ys) = (if first y x then y # insert_by first x ys else x # y # ys)"

definition order_by :: "('r \<Rightarrow> 'r \<Rightarrow> bool) \<Rightarrow> 'r list \<Rightarrow> 'r list" where
  "order_by first rows = foldr (insert_by first) rows []"

lemma mset_insert_by [simp]: "mset (insert_by f x ys) = add_mset x (mset ys)"
  by (induction ys) auto

lemma mset_order_by [simp]: "mset (order_by f rows) = mset rows"
  by (induction rows) (simp_all add: order_by_def)

lemma set_order_by [simp]: "set (order_by f rows) = set rows"
  by (metis mset_order_by set_mset_mset)

lemma sorted_insert_by:
  assumes tr: "\<And>a b c. f a b \<Longrightarrow> f b c \<Longrightarrow> f a c" and tot: "\<And>y. y \<in> set ys \<Longrightarrow> \<not> f y x \<Longrightarrow> f x y"
    and "sorted_wrt f ys"
  shows "sorted_wrt f (insert_by f x ys)"
  using assms(2,3)
proof (induction ys)
  case (Cons y ys)
  have "set (insert_by f x ys) = insert x (set ys)"
    by (metis mset_insert_by set_mset_mset set_mset_add_mset_insert)
  with Cons show ?case by (auto intro: tr)
qed simp

lemma sorted_order_by:
  assumes tr: "\<And>a b c. f a b \<Longrightarrow> f b c \<Longrightarrow> f a c"
    and tot: "\<And>a b. a \<in> set rows \<Longrightarrow> b \<in> set rows \<Longrightarrow> a \<noteq> b \<Longrightarrow> \<not> f a b \<Longrightarrow> f b a" and "distinct rows"
  shows "sorted_wrt f (order_by f rows)"
  using assms(2,3)
proof (induction rows)
  case (Cons x rows)
  let ?s = "foldr (insert_by f) rows []"
  have set: "set ?s = set rows"
    using set_order_by [of f rows] by (simp add: order_by_def)
  have srt: "sorted_wrt f ?s"
    using Cons.IH Cons.prems by (simp add: order_by_def)
  have pos: "f x y" if "y \<in> set ?s" "\<not> f y x" for y
  proof (rule Cons.prems(1))
    show "y \<noteq> x" "y \<in> set (x # rows)" using that(1) Cons.prems(2) set by auto
  qed (use that in auto)
  have "sorted_wrt f (insert_by f x ?s)"
    by (rule sorted_insert_by [OF tr pos srt])
  then show ?case by (simp add: order_by_def)
qed (simp add: order_by_def)

lemma sorted_wrt_unique:
  assumes asym: "\<And>a b. f a b \<Longrightarrow> \<not> f b a" and "sorted_wrt f xs" "sorted_wrt f ys" "mset xs = mset ys"
  shows "xs = ys"
  using assms(2-4)
proof (induction xs arbitrary: ys)
  case (Cons x xs)
  then obtain y ys' where ys: "ys = y # ys'" by (cases ys) auto
  have "x = y"
  proof (rule ccontr)
    assume ne: "x \<noteq> y"
    have "x \<in> set ys" "y \<in> set (x # xs)"
      using Cons.prems(3) ys by (metis list.set_intros(1) set_mset_mset)+
    then have "x \<in> set ys'" "y \<in> set xs" using ne ys by auto
    then have "f y x" "f x y" using Cons.prems(1,2) ys by auto
    then show False using asym by blast
  qed
  then show ?case using Cons ys by auto
qed simp

text \<open>Selecting commutes with ordering, and orders that agree on the rows give the same list.\<close>

lemma order_by_filter:
  assumes tr: "\<And>a b c. f a b \<Longrightarrow> f b c \<Longrightarrow> f a c" and asym: "\<And>a b. f a b \<Longrightarrow> \<not> f b a"
    and tot: "\<And>a b. a \<in> set rows \<Longrightarrow> b \<in> set rows \<Longrightarrow> a \<noteq> b \<Longrightarrow> \<not> f a b \<Longrightarrow> f b a" and "distinct rows"
  shows "order_by f (filter P rows) = filter P (order_by f rows)"
proof (rule sorted_wrt_unique [OF asym])
  show "sorted_wrt f (order_by f (filter P rows))"
    by (rule sorted_order_by) (fact tr, simp add: tot, simp add: assms(4))
  have "sorted_wrt f (order_by f rows)"
    by (rule sorted_order_by) (fact tr, simp add: tot, simp add: assms(4))
  then show "sorted_wrt f (filter P (order_by f rows))"
    by (rule sorted_wrt_filter)
qed simp_all

lemma order_by_cong:
  assumes "\<And>a b. a \<in> set rows \<Longrightarrow> b \<in> set rows \<Longrightarrow> f a b = g a b"
  shows "order_by f rows = order_by g rows"
  using assms
proof (induction rows)
  case (Cons x rows)
  let ?s = "foldr (insert_by f) rows []"
  have "?s = foldr (insert_by g) rows []" using Cons by (simp add: order_by_def)
  moreover have "set ?s = set rows" using set_order_by [of f rows] by (simp add: order_by_def)
  moreover have "insert_by f x ys = insert_by g x ys" if "set ys \<subseteq> set (x # rows)" for ys
    using that Cons.prems by (induction ys) auto
  then have "insert_by f x ?s = insert_by g x ?s"
    using set_order_by [of f rows] by (auto simp: order_by_def)
  ultimately show ?case by (simp add: order_by_def)
qed (simp add: order_by_def)

text \<open>
  A query that starts after a key: the rows that pass a filter, in the order of a key with distinct values.
\<close>

definition key_before :: "SortOrder \<Rightarrow> int \<times> nat \<Rightarrow> int \<times> nat \<Rightarrow> bool" where
  "key_before d a b = (if d = Asc then key_less a b else key_less b a)"

lemma key_before_asym: "key_before d a b \<Longrightarrow> \<not> key_before d b a"
  by (auto simp: key_before_def dest: key_less_asym)

lemma key_before_trans: "key_before d a b \<Longrightarrow> key_before d b c \<Longrightarrow> key_before d a c"
  by (cases d) (auto simp: key_before_def intro: key_less_trans)

lemma key_before_total: "a \<noteq> b \<Longrightarrow> \<not> key_before d a b \<Longrightarrow> key_before d b a"
  by (cases d) (auto simp: key_before_def dest: key_less_total)

definition key_order :: "('r \<Rightarrow> int \<times> nat) \<Rightarrow> SortOrder \<Rightarrow> 'r \<Rightarrow> 'r \<Rightarrow> bool" where
  "key_order key d r s = key_before d (key r) (key s)"

definition key_rows :: "('r \<Rightarrow> int \<times> nat) \<Rightarrow> SortOrder \<Rightarrow> ('r \<Rightarrow> bool) \<Rightarrow> 'r list \<Rightarrow> 'r list" where
  "key_rows key d F tbl = order_by (key_order key d) (filter F tbl)"

definition key_fetch ::
  "('r \<Rightarrow> int \<times> nat) \<Rightarrow> SortOrder \<Rightarrow> ('r \<Rightarrow> bool) \<Rightarrow> 'r list \<Rightarrow> (int \<times> nat) option \<Rightarrow> nat \<Rightarrow> 'r list" where
  "key_fetch key d F tbl cur n = take n (order_by (key_order key d)
     (filter (\<lambda>r. (case cur of None \<Rightarrow> True | Some k \<Rightarrow> key_before d k (key r)) \<and> F r) tbl))"

lemma set_key_rows [simp]: "set (key_rows key d F tbl) = {r \<in> set tbl. F r}"
  by (simp add: key_rows_def)

lemma key_order_total:
  "distinct (map key tbl) \<Longrightarrow> a \<in> set tbl \<Longrightarrow> b \<in> set tbl \<Longrightarrow> a \<noteq> b \<Longrightarrow> \<not> key_order key d a b \<Longrightarrow> key_order key d b a"
  unfolding key_order_def by (rule key_before_total) (auto simp: distinct_map dest: inj_onD)

lemma key_fetch_rows:
  assumes "distinct (map key tbl)"
  shows "key_fetch key d F tbl cur n =
    take n (filter (\<lambda>r. case cur of None \<Rightarrow> True | Some k \<Rightarrow> key_before d k (key r)) (key_rows key d F tbl))"
proof -
  have "filter (\<lambda>r. (case cur of None \<Rightarrow> True | Some k \<Rightarrow> key_before d k (key r)) \<and> F r) tbl
      = filter (\<lambda>r. case cur of None \<Rightarrow> True | Some k \<Rightarrow> key_before d k (key r)) (filter F tbl)"
    by (cases cur) (auto intro: filter_cong)
  moreover have "order_by (key_order key d) (filter P (filter F tbl)) = filter P (order_by (key_order key d) (filter F tbl))" for P
  proof (rule order_by_filter)
    show "\<And>a b c. key_order key d a b \<Longrightarrow> key_order key d b c \<Longrightarrow> key_order key d a c"
      unfolding key_order_def by (rule key_before_trans)
    show "\<And>a b. key_order key d a b \<Longrightarrow> \<not> key_order key d b a"
      unfolding key_order_def by (rule key_before_asym)
    show "distinct (filter F tbl)" using assms by (simp add: distinct_map)
  qed (auto intro: key_order_total [OF assms])
  ultimately show ?thesis by (simp add: key_fetch_def key_rows_def)
qed

lemma key_rows_sorted:
  assumes "distinct (map key tbl)"
  shows "sorted_wrt (\<lambda>a b. key_before d (key a) (key b)) (key_rows key d F tbl)"
  unfolding key_rows_def key_order_def [symmetric]
proof (rule sorted_order_by)
  show "\<And>a b c. key_order key d a b \<Longrightarrow> key_order key d b c \<Longrightarrow> key_order key d a c"
    unfolding key_order_def by (rule key_before_trans)
  show "distinct (filter F tbl)" using assms by (simp add: distinct_map)
qed (auto intro: key_order_total [OF assms])

text \<open>Rendering the rows of the pages is rendering the pages.\<close>

lemma follow_map:
  "follow n (\<lambda>c. map_sum g (\<lambda>(rows, nxt). (map f rows, nxt)) (page c)) cur =
     map_option (map (map f)) (follow n page cur)"
  by (induction n arbitrary: cur)
    (simp_all split: sum.split option.split prod.split add: option.map_comp o_def)

lemma follow_cong: "(\<And>c. p c = q c) \<Longrightarrow> follow n p cur = follow n q cur"
  by (subgoal_tac "p = q") auto

section \<open>The pagination contract\<close>

locale keyset =
  fixes wf :: "'s \<Rightarrow> bool" and dec :: "'c \<Rightarrow> 'e + 'k" and enc :: "'k \<Rightarrow> 'c"
    and fetch :: "'s \<Rightarrow> 'k option \<Rightarrow> nat \<Rightarrow> 'r list" and key :: "'r \<Rightarrow> 'k"
    and before :: "'k \<Rightarrow> 'k \<Rightarrow> bool" and rows :: "'s \<Rightarrow> 'r list"
  assumes dec_enc: "wf s \<Longrightarrow> r \<in> set (rows s) \<Longrightarrow> dec (enc (key r)) = Inr (key r)"
    and fetch_after: "wf s \<Longrightarrow> fetch s cur n =
      take n (filter (\<lambda>r. case cur of None \<Rightarrow> True | Some k \<Rightarrow> before k (key r)) (rows s))"
    and rows_sorted: "wf s \<Longrightarrow> sorted_wrt (\<lambda>a b. before (key a) (key b)) (rows s)"
    and before_asym: "before a b \<Longrightarrow> \<not> before b a"
begin

lemma after_key: "wf s \<Longrightarrow> rows s = xs @ x # ys \<Longrightarrow> filter (\<lambda>r. before (key x) (key r)) (rows s) = ys"
  using rows_sorted [of s] before_asym by (auto simp: sorted_wrt_append filter_empty_conv)

text \<open>A request whose cursor is before the rows \<open>ys\<close>, and what the page handlers make of it.\<close>

definition cursor_at :: "'s \<Rightarrow> 'c option \<Rightarrow> 'r list \<Rightarrow> bool" where
  "cursor_at s cur ys \<longleftrightarrow> (\<exists>xs after. rows s = xs @ ys \<and> (\<forall>n. fetch s after n = take n ys) \<and>
     (cur = None \<and> after = None \<or> (\<exists>c k. cur = Some c \<and> dec c = Inr k \<and> after = Some k)))"

lemma cursor_at_start: "wf s \<Longrightarrow> cursor_at s None (rows s)"
  unfolding cursor_at_def by (rule exI [of _ "[]"], rule exI [of _ None]) (simp add: fetch_after)

lemma probe_step:
  assumes "cursor_at s cur ys" and sz: "0 < sz"
  shows "probe_page dec enc (fetch s) key sz cur =
    Inr (take sz ys, if sz < length ys then Some (enc (key (last (take sz ys)))) else None)"
proof -
  obtain after where cur: "\<And>n. fetch s after n = take n ys"
    and d: "cur = None \<and> after = None \<or> (\<exists>c k. cur = Some c \<and> dec c = Inr k \<and> after = Some k)"
    using assms(1) unfolding cursor_at_def by blast
  have "probe_page dec enc (fetch s) key sz cur =
    (let rows = fetch s after (sz + 1); items = take sz rows;
         next_key = (if items = [] then None else Some (enc (key (last items))))
     in Inr (items, if sz < length rows then next_key else None))"
    using d by (auto simp: probe_page_def)
  then show ?thesis using sz by (simp add: cur Let_def min_def)
qed

lemma full_step:
  assumes "cursor_at s cur ys" and sz: "0 < sz"
  shows "full_page dec enc (fetch s) key sz cur =
    Inr (take sz ys, if sz \<le> length ys then Some (enc (key (last (take sz ys)))) else None)"
proof -
  obtain after where cur: "\<And>n. fetch s after n = take n ys"
    and d: "cur = None \<and> after = None \<or> (\<exists>c k. cur = Some c \<and> dec c = Inr k \<and> after = Some k)"
    using assms(1) unfolding cursor_at_def by blast
  have "full_page dec enc (fetch s) key sz cur =
    (let rows = fetch s after sz
     in Inr (rows, if length rows = sz \<and> rows \<noteq> [] then Some (enc (key (last rows))) else None))"
    using d by (auto simp: full_page_def)
  then show ?thesis using sz by (auto simp: cur Let_def min_def)
qed

lemma cursor_at_next:
  assumes "wf s" "cursor_at s cur ys" "0 < sz" "sz \<le> length ys"
  shows "cursor_at s (Some (enc (key (last (take sz ys))))) (drop sz ys)"
proof -
  obtain xs where split: "rows s = xs @ ys" using assms(2) unfolding cursor_at_def by blast
  let ?p = "take sz ys"
  have ne: "?p \<noteq> []" using assms(3,4) by auto
  then have p: "?p = butlast ?p @ [last ?p]" by simp
  have r: "rows s = (xs @ ?p) @ drop sz ys" using split by simp
  then have "rows s = (xs @ butlast ?p) @ last ?p # drop sz ys"
    using p by (metis append.assoc append_Cons append_Nil)
  from after_key [OF assms(1) this] have "fetch s (Some (key (last ?p))) n = take n (drop sz ys)" for n
    by (simp add: fetch_after [OF assms(1)])
  moreover have "last ?p \<in> set (rows s)" using split ne by (metis Un_iff in_set_takeD last_in_set set_append)
  then have "dec (enc (key (last ?p))) = Inr (key (last ?p))" by (rule dec_enc [OF assms(1)])
  ultimately show ?thesis using r unfolding cursor_at_def by blast
qed

lemma follow_aux:
  assumes "wf s" "0 < sz" "cursor_at s cur ys" "length ys < n"
    and page: "\<And>cur ys. cursor_at s cur ys \<Longrightarrow>
      page cur = Inr (take sz ys, if sz + d \<le> length ys then Some (enc (key (last (take sz ys)))) else None)"
    and d: "d \<le> 1"
  shows "\<exists>ps. follow n page cur = Some ps \<and> concat ps = ys \<and> (\<forall>p\<in>set ps. length p \<le> sz)"
  using assms(3,4)
proof (induction n arbitrary: ys cur)
  case (Suc n)
  note step = page [OF Suc.prems(1)]
  show ?case
  proof (cases "sz + d \<le> length ys")
    case True
    then have "cursor_at s (Some (enc (key (last (take sz ys))))) (drop sz ys)"
      using cursor_at_next [OF assms(1) Suc.prems(1) assms(2)] by simp
    moreover have "length (drop sz ys) < n" using Suc.prems(2) True assms(2) by simp
    ultimately obtain ps where "follow n page (Some (enc (key (last (take sz ys))))) = Some ps"
        "concat ps = drop sz ys" "\<forall>p\<in>set ps. length p \<le> sz"
      using Suc.IH by blast
    then show ?thesis using step True by simp
  next
    case False
    then show ?thesis using step d by simp
  qed
qed simp

lemma follow_probe:
  "wf s \<Longrightarrow> 0 < sz \<Longrightarrow> \<exists>ps. follow (length (rows s) + 1) (probe_page dec enc (fetch s) key sz) None = Some ps \<and>
     concat ps = rows s \<and> (\<forall>p\<in>set ps. length p \<le> sz)"
  by (rule follow_aux [of s sz None "rows s" _ _ 1]) (simp_all add: cursor_at_start probe_step Suc_le_eq)

lemma follow_full:
  "wf s \<Longrightarrow> 0 < sz \<Longrightarrow> \<exists>ps. follow (length (rows s) + 1) (full_page dec enc (fetch s) key sz) None = Some ps \<and>
     concat ps = rows s \<and> (\<forall>p\<in>set ps. length p \<le> sz)"
  by (rule follow_aux [of s sz None "rows s" _ _ 0]) (simp_all add: cursor_at_start full_step)

end

end
