(* ===== verification/Event_Query.thy ===== *)
theory Event_Query
  imports Event_Model Keyset_Paging
begin

text \<open>
  Model of the statements that the list handlers of \<open>src/handlers/events.rs\<close> build: a list of conditions
  with numbered placeholders, a list of bound values, an ordering and a limit. A condition is kept as a
  value with its text; \<open>run_select\<close> is what the database does with the statement. The lemmas show when
  the placeholder of every condition meets the value meant for it. Operators of Postgres on JSON and text
  search are parameters. The earth-distance filter is left out: the query parameters have no such fields.
\<close>

section \<open>Rows and bound values\<close>

record event_rec =
  e_id :: nat
  e_contract :: string
  e_type :: string
  e_tx_hash :: string
  e_ledger :: i64
  e_timestamp :: int
  e_data :: json
  e_data_normalized :: "json option"
  e_data_decoded :: "json option"
  e_ledger_hash :: "string option"
  e_ok :: bool
  e_created_at :: int
  e_schema :: i32
  e_anonymized :: bool
  e_topic0 :: "string option"
  e_tenant :: "string option"
  e_chain :: "string option"
  e_tx_index :: "int option"
  e_op_index :: "int option"
  e_event_index :: "int option"

record pg_ops =
  topic_contains :: "json \<Rightarrow> string \<Rightarrow> bool"
  topic_at_contains :: "json \<Rightarrow> nat \<Rightarrow> string \<Rightarrow> bool"
  text_matches :: "json \<Rightarrow> string \<Rightarrow> bool"
  path_exists :: "json \<Rightarrow> string \<Rightarrow> bool"

datatype bindval = BText string | BTexts "string list" | BInt int | BBool bool | BTime int | BUuid nat

text \<open>\<open>LIKE\<close> with the wildcards \<open>%\<close> and \<open>_\<close>.\<close>

function sql_like :: "string \<Rightarrow> string \<Rightarrow> bool" where
  "sql_like [] s \<longleftrightarrow> s = []"
| "sql_like (p # ps) s \<longleftrightarrow>
     (if p = CHR ''%'' then sql_like ps s \<or> (case s of [] \<Rightarrow> False | c # cs \<Rightarrow> sql_like (p # ps) cs)
      else (case s of [] \<Rightarrow> False | c # cs \<Rightarrow> (p = CHR ''_'' \<or> p = c) \<and> sql_like ps cs))"
  by pat_completeness auto
termination by (relation "measure (\<lambda>(p, s). length p + length s)") auto

lemma sql_like_percent [simp]: "sql_like ''%'' s"
  by (induction s) simp_all

lemma sql_like_prefix:
  "CHR ''%'' \<notin> set p \<Longrightarrow> CHR ''_'' \<notin> set p \<Longrightarrow> sql_like (p @ ''%'') s \<longleftrightarrow> starts_with s p"
proof (induction p arbitrary: s)
  case Nil then show ?case by (simp add: starts_with_def del: sql_like.simps)
next
  case (Cons c p) then show ?case by (cases s) (auto simp: starts_with_def)
qed

section \<open>Conditions\<close>

datatype condition =
  CursorAfter SortBy SortOrder nat nat
| ContractEq nat | ContractAny nat | ContractLike nat | TypeEq nat | LedgerGe nat | LedgerLe nat
| LedgerHashEq nat | AnonymizedEq nat | CallEq nat | SchemaEq nat | Topic0Eq nat | TopicContains nat
| TopicAt nat nat | Search nat | DataPath nat | TimeGe nat | TimeLe nat
| ContractNotAll nat | TypeNotAll nat | TenantEq nat | NetworkEq nat

definition dollar :: "nat \<Rightarrow> string" where "dollar i = ''$'' @ show_nat i"

fun condition_sql :: "condition \<Rightarrow> string" where
  "condition_sql (CursorAfter b d i j) = ''('' @ SortBy_as_sql_col b @ '', id) ''
     @ (if d = Asc then ''>'' else ''<'') @ '' ('' @ dollar i @ '', '' @ dollar j @ '')''"
| "condition_sql (ContractEq i) = ''contract_id = '' @ dollar i"
| "condition_sql (ContractAny i) = ''contract_id = ANY('' @ dollar i @ ''::text[])''"
| "condition_sql (ContractLike i) = ''contract_id LIKE '' @ dollar i"
| "condition_sql (TypeEq i) = ''event_type = '' @ dollar i"
| "condition_sql (LedgerGe i) = ''ledger >= '' @ dollar i"
| "condition_sql (LedgerLe i) = ''ledger <= '' @ dollar i"
| "condition_sql (LedgerHashEq i) = ''ledger_hash = '' @ dollar i"
| "condition_sql (AnonymizedEq i) = ''anonymized = '' @ dollar i"
| "condition_sql (CallEq i) = ''in_successful_call = '' @ dollar i"
| "condition_sql (SchemaEq i) = ''schema_version = '' @ dollar i"
| "condition_sql (Topic0Eq i) = ''topic_0_sym = '' @ dollar i"
| "condition_sql (TopicContains i) = ''event_data->'' @ [CHR 0x27] @ ''topic'' @ [CHR 0x27] @ '' @> '' @ dollar i @ ''::jsonb''"
| "condition_sql (TopicAt k i) = ''event_data->'' @ [CHR 0x27] @ ''topic'' @ [CHR 0x27] @ ''->'' @ show_nat k @ '' @> '' @ dollar i @ ''::jsonb''"
| "condition_sql (Search i) = ''event_data_tsv @@ plainto_tsquery('' @ [CHR 0x27] @ ''english'' @ [CHR 0x27] @ '', '' @ dollar i @ '')''"
| "condition_sql (DataPath i) = ''jsonb_path_exists(event_data, '' @ dollar i @ ''::jsonpath)''"
| "condition_sql (TimeGe i) = ''timestamp >= '' @ dollar i"
| "condition_sql (TimeLe i) = ''timestamp <= '' @ dollar i"
| "condition_sql (ContractNotAll i) = ''contract_id != ALL('' @ dollar i @ ''::text[])''"
| "condition_sql (TypeNotAll i) = ''event_type != ALL('' @ dollar i @ ''::text[])''"
| "condition_sql (TenantEq i) = ''tenant_id = '' @ dollar i"
| "condition_sql (NetworkEq i) = ''chain_id = '' @ dollar i"

definition where_clause :: "condition list \<Rightarrow> string" where
  "where_clause cs = (if cs = [] then [] else ''WHERE '' @ join '' AND '' (map condition_sql cs))"

section \<open>What the database does with a statement\<close>

text \<open>
  The value of a placeholder; a placeholder without a value, or one whose value has another type than the
  operator takes, makes the statement fail.
\<close>

definition arg :: "bindval list \<Rightarrow> nat \<Rightarrow> bindval option" where
  "arg bs i = (if 1 \<le> i \<and> i \<le> length bs then Some (bs ! (i - 1)) else None)"

definition arg_text :: "bindval list \<Rightarrow> nat \<Rightarrow> string option" where
  "arg_text bs i = (case arg bs i of Some (BText s) \<Rightarrow> Some s | _ \<Rightarrow> None)"

definition arg_texts :: "bindval list \<Rightarrow> nat \<Rightarrow> string list option" where
  "arg_texts bs i = (case arg bs i of Some (BTexts s) \<Rightarrow> Some s | _ \<Rightarrow> None)"

definition arg_int :: "bindval list \<Rightarrow> nat \<Rightarrow> int option" where
  "arg_int bs i = (case arg bs i of Some (BInt n) \<Rightarrow> Some n | _ \<Rightarrow> None)"

definition arg_bool :: "bindval list \<Rightarrow> nat \<Rightarrow> bool option" where
  "arg_bool bs i = (case arg bs i of Some (BBool b) \<Rightarrow> Some b | _ \<Rightarrow> None)"

definition arg_time :: "bindval list \<Rightarrow> nat \<Rightarrow> int option" where
  "arg_time bs i = (case arg bs i of Some (BTime t) \<Rightarrow> Some t | _ \<Rightarrow> None)"

definition arg_uuid :: "bindval list \<Rightarrow> nat \<Rightarrow> nat option" where
  "arg_uuid bs i = (case arg bs i of Some (BUuid u) \<Rightarrow> Some u | _ \<Rightarrow> None)"

lemmas arg_defs = arg_text_def arg_texts_def arg_int_def arg_bool_def arg_time_def arg_uuid_def

fun sort_value :: "SortBy \<Rightarrow> event_rec \<Rightarrow> int" where
  "sort_value Ledger r = e_ledger r"
| "sort_value Timestamp r = e_timestamp r"
| "sort_value CreatedAt r = e_created_at r"

definition after_cursor :: "SortBy \<Rightarrow> SortOrder \<Rightarrow> int \<times> nat \<Rightarrow> event_rec \<Rightarrow> bool" where
  "after_cursor b d k r = (if d = Asc then key_less k (sort_value b r, e_id r)
                           else key_less (sort_value b r, e_id r) k)"

text \<open>The test of a condition; a comparison with a \<open>NULL\<close> column is never true.\<close>

fun condition_test :: "pg_ops \<Rightarrow> bindval list \<Rightarrow> condition \<Rightarrow> (event_rec \<Rightarrow> bool) option" where
  "condition_test pg bs (CursorAfter b d i j) =
     (case ((if b = Ledger then arg_int bs i else arg_time bs i), arg_uuid bs j) of
        (Some v, Some u) \<Rightarrow> Some (after_cursor b d (v, u)) | _ \<Rightarrow> None)"
| "condition_test pg bs (ContractEq i) = map_option (\<lambda>s r. e_contract r = s) (arg_text bs i)"
| "condition_test pg bs (ContractAny i) = map_option (\<lambda>ss r. e_contract r \<in> set ss) (arg_texts bs i)"
| "condition_test pg bs (ContractLike i) = map_option (\<lambda>s r. sql_like s (e_contract r)) (arg_text bs i)"
| "condition_test pg bs (TypeEq i) = map_option (\<lambda>s r. e_type r = s) (arg_text bs i)"
| "condition_test pg bs (LedgerGe i) = map_option (\<lambda>n r. e_ledger r \<ge> n) (arg_int bs i)"
| "condition_test pg bs (LedgerLe i) = map_option (\<lambda>n r. e_ledger r \<le> n) (arg_int bs i)"
| "condition_test pg bs (LedgerHashEq i) = map_option (\<lambda>s r. e_ledger_hash r = Some s) (arg_text bs i)"
| "condition_test pg bs (AnonymizedEq i) = map_option (\<lambda>b r. e_anonymized r = b) (arg_bool bs i)"
| "condition_test pg bs (CallEq i) = map_option (\<lambda>b r. e_ok r = b) (arg_bool bs i)"
| "condition_test pg bs (SchemaEq i) = map_option (\<lambda>n r. e_schema r = n) (arg_int bs i)"
| "condition_test pg bs (Topic0Eq i) = map_option (\<lambda>s r. e_topic0 r = Some s) (arg_text bs i)"
| "condition_test pg bs (TopicContains i) = map_option (\<lambda>s r. topic_contains pg (e_data r) s) (arg_text bs i)"
| "condition_test pg bs (TopicAt k i) = map_option (\<lambda>s r. topic_at_contains pg (e_data r) k s) (arg_text bs i)"
| "condition_test pg bs (Search i) = map_option (\<lambda>s r. text_matches pg (e_data r) s) (arg_text bs i)"
| "condition_test pg bs (DataPath i) = map_option (\<lambda>s r. path_exists pg (e_data r) s) (arg_text bs i)"
| "condition_test pg bs (TimeGe i) = map_option (\<lambda>t r. e_timestamp r \<ge> t) (arg_time bs i)"
| "condition_test pg bs (TimeLe i) = map_option (\<lambda>t r. e_timestamp r \<le> t) (arg_time bs i)"
| "condition_test pg bs (ContractNotAll i) = map_option (\<lambda>ss r. e_contract r \<notin> set ss) (arg_texts bs i)"
| "condition_test pg bs (TypeNotAll i) = map_option (\<lambda>ss r. e_type r \<notin> set ss) (arg_texts bs i)"
| "condition_test pg bs (TenantEq i) = map_option (\<lambda>s r. e_tenant r = Some s) (arg_text bs i)"
| "condition_test pg bs (NetworkEq i) = map_option (\<lambda>s r. e_chain r = Some s) (arg_text bs i)"

text \<open>Orderings. \<open>by_position\<close> is the order within a ledger by the decoded event id, with \<open>NULLS LAST\<close>.\<close>

definition nulls_last :: "SortOrder \<Rightarrow> int option \<Rightarrow> int option \<Rightarrow> bool" where
  "nulls_last d a b = (case (a, b) of (Some x, Some y) \<Rightarrow> (if d = Asc then x < y else y < x)
     | (Some x, None) \<Rightarrow> True | (None, _) \<Rightarrow> False)"

definition by_column :: "SortBy \<Rightarrow> SortOrder \<Rightarrow> event_rec \<Rightarrow> event_rec \<Rightarrow> bool" where
  "by_column b d r s = (if d = Asc then key_less (sort_value b r, e_id r) (sort_value b s, e_id s)
                        else key_less (sort_value b s, e_id s) (sort_value b r, e_id r))"

definition by_position :: "SortOrder \<Rightarrow> event_rec \<Rightarrow> event_rec \<Rightarrow> bool" where
  "by_position d r s =
     (if e_ledger r \<noteq> e_ledger s then (if d = Asc then e_ledger r < e_ledger s else e_ledger s < e_ledger r)
      else if e_tx_index r \<noteq> e_tx_index s then nulls_last d (e_tx_index r) (e_tx_index s)
      else if e_op_index r \<noteq> e_op_index s then nulls_last d (e_op_index r) (e_op_index s)
      else if e_event_index r \<noteq> e_event_index s then nulls_last d (e_event_index r) (e_event_index s)
      else if d = Asc then e_id r < e_id s else e_id s < e_id r)"

definition DB_ERROR :: AppError where
  "DB_ERROR = Database \<lparr>sqlstate = None, sqlx_text = []\<rparr>"

text \<open>
  \<open>SELECT .. WHERE .. ORDER BY .. LIMIT .. OFFSET ..\<close> with \<open>extra\<close> further placeholders for limit and
  offset: it fails when the number of bound values is not the number of placeholders.
\<close>

fun placeholders :: "condition \<Rightarrow> nat" where
  "placeholders (CursorAfter b d i j) = 2"
| "placeholders _ = 1"

definition run_select ::
  "pg_ops \<Rightarrow> condition list \<Rightarrow> bindval list \<Rightarrow> (event_rec \<Rightarrow> event_rec \<Rightarrow> bool) \<Rightarrow> nat \<Rightarrow> nat \<Rightarrow> nat \<Rightarrow>
   event_rec list \<Rightarrow> AppError + event_rec list" where
  "run_select pg cs bs first extra lim_val off_val tbl =
     (if length bs \<noteq> sum_list (map placeholders cs) + extra then Inl DB_ERROR
      else case those (map (condition_test pg bs) cs) of
          None \<Rightarrow> Inl DB_ERROR
        | Some ps \<Rightarrow> Inr (take lim_val (drop off_val (order_by first (filter (\<lambda>r. list_all (\<lambda>p. p r) ps) tbl)))))"

definition run_count :: "pg_ops \<Rightarrow> condition list \<Rightarrow> bindval list \<Rightarrow> event_rec list \<Rightarrow> AppError + nat" where
  "run_count pg cs bs tbl =
     (if length bs \<noteq> sum_list (map placeholders cs) then Inl DB_ERROR
      else case those (map (condition_test pg bs) cs) of
          None \<Rightarrow> Inl DB_ERROR
        | Some ps \<Rightarrow> Inr (length (filter (\<lambda>r. list_all (\<lambda>p. p r) ps) tbl)))"

section \<open>Building a statement\<close>

text \<open>
  The handlers push a condition and advance the placeholder number when a parameter is given, in one pass,
  and bind the values in a second pass.
\<close>

type_synonym builder = "condition list \<times> nat"

definition push_if :: "bool \<Rightarrow> (nat \<Rightarrow> condition) \<Rightarrow> builder \<Rightarrow> builder" where
  "push_if given c st = (if given then (fst st @ [c (snd st)], snd st + 1) else st)"

definition push_all :: "(bool \<times> (nat \<Rightarrow> condition)) list \<Rightarrow> builder \<Rightarrow> builder" where
  "push_all steps st = fold (\<lambda>(given, c). push_if given c) steps st"

definition maybe_add_tenant_condition :: "string option \<Rightarrow> builder \<Rightarrow> builder" where
  "maybe_add_tenant_condition tenant st = push_if (tenant \<noteq> None) TenantEq st"

definition bind_opt :: "('a \<Rightarrow> bindval) \<Rightarrow> 'a option \<Rightarrow> bindval list" where
  "bind_opt f x = (case x of None \<Rightarrow> [] | Some v \<Rightarrow> [f v])"

definition bind_list :: "string list \<Rightarrow> bindval list" where
  "bind_list xs = (if xs = [] then [] else [BTexts xs])"

text \<open>
  Alignment. A step of the builder and the values bound for it; if the values are bound in the order of
  the steps, every condition is tested with its own value.
\<close>

type_synonym step = "(nat \<Rightarrow> condition) \<times> bindval list"

definition step_ok :: "pg_ops \<Rightarrow> step \<Rightarrow> (event_rec \<Rightarrow> bool) \<Rightarrow> bool" where
  "step_ok pg s p \<longleftrightarrow>
     (snd s = [] \<and> p = (\<lambda>r. True) \<or>
      (\<exists>v. snd s = [v] \<and> (\<forall>i. placeholders (fst s i) = 1) \<and>
         (\<forall>bs i. arg bs i = Some v \<longrightarrow> condition_test pg bs (fst s i) = Some p)))"

lemma push_all_Cons: "push_all ((g, c) # steps) st = push_all steps (push_if g c st)"
  by (simp add: push_all_def)

lemma push_all_Nil [simp]: "push_all [] st = st"
  by (simp add: push_all_def)

definition steps_of :: "step list \<Rightarrow> (bool \<times> (nat \<Rightarrow> condition)) list" where
  "steps_of ss = map (\<lambda>(c, vs). (vs \<noteq> [], c)) ss"

lemma those_append:
  "those (xs @ ys) = (case those xs of None \<Rightarrow> None | Some a \<Rightarrow> map_option (\<lambda>b. a @ b) (those ys))"
  by (induction xs) (cases "those ys"; auto split: option.splits)+

lemma aligned:
  assumes "list_all2 (step_ok pg) ss ps" "i = length pre + 1"
    "those (map (condition_test pg (pre @ concat (map snd ss) @ post)) cs) = Some qs"
  shows "\<exists>cs' ps'. push_all (steps_of ss) (cs, i) = (cs @ cs', i + length (concat (map snd ss))) \<and>
     sum_list (map placeholders cs') = length (concat (map snd ss)) \<and>
     those (map (condition_test pg (pre @ concat (map snd ss) @ post)) (cs @ cs')) = Some (qs @ ps') \<and>
     (\<forall>r. list_all (\<lambda>p. p r) ps' \<longleftrightarrow> list_all (\<lambda>p. p r) ps)"
  using assms
proof (induction ss ps arbitrary: i pre cs qs rule: list_all2_induct)
  case Nil
  then show ?case by (intro exI [of _ "[]"]) (simp add: steps_of_def)
next
  case (Cons s ss p ps)
  obtain c vs where s: "s = (c, vs)" by (cases s)
  show ?case
  proof (cases "vs = []")
    case True
    then have "p = (\<lambda>r. True)" using Cons.hyps(1) s by (simp add: step_ok_def)
    then show ?thesis
      using Cons.IH [of i pre cs qs] Cons.prems s True
      by (simp add: steps_of_def push_all_Cons push_if_def)
  next
    case False
    then obtain v where v: "vs = [v]" "\<And>i. placeholders (c i) = 1"
        "\<And>bs i. arg bs i = Some v \<Longrightarrow> condition_test pg bs (c i) = Some p"
      using Cons.hyps(1) s by (auto simp: step_ok_def)
    let ?bs = "(pre @ [v]) @ concat (map snd ss) @ post"
    have "arg ?bs i = Some v" using Cons.prems(1) by (simp add: arg_def nth_append)
    then have t: "condition_test pg ?bs (c i) = Some p" by (rule v(3))
    have "those (map (condition_test pg ?bs) (cs @ [c i])) = Some (qs @ [p])"
      using Cons.prems(2) s v(1) t by (simp add: those_append)
    from Cons.IH [OF _ this, of "i + 1"] Cons.prems(1)
    obtain cs' ps' where ih: "push_all (steps_of ss) (cs @ [c i], i + 1) = ((cs @ [c i]) @ cs', i + 1 + length (concat (map snd ss)))"
        "sum_list (map placeholders cs') = length (concat (map snd ss))"
        "those (map (condition_test pg ?bs) ((cs @ [c i]) @ cs')) = Some ((qs @ [p]) @ ps')"
        "\<And>r. list_all (\<lambda>p. p r) ps' \<longleftrightarrow> list_all (\<lambda>p. p r) ps"
      by auto
    then show ?thesis
      using s v(1,2)
      by (intro exI [of _ "c i # cs'"] exI [of _ "p # ps'"]) (simp add: steps_of_def push_all_Cons push_if_def)
  qed
qed

text \<open>A statement whose values are bound in order selects the rows that pass the test of every step.\<close>

lemma run_select_aligned:
  assumes "list_all2 (step_ok pg) ss ps" "length post = extra"
    "push_all (steps_of ss) ([], 1) = (cs, i)"
  shows "run_select pg cs (concat (map snd ss) @ post) first extra n k tbl =
     Inr (take n (drop k (order_by first (filter (\<lambda>r. list_all (\<lambda>p. p r) ps) tbl))))"
  using aligned [OF assms(1), of 1 "[]" post "[]" "[]"] assms(2,3) by (auto simp: run_select_def)

lemma run_count_aligned:
  assumes "list_all2 (step_ok pg) ss ps" "push_all (steps_of ss) ([], 1) = (cs, i)"
  shows "run_count pg cs (concat (map snd ss)) tbl = Inr (length (filter (\<lambda>r. list_all (\<lambda>p. p r) ps) tbl))"
  using aligned [OF assms(1), of 1 "[]" "[]" "[]" "[]"] assms(2) by (auto simp: run_count_def)

text \<open>The statement after a cursor condition, which has the first two placeholders.\<close>

lemma run_select_cursor:
  assumes "list_all2 (step_ok pg) ss ps" "length post = extra"
    "condition_test pg ([u, v] @ concat (map snd ss) @ post) (CursorAfter b d 1 2) = Some q"
    "push_all (steps_of ss) ([CursorAfter b d 1 2], 3) = (cs, i)"
  shows "run_select pg cs ([u, v] @ concat (map snd ss) @ post) first extra n k tbl =
     Inr (take n (drop k (order_by first (filter (\<lambda>r. q r \<and> list_all (\<lambda>p. p r) ps) tbl))))"
  using aligned [OF assms(1), of 3 "[u, v]" post "[CursorAfter b d 1 2]" "[q]"] assms(2-4)
  by (auto simp: run_select_def simp del: condition_test.simps(1))

lemma push_all_count:
  "sum_list (map placeholders (fst (push_all steps st))) =
     sum_list (map placeholders (fst st)) + sum_list (map (\<lambda>(g, c). if g then placeholders (c 0) else 0) steps)"
  if "\<forall>(g, c) \<in> set steps. \<forall>i. placeholders (c i) = placeholders (c 0)"
  using that
proof (induction steps arbitrary: st)
  case (Cons s steps)
  obtain g c where s: "s = (g, c)" by (cases s)
  then have "placeholders (c (snd st)) = placeholders (c 0)" using Cons.prems by simp
  then show ?case using Cons s by (simp add: push_all_Cons push_if_def)
qed simp

text \<open>The steps of the handlers.\<close>

lemma step_none: "step_ok pg (c, []) (\<lambda>r. True)"
  by (simp add: step_ok_def)

lemma step_one:
  "(\<And>bs i. arg bs i = Some v \<Longrightarrow> condition_test pg bs (c i) = Some p) \<Longrightarrow> (\<And>i. placeholders (c i) = 1) \<Longrightarrow>
   step_ok pg (c, [v]) p"
  by (simp add: step_ok_def)

definition given :: "'a option \<Rightarrow> ('a \<Rightarrow> event_rec \<Rightarrow> bool) \<Rightarrow> event_rec \<Rightarrow> bool" where
  "given x p r = (case x of None \<Rightarrow> True | Some v \<Rightarrow> p v r)"

lemma step_opt:
  "(\<And>v bs i. arg bs i = Some (f v) \<Longrightarrow> condition_test pg bs (c i) = Some (p v)) \<Longrightarrow> (\<And>i. placeholders (c i) = 1) \<Longrightarrow>
   step_ok pg (c, bind_opt f x) (given x p)"
  by (cases x) (simp_all add: bind_opt_def given_def [abs_def] step_none step_one)

lemma step_list:
  "(\<And>v bs i. arg bs i = Some (BTexts v) \<Longrightarrow> condition_test pg bs (c i) = Some (p v)) \<Longrightarrow> (\<And>i. placeholders (c i) = 1) \<Longrightarrow>
   step_ok pg (c, bind_list xs) (\<lambda>r. xs = [] \<or> p xs r)"
  by (cases xs) (simp_all add: bind_list_def step_none step_one)

lemma bind_opt_Nil [simp]: "bind_opt f x = [] \<longleftrightarrow> x = None"
  by (simp add: bind_opt_def split: option.split)

lemma bind_list_Nil [simp]: "bind_list xs = [] \<longleftrightarrow> xs = []"
  by (simp add: bind_list_def)

end
