(* ===== verification/Event_Listing.thy ===== *)
theory Event_Listing
  imports Event_Query Xdr_Validation
begin

text \<open>
  Model of the main read endpoint, \<open>get_events\<close> of \<open>src/handlers/events.rs\<close>, with its helpers in
  \<open>src/handlers/mod.rs\<close>. The handler checks the parameters, then answers through a cursor or through an
  offset. The lemmas give the rows that the statement of each path selects.
\<close>

section \<open>Requests\<close>

record PaginationParams =
  q_page :: "i64 option"
  q_limit :: "i64 option"
  q_exact_count :: "bool option"
  q_fields :: "string option"
  q_contract_id :: "string option"
  q_contract_ids :: "string option"
  q_event_type :: "EventType option"
  q_from_ledger :: "i64 option"
  q_to_ledger :: "i64 option"
  q_ledger_hash :: "string option"
  q_cursor :: "string option"
  q_sort :: "SortOrder option"
  q_sort_by :: "SortBy option"
  q_in_successful_call :: "bool option"
  q_schema_version :: "i32 option"
  q_anonymized :: "bool option"
  q_topic_sym :: "string option"
  q_topic_0 :: "string option"
  q_topic_1 :: "string option"
  q_topic_2 :: "string option"
  q_topic_3 :: "string option"
  q_search :: "string option"
  q_from_timestamp :: "string option"
  q_to_timestamp :: "string option"
  q_compact :: "bool option"
  q_contract_id_prefix :: "string option"
  q_format :: "string option"
  q_network :: "string option"

text \<open>Values that the handler uses and that its parameter type does not declare.\<close>

record extra_params =
  x_topic_filter :: "string option"
  x_exclude_contract_ids :: "string list"
  x_exclude_event_types :: "string list"
  x_data_pattern :: "string option"
  x_pattern :: "string option"
  x_rank_by_relevance :: "bool option"

record list_headers =
  h_authorization :: "string option"
  h_x_api_key :: "string option"
  h_if_none_match :: "string option"

text \<open>
  The surroundings of a request: crates, the operators of Postgres, the timestamp parser and printer, the
  hash behind an ETag, decryption and rendering of event data, compression, the row estimate of the planner, the
  tenant of the request and the configured admin keys.
\<close>

record list_env =
  codec :: cursor_codec
  pg :: pg_ops
  parse_time :: "string \<Rightarrow> int option"
  rfc3339 :: "int \<Rightarrow> string"
  etag_of :: "nat \<Rightarrow> int \<Rightarrow> int option \<Rightarrow> string"
  decrypted :: "json \<Rightarrow> json"
  rendered :: "json \<Rightarrow> ScValFormat \<Rightarrow> json"
  compacted :: "json \<Rightarrow> AppError + json"
  row_estimate :: nat
  tenant :: "string option"
  admin_keys :: "string list"

section \<open>Checks\<close>

definition extract_api_key_from_headers :: "list_headers \<Rightarrow> string option" where
  "extract_api_key_from_headers h =
     (case Option.bind (h_authorization h) (\<lambda>s. if starts_with s ''Bearer '' then Some (drop 7 s) else None) of
        Some k \<Rightarrow> Some k | None \<Rightarrow> h_x_api_key h)"

definition is_admin_request :: "list_headers \<Rightarrow> string list \<Rightarrow> bool" where
  "is_admin_request h keys =
     (case extract_api_key_from_headers h of None \<Rightarrow> False | Some k \<Rightarrow> k \<in> set keys)"

definition MAX_LEDGER :: i64 where "MAX_LEDGER = 4294967295"

definition validate_ledger_param :: "string \<Rightarrow> i64 \<Rightarrow> AppError + unit" where
  "validate_ledger_param nm v =
     (if v < 0 \<or> v > MAX_LEDGER then Inl (Validation (nm @ '' must be in range [0, 4294967295]'')) else Inr ())"

definition is_ascii_alphanumeric :: "char \<Rightarrow> bool" where
  "is_ascii_alphanumeric c \<longleftrightarrow> is_ascii_digit c
     \<or> (65 \<le> (of_char c :: nat) \<and> (of_char c :: nat) \<le> 90)
     \<or> (97 \<le> (of_char c :: nat) \<and> (of_char c :: nat) \<le> 122)"

definition check_contract_id :: "string \<Rightarrow> AppError + unit" where
  "check_contract_id s =
     (if length s \<noteq> 56 then Inl (Validation ''invalid contract_id format'')
      else if \<not> starts_with s ''C'' then Inl (Validation ''invalid contract_id format'')
      else if \<not> list_all is_ascii_alphanumeric s then Inl (Validation ''invalid contract_id format'')
      else Inr ())"

definition validate_timestamp :: "list_env \<Rightarrow> string \<Rightarrow> AppError + int" where
  "validate_timestamp env ts =
     (case parse_time env ts of None \<Rightarrow> Inl (Validation (''invalid timestamp format: '' @ ts)) | Some t \<Rightarrow> Inr t)"

fun check_all :: "('a \<Rightarrow> 'e + unit) \<Rightarrow> 'a list \<Rightarrow> 'e + unit" where
  "check_all f [] = Inr ()"
| "check_all f (x # xs) = and_then (f x) (\<lambda>_. check_all f xs)"

definition opt_parse :: "('a \<Rightarrow> 'e + 'b) \<Rightarrow> 'a option \<Rightarrow> 'e + 'b option" where
  "opt_parse f x = (case x of None \<Rightarrow> Inr None | Some v \<Rightarrow> map_sum id Some (f v))"

definition ordered :: "'a::linorder option \<Rightarrow> 'a option \<Rightarrow> bool" where
  "ordered lo hi = (case (lo, hi) of (Some a, Some b) \<Rightarrow> a \<le> b | _ \<Rightarrow> True)"

definition MAX_CONTRACT_IDS_FILTER :: nat where "MAX_CONTRACT_IDS_FILTER = 20"

definition parse_contract_ids :: "string option \<Rightarrow> AppError + string list" where
  "parse_contract_ids given_ids =
     (case given_ids of None \<Rightarrow> Inr []
      | Some s \<Rightarrow>
          let ids = filter (\<lambda>i. i \<noteq> []) (map trim (split_on (CHR '','') s))
          in if ids = [] then Inl (Validation ''contract_ids parameter is empty'')
             else if MAX_CONTRACT_IDS_FILTER < length ids
                  then Inl (Validation (''contract_ids exceeds maximum of 20 IDs''))
             else and_then (check_all check_contract_id ids) (\<lambda>_. Inr ids))"

definition check_prefix :: "string \<Rightarrow> AppError + unit" where
  "check_prefix p =
     (if length (trim p) < 4 then Inl (Validation ''contract_id_prefix must be at least 4 characters'')
      else if \<not> list_all is_ascii_alphanumeric (trim p)
           then Inl (Validation ''contract_id_prefix must contain only alphanumeric characters'')
      else Inr ())"

definition check_params ::
  "list_env \<Rightarrow> list_headers \<Rightarrow> PaginationParams \<Rightarrow> AppError + int option \<times> int option \<times> string list" where
  "check_params env h q =
     and_then (when_given (q_from_ledger q) (validate_ledger_param ''from_ledger'')) (\<lambda>_.
     and_then (when_given (q_to_ledger q) (validate_ledger_param ''to_ledger'')) (\<lambda>_.
     and_then (require (ordered (q_from_ledger q) (q_to_ledger q)) (Validation ''from_ledger must be <= to_ledger'')) (\<lambda>_.
     and_then (opt_parse (validate_timestamp env) (q_from_timestamp q)) (\<lambda>from_ts.
     and_then (opt_parse (validate_timestamp env) (q_to_timestamp q)) (\<lambda>to_ts.
     and_then (require (ordered from_ts to_ts) (Validation ''from_timestamp must be <= to_timestamp'')) (\<lambda>_.
     and_then (require (q_anonymized q = None \<or> is_admin_request h (admin_keys env))
                 (Forbidden ''anonymized filter requires admin privileges'')) (\<lambda>_.
     and_then (when_given (q_contract_id q) check_contract_id) (\<lambda>_.
     and_then (parse_contract_ids (q_contract_ids q)) (\<lambda>ids.
     and_then (when_given (q_contract_id_prefix q) check_prefix) (\<lambda>_.
     Inr (from_ts, to_ts, ids)))))))))))"

definition resolve_columns :: "PaginationParams \<Rightarrow> AppError + string list" where
  "resolve_columns q =
     (case columns (q_fields q) of Inr cols \<Rightarrow> Inr cols
      | Inl (unknown, allowed) \<Rightarrow> Inl (Validation (''unknown fields: ['' @ join '', '' unknown
          @ '']; valid fields are: ['' @ join '', '' allowed @ '']'')))"

section \<open>Rows as JSON\<close>

definition json_int :: "int \<Rightarrow> json" where
  "json_int i = JNumber (if 0 \<le> i then PosInt (of_int i) else NegInt i)"

definition json_opt :: "('a \<Rightarrow> json) \<Rightarrow> 'a option \<Rightarrow> json" where
  "json_opt f x = (case x of None \<Rightarrow> JNull | Some v \<Rightarrow> f v)"

definition known_columns :: "string list" where
  "known_columns = [''id'', ''contract_id'', ''event_type'', ''tx_hash'', ''ledger'', ''timestamp'', ''event_data'',
     ''event_data_normalized'', ''event_data_decoded'', ''ledger_hash'', ''in_successful_call'', ''created_at'',
     ''schema_version'', ''anonymized'']"

text \<open>The value of a column, or nothing for a column the renderer does not know.\<close>

definition column_json :: "list_env \<Rightarrow> bool \<Rightarrow> ScValFormat \<Rightarrow> event_rec \<Rightarrow> string \<Rightarrow> AppError + json option" where
  "column_json env gz fmt r col =
     (if col = ''id'' then Inr (Some (JString (show_uuid (codec env) (e_id r))))
      else if col = ''contract_id'' then Inr (Some (JString (e_contract r)))
      else if col = ''event_type'' then Inr (Some (JString (e_type r)))
      else if col = ''tx_hash'' then Inr (Some (JString (e_tx_hash r)))
      else if col = ''ledger'' then Inr (Some (json_int (e_ledger r)))
      else if col = ''timestamp'' then Inr (Some (JString (rfc3339 env (e_timestamp r))))
      else if col = ''event_data'' then
        (let shown = rendered env (decrypted env (e_data r)) fmt
         in if gz then map_sum id Some (compacted env shown) else Inr (Some shown))
      else if col = ''event_data_normalized'' then Inr (Some (json_opt id (e_data_normalized r)))
      else if col = ''event_data_decoded'' then Inr (Some (json_opt id (e_data_decoded r)))
      else if col = ''ledger_hash'' then Inr (Some (json_opt JString (e_ledger_hash r)))
      else if col = ''in_successful_call'' then Inr (Some (JBool (e_ok r)))
      else if col = ''created_at'' then Inr (Some (JString (rfc3339 env (e_created_at r))))
      else if col = ''schema_version'' then Inr (Some (json_int (e_schema r)))
      else if col = ''anonymized'' then Inr (Some (JBool (e_anonymized r)))
      else Inr None)"

fun insert_columns ::
  "list_env \<Rightarrow> bool \<Rightarrow> ScValFormat \<Rightarrow> event_rec \<Rightarrow> string list \<Rightarrow> (string \<times> json) list \<Rightarrow> AppError + (string \<times> json) list" where
  "insert_columns env gz fmt r [] m = Inr m"
| "insert_columns env gz fmt r (c # cs) m =
     (case column_json env gz fmt r c of Inl e \<Rightarrow> Inl e
      | Inr None \<Rightarrow> insert_columns env gz fmt r cs m
      | Inr (Some v) \<Rightarrow> insert_columns env gz fmt r cs (obj_insert c v m))"

fun rows_to_json :: "list_env \<Rightarrow> bool \<Rightarrow> ScValFormat \<Rightarrow> string list \<Rightarrow> event_rec list \<Rightarrow> AppError + json list" where
  "rows_to_json env gz fmt cols [] = Inr []"
| "rows_to_json env gz fmt cols (r # rs) =
     and_then (insert_columns env gz fmt r cols []) (\<lambda>kvs.
     and_then (rows_to_json env gz fmt cols rs) (\<lambda>js. Inr (JObject kvs # js)))"

section \<open>The statement of the offset path\<close>

definition offset_conditions ::
  "list_env \<Rightarrow> PaginationParams \<Rightarrow> extra_params \<Rightarrow> int option \<Rightarrow> int option \<Rightarrow> string list \<Rightarrow> builder" where
  "offset_conditions env q x from_ts to_ts ids =
     maybe_add_tenant_condition (tenant env) (push_all
       [(q_contract_id q \<noteq> None, ContractEq), (ids \<noteq> [], ContractAny), (q_contract_id_prefix q \<noteq> None, ContractLike),
        (q_event_type q \<noteq> None, TypeEq), (q_from_ledger q \<noteq> None, LedgerGe), (q_to_ledger q \<noteq> None, LedgerLe),
        (q_ledger_hash q \<noteq> None, LedgerHashEq), (q_anonymized q \<noteq> None, AnonymizedEq),
        (q_in_successful_call q \<noteq> None, CallEq), (q_schema_version q \<noteq> None, SchemaEq),
        (q_topic_sym q \<noteq> None, Topic0Eq), (x_topic_filter x \<noteq> None, TopicContains), (q_search q \<noteq> None, Search),
        (from_ts \<noteq> None, TimeGe), (to_ts \<noteq> None, TimeLe),
        (x_exclude_contract_ids x \<noteq> [], ContractNotAll), (x_exclude_event_types x \<noteq> [], TypeNotAll)] ([], 1))"

definition prefix_pattern :: "string \<Rightarrow> string" where "prefix_pattern p = trim p @ ''%''"

text \<open>The values after the first ones, which the count statement binds too.\<close>

definition tail_binds :: "list_env \<Rightarrow> PaginationParams \<Rightarrow> extra_params \<Rightarrow> int option \<Rightarrow> int option \<Rightarrow> bindval list" where
  "tail_binds env q x from_ts to_ts = concat
     [bind_opt (\<lambda>t. BText (EventType_display t)) (q_event_type q), bind_opt BInt (q_from_ledger q),
      bind_opt BInt (q_to_ledger q), bind_opt BText (q_ledger_hash q), bind_opt BBool (q_anonymized q),
      bind_opt BBool (q_in_successful_call q), bind_opt BInt (q_schema_version q), bind_opt BText (q_topic_sym q),
      bind_opt BText (x_topic_filter x), bind_opt BText (q_search q), bind_opt BTime from_ts, bind_opt BTime to_ts,
      bind_list (x_exclude_contract_ids x), bind_list (x_exclude_event_types x), bind_opt BText (tenant env)]"

definition offset_binds ::
  "list_env \<Rightarrow> PaginationParams \<Rightarrow> extra_params \<Rightarrow> int option \<Rightarrow> int option \<Rightarrow> string list \<Rightarrow> bindval list" where
  "offset_binds env q x from_ts to_ts ids =
     bind_opt BText (q_contract_id q) @ bind_list ids @ bind_opt (\<lambda>p. BText (prefix_pattern p)) (q_contract_id_prefix q)
     @ tail_binds env q x from_ts to_ts"

definition count_binds ::
  "list_env \<Rightarrow> PaginationParams \<Rightarrow> extra_params \<Rightarrow> int option \<Rightarrow> int option \<Rightarrow> bindval list" where
  "count_binds env q x from_ts to_ts = bind_opt BText (q_contract_id q) @ tail_binds env q x from_ts to_ts"

section \<open>The statement of the cursor path\<close>

definition cursor_conditions ::
  "list_env \<Rightarrow> PaginationParams \<Rightarrow> extra_params \<Rightarrow> int option \<Rightarrow> int option \<Rightarrow> string list \<Rightarrow> SortBy \<Rightarrow> SortOrder \<Rightarrow> builder" where
  "cursor_conditions env q x from_ts to_ts ids b d =
     push_all [(q_network q \<noteq> None, NetworkEq)] (maybe_add_tenant_condition (tenant env) (push_all
       [(q_contract_id q \<noteq> None, ContractEq), (ids \<noteq> [], ContractAny), (q_contract_id_prefix q \<noteq> None, ContractLike),
        (q_event_type q \<noteq> None, TypeEq), (q_from_ledger q \<noteq> None, LedgerGe), (q_to_ledger q \<noteq> None, LedgerLe),
        (q_ledger_hash q \<noteq> None, LedgerHashEq), (q_anonymized q \<noteq> None, AnonymizedEq),
        (q_in_successful_call q \<noteq> None, CallEq), (q_schema_version q \<noteq> None, SchemaEq),
        (q_topic_sym q \<noteq> None, Topic0Eq), (x_topic_filter x \<noteq> None, TopicContains), (q_topic_0 q \<noteq> None, Topic0Eq),
        (q_topic_1 q \<noteq> None, TopicAt 1), (q_topic_2 q \<noteq> None, TopicAt 2), (q_topic_3 q \<noteq> None, TopicAt 3),
        (q_search q \<noteq> None, Search), (x_data_pattern x \<noteq> None, DataPath),
        (from_ts \<noteq> None, TimeGe), (to_ts \<noteq> None, TimeLe),
        (x_exclude_contract_ids x \<noteq> [], ContractNotAll), (x_exclude_event_types x \<noteq> [], TypeNotAll)]
       ([CursorAfter b d 1 2], 3)))"

text \<open>\<open>serde_json::json!(t).to_string()\<close> of a string: quotes, and the escapes of JSON.\<close>

definition hex_digit :: "nat \<Rightarrow> char" where
  "hex_digit n = (if n < 10 then char_of (48 + n) else char_of (87 + n))"

definition json_escape :: "char \<Rightarrow> string" where
  "json_escape c =
     (let n = (of_char c :: nat) in
      if n = 34 then [CHR 0x5C, CHR 0x22] else if n = 92 then [CHR 0x5C, CHR 0x5C]
      else if n = 8 then [CHR 0x5C, CHR ''b''] else if n = 9 then [CHR 0x5C, CHR ''t'']
      else if n = 10 then [CHR 0x5C, CHR ''n''] else if n = 12 then [CHR 0x5C, CHR ''f'']
      else if n = 13 then [CHR 0x5C, CHR ''r'']
      else if n < 32 then [CHR 0x5C, CHR ''u'', CHR ''0'', CHR ''0'', hex_digit (n div 16), hex_digit (n mod 16)]
      else [c])"

definition json_string :: "string \<Rightarrow> string" where
  "json_string s = [CHR 0x22] @ concat (map json_escape s) @ [CHR 0x22]"

definition format_jsonpath_filter :: "string \<Rightarrow> string \<Rightarrow> string" where
  "format_jsonpath_filter path pattern =
     path @ '' ? (@ like_regex '' @ [CHR 0x22]
       @ concat (map (\<lambda>c. if c = CHR 0x5C then [CHR 0x5C, CHR 0x5C] else if c = CHR 0x22 then [CHR 0x5C, CHR 0x22] else [c]) pattern)
       @ [CHR 0x22] @ '')''"

text \<open>The values bound before and after the two filters on event data, and the missing pattern.\<close>

definition cursor_binds_front :: "PaginationParams \<Rightarrow> extra_params \<Rightarrow> string list \<Rightarrow> bindval list" where
  "cursor_binds_front q x ids = concat
     [bind_opt BText (q_contract_id q), bind_list ids, bind_opt (\<lambda>p. BText (prefix_pattern p)) (q_contract_id_prefix q),
      bind_opt (\<lambda>t. BText (EventType_display t)) (q_event_type q), bind_opt BInt (q_from_ledger q),
      bind_opt BInt (q_to_ledger q), bind_opt BText (q_ledger_hash q), bind_opt BBool (q_anonymized q),
      bind_opt BBool (q_in_successful_call q), bind_opt BInt (q_schema_version q), bind_opt BText (q_topic_sym q),
      bind_opt BText (x_topic_filter x), bind_opt BText (q_topic_0 q),
      bind_opt (\<lambda>t. BText (json_string t)) (q_topic_1 q), bind_opt (\<lambda>t. BText (json_string t)) (q_topic_2 q),
      bind_opt (\<lambda>t. BText (json_string t)) (q_topic_3 q)]"

definition cursor_binds_back :: "list_env \<Rightarrow> PaginationParams \<Rightarrow> extra_params \<Rightarrow> int option \<Rightarrow> int option \<Rightarrow> bindval list" where
  "cursor_binds_back env q x from_ts to_ts = concat
     [bind_opt BTime from_ts, bind_opt BTime to_ts, bind_list (x_exclude_contract_ids x),
      bind_list (x_exclude_event_types x), bind_opt BText (tenant env), bind_opt BText (q_network q)]"

definition pattern_bind :: "extra_params \<Rightarrow> AppError + bindval list" where
  "pattern_bind x =
     (case x_data_pattern x of None \<Rightarrow> Inr []
      | Some path \<Rightarrow> (case x_pattern x of
            None \<Rightarrow> Inl (Validation ''pattern is required when data_pattern is set'')
          | Some p \<Rightarrow> Inr [BText (format_jsonpath_filter path p)]))"

definition cursor_binds ::
  "list_env \<Rightarrow> PaginationParams \<Rightarrow> extra_params \<Rightarrow> int option \<Rightarrow> int option \<Rightarrow> string list \<Rightarrow> AppError + bindval list" where
  "cursor_binds env q x from_ts to_ts ids =
     and_then (pattern_bind x) (\<lambda>pb.
       Inr (cursor_binds_front q x ids @ pb @ bind_opt BText (q_search q) @ cursor_binds_back env q x from_ts to_ts))"

section \<open>The handler\<close>

datatype list_response =
  Not_modified string
| Listed (data: "json list") (next_cursor: "string option") (total: "nat option") (approximate: bool) (etag: "string option")

definition cursor_value :: "list_env \<Rightarrow> SortBy \<Rightarrow> event_rec \<Rightarrow> string" where
  "cursor_value env b r = (case b of Ledger \<Rightarrow> show_int (e_ledger r)
     | Timestamp \<Rightarrow> rfc3339 env (e_timestamp r) | CreatedAt \<Rightarrow> rfc3339 env (e_created_at r))"

definition next_of :: "list_env \<Rightarrow> SortBy \<Rightarrow> i64 \<Rightarrow> event_rec list \<Rightarrow> string option" where
  "next_of env b lmt rows =
     (if int (length rows) = lmt \<and> rows \<noteq> []
      then Some (encode_cursor_tagged (codec env) (SortBy_as_tag b) (cursor_value env b (last rows)) (e_id (last rows)))
      else None)"

definition etag_for :: "list_env \<Rightarrow> int option \<Rightarrow> event_rec list \<Rightarrow> string option" where
  "etag_for env tot rows = (case rows of [] \<Rightarrow> None | r # _ \<Rightarrow> Some (etag_of env (e_id r) (e_created_at r) tot))"

definition finish ::
  "list_headers \<Rightarrow> json list \<Rightarrow> string option \<Rightarrow> nat option \<Rightarrow> bool \<Rightarrow> string option \<Rightarrow> list_response" where
  "finish h js nxt tot approx tag =
     (case tag of Some t \<Rightarrow> if h_if_none_match h = Some t then Not_modified t else Listed js nxt tot approx tag
      | None \<Rightarrow> Listed js nxt tot approx tag)"

definition select_columns :: "PaginationParams \<Rightarrow> extra_params \<Rightarrow> SortBy \<Rightarrow> string list \<Rightarrow> string list" where
  "select_columns q x b cols =
     (let add = (\<lambda>c cs. if c \<in> set cs then cs else cs @ [c])
      in add ''created_at'' (add ''id'' (add (SortBy_as_sql_col b) cols)))"

definition check_columns :: "string list \<Rightarrow> AppError + unit" where
  "check_columns cols = check_all (\<lambda>c. require (validate_column_name c) (Validation (''invalid column name: '' @ c))) cols"

definition parse_cursor_value :: "list_env \<Rightarrow> SortBy \<Rightarrow> string \<Rightarrow> AppError + bindval" where
  "parse_cursor_value env b s =
     (case b of
        Ledger \<Rightarrow> (case parse_i64 s of Some n \<Rightarrow> Inr (BInt n) | None \<Rightarrow> Inl (Validation ''invalid ledger cursor''))
      | _ \<Rightarrow> (case parse_time env s of Some t \<Rightarrow> Inr (BTime t) | None \<Rightarrow> Inl (Validation ''invalid timestamp cursor'')))"

text \<open>
  The cursor path. The order by relevance is never reached, since its column does not pass the check; the
  ranking itself is therefore not needed.
\<close>

definition cursor_page ::
  "list_env \<Rightarrow> list_headers \<Rightarrow> event_rec list \<Rightarrow> PaginationParams \<Rightarrow> extra_params \<Rightarrow>
   int option \<Rightarrow> int option \<Rightarrow> string list \<Rightarrow> string list \<Rightarrow> SortBy \<Rightarrow> SortOrder \<Rightarrow> string \<Rightarrow> AppError + list_response" where
  "cursor_page env h tbl q x from_ts to_ts ids cols b d cur =
     and_then (decode_cursor_tagged (codec env) cur) (\<lambda>(tag, txt, u).
     and_then (require (tag = SortBy_as_tag b) (Validation ''cursor sort column does not match sort_by'')) (\<lambda>_.
     let ranked = (x_rank_by_relevance x = Some True); lmt = page_limit (q_limit q) in
     and_then (require (\<not> (ranked \<and> q_search q = None)) (Validation ''rank_by_relevance requires search query'')) (\<lambda>_.
     and_then (check_columns (select_columns q x b cols @ (if ranked then [''relevance_score''] else []))) (\<lambda>_.
     and_then (parse_cursor_value env b txt) (\<lambda>v.
     and_then (cursor_binds env q x from_ts to_ts ids) (\<lambda>bs.
     and_then (run_select (pg env) (fst (cursor_conditions env q x from_ts to_ts ids b d))
                 ([v, BUuid u] @ bs @ [BInt lmt])
                 (if b = Ledger then by_position d else by_column b d) 1 (nat lmt) 0 tbl) (\<lambda>rows.
     and_then (case q_format q of None \<Rightarrow> Inr Json
               | Some f \<Rightarrow> (case ScValFormat_from_str f of Inl e \<Rightarrow> Inl (Validation e) | Inr fm \<Rightarrow> Inr fm)) (\<lambda>fmt.
     and_then (rows_to_json env (q_compact q = Some True) fmt cols rows) (\<lambda>js.
     Inr (finish h js (next_of env b lmt rows) None False (etag_for env None rows)))))))))))"

definition offset_page ::
  "list_env \<Rightarrow> list_headers \<Rightarrow> event_rec list \<Rightarrow> PaginationParams \<Rightarrow> extra_params \<Rightarrow>
   int option \<Rightarrow> int option \<Rightarrow> string list \<Rightarrow> string list \<Rightarrow> SortBy \<Rightarrow> SortOrder \<Rightarrow> AppError + list_response" where
  "offset_page env h tbl q x from_ts to_ts ids cols b d =
     (let lmt = page_limit (q_limit q); off = page_offset (q_page q) (q_limit q);
          cs = fst (offset_conditions env q x from_ts to_ts ids) in
     and_then (check_columns (select_columns q x b cols)) (\<lambda>_.
     and_then (run_select (pg env) cs (offset_binds env q x from_ts to_ts ids @ [BInt lmt, BInt off])
                 (by_column b d) 2 (nat lmt) (nat off) tbl) (\<lambda>rows.
     and_then (rows_to_json env (q_compact q = Some True) Json cols rows) (\<lambda>js.
     and_then (if q_exact_count q = Some True \<or> cs \<noteq> []
               then map_sum id (\<lambda>n. (n, False)) (run_count (pg env) cs (count_binds env q x from_ts to_ts) tbl)
               else if tenant env \<noteq> None
               then Inr (length (filter (\<lambda>r. e_tenant r = tenant env) tbl), False)
               else Inr (row_estimate env, True)) (\<lambda>(tot, approx).
     Inr (finish h js (next_of env b lmt rows) (Some tot) approx (etag_for env (Some (int tot)) rows)))))))"

definition get_events ::
  "list_env \<Rightarrow> list_headers \<Rightarrow> event_rec list \<Rightarrow> PaginationParams \<Rightarrow> extra_params \<Rightarrow> AppError + list_response" where
  "get_events env h tbl q x =
     and_then (check_params env h q) (\<lambda>(from_ts, to_ts, ids).
     and_then (resolve_columns q) (\<lambda>cols.
     let d = (case q_sort q of None \<Rightarrow> Desc | Some s \<Rightarrow> s); b = (case q_sort_by q of None \<Rightarrow> Ledger | Some s \<Rightarrow> s) in
     case q_cursor q of
       Some cur \<Rightarrow> cursor_page env h tbl q x from_ts to_ts ids cols b d cur
     | None \<Rightarrow> offset_page env h tbl q x from_ts to_ts ids cols b d))"

section \<open>Which rows a statement selects\<close>

text \<open>The declared meaning of the parameters that both paths share, and of those only the cursor path uses.\<close>

definition shared_filter ::
  "list_env \<Rightarrow> PaginationParams \<Rightarrow> extra_params \<Rightarrow> int option \<Rightarrow> int option \<Rightarrow> string list \<Rightarrow> event_rec \<Rightarrow> bool" where
  "shared_filter env q x from_ts to_ts ids r \<longleftrightarrow>
     given (q_contract_id q) (\<lambda>c r. e_contract r = c) r \<and>
     (ids = [] \<or> e_contract r \<in> set ids) \<and>
     given (q_contract_id_prefix q) (\<lambda>p r. starts_with (e_contract r) (trim p)) r \<and>
     given (q_event_type q) (\<lambda>t r. e_type r = EventType_display t) r \<and>
     given (q_from_ledger q) (\<lambda>l r. l \<le> e_ledger r) r \<and>
     given (q_to_ledger q) (\<lambda>l r. e_ledger r \<le> l) r \<and>
     given (q_ledger_hash q) (\<lambda>s r. e_ledger_hash r = Some s) r \<and>
     given (q_anonymized q) (\<lambda>b r. e_anonymized r = b) r \<and>
     given (q_in_successful_call q) (\<lambda>b r. e_ok r = b) r \<and>
     given (q_schema_version q) (\<lambda>n r. e_schema r = n) r \<and>
     given (q_topic_sym q) (\<lambda>s r. e_topic0 r = Some s) r \<and>
     given (x_topic_filter x) (\<lambda>s r. topic_contains (pg env) (e_data r) s) r \<and>
     given (q_search q) (\<lambda>s r. text_matches (pg env) (e_data r) s) r \<and>
     given from_ts (\<lambda>t r. t \<le> e_timestamp r) r \<and>
     given to_ts (\<lambda>t r. e_timestamp r \<le> t) r \<and>
     e_contract r \<notin> set (x_exclude_contract_ids x) \<and>
     e_type r \<notin> set (x_exclude_event_types x) \<and>
     given (tenant env) (\<lambda>t r. e_tenant r = Some t) r"

definition cursor_only_filter :: "list_env \<Rightarrow> PaginationParams \<Rightarrow> extra_params \<Rightarrow> event_rec \<Rightarrow> bool" where
  "cursor_only_filter env q x r \<longleftrightarrow>
     given (q_topic_0 q) (\<lambda>s r. e_topic0 r = Some s) r \<and>
     given (q_topic_1 q) (\<lambda>s r. topic_at_contains (pg env) (e_data r) 1 (json_string s)) r \<and>
     given (q_topic_2 q) (\<lambda>s r. topic_at_contains (pg env) (e_data r) 2 (json_string s)) r \<and>
     given (q_topic_3 q) (\<lambda>s r. topic_at_contains (pg env) (e_data r) 3 (json_string s)) r \<and>
     given (x_data_pattern x)
       (\<lambda>d r. path_exists (pg env) (e_data r) (format_jsonpath_filter d (case x_pattern x of None \<Rightarrow> [] | Some p \<Rightarrow> p))) r \<and>
     given (q_network q) (\<lambda>n r. e_chain r = Some n) r"

text \<open>The checks guarantee a prefix without wildcards.\<close>

lemma check_params_prefix:
  assumes "check_params env h q = Inr v" "q_contract_id_prefix q = Some p"
  shows "CHR ''%'' \<notin> set (trim p) \<and> CHR ''_'' \<notin> set (trim p)"
proof -
  have "list_all is_ascii_alphanumeric (trim p)"
    using assms by (auto simp: check_params_def and_then_Inr when_given_def check_prefix_def split: if_splits)
  then show ?thesis
    by (auto simp: list_all_iff is_ascii_alphanumeric_def is_ascii_digit_def)
qed

definition wildcard_free :: "PaginationParams \<Rightarrow> bool" where
  "wildcard_free q \<longleftrightarrow> (case q_contract_id_prefix q of None \<Rightarrow> True
     | Some p \<Rightarrow> CHR ''%'' \<notin> set (trim p) \<and> CHR ''_'' \<notin> set (trim p))"

lemma prefix_given:
  "wildcard_free q \<Longrightarrow> given (q_contract_id_prefix q) (\<lambda>p r. sql_like (prefix_pattern p) (e_contract r)) r
     = given (q_contract_id_prefix q) (\<lambda>p r. starts_with (e_contract r) (trim p)) r"
  by (simp add: given_def prefix_pattern_def wildcard_free_def sql_like_prefix split: option.splits)

text \<open>The steps of the two statements.\<close>

definition front_steps :: "list_env \<Rightarrow> PaginationParams \<Rightarrow> extra_params \<Rightarrow> string list \<Rightarrow> step list" where
  "front_steps env q x ids =
     [(ContractEq, bind_opt BText (q_contract_id q)), (ContractAny, bind_list ids),
      (ContractLike, bind_opt (\<lambda>p. BText (prefix_pattern p)) (q_contract_id_prefix q)),
      (TypeEq, bind_opt (\<lambda>t. BText (EventType_display t)) (q_event_type q)), (LedgerGe, bind_opt BInt (q_from_ledger q)),
      (LedgerLe, bind_opt BInt (q_to_ledger q)), (LedgerHashEq, bind_opt BText (q_ledger_hash q)),
      (AnonymizedEq, bind_opt BBool (q_anonymized q)), (CallEq, bind_opt BBool (q_in_successful_call q)),
      (SchemaEq, bind_opt BInt (q_schema_version q)), (Topic0Eq, bind_opt BText (q_topic_sym q)),
      (TopicContains, bind_opt BText (x_topic_filter x))]"

definition topic_steps :: "PaginationParams \<Rightarrow> step list" where
  "topic_steps q =
     [(Topic0Eq, bind_opt BText (q_topic_0 q)), (TopicAt 1, bind_opt (\<lambda>t. BText (json_string t)) (q_topic_1 q)),
      (TopicAt 2, bind_opt (\<lambda>t. BText (json_string t)) (q_topic_2 q)),
      (TopicAt 3, bind_opt (\<lambda>t. BText (json_string t)) (q_topic_3 q))]"

definition back_steps :: "list_env \<Rightarrow> extra_params \<Rightarrow> int option \<Rightarrow> int option \<Rightarrow> step list" where
  "back_steps env x from_ts to_ts =
     [(TimeGe, bind_opt BTime from_ts), (TimeLe, bind_opt BTime to_ts),
      (ContractNotAll, bind_list (x_exclude_contract_ids x)), (TypeNotAll, bind_list (x_exclude_event_types x)),
      (TenantEq, bind_opt BText (tenant env))]"

text \<open>A condition is tested with its own value.\<close>

lemma tests [intro]:
  "arg bs i = Some (BText s) \<Longrightarrow> condition_test P bs (ContractEq i) = Some (\<lambda>r. e_contract r = s)"
  "arg bs i = Some (BTexts ss) \<Longrightarrow> condition_test P bs (ContractAny i) = Some (\<lambda>r. e_contract r \<in> set ss)"
  "arg bs i = Some (BText s) \<Longrightarrow> condition_test P bs (ContractLike i) = Some (\<lambda>r. sql_like s (e_contract r))"
  "arg bs i = Some (BText s) \<Longrightarrow> condition_test P bs (TypeEq i) = Some (\<lambda>r. e_type r = s)"
  "arg bs i = Some (BInt n) \<Longrightarrow> condition_test P bs (LedgerGe i) = Some (\<lambda>r. n \<le> e_ledger r)"
  "arg bs i = Some (BInt n) \<Longrightarrow> condition_test P bs (LedgerLe i) = Some (\<lambda>r. e_ledger r \<le> n)"
  "arg bs i = Some (BText s) \<Longrightarrow> condition_test P bs (LedgerHashEq i) = Some (\<lambda>r. e_ledger_hash r = Some s)"
  "arg bs i = Some (BBool b) \<Longrightarrow> condition_test P bs (AnonymizedEq i) = Some (\<lambda>r. e_anonymized r = b)"
  "arg bs i = Some (BBool b) \<Longrightarrow> condition_test P bs (CallEq i) = Some (\<lambda>r. e_ok r = b)"
  "arg bs i = Some (BInt n) \<Longrightarrow> condition_test P bs (SchemaEq i) = Some (\<lambda>r. e_schema r = n)"
  "arg bs i = Some (BText s) \<Longrightarrow> condition_test P bs (Topic0Eq i) = Some (\<lambda>r. e_topic0 r = Some s)"
  "arg bs i = Some (BText s) \<Longrightarrow> condition_test P bs (TopicContains i) = Some (\<lambda>r. topic_contains P (e_data r) s)"
  "arg bs i = Some (BText s) \<Longrightarrow> condition_test P bs (TopicAt k i) = Some (\<lambda>r. topic_at_contains P (e_data r) k s)"
  "arg bs i = Some (BText s) \<Longrightarrow> condition_test P bs (Search i) = Some (\<lambda>r. text_matches P (e_data r) s)"
  "arg bs i = Some (BText s) \<Longrightarrow> condition_test P bs (DataPath i) = Some (\<lambda>r. path_exists P (e_data r) s)"
  "arg bs i = Some (BTime t) \<Longrightarrow> condition_test P bs (TimeGe i) = Some (\<lambda>r. t \<le> e_timestamp r)"
  "arg bs i = Some (BTime t) \<Longrightarrow> condition_test P bs (TimeLe i) = Some (\<lambda>r. e_timestamp r \<le> t)"
  "arg bs i = Some (BTexts ss) \<Longrightarrow> condition_test P bs (ContractNotAll i) = Some (\<lambda>r. e_contract r \<notin> set ss)"
  "arg bs i = Some (BTexts ss) \<Longrightarrow> condition_test P bs (TypeNotAll i) = Some (\<lambda>r. e_type r \<notin> set ss)"
  "arg bs i = Some (BText s) \<Longrightarrow> condition_test P bs (TenantEq i) = Some (\<lambda>r. e_tenant r = Some s)"
  "arg bs i = Some (BText s) \<Longrightarrow> condition_test P bs (NetworkEq i) = Some (\<lambda>r. e_chain r = Some s)"
  by (simp_all add: arg_defs)

definition front_tests :: "list_env \<Rightarrow> PaginationParams \<Rightarrow> extra_params \<Rightarrow> string list \<Rightarrow> (event_rec \<Rightarrow> bool) list" where
  "front_tests env q x ids =
     [given (q_contract_id q) (\<lambda>c r. e_contract r = c), \<lambda>r. ids = [] \<or> e_contract r \<in> set ids,
      given (q_contract_id_prefix q) (\<lambda>p r. sql_like (prefix_pattern p) (e_contract r)),
      given (q_event_type q) (\<lambda>t r. e_type r = EventType_display t), given (q_from_ledger q) (\<lambda>l r. l \<le> e_ledger r),
      given (q_to_ledger q) (\<lambda>l r. e_ledger r \<le> l), given (q_ledger_hash q) (\<lambda>s r. e_ledger_hash r = Some s),
      given (q_anonymized q) (\<lambda>b r. e_anonymized r = b), given (q_in_successful_call q) (\<lambda>b r. e_ok r = b),
      given (q_schema_version q) (\<lambda>n r. e_schema r = n), given (q_topic_sym q) (\<lambda>s r. e_topic0 r = Some s),
      given (x_topic_filter x) (\<lambda>s r. topic_contains (pg env) (e_data r) s)]"

lemma front_ok: "list_all2 (step_ok (pg env)) (front_steps env q x ids) (front_tests env q x ids)"
  unfolding front_steps_def front_tests_def list_all2_Cons list_all2_Nil
  by (intro conjI step_opt step_list tests; simp)

definition topic_tests :: "list_env \<Rightarrow> PaginationParams \<Rightarrow> (event_rec \<Rightarrow> bool) list" where
  "topic_tests env q =
     [given (q_topic_0 q) (\<lambda>s r. e_topic0 r = Some s),
      given (q_topic_1 q) (\<lambda>s r. topic_at_contains (pg env) (e_data r) 1 (json_string s)),
      given (q_topic_2 q) (\<lambda>s r. topic_at_contains (pg env) (e_data r) 2 (json_string s)),
      given (q_topic_3 q) (\<lambda>s r. topic_at_contains (pg env) (e_data r) 3 (json_string s))]"

lemma topic_ok: "list_all2 (step_ok (pg env)) (topic_steps q) (topic_tests env q)"
  unfolding topic_steps_def topic_tests_def list_all2_Cons list_all2_Nil
  by (intro conjI step_opt step_list tests; simp)

definition back_tests :: "list_env \<Rightarrow> extra_params \<Rightarrow> int option \<Rightarrow> int option \<Rightarrow> (event_rec \<Rightarrow> bool) list" where
  "back_tests env x from_ts to_ts =
     [given from_ts (\<lambda>t r. t \<le> e_timestamp r), given to_ts (\<lambda>t r. e_timestamp r \<le> t),
      \<lambda>r. x_exclude_contract_ids x = [] \<or> e_contract r \<notin> set (x_exclude_contract_ids x),
      \<lambda>r. x_exclude_event_types x = [] \<or> e_type r \<notin> set (x_exclude_event_types x),
      given (tenant env) (\<lambda>t r. e_tenant r = Some t)]"

lemma back_ok: "list_all2 (step_ok (pg env)) (back_steps env x from_ts to_ts) (back_tests env x from_ts to_ts)"
  unfolding back_steps_def back_tests_def list_all2_Cons list_all2_Nil
  by (intro conjI step_opt step_list tests; simp)

text \<open>The statement of the offset path selects the rows that satisfy the declared filter.\<close>

definition offset_steps where
  "offset_steps env q x from_ts to_ts ids =
     front_steps env q x ids @ [(Search, bind_opt BText (q_search q))] @ back_steps env x from_ts to_ts"

lemma offset_conditions_steps:
  "push_all (steps_of (offset_steps env q x from_ts to_ts ids)) ([], 1) = offset_conditions env q x from_ts to_ts ids"
  by (simp add: offset_conditions_def maybe_add_tenant_condition_def offset_steps_def front_steps_def back_steps_def
      steps_of_def push_all_Cons)

lemma offset_binds_steps:
  "concat (map snd (offset_steps env q x from_ts to_ts ids)) = offset_binds env q x from_ts to_ts ids"
  by (simp add: offset_binds_def tail_binds_def offset_steps_def front_steps_def back_steps_def)

lemma search_ok:
  "list_all2 (step_ok (pg env)) [(Search, bind_opt BText (q_search q))]
     [given (q_search q) (\<lambda>s r. text_matches (pg env) (e_data r) s)]"
  unfolding list_all2_Cons list_all2_Nil by (intro conjI step_opt tests; simp)

definition offset_tests where
  "offset_tests env q x from_ts to_ts ids =
     front_tests env q x ids @ [given (q_search q) (\<lambda>s r. text_matches (pg env) (e_data r) s)]
     @ back_tests env x from_ts to_ts"

lemma offset_ok:
  "list_all2 (step_ok (pg env)) (offset_steps env q x from_ts to_ts ids) (offset_tests env q x from_ts to_ts ids)"
  unfolding offset_steps_def offset_tests_def by (intro list_all2_appendI front_ok search_ok back_ok)

lemma shared_filter_tests:
  assumes "wildcard_free q"
  shows "list_all (\<lambda>p. p r) (offset_tests env q x from_ts to_ts ids) \<longleftrightarrow> shared_filter env q x from_ts to_ts ids r"
proof -
  have "(x_exclude_contract_ids x = [] \<or> e_contract r \<notin> set (x_exclude_contract_ids x)) \<longleftrightarrow>
      e_contract r \<notin> set (x_exclude_contract_ids x)"
    "(x_exclude_event_types x = [] \<or> e_type r \<notin> set (x_exclude_event_types x)) \<longleftrightarrow>
      e_type r \<notin> set (x_exclude_event_types x)"
    by auto
  then show ?thesis
    unfolding offset_tests_def front_tests_def back_tests_def shared_filter_def list_all_append
    by (simp add: prefix_given [OF assms] conj_assoc)
qed

lemma offset_built:
  obtains cs i where "push_all (steps_of (offset_steps env q x from_ts to_ts ids)) ([], 1) = (cs, i)"
    and "fst (offset_conditions env q x from_ts to_ts ids) = cs"
  using offset_conditions_steps by (metis prod.collapse)

lemma offset_select:
  assumes "wildcard_free q" "length post = extra"
  shows "run_select (pg env) (fst (offset_conditions env q x from_ts to_ts ids))
           (offset_binds env q x from_ts to_ts ids @ post) first extra n k tbl
       = Inr (take n (drop k (order_by first (filter (shared_filter env q x from_ts to_ts ids) tbl))))"
proof -
  obtain cs i where cs: "push_all (steps_of (offset_steps env q x from_ts to_ts ids)) ([], 1) = (cs, i)"
    and c: "fst (offset_conditions env q x from_ts to_ts ids) = cs"
    by (rule offset_built)
  show ?thesis
    using run_select_aligned [OF offset_ok assms(2) cs] unfolding c offset_binds_steps shared_filter_tests [OF assms(1)] .
qed

lemma offset_count:
  assumes "wildcard_free q" "ids = []" "q_contract_id_prefix q = None"
  shows "run_count (pg env) (fst (offset_conditions env q x from_ts to_ts ids)) (count_binds env q x from_ts to_ts) tbl
       = Inr (length (filter (shared_filter env q x from_ts to_ts ids) tbl))"
proof -
  obtain cs i where cs: "push_all (steps_of (offset_steps env q x from_ts to_ts ids)) ([], 1) = (cs, i)"
    and c: "fst (offset_conditions env q x from_ts to_ts ids) = cs"
    by (rule offset_built)
  have b: "count_binds env q x from_ts to_ts = offset_binds env q x from_ts to_ts ids"
    using assms(2,3) by (simp add: count_binds_def offset_binds_def bind_list_def bind_opt_def)
  show ?thesis
    using run_count_aligned [OF offset_ok cs] unfolding b c offset_binds_steps shared_filter_tests [OF assms(1)] .
qed

text \<open>
  Without a cursor the count statement has a placeholder for a list or a prefix of contract ids, and no
  value for it.
\<close>

lemma offset_placeholders:
  assumes "push_all (steps_of ss) ([], 1) = (cs, i)" "list_all2 (step_ok P) ss ps"
  shows "sum_list (map placeholders cs) = length (concat (map snd ss))"
  using aligned [OF assms(2), of 1 "[]" "[]" "[]" "[]"] assms(1) by auto

lemma count_fails:
  assumes "ids \<noteq> [] \<or> q_contract_id_prefix q \<noteq> None"
  shows "run_count (pg env) (fst (offset_conditions env q x from_ts to_ts ids)) (count_binds env q x from_ts to_ts) tbl
       = Inl DB_ERROR"
proof -
  obtain cs i where cs: "push_all (steps_of (offset_steps env q x from_ts to_ts ids)) ([], 1) = (cs, i)"
    and c: "fst (offset_conditions env q x from_ts to_ts ids) = cs"
    by (rule offset_built)
  have "length (offset_binds env q x from_ts to_ts ids) \<noteq> length (count_binds env q x from_ts to_ts)"
    using assms by (auto simp: offset_binds_def count_binds_def bind_list_def bind_opt_def)
  then show ?thesis
    using offset_placeholders [OF cs offset_ok] unfolding c run_count_def offset_binds_steps by simp
qed

text \<open>The statement of the cursor path, as long as it does not have both filters on event data.\<close>

definition cursor_steps where
  "cursor_steps env q x from_ts to_ts ids =
     front_steps env q x ids @ topic_steps q @ [(Search, bind_opt BText (q_search q)),
       (DataPath, bind_opt (\<lambda>d. BText (format_jsonpath_filter d (case x_pattern x of None \<Rightarrow> [] | Some p \<Rightarrow> p))) (x_data_pattern x))]
     @ back_steps env x from_ts to_ts @ [(NetworkEq, bind_opt BText (q_network q))]"

lemma cursor_conditions_steps:
  "push_all (steps_of (cursor_steps env q x from_ts to_ts ids)) ([CursorAfter b d 1 2], 3)
     = cursor_conditions env q x from_ts to_ts ids b d"
  by (simp add: cursor_conditions_def maybe_add_tenant_condition_def cursor_steps_def front_steps_def back_steps_def
      topic_steps_def steps_of_def push_all_Cons)

lemma cursor_binds_steps:
  assumes "q_search q = None \<or> x_data_pattern x = None" "x_data_pattern x = None \<or> x_pattern x \<noteq> None"
  shows "cursor_binds env q x from_ts to_ts ids = Inr (concat (map snd (cursor_steps env q x from_ts to_ts ids)))"
proof -
  let ?path = "bind_opt (\<lambda>d. BText (format_jsonpath_filter d (case x_pattern x of None \<Rightarrow> [] | Some p \<Rightarrow> p))) (x_data_pattern x)"
  have "pattern_bind x = Inr ?path"
    using assms(2) by (auto simp: pattern_bind_def bind_opt_def split: option.split)
  moreover have "?path @ bind_opt BText (q_search q) = bind_opt BText (q_search q) @ ?path"
    using assms(1) by (auto simp: bind_opt_def)
  ultimately show ?thesis
    by (simp add: cursor_binds_def cursor_binds_front_def cursor_binds_back_def cursor_steps_def
      front_steps_def back_steps_def topic_steps_def)
qed

definition data_tests where
  "data_tests env q x =
     [given (q_search q) (\<lambda>s r. text_matches (pg env) (e_data r) s),
      given (x_data_pattern x) (\<lambda>d r. path_exists (pg env) (e_data r)
        (format_jsonpath_filter d (case x_pattern x of None \<Rightarrow> [] | Some p \<Rightarrow> p)))]"

definition cursor_tests where
  "cursor_tests env q x from_ts to_ts ids = front_tests env q x ids @ topic_tests env q @ data_tests env q x
     @ back_tests env x from_ts to_ts @ [given (q_network q) (\<lambda>n r. e_chain r = Some n)]"

lemma cursor_ok:
  "list_all2 (step_ok (pg env)) (cursor_steps env q x from_ts to_ts ids) (cursor_tests env q x from_ts to_ts ids)"
proof -
  have d: "list_all2 (step_ok (pg env)) [(Search, bind_opt BText (q_search q)),
       (DataPath, bind_opt (\<lambda>d. BText (format_jsonpath_filter d (case x_pattern x of None \<Rightarrow> [] | Some p \<Rightarrow> p))) (x_data_pattern x))]
     (data_tests env q x)"
    unfolding data_tests_def list_all2_Cons list_all2_Nil by (intro conjI step_opt tests; simp)
  have n: "list_all2 (step_ok (pg env)) [(NetworkEq, bind_opt BText (q_network q))]
      [given (q_network q) (\<lambda>n r. e_chain r = Some n)]"
    unfolding list_all2_Cons list_all2_Nil by (intro conjI step_opt tests; simp)
  show ?thesis
    unfolding cursor_steps_def cursor_tests_def by (intro list_all2_appendI front_ok topic_ok d back_ok n)
qed

lemma cursor_only_tests:
  assumes "wildcard_free q"
  shows "list_all (\<lambda>p. p r) (cursor_tests env q x from_ts to_ts ids)
    \<longleftrightarrow> shared_filter env q x from_ts to_ts ids r \<and> cursor_only_filter env q x r"
proof -
  have s: "shared_filter env q x from_ts to_ts ids r \<longleftrightarrow> list_all (\<lambda>p. p r) (front_tests env q x ids) \<and>
      given (q_search q) (\<lambda>s r. text_matches (pg env) (e_data r) s) r \<and>
      list_all (\<lambda>p. p r) (back_tests env x from_ts to_ts)"
    unfolding shared_filter_tests [OF assms, symmetric] offset_tests_def by simp
  have c: "cursor_only_filter env q x r \<longleftrightarrow> list_all (\<lambda>p. p r) (topic_tests env q) \<and>
      given (x_data_pattern x) (\<lambda>d r. path_exists (pg env) (e_data r)
        (format_jsonpath_filter d (case x_pattern x of None \<Rightarrow> [] | Some p \<Rightarrow> p))) r \<and>
      given (q_network q) (\<lambda>n r. e_chain r = Some n) r"
    by (simp add: cursor_only_filter_def topic_tests_def)
  show ?thesis
    unfolding s c cursor_tests_def data_tests_def list_all_append by (simp only: list.pred_inject simp_thms) blast
qed

lemma cursor_built:
  obtains cs i where "push_all (steps_of (cursor_steps env q x from_ts to_ts ids)) ([CursorAfter b d 1 2], 3) = (cs, i)"
    and "fst (cursor_conditions env q x from_ts to_ts ids b d) = cs"
  using cursor_conditions_steps by (metis prod.collapse)

lemma cursor_select:
  assumes w: "wildcard_free q" and "q_search q = None \<or> x_data_pattern x = None"
    and "cursor_binds env q x from_ts to_ts ids = Inr bs"
    and v: "v = (if b = Ledger then BInt w else BTime w)"
  shows "run_select (pg env) (fst (cursor_conditions env q x from_ts to_ts ids b d)) ([v, BUuid u] @ bs @ [BInt l]) first 1 n 0 tbl
       = Inr (take n (order_by first (filter (\<lambda>r. after_cursor b d (w, u) r
            \<and> shared_filter env q x from_ts to_ts ids r \<and> cursor_only_filter env q x r) tbl)))"
proof -
  have pat: "x_data_pattern x = None \<or> x_pattern x \<noteq> None"
    using assms(3) by (auto simp: cursor_binds_def pattern_bind_def and_then_Inr split: option.splits)
  have bs: "bs = concat (map snd (cursor_steps env q x from_ts to_ts ids))"
    using cursor_binds_steps [OF assms(2) pat] assms(3) by simp
  obtain cs i where cs: "push_all (steps_of (cursor_steps env q x from_ts to_ts ids)) ([CursorAfter b d 1 2], 3) = (cs, i)"
    and c: "fst (cursor_conditions env q x from_ts to_ts ids b d) = cs"
    by (rule cursor_built)
  have first: "condition_test (pg env) ([v, BUuid u] @ concat (map snd (cursor_steps env q x from_ts to_ts ids)) @ [BInt l])
      (CursorAfter b d 1 2) = Some (after_cursor b d (w, u))"
    by (simp add: v arg_defs arg_def)
  have l: "length [BInt l] = 1" by simp
  show ?thesis
    using run_select_cursor [OF cursor_ok l first cs, of "first" n 0 tbl]
    unfolding c bs cursor_only_tests [OF w] drop_0 .
qed

end
