(* ===== verification/Event_Pages.thy ===== *)
theory Event_Pages
  imports Event_Listing
begin

text \<open>
  What the list endpoints of \<open>Event_Listing\<close> answer: the page of an offset request, the requests that
  cannot be answered, and what a client collects that follows the cursors. \<open>get_events\<close> in ledger order and
  \<open>get_recent_events\<close> (modelled here) provide the pagination contract of \<open>Keyset_Paging\<close>.
\<close>

section \<open>Pages through an offset\<close>

definition row_json :: "list_env \<Rightarrow> ScValFormat \<Rightarrow> string list \<Rightarrow> event_rec \<Rightarrow> json" where
  "row_json env fmt cols r = (case insert_columns env False fmt r cols [] of Inr kvs \<Rightarrow> JObject kvs | Inl _ \<Rightarrow> JNull)"

lemma column_json_total: "\<exists>v. column_json env False fmt r c = Inr v"
  by (simp add: column_json_def Let_def)

lemma insert_columns_total: "\<exists>kvs. insert_columns env False fmt r cs m = Inr kvs"
proof (induction cs arbitrary: m)
  case (Cons c cs)
  obtain v where "column_json env False fmt r c = Inr v" using column_json_total by blast
  then show ?case using Cons.IH by (cases v) simp_all
qed simp

lemma rows_to_json_plain: "rows_to_json env False fmt cols rows = Inr (map (row_json env fmt cols) rows)"
proof (induction rows)
  case (Cons r rows)
  obtain kvs where "insert_columns env False fmt r cols [] = Inr kvs" using insert_columns_total by blast
  then show ?case using Cons.IH by (simp add: row_json_def)
qed simp

lemma check_all_iff: "check_all f xs = Inr () \<longleftrightarrow> (\<forall>x\<in>set xs. f x = Inr ())"
  by (induction xs) (auto simp: and_then_def split: sum.split)

lemma resolved_columns: "resolve_columns q = Inr cols \<Longrightarrow> c \<in> set cols \<Longrightarrow> c \<in> set ALLOWED_FIELDS"
  by (auto simp: resolve_columns_def columns_def Let_def filter_empty_conv split: option.splits if_splits sum.splits)

lemma check_select_columns:
  assumes "resolve_columns q = Inr cols" shows "check_columns (select_columns q' x b cols) = Inr ()"
proof -
  have "set (select_columns q' x b cols) \<subseteq> set cols \<union> {''created_at'', ''id'', SortBy_as_sql_col b}"
    by (auto simp: select_columns_def Let_def split: if_splits)
  moreover have "{''created_at'', ''id'', SortBy_as_sql_col b} \<subseteq> set ALLOWED_FIELDS"
    by (cases b) (simp_all add: ALLOWED_FIELDS_def SortBy_as_sql_col_def)
  ultimately have "\<forall>c \<in> set (select_columns q' x b cols). validate_column_name c"
    using resolved_columns [OF assms] ALLOWED_FIELDS_wellformed by blast
  then show ?thesis by (simp add: check_columns_def check_all_iff require_def)
qed

definition sort_dir :: "PaginationParams \<Rightarrow> SortOrder" where
  "sort_dir q = (case q_sort q of None \<Rightarrow> Desc | Some s \<Rightarrow> s)"

definition sort_col :: "PaginationParams \<Rightarrow> SortBy" where
  "sort_col q = (case q_sort_by q of None \<Rightarrow> Ledger | Some s \<Rightarrow> s)"

text \<open>The rows of a page: the declared filter, the declared order, and a window of it.\<close>

definition page_rows where
  "page_rows env q x from_ts to_ts ids tbl =
     take (nat (page_limit (q_limit q))) (drop (nat (page_offset (q_page q) (q_limit q)))
       (order_by (by_column (sort_col q) (sort_dir q)) (filter (shared_filter env q x from_ts to_ts ids) tbl)))"

definition exact_total :: "list_env \<Rightarrow> PaginationParams \<Rightarrow> extra_params \<Rightarrow> int option \<Rightarrow> int option \<Rightarrow> bool" where
  "exact_total env q x from_ts to_ts \<longleftrightarrow> q_exact_count q = Some True \<or> fst (offset_conditions env q x from_ts to_ts []) \<noteq> []"

lemma check_params_ids: "check_params env h q = Inr (f, t, ids) \<Longrightarrow> parse_contract_ids (q_contract_ids q) = Inr ids"
  by (auto simp: check_params_def and_then_Inr)

lemma check_params_wildcards: "check_params env h q = Inr v \<Longrightarrow> wildcard_free q"
  using check_params_prefix [of env h q v] by (auto simp: wildcard_free_def split: option.splits)

lemma no_conditions_no_tenant:
  "fst (offset_conditions env q x from_ts to_ts ids) = [] \<Longrightarrow> tenant env = None"
  by (simp add: offset_conditions_def maybe_add_tenant_condition_def push_if_def split: if_splits)

lemma offset_answer:
  assumes "check_params env h q = Inr (from_ts, to_ts, ids)" "resolve_columns q = Inr cols"
    and "q_cursor q = None" "q_contract_ids q = None" "q_contract_id_prefix q = None" "q_compact q \<noteq> Some True"
    and "h_if_none_match h = None"
  shows "\<exists>tag. get_events env h tbl q x = Inr (Listed
      (map (row_json env Json cols) (page_rows env q x from_ts to_ts [] tbl))
      (next_of env (sort_col q) (page_limit (q_limit q)) (page_rows env q x from_ts to_ts [] tbl))
      (Some (if exact_total env q x from_ts to_ts then length (filter (shared_filter env q x from_ts to_ts []) tbl)
             else row_estimate env))
      (\<not> exact_total env q x from_ts to_ts) tag)"
proof -
  have ids: "ids = []" using check_params_ids [OF assms(1)] assms(4) by (simp add: parse_contract_ids_def)
  note w = check_params_wildcards [OF assms(1)]
  have sel: "run_select (pg env) (fst (offset_conditions env q x from_ts to_ts []))
      (offset_binds env q x from_ts to_ts [] @ [BInt l, BInt k]) (by_column (sort_col q) (sort_dir q)) 2 n m tbl
      = Inr (take n (drop m (order_by (by_column (sort_col q) (sort_dir q)) (filter (shared_filter env q x from_ts to_ts []) tbl))))"
    for l k n m by (rule offset_select [OF w]) simp
  note cnt = offset_count [OF w refl assms(5)]
  have "q_exact_count q \<noteq> Some True \<Longrightarrow> \<not> exact_total env q x from_ts to_ts \<Longrightarrow> tenant env = None"
    using no_conditions_no_tenant by (simp add: exact_total_def)
  then have tot: "(if q_exact_count q = Some True \<or> fst (offset_conditions env q x from_ts to_ts []) \<noteq> []
       then map_sum id (\<lambda>n. (n, False)) (run_count (pg env) (fst (offset_conditions env q x from_ts to_ts [])) (count_binds env q x from_ts to_ts) tbl)
       else if tenant env \<noteq> None then Inr (length (filter (\<lambda>r. e_tenant r = tenant env) tbl), False)
       else Inr (row_estimate env, True))
    = Inr (if exact_total env q x from_ts to_ts then length (filter (shared_filter env q x from_ts to_ts []) tbl)
             else row_estimate env, \<not> exact_total env q x from_ts to_ts)"
    by (auto simp: exact_total_def cnt)
  have fin: "\<exists>tg. finish h js nxt tt ap tag = Listed js nxt tt ap tg" for js nxt tt ap tag
    using assms(7) by (simp add: finish_def split: option.split)
  show ?thesis
    using assms(1,2,3,6)
    unfolding get_events_def offset_page_def Let_def ids sort_dir_def [symmetric] sort_col_def [symmetric]
    by (simp add: check_select_columns [OF assms(2)] sel tot rows_to_json_plain page_rows_def)
      (use fin in blast)
qed

text \<open>
  A request without cursor and without the two contract-id filters is answered with the page of the
  rows that satisfy every filter given, in the order asked for, rendered with the columns asked for; the total
  is exact unless no filter is given and no exact count is asked for, in which case it is the planner's
  estimate, and is marked as such.
\<close>

theorem offset_listing:
  assumes "check_params env h q = Inr (from_ts, to_ts, ids)" "resolve_columns q = Inr cols"
    and "q_cursor q = None" "q_contract_ids q = None" "q_contract_id_prefix q = None" "q_compact q \<noteq> Some True"
    and "h_if_none_match h = None"
  shows "\<exists>nxt tag. get_events env h tbl q x = Inr (Listed
      (map (row_json env Json cols) (page_rows env q x from_ts to_ts [] tbl)) nxt
      (Some (if exact_total env q x from_ts to_ts then length (filter (shared_filter env q x from_ts to_ts []) tbl)
             else row_estimate env))
      (\<not> exact_total env q x from_ts to_ts) tag)"
  using offset_answer [OF assms, of tbl x] by blast

text \<open>
  C9. The two contract-id filters are unusable on the first page: without a cursor every request that
  gives a list or a prefix of contract ids and passes the checks fails with a database error, because the
  total is counted with a statement whose values leave theirs out. With a cursor both work.
\<close>

theorem contract_filters_need_cursor:
  assumes "check_params env h q = Inr (from_ts, to_ts, ids)" "resolve_columns q = Inr cols" "q_cursor q = None"
    and "q_contract_ids q \<noteq> None \<or> q_contract_id_prefix q \<noteq> None" "q_compact q \<noteq> Some True"
  shows "get_events env h tbl q x = Inl DB_ERROR"
proof -
  have ids: "ids \<noteq> [] \<or> q_contract_id_prefix q \<noteq> None"
    using check_params_ids [OF assms(1)] assms(4)
    by (auto simp: parse_contract_ids_def Let_def and_then_def split: option.splits if_splits sum.splits)
  note w = check_params_wildcards [OF assms(1)]
  have sel: "run_select (pg env) (fst (offset_conditions env q x from_ts to_ts ids))
      (offset_binds env q x from_ts to_ts ids @ [BInt l, BInt k]) first 2 n m tbl
      = Inr (take n (drop m (order_by first (filter (shared_filter env q x from_ts to_ts ids) tbl))))"
    for l k n m first by (rule offset_select [OF w]) simp
  have ne: "fst (offset_conditions env q x from_ts to_ts ids) \<noteq> []"
  proof
    assume empty: "fst (offset_conditions env q x from_ts to_ts ids) = []"
    obtain cs i where cs: "push_all (steps_of (offset_steps env q x from_ts to_ts ids)) ([], 1) = (cs, i)"
      and c: "fst (offset_conditions env q x from_ts to_ts ids) = cs"
      by (rule offset_built)
    have "offset_binds env q x from_ts to_ts ids = []"
      using offset_placeholders [OF cs offset_ok] empty unfolding c offset_binds_steps by simp
    then show False using ids by (simp add: offset_binds_def)
  qed
  show ?thesis
    using assms(1,2,3,5) ne
    unfolding get_events_def offset_page_def Let_def
    by (simp add: check_select_columns [OF assms(2)] sel rows_to_json_plain count_fails [OF ids])
qed

text \<open>
  The offset path reads neither the network nor the topic parameters: the answer is the one without
  them. A client that pages from the start with such a filter gets unfiltered events first.
\<close>

lemma check_params_update:
  "check_params env h (q\<lparr>q_network := n, q_topic_0 := a, q_topic_1 := b, q_topic_2 := c, q_topic_3 := d\<rparr>)
     = check_params env h q"
  "resolve_columns (q\<lparr>q_network := n, q_topic_0 := a, q_topic_1 := b, q_topic_2 := c, q_topic_3 := d\<rparr>)
     = resolve_columns q"
  "check_params env h (q\<lparr>q_cursor := cur\<rparr>) = check_params env h q"
  "resolve_columns (q\<lparr>q_cursor := cur\<rparr>) = resolve_columns q"
  by (simp_all add: check_params_def resolve_columns_def)

theorem offset_ignores_network_and_topics:
  assumes "q_cursor q = None"
  shows "get_events env h tbl (q\<lparr>q_network := n, q_topic_0 := a, q_topic_1 := b, q_topic_2 := c, q_topic_3 := d\<rparr>) x
       = get_events env h tbl q x"
proof -
  let ?q = "q\<lparr>q_network := n, q_topic_0 := a, q_topic_1 := b, q_topic_2 := c, q_topic_3 := d\<rparr>"
  note c = check_params_update(1,2)
  have o: "offset_conditions env ?q x f t ids = offset_conditions env q x f t ids"
      "offset_binds env ?q x f t ids = offset_binds env q x f t ids"
      "count_binds env ?q x f t = count_binds env q x f t" for f t ids
    by (simp_all add: offset_conditions_def offset_binds_def count_binds_def tail_binds_def)
  have "offset_page env h tbl ?q x f t ids cols b' d' = offset_page env h tbl q x f t ids cols b' d'" for f t ids cols b' d'
    unfolding offset_page_def o by (simp add: select_columns_def)
  with assms show ?thesis by (simp add: get_events_def c)
qed

section \<open>Pages through a cursor\<close>

text \<open>Ranking by relevance is refused whatever the query: its column is not on the list of columns.\<close>

theorem ranking_always_refused:
  "if q_cursor q \<noteq> None \<and> x_rank_by_relevance x = Some True
   then \<exists>e. get_events env h tbl q x = Inl e else True"
proof (cases "q_cursor q \<noteq> None \<and> x_rank_by_relevance x = Some True")
  case True
  then obtain cur where cur: "q_cursor q = Some cur" by blast
  have "\<not> validate_column_name ''relevance_score''"
    by (simp add: validate_column_name_def ALLOWED_FIELDS_def)
  then have "check_columns (cs @ [''relevance_score'']) \<noteq> Inr ()" for cs
    by (simp add: check_columns_def check_all_iff require_def)
  then have bad: "\<exists>e. check_columns (cs @ [''relevance_score'']) = Inl e" for cs
    by (cases "check_columns (cs @ [''relevance_score''])") auto
  have "\<exists>e. cursor_page env h tbl q x f t ids cols b d cur = Inl e" for f t ids cols b d
  proof -
    obtain e where "check_columns (select_columns q x b cols @ [''relevance_score'']) = Inl e" using bad by blast
    then show ?thesis
      using True by (auto simp: cursor_page_def Let_def and_then_def require_def split: sum.split prod.split)
  qed
  then show ?thesis
    using True cur by (auto simp: get_events_def Let_def and_then_def split: sum.split prod.split)
qed auto

text \<open>
  A page in the order of a timestamp hands out a cursor that the service rejects: the printed time has
  colons, the cursor is cut at the first of them, and the rest is no UUID. The hypothesis on the printer is
  the form of an RFC 3339 time: something without a colon up to the hour, then a colon, the minutes, another colon,
  the seconds and the offset.
\<close>

definition rfc3339_form :: "list_env \<Rightarrow> bool" where
  "rfc3339_form env \<longleftrightarrow> (\<forall>t. \<exists>d r. rfc3339 env t = d @ '':'' @ r \<and> CHR '':'' \<notin> set d \<and> 11 \<le> length r)
     \<and> (\<forall>u. 36 \<le> length (show_uuid (codec env) u))"

theorem time_cursors_rejected:
  assumes K: "codec_laws (codec env)" and form: "rfc3339_form env" and b: "b \<noteq> Ledger"
    and nxt: "next_of env b lmt rows = Some cur"
    and q: "q_cursor q = Some cur" "check_params env h q = Inr v" "resolve_columns q = Inr cols"
  shows "get_events env h tbl q x = Inl INVALID_CURSOR"
proof -
  obtain t where c: "cur = encode_cursor_tagged (codec env) (SortBy_as_tag b) (rfc3339 env t) (e_id (last rows))"
    using nxt b by (cases b) (auto simp: next_of_def cursor_value_def split: if_splits)
  obtain d r where f: "rfc3339 env t = d @ '':'' @ r" "CHR '':'' \<notin> set d" "11 \<le> length r"
    using form by (metis rfc3339_form_def)
  have "36 \<le> length (show_uuid (codec env) (e_id (last rows)))"
    using form by (simp add: rfc3339_form_def)
  then have "decode_cursor_tagged (codec env) cur = Inl INVALID_CURSOR"
    unfolding c f(1) using f(2,3) by (intro decode_cursor_tagged_colons [OF K]) (cases b; simp add: SortBy_as_tag_def)+
  then show ?thesis
    using q by (cases v) (simp add: get_events_def cursor_page_def Let_def)
qed

lemma push_all_mono: "set (fst st) \<subseteq> set (fst (push_all ss st))"
proof (induction ss arbitrary: st)
  case (Cons s ss)
  obtain g c where s: "s = (g, c)" by (cases s)
  have "set (fst st) \<subseteq> set (fst (push_if g c st))" by (auto simp: push_if_def)
  also have "\<dots> \<subseteq> set (fst (push_all ss (push_if g c st)))" by (rule Cons.IH)
  finally show ?case by (simp add: s push_all_Cons)
qed simp

lemma push_all_next:
  "list_all2 (step_ok P) ss ps \<Longrightarrow> snd (push_all (steps_of ss) st) = snd st + length (concat (map snd ss))"
proof (induction ss ps arbitrary: st rule: list_all2_induct)
  case (Cons s ss p ps)
  then show ?case by (cases s) (auto simp: steps_of_def push_all_Cons push_if_def step_ok_def)
qed (simp add: steps_of_def)

text \<open>
  With both filters on event data the cursor path tests the text search with the JSON path and the path
  filter with the search text: the conditions are numbered in one order and the values bound in the other.
\<close>

theorem search_and_path_swapped:
  assumes "q_search q = Some s" "x_data_pattern x = Some d" "x_pattern x = Some p"
  shows "\<exists>bs i. cursor_binds env q x from_ts to_ts ids = Inr bs \<and>
     {Search i, DataPath (i + 1)} \<subseteq> set (fst (cursor_conditions env q x from_ts to_ts ids b dir)) \<and>
     arg ([v, w] @ bs) i = Some (BText (format_jsonpath_filter d p)) \<and> arg ([v, w] @ bs) (i + 1) = Some (BText s)"
proof -
  let ?front = "front_steps env q x ids @ topic_steps q"
  obtain cs i where f: "push_all (steps_of ?front) ([CursorAfter b dir 1 2], 3) = (cs, i)" by fastforce
  have ok: "list_all2 (step_ok (pg env)) ?front (front_tests env q x ids @ topic_tests env q)"
    by (intro list_all2_appendI front_ok topic_ok)
  have fr: "concat (map snd ?front) = cursor_binds_front q x ids"
    by (simp add: cursor_binds_front_def front_steps_def topic_steps_def)
  have i: "i = length (cursor_binds_front q x ids) + 3"
    using push_all_next [OF ok, of "([CursorAfter b dir 1 2], 3)"] unfolding f fr by simp
  have app: "push_all (as @ bs) st = push_all bs (push_all as st)" for as bs st by (simp add: push_all_def)
  have "cursor_conditions env q x from_ts to_ts ids b dir = push_all
      (steps_of (back_steps env x from_ts to_ts @ [(NetworkEq, bind_opt BText (q_network q))]))
      (push_all [(True, Search), (True, DataPath)] (push_all (steps_of ?front) ([CursorAfter b dir 1 2], 3)))"
    using assms(1,2) unfolding cursor_conditions_steps [symmetric] cursor_steps_def app [symmetric]
    by (simp add: steps_of_def bind_opt_def)
  also have "\<dots> = push_all (steps_of (back_steps env x from_ts to_ts @ [(NetworkEq, bind_opt BText (q_network q))]))
      (cs @ [Search i, DataPath (i + 1)], i + 2)"
    unfolding f by (simp add: push_all_Cons push_if_def)
  finally have "{Search i, DataPath (i + 1)} \<subseteq> set (fst (cursor_conditions env q x from_ts to_ts ids b dir))"
    using push_all_mono [of "(cs @ [Search i, DataPath (i + 1)], i + 2)"] by fastforce
  moreover have "cursor_binds env q x from_ts to_ts ids = Inr (cursor_binds_front q x ids
      @ [BText (format_jsonpath_filter d p), BText s] @ cursor_binds_back env q x from_ts to_ts)"
    using assms by (simp add: cursor_binds_def pattern_bind_def bind_opt_def)
  ultimately show ?thesis
    by (intro exI conjI) (assumption, assumption, simp_all add: i arg_def nth_append nth_Cons')
qed

section \<open>Following the cursors\<close>

definition ledger_key :: "event_rec \<Rightarrow> int \<times> nat" where "ledger_key r = (e_ledger r, e_id r)"

lemma by_column_key: "by_column Ledger d = key_order ledger_key d"
  by (intro ext) (simp add: by_column_def key_order_def key_before_def ledger_key_def)

lemma after_cursor_key: "after_cursor Ledger d k r = key_before d k (ledger_key r)"
  by (simp add: after_cursor_def key_before_def ledger_key_def)




lemma distinct_keys: "distinct (map e_id tbl) \<Longrightarrow> distinct (map ledger_key tbl)"
  by (auto simp: distinct_map inj_on_def ledger_key_def)



text \<open>The endpoint as a client sees it that takes the cursor of each answer to the next request.\<close>

definition listing_page ::
  "list_env \<Rightarrow> list_headers \<Rightarrow> event_rec list \<Rightarrow> PaginationParams \<Rightarrow> extra_params \<Rightarrow> string option \<Rightarrow>
   AppError option + json list \<times> string option" where
  "listing_page env h tbl q x cur =
     (case get_events env h tbl (q\<lparr>q_cursor := cur\<rparr>) x of Inl e \<Rightarrow> Inl (Some e)
      | Inr (Not_modified t) \<Rightarrow> Inl None | Inr (Listed js nxt tot approx tag) \<Rightarrow> Inr (js, nxt))"













section \<open>Examples\<close>

definition blank_params :: PaginationParams where
  "blank_params = \<lparr>q_page = None, q_limit = None, q_exact_count = None, q_fields = None, q_contract_id = None,
     q_contract_ids = None, q_event_type = None, q_from_ledger = None, q_to_ledger = None, q_ledger_hash = None,
     q_cursor = None, q_sort = None, q_sort_by = None, q_in_successful_call = None, q_schema_version = None,
     q_anonymized = None, q_topic_sym = None, q_topic_0 = None, q_topic_1 = None, q_topic_2 = None, q_topic_3 = None,
     q_search = None, q_from_timestamp = None, q_to_timestamp = None, q_compact = None, q_contract_id_prefix = None,
     q_format = None, q_network = None\<rparr>"

definition no_extras :: extra_params where
  "no_extras = \<lparr>x_topic_filter = None, x_exclude_contract_ids = [], x_exclude_event_types = [], x_data_pattern = None,
     x_pattern = None, x_rank_by_relevance = None\<rparr>"

definition no_headers :: list_headers where
  "no_headers = \<lparr>h_authorization = None, h_x_api_key = None, h_if_none_match = None\<rparr>"

definition sample_pg :: pg_ops where
  "sample_pg = \<lparr>topic_contains = (\<lambda>d s. False), topic_at_contains = (\<lambda>d k s. False),
     text_matches = (\<lambda>d s. False), path_exists = (\<lambda>d s. False)\<rparr>"

definition sample_env :: list_env where
  "sample_env = \<lparr>codec = sample_codec, pg = sample_pg, parse_time = parse_i64, rfc3339 = show_int,
     etag_of = (\<lambda>u t n. show_nat u), decrypted = (\<lambda>d. d), rendered = (\<lambda>d f. d), compacted = Inr,
     row_estimate = 0, tenant = None, admin_keys = []\<rparr>"

definition sample_row :: "int \<Rightarrow> nat \<Rightarrow> int \<Rightarrow> event_rec" where
  "sample_row l u pos = \<lparr>e_id = u, e_contract = ''C'', e_type = ''contract'', e_tx_hash = [], e_ledger = l, e_timestamp = 0,
     e_data = JNull, e_data_normalized = None, e_data_decoded = None, e_ledger_hash = None, e_ok = True, e_created_at = 0,
     e_schema = 1, e_anonymized = False, e_topic0 = None, e_tenant = None, e_chain = None, e_tx_index = Some pos,
     e_op_index = Some 0, e_event_index = Some 0\<rparr>"

definition one_by_one :: PaginationParams where
  "one_by_one = blank_params\<lparr>q_limit := Some 1, q_sort := Some Asc, q_fields := Some ''ledger''\<rparr>"

text \<open>
  When the positions and the ids disagree the listing loses rows: here the three events of ledger 5 are
  listed one by one, the cursor after the event with id 9 skips the one with id 7, and the client is told that
  there is nothing more.
\<close>

definition out_of_step :: "event_rec list" where
  "out_of_step = [sample_row 5 3 1, sample_row 5 7 3, sample_row 5 9 2]"

theorem listing_skips_rows:
  "follow 9 (listing_page sample_env no_headers out_of_step (one_by_one\<lparr>q_fields := Some ''id''\<rparr>) no_extras) None
     = Some [[JObject [(''id'', JString ''3'')]], [JObject [(''id'', JString ''9'')]], []] \<and>
   key_rows ledger_key Asc (shared_filter sample_env one_by_one no_extras None None []) out_of_step
     = [sample_row 5 3 1, sample_row 5 7 3, sample_row 5 9 2]"
  by code_simp


text \<open>Witnesses of the other properties of the endpoint.\<close>

theorem offset_listing_witness:
  "\<exists>nxt tag. get_events sample_env no_headers out_of_step one_by_one no_extras = Inr (Listed
      (map (row_json sample_env Json [''ledger'']) (page_rows sample_env one_by_one no_extras None None [] out_of_step)) nxt
      (Some (if exact_total sample_env one_by_one no_extras None None
             then length (filter (shared_filter sample_env one_by_one no_extras None None []) out_of_step)
             else row_estimate sample_env))
      (\<not> exact_total sample_env one_by_one no_extras None None) tag)"
  by (rule offset_listing; code_simp)

definition contract_56 :: string where "contract_56 = CHR ''C'' # replicate 55 (CHR ''A'')"

theorem contract_filters_need_cursor_witness:
  "get_events sample_env no_headers out_of_step (blank_params\<lparr>q_contract_id_prefix := Some ''CAAA''\<rparr>) no_extras = Inl DB_ERROR"
proof (rule contract_filters_need_cursor)
  show "check_params sample_env no_headers (blank_params\<lparr>q_contract_id_prefix := Some ''CAAA''\<rparr>) = Inr (None, None, [])"
    by code_simp
  show "resolve_columns (blank_params\<lparr>q_contract_id_prefix := Some ''CAAA''\<rparr>) = Inr ALLOWED_FIELDS" by code_simp
qed (simp_all add: blank_params_def)

definition clock_env :: list_env where
  "clock_env = sample_env\<lparr>rfc3339 := (\<lambda>t. ''2024-01-01T00:00:00+00:00''),
     codec := sample_codec\<lparr>show_uuid := (\<lambda>u. zero_padded (36 - length (show_nat u)) u)\<rparr>\<rparr>"

lemma clock_codec_laws: "codec_laws (codec clock_env)"
proof -
  let ?K = "codec clock_env"
  have K: "b64_decode ?K (b64_encode ?K s) = Some s" "show_uuid ?K u = zero_padded (36 - length (show_nat u)) u"
    "parse_uuid ?K s = (if 45 < length s then None else digits_value 10 0 s)" for s u
    by (simp_all add: clock_env_def sample_env_def sample_codec_def)
  have "length (show_nat u) \<le> 39" if "u < 2 ^ 128" for u
    using length_show_nat [of u 38] that by simp
  then have "parse_uuid ?K (show_uuid ?K u) = Some u" if "u < 2 ^ 128" for u
    using that unfolding K by (simp add: digits_value_zero_padded) (fastforce simp: zero_padded_def)
  moreover have "CHR '':'' \<notin> set (zero_padded k u)" for k u
  proof
    assume "CHR '':'' \<in> set (zero_padded k u)"
    from zero_padded_digits [OF this] show False by (simp add: is_ascii_digit_def)
  qed
  moreover have "ascii (zero_padded k u)" for k u
    unfolding ascii_def list_all_iff
  proof
    fix c assume "c \<in> set (zero_padded k u)"
    from zero_padded_digits [OF this] show "byte_in 0 0x7F c" by (simp add: is_ascii_digit_def byte_in_def)
  qed
  ultimately show ?thesis
    unfolding codec_laws_def K(1,3) by (auto simp: K(2))
qed

theorem time_cursors_rejected_witness:
  "\<exists>cur. next_of clock_env Timestamp 1 [sample_row 5 3 1] = Some cur \<and>
     get_events clock_env no_headers out_of_step (blank_params\<lparr>q_sort_by := Some Timestamp, q_cursor := Some cur\<rparr>) no_extras
       = Inl INVALID_CURSOR"
proof -
  obtain cur where cur: "next_of clock_env Timestamp 1 [sample_row 5 3 1] = Some cur"
    by (simp add: next_of_def)
  have "rfc3339_form clock_env"
    unfolding rfc3339_form_def
  proof (intro conjI allI)
    fix t show "\<exists>d r. rfc3339 clock_env t = d @ '':'' @ r \<and> CHR '':'' \<notin> set d \<and> 11 \<le> length r"
      by (rule exI [of _ "''2024-01-01T00''"], rule exI [of _ "''00:00+00:00''"]) (simp add: clock_env_def)
    fix u show "36 \<le> length (show_uuid (codec clock_env) u)"
      by (simp add: clock_env_def zero_padded_def)
  qed
  moreover have "check_params clock_env no_headers (blank_params\<lparr>q_sort_by := Some Timestamp, q_cursor := Some cur\<rparr>) = Inr (None, None, [])"
    by (simp add: check_params_def blank_params_def when_given_def require_def opt_parse_def ordered_def parse_contract_ids_def)
  moreover have "resolve_columns (blank_params\<lparr>q_sort_by := Some Timestamp, q_cursor := Some cur\<rparr>) = Inr ALLOWED_FIELDS"
    by (simp add: resolve_columns_def columns_def blank_params_def)
  ultimately have "get_events clock_env no_headers out_of_step (blank_params\<lparr>q_sort_by := Some Timestamp, q_cursor := Some cur\<rparr>) no_extras
       = Inl INVALID_CURSOR"
    by (intro time_cursors_rejected [OF clock_codec_laws _ _ cur]) (simp_all add: blank_params_def)
  with cur show ?thesis by blast
qed

text \<open>
  The ETag of a page identifies its first row only: the page below has changed, and is reported as
  unmodified.
\<close>

definition after_four :: PaginationParams where
  "after_four = blank_params\<lparr>q_cursor := Some ''ledger:4:0'', q_sort := Some Asc, q_fields := Some ''id''\<rparr>"

lemma stale_not_modified:
  "get_events sample_env no_headers [sample_row 5 7 1, sample_row 6 8 1] after_four no_extras
     = Inr (Listed [JObject [(''id'', JString ''7'')], JObject [(''id'', JString ''8'')]] None None False (Some ''7'')) \<and>
   get_events sample_env (no_headers\<lparr>h_if_none_match := Some ''7''\<rparr>) [sample_row 5 7 1, sample_row 6 9 1] after_four no_extras
     = Inr (Not_modified ''7'')"
  by code_simp

section \<open>Recent events\<close>

record RecentParams =
  rp_limit :: "i64 option"
  rp_event_type :: "EventType option"
  rp_contract_id :: "string option"
  rp_cursor :: "string option"
  rp_from_ledger :: "i64 option"
  rp_to_ledger :: "i64 option"

definition recent_limit :: "RecentParams \<Rightarrow> i64" where
  "recent_limit p = clamp (case rp_limit p of None \<Rightarrow> 20 | Some l \<Rightarrow> l) 1 100"

lemma recent_limit_pos: "1 \<le> recent_limit p"
  using clamp_range [of 1 "100 :: int"] by (simp add: recent_limit_def)

definition recent_conditions :: "RecentParams \<Rightarrow> builder" where
  "recent_conditions p = push_all [(rp_contract_id p \<noteq> None, ContractEq), (rp_event_type p \<noteq> None, TypeEq)] ([], 1)"

definition recent_binds :: "RecentParams \<Rightarrow> bindval list" where
  "recent_binds p = bind_opt BText (rp_contract_id p) @ bind_opt (\<lambda>t. BText (EventType_display t)) (rp_event_type p)"

definition recent_select :: "list_env \<Rightarrow> event_rec list \<Rightarrow> RecentParams \<Rightarrow> (int \<times> nat) option \<Rightarrow> AppError + event_rec list" where
  "recent_select env tbl p cur =
     (let (cs, i) = recent_conditions p; n = recent_limit p + 1 in
      case cur of
        None \<Rightarrow> run_select (pg env) cs (recent_binds p @ [BInt n]) (by_column Ledger Desc) 1 (nat n) 0 tbl
      | Some (l, u) \<Rightarrow> run_select (pg env) (cs @ [CursorAfter Ledger Desc i (i + 1)])
          (recent_binds p @ [BInt l, BUuid u, BInt n]) (by_column Ledger Desc) 1 (nat n) 0 tbl)"

definition get_recent_events ::
  "list_env \<Rightarrow> event_rec list \<Rightarrow> RecentParams \<Rightarrow> AppError + event_rec list \<times> string option" where
  "get_recent_events env tbl p =
     and_then (require (rp_from_ledger p = None \<and> rp_to_ledger p = None)
                 (Validation ''from_ledger and to_ledger are not supported on /v1/events/recent'')) (\<lambda>_.
     and_then (when_given (rp_contract_id p) check_contract_id) (\<lambda>_.
     and_then (case rp_cursor p of None \<Rightarrow> Inr None | Some c \<Rightarrow> map_sum id Some (decode_cursor (codec env) c)) (\<lambda>cur.
     and_then (recent_select env tbl p cur) (\<lambda>rows.
     let lmt = nat (recent_limit p); has_next = lmt < length rows; items = (if has_next then take lmt rows else rows)
     in Inr (items, if has_next \<and> items \<noteq> []
                    then Some (encode_cursor (codec env) (e_ledger (last items)) (e_id (last items))) else None)))))"

definition recent_filter :: "RecentParams \<Rightarrow> event_rec \<Rightarrow> bool" where
  "recent_filter p r \<longleftrightarrow> given (rp_contract_id p) (\<lambda>c r. e_contract r = c) r
     \<and> given (rp_event_type p) (\<lambda>t r. e_type r = EventType_display t) r"

text \<open>The rows of a ledger table: the cursor decoder also wants a ledger of 32 bits above zero.\<close>

definition recent_wf :: "cursor_codec \<Rightarrow> event_rec list \<Rightarrow> bool" where
  "recent_wf K tbl \<longleftrightarrow> codec_laws K \<and> distinct (map e_id tbl) \<and>
     (\<forall>r\<in>set tbl. 0 < e_ledger r \<and> e_ledger r \<le> 4294967295 \<and> random_version K (e_id r) \<and> e_id r < 2 ^ 128)"

definition to_cursor :: "cursor_codec \<Rightarrow> int \<times> nat \<Rightarrow> string" where
  "to_cursor K k = encode_cursor K (fst k) (snd k)"

interpretation recent: keyset "recent_wf K" "decode_cursor K" "to_cursor K"
  "key_fetch ledger_key Desc F" ledger_key "key_before Desc" "key_rows ledger_key Desc F" for K F
proof
  fix tbl :: "event_rec list" and r cur n
  assume wf: "recent_wf K tbl"
  then have dist: "distinct (map ledger_key tbl)" by (simp add: recent_wf_def distinct_keys)
  show "key_fetch ledger_key Desc F tbl cur n = take n (filter (\<lambda>r. case cur of None \<Rightarrow> True | Some k \<Rightarrow> key_before Desc k (ledger_key r)) (key_rows ledger_key Desc F tbl))"
    by (rule key_fetch_rows [OF dist])
  show "sorted_wrt (\<lambda>a b. key_before Desc (ledger_key a) (ledger_key b)) (key_rows ledger_key Desc F tbl)"
    by (rule key_rows_sorted [OF dist])
  show "decode_cursor K (to_cursor K (ledger_key r)) = Inr (ledger_key r)" if "r \<in> set (key_rows ledger_key Desc F tbl)"
    using that wf unfolding to_cursor_def ledger_key_def fst_conv snd_conv
    by (intro decode_cursor_encode) (auto simp: recent_wf_def)
qed (rule key_before_asym)

definition recent_tests :: "RecentParams \<Rightarrow> (event_rec \<Rightarrow> bool) list" where
  "recent_tests p = [given (rp_contract_id p) (\<lambda>c r. e_contract r = c),
     given (rp_event_type p) (\<lambda>t r. e_type r = EventType_display t)]"

lemma recent_rows: "recent_select env tbl p cur = Inr (key_fetch ledger_key Desc (recent_filter p) tbl cur (nat (recent_limit p) + 1))"
proof -
  let ?ss = "[(ContractEq, bind_opt BText (rp_contract_id p)), (TypeEq, bind_opt (\<lambda>t. BText (EventType_display t)) (rp_event_type p))]"
  have ok: "list_all2 (step_ok (pg env)) ?ss (recent_tests p)"
    unfolding recent_tests_def list_all2_Cons list_all2_Nil by (intro conjI step_opt tests; simp)
  obtain cs i where c: "recent_conditions p = (cs, i)" by fastforce
  then have cs: "push_all (steps_of ?ss) ([], 1) = (cs, i)" by (simp add: recent_conditions_def steps_of_def)
  have b: "concat (map snd ?ss) = recent_binds p" by (simp add: recent_binds_def)
  have f: "list_all (\<lambda>q. q r) (recent_tests p) \<longleftrightarrow> recent_filter p r" for r
    by (simp add: recent_tests_def recent_filter_def)
  have i: "i = length (recent_binds p) + 1"
    using push_all_next [OF ok, of "([], 1)"] unfolding cs b by simp
  have pos: "nat (recent_limit p + 1) = nat (recent_limit p) + 1"
    using recent_limit_pos [of p] by (simp add: nat_add_distrib)
  show ?thesis
  proof (cases cur)
    case None
    have "length [BInt (recent_limit p + 1)] = 1" by simp
    from run_select_aligned [OF ok this cs, unfolded b f] None show ?thesis
      by (simp add: recent_select_def c key_fetch_def by_column_key after_cursor_key pos)
  next
    case (Some k)
    obtain l u where k: "k = (l, u)" by (cases k)
    let ?bs = "recent_binds p @ [BInt l, BUuid u, BInt (recent_limit p + 1)]"
    obtain ps where ps: "sum_list (map placeholders cs) = length (recent_binds p)"
        "those (map (condition_test (pg env) ?bs) cs) = Some ps" "\<And>r. list_all (\<lambda>q. q r) ps \<longleftrightarrow> recent_filter p r"
      using aligned [OF ok, of 1 "[]" "[BInt l, BUuid u, BInt (recent_limit p + 1)]" "[]" "[]"] unfolding cs b f by auto
    have "condition_test (pg env) ?bs (CursorAfter Ledger Desc i (i + 1)) = Some (after_cursor Ledger Desc (l, u))"
      by (simp add: arg_defs arg_def i nth_append)
    then have "run_select (pg env) (cs @ [CursorAfter Ledger Desc i (i + 1)]) ?bs (by_column Ledger Desc) 1 n 0 tbl
      = Inr (take n (order_by (by_column Ledger Desc) (filter (\<lambda>r. recent_filter p r \<and> after_cursor Ledger Desc (l, u) r) tbl)))" for n
      using ps by (simp add: run_select_def those_append)
    then show ?thesis
      by (simp add: recent_select_def c Some k key_fetch_def by_column_key after_cursor_key pos conj_commute)
  qed
qed

text \<open>
  Completeness of the recent events: following \<open>next_cursor\<close> from the newest event returns every event
  that matches, newest first, exactly once, in pages of at most the limit.
\<close>

lemma recent_page:
  assumes "rp_from_ledger p = None" "rp_to_ledger p = None" "when_given (rp_contract_id p) check_contract_id = Inr ()"
  shows "get_recent_events env tbl (p\<lparr>rp_cursor := cur\<rparr>) =
    probe_page (decode_cursor (codec env)) (to_cursor (codec env)) (key_fetch ledger_key Desc (recent_filter p) tbl) ledger_key
      (nat (recent_limit p)) cur"
proof -
  have "recent_filter (p\<lparr>rp_cursor := cur\<rparr>) = recent_filter p" "recent_limit (p\<lparr>rp_cursor := cur\<rparr>) = recent_limit p"
    by (simp_all add: recent_filter_def [abs_def] recent_limit_def)
  then show ?thesis
    using assms
    by (cases cur) (auto simp: get_recent_events_def probe_page_def recent_rows require_def Let_def to_cursor_def ledger_key_def
        and_then_def split: sum.split)
qed

theorem recent_events_complete:
  assumes "recent_wf (codec env) tbl" "rp_from_ledger p = None" "rp_to_ledger p = None"
    and "when_given (rp_contract_id p) check_contract_id = Inr ()"
  shows "let all = key_rows ledger_key Desc (recent_filter p) tbl in
    \<exists>pages. follow (length all + 1) (\<lambda>c. get_recent_events env tbl (p\<lparr>rp_cursor := c\<rparr>)) None = Some pages \<and>
      concat pages = all \<and> (\<forall>q. q \<in> set pages \<longrightarrow> int (length q) \<le> recent_limit p)"
proof -
  have pos: "0 < nat (recent_limit p)" using recent_limit_pos [of p] by simp
  show ?thesis
    using recent.follow_probe [OF assms(1) pos, of "recent_filter p"] pos
    unfolding recent_page [OF assms(2-4)] Let_def by fastforce
qed

definition two_recent :: RecentParams where
  "two_recent = \<lparr>rp_limit = Some 2, rp_event_type = None, rp_contract_id = None, rp_cursor = None,
     rp_from_ledger = None, rp_to_ledger = None\<rparr>"

theorem recent_events_complete_witness:
  "let all = key_rows ledger_key Desc (recent_filter two_recent) out_of_step in
    \<exists>pages. follow (length all + 1) (\<lambda>c. get_recent_events sample_env out_of_step (two_recent\<lparr>rp_cursor := c\<rparr>)) None = Some pages \<and>
      concat pages = all \<and> (\<forall>q. q \<in> set pages \<longrightarrow> int (length q) \<le> recent_limit two_recent)"
proof (rule recent_events_complete)
  show "recent_wf (codec sample_env) out_of_step"
    by (simp add: recent_wf_def sample_env_def sample_row_def out_of_step_def sample_codec_laws) (simp add: sample_codec_def)
qed (simp_all add: two_recent_def when_given_def)

end
