(* ===== verification/Json_Access.thy ===== *)
theory Json_Access
  imports Xdr_Validation "HOL-Library.List_Lexorder" "HOL-Library.Char_ord"
begin

text \<open>
  Access to the parts of a \<open>serde_json::Value\<close>, as the modules that read event data and configuration
  values use it, and the invariants of a value the crate can hold.
\<close>

section \<open>JSON accessors\<close>

definition field_of :: "string \<Rightarrow> json \<Rightarrow> json option" where
  "field_of k v = (case v of JObject m \<Rightarrow> obj_get k m | _ \<Rightarrow> None)"

fun as_str :: "json \<Rightarrow> string option" where
  "as_str (JString s) = Some s"
| "as_str _ = None"

fun as_array :: "json \<Rightarrow> json list option" where
  "as_array (JArray xs) = Some xs"
| "as_array _ = None"

fun as_u64 :: "json \<Rightarrow> nat option" where
  "as_u64 (JNumber (PosInt n)) = Some (unat n)"
| "as_u64 _ = None"

fun as_i64 :: "json \<Rightarrow> int option" where
  "as_i64 (JNumber (PosInt n)) = (if unat n < 2 ^ 63 then Some (int (unat n)) else None)"
| "as_i64 (JNumber (NegInt i)) = Some i"
| "as_i64 _ = None"

definition or_else :: "'a option \<Rightarrow> 'a option \<Rightarrow> 'a option" where
  "or_else a b = (case a of Some x \<Rightarrow> Some x | None \<Rightarrow> b)"

text \<open>A value as the parser makes it: negative numbers are negative and fit their type.\<close>

definition number_ok :: "number \<Rightarrow> bool" where
  "number_ok n \<longleftrightarrow> (case n of NegInt i \<Rightarrow> in_i64 i \<and> i < 0 | _ \<Rightarrow> True)"

fun json_ok :: "json \<Rightarrow> bool" where
  "json_ok (JNumber n) \<longleftrightarrow> number_ok n"
| "json_ok (JArray xs) \<longleftrightarrow> list_all json_ok xs"
| "json_ok (JObject m) \<longleftrightarrow> list_all (\<lambda>(k, v). json_ok v) m"
| "json_ok _ \<longleftrightarrow> True"

lemma obj_get_ok: "json_ok (JObject m) \<Longrightarrow> obj_get k m = Some v \<Longrightarrow> json_ok v"
  unfolding obj_get_def by (auto simp: list_all_iff dest!: map_of_SomeD)

lemma obj_get_size: "obj_get k m = Some v \<Longrightarrow> size v < Suc (size_list (size_prod (\<lambda>_. 0) size) m)"
  unfolding obj_get_def by (induction m) (auto split: if_splits)

lemma entry_size: "(k, v) \<in> set m \<Longrightarrow> size v < Suc (size_list (size_prod (\<lambda>_. 0) size) m)"
  by (induction m) auto

lemma item_size: "v \<in> set xs \<Longrightarrow> size v < Suc (size_list size xs)"
  by (induction xs) auto

lemma json_induct [case_names object array null bool number string]:
  assumes "\<And>m. (\<And>k v. (k, v) \<in> set m \<Longrightarrow> P v) \<Longrightarrow> P (JObject m)" "\<And>xs. (\<And>v. v \<in> set xs \<Longrightarrow> P v) \<Longrightarrow> P (JArray xs)"
    and "P JNull" "\<And>b. P (JBool b)" "\<And>n. P (JNumber n)" "\<And>s. P (JString s)"
  shows "P v"
proof (induction v)
  case (JObject m)
  then show ?case by (intro assms(1)) (metis snds.intros snd_conv)
qed (use assms in auto)

text \<open>The map of an object is a B-tree: its entries are in the byte order of the keys, without duplicates.\<close>

fun canonical :: "json \<Rightarrow> bool" where
  "canonical (JArray xs) \<longleftrightarrow> list_all canonical xs"
| "canonical (JObject m) \<longleftrightarrow> sorted_wrt (<) (map fst m) \<and> list_all (\<lambda>(k, v). canonical v) m"
| "canonical (JNumber n) \<longleftrightarrow> number_ok n"
| "canonical _ \<longleftrightarrow> True"

end
