(* ===== verification/Token_Events.thy ===== *)
theory Token_Events
  imports Event_Listing Json_Access
begin

text \<open>
  Model of the token event modules: \<open>src/token_events.rs\<close> (SEP-41 events of every kind in
  \<open>token_transfers\<close>), \<open>src/sep41.rs\<close> (typed balance changes in columns of the events table) and
  \<open>src/account_events.rs\<close> (the addresses an event mentions): decoding of topics and amounts, the backfill
  scans, and the cursor-paged lists. The lemmas show that amounts are exact, that decoded events are well
  formed, how the two decoders differ, which scans finish, and that the lists are complete.
\<close>

section \<open>Topics and amounts\<close>

definition topic_str :: "json \<Rightarrow> string option" where
  "topic_str v = (case v of
     JString s \<Rightarrow> Some s
   | JObject m \<Rightarrow> Option.bind (or_else (obj_get ''symbol'' m) (or_else (obj_get ''address'' m) (obj_get ''string'' m))) as_str
   | _ \<Rightarrow> None)"

text \<open>\<open>hi << 64 | lo\<close> on \<open>i128\<close>: the shift drops the bits above the type.\<close>

definition wrap_i128 :: "int \<Rightarrow> int" where
  "wrap_i128 x = signed_take_bit 127 x"

definition join_halves :: "int \<Rightarrow> nat \<Rightarrow> int" where
  "join_halves hi lo = (wrap_i128 (push_bit 64 hi)) OR int lo"

definition hi_text :: "json \<Rightarrow> string option" where
  "hi_text v = or_else (as_str v) (map_option show_int (as_i64 v))"

definition lo_text :: "json \<Rightarrow> string option" where
  "lo_text v = or_else (as_str v) (map_option show_nat (as_u64 v))"

definition halves_str :: "(string \<times> json) list \<Rightarrow> string option" where
  "halves_str m =
     Option.bind (obj_get ''hi'' m) (\<lambda>h. Option.bind (hi_text h) (\<lambda>hs.
     Option.bind (obj_get ''lo'' m) (\<lambda>l. Option.bind (lo_text l) (\<lambda>ls.
     Option.bind (parse_i128 hs) (\<lambda>hv. Option.bind (parse_u64 ls) (\<lambda>lv.
     Some (show_int (join_halves hv lv))))))))"

definition number_text :: "number \<Rightarrow> string option" where
  "number_text n = (case n of PosInt u \<Rightarrow> Some (show_nat (unat u)) | NegInt i \<Rightarrow> Some (show_int i) | Float f \<Rightarrow> None)"

function amount_str :: "json \<Rightarrow> string option" where
  "amount_str (JString s) = (if parse_i128 s \<noteq> None then Some s else None)"
| "amount_str (JNumber n) = number_text n"
| "amount_str (JObject m) =
     (case or_else (obj_get ''i128'' m) (obj_get ''amount'' m) of
        Some x \<Rightarrow> amount_str x | None \<Rightarrow> halves_str m)"
| "amount_str JNull = None"
| "amount_str (JBool b) = None"
| "amount_str (JArray xs) = None"
  by pat_completeness auto
termination
  by (relation "measure size") (auto simp: or_else_def split: option.splits dest: obj_get_size)

declare amount_str.simps(3) [simp del]

section \<open>Decoding of \<open>token_events.rs\<close>\<close>

record TokenEvent =
  te_kind :: string
  te_from :: "string option"
  te_to :: "string option"
  te_spender :: "string option"
  te_amount :: "string option"

definition topic_at :: "json list \<Rightarrow> nat \<Rightarrow> string option" where
  "topic_at topics i = (if i < length topics then topic_str (topics ! i) else None)"

definition decode_token :: "json list \<Rightarrow> json \<Rightarrow> TokenEvent option" where
  "decode_token topics v =
     (case topics of [] \<Rightarrow> None | t0 # _ \<Rightarrow> (case topic_str t0 of None \<Rightarrow> None | Some nm \<Rightarrow>
        let addr = topic_at topics; n = length topics;
            ev = \<lparr>te_kind = nm, te_from = None, te_to = None, te_spender = None, te_amount = amount_str v\<rparr>;
            decoded =
              (if nm = ''transfer'' \<and> 3 \<le> n then Some (ev\<lparr>te_from := addr 1, te_to := addr 2\<rparr>)
               else if nm = ''mint'' \<and> 3 \<le> n then Some (ev\<lparr>te_to := or_else (addr 2) (addr 1), te_from := addr 1\<rparr>)
               else if nm = ''burn'' \<and> 2 \<le> n then Some (ev\<lparr>te_from := addr 1\<rparr>)
               else if nm = ''clawback'' \<and> 3 \<le> n then Some (ev\<lparr>te_from := or_else (addr 2) (addr 1)\<rparr>)
               else if nm = ''approve'' \<and> 3 \<le> n then Some (ev\<lparr>te_from := addr 1, te_spender := addr 2\<rparr>)
               else if nm = ''set_admin'' \<and> 2 \<le> n
                 then Some (ev\<lparr>te_from := addr 1, te_to := as_str v, te_amount := None\<rparr>)
               else if nm = ''set_authorized'' \<and> 2 \<le> n then Some (ev\<lparr>te_to := addr 1, te_amount := None\<rparr>)
               else None)
        in (case decoded of None \<Rightarrow> None
            | Some e \<Rightarrow> if te_amount e = None \<and> nm \<notin> {''set_admin'', ''set_authorized''} then None else Some e)))"

definition event_topics :: "json \<Rightarrow> json list option" where
  "event_topics event_data = Option.bind (field_of ''topic'' event_data) as_array"

definition event_value :: "json \<Rightarrow> json" where
  "event_value event_data = (case field_of ''value'' event_data of None \<Rightarrow> JNull | Some v \<Rightarrow> v)"

definition decode_token_data :: "json \<Rightarrow> TokenEvent option" where
  "decode_token_data event_data = Option.bind (event_topics event_data) (\<lambda>ts. decode_token ts (event_value event_data))"

section \<open>Addresses\<close>

definition is_address :: "string \<Rightarrow> bool" where
  "is_address s \<longleftrightarrow>
     (let ok_chars = list_all base32_char s
      in case s of [] \<Rightarrow> False
         | c # _ \<Rightarrow> if c = CHR ''G'' \<or> c = CHR ''C'' then length s = 56 \<and> ok_chars
                    else if c = CHR ''M'' then length s = 69 \<and> ok_chars else False)"

definition as_i16 :: "nat \<Rightarrow> int" where "as_i16 i = signed_take_bit 15 (int i)"

definition topic_address :: "json \<Rightarrow> string option" where
  "topic_address t = (case or_else (as_str t) (Option.bind (field_of ''address'' t) as_str) of
     Some s \<Rightarrow> if is_address s then Some s else None | None \<Rightarrow> None)"

fun addresses_from :: "nat \<Rightarrow> json list \<Rightarrow> (string \<times> int) list" where
  "addresses_from i [] = []"
| "addresses_from i (t # ts) =
     (case topic_address t of Some s \<Rightarrow> [(s, as_i16 i)] | None \<Rightarrow> []) @ addresses_from (Suc i) ts"

definition extract_addresses :: "json \<Rightarrow> (string \<times> int) list" where
  "extract_addresses event_data = (case event_topics event_data of None \<Rightarrow> [] | Some ts \<Rightarrow> addresses_from 0 ts)"

section \<open>Decoding of \<open>sep41.rs\<close>\<close>

datatype Sep41EventType = Transfer | Mint | Burn | Clawback

definition sep41_as_str :: "Sep41EventType \<Rightarrow> string" where
  "sep41_as_str t = (case t of Transfer \<Rightarrow> ''transfer'' | Mint \<Rightarrow> ''mint'' | Burn \<Rightarrow> ''burn'' | Clawback \<Rightarrow> ''clawback'')"

definition sep41_parse :: "string \<Rightarrow> Sep41EventType option" where
  "sep41_parse s = (if s = ''transfer'' then Some Transfer else if s = ''mint'' then Some Mint
     else if s = ''burn'' then Some Burn else if s = ''clawback'' then Some Clawback else None)"

record Sep41Event =
  sep_type :: Sep41EventType
  sep_from :: "string option"
  sep_to :: "string option"
  sep_amount :: string

definition decode_sep41 :: "json list \<Rightarrow> json \<Rightarrow> Sep41Event option" where
  "decode_sep41 topics v =
     (case topics of [] \<Rightarrow> None | t0 # rest \<Rightarrow>
        Option.bind (Option.bind (topic_str t0) sep41_parse) (\<lambda>ty.
        let addrs = filter is_address (List.map_filter topic_str rest) in
        Option.bind (amount_str v) (\<lambda>amount.
          if starts_with amount ''-'' then None
          else (case ty of
              Transfer \<Rightarrow> if 2 \<le> length addrs
                then Some \<lparr>sep_type = ty, sep_from = Some (addrs ! 0), sep_to = Some (addrs ! 1), sep_amount = amount\<rparr>
                else None
            | Mint \<Rightarrow> if addrs = [] then None
                else Some \<lparr>sep_type = ty, sep_from = None, sep_to = Some (last addrs), sep_amount = amount\<rparr>
            | Burn \<Rightarrow> if addrs = [] then None
                else Some \<lparr>sep_type = ty, sep_from = Some (hd addrs), sep_to = None, sep_amount = amount\<rparr>
            | Clawback \<Rightarrow> if addrs = [] then None
                else Some \<lparr>sep_type = ty, sep_from = Some (last addrs), sep_to = None, sep_amount = amount\<rparr>))))"

definition decode_sep41_data :: "json \<Rightarrow> Sep41Event option" where
  "decode_sep41_data event_data = Option.bind (event_topics event_data) (\<lambda>ts. decode_sep41 ts (event_value event_data))"

section \<open>Tables and scans\<close>

record stored_event =
  se_id :: nat
  se_contract :: string
  se_ledger :: int
  se_tx_hash :: string
  se_data :: json
  se_sep41 :: "(string \<times> string option \<times> string option \<times> int) option"

record transfer_row =
  tr_event_id :: nat
  tr_contract :: string
  tr_kind :: string
  tr_from :: "string option"
  tr_to :: "string option"
  tr_spender :: "string option"
  tr_amount :: "int option"
  tr_ledger :: int
  tr_tx_hash :: string

text \<open>\<open>event_data->'topic'->>0 IN (..)\<close>: the text of a first topic that is a string.\<close>

definition first_topic_in :: "string list \<Rightarrow> json \<Rightarrow> bool" where
  "first_topic_in names event_data = (case event_topics event_data of
     Some (JString s # _) \<Rightarrow> s \<in> set names | _ \<Rightarrow> False)"

definition token_kinds :: "string list" where
  "token_kinds = [''transfer'', ''mint'', ''burn'', ''clawback'', ''approve'', ''set_admin'', ''set_authorized'']"

definition sep41_kinds :: "string list" where "sep41_kinds = [''transfer'', ''mint'', ''burn'', ''clawback'']"

text \<open>
  \<open>$7::numeric\<close>. The cast reads the decimal texts that \<open>i128\<close> reads; the amounts are such texts.
\<close>

definition to_numeric :: "string option \<Rightarrow> AppError + int option" where
  "to_numeric a = (case a of None \<Rightarrow> Inr None
     | Some s \<Rightarrow> (case parse_i128 s of None \<Rightarrow> Inl DB_ERROR | Some n \<Rightarrow> Inr (Some n)))"

text \<open>\<open>INSERT .. ON CONFLICT DO NOTHING\<close>, with the event id as primary key.\<close>

definition insert_transfer :: "transfer_row \<Rightarrow> transfer_row list \<Rightarrow> transfer_row list \<times> nat" where
  "insert_transfer row tbl = (if tr_event_id row \<in> tr_event_id ` set tbl then (tbl, 0) else (tbl @ [row], 1))"

fun transfer_loop :: "stored_event list \<Rightarrow> transfer_row list \<Rightarrow> nat \<Rightarrow> AppError + transfer_row list \<times> nat" where
  "transfer_loop [] tbl n = Inr (tbl, n)"
| "transfer_loop (r # rs) tbl n =
     (case decode_token_data (se_data r) of
        None \<Rightarrow> transfer_loop rs tbl n
      | Some ev \<Rightarrow> (case to_numeric (te_amount ev) of
            Inl e \<Rightarrow> Inl e
          | Inr a \<Rightarrow> (case insert_transfer \<lparr>tr_event_id = se_id r, tr_contract = se_contract r, tr_kind = te_kind ev,
                tr_from = te_from ev, tr_to = te_to ev, tr_spender = te_spender ev, tr_amount = a,
                tr_ledger = se_ledger r, tr_tx_hash = se_tx_hash r\<rparr> tbl of
              (tbl', k) \<Rightarrow> transfer_loop rs tbl' (n + k))))"

text \<open>
  The backfill of token transfers. \<open>ORDER BY ledger\<close> leaves the order within a ledger open; the model
  takes the order of the table there.
\<close>

definition transfer_candidates :: "stored_event list \<Rightarrow> transfer_row list \<Rightarrow> stored_event list" where
  "transfer_candidates evs tbl = sort_key se_ledger
     (filter (\<lambda>e. first_topic_in token_kinds (se_data e) \<and> se_id e \<notin> tr_event_id ` set tbl) evs)"

definition backfill_transfers ::
  "stored_event list \<Rightarrow> nat \<Rightarrow> transfer_row list \<Rightarrow> AppError + transfer_row list \<times> nat" where
  "backfill_transfers evs batch tbl = transfer_loop (take batch (transfer_candidates evs tbl)) tbl 0"

text \<open>The scan of \<open>sep41.rs\<close>, which carries its position.\<close>

definition stored_key :: "stored_event \<Rightarrow> int \<times> nat" where "stored_key e = (se_ledger e, se_id e)"

definition sep41_columns :: "Sep41Event \<Rightarrow> AppError + string \<times> string option \<times> string option \<times> int" where
  "sep41_columns ev = (case parse_i128 (sep_amount ev) of None \<Rightarrow> Inl DB_ERROR
     | Some n \<Rightarrow> Inr (sep41_as_str (sep_type ev), sep_from ev, sep_to ev, n))"

definition set_sep41 :: "nat \<Rightarrow> string \<times> string option \<times> string option \<times> int \<Rightarrow> stored_event list \<Rightarrow> stored_event list" where
  "set_sep41 u cols evs = map (\<lambda>e. if se_id e = u then e\<lparr>se_sep41 := Some cols\<rparr> else e) evs"

fun sep41_loop :: "stored_event list \<Rightarrow> stored_event list \<Rightarrow> nat \<Rightarrow> AppError + stored_event list \<times> nat" where
  "sep41_loop [] evs n = Inr (evs, n)"
| "sep41_loop (r # rs) evs n =
     (case decode_sep41_data (se_data r) of
        None \<Rightarrow> sep41_loop rs evs n
      | Some ev \<Rightarrow> (case sep41_columns ev of Inl e \<Rightarrow> Inl e
          | Inr cols \<Rightarrow> sep41_loop rs (set_sep41 (se_id r) cols evs) (n + length (filter (\<lambda>e. se_id e = se_id r) evs))))"

definition sep41_pending :: "stored_event \<Rightarrow> bool" where
  "sep41_pending e \<longleftrightarrow> se_sep41 e = None \<and> first_topic_in sep41_kinds (se_data e)"

definition backfill_sep41 ::
  "(int \<times> nat) option \<Rightarrow> nat \<Rightarrow> stored_event list \<Rightarrow> AppError + stored_event list \<times> nat \<times> (int \<times> nat) option" where
  "backfill_sep41 after batch evs =
     (let rows = key_fetch stored_key Asc sep41_pending evs after batch;
          last_key = (if rows = [] then None else Some (stored_key (last rows)))
      in map_sum id (\<lambda>(evs', n). (evs', n, if length rows = batch then last_key else None)) (sep41_loop rows evs 0))"

text \<open>An operator who calls the endpoint with the returned cursor until there is none.\<close>

fun sep41_run :: "nat \<Rightarrow> (int \<times> nat) option \<Rightarrow> nat \<Rightarrow> stored_event list \<Rightarrow> stored_event list option" where
  "sep41_run 0 after batch evs = None"
| "sep41_run (Suc k) after batch evs =
     (case backfill_sep41 after batch evs of
        Inl e \<Rightarrow> None
      | Inr (evs', n, None) \<Rightarrow> Some evs'
      | Inr (evs', n, Some c) \<Rightarrow> sep41_run k (Some c) batch evs')"

text \<open>The address table; its backfill takes events without addresses, newest ledger first.\<close>

record address_row =
  ar_event :: nat
  ar_address :: string
  ar_position :: int
  ar_ledger :: int

fun insert_addresses :: "nat \<Rightarrow> int \<Rightarrow> (string \<times> int) list \<Rightarrow> address_row list \<Rightarrow> nat \<Rightarrow> address_row list \<times> nat" where
  "insert_addresses u l [] tbl n = (tbl, n)"
| "insert_addresses u l ((a, p) # rest) tbl n =
     (if \<exists>r\<in>set tbl. ar_event r = u \<and> ar_address r = a \<and> ar_position r = p then insert_addresses u l rest tbl n
      else insert_addresses u l rest (tbl @ [\<lparr>ar_event = u, ar_address = a, ar_position = p, ar_ledger = l\<rparr>]) (n + 1))"

fun address_loop :: "stored_event list \<Rightarrow> address_row list \<Rightarrow> nat \<Rightarrow> address_row list \<times> nat" where
  "address_loop [] tbl n = (tbl, n)"
| "address_loop (r # rs) tbl n =
     (case insert_addresses (se_id r) (se_ledger r) (extract_addresses (se_data r)) tbl n of
        (tbl', n') \<Rightarrow> address_loop rs tbl' n')"

definition address_candidates :: "stored_event list \<Rightarrow> address_row list \<Rightarrow> stored_event list" where
  "address_candidates evs tbl = sort_key (\<lambda>e. - se_ledger e)
     (filter (\<lambda>e. se_id e \<notin> ar_event ` set tbl \<and> event_topics (se_data e) \<noteq> None) evs)"

definition backfill_addresses :: "stored_event list \<Rightarrow> nat \<Rightarrow> address_row list \<Rightarrow> address_row list \<times> nat" where
  "backfill_addresses evs batch tbl = address_loop (take batch (address_candidates evs tbl)) tbl 0"

section \<open>The lists\<close>

definition list_limit :: "i64 option \<Rightarrow> nat" where
  "list_limit l = nat (clamp (case l of None \<Rightarrow> 50 | Some n \<Rightarrow> n) 1 200)"

record TransfersQuery =
  tq_from :: "string option"
  tq_to :: "string option"
  tq_min_amount :: "string option"
  tq_cursor :: "string option"
  tq_limit :: "i64 option"

definition check_min_amount :: "string option \<Rightarrow> AppError + unit" where
  "check_min_amount m = when_given m (\<lambda>s. require (parse_i128 s \<noteq> None) (Validation ''invalid min_amount''))"

text \<open>\<open>$4 IS NULL OR amount >= $4::numeric\<close>: a row without an amount does not pass a given minimum.\<close>

definition amount_at_least :: "string option \<Rightarrow> int option \<Rightarrow> bool" where
  "amount_at_least m a = (case Option.bind m parse_i128 of None \<Rightarrow> m = None
     | Some n \<Rightarrow> (case a of None \<Rightarrow> False | Some k \<Rightarrow> n \<le> k))"

definition transfer_matches :: "string \<Rightarrow> TransfersQuery \<Rightarrow> transfer_row \<Rightarrow> bool" where
  "transfer_matches contract q r \<longleftrightarrow> tr_contract r = contract \<and>
     (tq_from q = None \<or> tr_from r = tq_from q) \<and> (tq_to q = None \<or> tr_to r = tq_to q) \<and>
     amount_at_least (tq_min_amount q) (tr_amount r)"

definition transfer_key :: "transfer_row \<Rightarrow> int \<times> nat" where "transfer_key r = (tr_ledger r, tr_event_id r)"

definition get_token_transfers ::
  "cursor_codec \<Rightarrow> transfer_row list \<Rightarrow> string \<Rightarrow> TransfersQuery \<Rightarrow> AppError + transfer_row list \<times> string option" where
  "get_token_transfers K tbl contract q =
     and_then (check_contract_id contract) (\<lambda>_.
     and_then (check_min_amount (tq_min_amount q)) (\<lambda>_.
     probe_page (parse_cursor K) (plain_cursor K) (key_fetch transfer_key Desc (transfer_matches contract q) tbl)
       transfer_key (list_limit (tq_limit q)) (tq_cursor q)))"

record Sep41Query =
  sq_from :: "string option"
  sq_to :: "string option"
  sq_min_amount :: "string option"
  sq_event_type :: "string option"
  sq_contract_id :: "string option"
  sq_cursor :: "string option"
  sq_limit :: "i64 option"

definition check_address :: "string \<Rightarrow> string option \<Rightarrow> AppError + unit" where
  "check_address nm a = when_given a (\<lambda>s. require (is_address s) (Validation (''invalid '' @ nm @ '' address'')))"

definition check_event_type :: "string option \<Rightarrow> AppError + string option" where
  "check_event_type t = (case t of None \<Rightarrow> Inr None
     | Some s \<Rightarrow> (case sep41_parse s of
           None \<Rightarrow> Inl (Validation ''event_type must be transfer, mint, burn or clawback'')
         | Some ty \<Rightarrow> Inr (Some (sep41_as_str ty))))"

definition sep41_matches :: "Sep41Query \<Rightarrow> string option \<Rightarrow> stored_event \<Rightarrow> bool" where
  "sep41_matches q ty e = (case se_sep41 e of None \<Rightarrow> False
     | Some (kind, fr, to, amount) \<Rightarrow>
         (sq_from q = None \<or> fr = sq_from q) \<and> (sq_to q = None \<or> to = sq_to q) \<and>
         amount_at_least (sq_min_amount q) (Some amount) \<and> (ty = None \<or> Some kind = ty) \<and>
         (sq_contract_id q = None \<or> Some (se_contract e) = sq_contract_id q))"

definition get_sep41_events ::
  "cursor_codec \<Rightarrow> stored_event list \<Rightarrow> Sep41Query \<Rightarrow> AppError + stored_event list \<times> string option" where
  "get_sep41_events K evs q =
     and_then (check_address ''from'' (sq_from q)) (\<lambda>_.
     and_then (check_address ''to'' (sq_to q)) (\<lambda>_.
     and_then (check_min_amount (sq_min_amount q)) (\<lambda>_.
     and_then (check_event_type (sq_event_type q)) (\<lambda>ty.
     and_then (when_given (sq_contract_id q) check_contract_id) (\<lambda>_.
     probe_page (parse_cursor K) (plain_cursor K) (key_fetch stored_key Desc (sep41_matches q ty) evs)
       stored_key (list_limit (sq_limit q)) (sq_cursor q))))))"

record AccountEventsQuery =
  aq_role :: "string option"
  aq_from_ledger :: "i64 option"
  aq_to_ledger :: "i64 option"
  aq_cursor :: "string option"
  aq_limit :: "i64 option"

definition parse_role :: "string option \<Rightarrow> AppError + int option" where
  "parse_role role =
     (let s = (case role of None \<Rightarrow> ''any'' | Some r \<Rightarrow> r) in
      if s = ''any'' then Inr None else if s = ''topic1'' then Inr (Some 1) else if s = ''topic2'' then Inr (Some 2)
      else Inl (Validation ''role must be any, topic1 or topic2''))"

text \<open>
  The join of \<open>event_addresses\<close> with \<open>events\<close>, one row per event: an event is listed when some of its
  address rows passes the conditions. The conditions compare the ledger of the address row, which is the
  ledger of the event it was made from.
\<close>

definition account_matches ::
  "address_row list \<Rightarrow> string \<Rightarrow> int option \<Rightarrow> AccountEventsQuery \<Rightarrow> stored_event \<Rightarrow> bool" where
  "account_matches addrs a pos q e \<longleftrightarrow>
     list_ex (\<lambda>r. ar_event r = se_id e \<and> ar_address r = a \<and> (pos = None \<or> Some (ar_position r) = pos) \<and>
       (case aq_from_ledger q of None \<Rightarrow> True | Some l \<Rightarrow> l \<le> ar_ledger r) \<and>
       (case aq_to_ledger q of None \<Rightarrow> True | Some l \<Rightarrow> ar_ledger r \<le> l)) addrs"

definition get_account_events ::
  "cursor_codec \<Rightarrow> stored_event list \<Rightarrow> address_row list \<Rightarrow> string \<Rightarrow> AccountEventsQuery \<Rightarrow>
   AppError + stored_event list \<times> string option" where
  "get_account_events K evs addrs a q =
     and_then (require (is_address a) (Validation ''invalid address'')) (\<lambda>_.
     and_then (parse_role (aq_role q)) (\<lambda>pos.
     probe_page (parse_cursor K) (plain_cursor K) (key_fetch stored_key Desc (account_matches addrs a pos q) evs)
       stored_key (list_limit (aq_limit q)) (aq_cursor q)))"

section \<open>Amounts are exact\<close>

lemma wrap_i128_range: "- (2 ^ 127) \<le> wrap_i128 x \<and> wrap_i128 x < 2 ^ 127"
  unfolding wrap_i128_def
  using signed_take_bit_int_greater_eq_minus_exp [of 127 x] signed_take_bit_int_less_exp [of 127 x] by simp

lemma wrap_i128_id: "- (2 ^ 127) \<le> x \<Longrightarrow> x < 2 ^ 127 \<Longrightarrow> wrap_i128 x = x"
  unfolding wrap_i128_def by (rule signed_take_bit_int_eq_self)

lemma wrap_i128_high: "wrap_i128 (push_bit 64 h) = push_bit 64 (signed_take_bit 63 h)"
  unfolding wrap_i128_def by (rule bit_eqI) (auto simp: bit_simps min_def)

lemma or_disjoint: "l < 2 ^ 64 \<Longrightarrow> (push_bit 64 a) OR int l = a * 2 ^ 64 + int l"
proof -
  assume l: "l < 2 ^ 64"
  then have t: "take_bit 64 (int l) = int l"
    by (simp add: take_bit_int_eq_self_iff)
  have "push_bit 64 a AND int l = 0"
  proof (rule bit_eqI)
    fix n
    have "bit (int l) n \<Longrightarrow> n < 64" using t by (metis bit_take_bit_iff)
    then show "bit (push_bit 64 a AND int l) n = bit (0 :: int) n"
      by (auto simp: bit_and_iff bit_push_bit_iff)
  qed
  then have "push_bit 64 a OR int l = push_bit 64 a + int l"
    by (simp add: disjunctive_add_eq_or)
  then show ?thesis by (simp add: push_bit_eq_mult)
qed

lemma join_halves_eq:
  assumes "l < 2 ^ 64" shows "join_halves h l = signed_take_bit 63 h * 2 ^ 64 + int l"
  using assms by (simp add: join_halves_def wrap_i128_high or_disjoint)

lemma join_halves_range: "l < 2 ^ 64 \<Longrightarrow> - (2 ^ 127) \<le> join_halves h l \<and> join_halves h l < 2 ^ 127"
proof -
  assume l: "l < 2 ^ 64"
  have "- (2 ^ 63) \<le> signed_take_bit 63 h" "signed_take_bit 63 h < 2 ^ 63"
    using signed_take_bit_int_greater_eq_minus_exp [of 63 h] signed_take_bit_int_less_exp [of 63 h] by simp_all
  moreover have "int l < 2 ^ 64" using l by (metis of_nat_less_iff of_nat_numeral of_nat_power)
  ultimately show ?thesis unfolding join_halves_eq [OF l] by simp
qed

lemma parse_i128_show: "- (2 ^ 127) \<le> v \<Longrightarrow> v < 2 ^ 127 \<Longrightarrow> parse_i128 (show_int v) = Some v"
  unfolding parse_i128_def by (rule parse_signed_show_int)

lemma show_nat_int: "show_nat n = show_int (int n)"
  by (simp add: show_int_def)

lemma parse_u64_bound: "parse_u64 s = Some n \<Longrightarrow> n < 2 ^ 64"
  unfolding parse_u64_def by (rule parse_uint_bound)

text \<open>What an amount denotes: a decimal text, an integer, a wrapped amount, or two halves.\<close>

inductive denotes :: "json \<Rightarrow> int \<Rightarrow> bool" where
  decimal: "parse_i128 s = Some a \<Longrightarrow> denotes (JString s) a"
| unsigned: "denotes (JNumber (PosInt u)) (int (unat u))"
| signed: "denotes (JNumber (NegInt i)) i"
| wrapped: "or_else (obj_get ''i128'' m) (obj_get ''amount'' m) = Some x \<Longrightarrow> denotes x a \<Longrightarrow> denotes (JObject m) a"
| halves: "or_else (obj_get ''i128'' m) (obj_get ''amount'' m) = None \<Longrightarrow>
    obj_get ''hi'' m = Some h \<Longrightarrow> Option.bind (hi_text h) parse_i128 = Some hv \<Longrightarrow> - (2 ^ 63) \<le> hv \<Longrightarrow> hv < 2 ^ 63 \<Longrightarrow>
    obj_get ''lo'' m = Some l \<Longrightarrow> Option.bind (lo_text l) parse_u64 = Some lv \<Longrightarrow>
    denotes (JObject m) (hv * 2 ^ 64 + int lv)"

inductive_cases denotes_object: "denotes (JObject m) a"

lemma or_else_SomeD: "or_else a b = Some x \<Longrightarrow> a = Some x \<or> b = Some x"
  by (simp add: or_else_def split: option.splits)

lemma denotes_amount:
  "denotes v a \<Longrightarrow> json_ok v \<Longrightarrow> \<exists>s. amount_str v = Some s \<and> parse_i128 s = Some a"
proof (induction rule: denotes.induct)
  case (unsigned u)
  have "int (unat u) < 2 ^ 64" using unsigned_less [of u] by simp
  then have "parse_i128 (show_int (int (unat u))) = Some (int (unat u))"
    using uint_ge_0 [of u] by (intro parse_i128_show) (auto intro: order_trans [of _ 0])
  then show ?case by (simp add: number_text_def show_nat_int)
next
  case (signed i)
  then show ?case by (auto simp: number_text_def number_ok_def in_i64_def i64_min_def i64_max_def intro!: parse_i128_show)
next
  case (wrapped m x a)
  have "json_ok x" using wrapped.prems or_else_SomeD [OF wrapped.hyps(1)] obj_get_ok by blast
  then show ?case using wrapped by (simp add: amount_str.simps(3))
next
  case (halves m h hv l lv)
  obtain hs ls where t: "hi_text h = Some hs" "parse_i128 hs = Some hv" "lo_text l = Some ls" "parse_u64 ls = Some lv"
    using halves.hyps(3,7) by (auto simp: bind_eq_Some_conv)
  have lv: "lv < 2 ^ 64" using t(4) by (rule parse_u64_bound)
  have "join_halves hv lv = hv * 2 ^ 64 + int lv"
    using halves.hyps(4,5) by (simp add: join_halves_eq [OF lv] signed_take_bit_int_eq_self)
  then show ?case
    using halves.hyps t join_halves_range [OF lv, of hv] by (simp add: amount_str.simps(3) halves_str_def parse_i128_show)
qed simp

lemma amount_parses: "json_ok v \<Longrightarrow> amount_str v = Some s \<Longrightarrow> \<exists>a. parse_i128 s = Some a \<and> - (2 ^ 127) \<le> a \<and> a < 2 ^ 127"
proof (induction v arbitrary: s rule: amount_str.induct)
  case (1 t)
  then show ?case
    using parse_signed_bound [of "2 ^ 127" t] by (auto simp: parse_i128_def split: if_splits)
next
  case (2 n)
  then have "\<exists>a. denotes (JNumber n) a"
    by (cases n) (auto simp: number_text_def intro: denotes.intros)
  then obtain a where "parse_i128 s = Some a" using denotes_amount [of "JNumber n"] 2 by fastforce
  then show ?case using parse_signed_bound [of "2 ^ 127" s a] by (simp add: parse_i128_def)
next
  case (3 m)
  show ?case
  proof (cases "or_else (obj_get ''i128'' m) (obj_get ''amount'' m)")
    case None
    then obtain hv lv where h: "s = show_int (join_halves hv lv)" "lv < 2 ^ 64"
      using 3(3) parse_u64_bound by (fastforce simp: amount_str.simps(3) halves_str_def bind_eq_Some_conv)
    then show ?thesis using join_halves_range [OF h(2), of hv] by (auto simp: parse_i128_show)
  next
    case (Some x)
    have "json_ok x" using 3(2) or_else_SomeD [OF Some] obj_get_ok by blast
    then show ?thesis using 3(1) [OF Some] 3(3) Some by (simp add: amount_str.simps(3))
  qed
qed simp_all

text \<open>
  C16. Amounts never lose precision: every amount that denotes an integer is decoded to a decimal text of
  exactly this integer, and whatever text is returned reads back as a 128-bit integer, so that storing it
  as a number cannot fail.
\<close>

theorem amounts_exact:
  assumes "json_ok v"
  shows "(denotes v a \<longrightarrow> Option.bind (amount_str v) parse_i128 = Some a) \<and>
         (\<forall>s. amount_str v = Some s \<longrightarrow> (\<exists>b. parse_i128 s = Some b \<and> - (2 ^ 127) \<le> b \<and> b < 2 ^ 127))"
  using denotes_amount [OF _ assms] amount_parses [OF assms] by fastforce

theorem amounts_exact_witness:
  "json_ok (JObject [(''hi'', JString ''1''), (''lo'', JString ''5'')]) \<and>
   Option.bind (amount_str (JObject [(''hi'', JString ''1''), (''lo'', JString ''5'')])) parse_i128 = Some (1 * 2 ^ 64 + int 5)"
proof -
  let ?v = "JObject [(''hi'', JString ''1''), (''lo'', JString ''5'')]"
  have ok: "json_ok ?v" by simp
  have "denotes ?v (1 * 2 ^ 64 + int 5)"
    by (rule denotes.halves [of _ "JString ''1''" _ "JString ''5''"])
      (simp_all add: obj_get_def or_else_def hi_text_def lo_text_def parse_i128_def parse_signed_def parse_u64_def
        parse_uint_def to_digit_def)
  with amounts_exact [OF ok] ok show ?thesis by blast
qed

text \<open>
  Halves whose high part does not fit 64 bits are cut silently: this one is \<open>2 ^ 64\<close> high words, and
  decodes to the low word alone.
\<close>

lemma wide_high_half_cut:
  "halves_str [(''hi'', JString ''18446744073709551616''), (''lo'', JString ''5'')] = Some ''5''"
proof -
  have "parse_i128 ''18446744073709551616'' = Some (2 ^ 64)"
    by (simp add: parse_i128_def parse_signed_def to_digit_def)
  moreover have "parse_u64 ''5'' = Some 5" by (simp add: parse_u64_def parse_uint_def to_digit_def)
  moreover have "join_halves (2 ^ 64) 5 = 5"
    by code_simp
  moreover have "show_int 5 = ''5''" by code_simp
  ultimately show ?thesis by (simp add: halves_str_def obj_get_def hi_text_def lo_text_def or_else_def)
qed

section \<open>Decoded events are well formed\<close>

lemma parse_nonneg: "parse_i128 s = Some a \<Longrightarrow> \<not> starts_with s ''-'' \<Longrightarrow> 0 \<le> a"
  by (auto simp: parse_i128_def parse_signed_def starts_with_def Let_def split: list.splits if_splits option.splits)

lemma sep41_roundtrip [simp]: "sep41_parse (sep41_as_str t) = Some t"
  by (cases t) (simp_all add: sep41_parse_def sep41_as_str_def)

lemma addrs_are_addresses:
  "x \<in> set (filter is_address (List.map_filter topic_str rest)) \<Longrightarrow> is_address x"
  by simp

text \<open>
  C17. A decoded SEP-41 event is a balance change: its amount is a non-negative 128-bit integer, every account
  in it is a well-formed address, a debited account is there unless the event is a mint, and a credited one
  exactly for transfers and mints.
\<close>

theorem sep41_wellformed:
  assumes "json_ok v" "decode_sep41 topics v = Some e"
  shows "(\<exists>a. parse_i128 (sep_amount e) = Some a \<and> 0 \<le> a \<and> a < 2 ^ 127) \<and>
    pred_option is_address (sep_from e) \<and> pred_option is_address (sep_to e) \<and>
    (sep_from e = None \<longleftrightarrow> sep_type e = Mint) \<and>
    (sep_to e \<noteq> None \<longleftrightarrow> sep_type e = Transfer \<or> sep_type e = Mint)"
proof -
  obtain t0 rest ty amount where t: "topics = t0 # rest" "Option.bind (topic_str t0) sep41_parse = Some ty"
      "amount_str v = Some amount" "\<not> starts_with amount ''-''"
    using assms(2) by (auto simp: decode_sep41_def Let_def bind_eq_Some_conv split: list.splits if_splits)
  obtain a where a: "parse_i128 amount = Some a" "a < 2 ^ 127" "0 \<le> a"
    using amount_parses [OF assms(1) t(3)] parse_nonneg t(4) by blast
  define addrs where "addrs = filter is_address (List.map_filter topic_str rest)"
  have ad: "\<And>x. x \<in> set addrs \<Longrightarrow> is_address x" by (simp add: addrs_def)
  then have nth: "2 \<le> length addrs \<Longrightarrow> is_address (addrs ! 0) \<and> is_address (addrs ! 1)"
    by (metis One_nat_def Suc_1 Suc_le_lessD less_trans nth_mem zero_less_one)
  have dec: "decode_sep41 topics v = (case ty of
              Transfer \<Rightarrow> if 2 \<le> length addrs
                then Some \<lparr>sep_type = ty, sep_from = Some (addrs ! 0), sep_to = Some (addrs ! 1), sep_amount = amount\<rparr> else None
            | Mint \<Rightarrow> if addrs = [] then None
                else Some \<lparr>sep_type = ty, sep_from = None, sep_to = Some (last addrs), sep_amount = amount\<rparr>
            | Burn \<Rightarrow> if addrs = [] then None
                else Some \<lparr>sep_type = ty, sep_from = Some (hd addrs), sep_to = None, sep_amount = amount\<rparr>
            | Clawback \<Rightarrow> if addrs = [] then None
                else Some \<lparr>sep_type = ty, sep_from = Some (last addrs), sep_to = None, sep_amount = amount\<rparr>)"
    using t by (cases ty) (simp_all add: decode_sep41_def addrs_def Let_def)
  have am: "sep_amount e = amount" and ty: "sep_type e = ty"
    using assms(2) dec by (auto split: Sep41EventType.splits if_splits)
  have "pred_option is_address (sep_from e) \<and> pred_option is_address (sep_to e) \<and>
    (sep_from e = None \<longleftrightarrow> ty = Mint) \<and> (sep_to e \<noteq> None \<longleftrightarrow> ty = Transfer \<or> ty = Mint)"
    using assms(2) dec ad nth by (cases ty) (auto split: if_splits)
  with a am ty show ?thesis by auto
qed

definition account_G :: string where "account_G = CHR ''G'' # replicate 55 (CHR ''A'')"
definition account_C :: string where "account_C = CHR ''C'' # replicate 55 (CHR ''B'')"

lemma accounts_ok: "is_address account_G" "is_address account_C"
  by (code_simp)+

theorem sep41_wellformed_witness:
  "let e = \<lparr>sep_type = Transfer, sep_from = Some account_G, sep_to = Some account_C, sep_amount = ''7''\<rparr> in
   decode_sep41 [JString ''transfer'', JString account_G, JString account_C] (JString ''7'') = Some e \<and>
   (\<exists>a. parse_i128 (sep_amount e) = Some a \<and> 0 \<le> a \<and> a < 2 ^ 127) \<and> pred_option is_address (sep_from e)"
proof -
  let ?e = "\<lparr>sep_type = Transfer, sep_from = Some account_G, sep_to = Some account_C, sep_amount = ''7''\<rparr>"
  have "decode_sep41 [JString ''transfer'', JString account_G, JString account_C] (JString ''7'') = Some ?e"
    by code_simp
  with sep41_wellformed [OF _ this] show ?thesis unfolding Let_def by simp
qed

text \<open>
  Where both decoders accept a plain transfer between two accounts they agree on accounts and amount.
\<close>

lemma decoders_agree_on_transfers:
  assumes "is_address a" "is_address b" "amount_str v = Some s" "\<not> starts_with s ''-''"
  shows "decode_sep41 (JString ''transfer'' # JString a # JString b # rest) v =
      Some \<lparr>sep_type = Transfer, sep_from = Some a, sep_to = Some b, sep_amount = s\<rparr> \<and>
    decode_token (JString ''transfer'' # JString a # JString b # rest) v =
      Some \<lparr>te_kind = ''transfer'', te_from = Some a, te_to = Some b, te_spender = None, te_amount = Some s\<rparr>"
  using assms by (simp add: decode_sep41_def decode_token_def topic_str_def sep41_parse_def topic_at_def Let_def
      List.map_filter_simps)

text \<open>
  On a mint in the CAP-67 layout (recipient and trailing asset, no admin) they do not: the decoder of
  \<open>token_events.rs\<close> takes the asset for the recipient and the recipient for the sender.
\<close>

lemma mint_with_asset:
  "decode_sep41 [JString ''mint'', JString account_G, JString ''USDC:issuer''] (JString ''7'') =
      Some \<lparr>sep_type = Mint, sep_from = None, sep_to = Some account_G, sep_amount = ''7''\<rparr> \<and>
   decode_token [JString ''mint'', JString account_G, JString ''USDC:issuer''] (JString ''7'') =
      Some \<lparr>te_kind = ''mint'', te_from = Some account_G, te_to = Some ''USDC:issuer'', te_spender = None, te_amount = Some ''7''\<rparr>"
  by code_simp

text \<open>Extracted addresses are addresses, at positions where the topic names them.\<close>

lemma addresses_from_sound:
  "(a, p) \<in> set (addresses_from i ts) \<Longrightarrow> \<exists>k < length ts. topic_address (ts ! k) = Some a \<and> p = as_i16 (i + k)"
proof (induction ts arbitrary: i)
  case (Cons t ts)
  show ?case
  proof (cases "(a, p) \<in> set (addresses_from (Suc i) ts)")
    case True
    then obtain k where "k < length ts" "topic_address (ts ! k) = Some a" "p = as_i16 (Suc i + k)"
      using Cons.IH by blast
    then show ?thesis by (intro exI [of _ "Suc k"]) simp
  next
    case False
    then have "topic_address t = Some a \<and> p = as_i16 i"
      using Cons.prems by (auto split: option.splits)
    then show ?thesis by (intro exI [of _ 0]) simp
  qed
qed simp

lemma extract_addresses_sound:
  "(a, p) \<in> set (extract_addresses d) \<Longrightarrow> is_address a \<and> (\<exists>ts k. event_topics d = Some ts \<and> k < length ts \<and> p = as_i16 k)"
proof -
  assume "(a, p) \<in> set (extract_addresses d)"
  then obtain ts where ts: "event_topics d = Some ts" "(a, p) \<in> set (addresses_from 0 ts)"
    by (cases "event_topics d") (auto simp: extract_addresses_def)
  obtain k where "k < length ts" "topic_address (ts ! k) = Some a" "p = as_i16 k"
    using addresses_from_sound [OF ts(2)] by auto
  then show ?thesis using ts(1) by (auto simp: topic_address_def split: option.splits if_splits)
qed

section \<open>The SEP-41 scan\<close>

text \<open>The state of the table once the events \<open>xs\<close> have been handled.\<close>

definition with_sep41 :: "stored_event \<Rightarrow> stored_event" where
  "with_sep41 e = (case decode_sep41_data (se_data e) of None \<Rightarrow> e
     | Some ev \<Rightarrow> (case sep41_columns ev of Inl _ \<Rightarrow> e | Inr cols \<Rightarrow> e\<lparr>se_sep41 := Some cols\<rparr>))"

definition handled :: "stored_event list \<Rightarrow> stored_event list \<Rightarrow> stored_event list" where
  "handled xs evs = map (\<lambda>e. if se_id e \<in> se_id ` set xs then with_sep41 e else e) evs"

lemma with_sep41_key [simp]: "se_id (with_sep41 e) = se_id e" "stored_key (with_sep41 e) = stored_key e"
    "se_data (with_sep41 e) = se_data e"
  by (simp_all add: with_sep41_def stored_key_def split: option.split sum.split)

lemma with_sep41_idem [simp]: "with_sep41 (with_sep41 e) = with_sep41 e"
  by (simp add: with_sep41_def split: option.split sum.split)

lemma sep41_columns_ok:
  assumes "json_ok (se_data e)" "decode_sep41_data (se_data e) = Some ev"
  shows "\<exists>cols. sep41_columns ev = Inr cols"
proof -
  obtain ts where ts: "decode_sep41 ts (event_value (se_data e)) = Some ev"
    using assms(2) by (auto simp: decode_sep41_data_def bind_eq_Some_conv)
  have "json_ok (event_value (se_data e))"
    using assms(1) obj_get_ok
    by (auto simp: event_value_def field_of_def split: option.splits json.splits)
  moreover obtain s where "amount_str (event_value (se_data e)) = Some s" "sep_amount ev = s"
    using ts by (auto simp: decode_sep41_def Let_def bind_eq_Some_conv split: list.splits if_splits Sep41EventType.splits)
  ultimately obtain a where "parse_i128 (sep_amount ev) = Some a" using amount_parses by blast
  then show ?thesis by (simp add: sep41_columns_def)
qed

lemma handled_Nil [simp]: "handled [] evs = evs"
  by (simp add: handled_def)

lemma handled_append: "handled (xs @ ys) evs = handled ys (handled xs evs)"
  by (auto simp: handled_def)

lemma set_sep41_handled:
  assumes "distinct (map se_id evs)" "r \<in> set evs" "decode_sep41_data (se_data r) = Some ev" "sep41_columns ev = Inr cols"
  shows "set_sep41 (se_id r) cols evs = handled [r] evs"
proof -
  have "e = r" if "e \<in> set evs" "se_id e = se_id r" for e
    using that assms(1,2) by (meson distinct_map inj_onD)
  then have "(if se_id e = se_id r then e\<lparr>se_sep41 := Some cols\<rparr> else e)
      = (if se_id e \<in> se_id ` set [r] then with_sep41 e else e)" if "e \<in> set evs" for e
    using that assms(3,4) by (cases "e = r") (auto simp: with_sep41_def)
  then show ?thesis
    unfolding set_sep41_def handled_def by (intro map_cong refl)
qed

lemma handled_undecodable:
  assumes "distinct (map se_id evs)" "r \<in> set evs" "decode_sep41_data (se_data r) = None"
  shows "handled [r] evs = evs"
proof -
  have "e = r" if "e \<in> set evs" "se_id e = se_id r" for e
    using that assms(1,2) by (meson distinct_map inj_onD)
  then have "(if se_id e \<in> se_id ` set [r] then with_sep41 e else e) = e" if "e \<in> set evs" for e
    using that assms(3) by (cases "e = r") (auto simp: with_sep41_def)
  then show ?thesis unfolding handled_def by (intro map_idI)
qed

lemma ids_handled [simp]: "map se_id (handled xs evs) = map se_id evs"
  by (simp add: handled_def)

lemma in_handled: "r \<in> set evs \<Longrightarrow> se_id r \<notin> se_id ` set xs \<Longrightarrow> r \<in> set (handled xs evs)"
  unfolding handled_def by (force simp: image_iff)

lemma sep41_loop_handled:
  "distinct (map se_id evs) \<Longrightarrow> distinct (map se_id rows) \<Longrightarrow> set rows \<subseteq> set evs \<Longrightarrow> \<forall>r\<in>set rows. json_ok (se_data r) \<Longrightarrow>
   \<exists>n'. sep41_loop rows evs n = Inr (handled rows evs, n')"
proof (induction rows arbitrary: evs n)
  case (Cons r rows)
  have r: "r \<in> set evs" using Cons.prems(3) by simp
  have sub: "set rows \<subseteq> set (handled [r] evs)"
    using Cons.prems(2,3) by (auto intro!: in_handled simp: image_iff)
  have ih: "\<exists>n'. sep41_loop rows (handled [r] evs) k = Inr (handled rows (handled [r] evs), n')" for k
    using Cons.IH [of "handled [r] evs" k] Cons.prems sub by simp
  have app: "handled (r # rows) evs = handled rows (handled [r] evs)"
    using handled_append [of "[r]" rows evs] by simp
  show ?case
  proof (cases "decode_sep41_data (se_data r)")
    case None
    then show ?thesis using ih handled_undecodable [OF Cons.prems(1) r None] by (simp add: app)
  next
    case (Some ev)
    obtain cols where c: "sep41_columns ev = Inr cols"
      using sep41_columns_ok [OF _ Some] Cons.prems(4) by auto
    show ?thesis using ih set_sep41_handled [OF Cons.prems(1) r Some c] Some c by (simp add: app)
  qed
qed simp

text \<open>
  The scan after the events \<open>xs\<close> sees the pending events behind them, as they were at the start.
\<close>

lemma filter_map_unchanged:
  "(\<And>e. e \<in> set evs \<Longrightarrow> g e = e \<or> (\<not> Q (g e) \<and> \<not> Q e)) \<Longrightarrow> filter Q (map g evs) = filter Q evs"
proof (induction evs)
  case (Cons a evs)
  then have "filter Q (map g evs) = filter Q evs" "g a = a \<or> (\<not> Q (g a) \<and> \<not> Q a)" by auto
  then show ?case by (cases "g a = a") auto
qed simp

lemma key_before_irrefl: "\<not> key_before d a a"
  using key_before_asym by blast

lemma fetch_after_handled:
  assumes dist: "distinct (map stored_key evs)" "distinct (map se_id evs)"
    and split: "key_rows stored_key Asc sep41_pending evs = xs @ x # ys"
  shows "key_fetch stored_key Asc sep41_pending (handled (xs @ [x]) evs) (Some (stored_key x)) n = take n ys"
proof -
  have srt: "sorted_wrt (\<lambda>a b. key_before Asc (stored_key a) (stored_key b)) (xs @ x # ys)"
    using key_rows_sorted [OF dist(1)] unfolding split [symmetric] .
  have mem: "set (xs @ x # ys) = {r \<in> set evs. sep41_pending r}"
    using set_key_rows [of stored_key Asc sep41_pending evs] unfolding split by simp
  let ?Q = "\<lambda>r. key_before Asc (stored_key x) (stored_key r) \<and> sep41_pending r"
  have "filter ?Q (handled (xs @ [x]) evs) = filter ?Q evs"
    unfolding handled_def
  proof (rule filter_map_unchanged)
    fix e assume e: "e \<in> set evs"
    show "(if se_id e \<in> se_id ` set (xs @ [x]) then with_sep41 e else e) = e \<or>
        \<not> ?Q (if se_id e \<in> se_id ` set (xs @ [x]) then with_sep41 e else e) \<and> \<not> ?Q e"
    proof (cases "se_id e \<in> se_id ` set (xs @ [x])")
      case True
      then obtain y where y: "y \<in> set (xs @ [x])" "se_id e = se_id y" by auto
      have "y \<in> set evs" using y(1) mem by auto
      with y e have "e = y" using dist(2) by (meson distinct_map inj_onD)
      then have "\<not> key_before Asc (stored_key x) (stored_key e)"
        using y(1) srt key_before_irrefl [of Asc "stored_key x"] by (force simp: sorted_wrt_append dest: key_before_asym)
      then show ?thesis by simp
    qed simp
  qed
  then have "key_fetch stored_key Asc sep41_pending (handled (xs @ [x]) evs) (Some (stored_key x)) n
      = key_fetch stored_key Asc sep41_pending evs (Some (stored_key x)) n"
    by (simp add: key_fetch_def)
  also have "\<dots> = take n (filter (\<lambda>r. key_before Asc (stored_key x) (stored_key r)) (xs @ x # ys))"
    by (simp add: key_fetch_rows [OF dist(1)] split)
  also have "filter (\<lambda>r. key_before Asc (stored_key x) (stored_key r)) (xs @ x # ys) = ys"
    using srt key_before_irrefl [of Asc "stored_key x"] by (force simp: sorted_wrt_append filter_empty_conv dest: key_before_asym)
  finally show ?thesis .
qed

lemma sep41_run_from:
  assumes dist: "distinct (map stored_key evs)" "distinct (map se_id evs)" and ok: "\<forall>e\<in>set evs. json_ok (se_data e)"
    and batch: "0 < batch"
  shows "key_rows stored_key Asc sep41_pending evs = xs @ ys \<Longrightarrow> length ys < k \<Longrightarrow>
    (xs = [] \<and> after = None) \<or> (xs \<noteq> [] \<and> after = Some (stored_key (last xs))) \<Longrightarrow>
    sep41_run k after batch (handled xs evs) = Some (handled (xs @ ys) evs)"
proof (induction k arbitrary: xs ys after)
  case (Suc k)
  have mem: "set (xs @ ys) \<subseteq> set evs"
    using set_key_rows [of stored_key Asc sep41_pending evs] Suc.prems(1) by auto
  have fetch: "key_fetch stored_key Asc sep41_pending (handled xs evs) after batch = take batch ys"
  proof (cases "xs = []")
    case True
    then show ?thesis
      using Suc.prems(1,3) key_fetch_rows [OF dist(1), of Asc sep41_pending None batch] by simp
  next
    case False
    then have "key_rows stored_key Asc sep41_pending evs = butlast xs @ last xs # ys"
      using Suc.prems(1) by simp
    from fetch_after_handled [OF dist this, of batch] show ?thesis
      using False Suc.prems(3) by simp
  qed
  have "distinct (xs @ ys)"
    using key_rows_sorted [OF dist(1), of Asc sep41_pending] Suc.prems(1) dist(1)
    by (metis distinct_filter distinct_map key_rows_def mset_eq_imp_distinct_iff mset_order_by)
  then have dids: "distinct (map se_id (xs @ ys))"
    using mem dist(2) by (metis distinct_map inj_on_subset)
  let ?rows = "take batch ys"
  have rows_ids: "se_id r \<notin> se_id ` set xs" if "r \<in> set ?rows" for r
    using that dids by (auto dest!: in_set_takeD simp: image_iff)
  have "distinct (map se_id ys)" using dids by simp
  then have dr: "distinct (map se_id ?rows)" by (simp add: take_map [symmetric])
  have "set ?rows \<subseteq> set (handled xs evs)"
  proof
    fix r assume r: "r \<in> set ?rows"
    then have "r \<in> set evs" using mem by (auto dest: in_set_takeD)
    then show "r \<in> set (handled xs evs)" using rows_ids [OF r] by (rule in_handled)
  qed
  moreover have "\<forall>r\<in>set ?rows. json_ok (se_data r)" using ok mem by (auto dest: in_set_takeD)
  ultimately obtain n' where loop: "sep41_loop ?rows (handled xs evs) 0 = Inr (handled ?rows (handled xs evs), n')"
    using sep41_loop_handled [of "handled xs evs" ?rows 0] dist(2) dr by auto
  have app: "handled ?rows (handled xs evs) = handled (xs @ ?rows) evs" by (simp add: handled_append)
  show ?case
  proof (cases "length ?rows = batch")
    case True
    then have ne: "?rows \<noteq> []" using batch by auto
    have "sep41_run k (Some (stored_key (last (xs @ ?rows)))) batch (handled (xs @ ?rows) evs)
        = Some (handled ((xs @ ?rows) @ drop batch ys) evs)"
      using Suc.prems ne True batch by (intro Suc.IH) auto
    then show ?thesis
      using True ne by (simp add: backfill_sep41_def fetch loop app Let_def)
  next
    case False
    then have "?rows = ys" by simp
    then show ?thesis using False loop app by (simp add: backfill_sep41_def fetch Let_def)
  qed
qed simp

text \<open>
  C15. The scan finishes its work: calling the backfill with the cursor it returns ends after at most one call
  more than there are pending events, whatever the batch size, and then exactly the pending events whose data decodes
  have their columns, with the decoded values; no other row has changed.
\<close>

theorem sep41_scan_complete:
  assumes "distinct (map se_id evs)" "\<forall>e. e \<in> set evs \<longrightarrow> json_ok (se_data e)" "0 < batch"
  shows "sep41_run (length evs + 1) None batch evs =
    Some (map (\<lambda>e. if sep41_pending e then with_sep41 e else e) evs)"
proof -
  have dk: "distinct (map stored_key evs)"
    using assms(1) by (auto simp: distinct_map inj_on_def stored_key_def)
  let ?P = "key_rows stored_key Asc sep41_pending evs"
  have "length ?P \<le> length evs"
    unfolding key_rows_def by (metis length_filter_le mset_order_by size_mset)
  then have "sep41_run (length evs + 1) None batch (handled [] evs) = Some (handled ([] @ ?P) evs)"
    using assms(2) by (intro sep41_run_from [OF dk assms(1) _ assms(3)]) auto
  moreover have "handled ?P evs = map (\<lambda>e. if sep41_pending e then with_sep41 e else e) evs"
  proof -
    have "se_id e \<in> se_id ` set ?P \<longleftrightarrow> sep41_pending e" if "e \<in> set evs" for e
    proof
      assume "se_id e \<in> se_id ` set ?P"
      then obtain y where "y \<in> set evs" "sep41_pending y" "se_id e = se_id y" by auto
      then show "sep41_pending e" using that assms(1) by (metis distinct_map inj_onD)
    qed (use that in auto)
    then show ?thesis unfolding handled_def by (intro map_cong) auto
  qed
  ultimately show ?thesis by simp
qed


theorem sep41_scan_complete_witness:
  "let e = \<lparr>se_id = 1, se_contract = ''c'', se_ledger = 5, se_tx_hash = ''h'', se_data = JNull, se_sep41 = None\<rparr>;
       d = e\<lparr>se_id := 2, se_data := JObject [(''topic'', JArray [JString ''burn'', JString account_G]), (''value'', JString ''7'')]\<rparr> in
   sep41_run 3 None 1 [e, d] = Some [e, d\<lparr>se_sep41 := Some (''burn'', Some account_G, None, 7)\<rparr>]"
proof -
  let ?e = "\<lparr>se_id = 1, se_contract = ''c'', se_ledger = 5, se_tx_hash = ''h'', se_data = JNull, se_sep41 = None\<rparr> :: stored_event"
  let ?d = "?e\<lparr>se_id := 2, se_data := JObject [(''topic'', JArray [JString ''burn'', JString account_G]), (''value'', JString ''7'')]\<rparr>"
  have run: "sep41_run (length [?e, ?d] + 1) None 1 [?e, ?d] = Some (map (\<lambda>e. if sep41_pending e then with_sep41 e else e) [?e, ?d])"
    by (rule sep41_scan_complete) (auto simp: account_G_def)
  have "\<not> sep41_pending ?e" "sep41_pending ?d" by code_simp+
  moreover have "with_sep41 ?d = ?d\<lparr>se_sep41 := Some (''burn'', Some account_G, None, 7)\<rparr>" by code_simp
  ultimately show ?thesis using run by (simp add: numeral_3_eq_3)
qed

section \<open>The other scans can stall\<close>

text \<open>
  The other two backfills select their candidates from the start each time. Rows that decode to nothing
  stay candidates, so that a batch made of such rows is selected again by every later call.
\<close>

lemma transfer_loop_undecodable:
  "\<forall>r\<in>set rows. decode_token_data (se_data r) = None \<Longrightarrow> transfer_loop rows tbl n = Inr (tbl, n)"
  by (induction rows) auto

theorem transfer_backfill_stalls:
  assumes "\<And>r. r \<in> set (take batch (transfer_candidates evs tbl)) \<Longrightarrow> decode_token_data (se_data r) = None"
  shows "backfill_transfers evs batch tbl = Inr (tbl, 0)"
  unfolding backfill_transfers_def using assms by (intro transfer_loop_undecodable) blast

lemma insert_addresses_none: "extract_addresses (se_data r) = [] \<Longrightarrow> address_loop (r # rs) tbl n = address_loop rs tbl n"
  by simp

lemma address_backfill_stalls:
  assumes "\<And>r. r \<in> set (take batch (address_candidates evs tbl)) \<Longrightarrow> extract_addresses (se_data r) = []"
  shows "backfill_addresses evs batch tbl = (tbl, 0)"
proof -
  have "address_loop rows tbl n = (tbl, n)" if "\<forall>r\<in>set rows. extract_addresses (se_data r) = []" for rows n
    using that by (induction rows) auto
  then show ?thesis unfolding backfill_addresses_def using assms by blast
qed

text \<open>
  With a batch of one, an undecodable burn in an early ledger hides every later transfer from the backfill.
\<close>

theorem transfer_backfill_stalls_witness:
  "let bad = \<lparr>se_id = 1, se_contract = ''c'', se_ledger = 5, se_tx_hash = ''h'',
         se_data = JObject [(''topic'', JArray [JString ''burn''])], se_sep41 = None\<rparr>;
       good = bad\<lparr>se_id := 2, se_ledger := 6,
         se_data := JObject [(''topic'', JArray [JString ''burn'', JString account_G]), (''value'', JString ''7'')]\<rparr> in
   decode_token_data (se_data good) \<noteq> None \<and> backfill_transfers [bad, good] 1 [] = Inr ([], 0)"
proof -
  let ?b = "\<lparr>se_id = 1, se_contract = ''c'', se_ledger = 5, se_tx_hash = ''h'',
         se_data = JObject [(''topic'', JArray [JString ''burn''])], se_sep41 = None\<rparr> :: stored_event"
  let ?g = "?b\<lparr>se_id := 2, se_ledger := 6,
         se_data := JObject [(''topic'', JArray [JString ''burn'', JString account_G]), (''value'', JString ''7'')]\<rparr>"
  have "transfer_candidates [?b, ?g] [] = [?b, ?g]"
    by (simp add: transfer_candidates_def first_topic_in_def event_topics_def field_of_def obj_get_def token_kinds_def)
  moreover have "decode_token_data (se_data ?b) = None" "decode_token_data (se_data ?g) \<noteq> None" by code_simp+
  ultimately show ?thesis using transfer_backfill_stalls [of 1 "[?b, ?g]" "[]"] by (simp add: Let_def)
qed

text \<open>
  No event has two transfer rows, and the decimal text of every decoded amount is stored, so that the
  backfill cannot fail on a row.
\<close>

lemma decode_token_amount:
  "decode_token ts v = Some e \<Longrightarrow> te_amount e = None \<or> te_amount e = amount_str v"
  by (auto simp: decode_token_def Let_def split: list.splits option.splits if_splits)

lemma to_numeric_ok: "json_ok v \<Longrightarrow> decode_token ts v = Some e \<Longrightarrow> \<exists>a. to_numeric (te_amount e) = Inr a"
  using decode_token_amount [of ts v e] amount_parses [of v]
  by (cases "te_amount e") (fastforce simp: to_numeric_def)+

lemma event_value_ok: "json_ok d \<Longrightarrow> json_ok (event_value d)"
  using obj_get_ok by (auto simp: event_value_def field_of_def split: option.splits json.splits)

lemma insert_transfer_distinct:
  "distinct (map tr_event_id tbl) \<Longrightarrow> distinct (map tr_event_id (fst (insert_transfer row tbl)))"
  by (auto simp: insert_transfer_def)

theorem transfer_rows_unique:
  assumes "distinct (map tr_event_id tbl)" "\<And>e. e \<in> set evs \<Longrightarrow> json_ok (se_data e)"
  shows "\<exists>tbl' n. backfill_transfers evs batch tbl = Inr (tbl', n) \<and> distinct (map tr_event_id tbl') \<and>
    length tbl' = length tbl + n \<and> n \<le> batch"
proof -
  have "\<exists>tbl' k. transfer_loop rows tbl n = Inr (tbl', n + k) \<and> distinct (map tr_event_id tbl') \<and>
      length tbl' = length tbl + k \<and> k \<le> length rows"
    if "distinct (map tr_event_id tbl)" "\<forall>r\<in>set rows. json_ok (se_data r)" for rows tbl n
    using that
  proof (induction rows arbitrary: tbl n)
    case (Cons r rows)
    show ?case
    proof (cases "decode_token_data (se_data r)")
      case None
      then show ?thesis using Cons.IH [OF Cons.prems(1), of n] Cons.prems(2) by (auto intro: le_SucI)
    next
      case (Some ev)
      then obtain ts where "decode_token ts (event_value (se_data r)) = Some ev"
        by (auto simp: decode_token_data_def bind_eq_Some_conv)
      then obtain a where a: "to_numeric (te_amount ev) = Inr a"
        using to_numeric_ok event_value_ok Cons.prems(2) by (metis list.set_intros(1))
      let ?row = "\<lparr>tr_event_id = se_id r, tr_contract = se_contract r, tr_kind = te_kind ev,
                tr_from = te_from ev, tr_to = te_to ev, tr_spender = te_spender ev, tr_amount = a,
                tr_ledger = se_ledger r, tr_tx_hash = se_tx_hash r\<rparr>"
      obtain t1 k1 where i: "insert_transfer ?row tbl = (t1, k1)" by fastforce
      then have t1: "distinct (map tr_event_id t1)" "length t1 = length tbl + k1" "k1 \<le> 1"
        using insert_transfer_distinct [OF Cons.prems(1), of ?row] by (auto simp: insert_transfer_def split: if_splits)
      obtain tbl' k where "transfer_loop rows t1 (n + k1) = Inr (tbl', n + k1 + k)" "distinct (map tr_event_id tbl')"
          "length tbl' = length t1 + k" "k \<le> length rows"
        using Cons.IH [OF t1(1), of "n + k1"] Cons.prems(2) by auto
      then show ?thesis using Some a i t1 by (intro exI [of _ tbl'] exI [of _ "k1 + k"]) simp
    qed
  qed simp
  note loop = this [OF assms(1), of "take batch (transfer_candidates evs tbl)" 0]
  have "\<forall>r\<in>set (take batch (transfer_candidates evs tbl)). json_ok (se_data r)"
    using assms(2) by (auto simp: transfer_candidates_def dest!: in_set_takeD)
  from loop [OF this] show ?thesis unfolding backfill_transfers_def by fastforce
qed

theorem transfer_rows_unique_witness:
  "\<exists>tbl' n. backfill_transfers [] 3 [] = Inr (tbl', n) \<and> distinct (map tr_event_id tbl') \<and>
    length tbl' = length ([] :: transfer_row list) + n \<and> n \<le> 3"
  by (rule transfer_rows_unique) simp_all

section \<open>The lists are complete\<close>

definition keyed_wf :: "cursor_codec \<Rightarrow> ('r \<Rightarrow> int \<times> nat) \<Rightarrow> 'r list \<Rightarrow> bool" where
  "keyed_wf K key tbl \<longleftrightarrow> codec_laws K \<and> distinct (map key tbl) \<and>
     list_all (\<lambda>r. in_i64 (fst (key r)) \<and> snd (key r) < 2 ^ 128) tbl"

interpretation keyed: keyset "keyed_wf K key" "parse_cursor K" "plain_cursor K"
  "key_fetch key Desc F" key "key_before Desc" "key_rows key Desc F" for K key F
proof
  fix tbl r cur n
  assume wf: "keyed_wf K key tbl"
  then have dist: "distinct (map key tbl)" by (simp add: keyed_wf_def)
  show "key_fetch key Desc F tbl cur n = take n (filter (\<lambda>r. case cur of None \<Rightarrow> True | Some k \<Rightarrow> key_before Desc k (key r)) (key_rows key Desc F tbl))"
    by (rule key_fetch_rows [OF dist])
  show "sorted_wrt (\<lambda>a b. key_before Desc (key a) (key b)) (key_rows key Desc F tbl)"
    by (rule key_rows_sorted [OF dist])
  show "parse_cursor K (plain_cursor K (key r)) = Inr (key r)" if "r \<in> set (key_rows key Desc F tbl)"
    using that wf by (intro parse_cursor_plain) (auto simp: keyed_wf_def list_all_iff)
qed (rule key_before_asym)

lemma list_limit_pos: "0 < list_limit l" "list_limit l \<le> 200"
  using clamp_range [of 1 200 "case l of None \<Rightarrow> 50 | Some n \<Rightarrow> n"] by (auto simp: list_limit_def)

text \<open>
  A client that follows the cursors of the transfer list gets every transfer of the contract that
  passes the filters, once, newest ledger first, in pages of the requested size.
\<close>

theorem token_transfers_complete:
  assumes "keyed_wf K transfer_key tbl" "check_contract_id c = Inr ()" "check_min_amount (tq_min_amount q) = Inr ()"
  shows "let all = key_rows transfer_key Desc (transfer_matches c q) tbl in
    \<exists>pages. follow (length all + 1) (\<lambda>cur. get_token_transfers K tbl c (q\<lparr>tq_cursor := cur\<rparr>)) None = Some pages \<and>
      concat pages = all \<and> (\<forall>p. p \<in> set pages \<longrightarrow> length p \<le> list_limit (tq_limit q))"
proof -
  have m: "transfer_matches c (q\<lparr>tq_cursor := cur\<rparr>) = transfer_matches c q" for cur
    by (rule ext) (simp add: transfer_matches_def)
  have "get_token_transfers K tbl c (q\<lparr>tq_cursor := cur\<rparr>) = probe_page (parse_cursor K) (plain_cursor K)
      (key_fetch transfer_key Desc (transfer_matches c q) tbl) transfer_key (list_limit (tq_limit q)) cur" for cur
    using assms(2,3) by (simp add: get_token_transfers_def and_then_def m)
  then show ?thesis
    using keyed.follow_probe [OF assms(1) list_limit_pos(1), of "transfer_matches c q" "tq_limit q"] by (simp add: Let_def Ball_def del: follow.simps)
qed

lemma sep41_events_complete:
  assumes "keyed_wf K stored_key evs" "check_address ''from'' (sq_from q) = Inr ()" "check_address ''to'' (sq_to q) = Inr ()"
    "check_min_amount (sq_min_amount q) = Inr ()" "check_event_type (sq_event_type q) = Inr ty"
    "when_given (sq_contract_id q) check_contract_id = Inr ()"
  shows "let all = key_rows stored_key Desc (sep41_matches q ty) evs in
    \<exists>pages. follow (length all + 1) (\<lambda>cur. get_sep41_events K evs (q\<lparr>sq_cursor := cur\<rparr>)) None = Some pages \<and>
      concat pages = all \<and> (\<forall>p. p \<in> set pages \<longrightarrow> length p \<le> list_limit (sq_limit q))"
proof -
  have m: "sep41_matches (q\<lparr>sq_cursor := cur\<rparr>) ty = sep41_matches q ty" for cur
    by (rule ext) (auto simp: sep41_matches_def split: option.split)
  have "get_sep41_events K evs (q\<lparr>sq_cursor := cur\<rparr>) = probe_page (parse_cursor K) (plain_cursor K)
      (key_fetch stored_key Desc (sep41_matches q ty) evs) stored_key (list_limit (sq_limit q)) cur" for cur
    using assms(2-) by (simp add: get_sep41_events_def and_then_def m)
  then show ?thesis
    using keyed.follow_probe [OF assms(1) list_limit_pos(1), of "sep41_matches q ty" "sq_limit q"] by (simp add: Let_def Ball_def del: follow.simps)
qed

lemma account_events_complete:
  assumes "keyed_wf K stored_key evs" "is_address a" "parse_role (aq_role q) = Inr pos"
  shows "let all = key_rows stored_key Desc (account_matches addrs a pos q) evs in
    \<exists>pages. follow (length all + 1) (\<lambda>cur. get_account_events K evs addrs a (q\<lparr>aq_cursor := cur\<rparr>)) None = Some pages \<and>
      concat pages = all \<and> (\<forall>p. p \<in> set pages \<longrightarrow> length p \<le> list_limit (aq_limit q))"
proof -
  have m: "account_matches addrs a pos (q\<lparr>aq_cursor := cur\<rparr>) = account_matches addrs a pos q" for cur
    by (rule ext) (simp add: account_matches_def cong: list_ex_cong)
  have "get_account_events K evs addrs a (q\<lparr>aq_cursor := cur\<rparr>) = probe_page (parse_cursor K) (plain_cursor K)
      (key_fetch stored_key Desc (account_matches addrs a pos q) evs) stored_key (list_limit (aq_limit q)) cur" for cur
    using assms(2,3) by (simp add: get_account_events_def and_then_def m require_def)
  then show ?thesis
    using keyed.follow_probe [OF assms(1) list_limit_pos(1), of "account_matches addrs a pos q" "aq_limit q"] by (simp add: Let_def Ball_def del: follow.simps)
qed

definition sample_transfer :: "nat \<Rightarrow> int \<Rightarrow> transfer_row" where
  "sample_transfer u l = \<lparr>tr_event_id = u, tr_contract = account_C, tr_kind = ''burn'', tr_from = Some account_G, tr_to = None,
     tr_spender = None, tr_amount = Some 7, tr_ledger = l, tr_tx_hash = ''h''\<rparr>"

definition any_transfer :: TransfersQuery where
  "any_transfer = \<lparr>tq_from = None, tq_to = None, tq_min_amount = None, tq_cursor = None, tq_limit = Some 1\<rparr>"

theorem token_transfers_complete_witness:
  "let tbl = [sample_transfer 1 5, sample_transfer 2 6];
       all = key_rows transfer_key Desc (transfer_matches account_C any_transfer) tbl in
    \<exists>pages. follow (length all + 1) (\<lambda>cur. get_token_transfers sample_codec tbl account_C (any_transfer\<lparr>tq_cursor := cur\<rparr>)) None = Some pages \<and>
      concat pages = all \<and> (\<forall>p. p \<in> set pages \<longrightarrow> length p \<le> list_limit (tq_limit any_transfer))"
proof -
  let ?tbl = "[sample_transfer 1 5, sample_transfer 2 6]"
  have "keyed_wf sample_codec transfer_key ?tbl"
    by (simp add: keyed_wf_def sample_codec_laws transfer_key_def sample_transfer_def in_i64_def i64_min_def i64_max_def)
  moreover have "check_contract_id account_C = Inr ()" by code_simp
  moreover have "check_min_amount (tq_min_amount any_transfer) = Inr ()"
    by (simp add: any_transfer_def check_min_amount_def when_given_def)
  ultimately show ?thesis using token_transfers_complete [of sample_codec ?tbl account_C any_transfer] by (simp only: Let_def)
qed

end
