(* ===== verification/Secret_Store.thy ===== *)
theory Secret_Store
  imports Json_Access Keyset_Paging "HOL-Library.Countable"
begin

text \<open>
  Model of the encryption modules: the envelope of event data and the versioned key store
  (\<open>src/encryption.rs\<close>), string secrets in \<open>TEXT\<close> columns (its module \<open>secrets\<close>), and the credentials of
  integrations with their keys, masks and rewriting jobs (\<open>src/integration_secrets.rs\<close>). The cipher, base64
  and the JSON printer and parser are parameters; the nonces are drawn from a sequence. The lemmas show what
  opens with which keys, what a mask reveals, and what the rewriting jobs leave behind.
\<close>

section \<open>The crates\<close>

type_synonym key = string

record crypto =
  aes_seal :: "key \<Rightarrow> string \<Rightarrow> string \<Rightarrow> string option"
  aes_open :: "key \<Rightarrow> string \<Rightarrow> string \<Rightarrow> string option"
  b64 :: "string \<Rightarrow> string"
  unb64 :: "string \<Rightarrow> string option"
  to_vec :: "json \<Rightarrow> string"
  from_slice :: "string \<Rightarrow> json option"
  aead_error :: string
  b64_error :: "string \<Rightarrow> string"
  json_error :: "string \<Rightarrow> string"
  utf8_error :: "string \<Rightarrow> string"

definition NONCE_LEN :: nat where "NONCE_LEN = 12"

text \<open>
  AES-GCM opens what it sealed, and refuses only messages longer than its limit; base64 and the JSON
  printer are undone by their readers.
\<close>

definition crypto_laws :: "crypto \<Rightarrow> bool" where
  "crypto_laws C \<longleftrightarrow>
     (\<forall>k n p c. length k = 32 \<longrightarrow> length n = NONCE_LEN \<longrightarrow> aes_seal C k n p = Some c \<longrightarrow> aes_open C k n c = Some p) \<and>
     (\<forall>k n p. length k = 32 \<longrightarrow> length n = NONCE_LEN \<longrightarrow> length p \<le> 2 ^ 36 \<longrightarrow> aes_seal C k n p \<noteq> None) \<and>
     (\<forall>s. unb64 C (b64 C s) = Some s) \<and>
     (\<forall>v. canonical v \<longrightarrow> from_slice C (to_vec C v) = Some v)"

text \<open>Authenticity, in the form that only the key that sealed a message opens it.\<close>

definition authentic :: "crypto \<Rightarrow> bool" where
  "authentic C \<longleftrightarrow> (\<forall>k k' n p c. length k = 32 \<longrightarrow> length k' = 32 \<longrightarrow> k \<noteq> k' \<longrightarrow> length n = NONCE_LEN \<longrightarrow>
     aes_seal C k n p = Some c \<longrightarrow> aes_open C k' n c = None)"

section \<open>The versioned key store\<close>

record KeyStore =
  store_current :: u32
  store_keys :: "u32 \<rightharpoonup> key"

definition store_new :: "key \<Rightarrow> KeyStore" where
  "store_new k = \<lparr>store_current = 1, store_keys = [1 \<mapsto> k]\<rparr>"

definition store_rotate :: "key \<Rightarrow> KeyStore \<Rightarrow> KeyStore \<times> u32" where
  "store_rotate k ks = (let v = store_current ks + 1 in (\<lparr>store_current = v, store_keys = (store_keys ks)(v \<mapsto> k)\<rparr>, v))"

definition get_key :: "u32 \<Rightarrow> KeyStore \<Rightarrow> key option" where "get_key v ks = store_keys ks v"

definition get_current_key :: "KeyStore \<Rightarrow> key option" where "get_current_key ks = store_keys ks (store_current ks)"

text \<open>The global store, empty until the first use.\<close>

definition init_key_store :: "key \<Rightarrow> KeyStore option \<Rightarrow> KeyStore option" where
  "init_key_store k g = (case g of None \<Rightarrow> Some (store_new k) | Some ks \<Rightarrow> Some ks)"

definition get_or_init :: "KeyStore option \<Rightarrow> KeyStore" where
  "get_or_init g = (case g of None \<Rightarrow> store_new (replicate 32 (CHR 0x00)) | Some ks \<Rightarrow> ks)"

definition rotate_encryption_key :: "key \<Rightarrow> KeyStore option \<Rightarrow> KeyStore option \<times> u32" where
  "rotate_encryption_key k g = (case store_rotate k (get_or_init g) of (ks, v) \<Rightarrow> (Some ks, v))"

definition current_key_version :: "KeyStore option \<Rightarrow> KeyStore option \<times> u32" where
  "current_key_version g = (Some (get_or_init g), store_current (get_or_init g))"

section \<open>The envelope of event data\<close>

definition envelope :: "crypto \<Rightarrow> string \<Rightarrow> string \<Rightarrow> u32 \<Rightarrow> json" where
  "envelope C ct nonce v = JObject [(''data'', JString (b64 C ct)), (''encrypted'', JBool True),
     (''key_version'', JNumber (PosInt (ucast v))), (''nonce'', JString (b64 C nonce))]"

definition encrypt :: "crypto \<Rightarrow> key \<Rightarrow> string \<Rightarrow> KeyStore option \<Rightarrow> json \<Rightarrow> KeyStore option \<times> (string + json)" where
  "encrypt C k nonce g plaintext =
     (case aes_seal C k nonce (to_vec C plaintext) of
        None \<Rightarrow> (g, Inl (aead_error C))
      | Some ct \<Rightarrow> (case current_key_version g of (g', v) \<Rightarrow> (g', Inr (envelope C ct nonce v))))"

definition try_decrypt_with_key :: "crypto \<Rightarrow> key \<Rightarrow> string \<Rightarrow> string \<Rightarrow> string + string" where
  "try_decrypt_with_key C k nonce ct = (case aes_open C k nonce ct of None \<Rightarrow> Inl (aead_error C) | Some p \<Rightarrow> Inr p)"

definition or_old :: "(key \<Rightarrow> string + 'a) \<Rightarrow> key \<Rightarrow> key option \<Rightarrow> string + 'a" where
  "or_old f k old = (case f k of Inr p \<Rightarrow> Inr p | Inl e \<Rightarrow> (case old of None \<Rightarrow> Inl e | Some k' \<Rightarrow> f k'))"

definition text_field :: "string \<Rightarrow> json \<Rightarrow> string + string" where
  "text_field nm v = (case Option.bind (field_of nm v) as_str of
     None \<Rightarrow> Inl (''missing '' @ [CHR 0x27] @ nm @ [CHR 0x27] @ '' field in encrypted envelope'') | Some s \<Rightarrow> Inr s)"

definition decode_b64 :: "crypto \<Rightarrow> string \<Rightarrow> string + string" where
  "decode_b64 C s = (case unb64 C s of None \<Rightarrow> Inl (b64_error C s) | Some b \<Rightarrow> Inr b)"

definition check_nonce :: "string \<Rightarrow> string + unit" where
  "check_nonce n = (if length n \<noteq> NONCE_LEN then Inl (''invalid nonce length: '' @ show_nat (length n)) else Inr ())"

definition decrypt :: "crypto \<Rightarrow> key \<Rightarrow> key option \<Rightarrow> json \<Rightarrow> string + json" where
  "decrypt C k old v =
     (if field_of ''encrypted'' v \<noteq> Some (JBool True) then Inr v
      else and_then (text_field ''data'' v) (\<lambda>d. and_then (text_field ''nonce'' v) (\<lambda>n.
           and_then (decode_b64 C d) (\<lambda>ct. and_then (decode_b64 C n) (\<lambda>nonce.
           and_then (check_nonce nonce) (\<lambda>_.
           and_then (or_old (\<lambda>k. try_decrypt_with_key C k nonce ct) k old) (\<lambda>p.
           case from_slice C p of None \<Rightarrow> Inl (json_error C p) | Some w \<Rightarrow> Inr w)))))))"

section \<open>String secrets\<close>

definition PREFIX :: string where "PREFIX = ''enc:v1:''"

definition is_encrypted :: "string \<Rightarrow> bool" where "is_encrypted s \<longleftrightarrow> starts_with s PREFIX"

definition encrypt_secret :: "crypto \<Rightarrow> key \<Rightarrow> u32 \<Rightarrow> string \<Rightarrow> string \<Rightarrow> string + string" where
  "encrypt_secret C k v nonce plaintext =
     (case aes_seal C k nonce plaintext of
        None \<Rightarrow> Inl (aead_error C)
      | Some ct \<Rightarrow> Inr (PREFIX @ b64 C (to_vec C (envelope C ct nonce v))))"

definition decrypt_secret :: "crypto \<Rightarrow> key \<Rightarrow> key option \<Rightarrow> string \<Rightarrow> string + string" where
  "decrypt_secret C k old stored =
     (if \<not> starts_with stored PREFIX then Inr stored
      else and_then (decode_b64 C (drop (length PREFIX) stored)) (\<lambda>b.
           and_then (case from_slice C b of None \<Rightarrow> Inl (json_error C b) | Some w \<Rightarrow> Inr w) (\<lambda>v.
           if field_of ''encrypted'' v \<noteq> Some (JBool True) then Inl ''not an encrypted envelope''
           else and_then (text_field ''data'' v) (\<lambda>d. and_then (text_field ''nonce'' v) (\<lambda>n.
           and_then (decode_b64 C d) (\<lambda>ct. and_then (decode_b64 C n) (\<lambda>nonce.
           and_then (check_nonce nonce) (\<lambda>_.
           and_then (or_old (\<lambda>k. try_decrypt_with_key C k nonce ct) k old) (\<lambda>p.
           if from_utf8 p then Inr p else Inl (utf8_error C p))))))))))"

text \<open>The characters of a text: a byte that is no continuation byte, with the continuation bytes after it.\<close>

function utf8_chars :: "string \<Rightarrow> string list" where
  "utf8_chars [] = []"
| "utf8_chars (b # bs) = (b # takeWhile (byte_in 0x80 0xBF) bs) # utf8_chars (dropWhile (byte_in 0x80 0xBF) bs)"
  by pat_completeness auto
termination
  by (relation "measure length") (auto simp: less_Suc_eq_le length_dropWhile_le)

definition mask_secret :: "string \<Rightarrow> string" where
  "mask_secret plaintext =
     (let chars = utf8_chars plaintext in
      if length chars \<le> 8 then ''****'' else ''****'' @ concat (drop (length chars - 4) chars))"

section \<open>Integration credentials\<close>

datatype SecretError = NotConfigured | Crypto string

record Keys =
  key_current :: key
  key_old :: "key option"
  key_version :: u32

definition init_keys :: "key option \<Rightarrow> key option \<Rightarrow> Keys option option \<Rightarrow> Keys option option" where
  "init_keys current old g = (case g of Some ks \<Rightarrow> Some ks
     | None \<Rightarrow> Some (map_option (\<lambda>c. \<lparr>key_current = c, key_old = old, key_version = (if old = None then 1 else 2)\<rparr>) current))"

definition keys :: "Keys option option \<Rightarrow> SecretError + Keys" where
  "keys g = (case g of Some (Some ks) \<Rightarrow> Inr ks | _ \<Rightarrow> Inl NotConfigured)"

definition is_configured :: "Keys option option \<Rightarrow> bool" where
  "is_configured g \<longleftrightarrow> (case keys g of Inl _ \<Rightarrow> False | Inr _ \<Rightarrow> True)"

definition rotation_configured :: "Keys option option \<Rightarrow> bool" where
  "rotation_configured g \<longleftrightarrow> (case keys g of Inl _ \<Rightarrow> False | Inr ks \<Rightarrow> key_old ks \<noteq> None)"

text \<open>What a process has: the crates, its keys, and the nonces its generator will draw.\<close>

record vault =
  crates :: crypto
  installed :: "Keys option option"
  nonce_at :: "nat \<Rightarrow> string"

text \<open>Sealing draws a nonce; the number of draws so far is threaded through.\<close>

definition seal :: "vault \<Rightarrow> string \<Rightarrow> nat \<Rightarrow> (SecretError + string) \<times> nat" where
  "seal V plaintext n = (case keys (installed V) of Inl e \<Rightarrow> (Inl e, n)
     | Inr ks \<Rightarrow> (map_sum Crypto id (encrypt_secret (crates V) (key_current ks) (key_version ks) (nonce_at V n) plaintext), n + 1))"

definition seal_opt :: "vault \<Rightarrow> string option \<Rightarrow> nat \<Rightarrow> (SecretError + string option) \<times> nat" where
  "seal_opt V p n = (case p of None \<Rightarrow> (Inr None, n) | Some s \<Rightarrow> apfst (map_sum id Some) (seal V s n))"

definition open_stored :: "vault \<Rightarrow> string \<Rightarrow> SecretError + string" where
  "open_stored V stored =
     (if \<not> is_encrypted stored then Inr stored
      else and_then (keys (installed V)) (\<lambda>ks.
           map_sum Crypto id (decrypt_secret (crates V) (key_current ks) (key_old ks) stored)))"

definition mask_stored :: "vault \<Rightarrow> string \<Rightarrow> string" where
  "mask_stored V stored = (case open_stored V stored of Inr p \<Rightarrow> mask_secret p | Inl e \<Rightarrow> ''****'')"

definition mask_stored_opt :: "vault \<Rightarrow> string option \<Rightarrow> string option" where
  "mask_stored_opt V stored = map_option (mask_stored V) stored"

definition SENSITIVE_CONFIG_KEYS :: "string list" where
  "SENSITIVE_CONFIG_KEYS = [''access_token'', ''api_key'', ''api_secret'', ''auth_token'', ''bot_token'', ''client_secret'',
     ''password'', ''routing_key'', ''secret'', ''signing_secret'', ''token'', ''webhook_url'']"

definition is_sensitive_key :: "string \<Rightarrow> bool" where
  "is_sensitive_key k \<longleftrightarrow> to_ascii_lowercase k \<in> set SENSITIVE_CONFIG_KEYS"

text \<open>Running a fallible step over a list, with the draws threaded through.\<close>

fun traverse :: "('a \<Rightarrow> nat \<Rightarrow> ('e + 'b) \<times> nat) \<Rightarrow> 'a list \<Rightarrow> nat \<Rightarrow> ('e + 'b list) \<times> nat" where
  "traverse f [] n = (Inr [], n)"
| "traverse f (x # xs) n = (case f x n of
      (Inl e, n') \<Rightarrow> (Inl e, n')
    | (Inr y, n') \<Rightarrow> apfst (map_sum id (\<lambda>ys. y # ys)) (traverse f xs n'))"

lemma traverse_cong [fundef_cong]:
  "xs = ys \<Longrightarrow> n = m \<Longrightarrow> (\<And>x k. x \<in> set ys \<Longrightarrow> f x k = g x k) \<Longrightarrow> traverse f xs n = traverse g ys m"
  by (induction xs arbitrary: ys n m) (auto split: prod.split sum.split)

function map_sensitive :: "(string \<Rightarrow> nat \<Rightarrow> (SecretError + string) \<times> nat) \<Rightarrow> json \<Rightarrow> nat \<Rightarrow> (SecretError + json) \<times> nat" where
  "map_sensitive f (JObject m) n = apfst (map_sum id JObject)
     (traverse (\<lambda>(k, v) n. apfst (map_sum id (Pair k))
        (if is_sensitive_key k \<and> as_str v \<noteq> None then apfst (map_sum id JString) (f (the (as_str v)) n)
         else map_sensitive f v n)) m n)"
| "map_sensitive f (JArray xs) n = apfst (map_sum id JArray) (traverse (map_sensitive f) xs n)"
| "map_sensitive f JNull n = (Inr JNull, n)"
| "map_sensitive f (JBool b) n = (Inr (JBool b), n)"
| "map_sensitive f (JNumber x) n = (Inr (JNumber x), n)"
| "map_sensitive f (JString s) n = (Inr (JString s), n)"
  by pat_completeness auto
termination
  by (relation "measure (\<lambda>(f, v, n). size v)") (auto dest: entry_size item_size)

definition seal_new :: "vault \<Rightarrow> string \<Rightarrow> nat \<Rightarrow> (SecretError + string) \<times> nat" where
  "seal_new V s n = (if is_encrypted s then (Inr s, n) else seal V s n)"

definition seal_config :: "vault \<Rightarrow> json \<Rightarrow> nat \<Rightarrow> (SecretError + json) \<times> nat" where
  "seal_config V = map_sensitive (seal_new V)"

definition open_config :: "vault \<Rightarrow> json \<Rightarrow> SecretError + json" where
  "open_config V c = fst (map_sensitive (\<lambda>s n. (open_stored V s, n)) c 0)"

definition mask_config :: "vault \<Rightarrow> json \<Rightarrow> json" where
  "mask_config V c = (case fst (map_sensitive (\<lambda>s n. (Inr (mask_stored V s), n)) c 0) of Inl _ \<Rightarrow> JNull | Inr v \<Rightarrow> v)"

definition reseal :: "vault \<Rightarrow> string \<Rightarrow> nat \<Rightarrow> (SecretError + string) \<times> nat" where
  "reseal V stored n = (case open_stored V stored of Inl e \<Rightarrow> (Inl e, n) | Inr p \<Rightarrow> seal V p n)"

section \<open>Rewriting jobs\<close>

text \<open>
  A table is the list of its rows in primary key order. A job reads batches of the selected rows with ids
  after the last one seen, from the nil id on, and rewrites each row that its step gives a new cell for.
\<close>

type_synonym 'c cells = "(nat \<times> 'c) list"

definition set_cell :: "nat \<Rightarrow> 'c \<Rightarrow> 'c cells \<Rightarrow> 'c cells" where
  "set_cell u c tbl = map (\<lambda>r. if fst r = u then (u, c) else r) tbl"

fun visit :: "('c \<Rightarrow> nat \<Rightarrow> 'c option \<times> nat) \<Rightarrow> 'c cells \<Rightarrow> 'c cells \<times> nat \<times> nat \<Rightarrow> 'c cells \<times> nat \<times> nat" where
  "visit f [] st = st"
| "visit f ((u, c) # rows) (tbl, n, k) = (case f c n of
      (None, n') \<Rightarrow> visit f rows (tbl, n', k)
    | (Some c', n') \<Rightarrow> visit f rows (set_cell u c' tbl, n', k + 1))"

definition batch_after :: "('c \<Rightarrow> bool) \<Rightarrow> nat \<Rightarrow> nat \<Rightarrow> 'c cells \<Rightarrow> 'c cells" where
  "batch_after sel batch after tbl = take batch (filter (\<lambda>(u, c). after < u \<and> sel c) tbl)"

lemma set_cell_ids [simp]: "map fst (set_cell u c tbl) = map fst tbl"
  by (auto simp: set_cell_def)

lemma visit_ids: "visit f rows st = (tbl', n', k') \<Longrightarrow> map fst tbl' = map fst (fst st)"
proof (induction rows arbitrary: st)
  case (Cons r rows)
  obtain u c tbl n k where st: "r = (u, c)" "st = (tbl, n, k)" by (cases r, cases st)
  from Cons.prems show ?case
    using Cons.IH unfolding st by (auto split: prod.splits option.splits dest: Cons.IH)
qed auto

function scan ::
  "('c \<Rightarrow> nat \<Rightarrow> 'c option \<times> nat) \<Rightarrow> ('c \<Rightarrow> bool) \<Rightarrow> nat \<Rightarrow> nat \<Rightarrow> 'c cells \<times> nat \<times> nat \<Rightarrow> 'c cells \<times> nat \<times> nat" where
  "scan f sel batch after (tbl, n, k) =
     (let rows = batch_after sel batch after tbl in
      if rows = [] then (tbl, n, k) else scan f sel batch (fst (last rows)) (visit f rows (tbl, n, k)))"
  by pat_completeness auto

definition ids_after :: "nat \<Rightarrow> 'c cells \<Rightarrow> nat" where
  "ids_after after tbl = length (filter (\<lambda>u. after < u) (map fst tbl))"

lemma filter_length_less:
  "(\<And>x. P x \<Longrightarrow> Q x) \<Longrightarrow> x \<in> set xs \<Longrightarrow> Q x \<Longrightarrow> \<not> P x \<Longrightarrow> length (filter P xs) < length (filter Q xs)"
proof (induction xs)
  case (Cons a xs)
  have "length (filter P xs) \<le> length (filter Q xs)" by (induction xs) (auto simp: Cons.prems(1) le_SucI)
  then show ?case using Cons by (cases "a = x") (auto dest: Cons.prems(1))
qed simp

termination scan
proof (relation "measure (\<lambda>(f, sel, batch, after, st). ids_after after (fst st))")
  fix f sel batch after n k rows and tbl :: "'c cells"
  assume rows: "rows = batch_after sel batch after tbl" "rows \<noteq> []"
  obtain tbl' n' k' where v: "visit f rows (tbl, n, k) = (tbl', n', k')" by (cases "visit f rows (tbl, n, k)")
  have "last rows \<in> set (batch_after sel batch after tbl)" using rows by auto
  then have l: "after < fst (last rows)" "fst (last rows) \<in> set (map fst tbl)"
    unfolding batch_after_def by (auto dest!: in_set_takeD intro: rev_image_eqI)
  have "ids_after (fst (last rows)) tbl < ids_after after tbl"
    unfolding ids_after_def using l by (intro filter_length_less) auto
  then show "((f, sel, batch, fst (last rows), visit f rows (tbl, n, k)), (f, sel, batch, after, tbl, n, k))
      \<in> measure (\<lambda>(f, sel, batch, after, st). ids_after after (fst st))"
    using visit_ids [OF v] by (simp add: v ids_after_def del: length_filter_map)
qed simp

declare scan.simps [simp del]

text \<open>The credential columns and the channel configurations.\<close>

definition CREDENTIAL_COLUMNS :: "(string \<times> string) list" where
  "CREDENTIAL_COLUMNS = [(''github_integrations'', ''access_token''), (''discord_integrations'', ''webhook_url''),
     (''slack_integrations'', ''webhook_url''), (''slack_integrations'', ''bot_token''),
     (''slack_integrations'', ''signing_secret''), (''telegram_integrations'', ''bot_token''),
     (''pagerduty_integrations'', ''routing_key''), (''pagerduty_integrations'', ''api_key'')]"

record integrations =
  column_cells :: "string \<times> string \<Rightarrow> string option cells"
  channel_configs :: "json cells"

definition selects :: "bool \<Rightarrow> string option \<Rightarrow> bool" where
  "selects only_plaintext c = (case c of None \<Rightarrow> False | Some s \<Rightarrow> only_plaintext \<longrightarrow> \<not> is_encrypted s)"

definition rewrite_cell :: "vault \<Rightarrow> string option \<Rightarrow> nat \<Rightarrow> string option option \<times> nat" where
  "rewrite_cell V c n = (case c of None \<Rightarrow> (None, n)
     | Some s \<Rightarrow> apfst (\<lambda>r. case r of Inl e \<Rightarrow> None | Inr t \<Rightarrow> Some (Some t)) (reseal V s n))"

definition rewrite_config :: "vault \<Rightarrow> bool \<Rightarrow> json \<Rightarrow> nat \<Rightarrow> json option \<times> nat" where
  "rewrite_config V only_plaintext c n =
     apfst (\<lambda>r. case r of Inl e \<Rightarrow> None | Inr c' \<Rightarrow> if c' \<noteq> c then Some c' else None)
       (if only_plaintext then seal_config V c n else map_sensitive (reseal V) c n)"

fun rewrite_columns ::
  "vault \<Rightarrow> nat \<Rightarrow> bool \<Rightarrow> (string \<times> string) list \<Rightarrow> integrations \<Rightarrow> nat \<Rightarrow> nat \<Rightarrow> integrations \<times> nat \<times> nat" where
  "rewrite_columns V batch only [] db n k = (db, n, k)"
| "rewrite_columns V batch only (col # cols) db n k =
     (case scan (rewrite_cell V) (selects only) batch 0 (column_cells db col, n, k) of
        (tbl, n', k') \<Rightarrow> rewrite_columns V batch only cols (db\<lparr>column_cells := (column_cells db)(col := tbl)\<rparr>) n' k')"

definition rewrite_all :: "vault \<Rightarrow> nat \<Rightarrow> bool \<Rightarrow> integrations \<Rightarrow> nat \<Rightarrow> SecretError + integrations \<times> nat" where
  "rewrite_all V batch only db n =
     and_then (keys (installed V)) (\<lambda>_.
     case rewrite_columns V batch only CREDENTIAL_COLUMNS db n 0 of (db', n', k') \<Rightarrow>
       (case scan (rewrite_config V only) (\<lambda>_. True) batch 0 (channel_configs db', n', k') of
          (tbl, n'', k'') \<Rightarrow> Inr (db'\<lparr>channel_configs := tbl\<rparr>, k'')))"

definition backfill_plaintext :: "vault \<Rightarrow> integrations \<Rightarrow> nat \<Rightarrow> SecretError + integrations \<times> nat" where
  "backfill_plaintext V db n = (if \<not> is_configured (installed V) then Inr (db, 0) else rewrite_all V 500 True db n)"

text \<open>The flag that keeps a second re-encryption from starting, and what the job leaves when it ends.\<close>

definition start_reencrypt_job :: "bool \<Rightarrow> bool \<times> bool" where
  "start_reencrypt_job running = (True, \<not> running)"

definition reencrypt_job :: "vault \<Rightarrow> nat \<Rightarrow> integrations \<Rightarrow> nat \<Rightarrow> integrations \<times> bool" where
  "reencrypt_job V batch db n = (case rewrite_all V batch False db n of Inl e \<Rightarrow> (db, False) | Inr (db', k) \<Rightarrow> (db', False))"

section \<open>The key store keeps every key\<close>

definition store_after :: "key \<Rightarrow> key list \<Rightarrow> KeyStore" where
  "store_after k0 ks = foldl (\<lambda>s k. fst (store_rotate k s)) (store_new k0) ks"

lemma store_after_simps [simp]:
  "store_after k0 [] = store_new k0"
  "store_current (store_after k0 (ks @ [k])) = store_current (store_after k0 ks) + 1"
  "store_keys (store_after k0 (ks @ [k])) = (store_keys (store_after k0 ks))(store_current (store_after k0 ks) + 1 \<mapsto> k)"
  by (simp_all add: store_after_def store_rotate_def Let_def)

lemma store_after_current [simp]: "store_current (store_after k0 ks) = of_nat (length ks) + 1"
  by (induction ks rule: rev_induct) (simp_all add: store_new_def)

text \<open>
  Rotation forgets nothing: with fewer rotations than there are versions, every key that was ever current is
  still found under its version, and the current key is the newest.
\<close>

theorem key_versions_kept:
  assumes "length ks < 2 ^ 32 - 1" "i \<le> length ks"
  shows "get_key (of_nat i + 1) (store_after k0 ks) = Some ((k0 # ks) ! i) \<and>
    get_current_key (store_after k0 ks) = Some (last (k0 # ks))"
proof -
  have inj: "(of_nat i + 1 :: u32) = of_nat j + 1 \<longleftrightarrow> i = j" if "i < 2 ^ 32" "j < 2 ^ 32" for i j
  proof -
    have "unat (of_nat m :: u32) = m" if "m < 2 ^ 32" for m
      using that by (simp add: unsigned_of_nat take_bit_nat_eq_self)
    then show ?thesis using that by (metis add_right_cancel)
  qed
  have "\<forall>i\<le>length ks. store_keys (store_after k0 ks) (of_nat i + 1) = Some ((k0 # ks) ! i)"
    using assms(1)
  proof (induction ks rule: rev_induct)
    case (snoc k ks)
    show ?case
    proof (intro allI impI)
      fix i assume i: "i \<le> length (ks @ [k])"
      have e: "(of_nat i + 1 :: u32) = of_nat (length ks) + 1 + 1 \<longleftrightarrow> i = Suc (length ks)"
        using i snoc.prems inj [of i "Suc (length ks)"] by (simp add: add.commute)
      have ih: "i \<le> length ks \<Longrightarrow> store_keys (store_after k0 ks) (of_nat i + 1) = Some ((k0 # ks) ! i)"
        using snoc by simp
      show "store_keys (store_after k0 (ks @ [k])) (of_nat i + 1) = Some ((k0 # ks @ [k]) ! i)"
      proof (cases "i = Suc (length ks)")
        case True
        then show ?thesis using e by (simp add: nth_append)
      next
        case False
        then have "i \<le> length ks" using i by simp
        moreover have "(k0 # ks @ [k]) ! i = (k0 # ks) ! i"
          using \<open>i \<le> length ks\<close> by (metis append_Cons length_Cons le_imp_less_Suc nth_append)
        ultimately show ?thesis using e False ih by simp
      qed
    qed
  qed (simp add: store_new_def)
  moreover from this have "store_keys (store_after k0 ks) (of_nat (length ks) + 1) = Some ((k0 # ks) ! length ks)" by simp
  moreover have "(k0 # ks) ! length ks = last (k0 # ks)" by (simp add: last_conv_nth)
  ultimately show ?thesis using assms(2) by (simp add: get_key_def get_current_key_def)
qed

theorem key_versions_kept_witness:
  "get_key (of_nat 1 + 1) (store_after ''a'' [''b'', ''c'']) = Some ''b''"
  using key_versions_kept [of "[''b'', ''c'']" 1 "''a''"] by simp

section \<open>What opens\<close>

definition key32 :: "key \<Rightarrow> bool" where "key32 k \<longleftrightarrow> length k = 32"

lemma field_of_envelope [simp]:
  "field_of ''encrypted'' (envelope C ct nonce v) = Some (JBool True)"
  "text_field ''data'' (envelope C ct nonce v) = Inr (b64 C ct)"
  "text_field ''nonce'' (envelope C ct nonce v) = Inr (b64 C nonce)"
  by (simp_all add: envelope_def field_of_def obj_get_def text_field_def)

lemma canonical_envelope [simp]: "canonical (envelope C ct nonce v)"
  by (simp add: envelope_def number_ok_def)

lemma law_b64 [simp]: "crypto_laws C \<Longrightarrow> decode_b64 C (b64 C s) = Inr s"
  by (simp add: crypto_laws_def decode_b64_def)

lemma law_json: "crypto_laws C \<Longrightarrow> canonical v \<Longrightarrow> from_slice C (to_vec C v) = Some v"
  by (simp add: crypto_laws_def)

lemma law_open: "crypto_laws C \<Longrightarrow> key32 k \<Longrightarrow> length n = NONCE_LEN \<Longrightarrow> aes_seal C k n p = Some c \<Longrightarrow> aes_open C k n c = Some p"
  by (simp add: crypto_laws_def key32_def)

lemma law_seal: "crypto_laws C \<Longrightarrow> key32 k \<Longrightarrow> length n = NONCE_LEN \<Longrightarrow> length p \<le> 2 ^ 36 \<Longrightarrow> \<exists>c. aes_seal C k n p = Some c"
  by (auto simp: crypto_laws_def key32_def)

lemma decrypt_envelope:
  "crypto_laws C \<Longrightarrow> length nonce = NONCE_LEN \<Longrightarrow> decrypt C k old (envelope C ct nonce v) =
    and_then (or_old (\<lambda>k. try_decrypt_with_key C k nonce ct) k old)
      (\<lambda>p. case from_slice C p of None \<Rightarrow> Inl (json_error C p) | Some w \<Rightarrow> Inr w)"
  by (simp add: decrypt_def check_nonce_def)

lemma decrypt_secret_envelope:
  "crypto_laws C \<Longrightarrow> length nonce = NONCE_LEN \<Longrightarrow> decrypt_secret C k old (PREFIX @ b64 C (to_vec C (envelope C ct nonce v))) =
    and_then (or_old (\<lambda>k. try_decrypt_with_key C k nonce ct) k old)
      (\<lambda>p. if from_utf8 p then Inr p else Inl (utf8_error C p))"
  by (simp add: decrypt_secret_def check_nonce_def law_json starts_with_def)

text \<open>
  The keys that open a message: the key that sealed it, as the current or as the old key, and, by
  authenticity, no other.
\<close>

lemma or_old_opens:
  assumes "crypto_laws C" "authentic C" "key32 k" "key32 k1" "pred_option key32 old" "length n = NONCE_LEN" "aes_seal C k n p = Some ct"
  shows "or_old (\<lambda>k. try_decrypt_with_key C k n ct) k1 old = (if k1 = k \<or> old = Some k then Inr p else Inl (aead_error C))"
proof -
  have open': "try_decrypt_with_key C k' n ct = (if k' = k then Inr p else Inl (aead_error C))" if "key32 k'" for k'
    using law_open [OF assms(1,3,6,7)] assms(2,3,6,7) that
    by (auto simp: try_decrypt_with_key_def authentic_def key32_def)
  show ?thesis using assms(4,5) by (auto simp: or_old_def open' split: option.split)
qed

theorem event_data_opens:
  assumes "crypto_laws C" "authentic C" "canonical v" "key32 k" "key32 k1" "pred_option key32 old"
    and "length n = NONCE_LEN" "length (to_vec C v) \<le> 2 ^ 36"
  shows "\<exists>env. snd (encrypt C k n g v) = Inr env \<and>
    decrypt C k1 old env = (if k1 = k \<or> old = Some k then Inr v else Inl (aead_error C))"
proof -
  obtain ct where ct: "aes_seal C k n (to_vec C v) = Some ct" using law_seal [OF assms(1,4,7,8)] by blast
  then have "snd (encrypt C k n g v) = Inr (envelope C ct n (snd (current_key_version g)))"
    by (simp add: encrypt_def split: prod.split)
  then show ?thesis
    using or_old_opens [OF assms(1,2,4,5,6,7) ct] assms(3) by (simp add: decrypt_envelope [OF assms(1,7)] law_json [OF assms(1)])
qed

text \<open>
  Opening looks at the two keys it is given and at nothing else: not at the version in the envelope
  and not at the key store, although the store keeps the key.
\<close>

lemma version_not_used: "crypto_laws C \<Longrightarrow> length n = NONCE_LEN \<Longrightarrow>
    decrypt C k old (envelope C ct n v) = decrypt C k old (envelope C ct n w)"
  by (simp add: decrypt_envelope)

lemma secret_opens:
  assumes "crypto_laws C" "authentic C" "key32 k" "key32 k1" "pred_option key32 old"
    and "length n = NONCE_LEN" "length p \<le> 2 ^ 36" "from_utf8 p"
  shows "\<exists>s. encrypt_secret C k v n p = Inr s \<and> is_encrypted s \<and>
    decrypt_secret C k1 old s = (if k1 = k \<or> old = Some k then Inr p else Inl (aead_error C))"
proof -
  obtain ct where ct: "aes_seal C k n p = Some ct" using law_seal [OF assms(1,3,6,7)] by blast
  then have "encrypt_secret C k v n p = Inr (PREFIX @ b64 C (to_vec C (envelope C ct n v)))"
    by (simp add: encrypt_secret_def)
  then show ?thesis
    using or_old_opens [OF assms(1-6) ct] assms(8)
    by (simp add: decrypt_secret_envelope [OF assms(1,6)] is_encrypted_def starts_with_def)
qed

section \<open>Masks\<close>

lemma concat_utf8_chars [simp]: "concat (utf8_chars s) = s"
  by (induction s rule: utf8_chars.induct) simp_all

text \<open>
  A mask depends on the last four characters of a long secret and on nothing of a short one: two
  secrets that agree there have the same mask.
\<close>

definition shown_part :: "string \<Rightarrow> string list" where
  "shown_part s = (if length (utf8_chars s) \<le> 8 then [] else drop (length (utf8_chars s) - 4) (utf8_chars s))"

lemma mask_secret_shown: "mask_secret s = ''****'' @ concat (shown_part s)"
  by (simp add: mask_secret_def shown_part_def Let_def)

lemma shown_part_length: "length (shown_part s) \<le> 4" "2 * length (shown_part s) < length (utf8_chars s) \<or> shown_part s = []"
  by (auto simp: shown_part_def)

section \<open>Sensitive strings of a configuration\<close>

text \<open>
  The sensitive strings, in order; the configuration with other strings in their place; and the rest of
  the configuration, with the sensitive strings blanked.
\<close>

definition secret_of :: "string \<Rightarrow> json \<Rightarrow> string option" where
  "secret_of k v = (if is_sensitive_key k then as_str v else None)"

function sensitive :: "json \<Rightarrow> string list" where
  "sensitive (JObject m) = concat (map (\<lambda>(k, v). case secret_of k v of Some s \<Rightarrow> [s] | None \<Rightarrow> sensitive v) m)"
| "sensitive (JArray xs) = concat (map sensitive xs)"
| "sensitive JNull = []"
| "sensitive (JBool b) = []"
| "sensitive (JNumber x) = []"
| "sensitive (JString s) = []"
  by pat_completeness auto
termination by (relation "measure size") (auto dest: entry_size item_size)

function map_strings :: "(string \<Rightarrow> string) \<Rightarrow> json \<Rightarrow> json" where
  "map_strings g (JObject m) =
     JObject (map (\<lambda>(k, v). (k, case secret_of k v of Some s \<Rightarrow> JString (g s) | None \<Rightarrow> map_strings g v)) m)"
| "map_strings g (JArray xs) = JArray (map (map_strings g) xs)"
| "map_strings g JNull = JNull"
| "map_strings g (JBool b) = JBool b"
| "map_strings g (JNumber x) = JNumber x"
| "map_strings g (JString s) = JString s"
  by pat_completeness auto
termination by (relation "measure (\<lambda>(g, v). size v)") (auto dest: entry_size item_size)

definition blank :: "json \<Rightarrow> json" where "blank = map_strings (\<lambda>_. [])"

lemma secret_of_string [simp]: "secret_of k (JString s) = (if is_sensitive_key k then Some s else None)"
  by (simp add: secret_of_def)

lemma secret_ofD: "secret_of k v = Some s \<Longrightarrow> is_sensitive_key k \<and> v = JString s"
  by (cases v) (auto simp: secret_of_def split: if_splits)

lemma secret_of_map_strings: "secret_of k v = None \<Longrightarrow> secret_of k (map_strings g v) = None"
  by (cases v) (auto simp: secret_of_def split: if_splits)

definition entry_strings :: "string \<Rightarrow> json \<Rightarrow> string list" where
  "entry_strings k v = (case secret_of k v of Some s \<Rightarrow> [s] | None \<Rightarrow> sensitive v)"

definition entry_map :: "(string \<Rightarrow> string) \<Rightarrow> string \<Rightarrow> json \<Rightarrow> json" where
  "entry_map g k v = (case secret_of k v of Some s \<Rightarrow> JString (g s) | None \<Rightarrow> map_strings g v)"

lemma object_simps:
  "sensitive (JObject m) = concat (map (\<lambda>(k, v). entry_strings k v) m)"
  "map_strings g (JObject m) = JObject (map (\<lambda>(k, v). (k, entry_map g k v)) m)"
  by (simp_all add: entry_strings_def entry_map_def)

lemma entry_map_comp: "map_strings h (map_strings g v) = map_strings (\<lambda>s. h (g s)) v \<Longrightarrow>
    entry_map h k (entry_map g k v) = entry_map (\<lambda>s. h (g s)) k v"
  by (cases "secret_of k v") (auto simp: entry_map_def secret_of_map_strings dest: secret_ofD)

lemma entry_strings_map: "sensitive (map_strings g v) = map g (sensitive v) \<Longrightarrow>
    entry_strings k (entry_map g k v) = map g (entry_strings k v)"
  by (cases "secret_of k v") (auto simp: entry_map_def entry_strings_def secret_of_map_strings dest: secret_ofD)

lemma map_strings_comp: "map_strings h (map_strings g c) = map_strings (\<lambda>s. h (g s)) c"
proof (induction c rule: json_induct)
  case (object m)
  have "entry_map h k (entry_map g k v) = entry_map (\<lambda>s. h (g s)) k v" if "(k, v) \<in> set m" for k v
    using object [OF that] by (rule entry_map_comp)
  then show ?case by (auto simp: object_simps simp del: map_strings.simps)
qed auto

lemma sensitive_map_strings: "sensitive (map_strings g c) = map g (sensitive c)"
proof (induction c rule: json_induct)
  case (object m)
  have "entry_strings k (entry_map g k v) = map g (entry_strings k v)" if "(k, v) \<in> set m" for k v
    using object [OF that] by (rule entry_strings_map)
  then have "map (\<lambda>(k, v). entry_strings k (entry_map g k v)) m = map (\<lambda>(k, v). map g (entry_strings k v)) m" by auto
  from arg_cong [where f = concat, OF this] show ?case
    by (simp add: object_simps map_concat comp_def case_prod_unfold del: map_strings.simps sensitive.simps)
next
  case (array xs)
  then show ?case by (induction xs) auto
qed auto

lemma blank_sensitive_length: "blank c = blank d \<Longrightarrow> length (sensitive c) = length (sensitive d)"
  unfolding blank_def by (metis length_map sensitive_map_strings)

text \<open>Nothing is lost between the two: what is sensitive and the rest determine a configuration.\<close>

lemma blank_object_Cons: "blank (JObject (r # m)) = blank (JObject (r' # m')) \<longleftrightarrow>
    blank (JObject [r]) = blank (JObject [r']) \<and> blank (JObject m) = blank (JObject m')"
  by (auto simp: blank_def)

lemma blank_array_Cons: "blank (JArray (x # xs)) = blank (JArray (y # ys)) \<longleftrightarrow> blank x = blank y \<and> blank (JArray xs) = blank (JArray ys)"
  by (auto simp: blank_def)

lemma sensitive_object_Cons: "sensitive (JObject (r # m)) = sensitive (JObject [r]) @ sensitive (JObject m)"
  by simp

lemma blank_entry:
  assumes "\<And>d. blank v = blank d \<Longrightarrow> sensitive v = sensitive d \<Longrightarrow> v = d"
    and "blank (JObject [(k, v)]) = blank (JObject [r])" "sensitive (JObject [(k, v)]) = sensitive (JObject [r])"
  shows "r = (k, v)"
proof -
  obtain k' w where r: "r = (k', w)" by (cases r)
  have k: "k' = k" using assms(2) r by (simp add: blank_def)
  show ?thesis
  proof (cases "secret_of k v")
    case None
    show ?thesis
    proof (cases "secret_of k w")
      case None2: None
      then show ?thesis using assms None r k by (auto simp: blank_def)
    next
      case (Some t)
      then have "v = JString []" using assms(2) None r k by (cases v) (auto simp: blank_def)
      then show ?thesis using None Some by (auto dest: secret_ofD)
    qed
  next
    case (Some s)
    then have v: "v = JString s" "is_sensitive_key k" by (auto dest: secret_ofD)
    show ?thesis
    proof (cases "secret_of k w")
      case None
      then have "w = JString []" using assms(2) Some r k by (cases w) (auto simp: blank_def)
      then show ?thesis using None v by simp
    next
      case (Some t)
      then show ?thesis using assms(3) r k v by (auto dest: secret_ofD)
    qed
  qed
qed

lemma blank_inject: "blank c = blank d \<Longrightarrow> sensitive c = sensitive d \<Longrightarrow> c = d"
proof (induction c arbitrary: d rule: json_induct)
  case (object m)
  then obtain m' where d: "d = JObject m'" by (cases d) (auto simp: blank_def)
  have "m = m'" using object unfolding d
  proof (induction m arbitrary: m')
    case Nil
    then show ?case by (simp add: blank_def)
  next
    case (Cons r m)
    obtain r' m2 where m': "m' = r' # m2" using Cons.prems(2) by (cases m') (auto simp: blank_def)
    have b: "blank (JObject [r]) = blank (JObject [r'])" "blank (JObject m) = blank (JObject m2)"
      using Cons.prems(2) blank_object_Cons unfolding m' by blast+
    have s: "sensitive (JObject [r]) = sensitive (JObject [r'])" "sensitive (JObject m) = sensitive (JObject m2)"
      using Cons.prems(3) blank_sensitive_length [OF b(1)] unfolding m'
      by (metis append_eq_append_conv sensitive_object_Cons)+
    obtain k v where r: "r = (k, v)" by (cases r)
    have "r' = r" unfolding r
      using Cons.prems(1) b(1) s(1) unfolding r by (intro blank_entry) auto
    moreover have "m = m2" using Cons.IH [OF _ b(2) s(2)] Cons.prems(1) by auto
    ultimately show ?case by (simp add: m')
  qed
  then show ?case by (simp add: d)
next
  case (array xs)
  then obtain ys where d: "d = JArray ys" by (cases d) (auto simp: blank_def)
  have "xs = ys" using array unfolding d
  proof (induction xs arbitrary: ys)
    case Nil
    then show ?case by (simp add: blank_def)
  next
    case (Cons x xs)
    obtain y ys' where ys: "ys = y # ys'" using Cons.prems(2) by (cases ys) (auto simp: blank_def)
    have b: "blank x = blank y" "blank (JArray xs) = blank (JArray ys')"
      using Cons.prems(2) blank_array_Cons unfolding ys by blast+
    have s: "sensitive x = sensitive y" "sensitive (JArray xs) = sensitive (JArray ys')"
      using Cons.prems(3) blank_sensitive_length [OF b(1)] unfolding ys by auto
    show ?case using Cons.prems(1) [of x y] b(1) s(1) Cons.IH [OF _ b(2) s(2)] Cons.prems(1) by (auto simp: ys)
  qed
  then show ?case by (simp add: d)
qed (case_tac [!] d, auto simp: blank_def)

lemma traverse_ok:
  "(\<And>x n. x \<in> set xs \<Longrightarrow> \<exists>y n'. f x n = (Inr y, n') \<and> R x y) \<Longrightarrow> \<exists>ys n'. traverse f xs n = (Inr ys, n') \<and> list_all2 R xs ys"
proof (induction xs arbitrary: n)
  case (Cons x xs)
  obtain y n' where y: "f x n = (Inr y, n')" "R x y" using Cons.prems [of x n] by auto
  obtain ys n'' where "traverse f xs n' = (Inr ys, n'')" "list_all2 R xs ys"
    using Cons.IH [of n'] Cons.prems by auto
  then show ?case using y by simp
qed simp

lemma list_all2_concat_map:
  "list_all2 (\<lambda>x y. list_all2 Q (g x) (g y)) xs ys \<Longrightarrow> list_all2 Q (concat (map g xs)) (concat (map g ys))"
  by (induction rule: list_all2_induct) (auto intro: list_all2_appendI)

text \<open>
  A step that succeeds on the sensitive strings succeeds on the configuration, changes them only, and
  leaves them related.
\<close>

definition same_shape :: "(string \<Rightarrow> string \<Rightarrow> bool) \<Rightarrow> json \<Rightarrow> json \<Rightarrow> bool" where
  "same_shape Q c d \<longleftrightarrow> blank d = blank c \<and> list_all2 Q (sensitive c) (sensitive d)"

lemma blank_entry_map: "blank (JObject m) = JObject (map (\<lambda>(k, v). (k, entry_map (\<lambda>_. []) k v)) m)"
  by (simp add: blank_def object_simps del: map_strings.simps)

lemma map_sensitive_ok:
  "(\<And>s n. s \<in> set (sensitive c) \<Longrightarrow> \<exists>t n'. f s n = (Inr t, n') \<and> Q s t) \<Longrightarrow>
   \<exists>d n'. map_sensitive f c n = (Inr d, n') \<and> same_shape Q c d"
proof (induction c arbitrary: n rule: json_induct)
  case (object m)
  let ?f = "\<lambda>(k, v) n. apfst (map_sum id (Pair k))
        (if is_sensitive_key k \<and> as_str v \<noteq> None then apfst (map_sum id JString) (f (the (as_str v)) n) else map_sensitive f v n)"
  let ?R = "\<lambda>(k, v) (k', v'). k' = k \<and> entry_map (\<lambda>_. []) k v' = entry_map (\<lambda>_. []) k v \<and>
      list_all2 Q (entry_strings k v) (entry_strings k v')"
  have "\<exists>y n'. ?f x n = (Inr y, n') \<and> ?R x y" if x: "x \<in> set m" for x n
  proof -
    obtain k v where kv: "x = (k, v)" by (cases x)
    have sub: "set (entry_strings k v) \<subseteq> set (sensitive (JObject m))"
      using x unfolding kv object_simps by fastforce
    show ?thesis
    proof (cases "secret_of k v")
      case None
      then have "sensitive v = entry_strings k v" by (simp add: entry_strings_def)
      then obtain d n' where d: "map_sensitive f v n = (Inr d, n')" "same_shape Q v d"
        using object(1) [of k v n] object(2) x sub kv by (metis subsetD)
      have "secret_of k d = None"
      proof (rule ccontr)
        assume "secret_of k d \<noteq> None"
        then obtain t where t: "secret_of k d = Some t" by auto
        then have "blank v = JString t" using d(2) secret_ofD [OF t] by (simp add: same_shape_def blank_def)
        then have "v = JString t" by (cases v) (auto simp: blank_def)
        then show False using None t by (auto dest: secret_ofD)
      qed
      then show ?thesis
        using None d by (auto simp: kv entry_map_def entry_strings_def same_shape_def blank_def secret_of_def split: if_splits)
    next
      case (Some s)
      then have v: "is_sensitive_key k" "v = JString s" by (auto dest: secret_ofD)
      have "s \<in> set (sensitive (JObject m))" using sub Some by (simp add: entry_strings_def)
      then obtain t n' where "f s n = (Inr t, n')" "Q s t" using object(2) by blast
      then show ?thesis using v by (simp add: kv entry_map_def entry_strings_def)
    qed
  qed
  then obtain ys n' where ys: "traverse ?f m n = (Inr ys, n')" "list_all2 ?R m ys"
    using traverse_ok [of m ?f ?R n] by blast
  have "map (\<lambda>(k, v). (k, entry_map (\<lambda>_. []) k v)) ys = map (\<lambda>(k, v). (k, entry_map (\<lambda>_. []) k v)) m"
    using ys(2) by (induction rule: list_all2_induct) auto
  then have "blank (JObject ys) = blank (JObject m)" by (simp only: blank_entry_map)
  moreover have "list_all2 (\<lambda>x y. list_all2 Q (case x of (k, v) \<Rightarrow> entry_strings k v) (case y of (k, v) \<Rightarrow> entry_strings k v)) m ys"
    using ys(2) by (rule list_all2_mono) auto
  from list_all2_concat_map [OF this] have "list_all2 Q (sensitive (JObject m)) (sensitive (JObject ys))"
    by (simp only: object_simps)
  ultimately show ?case using ys(1) by (simp add: same_shape_def del: sensitive.simps)
next
  case (array xs)
  have "\<exists>d n'. map_sensitive f x n = (Inr d, n') \<and> same_shape Q x d" if "x \<in> set xs" for x n
  proof (rule array(1) [OF that])
    fix s n assume "s \<in> set (sensitive x)"
    then have "s \<in> set (sensitive (JArray xs))" using that by auto
    then show "\<exists>t n'. f s n = (Inr t, n') \<and> Q s t" by (rule array(2))
  qed
  then obtain ys n' where ys: "traverse (map_sensitive f) xs n = (Inr ys, n')" "list_all2 (same_shape Q) xs ys"
    using traverse_ok [of xs "map_sensitive f" "same_shape Q" n] by blast
  have "map blank ys = map blank xs"
    using ys(2) by (induction rule: list_all2_induct) (auto simp: same_shape_def)
  moreover have "list_all2 (\<lambda>x y. list_all2 Q (sensitive x) (sensitive y)) xs ys"
    using ys(2) by (rule list_all2_mono) (simp add: same_shape_def)
  ultimately show ?case
    using ys(1) list_all2_concat_map [of Q sensitive xs ys] by (simp add: same_shape_def blank_def)
qed (simp_all add: same_shape_def blank_def)

lemma traverse_pure:
  "(\<And>x n. x \<in> set xs \<Longrightarrow> f x n = (Inr (g x), n)) \<Longrightarrow> traverse f xs n = (Inr (map g xs), n)"
  by (induction xs) simp_all

lemma map_sensitive_pure: "map_sensitive (\<lambda>s n. (Inr (g s), n)) c n = (Inr (map_strings g c), n)"
proof (induction c arbitrary: n rule: json_induct)
  case (object m)
  show ?case unfolding object_simps map_sensitive.simps
    by (subst traverse_pure [where g = "\<lambda>(k, v). (k, entry_map g k v)"])
      (auto simp: object entry_map_def secret_of_def split: if_splits)
next
  case (array xs)
  then show ?case unfolding map_strings.simps map_sensitive.simps
    by (subst traverse_pure [where g = "map_strings g"]) auto
qed simp_all

text \<open>The part of a stored value that a mask leaves visible.\<close>

definition shown :: "vault \<Rightarrow> string \<Rightarrow> string" where
  "shown V s = (case open_stored V s of Inl _ \<Rightarrow> [] | Inr p \<Rightarrow> concat (shown_part p))"

text \<open>
  What an API answer shows of a configuration: everything but the sensitive strings, and of each of those at
  most the last four of more than eight characters. The answer is a function of that part alone.
\<close>

theorem mask_config_reveals:
  "mask_config V c = map_strings (\<lambda>t. ''****'' @ t) (map_strings (shown V) c) \<and>
   sensitive (mask_config V c) = map (\<lambda>s. ''****'' @ shown V s) (sensitive c) \<and>
   blank (mask_config V c) = blank c"
proof -
  have "mask_stored V s = ''****'' @ shown V s" for s
    by (simp add: mask_stored_def shown_def mask_secret_shown split: sum.split)
  then have m: "mask_config V c = map_strings (\<lambda>s. ''****'' @ shown V s) c"
    by (simp add: mask_config_def map_sensitive_pure)
  show ?thesis unfolding m by (simp add: map_strings_comp sensitive_map_strings blank_def)
qed

section \<open>Sealed configurations open again\<close>

text \<open>A process that can seal and open, and a text it can hold.\<close>

definition vault_ok :: "vault \<Rightarrow> Keys \<Rightarrow> bool" where
  "vault_ok V ks \<longleftrightarrow> crypto_laws (crates V) \<and> authentic (crates V) \<and> installed V = Some (Some ks) \<and>
     key32 (key_current ks) \<and> pred_option key32 (key_old ks) \<and> (\<forall>i. length (nonce_at V i) = NONCE_LEN)"

definition text_ok :: "string \<Rightarrow> bool" where "text_ok p \<longleftrightarrow> from_utf8 p \<and> length p \<le> 2 ^ 36"

definition with_old :: "key option \<Rightarrow> vault \<Rightarrow> vault" where
  "with_old old V = V\<lparr>installed := map_option (map_option (\<lambda>ks. ks\<lparr>key_old := old\<rparr>)) (installed V)\<rparr>"

lemma seal_opens:
  assumes "vault_ok V ks" "text_ok p"
  shows "\<exists>t. seal V p n = (Inr t, n + 1) \<and> is_encrypted t \<and> open_stored V t = Inr p \<and> open_stored (with_old None V) t = Inr p"
proof -
  note V = assms [unfolded vault_ok_def text_ok_def]
  obtain t where t: "encrypt_secret (crates V) (key_current ks) (key_version ks) (nonce_at V n) p = Inr t" "is_encrypted t"
      "decrypt_secret (crates V) (key_current ks) (key_old ks) t = Inr p"
    using secret_opens [of "crates V" "key_current ks" "key_current ks" "key_old ks" "nonce_at V n" p "key_version ks"] V by auto
  have "decrypt_secret (crates V) (key_current ks) None t = Inr p"
    using secret_opens [of "crates V" "key_current ks" "key_current ks" None "nonce_at V n" p "key_version ks"] V t(1) by auto
  then show ?thesis using t V by (simp add: seal_def open_stored_def keys_def with_old_def)
qed

text \<open>
  Sealing a configuration and opening it again: every sensitive value is sealed in between, everything else
  stays readable, and the original comes back.
\<close>

theorem config_roundtrip:
  assumes "vault_ok V ks" "\<And>s. s \<in> set (sensitive c) \<Longrightarrow> text_ok s \<and> \<not> is_encrypted s"
  shows "\<exists>d n'. seal_config V c n = (Inr d, n') \<and> list_all is_encrypted (sensitive d) \<and> blank d = blank c \<and>
    open_config V d = Inr c"
proof -
  let ?Q = "\<lambda>s t. is_encrypted t \<and> open_stored V t = Inr s"
  have "\<exists>t n'. seal_new V s n = (Inr t, n') \<and> ?Q s t" if "s \<in> set (sensitive c)" for s n
    using seal_opens [OF assms(1), of s n] assms(2) [OF that] by (auto simp: seal_new_def)
  then obtain d n' where d: "seal_config V c n = (Inr d, n')" "same_shape ?Q c d"
    unfolding seal_config_def using map_sensitive_ok [of c "seal_new V" ?Q n] by blast
  have enc: "list_all is_encrypted (sensitive d)"
    using d(2) unfolding same_shape_def list_all_iff by (auto simp: list_all2_conv_all_nth in_set_conv_nth)
  have "\<exists>t n'. (open_stored V s, n) = (Inr t, n') \<and> open_stored V s = Inr t" if "s \<in> set (sensitive d)" for s n
    using d(2) that unfolding same_shape_def by (auto simp: list_all2_conv_all_nth in_set_conv_nth)
  then obtain e n'' where e: "map_sensitive (\<lambda>s n. (open_stored V s, n)) d 0 = (Inr e, n'')"
      "same_shape (\<lambda>s t. open_stored V s = Inr t) d e"
    using map_sensitive_ok [of d "\<lambda>s n. (open_stored V s, n)" "\<lambda>s t. open_stored V s = Inr t" 0] by blast
  have "sensitive e = sensitive c"
    using d(2) e(2) unfolding same_shape_def by (auto simp: list_all2_conv_all_nth intro!: nth_equalityI)
  moreover have "blank e = blank c" using d(2) e(2) unfolding same_shape_def by simp
  ultimately have "e = c" using blank_inject by metis
  then show ?thesis using d enc e(1) by (auto simp: open_config_def same_shape_def)
qed

section \<open>What the rewriting jobs leave behind\<close>

definition stepped :: "('c \<Rightarrow> nat \<Rightarrow> 'c option \<times> nat) \<Rightarrow> 'c \<Rightarrow> 'c \<Rightarrow> bool" where
  "stepped f c d \<longleftrightarrow> (\<exists>n. d = (case fst (f c n) of None \<Rightarrow> c | Some d \<Rightarrow> d))"

lemma map_of_set_cell: "map_of (set_cell u c tbl) w = (if w = u then map_option (\<lambda>_. c) (map_of tbl u) else map_of tbl w)"
  by (induction tbl) (auto simp: set_cell_def)

lemma visit_result:
  "visit f rows (tbl, n, k) = (tbl', n', k') \<Longrightarrow> distinct (map fst rows) \<Longrightarrow> (\<And>u c. (u, c) \<in> set rows \<Longrightarrow> map_of tbl u = Some c) \<Longrightarrow>
   (case map_of rows u of None \<Rightarrow> map_of tbl' u = map_of tbl u | Some c \<Rightarrow> \<exists>d. map_of tbl' u = Some d \<and> stepped f c d)"
proof (induction rows arbitrary: tbl n k)
  case (Cons r rows)
  obtain w c where r: "r = (w, c)" by (cases r)
  obtain o' m where f: "f c n = (o', m)" by fastforce
  let ?d = "case o' of None \<Rightarrow> c | Some d \<Rightarrow> d"
  let ?t = "case o' of None \<Rightarrow> tbl | Some d \<Rightarrow> set_cell w d tbl"
  have w: "map_of tbl w = Some c" using Cons.prems(3) r by simp
  then have t: "map_of ?t v = (if v = w then Some ?d else map_of tbl v)" for v
    by (cases o') (auto simp: map_of_set_cell)
  have ne: "v \<noteq> w" if "(v, e) \<in> set rows" for v e
    using Cons.prems(2) that r by (auto dest: rev_image_eqI [of _ _ _ fst])
  obtain k2 where step: "visit f rows (?t, m, k2) = (tbl', n', k')"
    using Cons.prems(1) f r by (cases o') auto
  note ih = Cons.IH [OF step]
  have ih: "case map_of rows u of None \<Rightarrow> map_of tbl' u = map_of ?t u | Some c \<Rightarrow> \<exists>d. map_of tbl' u = Some d \<and> stepped f c d"
  proof (rule ih)
    show "distinct (map fst rows)" using Cons.prems(2) by simp
    show "map_of ?t v = Some e" if "(v, e) \<in> set rows" for v e
      using ne [OF that] Cons.prems(3) [of v e] that by (simp add: t)
  qed
  show ?case
  proof (cases "u = w")
    case True
    then have "map_of rows u = None" using Cons.prems(2) r by (simp add: map_of_eq_None_iff)
    moreover have "stepped f c ?d" unfolding stepped_def by (rule exI [of _ n]) (simp add: f)
    ultimately show ?thesis using ih True r by (simp add: t)
  next
    case False
    then show ?thesis using ih r by (simp add: t split: option.splits)
  qed
qed simp

lemma take_sorted_iff:
  assumes "sorted_wrt (<) (map fst (xs :: 'c cells))" "take b xs \<noteq> []" "(u, c) \<in> set xs"
  shows "(u, c) \<in> set (take b xs) \<longleftrightarrow> u \<le> fst (last (take b xs))"
proof -
  have srt: "sorted_wrt (\<lambda>x y. fst x < fst y) (take b xs @ drop b xs)" using assms(1) by (simp add: sorted_wrt_map)
  have "last (take b xs) \<in> set (take b xs)" using assms(2) by (rule last_in_set)
  moreover have "fst x \<le> fst (last (take b xs))" if "x \<in> set (take b xs)" for x
  proof -
    obtain ys l where e: "take b xs = ys @ [l]" using assms(2) by (cases "take b xs" rule: rev_cases) auto
    have "sorted_wrt (\<lambda>x y. fst x < fst y) (ys @ [l])" using srt unfolding e sorted_wrt_append by simp
    then show ?thesis using that unfolding e by (auto simp: sorted_wrt_append)
  qed
  moreover have "(u, c) \<in> set (take b xs) \<or> (u, c) \<in> set (drop b xs)"
    using assms(3) by (metis Un_iff append_take_drop_id set_append)
  moreover have "fst (last (take b xs)) < u" if "(u, c) \<in> set (drop b xs)"
    using srt that calculation(1) unfolding sorted_wrt_append by fastforce
  ultimately show ?thesis by fastforce
qed

lemma map_of_sorted: "sorted_wrt (<) (map fst (xs :: 'c cells)) \<Longrightarrow> (u, c) \<in> set xs \<Longrightarrow> map_of xs u = Some c"
  by (intro map_of_is_SomeI) (simp_all add: strict_sorted_iff)

lemma scan_result:
  "scan f sel batch after (tbl, n, k) = (tbl', n', k') \<Longrightarrow> sorted_wrt (<) (map fst tbl) \<Longrightarrow> 0 < batch \<Longrightarrow>
   map fst tbl' = map fst tbl \<and>
   (\<forall>u c. map_of tbl u = Some c \<longrightarrow> (\<exists>d. map_of tbl' u = Some d \<and> (if after < u \<and> sel c then stepped f c d else d = c)))"
proof (induction f sel batch after "(tbl, n, k)" arbitrary: tbl n k rule: scan.induct)
  case (1 f sel batch after tbl n k)
  let ?F = "filter (\<lambda>(u, c). after < u \<and> sel c) tbl"
  define rows where "rows = batch_after sel batch after tbl"
  have rows: "rows = take batch ?F" by (simp add: rows_def batch_after_def)
  have srtF: "sorted_wrt (<) (map fst ?F)" using 1(3) by (simp add: sorted_wrt_map sorted_wrt_filter)
  show ?case
  proof (cases "rows = []")
    case True
    then have "?F = []" using 1(4) rows by simp
    then have none: "(u, c) \<in> set tbl \<Longrightarrow> \<not> (after < u \<and> sel c)" for u c by (auto simp: filter_empty_conv)
    have "(tbl', n', k') = (tbl, n, k)" using 1(2) True by (simp add: scan.simps rows_def Let_def)
    then show ?thesis using none by (auto dest!: map_of_SomeD)
  next
    case False
    define L where "L = fst (last rows)"
    obtain t1 n1 k1 where v: "visit f rows (tbl, n, k) = (t1, n1, k1)" by (cases "visit f rows (tbl, n, k)")
    have ids: "map fst t1 = map fst tbl" using visit_ids [OF v] by simp
    have sc: "scan f sel batch L (t1, n1, k1) = (tbl', n', k')"
      using 1(2) False v by (simp add: scan.simps [of f sel batch after] rows_def [symmetric] L_def Let_def)
    have ih: "map fst tbl' = map fst t1" "\<And>u c. map_of t1 u = Some c \<Longrightarrow>
        \<exists>d. map_of tbl' u = Some d \<and> (if L < u \<and> sel c then stepped f c d else d = c)"
      using 1(1) [OF rows_def False v sc [unfolded L_def]] 1(3,4) ids unfolding L_def by auto
    have dist: "distinct (map fst rows)" using srtF unfolding rows by (simp add: take_map [symmetric] strict_sorted_iff)
    have sub: "(u, c) \<in> set rows \<Longrightarrow> map_of tbl u = Some c" for u c
      unfolding rows by (rule map_of_sorted [OF 1(3)]) (auto dest: in_set_takeD)
    have res: "case map_of rows u of None \<Rightarrow> map_of t1 u = map_of tbl u | Some c \<Rightarrow> \<exists>d. map_of t1 u = Some d \<and> stepped f c d" for u
      using v dist sub by (rule visit_result)
    have "last rows \<in> set ?F" using last_in_set [OF False] unfolding rows by (rule in_set_takeD)
    then have afterL: "after < L" by (auto simp: L_def)
    have "\<exists>d. map_of tbl' u = Some d \<and> (if after < u \<and> sel c then stepped f c d else d = c)" if u: "map_of tbl u = Some c" for u c
    proof (cases "map_of rows u")
      case None
      then have t1: "map_of t1 u = Some c" using res [of u] u by simp
      have "L < u" if "after < u" "sel c"
      proof (rule ccontr)
        assume "\<not> L < u"
        moreover have "(u, c) \<in> set ?F" using u that by (auto dest: map_of_SomeD)
        ultimately have "(u, c) \<in> set rows"
          using take_sorted_iff [OF srtF, of batch u c] False unfolding L_def rows by simp
        then show False using None by (auto simp: map_of_eq_None_iff rev_image_eqI)
      qed
      then show ?thesis using ih(2) [OF t1] afterL by (cases "L < u \<and> sel c") auto
    next
      case (Some e)
      then have in_rows: "(u, e) \<in> set rows" by (rule map_of_SomeD)
      then have e: "e = c" using sub u by simp
      obtain d where d: "map_of t1 u = Some d" "stepped f c d" using res [of u] Some e by auto
      have "(u, c) \<in> set ?F" using in_rows e unfolding rows by (metis in_set_takeD)
      moreover have "u \<le> L" using take_sorted_iff [OF srtF, of batch u c] in_rows e calculation False unfolding L_def rows by simp
      ultimately show ?thesis using ih(2) [OF d(1)] d(2) by auto
    qed
    then show ?thesis using ih(1) ids by auto
  qed
qed

definition table_ok :: "integrations \<Rightarrow> bool" where
  "table_ok db \<longleftrightarrow> (\<forall>col. sorted_wrt (<) (map fst (column_cells db col))) \<and> sorted_wrt (<) (map fst (channel_configs db))"

lemma table_okD: "table_ok db \<Longrightarrow> sorted_wrt (<) (map fst (column_cells db col))"
  by (cases col) (simp add: table_ok_def)

lemma rewrite_columns_result:
  "rewrite_columns V batch only cols db n k = (db', n', k') \<Longrightarrow> table_ok db \<Longrightarrow> 0 < batch \<Longrightarrow> distinct cols \<Longrightarrow>
   table_ok db' \<and> channel_configs db' = channel_configs db \<and>
   (\<forall>col u c. (u, c) \<in> set (column_cells db col) \<longrightarrow> (\<exists>d. (u, d) \<in> set (column_cells db' col) \<and>
      (if col \<in> set cols \<and> 0 < u \<and> selects only c then stepped (rewrite_cell V) c d else d = c)))"
proof (induction cols arbitrary: db n k)
  case (Cons col cols)
  obtain t n1 k1 where s: "scan (rewrite_cell V) (selects only) batch 0 (column_cells db col, n, k) = (t, n1, k1)"
    by (cases "scan (rewrite_cell V) (selects only) batch 0 (column_cells db col, n, k)")
  let ?db = "db\<lparr>column_cells := (column_cells db)(col := t)\<rparr>"
  have srt: "sorted_wrt (<) (map fst (column_cells db col))" using Cons.prems(2) by (rule table_okD)
  note sr = scan_result [OF s srt Cons.prems(3)]
  have ok: "table_ok ?db" using Cons.prems(2) sr by (auto simp: table_ok_def)
  have rest: "rewrite_columns V batch only cols ?db n1 k1 = (db', n', k')" using Cons.prems(1) s by simp
  have "distinct cols" using Cons.prems(4) by simp
  note ih = Cons.IH [OF rest ok Cons.prems(3) this]
  note cells = ih [THEN conjunct2, THEN conjunct2, rule_format]
  have col: "(u, c) \<in> set (column_cells db col) \<Longrightarrow> \<exists>d. (u, d) \<in> set t \<and>
      (if 0 < u \<and> selects only c then stepped (rewrite_cell V) c d else d = c)" for u c
    using sr map_of_sorted [OF srt] by (metis map_of_SomeD)
  show ?case
  proof (intro conjI allI impI)
    fix col' u c assume m: "(u, c) \<in> set (column_cells db col')"
    show "\<exists>d. (u, d) \<in> set (column_cells db' col') \<and>
        (if col' \<in> set (col # cols) \<and> 0 < u \<and> selects only c then stepped (rewrite_cell V) c d else d = c)"
    proof (cases "col' = col")
      case True
      obtain d where d: "(u, d) \<in> set t" "if 0 < u \<and> selects only c then stepped (rewrite_cell V) c d else d = c"
        using col m True by blast
      have "(u, d) \<in> set (column_cells ?db col)" using d(1) by simp
      moreover have "col \<notin> set cols" using Cons.prems(4) by simp
      ultimately have "(u, d) \<in> set (column_cells db' col)" using cells [of u d col] by auto
      then show ?thesis using d(2) True by auto
    next
      case False
      then have "(u, c) \<in> set (column_cells ?db col')" using m by simp
      from cells [OF this] show ?thesis using False by simp
    qed
  qed (use ih in auto)
qed simp

lemma rewrite_cell_stepped:
  assumes "vault_ok V ks" "stepped (rewrite_cell V) (Some s) d" "open_stored V s = Inr p" "text_ok p"
  shows "\<exists>t. d = Some t \<and> is_encrypted t \<and> open_stored V t = Inr p \<and> open_stored (with_old None V) t = Inr p"
proof -
  obtain n where "d = (case fst (rewrite_cell V (Some s) n) of None \<Rightarrow> Some s | Some d \<Rightarrow> d)"
    using assms(2) by (auto simp: stepped_def)
  then show ?thesis using seal_opens [OF assms(1,4), of n] assms(3) by (auto simp: rewrite_cell_def reseal_def)
qed

lemma rewrite_all_columns:
  assumes "vault_ok V ks" "table_ok db" "0 < batch"
  shows "\<exists>db' k. rewrite_all V batch only db n = Inr (db', k) \<and> table_ok db' \<and>
    (\<forall>col u c. (u, c) \<in> set (column_cells db col) \<longrightarrow> (\<exists>d. (u, d) \<in> set (column_cells db' col) \<and>
      (if col \<in> set CREDENTIAL_COLUMNS \<and> 0 < u \<and> selects only c then stepped (rewrite_cell V) c d else d = c)))"
proof -
  obtain db1 n1 k1 where r: "rewrite_columns V batch only CREDENTIAL_COLUMNS db n 0 = (db1, n1, k1)"
    by (cases "rewrite_columns V batch only CREDENTIAL_COLUMNS db n 0")
  obtain t n2 k2 where c: "scan (rewrite_config V only) (\<lambda>_. True) batch 0 (channel_configs db1, n1, k1) = (t, n2, k2)"
    by (cases "scan (rewrite_config V only) (\<lambda>_. True) batch 0 (channel_configs db1, n1, k1)")
  have "distinct CREDENTIAL_COLUMNS" by (simp add: CREDENTIAL_COLUMNS_def)
  note res = rewrite_columns_result [OF r assms(2,3) this]
  have "map fst t = map fst (channel_configs db1)"
    using scan_result [OF c _ assms(3)] res unfolding table_ok_def by blast
  then have "table_ok (db1\<lparr>channel_configs := t\<rparr>)" using res assms(2) by (simp add: table_ok_def)
  moreover have "rewrite_all V batch only db n = Inr (db1\<lparr>channel_configs := t\<rparr>, k2)"
    using assms(1) r c by (simp add: rewrite_all_def keys_def vault_ok_def)
  ultimately show ?thesis using res by (intro exI [of _ "db1\<lparr>channel_configs := t\<rparr>"] exI [of _ k2]) simp
qed

text \<open>
  After a re-encryption the old key can be dropped: every credential that could be opened before, with the
  current or with the old key or as legacy plaintext, is sealed and opens to the same text with the current key
  alone. The row with the nil id is not visited.
\<close>

theorem credentials_rotated:
  assumes "vault_ok V ks" "table_ok db" "0 < batch" "col \<in> set CREDENTIAL_COLUMNS"
    and "(u, Some s) \<in> set (column_cells db col)" "0 < u" "open_stored V s = Inr p" "text_ok p"
  shows "\<exists>db' k t. rewrite_all V batch False db n = Inr (db', k) \<and> (u, Some t) \<in> set (column_cells db' col) \<and>
    is_encrypted t \<and> open_stored (with_old None V) t = Inr p"
proof -
  obtain db' k where r: "rewrite_all V batch False db n = Inr (db', k)"
      "\<exists>d. (u, d) \<in> set (column_cells db' col) \<and> stepped (rewrite_cell V) (Some s) d"
    using rewrite_all_columns [OF assms(1-3), of False n] assms(4-6) by (fastforce simp: selects_def)
  then show ?thesis using rewrite_cell_stepped [OF assms(1) _ assms(7,8)] by blast
qed

text \<open>
  The backfill at startup leaves no credential in plaintext, and leaves the sealed ones as they are.
\<close>

theorem no_plaintext_left:
  assumes "vault_ok V ks" "table_ok db" "col \<in> set CREDENTIAL_COLUMNS"
    and "(u, Some s) \<in> set (column_cells db col)" "0 < u" "text_ok s"
  shows "\<exists>db' k t. backfill_plaintext V db n = Inr (db', k) \<and> (u, Some t) \<in> set (column_cells db' col) \<and>
    is_encrypted t \<and> (if is_encrypted s then t = s else open_stored V t = Inr s)"
proof -
  have c: "is_configured (installed V)" using assms(1) by (simp add: is_configured_def keys_def vault_ok_def)
  obtain db' k where r: "rewrite_all V 500 True db n = Inr (db', k)"
      "\<exists>d. (u, d) \<in> set (column_cells db' col) \<and> (if \<not> is_encrypted s then stepped (rewrite_cell V) (Some s) d else d = Some s)"
    using rewrite_all_columns [OF assms(1,2), of 500 True n] assms(3-5) by (fastforce simp: selects_def)
  then obtain d where d: "(u, d) \<in> set (column_cells db' col)"
      "if \<not> is_encrypted s then stepped (rewrite_cell V) (Some s) d else d = Some s" by blast
  show ?thesis
  proof (cases "is_encrypted s")
    case True
    then show ?thesis using d r(1) c by (auto simp: backfill_plaintext_def)
  next
    case False
    then have "open_stored V s = Inr s" by (simp add: open_stored_def)
    from rewrite_cell_stepped [OF assms(1) _ this assms(6)] show ?thesis
      using d False r(1) c by (auto simp: backfill_plaintext_def)
  qed
qed

text \<open>
  A plaintext that looks sealed is taken for sealed: it is left in plaintext, and can no longer be opened.
\<close>

lemma looks_sealed: "seal_new V (PREFIX @ s) n = (Inr (PREFIX @ s), n)"
  by (simp add: seal_new_def is_encrypted_def starts_with_def)

section \<open>A cipher that satisfies the laws\<close>

instance word :: (len) countable
  by (rule countable_classI [of unat]) (rule unsigned_word_eqI)

instance number :: countable
  by countable_datatype

instance json :: countable
  by countable_datatype

definition sample_crypto :: crypto where
  "sample_crypto = \<lparr>aes_seal = (\<lambda>k n p. Some (k @ n @ p)),
     aes_open = (\<lambda>k n c. if take (length (k @ n)) c = k @ n then Some (drop (length (k @ n)) c) else None),
     b64 = (\<lambda>s. s), unb64 = Some, to_vec = (\<lambda>v. if v = JNull then ''null'' else CHR ''#'' # show_nat (to_nat v)),
     from_slice = (\<lambda>s. if s = ''null'' then Some JNull else map_option from_nat (digits_value 10 0 (drop 1 s))), aead_error = ''aead::Error'',
     b64_error = (\<lambda>_. ''Invalid byte''), json_error = (\<lambda>_. ''expected value''), utf8_error = (\<lambda>_. ''invalid utf-8 sequence'')\<rparr>"

lemma sample_crypto_laws: "crypto_laws sample_crypto" "authentic sample_crypto"
  by (auto simp: crypto_laws_def authentic_def sample_crypto_def digits_value_show_nat)

definition sample_vault :: vault where
  "sample_vault = \<lparr>crates = sample_crypto,
     installed = Some (Some \<lparr>key_current = replicate 32 (CHR ''n''), key_old = Some (replicate 32 (CHR ''o'')), key_version = 2\<rparr>),
     nonce_at = (\<lambda>i. replicate 12 (CHR 0x00))\<rparr>"

lemma sample_vault_ok: "vault_ok sample_vault \<lparr>key_current = replicate 32 (CHR ''n''), key_old = Some (replicate 32 (CHR ''o'')), key_version = 2\<rparr>"
  by (simp add: vault_ok_def sample_vault_def sample_crypto_laws key32_def NONCE_LEN_def)

lemma short_text_ok: "text_ok ''hunter2''"
proof -
  have "from_utf8 ''hunter2''" by code_simp
  then show ?thesis by (simp add: text_ok_def)
qed

definition one_token :: integrations where
  "one_token = \<lparr>column_cells = (\<lambda>col. if col = (''github_integrations'', ''access_token'') then [(7, Some ''hunter2'')] else []),
     channel_configs = []\<rparr>"

theorem credentials_rotated_witness:
  "\<exists>db' k t. rewrite_all sample_vault 10 False one_token 0 = Inr (db', k) \<and>
    (7, Some t) \<in> set (column_cells db' (''github_integrations'', ''access_token'')) \<and>
    is_encrypted t \<and> open_stored (with_old None sample_vault) t = Inr ''hunter2''"
  by (rule credentials_rotated [OF sample_vault_ok, of _ _ _ _ "''hunter2''"])
    (auto simp: table_ok_def one_token_def CREDENTIAL_COLUMNS_def open_stored_def is_encrypted_def starts_with_def PREFIX_def short_text_ok)

theorem no_plaintext_left_witness:
  "\<exists>db' k t. backfill_plaintext sample_vault one_token 0 = Inr (db', k) \<and>
    (7, Some t) \<in> set (column_cells db' (''github_integrations'', ''access_token'')) \<and>
    is_encrypted t \<and> (if is_encrypted ''hunter2'' then t = ''hunter2'' else open_stored sample_vault t = Inr ''hunter2'')"
  by (rule no_plaintext_left [OF sample_vault_ok])
    (auto simp: table_ok_def one_token_def CREDENTIAL_COLUMNS_def short_text_ok)

theorem config_roundtrip_witness:
  "\<exists>d n'. seal_config sample_vault (JObject [(''password'', JString ''hunter2''), (''port'', JNumber (PosInt 25))]) 0 = (Inr d, n') \<and>
    list_all is_encrypted (sensitive d) \<and>
    blank d = blank (JObject [(''password'', JString ''hunter2''), (''port'', JNumber (PosInt 25))]) \<and>
    open_config sample_vault d = Inr (JObject [(''password'', JString ''hunter2''), (''port'', JNumber (PosInt 25))])"
  by (rule config_roundtrip [OF sample_vault_ok])
    (auto simp: secret_of_def is_encrypted_def starts_with_def PREFIX_def short_text_ok split: if_splits)

theorem event_data_opens_witness:
  "\<exists>env. snd (encrypt sample_crypto (replicate 32 (CHR ''o'')) (replicate 12 (CHR 0x00)) None JNull) = Inr env \<and>
    decrypt sample_crypto (replicate 32 (CHR ''n'')) (Some (replicate 32 (CHR ''o''))) env = Inr JNull"
proof -
  let ?o = "replicate 32 (CHR ''o'')" and ?n = "replicate 32 (CHR ''n'')" and ?z = "replicate 12 (CHR 0x00) :: string"
  have "length (to_vec sample_crypto JNull) \<le> 2 ^ 36" by (simp add: sample_crypto_def)
  from event_data_opens [OF sample_crypto_laws, of JNull ?o ?n "Some ?o" ?z None, OF _ _ _ _ _ this]
  show ?thesis by (simp add: key32_def NONCE_LEN_def)
qed

end
