(* ===== verification/Key_Rotation.thy ===== *)
theory Key_Rotation
  imports Secret_Store
begin

text \<open>
  Model of \<open>src/reencrypt.rs\<close>: the background job that re-encrypts event data, with its shared state, and the
  rotation of credentials, with its checkpoint and its transactions. A process may die between two transactions
  of a rotation. The lemmas show that the rotation finishes its work over any number of interrupted runs, what
  stops it, and how the background job of the events miscounts what remains.
\<close>

section \<open>The job on events\<close>

record ReencryptState =
  is_running :: bool
  rows_remaining :: u64
  rows_total :: u64
  rows_completed :: u64

definition reencrypt_state_new :: ReencryptState where
  "reencrypt_state_new = \<lparr>is_running = False, rows_remaining = 0, rows_total = 0, rows_completed = 0\<rparr>"

text \<open>\<open>event_data->>'encrypted' = 'true'\<close>\<close>

definition marked_encrypted :: "json \<Rightarrow> bool" where
  "marked_encrypted v \<longleftrightarrow> field_of ''encrypted'' v = Some (JBool True) \<or> field_of ''encrypted'' v = Some (JString ''true'')"

text \<open>One row: what it becomes, with the draws so far, or none when it stays as it is.\<close>

definition reencrypt_row ::
  "crypto \<Rightarrow> (nat \<Rightarrow> string) \<Rightarrow> KeyStore option \<Rightarrow> key \<Rightarrow> key \<Rightarrow> json \<Rightarrow> nat \<Rightarrow> json option \<times> nat" where
  "reencrypt_row C rnd g new_key old_key v n =
     (case decrypt C new_key (Some old_key) v of
        Inl e \<Rightarrow> (None, n)
      | Inr p \<Rightarrow> (case snd (encrypt C new_key (rnd n) g p) of Inl e \<Rightarrow> (None, n + 1) | Inr d \<Rightarrow> (Some d, n + 1)))"

text \<open>\<open>usize\<close> subtraction: a panic when overflow checks are compiled in, else wrapped.\<close>

definition sub_usize :: "bool \<Rightarrow> nat \<Rightarrow> nat \<Rightarrow> nat option" where
  "sub_usize checked a b = (if b \<le> a then Some (a - b) else if checked then None else Some (2 ^ 64 + a - b))"

datatype job_end = Completed nat | Panicked

definition encrypted_page :: "nat \<Rightarrow> nat \<Rightarrow> json cells \<Rightarrow> json cells" where
  "encrypted_page batch skip tbl = take batch (drop skip (filter (\<lambda>(u, v). marked_encrypted v) tbl))"

lemma visit_length: "length (fst (visit f rows st)) = length (fst st)"
proof -
  obtain t n k where "visit f rows st = (t, n, k)" by (cases "visit f rows st")
  then show ?thesis using visit_ids [of f rows st t n k] by (metis fst_conv length_map)
qed

function job_loop ::
  "bool \<Rightarrow> (json \<Rightarrow> nat \<Rightarrow> json option \<times> nat) \<Rightarrow> nat \<Rightarrow> nat \<Rightarrow> nat \<Rightarrow> json cells \<times> nat \<times> nat \<Rightarrow> u64 \<Rightarrow>
   (json cells \<times> nat \<times> nat) \<times> u64 \<times> job_end" where
  "job_loop checked f tot batch skip (tbl, n, k) remaining =
     (let rows = encrypted_page batch skip tbl in
      if rows = [] then ((tbl, n, k), remaining, Completed k)
      else (let st = visit f rows (tbl, n, k) in
        case sub_usize checked tot (skip + batch) of
          None \<Rightarrow> (st, remaining, Panicked)
        | Some r \<Rightarrow> job_loop checked f tot batch (skip + batch) st (of_nat r)))"
  by pat_completeness auto
termination
proof (relation "measure (\<lambda>(checked, f, tot, batch, skip, st, remaining). length (fst st) - skip)")
  fix checked f tot batch skip tbl n k remaining rows st x
  assume a: "rows = encrypted_page batch skip tbl" "rows \<noteq> []" "st = visit f rows (tbl, n, k)"
  have "skip < length (filter (\<lambda>(u, v). marked_encrypted v) tbl)" "0 < batch"
    using a(1,2) by (auto simp: encrypted_page_def)
  then have "skip < length tbl" "0 < batch" using length_filter_le less_le_trans by blast+
  then show "((checked, f, tot, batch, skip + batch, st, of_nat x), checked, f, tot, batch, skip, (tbl, n, k), remaining)
      \<in> measure (\<lambda>(checked, f, tot, batch, skip, st, remaining). length (fst st) - skip)"
    by (simp add: a(3) visit_length)
qed simp

declare job_loop.simps [simp del]

definition run_reencrypt_job ::
  "bool \<Rightarrow> (json \<Rightarrow> nat \<Rightarrow> json option \<times> nat) \<Rightarrow> nat \<Rightarrow> json cells \<Rightarrow> nat \<Rightarrow> json cells \<times> u64 \<times> job_end" where
  "run_reencrypt_job checked f batch tbl n =
     (let tot = length (filter (\<lambda>(u, v). marked_encrypted v) tbl) in
      case job_loop checked f tot batch 0 (tbl, n, 0) (of_nat tot) of ((tbl', n', k'), rem, e) \<Rightarrow> (tbl', rem, e))"

text \<open>
  Starting the job, and the state and table when its task has ended. A panic ends the task before the flag is
  cleared.
\<close>

definition start_job ::
  "bool \<Rightarrow> (json \<Rightarrow> nat \<Rightarrow> json option \<times> nat) \<Rightarrow> nat \<Rightarrow> json cells \<Rightarrow> nat \<Rightarrow> ReencryptState \<Rightarrow> json cells \<times> ReencryptState" where
  "start_job checked f batch tbl n s =
     (if is_running s then (tbl, s)
      else (case run_reencrypt_job checked f batch tbl n of
          (tbl', rem, Completed k) \<Rightarrow> (tbl', s\<lparr>rows_remaining := rem, is_running := False\<rparr>)
        | (tbl', rem, Panicked) \<Rightarrow> (tbl', s\<lparr>rows_remaining := rem, is_running := True\<rparr>)))"

definition has_old_key_rows :: "json cells \<Rightarrow> bool" where
  "has_old_key_rows tbl \<longleftrightarrow> 0 < length (filter (\<lambda>(u, v). marked_encrypted v) tbl)"

section \<open>Rotation of credentials\<close>

record RotationCheckpoint =
  last_processed_id :: "nat option"
  total_rows :: int
  completed_rows :: int
  finished :: bool

definition ROTATION_BATCH_SIZE :: nat where "ROTATION_BATCH_SIZE = 100"

record credential_db =
  credentials :: "json option cells"
  checkpoint :: "RotationCheckpoint option"

datatype rotation_error = Decrypt_failed nat string | Encrypt_failed string | Already_running

definition rotate_row ::
  "crypto \<Rightarrow> key \<Rightarrow> key \<Rightarrow> string \<Rightarrow> KeyStore option \<Rightarrow> nat \<Rightarrow> json \<Rightarrow> rotation_error + json" where
  "rotate_row C old_key new_key nonce g u d =
     (case (case decrypt C old_key None d of
              Inr v \<Rightarrow> Inr v
            | Inl e \<Rightarrow> (case decrypt C new_key None d of Inr v \<Rightarrow> Inr v | Inl _ \<Rightarrow> Inl (Decrypt_failed u e))) of
        Inl e \<Rightarrow> Inl e
      | Inr v \<Rightarrow> (case snd (encrypt C new_key nonce g v) of Inl e \<Rightarrow> Inl (Encrypt_failed e) | Inr d' \<Rightarrow> Inr d'))"

text \<open>The rows of a batch within its transaction: the table as it would be committed.\<close>

fun rotate_batch ::
  "(nat \<Rightarrow> nat \<Rightarrow> json \<Rightarrow> rotation_error + json) \<Rightarrow> nat list \<Rightarrow> json option cells \<Rightarrow> nat \<Rightarrow> int \<Rightarrow>
   rotation_error + json option cells \<times> nat \<times> int" where
  "rotate_batch f [] tbl n k = Inr (tbl, n, k)"
| "rotate_batch f (u # us) tbl n k = (case map_of tbl u of
      Some (Some d) \<Rightarrow> (case f n u d of
          Inl e \<Rightarrow> Inl e
        | Inr d' \<Rightarrow> rotate_batch f us (set_cell u (Some d') tbl) (n + 1) (k + 1))
    | _ \<Rightarrow> rotate_batch f us tbl n k)"

definition beyond :: "nat option \<Rightarrow> nat \<Rightarrow> bool" where
  "beyond after u \<longleftrightarrow> (case after of None \<Rightarrow> True | Some a \<Rightarrow> a < u)"

definition batch_ids :: "nat option \<Rightarrow> json option cells \<Rightarrow> nat list" where
  "batch_ids after tbl = take ROTATION_BATCH_SIZE (map fst (filter (\<lambda>(u, d). d \<noteq> None \<and> beyond after u) tbl))"

text \<open>How a run ends: it has rotated so many rows, it failed, or its process died.\<close>

datatype run_end = Rotated nat | Failed rotation_error | Died

definition show_progress :: "int \<Rightarrow> int \<Rightarrow> ReencryptState \<Rightarrow> ReencryptState" where
  "show_progress completed tot s = s\<lparr>rows_completed := word_of_int completed, rows_remaining := word_of_int (max (tot - completed) 0)\<rparr>"

type_synonym row_step = "nat \<Rightarrow> nat \<Rightarrow> json \<Rightarrow> rotation_error + json"

fun rotation_loop ::
  "row_step \<Rightarrow> nat \<Rightarrow> nat option \<Rightarrow> int \<Rightarrow> int \<Rightarrow> nat \<Rightarrow> nat \<Rightarrow> credential_db \<times> ReencryptState \<Rightarrow> (credential_db \<times> ReencryptState) \<times> run_end" where
  "rotation_loop f 0 after tot completed rotated n (db, s) = ((db, s), Died)"
| "rotation_loop f (Suc life) after tot completed rotated n (db, s) =
     (let ids = batch_ids after (credentials db) in
      if ids = [] then
        ((db\<lparr>checkpoint := Some \<lparr>last_processed_id = after, total_rows = tot, completed_rows = completed, finished = True\<rparr>\<rparr>, s),
         Rotated rotated)
      else (case rotate_batch f ids (credentials db) n 0 of
          Inl e \<Rightarrow> ((db, s), Failed e)
        | Inr (tbl, n', k) \<Rightarrow>
            rotation_loop f life (Some (last ids)) tot (completed + k) (rotated + nat k) n'
              (db\<lparr>credentials := tbl, checkpoint := Some \<lparr>last_processed_id = Some (last ids), total_rows = tot,
                 completed_rows = completed + k, finished = tot \<le> completed + k\<rparr>\<rparr>, show_progress (completed + k) tot s)))"

text \<open>A run starts behind the checkpoint of an unfinished one, else at the first row.\<close>

definition start_point :: "credential_db \<Rightarrow> nat option \<times> int \<times> int" where
  "start_point db = (let fresh = (None, int (length (filter (\<lambda>(u, d). d \<noteq> None) (credentials db))), 0) in
     case checkpoint db of None \<Rightarrow> fresh
     | Some cp \<Rightarrow> if \<not> finished cp then (last_processed_id cp, total_rows cp, completed_rows cp) else fresh)"

definition rotate_credentials_inner ::
  "row_step \<Rightarrow> nat \<Rightarrow> nat \<Rightarrow> ReencryptState \<Rightarrow> credential_db \<Rightarrow> (credential_db \<times> ReencryptState) \<times> run_end" where
  "rotate_credentials_inner f life n s db =
     (case start_point db of (after, tot, completed) \<Rightarrow>
        rotation_loop f life after tot completed 0 n (db, show_progress completed tot (s\<lparr>rows_total := word_of_int tot\<rparr>)))"

text \<open>A process that died leaves the table and the checkpoint; the next one has a new state.\<close>

definition rotate_credentials ::
  "row_step \<Rightarrow> nat \<Rightarrow> nat \<Rightarrow> credential_db \<times> ReencryptState \<Rightarrow> (credential_db \<times> ReencryptState) \<times> run_end" where
  "rotate_credentials f life n st =
     (if is_running (snd st) then (st, Failed Already_running)
      else (case rotate_credentials_inner f life n ((snd st)\<lparr>is_running := True\<rparr>) (fst st) of
          ((db, s), Died) \<Rightarrow> ((db, reencrypt_state_new), Died)
        | ((db, s), e) \<Rightarrow> ((db, s\<lparr>is_running := False\<rparr>), e)))"

definition verify_old_key_rejected :: "crypto \<Rightarrow> key \<Rightarrow> json option cells \<Rightarrow> bool" where
  "verify_old_key_rejected C old_key tbl \<longleftrightarrow>
     list_all (\<lambda>(u, d). case d of None \<Rightarrow> True | Some v \<Rightarrow> (case decrypt C old_key None v of Inr _ \<Rightarrow> False | Inl _ \<Rightarrow> True)) tbl"

section \<open>What the event job leaves behind\<close>

text \<open>A step that keeps rows marked, as re-encryption does.\<close>

definition keeps_marked :: "(json \<Rightarrow> nat \<Rightarrow> json option \<times> nat) \<Rightarrow> bool" where
  "keeps_marked f \<longleftrightarrow> (\<forall>v n d. fst (f v n) = Some d \<longrightarrow> marked_encrypted d)"

lemma marked_envelope [simp]: "marked_encrypted (envelope C ct n v)"
  by (simp add: marked_encrypted_def)

lemma encrypt_envelope: "snd (encrypt C k n g v) = Inr d \<Longrightarrow> \<exists>ct w. d = envelope C ct n w"
  by (auto simp: encrypt_def split: option.splits prod.splits)

lemma reencrypt_row_keeps_marked: "keeps_marked (reencrypt_row C rnd g k1 k2)"
  unfolding keeps_marked_def
proof (intro allI impI)
  fix v n d assume "fst (reencrypt_row C rnd g k1 k2 v n) = Some d"
  then obtain p where "snd (encrypt C k1 (rnd n) g p) = Inr d"
    by (auto simp: reencrypt_row_def split: sum.splits)
  then show "marked_encrypted d" by (auto dest: encrypt_envelope)
qed

definition marked_rows :: "json cells \<Rightarrow> json cells" where
  "marked_rows tbl = filter (\<lambda>(u, v). marked_encrypted v) tbl"

lemma marked_set_cell: "marked_encrypted d \<Longrightarrow> (u, c) \<in> set tbl \<Longrightarrow> marked_encrypted c \<Longrightarrow> distinct (map fst tbl) \<Longrightarrow>
    map fst (marked_rows (set_cell u d tbl)) = map fst (marked_rows tbl)"
proof (induction tbl)
  case (Cons r tbl)
  have ids: "fst r \<notin> fst ` set tbl" using Cons.prems(4) by simp
  show ?case
  proof (cases "fst r = u")
    case True
    then have "r = (u, c)" using Cons.prems(2) ids by (force simp: image_iff)
    moreover have "set_cell u d tbl = tbl" unfolding set_cell_def
      by (rule map_idI) (use ids True in \<open>auto intro: rev_image_eqI\<close>)
    ultimately show ?thesis using Cons.prems by (simp add: marked_rows_def set_cell_def)
  next
    case False
    then show ?thesis using Cons by (auto simp: marked_rows_def set_cell_def)
  qed
qed simp

lemma visit_marked:
  "visit f rows (tbl, n, k) = (tbl', n', k') \<Longrightarrow> keeps_marked f \<Longrightarrow> distinct (map fst tbl) \<Longrightarrow> distinct (map fst rows) \<Longrightarrow>
   set rows \<subseteq> set (marked_rows tbl) \<Longrightarrow> map fst (marked_rows tbl') = map fst (marked_rows tbl)"
proof (induction rows arbitrary: tbl n k)
  case (Cons r rows)
  obtain u c where r: "r = (u, c)" by (cases r)
  obtain o' m where f: "f c n = (o', m)" by fastforce
  have mc: "(u, c) \<in> set tbl" "marked_encrypted c" using Cons.prems(5) r by (auto simp: marked_rows_def)
  show ?case
  proof (cases o')
    case None
    then show ?thesis using Cons f r by auto
  next
    case (Some d)
    have md: "marked_encrypted d" using Cons.prems(2) f Some by (metis fst_conv keeps_marked_def)
    let ?t = "set_cell u d tbl"
    have v: "visit f rows (?t, m, k + 1) = (tbl', n', k')" using Cons.prems(1) f r Some by simp
    have "set rows \<subseteq> set (marked_rows ?t)"
    proof
      fix x assume x: "x \<in> set rows"
      then have "fst x \<noteq> u" using Cons.prems(4) r by force
      then show "x \<in> set (marked_rows ?t)" using Cons.prems(5) x
        by (force simp: marked_rows_def set_cell_def image_iff)
    qed
    then have "map fst (marked_rows tbl') = map fst (marked_rows ?t)"
      using Cons.prems(2-4) by (intro Cons.IH [OF v]) auto
    then show ?thesis using marked_set_cell [OF md mc Cons.prems(3)] by simp
  qed
qed simp

text \<open>One page of the job.\<close>

lemma job_page:
  assumes "visit f (encrypted_page batch skip tbl) (tbl, n, k) = (t, n1, k1)" "keeps_marked f" "distinct (map fst tbl)"
  shows "map fst t = map fst tbl \<and> map fst (marked_rows t) = map fst (marked_rows tbl) \<and>
    (\<forall>u c. map_of tbl u = Some c \<longrightarrow> (\<exists>d. map_of t u = Some d \<and>
      (if u \<in> set (take batch (drop skip (map fst (marked_rows tbl)))) then stepped f c d else d = c)))"
proof -
  let ?rows = "encrypted_page batch skip tbl"
  have rows: "?rows = take batch (drop skip (marked_rows tbl))" by (simp add: encrypted_page_def marked_rows_def)
  have sub: "set ?rows \<subseteq> set (marked_rows tbl)" unfolding rows by (meson order_trans set_drop_subset set_take_subset)
  have "distinct (map fst (marked_rows tbl))" using assms(3) by (simp add: marked_rows_def distinct_map_filter)
  then have dist: "distinct (map fst ?rows)" unfolding rows by (metis distinct_drop distinct_take drop_map take_map)
  have inT: "(u, c) \<in> set ?rows \<Longrightarrow> map_of tbl u = Some c" for u c
    using sub assms(3) by (auto simp: marked_rows_def)
  have ids: "fst ` set ?rows = set (take batch (drop skip (map fst (marked_rows tbl))))"
    unfolding rows by (metis drop_map image_set take_map)
  have "\<exists>d. map_of t u = Some d \<and> (if u \<in> fst ` set ?rows then stepped f c d else d = c)" if u: "map_of tbl u = Some c" for u c
  proof -
    note res = visit_result [OF assms(1) dist inT, of u]
    show ?thesis
    proof (cases "map_of ?rows u")
      case None
      then have "map_of t u = map_of tbl u" using res by simp
      moreover have "u \<notin> fst ` set ?rows" using None by (simp add: map_of_eq_None_iff)
      ultimately show ?thesis using u by simp
    next
      case (Some e)
      then have "e = c" using inT u by (fastforce dest: map_of_SomeD)
      moreover have "u \<in> fst ` set ?rows" using Some by (force dest: map_of_SomeD)
      ultimately show ?thesis using res Some by auto
    qed
  qed
  then show ?thesis
    using visit_ids [OF assms(1)] visit_marked [OF assms(1-3) dist sub] unfolding ids by auto
qed

text \<open>The whole job: the rows behind the start, the count of the rest, and how it ends.\<close>

definition left_over :: "nat \<Rightarrow> nat \<Rightarrow> nat \<Rightarrow> u64" where
  "left_over T batch skip = of_nat T - of_nat (skip + batch * ((T - skip + batch - 1) div batch))"

definition job_result :: "bool \<Rightarrow> nat \<Rightarrow> nat \<Rightarrow> nat \<Rightarrow> u64 \<Rightarrow> u64 \<Rightarrow> job_end \<Rightarrow> bool" where
  "job_result checked T batch skip r r' e \<longleftrightarrow>
     (if T \<le> skip then r' = r \<and> e \<noteq> Panicked
      else if checked \<and> \<not> batch dvd T - skip then e = Panicked
      else e \<noteq> Panicked \<and> r' = left_over T batch skip)"

lemma ceil_step:
  fixes d b :: nat
  assumes "b < d" "0 < b"
  shows "(d + b - 1) div b = Suc ((d - b + b - 1) div b)"
proof -
  have "d + b - 1 = (d - b + b - 1) + b" using assms by simp
  then show ?thesis using assms(2) by (simp only: div_add_self2)
qed

lemma ceil_last: "0 < d \<Longrightarrow> d \<le> b \<Longrightarrow> (d + b - 1) div b = (1 :: nat)"
proof -
  assume "0 < d" "d \<le> b"
  moreover from this have "d + b - 1 = (d - 1) + b" by simp
  ultimately show ?thesis by (simp only: div_add_self2) simp
qed

lemma dvd_step: "b < d \<Longrightarrow> b dvd d - b \<longleftrightarrow> b dvd (d :: nat)"
  by (simp add: dvd_minus_self)

lemma job_loop_result:
  "job_loop checked f T batch skip (tbl, n, k) r = ((tbl', n', k'), r', e) \<Longrightarrow> keeps_marked f \<Longrightarrow> distinct (map fst tbl) \<Longrightarrow>
   length (marked_rows tbl) = T \<Longrightarrow> 0 < batch \<Longrightarrow> batch < 2 ^ 64 \<Longrightarrow>
   job_result checked T batch skip r r' e \<and> length (marked_rows tbl') = T \<and>
   (e \<noteq> Panicked \<longrightarrow> (\<forall>u c. map_of tbl u = Some c \<longrightarrow> (\<exists>d. map_of tbl' u = Some d \<and>
      (if u \<in> set (drop skip (map fst (marked_rows tbl))) then stepped f c d else d = c))))"
proof (induction checked f T batch skip "(tbl, n, k)" r arbitrary: tbl n k rule: job_loop.induct)
  case (1 checked f T batch skip tbl n k r)
  let ?rows = "encrypted_page batch skip tbl"
  have rows: "?rows = take batch (drop skip (marked_rows tbl))" by (simp add: encrypted_page_def marked_rows_def)
  show ?case
  proof (cases "?rows = []")
    case True
    then have "T \<le> skip" using 1(5,6) unfolding rows by simp
    moreover have "((tbl', n', k'), r', e) = ((tbl, n, k), r, Completed k)"
      using 1(2) True by (auto simp: job_loop.simps Let_def)
    ultimately show ?thesis using 1(5) by (auto simp: job_result_def dest: map_of_SomeD)
  next
    case False
    then have skip: "skip < T" using 1(5) unfolding rows by auto
    obtain t n1 k1 where v: "visit f ?rows (tbl, n, k) = (t, n1, k1)" by (cases "visit f ?rows (tbl, n, k)")
    note page = job_page [OF v 1(3,4)]
    then have T: "length (marked_rows t) = T" using 1(5) by (metis length_map)
    let ?d = "T - skip"
    have loop: "job_loop checked f T batch skip (tbl, n, k) r = (case sub_usize checked T (skip + batch) of
        None \<Rightarrow> ((t, n1, k1), r, Panicked) | Some q \<Rightarrow> job_loop checked f T batch (skip + batch) (t, n1, k1) (of_nat q))"
      using False v by (simp add: job_loop.simps [of checked f T batch skip] Let_def)
    show ?thesis
    proof (cases "sub_usize checked T (skip + batch)")
      case None
      then have c: "checked" "T < skip + batch" by (auto simp: sub_usize_def split: if_splits)
      then have "\<not> batch dvd ?d" using skip by (auto dest: dvd_imp_le)
      then show ?thesis using None loop 1(2) T c skip by (auto simp: job_result_def)
    next
      case (Some q)
      have rec: "job_loop checked f T batch (skip + batch) (t, n1, k1) (of_nat q) = ((tbl', n', k'), r', e)"
        using 1(2) loop Some by simp
      have dt: "distinct (map fst t)" using page 1(4) by simp
      note ih = 1(1) [OF refl False v [symmetric] Some rec 1(3) dt T 1(6,7)]
      have jr: "job_result checked T batch skip r r' e"
      proof (cases "skip + batch < T")
        case True
        then have q: "T - (skip + batch) = ?d - batch" "batch < ?d" by simp_all
        have "skip + batch + batch * ((?d - batch + batch - 1) div batch) = skip + batch * ((?d + batch - 1) div batch)"
          using ceil_step [OF q(2) 1(6)] by simp
        then have "left_over T batch (skip + batch) = left_over T batch skip" by (simp only: left_over_def q(1))
        then show ?thesis using ih True skip dvd_step [OF q(2)] unfolding job_result_def q(1) by auto
      next
        case False
        then have ceil: "(?d + batch - 1) div batch = 1" using skip by (intro ceil_last) simp_all
        have r': "r' = of_nat q" "e \<noteq> Panicked" using ih False by (auto simp: job_result_def)
        have q: "(of_nat q :: u64) = of_nat T - of_nat (skip + batch) \<and> (checked \<longrightarrow> batch dvd ?d)"
        proof (cases "skip + batch = T")
          case True
          then show ?thesis using Some by (auto simp: sub_usize_def)
        next
          case f: False
          then have q: "q = 2 ^ 64 + T - (skip + batch)" "\<not> checked" using Some False by (auto simp: sub_usize_def split: if_splits)
          have "skip + batch \<le> 2 ^ 64 + T" using skip 1(7) by simp
          then have "(of_nat q :: u64) = of_nat (2 ^ 64 + T) - of_nat (skip + batch)" unfolding q(1) by (rule of_nat_diff)
          then show ?thesis using q(2) by simp
        qed
        show ?thesis using skip r' q unfolding job_result_def left_over_def ceil by auto
      qed
      have "\<exists>d. map_of tbl' u = Some d \<and> (if u \<in> set (drop skip (map fst (marked_rows tbl))) then stepped f c d else d = c)"
        if e: "e \<noteq> Panicked" and u: "map_of tbl u = Some c" for u c
      proof -
        let ?ids = "map fst (marked_rows tbl)"
        obtain d1 where d1: "map_of t u = Some d1" "if u \<in> set (take batch (drop skip ?ids)) then stepped f c d1 else d1 = c"
          using page u by blast
        have "map fst (marked_rows t) = ?ids" using page by blast
        then obtain d where d: "map_of tbl' u = Some d" "if u \<in> set (drop (skip + batch) ?ids) then stepped f d1 d else d = d1"
          using ih e d1(1) by fastforce
        have split: "drop skip ?ids = take batch (drop skip ?ids) @ drop (skip + batch) ?ids"
          by (metis append_take_drop_id drop_drop add.commute)
        have "distinct (drop skip ?ids)" using 1(4) by (simp add: marked_rows_def distinct_map_filter)
        then have "u \<in> set (take batch (drop skip ?ids)) \<Longrightarrow> u \<notin> set (drop (skip + batch) ?ids)"
          using split by (metis distinct_append disjoint_iff)
        moreover have "u \<in> set (drop skip ?ids) \<longleftrightarrow> u \<in> set (take batch (drop skip ?ids)) \<or> u \<in> set (drop (skip + batch) ?ids)"
          using split by (metis Un_iff set_append)
        ultimately show ?thesis using d1(2) d by (auto split: if_splits)
      qed
      then show ?thesis using jr ih by blast
    qed
  qed
qed

lemma job_run:
  assumes "keeps_marked f" "distinct (map fst tbl)" "0 < batch" "batch < 2 ^ 64" "0 < length (marked_rows tbl)"
  shows "\<exists>tbl' r e. run_reencrypt_job checked f batch tbl n = (tbl', r, e) \<and>
    job_result checked (length (marked_rows tbl)) batch 0 (of_nat (length (marked_rows tbl))) r e \<and>
    length (marked_rows tbl') = length (marked_rows tbl) \<and>
    (e \<noteq> Panicked \<longrightarrow> (\<forall>u c. map_of tbl u = Some c \<longrightarrow> (\<exists>d. map_of tbl' u = Some d \<and>
      (if u \<in> fst ` set (marked_rows tbl) then stepped f c d else d = c))))"
proof -
  let ?T = "length (marked_rows tbl)"
  obtain tbl' n' k' r e where j: "job_loop checked f ?T batch 0 (tbl, n, 0) (of_nat ?T) = ((tbl', n', k'), r, e)"
    by (cases "job_loop checked f ?T batch 0 (tbl, n, 0) (of_nat ?T)") auto
  have "run_reencrypt_job checked f batch tbl n = (tbl', r, e)"
    using j by (simp add: run_reencrypt_job_def marked_rows_def)
  then show ?thesis using job_loop_result [OF j assms(1,2) refl assms(3,4)] by auto
qed

text \<open>
  What the event job reports. Without overflow checks the number of remaining rows ends at zero when the
  batch size divides the number of rows, and otherwise wraps below zero. With overflow checks the job panics in
  this case and the flag stays set, so that no later job starts. In either case rows that were
  re-encrypted still count as rows of the old key.
\<close>

theorem event_job_end:
  assumes "keeps_marked f" "distinct (map fst tbl)" "0 < batch" "batch < 2 ^ 64" "0 < length (marked_rows tbl)" "\<not> is_running s"
  shows "let T = length (marked_rows tbl); s' = snd (start_job checked f batch tbl n s) in
    (is_running s' \<longleftrightarrow> checked \<and> \<not> batch dvd T) \<and>
    (\<not> checked \<longrightarrow> rows_remaining s' = of_nat T - of_nat (batch * ((T + batch - 1) div batch))) \<and>
    has_old_key_rows (fst (start_job checked f batch tbl n s))"
proof -
  obtain tbl' r e where j: "run_reencrypt_job checked f batch tbl n = (tbl', r, e)"
      "job_result checked (length (marked_rows tbl)) batch 0 (of_nat (length (marked_rows tbl))) r e"
      "length (marked_rows tbl') = length (marked_rows tbl)"
    using job_run [OF assms(1-5), of checked n] by blast
  have "has_old_key_rows tbl'" using j(3) assms(5) by (simp add: has_old_key_rows_def marked_rows_def)
  then show ?thesis
    using j(1,2) assms(5,6)
    by (cases e) (auto simp: start_job_def job_result_def left_over_def Let_def split: if_splits)
qed

theorem event_job_end_witness:
  "let f = reencrypt_row sample_crypto (\<lambda>_. []) None [] []; tbl = [(1, JObject [(''encrypted'', JBool True)])];
       s' = snd (start_job True f 100 tbl 0 reencrypt_state_new) in is_running s'"
proof -
  let ?f = "reencrypt_row sample_crypto (\<lambda>_. []) None [] []" and ?t = "[(1, JObject [(''encrypted'', JBool True)])] :: json cells"
  have m: "length (marked_rows ?t) = 1"
    by (simp add: marked_rows_def marked_encrypted_def field_of_def obj_get_def)
  have d: "\<not> 100 dvd (1 :: nat)" by simp
  from event_job_end [OF reencrypt_row_keeps_marked [of sample_crypto "\<lambda>_. []" None "[]" "[]"],
    where tbl = ?t and batch = 100 and s = reencrypt_state_new and checked = True and n = 0]
  show ?thesis unfolding m using d by (simp add: reencrypt_state_new_def Let_def)
qed

text \<open>A job that ends without a panic has moved every row that either key opens to the new key.\<close>

definition sound_draws :: "(nat \<Rightarrow> string) \<Rightarrow> bool" where "sound_draws rnd \<longleftrightarrow> (\<forall>i. length (rnd i) = NONCE_LEN)"

definition sealable :: "crypto \<Rightarrow> json \<Rightarrow> bool" where "sealable C p \<longleftrightarrow> canonical p \<and> length (to_vec C p) \<le> 2 ^ 36"

definition ciphers_ok :: "crypto \<Rightarrow> key \<Rightarrow> key \<Rightarrow> bool" where
  "ciphers_ok C old_key new_key \<longleftrightarrow> crypto_laws C \<and> authentic C \<and> key32 old_key \<and> key32 new_key \<and> old_key \<noteq> new_key"

definition moved_to :: "crypto \<Rightarrow> key \<Rightarrow> key \<Rightarrow> json \<Rightarrow> json \<Rightarrow> bool" where
  "moved_to C old_key new_key d p \<longleftrightarrow> decrypt C new_key None d = Inr p \<and> (\<exists>e. decrypt C old_key None d = Inl e)"

lemma encrypt_moves:
  assumes "ciphers_ok C old_key new_key" "sealable C p" "length nonce = NONCE_LEN"
  shows "\<exists>d. snd (encrypt C new_key nonce g p) = Inr d \<and> moved_to C old_key new_key d p"
proof -
  note a = assms [unfolded ciphers_ok_def sealable_def]
  obtain d where d: "snd (encrypt C new_key nonce g p) = Inr d" "decrypt C new_key None d = Inr p"
    using event_data_opens [of C p new_key new_key None nonce g] a by auto
  moreover have "decrypt C old_key None d = Inl (aead_error C)"
    using event_data_opens [of C p new_key old_key None nonce g] a d(1) by auto
  ultimately show ?thesis by (auto simp: moved_to_def)
qed

lemma events_moved:
  assumes "ciphers_ok C old_key new_key" "sound_draws rnd" "distinct (map fst tbl)" "0 < batch" "batch < 2 ^ 64"
    and "\<not> checked \<or> batch dvd length (marked_rows tbl)"
    and "(u, v) \<in> set tbl" "marked_encrypted v" "decrypt C new_key (Some old_key) v = Inr p" "sealable C p"
  shows "\<exists>d. (u, d) \<in> set (fst (run_reencrypt_job checked (reencrypt_row C rnd g new_key old_key) batch tbl n)) \<and>
    moved_to C old_key new_key d p"
proof -
  let ?f = "reencrypt_row C rnd g new_key old_key"
  have in_m: "(u, v) \<in> set (marked_rows tbl)" using assms(7,8) by (simp add: marked_rows_def)
  then have pos: "0 < length (marked_rows tbl)" by (cases "marked_rows tbl") auto
  obtain tbl' r e where j: "run_reencrypt_job checked ?f batch tbl n = (tbl', r, e)"
      "job_result checked (length (marked_rows tbl)) batch 0 (of_nat (length (marked_rows tbl))) r e"
      "e \<noteq> Panicked \<longrightarrow> (\<forall>u c. map_of tbl u = Some c \<longrightarrow> (\<exists>d. map_of tbl' u = Some d \<and>
        (if u \<in> fst ` set (marked_rows tbl) then stepped ?f c d else d = c)))"
    using job_run [OF reencrypt_row_keeps_marked assms(3-5) pos, of checked C rnd g new_key old_key n] by blast
  have "e \<noteq> Panicked" using j(2) assms(6) pos by (auto simp: job_result_def split: if_splits)
  moreover have "u \<in> fst ` set (marked_rows tbl)" using in_m by force
  ultimately obtain d where d: "map_of tbl' u = Some d" "stepped ?f v d"
    using j(3) assms(3,7) by (metis map_of_is_SomeI)
  then obtain i where i: "d = (case fst (?f v i) of None \<Rightarrow> v | Some d \<Rightarrow> d)" by (auto simp: stepped_def)
  have "length (rnd i) = NONCE_LEN" using assms(2) by (simp add: sound_draws_def)
  from encrypt_moves [OF assms(1,10) this, of g] have "moved_to C old_key new_key d p"
    using i assms(9) by (auto simp: reencrypt_row_def)
  then show ?thesis using d(1) j(1) by (auto dest: map_of_SomeD)
qed

section \<open>Rotation finishes over any number of interruptions\<close>

text \<open>The text of a row for a rotation that may have been interrupted: the old key is tried first.\<close>

definition opens_to :: "crypto \<Rightarrow> key \<Rightarrow> key \<Rightarrow> json \<Rightarrow> json \<Rightarrow> bool" where
  "opens_to C old_key new_key d p \<longleftrightarrow> decrypt C old_key None d = Inr p \<or> moved_to C old_key new_key d p"

lemma rotate_row_moves:
  assumes "ciphers_ok C old_key new_key" "opens_to C old_key new_key d p" "sealable C p" "length nonce = NONCE_LEN"
  shows "\<exists>d'. rotate_row C old_key new_key nonce g u d = Inr d' \<and> moved_to C old_key new_key d' p"
proof -
  obtain d' where d': "snd (encrypt C new_key nonce g p) = Inr d'" "moved_to C old_key new_key d' p"
    using encrypt_moves [OF assms(1,3,4)] by blast
  have "(case decrypt C old_key None d of Inr v \<Rightarrow> Inr v
      | Inl e \<Rightarrow> (case decrypt C new_key None d of Inr v \<Rightarrow> Inr v | Inl _ \<Rightarrow> Inl (Decrypt_failed u e))) = Inr p"
    using assms(2) by (auto simp: opens_to_def moved_to_def)
  then show ?thesis using d' by (simp add: rotate_row_def)
qed

text \<open>
  The invariant of the table: its rows are the rows it started with, every credential opens to its text
  \<open>P\<close>, and the credentials up to the scan position have moved.
\<close>

definition rotation_inv :: "crypto \<Rightarrow> key \<Rightarrow> key \<Rightarrow> (nat \<Rightarrow> json) \<Rightarrow> nat option \<Rightarrow> json option cells \<Rightarrow> bool" where
  "rotation_inv C old_key new_key P after tbl \<longleftrightarrow> sorted_wrt (<) (map fst tbl) \<and>
     (\<forall>u d. (u, Some d) \<in> set tbl \<longrightarrow> sealable C (P u) \<and> opens_to C old_key new_key d (P u) \<and>
        (case after of None \<Rightarrow> True | Some a \<Rightarrow> u \<le> a \<longrightarrow> moved_to C old_key new_key d (P u)))"

lemma rotation_inv_restart: "rotation_inv C ko kn P after tbl \<Longrightarrow> rotation_inv C ko kn P None tbl"
  by (simp add: rotation_inv_def)

text \<open>The credentials of a table, by id: those after a position, and all.\<close>

definition waiting :: "nat option \<Rightarrow> json option cells \<Rightarrow> nat list" where
  "waiting after tbl = map fst (filter (\<lambda>(u, d). d \<noteq> None \<and> beyond after u) tbl)"

definition same_rows :: "json option cells \<Rightarrow> json option cells \<Rightarrow> bool" where
  "same_rows tbl tbl' \<longleftrightarrow> map fst tbl' = map fst tbl \<and> map (\<lambda>(u, d). d = None) tbl' = map (\<lambda>(u, d). d = None) tbl"

lemma same_rows_refl: "same_rows t t" and same_rows_trans: "same_rows t t' \<Longrightarrow> same_rows t' t'' \<Longrightarrow> same_rows t t''"
  by (simp_all add: same_rows_def)

lemma set_cell_same_rows: "(u, Some c) \<in> set tbl \<Longrightarrow> distinct (map fst tbl) \<Longrightarrow> same_rows tbl (set_cell u (Some d) tbl)"
  unfolding same_rows_def set_cell_def by (auto simp: comp_def) (metis Pair_inject eq_key_imp_eq_value option.distinct(1))

lemma same_rows_waiting: "same_rows t t' \<Longrightarrow> waiting after t' = waiting after t"
proof -
  assume a: "same_rows t t'"
  then have "list_all2 (\<lambda>x y. fst x = fst y \<and> (snd x = None \<longleftrightarrow> snd y = None)) t t'"
    unfolding same_rows_def by (auto simp: list_all2_conv_all_nth list_eq_iff_nth_eq case_prod_unfold)
  then show ?thesis
    by (induction rule: list_all2_induct) (auto simp: waiting_def case_prod_unfold)
qed

lemma in_waiting: "u \<in> set (waiting after tbl) \<longleftrightarrow> (\<exists>d. (u, Some d) \<in> set tbl) \<and> beyond after u"
  by (auto simp: waiting_def image_iff)

lemma rotate_batch_moves:
  assumes f: "\<And>n u d p. opens_to C ko kn d p \<Longrightarrow> sealable C p \<Longrightarrow> \<exists>d'. f n u d = Inr d' \<and> moved_to C ko kn d' p"
  shows "distinct us \<Longrightarrow> distinct (map fst tbl) \<Longrightarrow> (\<And>u. u \<in> set us \<Longrightarrow> \<exists>d. (u, Some d) \<in> set tbl \<and> opens_to C ko kn d (P u) \<and> sealable C (P u)) \<Longrightarrow>
   \<exists>tbl' n' k'. rotate_batch f us tbl n k = Inr (tbl', n', k') \<and> same_rows tbl tbl' \<and>
     (\<forall>u d. (u, Some d) \<in> set tbl' \<longrightarrow> (if u \<in> set us then moved_to C ko kn d (P u) else (u, Some d) \<in> set tbl))"
proof (induction us arbitrary: tbl n k)
  case Nil
  then show ?case by (simp add: same_rows_refl)
next
  case (Cons w us)
  obtain d where d: "(w, Some d) \<in> set tbl" "opens_to C ko kn d (P w)" "sealable C (P w)"
    using Cons.prems(3) by fastforce
  obtain d' where d': "f n w d = Inr d'" "moved_to C ko kn d' (P w)" using f [OF d(2,3)] by blast
  have lookup: "map_of tbl w = Some (Some d)" using d(1) Cons.prems(2) by simp
  let ?t = "set_cell w (Some d') tbl"
  have others: "(u, e) \<in> set ?t \<longleftrightarrow> (u, e) \<in> set tbl" if "u \<noteq> w" for u e
    using that by (auto simp: set_cell_def image_iff)
  have w: "e = Some d'" if "(w, e) \<in> set ?t" for e using that by (auto simp: set_cell_def split: if_splits)
  have "\<exists>d. (u, Some d) \<in> set ?t \<and> opens_to C ko kn d (P u) \<and> sealable C (P u)" if "u \<in> set us" for u
    using Cons.prems(1,3) that others by (metis distinct.simps(2) list.set_intros(2))
  then obtain tbl' n' k' where ih: "rotate_batch f us ?t (n + 1) (k + 1) = Inr (tbl', n', k')" "same_rows ?t tbl'"
      "\<forall>u d. (u, Some d) \<in> set tbl' \<longrightarrow> (if u \<in> set us then moved_to C ko kn d (P u) else (u, Some d) \<in> set ?t)"
    using Cons.IH [of ?t "n + 1" "k + 1"] Cons.prems(1,2) by auto
  have "rotate_batch f (w # us) tbl n k = Inr (tbl', n', k')" using lookup d'(1) ih(1) by simp
  moreover have "same_rows tbl tbl'"
    using same_rows_trans [OF set_cell_same_rows [OF d(1) Cons.prems(2)] ih(2)] .
  moreover have "if u \<in> set (w # us) then moved_to C ko kn e (P u) else (u, Some e) \<in> set tbl" if "(u, Some e) \<in> set tbl'" for u e
    using ih(3) [rule_format, OF that] others [of u "Some e"] w [of "Some e"] d'(2) Cons.prems(1) by (cases "u = w") (auto split: if_splits)
  ultimately show ?case by blast
qed

definition resume_at :: "credential_db \<Rightarrow> nat option" where "resume_at db = fst (start_point db)"

lemma resume_at_simps [simp]:
  "resume_at (db\<lparr>credentials := t, checkpoint := Some cp\<rparr>) = (if finished cp then None else last_processed_id cp)"
  "resume_at (db\<lparr>checkpoint := Some cp\<rparr>) = (if finished cp then None else last_processed_id cp)"
  by (auto simp: resume_at_def start_point_def Let_def)

lemma rotation_loop_inv:
  assumes f: "\<And>n u d p. opens_to C ko kn d p \<Longrightarrow> sealable C p \<Longrightarrow> \<exists>d'. f n u d = Inr d' \<and> moved_to C ko kn d' p"
  shows "rotation_loop f life after tot com rot n (db, s) = ((db', s'), e) \<Longrightarrow>
    rotation_inv C ko kn P after (credentials db) \<Longrightarrow> rotation_inv C ko kn P (resume_at db) (credentials db) \<Longrightarrow>
    rotation_inv C ko kn P (resume_at db') (credentials db') \<and> same_rows (credentials db) (credentials db') \<and>
    (case e of Failed x \<Rightarrow> False | Died \<Rightarrow> life \<le> length (waiting after (credentials db))
     | Rotated k \<Rightarrow> (\<forall>u d. (u, Some d) \<in> set (credentials db') \<longrightarrow> moved_to C ko kn d (P u)))"
proof (induction life arbitrary: after com rot n db s)
  case 0
  then show ?case by (auto simp: same_rows_refl)
next
  case (Suc life)
  let ?t = "credentials db" and ?ids = "batch_ids after (credentials db)"
  have ids: "?ids = take ROTATION_BATCH_SIZE (waiting after ?t)" by (simp add: batch_ids_def waiting_def)
  have srt: "sorted_wrt (<) (waiting after ?t)"
    using Suc.prems(2) by (auto simp: rotation_inv_def waiting_def sorted_wrt_map sorted_wrt_filter)
  show ?case
  proof (cases "?ids = []")
    case True
    then have w: "waiting after ?t = []" using ids by (simp add: ROTATION_BATCH_SIZE_def)
    have r: "db' = db\<lparr>checkpoint := Some \<lparr>last_processed_id = after, total_rows = tot, completed_rows = com, finished = True\<rparr>\<rparr>"
        "e = Rotated rot"
      using Suc.prems(1) True by simp_all
    have "moved_to C ko kn d (P u)" if t: "(u, Some d) \<in> set ?t" for u d
    proof -
      have "u \<notin> set (waiting after ?t)" using w by simp
      then have "\<not> beyond after u" using t unfolding in_waiting by blast
      then show ?thesis using Suc.prems(2) t by (auto simp: rotation_inv_def beyond_def split: option.splits)
    qed
    then show ?thesis using r Suc.prems(2) by (auto simp: same_rows_refl dest: rotation_inv_restart)
  next
    case False
    have sub: "set ?ids \<subseteq> set (waiting after ?t)" unfolding ids by (rule set_take_subset)
    have inv: "rotation_inv C ko kn P after ?t" by (rule Suc.prems(2))
    have dist: "distinct ?ids" "distinct (map fst ?t)"
      using srt inv unfolding ids by (auto simp: strict_sorted_iff rotation_inv_def)
    have "\<exists>d. (u, Some d) \<in> set ?t \<and> opens_to C ko kn d (P u) \<and> sealable C (P u)" if "u \<in> set ?ids" for u
      using that sub inv unfolding rotation_inv_def by (meson in_waiting subsetD)
    from rotate_batch_moves [where f = f and C = C and ko = ko and kn = kn and P = P and n = n and k = 0, OF f dist this] obtain t n1 k where
      b: "rotate_batch f ?ids ?t n 0 = Inr (t, n1, k)" "same_rows ?t t"
        "\<forall>u d. (u, Some d) \<in> set t \<longrightarrow> (if u \<in> set ?ids then moved_to C ko kn d (P u) else (u, Some d) \<in> set ?t)"
      by blast
    define L where "L = last ?ids"
    let ?db = "db\<lparr>credentials := t, checkpoint := Some \<lparr>last_processed_id = Some L, total_rows = tot,
                 completed_rows = com + k, finished = tot \<le> com + k\<rparr>\<rparr>"
    have rec: "rotation_loop f life (Some L) tot (com + k) (rot + nat k) n1 (?db, show_progress (com + k) tot s) = ((db', s'), e)"
      using Suc.prems(1) False b(1) by (simp add: L_def Let_def)
    have upto: "u \<in> set ?ids" if "u \<in> set (waiting after ?t)" "u \<le> L" for u
    proof (rule ccontr)
      assume n: "u \<notin> set ?ids"
      then have "u \<in> set (drop ROTATION_BATCH_SIZE (waiting after ?t))"
        using that(1) unfolding ids by (metis Un_iff append_take_drop_id set_append)
      moreover have "L \<in> set (take ROTATION_BATCH_SIZE (waiting after ?t))"
        using last_in_set [OF False] unfolding L_def ids .
      moreover have "sorted_wrt (<) (take ROTATION_BATCH_SIZE (waiting after ?t) @ drop ROTATION_BATCH_SIZE (waiting after ?t))"
        using srt by simp
      ultimately have "L < u" unfolding sorted_wrt_append by blast
      then show False using that(2) by simp
    qed
    have inv': "rotation_inv C ko kn P (Some L) t"
      unfolding rotation_inv_def
    proof (intro conjI allI impI)
      show "sorted_wrt (<) (map fst t)" using b(2) inv by (simp add: rotation_inv_def same_rows_def)
      fix u d assume m: "(u, Some d) \<in> set t"
      note bm = b(3) [rule_format, OF m]
      have "u \<in> set (waiting None t)" using m by (auto simp: in_waiting beyond_def)
      then obtain d0 where d0: "(u, Some d0) \<in> set ?t"
        using same_rows_waiting [OF b(2), of None] by (auto simp: in_waiting beyond_def)
      then show "sealable C (P u)" using inv by (auto simp: rotation_inv_def)
      show "opens_to C ko kn d (P u)"
        using bm inv by (auto simp: rotation_inv_def opens_to_def split: if_splits)
      have "moved_to C ko kn d (P u)" if "u \<le> L"
      proof (cases "u \<in> set ?ids")
        case True
        then show ?thesis using bm by simp
      next
        case False
        then have t: "(u, Some d) \<in> set ?t" using bm by simp
        then have "u \<notin> set (waiting after ?t)" using False upto that by blast
        then have "\<not> beyond after u" using t unfolding in_waiting by blast
        then show ?thesis using inv t by (auto simp: rotation_inv_def beyond_def split: option.splits)
      qed
      then show "case Some L of None \<Rightarrow> True | Some a \<Rightarrow> u \<le> a \<longrightarrow> moved_to C ko kn d (P u)" by simp
    qed
    have "rotation_inv C ko kn P (resume_at ?db) (credentials ?db)"
      using inv' rotation_inv_restart [OF inv'] by (simp split: if_splits)
    with Suc.IH [OF rec] inv' have ih: "rotation_inv C ko kn P (resume_at db') (credentials db') \<and> same_rows t (credentials db') \<and>
      (case e of Failed x \<Rightarrow> False | Died \<Rightarrow> life \<le> length (waiting (Some L) t)
       | Rotated k \<Rightarrow> (\<forall>u d. (u, Some d) \<in> set (credentials db') \<longrightarrow> moved_to C ko kn d (P u)))"
      by (cases e) simp_all
    have "length (waiting (Some L) t) < length (waiting after ?t)"
    proof -
      have "L \<in> set (waiting after ?t)" using last_in_set [OF False] sub unfolding L_def by blast
      then have aL: "beyond after L" by (simp add: in_waiting)
      have "waiting (Some L) ?t = filter (\<lambda>u. L < u) (waiting after ?t)"
        unfolding waiting_def filter_map filter_filter comp_def
        by (rule arg_cong [where f = "map fst"], rule filter_cong) (use aL in \<open>auto simp: beyond_def split: option.splits\<close>)
      also have "length \<dots> < length (waiting after ?t)"
        using \<open>L \<in> set (waiting after ?t)\<close> by (intro length_filter_less) auto
      finally show ?thesis using same_rows_waiting [OF b(2)] by simp
    qed
    then show ?thesis using ih same_rows_trans [OF b(2)] by (auto split: run_end.splits)
  qed
qed

definition interrupted_runs :: "row_step \<Rightarrow> (nat \<times> nat) list \<Rightarrow> credential_db \<times> ReencryptState \<Rightarrow> credential_db \<times> ReencryptState" where
  "interrupted_runs f lives st = foldl (\<lambda>st (life, n). fst (rotate_credentials f life n st)) st lives"

definition all_moved :: "crypto \<Rightarrow> key \<Rightarrow> key \<Rightarrow> (nat \<Rightarrow> json) \<Rightarrow> json option cells \<Rightarrow> bool" where
  "all_moved C ko kn P tbl \<longleftrightarrow> (\<forall>u d. (u, Some d) \<in> set tbl \<longrightarrow> moved_to C ko kn d (P u))"

lemma rotate_credentials_run:
  assumes "ciphers_ok C ko kn" "sound_draws rnd" "\<not> is_running (snd st)"
    and "rotation_inv C ko kn P (resume_at (fst st)) (credentials (fst st))"
  shows "\<exists>db' s' e. rotate_credentials (\<lambda>n u d. rotate_row C ko kn (rnd n) g u d) life n st = ((db', s'), e) \<and> \<not> is_running s' \<and>
    rotation_inv C ko kn P (resume_at db') (credentials db') \<and> same_rows (credentials (fst st)) (credentials db') \<and>
    (case e of Failed x \<Rightarrow> False | Died \<Rightarrow> life \<le> length (credentials (fst st)) | Rotated k \<Rightarrow> all_moved C ko kn P (credentials db'))"
proof -
  let ?f = "\<lambda>n u d. rotate_row C ko kn (rnd n) g u d"
  obtain db s where st: "st = (db, s)" by (cases st)
  obtain after tot com where sp: "start_point db = (after, tot, com)" by (cases "start_point db")
  then have after: "after = resume_at db" by (simp add: resume_at_def)
  obtain db' s' e where l: "rotation_loop ?f life after tot com 0 n (db, show_progress com tot (s\<lparr>is_running := True, rows_total := word_of_int tot\<rparr>)) = ((db', s'), e)"
    by (cases "rotation_loop ?f life after tot com 0 n (db, show_progress com tot (s\<lparr>is_running := True, rows_total := word_of_int tot\<rparr>))") auto
  have f: "\<exists>d'. ?f n u d = Inr d' \<and> moved_to C ko kn d' p" if "opens_to C ko kn d p" "sealable C p" for n u d p
    using rotate_row_moves [OF assms(1) that] assms(2) by (simp add: sound_draws_def)
  have inv: "rotation_inv C ko kn P after (credentials db)" using assms(4) st after by simp
  note res = rotation_loop_inv [OF f l inv inv [unfolded after]]
  have "length (waiting after (credentials db)) \<le> length (credentials db)" by (simp add: waiting_def)
  then show ?thesis
    using res l assms(3) st sp
    by (cases e) (auto simp: rotate_credentials_def rotate_credentials_inner_def all_moved_def reencrypt_state_new_def)
qed

text \<open>
  C29. A rotation that is interrupted any number of times, each time after any number of committed batches, and then
  runs to its end leaves every credential sealed with the new key, with the text it had, and none that the old
  key opens; the last run ends when it may commit one batch more than there are rows.
\<close>

theorem rotation_resumes:
  assumes "ciphers_ok C ko kn" "sound_draws rnd" "\<not> is_running s" "checkpoint db = None"
    and "sorted_wrt (<) (map fst (credentials db))"
    and "\<And>u d. (u, Some d) \<in> set (credentials db) \<Longrightarrow> sealable C (P u) \<and> decrypt C ko None d = Inr (P u)"
    and "length (credentials db) < life"
  shows "let f = (\<lambda>n u d. rotate_row C ko kn (rnd n) g u d);
      ((db', s'), e) = rotate_credentials f life n (interrupted_runs f lives (db, s)) in
    (\<exists>k. e = Rotated k) \<and> same_rows (credentials db) (credentials db') \<and>
    all_moved C ko kn P (credentials db') \<and> verify_old_key_rejected C ko (credentials db')"
proof -
  let ?f = "\<lambda>n u d. rotate_row C ko kn (rnd n) g u d"
  define ok where "ok = (\<lambda>st :: credential_db \<times> ReencryptState. \<not> is_running (snd st) \<and> rotation_inv C ko kn P (resume_at (fst st)) (credentials (fst st)) \<and>
    same_rows (credentials db) (credentials (fst st)))"
  have start: "ok (db, s)"
    using assms(3-6) by (auto simp: ok_def rotation_inv_def resume_at_def start_point_def Let_def same_rows_refl opens_to_def)
  have step: "ok (fst (rotate_credentials ?f l m st))" if "ok st" for l m st
    using rotate_credentials_run [OF assms(1,2), of st P g l m] that same_rows_trans unfolding ok_def by fastforce
  have "ok (interrupted_runs ?f lives (db, s))"
    unfolding interrupted_runs_def using start
  proof (induction lives rule: rev_induct)
    case (snoc x lives)
    then show ?case using step by (cases x) simp
  qed simp
  moreover define st where "st = interrupted_runs ?f lives (db, s)"
  ultimately have st: "ok st" by simp
  then have len: "length (credentials (fst st)) = length (credentials db)"
    unfolding ok_def same_rows_def by (metis length_map)
  obtain db' s' e where r: "rotate_credentials ?f life n st = ((db', s'), e)"
      "same_rows (credentials (fst st)) (credentials db')"
      "case e of Failed x \<Rightarrow> False | Died \<Rightarrow> life \<le> length (credentials (fst st)) | Rotated k \<Rightarrow> all_moved C ko kn P (credentials db')"
    using rotate_credentials_run [OF assms(1,2), of st P g life n] st unfolding ok_def by blast
  then obtain k where k: "e = Rotated k" "all_moved C ko kn P (credentials db')"
    using assms(7) len by (cases e) auto
  moreover have "verify_old_key_rejected C ko (credentials db')"
    using k(2) by (force simp: verify_old_key_rejected_def all_moved_def moved_to_def list_all_iff split: option.split)
  moreover have "same_rows (credentials db) (credentials db')"
    using st r(2) same_rows_trans unfolding ok_def by blast
  ultimately show ?thesis using r(1) unfolding st_def by (simp add: Let_def)
qed

theorem rotation_resumes_witness:
  "let f = (\<lambda>n u d. rotate_row sample_crypto (replicate 32 (CHR ''o'')) (replicate 32 (CHR ''n'')) (replicate 12 (CHR 0x00)) None u d);
      db = \<lparr>credentials = [(1, Some JNull), (2, None)], checkpoint = None\<rparr>;
      ((db', s'), e) = rotate_credentials f 3 7 (interrupted_runs f [(0, 0), (1, 5)] (db, reencrypt_state_new)) in
    (\<exists>k. e = Rotated k) \<and> verify_old_key_rejected sample_crypto (replicate 32 (CHR ''o'')) (credentials db')"
proof -
  let ?ko = "replicate 32 (CHR ''o'')" and ?kn = "replicate 32 (CHR ''n'')" and ?rnd = "\<lambda>i :: nat. replicate 12 (CHR 0x00) :: string"
  let ?db = "\<lparr>credentials = [(1, Some JNull), (2, None)], checkpoint = None\<rparr> :: credential_db"
  have c: "ciphers_ok sample_crypto ?ko ?kn"
    by (simp add: ciphers_ok_def sample_crypto_laws key32_def numeral_eq_Suc)
  have r: "sound_draws ?rnd" by (simp add: sound_draws_def NONCE_LEN_def)
  have "sealable sample_crypto JNull" by (simp add: sealable_def sample_crypto_def)
  moreover have "decrypt sample_crypto ?ko None JNull = Inr JNull" by (simp add: decrypt_def field_of_def)
  ultimately show ?thesis
    using rotation_resumes [OF c r, where s = reencrypt_state_new and db = ?db and life = 3 and P = "\<lambda>_. JNull" and g = None
        and n = 7 and lives = "[(0, 0), (1, 5)]"]
    by (auto simp: reencrypt_state_new_def Let_def split: prod.splits)
qed

text \<open>
  What blocks it: a credential that neither key opens makes every run that reaches its batch fail, and the
  batch is rolled back, so that no later run gets behind it.
\<close>

lemma rotate_batch_fails:
  assumes "w \<in> set us" "map_of tbl w = Some (Some d)" "\<And>n d'. f n w d \<noteq> Inr d'" "distinct us"
  shows "\<exists>e. rotate_batch f us tbl n k = Inl e"
  using assms
proof (induction us arbitrary: tbl n k)
  case (Cons u us)
  show ?case
  proof (cases "u = w")
    case True
    then show ?thesis using Cons.prems(2,3) by (cases "f n w d") auto
  next
    case False
    then have w: "w \<in> set us" using Cons.prems(1) by simp
    have t: "map_of (set_cell u x tbl) w = Some (Some d)" for x using False Cons.prems(2) by (simp add: map_of_set_cell)
    have d: "distinct us" using Cons.prems(4) by simp
    show ?thesis
      using Cons.IH [OF w Cons.prems(2,3) d] Cons.IH [OF w t Cons.prems(3) d]
      by (auto split: option.split sum.split)
  qed
qed simp

theorem rotation_blocked:
  assumes "w \<in> set (batch_ids (resume_at db) (credentials db))" "map_of (credentials db) w = Some (Some d)"
    and "sorted_wrt (<) (map fst (credentials db))"
    and "decrypt C ko None d = Inl x" "decrypt C kn None d = Inl y" "\<not> is_running s"
  shows "\<exists>e s'. rotate_credentials (\<lambda>n u d. rotate_row C ko kn (rnd n) g u d) (Suc life) n (db, s) = ((db, s'), Failed e) \<and> \<not> is_running s'"
proof -
  let ?f = "\<lambda>n u d. rotate_row C ko kn (rnd n) g u d"
  obtain after tot com where sp: "start_point db = (after, tot, com)" by (cases "start_point db")
  then have after: "after = resume_at db" by (simp add: resume_at_def)
  have "distinct (batch_ids after (credentials db))"
    using assms(3) by (auto simp: batch_ids_def strict_sorted_iff intro!: distinct_take distinct_map_filter)
  moreover have "?f m w d \<noteq> Inr d'" for m d' using assms(4,5) by (simp add: rotate_row_def)
  ultimately obtain e where e: "rotate_batch ?f (batch_ids after (credentials db)) (credentials db) n 0 = Inl e"
    using rotate_batch_fails [of w "batch_ids after (credentials db)" "credentials db" d ?f n 0] assms(1,2) after by blast
  moreover have "batch_ids after (credentials db) \<noteq> []" using assms(1) after by auto
  ultimately show ?thesis using assms(6) sp
    by (auto simp: rotate_credentials_def rotate_credentials_inner_def Let_def show_progress_def)
qed

end
