(* ===== verification/Webhook_Signing.thy ===== *)
theory Webhook_Signing
  imports Keyset_Paging
begin

text \<open>
  Model of request signing: the sender's key manager (\<open>src/webhook_signing.rs\<close>), the receiver's check
  (\<open>src/webhook_verification.rs\<close>) and the key normalisation of the MAC (\<open>src/hmac_util.rs\<close>). The block function
  of HMAC, SHA-256 and the hexadecimal printer are parameters. The lemmas show which signatures are accepted
  after which changes of the keys, what a signature binds, and that the two checks do not fit together.
\<close>

section \<open>The MAC\<close>

record mac_crate =
  sha256 :: "string \<Rightarrow> string"
  hmac_block :: "string \<Rightarrow> string \<Rightarrow> string"
  hex :: "string \<Rightarrow> string"

definition SHA256_BLOCK_SIZE :: nat where "SHA256_BLOCK_SIZE = 64"

definition pad_block :: "string \<Rightarrow> string" where
  "pad_block k = k @ replicate (SHA256_BLOCK_SIZE - length k) (CHR 0x00)"

definition hmac_sha256 :: "mac_crate \<Rightarrow> string \<Rightarrow> string \<Rightarrow> string" where
  "hmac_sha256 M k msg = hmac_block M (pad_block (if SHA256_BLOCK_SIZE < length k then sha256 M k else k)) msg"

section \<open>The key manager\<close>

datatype SigningError = UnknownKeyId string | NoActiveKey | InvalidFormat | Mismatch | TimestampSkew

record SigningKey =
  sk_id :: string
  sk_secret :: string
  sk_created_at :: u64
  sk_active :: bool

definition signing_key_new :: "u64 \<Rightarrow> string \<Rightarrow> string \<Rightarrow> SigningKey" where
  "signing_key_new now i secret = \<lparr>sk_id = i, sk_secret = secret, sk_created_at = now, sk_active = True\<rparr>"

type_synonym key_manager = "SigningKey list"

definition add_signing_key :: "SigningKey \<Rightarrow> key_manager \<Rightarrow> key_manager" where
  "add_signing_key k ks = filter (\<lambda>x. sk_id x \<noteq> sk_id k) ks @ [k]"

definition rotate_signing_key :: "SigningKey \<Rightarrow> key_manager \<Rightarrow> key_manager" where
  "rotate_signing_key k ks = filter (\<lambda>x. sk_id x \<noteq> sk_id k) (map (\<lambda>x. x\<lparr>sk_active := False\<rparr>) ks) @ [k]"

definition remove_signing_key :: "string \<Rightarrow> key_manager \<Rightarrow> key_manager" where
  "remove_signing_key i ks = filter (\<lambda>x. sk_id x \<noteq> i) ks"

definition active_key :: "key_manager \<Rightarrow> SigningKey option" where "active_key ks = List.find sk_active (rev ks)"

definition find_signing_key :: "string \<Rightarrow> key_manager \<Rightarrow> SigningKey option" where
  "find_signing_key i ks = List.find (\<lambda>k. sk_id k = i) ks"

record SignedRequest =
  signature_header :: string
  sr_key_id :: string
  sr_timestamp :: u64
  algorithm :: string

definition compute_signature :: "mac_crate \<Rightarrow> string \<Rightarrow> u64 \<Rightarrow> string \<Rightarrow> string" where
  "compute_signature M secret ts payload = hex M (hmac_sha256 M secret (show_nat (unat ts) @ ''.'' @ payload))"

definition sign_payload :: "mac_crate \<Rightarrow> u64 \<Rightarrow> key_manager \<Rightarrow> string \<Rightarrow> SigningError + SignedRequest" where
  "sign_payload M now ks payload = (case active_key ks of None \<Rightarrow> Inl NoActiveKey
     | Some k \<Rightarrow> Inr \<lparr>signature_header = ''sha256='' @ compute_signature M (sk_secret k) now payload, sr_key_id = sk_id k,
         sr_timestamp = now, algorithm = ''hmac-sha256''\<rparr>)"

definition signed_headers :: "SignedRequest \<Rightarrow> (string \<times> string) list" where
  "signed_headers r = [(''X-Signature-256'', signature_header r), (''X-Signature-Key-Id'', sr_key_id r),
     (''X-Signature-Timestamp'', show_nat (unat (sr_timestamp r))), (''X-Signature-Algorithm'', algorithm r)]"

definition abs_diff :: "u64 \<Rightarrow> u64 \<Rightarrow> u64" where "abs_diff a b = (if a < b then b - a else a - b)"

definition verify_signed ::
  "mac_crate \<Rightarrow> u64 \<Rightarrow> key_manager \<Rightarrow> string \<Rightarrow> u64 \<Rightarrow> string \<Rightarrow> string \<Rightarrow> u64 \<Rightarrow> SigningError + unit" where
  "verify_signed M now ks i ts payload provided max_skew =
     (case find_signing_key i ks of None \<Rightarrow> Inl (UnknownKeyId i)
      | Some k \<Rightarrow>
        if max_skew < abs_diff now ts then Inl TimestampSkew
        else (case split_once (CHR ''='') provided of None \<Rightarrow> Inl InvalidFormat
          | Some (algo, digest) \<Rightarrow>
             if algo \<noteq> ''sha256'' then Inl InvalidFormat
             else if compute_signature M (sk_secret k) ts payload = digest then Inr () else Inl Mismatch))"

section \<open>The receiver\<close>

definition verify_signature :: "mac_crate \<Rightarrow> string \<Rightarrow> string \<Rightarrow> string \<Rightarrow> string + unit" where
  "verify_signature M header_value secret body =
     (case split_once (CHR ''='') header_value of None \<Rightarrow> Inl ''Invalid signature header format''
      | Some (algo, digest) \<Rightarrow>
         if algo \<noteq> ''sha256'' then Inl ''Unsupported signature algorithm''
         else if digest = hex M (hmac_sha256 M secret body) then Inr ()
         else Inl ''Signature verification failed: digest mismatch'')"

fun any_secret :: "mac_crate \<Rightarrow> string \<Rightarrow> string \<Rightarrow> string list \<Rightarrow> bool" where
  "any_secret M header_value body [] = False"
| "any_secret M header_value body (s # ss) =
     (case verify_signature M header_value s body of Inr _ \<Rightarrow> True | Inl _ \<Rightarrow> any_secret M header_value body ss)"

definition verify_signature_with_rotation :: "mac_crate \<Rightarrow> string \<Rightarrow> string \<Rightarrow> string list \<Rightarrow> string list \<Rightarrow> string + unit" where
  "verify_signature_with_rotation M header_value body primary fallback =
     (if any_secret M header_value body primary then Inr ()
      else if any_secret M header_value body fallback then Inr ()
      else Inl ''Signature verification failed: no matching key found'')"

section \<open>Which signatures are accepted\<close>

lemma split_header [simp]: "split_once (CHR ''='') (''sha256='' @ d) = Some (''sha256'', d)"
  by simp

lemma header_eq: "p = ''sha256='' @ d \<longleftrightarrow> split_once (CHR ''='') p = Some (''sha256'', d)"
  by (simp add: split_once_Some)

lemma find_key_Some: "find_signing_key i ks = Some k \<Longrightarrow> k \<in> set ks \<and> sk_id k = i"
  by (auto simp: find_signing_key_def find_Some_iff)

text \<open>The check, in one sentence: a known key, a fresh timestamp, and exactly the header the signer would send.\<close>

lemma verify_signed_iff:
  "verify_signed M now ks i ts payload provided max_skew = Inr () \<longleftrightarrow>
     (\<exists>k. find_signing_key i ks = Some k \<and> abs_diff now ts \<le> max_skew \<and>
        provided = ''sha256='' @ compute_signature M (sk_secret k) ts payload)"
proof (cases "find_signing_key i ks")
  case (Some k)
  then show ?thesis unfolding header_eq
    by (auto simp: verify_signed_def not_less split: option.split prod.split)
qed (simp add: verify_signed_def)

text \<open>The changes of the key set that a client can make.\<close>

datatype key_op = Add SigningKey | Rotate SigningKey | Remove string

fun run_op :: "key_op \<Rightarrow> key_manager \<Rightarrow> key_manager" where
  "run_op (Add k) ks = add_signing_key k ks"
| "run_op (Rotate k) ks = rotate_signing_key k ks"
| "run_op (Remove i) ks = remove_signing_key i ks"

fun op_id :: "key_op \<Rightarrow> string" where
  "op_id (Add k) = sk_id k"
| "op_id (Rotate k) = sk_id k"
| "op_id (Remove i) = i"

lemma find_filter_other: "sk_id k \<noteq> i \<or> True \<Longrightarrow> i \<noteq> j \<Longrightarrow> find_signing_key i (filter (\<lambda>x. sk_id x \<noteq> j) ks) = find_signing_key i ks"
  by (induction ks) (auto simp: find_signing_key_def)

lemma find_append: "List.find P (xs @ ys) = (case List.find P xs of None \<Rightarrow> List.find P ys | Some x \<Rightarrow> Some x)"
  by (induction xs) auto

lemma find_deactivated: "find_signing_key i (map (\<lambda>x. x\<lparr>sk_active := False\<rparr>) ks) = map_option (\<lambda>x. x\<lparr>sk_active := False\<rparr>) (find_signing_key i ks)"
  by (induction ks) (auto simp: find_signing_key_def)

lemma find_other_op: "op_id p \<noteq> i \<Longrightarrow> map_option sk_secret (find_signing_key i (run_op p ks)) = map_option sk_secret (find_signing_key i ks)"
  by (cases p) (auto simp: add_signing_key_def rotate_signing_key_def remove_signing_key_def find_signing_key_def find_append
      find_filter_other [unfolded find_signing_key_def] find_deactivated [unfolded find_signing_key_def]
      option.map_comp comp_def split: option.split)

definition keys_distinct :: "key_manager \<Rightarrow> bool" where "keys_distinct ks \<longleftrightarrow> distinct (map sk_id ks)"

lemma run_op_distinct: "keys_distinct ks \<Longrightarrow> keys_distinct (run_op p ks)"
  by (cases p) (auto simp: keys_distinct_def add_signing_key_def rotate_signing_key_def remove_signing_key_def comp_def
      distinct_map_filter filter_map)

lemma active_found: "keys_distinct ks \<Longrightarrow> active_key ks = Some k \<Longrightarrow> find_signing_key (sk_id k) ks = Some k"
proof -
  assume d: "keys_distinct ks" and "active_key ks = Some k"
  then have k: "k \<in> set ks" by (metis active_key_def find_Some_iff nth_mem set_rev)
  show ?thesis using d k
    by (induction ks) (auto simp: find_signing_key_def keys_distinct_def)
qed

text \<open>
  C32. A signed request stays valid within the skew, over any changes of the key set that do not touch the key it
  was signed with: in particular over rotations to other keys.
\<close>

theorem signed_request_accepted:
  assumes "keys_distinct ks" "sign_payload M now ks payload = Inr r" "list_all (\<lambda>p. op_id p \<noteq> sr_key_id r) ops"
    and "abs_diff later (sr_timestamp r) \<le> max_skew"
  shows "verify_signed M later (fold run_op ops ks) (sr_key_id r) (sr_timestamp r) payload (signature_header r) max_skew = Inr ()"
proof -
  obtain k where k: "active_key ks = Some k" "sr_key_id r = sk_id k" "sr_timestamp r = now"
      "signature_header r = ''sha256='' @ compute_signature M (sk_secret k) now payload"
    using assms(2) by (auto simp: sign_payload_def split: option.splits)
  have "map_option sk_secret (find_signing_key (sk_id k) (fold run_op ops ks)) = map_option sk_secret (find_signing_key (sk_id k) ks)"
    using assms(3) unfolding k(2)
  proof (induction ops arbitrary: ks)
    case (Cons p ops)
    then show ?case using find_other_op [of p "sk_id k" ks] by simp
  qed simp
  then obtain k' where "find_signing_key (sk_id k) (fold run_op ops ks) = Some k'" "sk_secret k' = sk_secret k"
    using active_found [OF assms(1) k(1)] by auto
  then show ?thesis using assms(4) k by (simp add: verify_signed_iff)
qed

text \<open>After a rotation the new key signs, and only it is active.\<close>

lemma rotate_active: "sk_active k \<Longrightarrow> active_key (rotate_signing_key k ks) = Some k"
  by (simp add: active_key_def rotate_signing_key_def)

theorem rotation_leaves_one_active:
  "filter sk_active (rotate_signing_key k ks) = (if sk_active k then [k] else []) \<and>
   (active_key (remove_signing_key (sk_id k) (rotate_signing_key k ks)) = None)"
proof -
  have none: "filter sk_active (filter P (map (\<lambda>x. x\<lparr>sk_active := False\<rparr>) ks)) = []" for P
    by (induction ks) auto
  have "active_key (remove_signing_key (sk_id k) (rotate_signing_key k ks)) = None"
    by (auto simp: active_key_def remove_signing_key_def rotate_signing_key_def find_None_iff)
  then show ?thesis using none by (simp add: rotate_signing_key_def)
qed

text \<open>
  A signature binds the timestamp and the payload together: what is signed determines both, so that a
  signature that is accepted for anything else is a collision of the MAC.
\<close>

lemma dot_not_in_show_nat: "CHR ''.'' \<notin> set (show_nat n)"
  by (auto dest!: show_nat_digits simp: is_ascii_digit_def)

lemma signed_text_inject: "show_nat a @ ''.'' @ p = show_nat b @ ''.'' @ q \<Longrightarrow> a = b \<and> p = q"
proof -
  assume e: "show_nat a @ ''.'' @ p = show_nat b @ ''.'' @ q"
  have s: "split_once (CHR ''.'') (show_nat n @ ''.'' @ r) = Some (show_nat n, r)" for n r
    using dot_not_in_show_nat [of n] by (rule split_once_app)
  have "show_nat a = show_nat b \<and> p = q" using e s [of a p] s [of b q] by simp
  then show ?thesis by (metis digits_value_show_nat option.inject)
qed

theorem signature_binds:
  assumes "sign_payload M now ks payload = Inr r" "verify_signed M later ks' (sr_key_id r) ts payload' (signature_header r) max_skew = Inr ()"
    and "(ts, payload') \<noteq> (sr_timestamp r, payload)"
  shows "\<exists>k k' m m'. k \<in> set ks \<and> k' \<in> set ks' \<and> sk_id k = sk_id k' \<and> m \<noteq> m' \<and>
    hex M (hmac_sha256 M (sk_secret k) m) = hex M (hmac_sha256 M (sk_secret k') m')"
proof -
  obtain k where k: "active_key ks = Some k" "sr_key_id r = sk_id k" "sr_timestamp r = now"
      "signature_header r = ''sha256='' @ compute_signature M (sk_secret k) now payload"
    using assms(1) by (auto simp: sign_payload_def split: option.splits)
  obtain k' where k': "find_signing_key (sk_id k) ks' = Some k'" "compute_signature M (sk_secret k) now payload = compute_signature M (sk_secret k') ts payload'"
    using assms(2) k by (auto simp: verify_signed_iff)
  have "show_nat (unat now) @ ''.'' @ payload \<noteq> show_nat (unat ts) @ ''.'' @ payload'"
    using signed_text_inject assms(3) k(3) by (metis unsigned_word_eqI)
  moreover have "k \<in> set ks" using k(1) by (metis active_key_def find_Some_iff nth_mem set_rev)
  ultimately show ?thesis using k' find_key_Some [OF k'(1)] unfolding compute_signature_def by metis
qed

text \<open>The receiver's check with rotation accepts exactly the signatures of one of the secrets it is given.\<close>

lemma verify_signature_iff: "verify_signature M h s body = Inr () \<longleftrightarrow> h = ''sha256='' @ hex M (hmac_sha256 M s body)"
  unfolding header_eq by (auto simp: verify_signature_def split: option.split prod.split)

lemma any_secret_iff: "any_secret M h body ss \<longleftrightarrow> (\<exists>s\<in>set ss. verify_signature M h s body = Inr ())"
  by (induction ss) (auto split: sum.splits)

theorem rotation_check_exact:
  "verify_signature_with_rotation M h body primary fallback = Inr () \<longleftrightarrow>
     list_ex (\<lambda>s. h = ''sha256='' @ hex M (hmac_sha256 M s body)) (primary @ fallback)"
  by (auto simp: verify_signature_with_rotation_def any_secret_iff verify_signature_iff list_ex_iff)

text \<open>
  The receiver's check does not accept what the key manager signs: it takes the MAC of the body alone.
\<close>

theorem receiver_rejects_signed:
  assumes "sign_payload M now ks body = Inr r" "verify_signature M (signature_header r) secret body = Inr ()"
  shows "\<exists>k m. k \<in> set ks \<and> m \<noteq> body \<and> hex M (hmac_sha256 M (sk_secret k) m) = hex M (hmac_sha256 M secret body)"
proof -
  obtain k where k: "active_key ks = Some k" "signature_header r = ''sha256='' @ compute_signature M (sk_secret k) now body"
    using assms(1) by (auto simp: sign_payload_def split: option.splits)
  have "k \<in> set ks" using k(1) by (metis active_key_def find_Some_iff nth_mem set_rev)
  moreover have "show_nat (unat now) @ ''.'' @ body \<noteq> body"
    by (metis append_Cons append_Nil append_is_Nil_conv append_self_conv2 list.distinct(1) append_assoc)
  moreover have "hex M (hmac_sha256 M (sk_secret k) (show_nat (unat now) @ ''.'' @ body)) = hex M (hmac_sha256 M secret body)"
    using assms(2) k(2) unfolding verify_signature_iff compute_signature_def by simp
  ultimately show ?thesis by blast
qed

definition sample_mac :: mac_crate where
  "sample_mac = \<lparr>sha256 = take 32, hmac_block = (\<lambda>k m. k @ m), hex = (\<lambda>b. b)\<rparr>"

theorem signed_request_accepted_witness:
  "let k = signing_key_new 0 ''k1'' ''s''; n = signing_key_new 5 ''k2'' ''t'';
       r = \<lparr>signature_header = ''sha256='' @ compute_signature sample_mac ''s'' 9 ''body'', sr_key_id = ''k1'', sr_timestamp = 9, algorithm = ''hmac-sha256''\<rparr>
   in sign_payload sample_mac 9 [k] ''body'' = Inr r \<and>
      verify_signed sample_mac 12 (fold run_op [Rotate n] [k]) ''k1'' 9 ''body'' (signature_header r) 300 = Inr ()"
proof -
  let ?k = "signing_key_new 0 ''k1'' ''s''" and ?n = "signing_key_new 5 ''k2'' ''t''"
  let ?r = "\<lparr>signature_header = ''sha256='' @ compute_signature sample_mac ''s'' 9 ''body'', sr_key_id = ''k1'', sr_timestamp = 9, algorithm = ''hmac-sha256''\<rparr>"
  have s: "sign_payload sample_mac 9 [?k] ''body'' = Inr ?r"
    by (simp add: sign_payload_def active_key_def signing_key_new_def)
  have "verify_signed sample_mac 12 (fold run_op [Rotate ?n] [?k]) (sr_key_id ?r) (sr_timestamp ?r) ''body'' (signature_header ?r) 300 = Inr ()"
    by (rule signed_request_accepted [OF _ s]) (simp_all add: keys_distinct_def signing_key_new_def abs_diff_def)
  then show ?thesis using s by (simp add: Let_def)
qed

text \<open>Secrets that differ in trailing zero bytes only, up to the block size, sign alike.\<close>

lemma zero_padded_secrets: "length k \<le> n \<Longrightarrow> n \<le> 64 \<Longrightarrow>
    hmac_sha256 M (k @ replicate (n - length k) (CHR 0x00)) msg = hmac_sha256 M k msg"
  by (simp add: hmac_sha256_def pad_block_def SHA256_BLOCK_SIZE_def replicate_add [symmetric])

end
