(* ===== verification/Subscriptions.thy ===== *)
theory Subscriptions
  imports Outbound App_Error Json_Access
begin

text \<open>
  Model of the webhook subscriptions of \<open>src/subscriptions.rs\<close>: the subscriptions table and its delivery
  queue, the handlers that change them, the delivery worker, the email worker with its daily limit, and pausing.
  Times are microseconds; generated ids come from a counter; the answers of the callback URLs and the outcomes of
  mails are arguments. The lemmas show what is enqueued, when an item leaves the queue, how retries are
  spaced, and where batches, pauses and the two workers do not do what they are documented to do.
\<close>

section \<open>Tables\<close>

record subscription =
  sub_id :: nat
  sub_url :: string
  sub_from_ledger :: i64
  acked_ledger :: i64
  sub_status :: string
  sub_type :: string
  batch_size :: i32
  batch_timeout_ms :: i32
  sub_email :: "string option"
  email_enabled :: bool
  pause_until :: "int option"
  pause_reason :: "string option"
  paused_at :: "int option"

record queue_item =
  q_id :: nat
  q_sub :: nat
  q_event :: nat
  q_ledger :: i64
  q_status :: string
  q_attempts :: int
  next_attempt_at :: int
  last_error :: "string option"

record event_row =
  ev_id :: nat
  ev_ledger :: i64
  ev_data :: json

record email_log_row =
  log_sub :: nat
  log_address :: string
  log_status :: string
  log_error :: "string option"

record pause_log_row =
  pl_sub :: nat
  pl_action :: string
  pl_reason :: "string option"
  pl_until :: "int option"
  pl_created :: int

record subs_db =
  subs :: "subscription list"
  queue :: "queue_item list"
  event_rows :: "event_row list"
  next_id :: nat
  send_counts :: "string \<times> int \<Rightarrow> int"
  email_log :: "email_log_row list"
  pause_log :: "pause_log_row list"

abbreviation SECOND :: int where "SECOND \<equiv> 1000000"

definition find_sub :: "nat \<Rightarrow> subs_db \<Rightarrow> subscription option" where
  "find_sub i db = List.find (\<lambda>s. sub_id s = i) (subs db)"

text \<open>\<open>UPDATE subscriptions SET .. WHERE ..\<close>, with the number of rows it affects.\<close>

definition update_subs :: "(subscription \<Rightarrow> bool) \<Rightarrow> (subscription \<Rightarrow> subscription) \<Rightarrow> subs_db \<Rightarrow> subs_db \<times> nat" where
  "update_subs P f db = (db\<lparr>subs := map (\<lambda>s. if P s then f s else s) (subs db)\<rparr>, length (filter P (subs db)))"

definition update_queue :: "(queue_item \<Rightarrow> bool) \<Rightarrow> (queue_item \<Rightarrow> queue_item) \<Rightarrow> subs_db \<Rightarrow> subs_db" where
  "update_queue P f db = db\<lparr>queue := map (\<lambda>q. if P q then f q else q) (queue db)\<rparr>"

definition new_item :: "int \<Rightarrow> nat \<Rightarrow> nat \<Rightarrow> nat \<Rightarrow> i64 \<Rightarrow> queue_item" where
  "new_item now i s e l = \<lparr>q_id = i, q_sub = s, q_event = e, q_ledger = l, q_status = ''pending'', q_attempts = 0,
     next_attempt_at = now, last_error = None\<rparr>"

text \<open>\<open>INSERT INTO delivery_queue .. SELECT\<close>: one new row for each pair of a subscription and an event.\<close>

definition insert_items :: "int \<Rightarrow> (nat \<times> nat \<times> i64) list \<Rightarrow> subs_db \<Rightarrow> subs_db" where
  "insert_items now xs db = db\<lparr>queue := queue db @ map (\<lambda>(k, s, e, l). new_item now (next_id db + k) s e l) (List.enumerate 0 xs),
     next_id := next_id db + length xs\<rparr>"

section \<open>Creating and reading\<close>

record CreateSubscriptionRequest =
  c_url :: string
  c_from_ledger :: i64
  c_type :: "string option"
  c_batch_size :: "i32 option"
  c_batch_timeout_ms :: "i32 option"

text \<open>
  What the handler reads besides the request: the URL parser, the configured prefixes, the environment and
  the default batch settings.
\<close>

record subs_env =
  parse_url :: "string \<Rightarrow> url option"
  parse_failure :: "string \<Rightarrow> string"
  prefix_var :: "string option"
  environment :: Environment
  default_batch_size :: i32
  default_batch_timeout_ms :: i32

definition guard_error :: "(string \<Rightarrow> string) \<Rightarrow> string \<Rightarrow> outbound_error \<Rightarrow> AppError" where
  "guard_error parse_fail raw e = Validation (case e of
      PrefixMismatch \<Rightarrow> ''callback_url does not match any entry in SUBSCRIPTION_ALLOWED_URL_PREFIXES''
    | InvalidUrl \<Rightarrow> ''callback_url is not a valid URL: '' @ parse_fail raw
    | HttpsRequired \<Rightarrow> ''callback_url must use HTTPS in production''
    | SchemeNotPermitted s \<Rightarrow> ''callback_url scheme '' @ [CHR 0x27] @ s @ [CHR 0x27] @ '' is not permitted; use https''
    | _ \<Rightarrow> ''callback_url points to a private, loopback, or link-local address'')"

definition TYPE_ERROR :: AppError where
  "TYPE_ERROR = Validation (''subscription_type must be '' @ [CHR 0x27] @ ''single'' @ [CHR 0x27] @ '' or '' @ [CHR 0x27] @ ''batch'' @ [CHR 0x27])"

definition subscription_types :: "string list" where "subscription_types = [''single'', ''batch'']"

definition create_checks :: "subs_env \<Rightarrow> CreateSubscriptionRequest \<Rightarrow> AppError + string" where
  "create_checks env b =
     and_then (require (c_url b \<noteq> []) (Validation ''callback_url is required'')) (\<lambda>_.
     and_then (map_sum (guard_error (parse_failure env) (c_url b)) id
       (validate_callback_url (parse_url env) (prefix_var env) (c_url b) (environment env))) (\<lambda>_.
     and_then (require (0 \<le> c_from_ledger b) (Validation ''from_ledger must be non-negative'')) (\<lambda>_.
     let ty = (case c_type b of None \<Rightarrow> ''single'' | Some t \<Rightarrow> t) in
     and_then (require (ty \<in> set subscription_types) TYPE_ERROR) (\<lambda>_. Inr ty))))"

definition new_subscription :: "nat \<Rightarrow> subs_env \<Rightarrow> CreateSubscriptionRequest \<Rightarrow> string \<Rightarrow> subscription" where
  "new_subscription i env b ty = \<lparr>sub_id = i, sub_url = c_url b, sub_from_ledger = c_from_ledger b, acked_ledger = 0,
     sub_status = ''active'', sub_type = ty,
     batch_size = clamp (case c_batch_size b of None \<Rightarrow> default_batch_size env | Some n \<Rightarrow> n) 1 1000,
     batch_timeout_ms = clamp (case c_batch_timeout_ms b of None \<Rightarrow> default_batch_timeout_ms env | Some n \<Rightarrow> n) 100 60000,
     sub_email = None, email_enabled = False, pause_until = None, pause_reason = None, paused_at = None\<rparr>"

text \<open>
  Creation: the row, then an item for every event from the starting ledger on, in ledger order. The lookup and
  the storage of idempotent responses are functions of a module that the repository does not have: what the
  lookup found is the argument \<open>cached\<close>.
\<close>

definition create_subscription ::
  "subs_env \<Rightarrow> int \<Rightarrow> 'r option \<Rightarrow> CreateSubscriptionRequest \<Rightarrow> subs_db \<Rightarrow> subs_db \<times> (AppError + 'r + subscription)" where
  "create_subscription env now cached b db =
     (case cached of Some r \<Rightarrow> (db, Inr (Inl r))
      | None \<Rightarrow> (case create_checks env b of
          Inl e \<Rightarrow> (db, Inl e)
        | Inr ty \<Rightarrow>
            let s = new_subscription (next_id db) env b ty;
                db' = db\<lparr>subs := subs db @ [s], next_id := next_id db + 1\<rparr>;
                evs = sort_key ev_ledger (filter (\<lambda>e. c_from_ledger b \<le> ev_ledger e) (event_rows db))
            in (insert_items now (map (\<lambda>e. (sub_id s, ev_id e, ev_ledger e)) evs) db', Inr (Inr s))))"

definition pending_count :: "nat \<Rightarrow> subs_db \<Rightarrow> nat" where
  "pending_count i db = length (filter (\<lambda>q. q_sub q = i \<and> q_status q = ''pending'') (queue db))"

definition get_subscription :: "nat \<Rightarrow> subs_db \<Rightarrow> AppError + subscription \<times> nat" where
  "get_subscription i db = (case find_sub i db of None \<Rightarrow> Inl NotFound | Some s \<Rightarrow> Inr (s, pending_count i db))"

definition cancel_subscription :: "nat \<Rightarrow> subs_db \<Rightarrow> subs_db \<times> (AppError + unit)" where
  "cancel_subscription i db =
     (case update_subs (\<lambda>s. sub_id s = i \<and> sub_status s = ''active'') (\<lambda>s. s\<lparr>sub_status := ''cancelled''\<rparr>) db of
        (db', n) \<Rightarrow> (db', if n = 0 then Inl NotFound else Inr ()))"

definition mark_delivered :: "(queue_item \<Rightarrow> bool) \<Rightarrow> subs_db \<Rightarrow> subs_db" where
  "mark_delivered P db = update_queue P (\<lambda>q. q\<lparr>q_status := ''delivered''\<rparr>) db"

definition ack_subscription :: "nat \<Rightarrow> i64 \<Rightarrow> subs_db \<Rightarrow> subs_db \<times> (AppError + i64)" where
  "ack_subscription i l db =
     (case update_subs (\<lambda>s. sub_id s = i \<and> sub_status s = ''active'' \<and> acked_ledger s < l) (\<lambda>s. s\<lparr>acked_ledger := l\<rparr>) db of
        (db', n) \<Rightarrow>
          if n = 0 \<and> find_sub i db' = None then (db', Inl NotFound)
          else (mark_delivered (\<lambda>q. q_sub q = i \<and> q_ledger q \<le> l \<and> q_status q = ''pending'') db', Inr l))"

definition get_subscription_batch_config :: "nat \<Rightarrow> subs_db \<Rightarrow> AppError + string \<times> i32 \<times> i32" where
  "get_subscription_batch_config i db = (case find_sub i db of None \<Rightarrow> Inl NotFound
     | Some s \<Rightarrow> Inr (sub_type s, batch_size s, batch_timeout_ms s))"

record UpdateBatchConfigRequest =
  u_type :: "string option"
  u_batch_size :: "i32 option"
  u_batch_timeout_ms :: "i32 option"

definition coalesce :: "'a option \<Rightarrow> 'a \<Rightarrow> 'a" where "coalesce x d = (case x of None \<Rightarrow> d | Some v \<Rightarrow> v)"

definition update_subscription_batch_config ::
  "nat \<Rightarrow> UpdateBatchConfigRequest \<Rightarrow> subs_db \<Rightarrow> subs_db \<times> (AppError + string option \<times> i32 option \<times> i32 option)" where
  "update_subscription_batch_config i b db =
     (case when_given (u_type b) (\<lambda>t. require (t \<in> set subscription_types) TYPE_ERROR) of
        Inl e \<Rightarrow> (db, Inl e)
      | Inr _ \<Rightarrow>
          let sz = map_option (\<lambda>n. clamp n 1 1000) (u_batch_size b); tm = map_option (\<lambda>n. clamp n 100 60000) (u_batch_timeout_ms b) in
          (case update_subs (\<lambda>s. sub_id s = i \<and> sub_status s = ''active'')
             (\<lambda>s. s\<lparr>sub_type := coalesce (u_type b) (sub_type s), batch_size := coalesce sz (batch_size s),
                batch_timeout_ms := coalesce tm (batch_timeout_ms s)\<rparr>) db of
            (db', n) \<Rightarrow> (db', if n = 0 then Inl NotFound else Inr (u_type b, sz, tm))))"

section \<open>The queue\<close>

definition event_of :: "subs_db \<Rightarrow> queue_item \<Rightarrow> event_row option" where
  "event_of db q = List.find (\<lambda>e. ev_id e = q_event q) (event_rows db)"

definition due :: "int \<Rightarrow> queue_item \<Rightarrow> bool" where
  "due now q \<longleftrightarrow> q_status q = ''pending'' \<and> next_attempt_at q \<le> now"

text \<open>The due items of a subscription with their events, by ledger.\<close>

definition due_items :: "int \<Rightarrow> nat \<Rightarrow> subs_db \<Rightarrow> (queue_item \<times> event_row) list" where
  "due_items now i db = sort_key (\<lambda>(q, e). q_ledger q)
     (List.map_filter (\<lambda>q. if q_sub q = i \<and> due now q then map_option (Pair q) (event_of db q) else None) (queue db))"

text \<open>The pending batch of a subscription, read without marking it.\<close>

definition deliver_batch :: "int \<Rightarrow> nat \<Rightarrow> subs_db \<Rightarrow> AppError + (nat \<times> i64 \<times> json) list \<times> i32" where
  "deliver_batch now i db = (case find_sub i db of
      None \<Rightarrow> Inl NotFound
    | Some s \<Rightarrow>
        and_then (require (sub_status s = ''active'') (Validation ''subscription is not active'')) (\<lambda>_.
        and_then (require (sub_type s = ''batch'') (Validation ''subscription is not configured for batch delivery'')) (\<lambda>_.
        Inr (map (\<lambda>(q, e). (q_event q, q_ledger q, ev_data e)) (take (nat (batch_size s)) (due_items now i db)), batch_size s))))"

definition enqueue_event :: "int \<Rightarrow> nat \<Rightarrow> i64 \<Rightarrow> subs_db \<Rightarrow> subs_db" where
  "enqueue_event now e l db = insert_items now
     (map (\<lambda>s. (sub_id s, e, l)) (filter (\<lambda>s. sub_status s = ''active'' \<and> sub_from_ledger s \<le> l) (subs db))) db"

text \<open>
  Retries. \<open>POWER(2, n)\<close> on integers is computed with doubles: from \<open>n = 1024\<close> on it is an error of the
  database. The interval is cut to an hour after the power is computed.
\<close>

definition pow2 :: "int \<Rightarrow> int option" where "pow2 n = (if n \<le> 1023 then Some (2 ^ nat n) else None)"

definition schedule_retry :: "int \<Rightarrow> nat \<Rightarrow> string \<Rightarrow> subs_db \<Rightarrow> subs_db option" where
  "schedule_retry now i err db =
     (if list_all (\<lambda>q. q_id q = i \<longrightarrow> pow2 (q_attempts q + 1) \<noteq> None) (queue db)
      then Some (update_queue (\<lambda>q. q_id q = i)
        (\<lambda>q. q\<lparr>q_attempts := q_attempts q + 1, last_error := Some err,
           next_attempt_at := now + min (the (pow2 (q_attempts q + 1))) 3600 * SECOND\<rparr>) db)
      else None)"

text \<open>A request of the worker, and the answer to it; answers may depend on the number of the request.\<close>

record post_request =
  post_url :: string
  post_events :: "(nat \<times> i64 \<times> json) list"
  post_batch :: "i32 option"
  post_timeout_ms :: int

datatype post_answer = Status nat string | Transport_error string

definition is_success :: "post_answer \<Rightarrow> bool" where
  "is_success a = (case a of Status c r \<Rightarrow> 200 \<le> c \<and> c < 300 | Transport_error e \<Rightarrow> False)"

definition answer_error :: "post_answer \<Rightarrow> string" where
  "answer_error a = (case a of Status c r \<Rightarrow> ''HTTP '' @ show_nat c @ '' '' @ r | Transport_error e \<Rightarrow> e)"

record work_item =
  w_queue :: nat
  w_event :: nat
  w_url :: string
  w_data :: json
  w_ledger :: i64
  w_type :: string
  w_batch_size :: i32
  w_timeout_ms :: i32

definition work_of :: "subs_db \<Rightarrow> int \<Rightarrow> queue_item \<Rightarrow> work_item option" where
  "work_of db now q = (if \<not> due now q then None else
     (case (find_sub (q_sub q) db, event_of db q) of
        (Some s, Some e) \<Rightarrow> if sub_status s \<noteq> ''active'' then None
          else Some \<lparr>w_queue = q_id q, w_event = q_event q, w_url = sub_url s, w_data = ev_data e, w_ledger = q_ledger q,
            w_type = sub_type s, w_batch_size = batch_size s, w_timeout_ms = batch_timeout_ms s\<rparr>
      | _ \<Rightarrow> None))"

definition due_work :: "int \<Rightarrow> subs_db \<Rightarrow> work_item list" where
  "due_work now db = take 200 (sort_key w_ledger (List.map_filter (work_of db now) (queue db)))"

definition work_event :: "work_item \<Rightarrow> nat \<times> i64 \<times> json" where "work_event w = (w_event w, w_ledger w, w_data w)"

text \<open>
  The map of batches: each item goes to the entry of its key. The order of the entries of the hash map is
  unspecified; the model takes the order of insertion.
\<close>

fun push_group :: "'k \<Rightarrow> 'v \<Rightarrow> ('k \<times> 'v list) list \<Rightarrow> ('k \<times> 'v list) list" where
  "push_group k v [] = [(k, [v])]"
| "push_group k v ((k', vs) # gs) = (if k' = k then (k', vs @ [v]) # gs else (k', vs) # push_group k v gs)"

definition group_batches :: "work_item list \<Rightarrow> (nat \<times> work_item list) list" where
  "group_batches ws = fold (\<lambda>w. push_group (w_queue w) w) ws []"

fun retry_all :: "int \<Rightarrow> string \<Rightarrow> work_item list \<Rightarrow> subs_db \<Rightarrow> subs_db \<times> bool" where
  "retry_all now err [] db = (db, True)"
| "retry_all now err (w # ws) db = (case schedule_retry now (w_queue w) err db of
      None \<Rightarrow> (db, False) | Some db' \<Rightarrow> retry_all now err ws db')"

text \<open>
  The requests of a cycle and what their answers do: a success marks the items of the request, anything else
  schedules each for a retry. A database error ends the cycle where it is.
\<close>

definition batch_request :: "work_item \<Rightarrow> work_item list \<Rightarrow> post_request \<times> work_item list" where
  "batch_request w ws = (let sent = take (nat (w_batch_size w)) (w # ws) in
     (\<lparr>post_url = w_url w, post_events = map work_event sent, post_batch = Some (w_batch_size w), post_timeout_ms = w_timeout_ms w\<rparr>, sent))"

definition single_request :: "work_item \<Rightarrow> post_request \<times> work_item list" where
  "single_request w = (\<lparr>post_url = w_url w, post_events = [work_event w], post_batch = None, post_timeout_ms = 10000\<rparr>, [w])"

fun post_all ::
  "int \<Rightarrow> (post_request \<times> work_item list) list \<Rightarrow> (nat \<Rightarrow> post_request \<Rightarrow> post_answer) \<Rightarrow> subs_db \<times> nat \<times> post_request list \<Rightarrow>
   subs_db \<times> post_request list \<times> (string + nat)" where
  "post_all now [] answer (db, n, sent) = (db, sent, Inr n)"
| "post_all now ((req, items) # rs) answer (db, n, sent) =
     (if is_success (answer (length sent) req)
      then post_all now rs answer (mark_delivered (\<lambda>q. q_id q \<in> w_queue ` set items) db, n + length items, sent @ [req])
      else (case retry_all now (answer_error (answer (length sent) req)) items db of
          (db', True) \<Rightarrow> post_all now rs answer (db', n, sent @ [req])
        | (db', False) \<Rightarrow> (db', sent @ [req], Inl ''value out of range: overflow'')))"

definition requests_of :: "work_item list \<Rightarrow> (post_request \<times> work_item list) list" where
  "requests_of ws = map single_request (filter (\<lambda>w. w_type w \<noteq> ''batch'') ws) @
     List.map_filter (\<lambda>(k, g). case g of [] \<Rightarrow> None | w # rest \<Rightarrow> Some (batch_request w rest))
       (group_batches (filter (\<lambda>w. w_type w = ''batch'') ws))"

definition deliver_pending ::
  "int \<Rightarrow> (nat \<Rightarrow> post_request \<Rightarrow> post_answer) \<Rightarrow> subs_db \<Rightarrow> subs_db \<times> post_request list \<times> (string + nat)" where
  "deliver_pending now answer db = post_all now (requests_of (due_work now db)) answer (db, 0, [])"

section \<open>Mail\<close>

definition EMAIL_DAILY_LIMIT :: int where "EMAIL_DAILY_LIMIT = 100"

text \<open>The counter of an address and a day; a fresh row counts one.\<close>

definition check_and_increment_email_rate_limit :: "int \<Rightarrow> string \<Rightarrow> subs_db \<Rightarrow> subs_db \<times> bool" where
  "check_and_increment_email_rate_limit today a db =
     (let n = send_counts db (a, today) + 1 in (db\<lparr>send_counts := (send_counts db)((a, today) := n)\<rparr>, n \<le> EMAIL_DAILY_LIMIT))"

definition get_subscription_email :: "int \<Rightarrow> nat \<Rightarrow> subs_db \<Rightarrow> AppError + string option \<times> bool \<times> int \<times> int" where
  "get_subscription_email today i db = (case find_sub i db of None \<Rightarrow> Inl NotFound
     | Some s \<Rightarrow> Inr (sub_email s, email_enabled s, EMAIL_DAILY_LIMIT,
         case sub_email s of None \<Rightarrow> 0 | Some a \<Rightarrow> send_counts db (a, today)))"

definition check_email :: "string option \<Rightarrow> AppError + unit" where
  "check_email addr = (case addr of
      None \<Rightarrow> Inl (Validation ''email_address is required when enabling email notifications'')
    | Some a \<Rightarrow> require (a \<noteq> [] \<and> CHR ''@'' \<in> set a) (Validation ''invalid email_address''))"

definition update_subscription_email :: "nat \<Rightarrow> string option \<Rightarrow> bool \<Rightarrow> subs_db \<Rightarrow> subs_db \<times> (AppError + unit)" where
  "update_subscription_email i addr enabled db =
     (case (if enabled then check_email addr else Inr ()) of
        Inl e \<Rightarrow> (db, Inl e)
      | Inr _ \<Rightarrow> (case update_subs (\<lambda>s. sub_id s = i \<and> sub_status s = ''active'') (\<lambda>s. s\<lparr>sub_email := addr, email_enabled := enabled\<rparr>) db of
          (db', n) \<Rightarrow> (db', if n = 0 then Inl NotFound else Inr ())))"

text \<open>
  One tick of the mail worker: for each of the first hundred subscriptions by id that have mail enabled and a
  due item, the item with the least ledger.
\<close>

record mail_work =
  m_sub :: nat
  m_address :: string
  m_event :: nat
  m_data :: json
  m_ledger :: i64

definition mail_of :: "int \<Rightarrow> subs_db \<Rightarrow> subscription \<Rightarrow> mail_work option" where
  "mail_of now db s = (case (sub_email s, due_items now (sub_id s) db) of
      (Some a, (q, e) # _) \<Rightarrow> if email_enabled s \<and> sub_status s = ''active''
        then Some \<lparr>m_sub = sub_id s, m_address = a, m_event = q_event q, m_data = ev_data e, m_ledger = q_ledger q\<rparr> else None
    | _ \<Rightarrow> None)"

definition mail_due :: "int \<Rightarrow> subs_db \<Rightarrow> mail_work list" where
  "mail_due now db = take 100 (sort_key m_sub (List.map_filter (mail_of now db) (subs db)))"

definition log_mail :: "mail_work \<Rightarrow> string \<Rightarrow> string option \<Rightarrow> subs_db \<Rightarrow> subs_db" where
  "log_mail m st e db = db\<lparr>email_log := email_log db @
     [\<lparr>log_sub = m_sub m, log_address = m_address m, log_status = st, log_error = e\<rparr>]\<rparr>"

text \<open>A mail that cannot be sent returns its error.\<close>

definition mail_one :: "int \<Rightarrow> (mail_work \<Rightarrow> string option) \<Rightarrow> mail_work \<Rightarrow> subs_db \<Rightarrow> subs_db" where
  "mail_one today send m db = (case check_and_increment_email_rate_limit today (m_address m) db of
      (db1, False) \<Rightarrow> log_mail m ''rate_limited'' None db1
    | (db1, True) \<Rightarrow> (case send m of
          Some e \<Rightarrow> log_mail m ''failed'' (Some e) db1
        | None \<Rightarrow> mark_delivered (\<lambda>q. q_sub q = m_sub m \<and> q_event q = m_event m) (log_mail m ''sent'' None db1)))"

definition email_tick :: "int \<Rightarrow> int \<Rightarrow> (mail_work \<Rightarrow> string option) \<Rightarrow> subs_db \<Rightarrow> subs_db" where
  "email_tick now today send db = fold (mail_one today send) (mail_due now db) db"

section \<open>Pausing\<close>

definition log_pause :: "nat \<Rightarrow> string \<Rightarrow> string option \<Rightarrow> int option \<Rightarrow> int \<Rightarrow> subs_db \<Rightarrow> subs_db" where
  "log_pause i action r u now db = db\<lparr>pause_log := pause_log db @
     [\<lparr>pl_sub = i, pl_action = action, pl_reason = r, pl_until = u, pl_created = now\<rparr>]\<rparr>"

definition pause_subscription :: "int \<Rightarrow> nat \<Rightarrow> i64 option \<Rightarrow> string option \<Rightarrow> subs_db \<Rightarrow> subs_db \<times> (AppError + int option)" where
  "pause_subscription now i secs r db =
     (let u = map_option (\<lambda>s. now + s * SECOND) secs in
      case update_subs (\<lambda>s. sub_id s = i \<and> sub_status s = ''active'')
          (\<lambda>s. s\<lparr>pause_until := u, pause_reason := r, paused_at := Some now\<rparr>) db of
        (db', n) \<Rightarrow> if n = 0 then (db', Inl NotFound) else (log_pause i ''paused'' r u now db', Inr u))"

definition resume_subscription :: "int \<Rightarrow> nat \<Rightarrow> string option \<Rightarrow> subs_db \<Rightarrow> subs_db \<times> (AppError + unit)" where
  "resume_subscription now i r db =
     (case update_subs (\<lambda>s. sub_id s = i \<and> pause_until s \<noteq> None) (\<lambda>s. s\<lparr>pause_until := None, pause_reason := None\<rparr>) db of
        (db', n) \<Rightarrow> if n = 0 then (db', Inl NotFound) else (log_pause i ''resumed'' r None now db', Inr ()))"

definition get_pause_resume_status :: "int \<Rightarrow> nat \<Rightarrow> subs_db \<Rightarrow> AppError + bool \<times> int option \<times> string option \<times> bool \<times> pause_log_row list" where
  "get_pause_resume_status now i db = (case find_sub i db of None \<Rightarrow> Inl NotFound
     | Some s \<Rightarrow> Inr (pause_until s \<noteq> None, pause_until s, pause_reason s,
         (case pause_until s of None \<Rightarrow> False | Some u \<Rightarrow> u \<le> now),
         take 20 (sort_key (\<lambda>r. - pl_created r) (filter (\<lambda>r. pl_sub r = i) (pause_log db)))))"

definition auto_resume :: "int \<Rightarrow> subs_db \<Rightarrow> subs_db \<times> nat" where
  "auto_resume now db = update_subs (\<lambda>s. case pause_until s of None \<Rightarrow> False | Some u \<Rightarrow> u \<le> now)
     (\<lambda>s. s\<lparr>pause_until := None, pause_reason := None\<rparr>) db"

section \<open>One cycle of the worker\<close>

lemma map_filter_Some: "x \<in> set (List.map_filter f xs) \<longleftrightarrow> (\<exists>y\<in>set xs. f y = Some x)"
  by (induction xs) (auto simp: List.map_filter_simps split: option.splits)

lemma post_all_Cons: "post_all now (r # rs) answer (db, n, sent) =
     (if is_success (answer (length sent) (fst r))
      then post_all now rs answer (mark_delivered (\<lambda>q. q_id q \<in> w_queue ` set (snd r)) db, n + length (snd r), sent @ [fst r])
      else (case retry_all now (answer_error (answer (length sent) (fst r))) (snd r) db of
          (db', ok) \<Rightarrow> if ok then post_all now rs answer (db', n, sent @ [fst r])
            else (db', sent @ [fst r], Inl ''value out of range: overflow'')))"
  by (cases r) (simp split: prod.split bool.split)

text \<open>
  Groups are keyed by the id of the queue item, not by the subscription: with distinct ids every group has
  one item, so that a batch has one event.
\<close>

lemma push_group_new: "k \<notin> fst ` set gs \<Longrightarrow> push_group k v gs = gs @ [(k, [v])]"
  by (induction k v gs rule: push_group.induct) auto

lemma group_batches_distinct: "distinct (map w_queue ws) \<Longrightarrow> group_batches ws = map (\<lambda>w. (w_queue w, [w])) ws"
proof (induction ws rule: rev_induct)
  case (snoc w ws)
  then have "group_batches ws = map (\<lambda>w. (w_queue w, [w])) ws" "w_queue w \<notin> fst ` set (group_batches ws)" by force+
  then show ?case by (simp add: group_batches_def push_group_new)
qed (simp add: group_batches_def)

lemma work_of_Some: "work_of db now q = Some w \<longleftrightarrow> due now q \<and> (\<exists>s e. find_sub (q_sub q) db = Some s \<and> event_of db q = Some e \<and>
    sub_status s = ''active'' \<and> w = \<lparr>w_queue = q_id q, w_event = q_event q, w_url = sub_url s, w_data = ev_data e, w_ledger = q_ledger q,
            w_type = sub_type s, w_batch_size = batch_size s, w_timeout_ms = batch_timeout_ms s\<rparr>)"
  by (auto simp: work_of_def split: option.splits)

lemma distinct_work: "distinct (map q_id qs) \<Longrightarrow> distinct (map w_queue (List.map_filter (work_of db now) qs))"
proof (induction qs)
  case (Cons q qs)
  show ?case
  proof (cases "work_of db now q")
    case None
    then show ?thesis using Cons by (simp add: List.map_filter_simps)
  next
    case (Some w)
    have "w_queue w \<notin> w_queue ` set (List.map_filter (work_of db now) qs)"
      using Cons.prems Some by (auto simp: map_filter_Some work_of_Some)
    then show ?thesis using Cons Some by (simp add: List.map_filter_simps)
  qed
qed (simp add: List.map_filter_simps)

lemma distinct_due_work: "distinct (map q_id (queue db)) \<Longrightarrow> distinct (map w_queue (due_work now db))"
proof -
  assume "distinct (map q_id (queue db))"
  then have "distinct (map w_queue (List.map_filter (work_of db now) (queue db)))" by (rule distinct_work)
  then have "distinct (map w_queue (sort_key w_ledger (List.map_filter (work_of db now) (queue db))))"
    by (simp add: distinct_map)
  then show ?thesis unfolding due_work_def by (metis distinct_take take_map)
qed

lemma requests_of_distinct:
  "distinct (map w_queue ws) \<Longrightarrow> requests_of ws = map single_request (filter (\<lambda>w. w_type w \<noteq> ''batch'') ws) @
     map (\<lambda>w. batch_request w []) (filter (\<lambda>w. w_type w = ''batch'') ws)"
proof -
  assume "distinct (map w_queue ws)"
  then have "distinct (map w_queue (filter (\<lambda>w. w_type w = ''batch'') ws))" by (simp add: distinct_map_filter)
  note g = group_batches_distinct [OF this]
  have "List.map_filter (\<lambda>(k, g). case g of [] \<Rightarrow> None | w # rest \<Rightarrow> Some (batch_request w rest)) (map (\<lambda>w. (w_queue w, [w])) xs)
      = map (\<lambda>w. batch_request w []) xs" for xs
    by (induction xs) (auto simp: List.map_filter_simps)
  then show ?thesis by (simp add: requests_of_def g)
qed

text \<open>Every request stands for one item of the work, if any.\<close>

lemma request_one:
  assumes "distinct (map w_queue ws)" "(req, items) \<in> set (requests_of ws)"
  shows "\<exists>w\<in>set ws. post_url req = w_url w \<and> (items = [w] \<or> items = []) \<and> post_events req = map work_event items"
proof -
  have "take n [w] = [w] \<or> take n [w] = []" for n and w :: work_item by (cases n) auto
  then show ?thesis
    using assms(2) unfolding requests_of_distinct [OF assms(1)]
    by (fastforce simp: single_request_def batch_request_def Let_def)
qed

theorem batches_of_one:
  assumes "distinct (map q_id (queue db))" "deliver_pending now answer db = (db', sent, r)" "req \<in> set sent"
  shows "length (post_events req) \<le> 1"
proof -
  have "set sent' \<subseteq> set snt \<union> fst ` set rs" if "post_all now rs answer (d, n, snt) = (d', sent', r)" for rs d n snt d' sent' r
    using that
  proof (induction rs arbitrary: d n snt)
    case (Cons x rs)
    from Cons.prems show ?case unfolding post_all_Cons
      by (auto split: if_splits prod.splits dest!: Cons.IH)
  qed simp
  then have "req \<in> fst ` set (requests_of (due_work now db))"
    using assms(2,3) unfolding deliver_pending_def by fastforce
  then obtain items where "(req, items) \<in> set (requests_of (due_work now db))" by force
  from request_one [OF distinct_due_work [OF assms(1)] this] show ?thesis by auto
qed

section \<open>What a cycle does to the queue\<close>

definition request_of :: "work_item \<Rightarrow> post_request \<times> work_item list" where
  "request_of w = (if w_type w = ''batch'' then batch_request w [] else single_request w)"


definition settle :: "int \<Rightarrow> post_answer \<Rightarrow> queue_item \<Rightarrow> queue_item" where
  "settle now a q = (if is_success a then q\<lparr>q_status := ''delivered''\<rparr>
     else q\<lparr>q_attempts := q_attempts q + 1, last_error := Some (answer_error a),
       next_attempt_at := now + min (2 ^ nat (q_attempts q + 1)) 3600 * SECOND\<rparr>)"

text \<open>An item with the answer to the request that stands for it, requests being numbered from \<open>k\<close>.\<close>

fun settle_item :: "int \<Rightarrow> (nat \<Rightarrow> post_request \<Rightarrow> post_answer) \<Rightarrow> nat \<Rightarrow> work_item list \<Rightarrow> queue_item \<Rightarrow> queue_item" where
  "settle_item now answer k [] q = q"
| "settle_item now answer k (w # ws) q = (if w_queue w = q_id q then settle now (answer k (fst (request_of w))) q
     else settle_item now answer (Suc k) ws q)"







lemma settle_fields [simp]: "q_id (settle now a q) = q_id q" "q_sub (settle now a q) = q_sub q"
  "q_event (settle now a q) = q_event q" "q_ledger (settle now a q) = q_ledger q"
  by (simp_all add: settle_def)

lemma settle_item_fields [simp]: "q_id (settle_item now answer k ws q) = q_id q"
  "q_sub (settle_item now answer k ws q) = q_sub q"
  "q_event (settle_item now answer k ws q) = q_event q" "q_ledger (settle_item now answer k ws q) = q_ledger q"
  by (induction now answer k ws q rule: settle_item.induct) simp_all






section \<open>Well-formed tables\<close>

text \<open>
  What every operation keeps: ids are distinct and below the counter, the limits of a subscription are in their
  ranges, and statuses are the ones the code names.
\<close>

definition sub_ok :: "subscription \<Rightarrow> bool" where
  "sub_ok s \<longleftrightarrow> 1 \<le> batch_size s \<and> batch_size s \<le> 1000 \<and> 100 \<le> batch_timeout_ms s \<and> batch_timeout_ms s \<le> 60000 \<and>
     sub_status s \<in> {''active'', ''cancelled''} \<and> sub_type s \<in> {''single'', ''batch''} \<and> 0 \<le> acked_ledger s \<and> 0 \<le> sub_from_ledger s \<and>
     (email_enabled s \<longrightarrow> (\<exists>a. sub_email s = Some a \<and> CHR ''@'' \<in> set a))"

definition item_ok :: "queue_item \<Rightarrow> bool" where
  "item_ok q \<longleftrightarrow> q_status q \<in> {''pending'', ''delivered''} \<and> 0 \<le> q_attempts q"

definition subs_ok :: "subs_db \<Rightarrow> bool" where
  "subs_ok db \<longleftrightarrow> distinct (map sub_id (subs db)) \<and> distinct (map q_id (queue db)) \<and>
     (\<forall>s\<in>set (subs db). sub_id s < next_id db \<and> sub_ok s) \<and> (\<forall>q\<in>set (queue db). q_id q < next_id db \<and> item_ok q)"

inductive subs_step :: "subs_db \<Rightarrow> subs_db \<Rightarrow> bool" where
  created: "subs_step db (fst (create_subscription env now (cached :: string option) b db))"
| cancelled: "subs_step db (fst (cancel_subscription i db))"
| acked: "subs_step db (fst (ack_subscription i l db))"
| batch_config: "subs_step db (fst (update_subscription_batch_config i u db))"
| email_config: "subs_step db (fst (update_subscription_email i addr b db))"
| enqueued: "subs_step db (enqueue_event now e l db)"
| worked: "subs_step db (fst (deliver_pending now answer db))"
| mailed: "subs_step db (email_tick now today send db)"
| paused: "subs_step db (fst (pause_subscription now i secs r db))"
| resumed: "subs_step db (fst (resume_subscription now i r db))"
| auto_resumed: "subs_step db (fst (auto_resume now db))"

lemma clamp_bounds: "lo \<le> hi \<Longrightarrow> lo \<le> clamp x lo hi \<and> clamp x lo hi \<le> (hi :: int)"
  by (simp add: clamp_def)

lemma subs_ok_update_subs:
  assumes "subs_ok db" "\<And>s. s \<in> set (subs db) \<Longrightarrow> P s \<Longrightarrow> sub_ok s \<Longrightarrow> sub_ok (f s)" "\<And>s. sub_id (f s) = sub_id s"
  shows "subs_ok (fst (update_subs P f db))"
proof -
  have "sub_id \<circ> (\<lambda>s. if P s then f s else s) = sub_id" using assms(3) by (auto simp: fun_eq_iff)
  then show ?thesis using assms unfolding subs_ok_def update_subs_def by auto
qed

lemma subs_ok_update_queue:
  assumes "subs_ok db" "\<And>q. item_ok q \<Longrightarrow> item_ok (f q)" "\<And>q. q_id (f q) = q_id q"
  shows "subs_ok (update_queue P f db)"
proof -
  have "q_id \<circ> (\<lambda>q. if P q then f q else q) = q_id" using assms(3) by (auto simp: fun_eq_iff)
  then show ?thesis using assms unfolding subs_ok_def update_queue_def by auto
qed

lemma subs_ok_mark [intro]: "subs_ok db \<Longrightarrow> subs_ok (mark_delivered P db)"
  unfolding mark_delivered_def by (rule subs_ok_update_queue) (auto simp: item_ok_def)

lemma ids_enumerate: "map (\<lambda>(k, s, e, l). q_id (new_item now (n + k) s e l)) (List.enumerate m xs) = map ((+) n) [m..<m + length xs]"
  by (induction xs arbitrary: m) (auto simp: new_item_def upt_conv_Cons simp del: upt_Suc)

lemma subs_ok_insert:
  assumes "subs_ok db" shows "subs_ok (insert_items now xs db)"
proof -
  let ?new = "map (\<lambda>(k, s, e, l). new_item now (next_id db + k) s e l) (List.enumerate 0 xs)"
  have ids: "map q_id ?new = map ((+) (next_id db)) [0..<length xs]"
    using ids_enumerate [of now "next_id db" 0 xs] by (simp add: comp_def case_prod_unfold)
  then have "q_id ` set ?new = (+) (next_id db) ` {0..<length xs}" by (metis list.set_map set_upt)
  then have "\<forall>q\<in>set ?new. next_id db \<le> q_id q \<and> q_id q < next_id db + length xs" by (metis (no_types, lifting) atLeastLessThan_iff image_iff le_add1 nat_add_left_cancel_less)
  moreover have "distinct (map q_id ?new)" unfolding ids by (simp add: distinct_map inj_on_def)
  moreover have "\<forall>q\<in>set ?new. item_ok q" by (auto simp: new_item_def item_ok_def)
  moreover have "distinct (map q_id (queue db))" "\<forall>q\<in>set (queue db). q_id q < next_id db \<and> item_ok q"
    using assms by (simp_all add: subs_ok_def)
  ultimately have "distinct (map q_id (queue db @ ?new))" "\<forall>q\<in>set (queue db @ ?new). q_id q < next_id db + length xs \<and> item_ok q"
    unfolding map_append distinct_append set_append set_map ball_Un by fastforce+
  then show ?thesis using assms unfolding subs_ok_def insert_items_def by fastforce
qed

lemma subs_ok_create: assumes "subs_ok db" shows "subs_ok (fst (create_subscription env now cached b db))"
proof (cases "cached = None \<and> (\<exists>ty. create_checks env b = Inr ty)")
  case True
  then obtain ty where ty: "cached = None" "create_checks env b = Inr ty" by blast
  then have "0 \<le> c_from_ledger b" "ty \<in> {''single'', ''batch''}"
    by (auto simp: create_checks_def and_then_def require_def subscription_types_def Let_def split: sum.splits if_splits)
  then have "sub_ok (new_subscription (next_id db) env b ty)" by (auto simp: sub_ok_def new_subscription_def clamp_def)
  then have "subs_ok (db\<lparr>subs := subs db @ [new_subscription (next_id db) env b ty], next_id := next_id db + 1\<rparr>)"
    using assms by (auto simp: subs_ok_def new_subscription_def)
  then show ?thesis using ty by (simp add: create_subscription_def subs_ok_insert Let_def)
qed (use assms in \<open>auto simp: create_subscription_def split: option.splits sum.splits\<close>)

lemma subs_ok_retry_all: "subs_ok db \<Longrightarrow> subs_ok (fst (retry_all now err ws db))"
proof (induction now err ws db rule: retry_all.induct)
  case (2 now err w ws db)
  have "subs_ok db'" if "schedule_retry now (w_queue w) err db = Some db'" for db'
    using that 2(2) by (auto simp: schedule_retry_def item_ok_def split: if_splits intro!: subs_ok_update_queue)
  then show ?case using 2 by (auto split: option.splits)
qed simp

lemma subs_ok_post_all: "subs_ok db \<Longrightarrow> subs_ok (fst (post_all now rs answer (db, n, sent)))"
proof (induction rs arbitrary: db n sent)
  case (Cons r rs)
  have ret: "subs_ok (fst (retry_all now err ws db))" for err ws using Cons.prems by (rule subs_ok_retry_all)
  show ?case
  proof (cases "is_success (answer (length sent) (fst r))")
    case True
    then show ?thesis using Cons.IH [OF subs_ok_mark [OF Cons.prems]] by (simp add: post_all_Cons)
  next
    case False
    obtain db' ok where "retry_all now (answer_error (answer (length sent) (fst r))) (snd r) db = (db', ok)" by force
    with False ret [of "answer_error (answer (length sent) (fst r))" "snd r"] Cons.IH [of db']
    show ?thesis by (simp add: post_all_Cons)
  qed
qed simp

lemma subs_ok_mail: "subs_ok db \<Longrightarrow> subs_ok (mail_one today send m db)"
proof -
  have same: "subs_ok (log_mail m st e d) = subs_ok d" for st e d by (simp add: subs_ok_def log_mail_def)
  assume ok: "subs_ok db"
  obtain d allowed where r: "check_and_increment_email_rate_limit today (m_address m) db = (d, allowed)" by force
  then have "subs_ok d" using ok by (auto simp: subs_ok_def check_and_increment_email_rate_limit_def Let_def)
  then show ?thesis unfolding mail_one_def r by (auto simp: same split: bool.split option.split)
qed

lemma subs_ok_mails: "subs_ok db \<Longrightarrow> subs_ok (fold (mail_one today send) ms db)"
  by (induction ms arbitrary: db) (auto intro: subs_ok_mail)

lemma subs_ok_pause_log [simp]: "subs_ok (log_pause i a r u now db) = subs_ok db"
  by (simp add: subs_ok_def log_pause_def)

lemma subs_step_ok:
  assumes "subs_step db db'" "subs_ok db" shows "subs_ok db'"
  using assms
proof (induction rule: subs_step.induct)
  case (cancelled db i)
  have "subs_ok (fst (update_subs (\<lambda>s. sub_id s = i \<and> sub_status s = ''active'') (\<lambda>s. s\<lparr>sub_status := ''cancelled''\<rparr>) db))"
    using cancelled by (rule subs_ok_update_subs) (auto simp: sub_ok_def)
  then show ?case by (auto simp: cancel_subscription_def split: prod.split)
next
  case (acked db i l)
  have "subs_ok (fst (update_subs (\<lambda>s. sub_id s = i \<and> sub_status s = ''active'' \<and> acked_ledger s < l) (\<lambda>s. s\<lparr>acked_ledger := l\<rparr>) db))"
    using acked by (rule subs_ok_update_subs) (auto simp: sub_ok_def)
  then show ?case by (auto simp: ack_subscription_def split: prod.split)
next
  case (batch_config db i u)
  have "subs_ok (fst (update_subs P (\<lambda>s. s\<lparr>sub_type := coalesce (u_type u) (sub_type s),
      batch_size := coalesce (map_option (\<lambda>n. clamp n 1 1000) (u_batch_size u)) (batch_size s),
      batch_timeout_ms := coalesce (map_option (\<lambda>n. clamp n 100 60000) (u_batch_timeout_ms u)) (batch_timeout_ms s)\<rparr>) db))"
    if "when_given (u_type u) (\<lambda>t. require (t \<in> set subscription_types) TYPE_ERROR) = Inr ()" for P
    using batch_config
    by (rule subs_ok_update_subs)
      (use that in \<open>auto simp: sub_ok_def coalesce_def clamp_def subscription_types_def when_given_def require_def split: option.splits if_splits\<close>)
  then show ?case using batch_config
    by (cases "when_given (u_type u) (\<lambda>t. require (t \<in> set subscription_types) TYPE_ERROR)")
      (simp_all add: update_subscription_batch_config_def Let_def case_prod_unfold)
next
  case (email_config db i addr b)
  have "subs_ok (fst (update_subs P (\<lambda>s. s\<lparr>sub_email := addr, email_enabled := b\<rparr>) db))"
    if "(if b then check_email addr else Inr ()) = Inr ()" for P
    using email_config
    by (rule subs_ok_update_subs) (use that in \<open>auto simp: sub_ok_def check_email_def require_def split: option.splits if_splits\<close>)
  then show ?case using email_config
    by (cases "if b then check_email addr else Inr ()") (simp_all add: update_subscription_email_def case_prod_unfold)
next
  case (paused db now i secs r)
  have "subs_ok (fst (update_subs P (\<lambda>s. s\<lparr>pause_until := u, pause_reason := r, paused_at := Some now\<rparr>) db))" for P u
    using paused by (rule subs_ok_update_subs) (auto simp: sub_ok_def)
  then show ?case by (simp add: pause_subscription_def Let_def case_prod_unfold)
next
  case (resumed db now i r)
  have "subs_ok (fst (update_subs P (\<lambda>s. s\<lparr>pause_until := None, pause_reason := None\<rparr>) db))" for P
    using resumed by (rule subs_ok_update_subs) (auto simp: sub_ok_def)
  then show ?case by (simp add: resume_subscription_def case_prod_unfold)
next
  case (auto_resumed db now)
  then show ?case unfolding auto_resume_def by (rule subs_ok_update_subs) (auto simp: sub_ok_def)
qed (simp_all add: subs_ok_create enqueue_event_def subs_ok_insert deliver_pending_def subs_ok_post_all email_tick_def subs_ok_mails)

definition empty_subs_db :: subs_db where
  "empty_subs_db = \<lparr>subs = [], queue = [], event_rows = [], next_id = 0, send_counts = (\<lambda>_. 0), email_log = [], pause_log = []\<rparr>"

text \<open>The tables along a run; the indexer may store events between the operations.\<close>

inductive subs_run :: "subs_db \<Rightarrow> bool" where
  start: "subs_run empty_subs_db"
| stored: "subs_run db \<Longrightarrow> subs_run (db\<lparr>event_rows := event_rows db @ [e]\<rparr>)"
| step: "subs_run db \<Longrightarrow> subs_step db db' \<Longrightarrow> subs_run db'"

lemma subs_run_ok: "subs_run db \<Longrightarrow> subs_ok db"
  by (induction rule: subs_run.induct) (auto simp: subs_ok_def empty_subs_db_def dest: subs_step_ok [unfolded subs_ok_def])

theorem tables_well_formed:
  assumes "subs_run db" "s \<in> set (subs db)" "q \<in> set (queue db)"
  shows "1 \<le> batch_size s \<and> batch_size s \<le> 1000 \<and> 100 \<le> batch_timeout_ms s \<and> batch_timeout_ms s \<le> 60000 \<and>
    sub_status s \<in> {''active'', ''cancelled''} \<and> sub_type s \<in> {''single'', ''batch''} \<and>
    (email_enabled s \<longrightarrow> (\<exists>a. sub_email s = Some a \<and> CHR ''@'' \<in> set a)) \<and>
    q_status q \<in> {''pending'', ''delivered''} \<and> distinct (map q_id (queue db)) \<and> distinct (map sub_id (subs db))"
  using subs_run_ok [OF assms(1)] assms(2,3) by (auto simp: subs_ok_def sub_ok_def item_ok_def)

section \<open>Pausing has no effect on delivery\<close>

lemma retry_all_queue:
  "queue d = queue d' \<Longrightarrow> queue (fst (retry_all now err ws d)) = queue (fst (retry_all now err ws d')) \<and>
     snd (retry_all now err ws d) = snd (retry_all now err ws d')"
proof (induction now err ws d arbitrary: d' rule: retry_all.induct)
  case (2 now err w ws d)
  show ?case
  proof (cases "list_all (\<lambda>q. q_id q = w_queue w \<longrightarrow> pow2 (q_attempts q + 1) \<noteq> None) (queue d)")
    case True
    let ?f = "\<lambda>d. update_queue (\<lambda>q. q_id q = w_queue w) (\<lambda>q. q\<lparr>q_attempts := q_attempts q + 1, last_error := Some err,
           next_attempt_at := now + min (the (pow2 (q_attempts q + 1))) 3600 * SECOND\<rparr>) d"
    have s: "schedule_retry now (w_queue w) err d = Some (?f d)" "schedule_retry now (w_queue w) err d' = Some (?f d')"
      using True 2(2) by (simp_all add: schedule_retry_def)
    have "queue (?f d) = queue (?f d')" using 2(2) by (simp add: update_queue_def)
    from 2(1) [OF s(1) this] show ?thesis by (simp add: s)
  next
    case False
    then show ?thesis using 2(2) by (simp add: schedule_retry_def)
  qed
qed simp

lemma post_all_queue:
  "queue d = queue d' \<Longrightarrow> queue (fst (post_all now rs answer (d, n, sent))) = queue (fst (post_all now rs answer (d', n, sent))) \<and>
     snd (post_all now rs answer (d, n, sent)) = snd (post_all now rs answer (d', n, sent))"
proof (induction rs arbitrary: d d' n sent)
  case (Cons r rs)
  show ?case
  proof (cases "is_success (answer (length sent) (fst r))")
    case True
    have "queue (mark_delivered P d) = queue (mark_delivered P d')" for P using Cons.prems by (simp add: mark_delivered_def update_queue_def)
    note IH = Cons.IH [OF this, of "\<lambda>q. q_id q \<in> w_queue ` set (snd r)" "n + length (snd r)" "sent @ [fst r]"]
    show ?thesis unfolding post_all_Cons using True IH by simp
  next
    case False
    let ?r = "retry_all now (answer_error (answer (length sent) (fst r))) (snd r)"
    obtain a ok where a: "?r d = (a, ok)" by force
    obtain b ok' where b: "?r d' = (b, ok')" by force
    have "queue a = queue b" "ok = ok'" using retry_all_queue [OF Cons.prems] a b by (metis fst_conv snd_conv)+
    with Cons.IH [of a b n "sent @ [fst r]"] False show ?thesis by (simp add: post_all_Cons a b)
  qed
qed simp

definition same_delivery :: "subscription \<Rightarrow> subscription \<Rightarrow> bool" where
  "same_delivery s s' \<longleftrightarrow> sub_id s' = sub_id s \<and> sub_url s' = sub_url s \<and> sub_status s' = sub_status s \<and> sub_type s' = sub_type s \<and>
     batch_size s' = batch_size s \<and> batch_timeout_ms s' = batch_timeout_ms s"

lemma find_map_same:
  assumes "\<And>s. same_delivery s (f s)"
  shows "List.find (\<lambda>s. sub_id s = i) (map f xs) = map_option f (List.find (\<lambda>s. sub_id s = i) xs)"
  using assms by (induction xs) (auto simp: same_delivery_def)

lemma due_work_same:
  assumes "\<And>s. same_delivery s (f s)" "subs d' = map f (subs d)" "queue d' = queue d" "event_rows d' = event_rows d"
  shows "due_work now d' = due_work now d"
proof -
  have "work_of d' now q = work_of d now q" for q
  proof (cases "find_sub (q_sub q) d")
    case None
    then show ?thesis using assms find_map_same [OF assms(1)] by (simp add: work_of_def find_sub_def event_of_def)
  next
    case (Some s)
    then have "find_sub (q_sub q) d' = Some (f s)" using assms find_map_same [OF assms(1)] by (simp add: find_sub_def)
    then show ?thesis using Some assms(1) [of s] assms(4)
      by (simp add: work_of_def event_of_def same_delivery_def split: option.split)
  qed
  then have "work_of d' now = work_of d now" by (rule ext)
  then show ?thesis by (simp add: due_work_def assms(3))
qed

text \<open>
  Pausing a subscription, with or without a duration, changes neither the requests of any later cycle of the
  worker nor what it does to the queue.
\<close>

theorem pause_no_effect:
  "snd (deliver_pending now answer (fst (pause_subscription t i secs r db))) = snd (deliver_pending now answer db) \<and>
   queue (fst (deliver_pending now answer (fst (pause_subscription t i secs r db)))) = queue (fst (deliver_pending now answer db))"
proof -
  let ?u = "map_option (\<lambda>s. t + s * SECOND) secs"
  let ?f = "\<lambda>s. if sub_id s = i \<and> sub_status s = ''active'' then s\<lparr>pause_until := ?u, pause_reason := r, paused_at := Some t\<rparr> else s"
  let ?db = "fst (pause_subscription t i secs r db)"
  have db: "subs ?db = map ?f (subs db)" "queue ?db = queue db" "event_rows ?db = event_rows db"
    by (simp_all add: pause_subscription_def update_subs_def log_pause_def Let_def)
  have "due_work now ?db = due_work now db" by (rule due_work_same [OF _ db]) (simp add: same_delivery_def)
  then show ?thesis using post_all_queue [OF db(2)] by (simp add: deliver_pending_def)
qed

lemma find_sub_update:
  assumes "\<And>s. sub_id (f s) = sub_id s"
  shows "find_sub i (fst (update_subs P f db)) = map_option (\<lambda>s. if P s then f s else s) (find_sub i db)"
proof -
  have "List.find (\<lambda>s. sub_id s = i) (map (\<lambda>s. if P s then f s else s) xs)
      = map_option (\<lambda>s. if P s then f s else s) (List.find (\<lambda>s. sub_id s = i) xs)" for xs
    using assms by (induction xs) auto
  then show ?thesis by (simp add: find_sub_def update_subs_def)
qed

text \<open>
  A pause without a duration is stored as no pause at all: the answer says paused, but the status does not
  and a resume finds nothing.
\<close>

theorem endless_pause_lost:
  assumes "subs_ok db" "find_sub i db = Some s" "sub_status s = ''active''"
  shows "case pause_subscription now i None r db of (db', res) \<Rightarrow>
    res = Inr None \<and> (\<exists>x. get_pause_resume_status t i db' = Inr (False, None, r, False, x)) \<and>
    snd (resume_subscription t i r' db') = Inl NotFound"
proof -
  let ?P = "\<lambda>s. sub_id s = i \<and> sub_status s = ''active''"
  let ?f = "\<lambda>s. s\<lparr>pause_until := None :: int option, pause_reason := r, paused_at := Some now\<rparr>"
  let ?db = "fst (pause_subscription now i None r db)"
  have s: "s \<in> set (subs db)" "sub_id s = i" using assms(2) unfolding find_sub_def find_Some_iff by auto
  then have "filter ?P (subs db) \<noteq> []" using assms(3) by (auto simp: filter_empty_conv)
  then have p: "snd (update_subs ?P ?f db) \<noteq> 0" by (simp add: update_subs_def)
  then have res: "snd (pause_subscription now i None r db) = Inr None" "?db = log_pause i ''paused'' r None now (fst (update_subs ?P ?f db))"
    by (simp_all add: pause_subscription_def case_prod_unfold)
  have found: "find_sub i ?db = Some (?f s)"
    using find_sub_update [of ?f i ?P db] assms(2,3) s(2) by (simp add: res(2) log_pause_def find_sub_def)
  have "\<not> (sub_id s' = i \<and> pause_until s' \<noteq> None)" if s': "s' \<in> set (subs ?db)" for s'
  proof
    assume "sub_id s' = i \<and> pause_until s' \<noteq> None"
    moreover obtain s0 where s0: "s0 \<in> set (subs db)" "s' = (if ?P s0 then ?f s0 else s0)"
      using s' by (auto simp: res(2) log_pause_def update_subs_def)
    ultimately have "sub_id s0 = i" by (auto split: if_splits)
    then have "s0 = s" using assms(1) s s0(1) by (metis subs_ok_def distinct_map inj_onD)
    then show False using s0 s assms(3) \<open>sub_id s' = i \<and> pause_until s' \<noteq> None\<close> by simp
  qed
  then have none: "filter (\<lambda>s. sub_id s = i \<and> pause_until s \<noteq> None) (subs ?db) = []" by (simp add: filter_empty_conv)
  have "snd (resume_subscription t i r' ?db) = Inl NotFound"
    unfolding resume_subscription_def update_subs_def none by simp
  moreover have "\<exists>x. get_pause_resume_status t i ?db = Inr (False, None, r, False, x)"
    unfolding get_pause_resume_status_def found by simp
  ultimately show ?thesis using res(1) by (simp add: case_prod_beta)
qed

section \<open>The daily limit of mails\<close>

text \<open>Mails the worker tried to send to an address.\<close>

definition tried :: "string \<Rightarrow> subs_db \<Rightarrow> int" where
  "tried a db = int (length (filter (\<lambda>r. log_address r = a \<and> log_status r \<noteq> ''rate_limited'') (email_log db)))"

definition email_day :: "int \<Rightarrow> (int \<times> (mail_work \<Rightarrow> string option)) list \<Rightarrow> subs_db \<Rightarrow> subs_db" where
  "email_day today ticks db = fold (\<lambda>(now, send). email_tick now today send) ticks db"

definition allowance :: "string \<Rightarrow> int \<Rightarrow> subs_db \<Rightarrow> int" where
  "allowance a today db = tried a db + max 0 (EMAIL_DAILY_LIMIT - send_counts db (a, today))"

lemma mail_one_allowance: "allowance a today (mail_one today send m db) \<le> allowance a today db"
proof -
  obtain d ok where r: "check_and_increment_email_rate_limit today (m_address m) db = (d, ok)" by force
  then have d: "d = db\<lparr>send_counts := (send_counts db)((m_address m, today) := send_counts db (m_address m, today) + 1)\<rparr>"
    and ok: "ok \<longleftrightarrow> send_counts db (m_address m, today) + 1 \<le> EMAIL_DAILY_LIMIT"
    by (auto simp: check_and_increment_email_rate_limit_def Let_def)
  show ?thesis
  proof (cases ok)
    case True
    then show ?thesis using ok unfolding mail_one_def r
      by (auto simp: d allowance_def tried_def log_mail_def mark_delivered_def update_queue_def split: option.split)
  next
    case False
    then show ?thesis using ok unfolding mail_one_def r
      by (auto simp: d allowance_def tried_def log_mail_def)
  qed
qed

lemma fold_mail_allowance: "allowance a today (fold (mail_one today send) ms db) \<le> allowance a today db"
  by (induction ms arbitrary: db) (auto intro: order_trans mail_one_allowance)

lemma email_day_allowance: "allowance a today (email_day today ticks db) \<le> allowance a today db"
  unfolding email_day_def
proof (induction ticks arbitrary: db)
  case (Cons x ticks)
  then show ?case unfolding fold.simps comp_def case_prod_unfold email_tick_def
    by (rule order_trans [OF _ fold_mail_allowance])
qed simp

theorem email_daily_limit:
  "tried a (email_day today ticks db) \<le> tried a db + max 0 (EMAIL_DAILY_LIMIT - send_counts db (a, today))"
  using email_day_allowance [of a today ticks db] by (simp add: allowance_def)

section \<open>What is enqueued\<close>

lemma map_enumerate_items:
  "map (\<lambda>q. (q_sub q, q_event q, q_ledger q)) (map (\<lambda>(k, s, e, l). new_item now (n + k) s e l) (List.enumerate m xs)) = xs"
  by (induction xs arbitrary: m) (auto simp: new_item_def)

lemma insert_items_fields:
  "map (\<lambda>q. (q_sub q, q_event q, q_ledger q)) (queue (insert_items now xs db)) =
     map (\<lambda>q. (q_sub q, q_event q, q_ledger q)) (queue db) @ xs"
  unfolding insert_items_def using map_enumerate_items [of now "next_id db" 0 xs] by simp

text \<open>Creation replays the stored events from the starting ledger on, in ledger order, each once.\<close>

theorem create_replays:
  assumes "create_subscription env now None b db = (db', Inr (Inr s))"
  shows "map (\<lambda>q. (q_sub q, q_event q, q_ledger q)) (queue db') = map (\<lambda>q. (q_sub q, q_event q, q_ledger q)) (queue db) @
      map (\<lambda>e. (sub_id s, ev_id e, ev_ledger e)) (sort_key ev_ledger (filter (\<lambda>e. sub_from_ledger s \<le> ev_ledger e) (event_rows db))) \<and>
    subs db' = subs db @ [s] \<and> sub_status s = ''active'' \<and> sub_url s = c_url b"
  using assms insert_items_fields
  by (auto simp: create_subscription_def new_subscription_def Let_def split: sum.splits) (simp add: insert_items_def)

text \<open>
  Nothing in the table makes a pair of a subscription and an event unique, so the conflict clause of the insert
  never applies: an event that is enqueued again is queued again.
\<close>

lemma filter_distinct_key: "distinct (map f xs) \<Longrightarrow> x \<in> set xs \<Longrightarrow> filter (\<lambda>y. f y = f x) xs = [x]"
proof (induction xs)
  case (Cons y ys)
  have "filter (\<lambda>z. f z = f y) ys = []" using Cons.prems(1) by (auto simp: filter_empty_conv) (metis image_eqI)
  then show ?case using Cons by auto
qed simp

theorem enqueue_duplicates:
  assumes "s \<in> set (subs db)" "sub_status s = ''active''" "sub_from_ledger s \<le> l" "distinct (map sub_id (subs db))"
  shows "length (filter (\<lambda>q. q_sub q = sub_id s \<and> q_event q = e) (queue (enqueue_event now e l db))) =
    length (filter (\<lambda>q. q_sub q = sub_id s \<and> q_event q = e) (queue db)) + 1"
proof -
  let ?act = "filter (\<lambda>s. sub_status s = ''active'' \<and> sub_from_ledger s \<le> l) (subs db)"
  have cnt: "length (filter (\<lambda>q. q_sub q = i \<and> q_event q = e) qs) = length (filter (\<lambda>(x, y, z). x = i \<and> y = e)
      (map (\<lambda>q. (q_sub q, q_event q, q_ledger q)) qs))" for i qs by (simp add: filter_map comp_def)
  have "distinct (map sub_id ?act)" "s \<in> set ?act" using assms by (simp_all add: distinct_map_filter)
  note one = filter_distinct_key [OF this]
  show ?thesis unfolding enqueue_event_def cnt insert_items_fields using one by (simp add: filter_map comp_def)
qed

text \<open>An acknowledgement takes the items up to its ledger off the queue and never moves the acknowledged ledger back.\<close>

theorem ack_effect:
  assumes "ack_subscription i l db = (db', Inr l')"
  shows "l' = l \<and> (\<forall>q\<in>set (queue db'). q_sub q = i \<and> q_ledger q \<le> l \<longrightarrow> q_status q \<noteq> ''pending'') \<and>
    list_all2 (\<lambda>s s'. acked_ledger s \<le> acked_ledger s' \<and> (sub_id s \<noteq> i \<longrightarrow> s' = s)) (subs db) (subs db')"
proof -
  let ?P = "\<lambda>s. sub_id s = i \<and> sub_status s = ''active'' \<and> acked_ledger s < l"
  let ?f = "\<lambda>s. s\<lparr>acked_ledger := l\<rparr>"
  let ?u = "fst (update_subs ?P ?f db)"
  have db': "db' = mark_delivered (\<lambda>q. q_sub q = i \<and> q_ledger q \<le> l \<and> q_status q = ''pending'') ?u" "l' = l"
    using assms by (auto simp: ack_subscription_def case_prod_unfold split: if_splits)
  have queue_eq: "queue db' = map (\<lambda>q. if q_sub q = i \<and> q_ledger q \<le> l \<and> q_status q = ''pending'' then q\<lparr>q_status := ''delivered''\<rparr> else q) (queue ?u)"
    unfolding db'(1) mark_delivered_def update_queue_def by simp
  have "\<forall>q\<in>set (queue db'). q_sub q = i \<and> q_ledger q \<le> l \<longrightarrow> q_status q \<noteq> ''pending''"
  proof (intro ballI impI)
    fix q assume q: "q \<in> set (queue db')" "q_sub q = i \<and> q_ledger q \<le> l"
    from q(1) obtain q0 where q0: "q = (if q_sub q0 = i \<and> q_ledger q0 \<le> l \<and> q_status q0 = ''pending'' then q0\<lparr>q_status := ''delivered''\<rparr> else q0)"
      unfolding queue_eq set_map by (elim imageE)
    show "q_status q \<noteq> ''pending''"
    proof (cases "q_sub q0 = i \<and> q_ledger q0 \<le> l \<and> q_status q0 = ''pending''")
      case True
      then have "q = q0\<lparr>q_status := ''delivered''\<rparr>" by (simp only: q0 if_True simp_thms)
      then have "q_status q = ''delivered''" by simp
      then show ?thesis by simp
    next
      case False
      then have "q = q0" by (simp only: q0 if_False)
      then show ?thesis using False q(2) by blast
    qed
  qed
  moreover have "subs db' = map (\<lambda>s. if ?P s then ?f s else s) (subs db)"
    unfolding db'(1) mark_delivered_def update_queue_def update_subs_def by simp
  ultimately show ?thesis using db'(2) by (auto simp: list_all2_conv_all_nth)
qed

section \<open>Instances\<close>

definition sample_sub :: "string \<Rightarrow> subscription" where
  "sample_sub ty = \<lparr>sub_id = 1, sub_url = ''https://a'', sub_from_ledger = 5, acked_ledger = 0, sub_status = ''active'', sub_type = ty,
     batch_size = 10, batch_timeout_ms = 5000, sub_email = None, email_enabled = False, pause_until = None, pause_reason = None, paused_at = None\<rparr>"

definition sample_item :: "nat \<Rightarrow> int \<Rightarrow> queue_item" where
  "sample_item i n = \<lparr>q_id = i, q_sub = 1, q_event = 7, q_ledger = 5, q_status = ''pending'', q_attempts = n, next_attempt_at = 0, last_error = None\<rparr>"

definition sample_db :: "int \<Rightarrow> subs_db" where
  "sample_db n = \<lparr>subs = [sample_sub ''batch''], queue = [sample_item 2 n], event_rows = [\<lparr>ev_id = 7, ev_ledger = 5, ev_data = JNull\<rparr>],
     next_id = 9, send_counts = (\<lambda>_. 0), email_log = [], pause_log = []\<rparr>"





theorem endless_pause_lost_witness:
  "snd (resume_subscription 9 1 None (fst (pause_subscription 3 1 None (Some ''maintenance'') (sample_db 0)))) = Inl NotFound"
proof -
  have "subs_ok (sample_db 0)" "find_sub 1 (sample_db 0) = Some (sample_sub ''batch'')" "sub_status (sample_sub ''batch'') = ''active''"
    by (simp_all add: sample_db_def sample_item_def sample_sub_def subs_ok_def sub_ok_def item_ok_def find_sub_def)
  from endless_pause_lost [OF this, where now = 3 and r = "Some ''maintenance''" and t = 9 and r' = None] show ?thesis by (simp add: case_prod_beta)
qed

end
