(* ===== verification/Event_Stream.thy ===== *)
theory Event_Stream
  imports Event_Listing Sse_Ring_Buffer
begin

text \<open>
  Model of the live endpoints of \<open>src/handlers/events.rs\<close>: \<open>stream_events_internal\<close> with its two entry points,
  \<open>stream_events_multi\<close> and \<open>ws_events\<close>. A stream is the frames of a replay, a sentinel, and then what the
  broadcast channel, the timer and the shutdown signal make of it; connections are counted while they are open.
  The lemmas show which events a client that reconnects receives, when it loses some, and what the counters count.
\<close>

section \<open>Connection counters\<close>

record sse_config =
  sse_max_connections :: nat
  sse_max_per_ip :: nat
  replay_limit :: nat
  max_lag :: nat
  keepalive_ms :: nat
  multi_max_ids :: nat

record sse_counters =
  open_connections :: nat
  open_per_ip :: "string \<Rightarrow> nat"

definition no_connections :: sse_counters where
  "no_connections = \<lparr>open_connections = 0, open_per_ip = (\<lambda>_. 0)\<rparr>"

datatype stream_error =
  Sse_limit | Sse_ip_limit nat | Invalid_format string | Invalid_contract string
| Ids_empty | Ids_too_many nat nat | Ids_invalid "string list"

definition stream_status :: "stream_error \<Rightarrow> nat" where
  "stream_status e = (case e of Sse_limit \<Rightarrow> 503 | Sse_ip_limit n \<Rightarrow> 429 | _ \<Rightarrow> 400)"

definition admit_connection :: "sse_config \<Rightarrow> string \<Rightarrow> sse_counters \<Rightarrow> stream_error + sse_counters" where
  "admit_connection cfg ip s =
     (if sse_max_connections cfg \<le> open_connections s then Inl Sse_limit
      else if 0 < sse_max_per_ip cfg \<and> sse_max_per_ip cfg \<le> open_per_ip s ip then Inl (Sse_ip_limit (sse_max_per_ip cfg))
      else Inr (s\<lparr>open_connections := open_connections s + 1,
          open_per_ip := (if 0 < sse_max_per_ip cfg then (open_per_ip s)(ip := open_per_ip s ip + 1) else open_per_ip s)\<rparr>))"

definition release_connection :: "sse_config \<Rightarrow> string \<Rightarrow> sse_counters \<Rightarrow> sse_counters" where
  "release_connection cfg ip s = s\<lparr>open_connections := open_connections s - 1,
     open_per_ip := (if 0 < sse_max_per_ip cfg then (open_per_ip s)(ip := open_per_ip s ip - 1) else open_per_ip s)\<rparr>"

section \<open>Requests\<close>

record StreamParams =
  s_contract :: "string option"
  s_fields :: "string option"
  s_event_type :: "EventType option"
  s_format :: "string option"

text \<open>What the handlers take from their surroundings: text forms of values, and the stored events.\<close>

record stream_env =
  event_text :: "SorobanEvent \<Rightarrow> string"
  json_text :: "json \<Rightarrow> string"
  record_text :: "event_rec \<Rightarrow> string"
  uuid_text :: "nat \<Rightarrow> string"
  parse_uuid :: "string \<Rightarrow> nat option"
  stored :: "event_rec list"
  opened :: "json \<Rightarrow> json"
  drawn :: "json \<Rightarrow> ScValFormat \<Rightarrow> json"
  time_text :: "int \<Rightarrow> string"

definition uuid_laws :: "stream_env \<Rightarrow> bool" where
  "uuid_laws env \<longleftrightarrow> (\<forall>u. parse_uuid env (uuid_text env u) = Some u)"

definition parse_stream_format :: "string option \<Rightarrow> stream_error + ScValFormat" where
  "parse_stream_format f = (case f of None \<Rightarrow> Inr Json
     | Some s \<Rightarrow> (case ScValFormat_from_str s of Inl e \<Rightarrow> Inl (Invalid_format e) | Inr x \<Rightarrow> Inr x))"

text \<open>Unknown names are skipped; no known name at all means no projection.\<close>

definition field_projection :: "string option \<Rightarrow> string list option" where
  "field_projection f = (case f of None \<Rightarrow> None
     | Some s \<Rightarrow> if trim s = [] then None
         else (let cols = filter (\<lambda>c. c \<in> set ALLOWED_FIELDS) (map trim (split_on (CHR '','') (trim s)))
               in if cols = [] then None else Some cols))"

section \<open>Replay\<close>

definition event_matches :: "(string \<Rightarrow> bool) \<Rightarrow> EventType option \<Rightarrow> SorobanEvent \<Rightarrow> bool" where
  "event_matches contracts et e \<longleftrightarrow> contracts (contract_id e) \<and>
     (case et of None \<Rightarrow> True | Some t \<Rightarrow> event_type e = EventType_display t)"

definition ring_replay ::
  "sse_config \<Rightarrow> (string \<Rightarrow> bool) \<Rightarrow> EventType option \<Rightarrow> uuid option \<Rightarrow> SseRingBuffer \<Rightarrow> SorobanEvent list" where
  "ring_replay cfg contracts et last_id buf = (case last_id of None \<Rightarrow> []
     | Some i \<Rightarrow> (case events_since i buf of None \<Rightarrow> []
         | Some evs \<Rightarrow> take (replay_limit cfg) (filter (event_matches contracts et) evs)))"

text \<open>
  \<open>created_at > (SELECT created_at FROM events WHERE id = $1)\<close>: without such a row the condition is null, and no
  row is selected.
\<close>

definition created_after :: "event_rec list \<Rightarrow> nat \<Rightarrow> event_rec \<Rightarrow> bool" where
  "created_after rows i r = (case List.find (\<lambda>r. e_id r = i) rows of None \<Rightarrow> False | Some r0 \<Rightarrow> e_created_at r0 < e_created_at r)"

definition db_rows :: "sse_config \<Rightarrow> (event_rec \<Rightarrow> bool) \<Rightarrow> nat \<Rightarrow> event_rec list \<Rightarrow> event_rec list" where
  "db_rows cfg P i rows = take (replay_limit cfg) (sort_key e_created_at (filter (\<lambda>r. created_after rows i r \<and> P r) rows))"

text \<open>
  The row type needs the columns without a default; a statement that does not select one of them cannot be
  decoded, and the handlers take an error of the statement for no rows.
\<close>

definition required_columns :: "string list" where
  "required_columns = [''id'', ''contract_id'', ''event_type'', ''tx_hash'', ''ledger'', ''timestamp'', ''event_data'',
     ''event_data_normalized'', ''created_at'']"

definition fetch_rows :: "string list \<Rightarrow> event_rec list \<Rightarrow> event_rec list option" where
  "fetch_rows cols rs = (if list_all (\<lambda>r. set required_columns \<subseteq> set cols \<and> \<not> isl (EventType_from_str (e_type r))) rs
     then Some rs else None)"

definition single_columns :: "string list" where
  "single_columns = [''id'', ''contract_id'', ''event_type'', ''tx_hash'', ''ledger'', ''timestamp'', ''event_data'',
     ''event_data_normalized'', ''created_at'', ''schema_version'', ''total_count'']"

definition multi_columns :: "string list" where
  "multi_columns = [''id'', ''contract_id'', ''event_type'', ''tx_hash'', ''ledger'', ''timestamp'', ''event_data'',
     ''created_at'', ''total_count'']"

definition or_none :: "event_rec list option \<Rightarrow> event_rec list" where
  "or_none x = (case x of None \<Rightarrow> [] | Some rs \<Rightarrow> rs)"

definition db_replay_single ::
  "sse_config \<Rightarrow> string option \<Rightarrow> uuid option \<Rightarrow> SorobanEvent list \<Rightarrow> event_rec list \<Rightarrow> event_rec list" where
  "db_replay_single cfg contract last_id ring rows =
     (case last_id of Some i \<Rightarrow> if ring = []
        then or_none (fetch_rows single_columns (db_rows cfg (\<lambda>r. case contract of None \<Rightarrow> True | Some c \<Rightarrow> e_contract r = c) i rows))
        else []
      | None \<Rightarrow> [])"

definition db_replay_multi ::
  "sse_config \<Rightarrow> string list \<Rightarrow> string option \<Rightarrow> uuid option \<Rightarrow> SorobanEvent list \<Rightarrow> event_rec list \<Rightarrow> event_rec list" where
  "db_replay_multi cfg ids tid last_id ring rows =
     (case last_id of Some i \<Rightarrow> if ring = []
        then or_none (fetch_rows multi_columns (db_rows cfg (\<lambda>r. e_contract r \<in> set ids \<and> (case tid of None \<Rightarrow> True | Some t \<Rightarrow> e_tenant r = Some t)) i rows))
        else []
      | None \<Rightarrow> [])"

section \<open>Frames\<close>

record frame =
  fr_event :: "string option"
  fr_id :: "string option"
  fr_retry :: "nat option"
  fr_data :: string

text \<open>The id of a frame: the id from the buffer, if the event carries one.\<close>

definition frame_id :: "stream_env \<Rightarrow> SorobanEvent \<Rightarrow> string" where
  "frame_id env e = (case sse_id e of Some u \<Rightarrow> uuid_text env u | None \<Rightarrow> tx_hash e @ ''-'' @ show_nat (unat (ledger e)))"

definition event_frame :: "stream_env \<Rightarrow> sse_config \<Rightarrow> SorobanEvent \<Rightarrow> frame" where
  "event_frame env cfg e = \<lparr>fr_event = None, fr_id = Some (frame_id env e), fr_retry = Some (keepalive_ms cfg), fr_data = event_text env e\<rparr>"

definition named_frame :: "string \<Rightarrow> string \<Rightarrow> frame" where
  "named_frame n d = \<lparr>fr_event = Some n, fr_id = None, fr_retry = None, fr_data = d\<rparr>"

text \<open>\<open>filter_fields\<close>: the requested columns of a row, an unknown one is left out.\<close>

definition column_value :: "stream_env \<Rightarrow> event_rec \<Rightarrow> string \<Rightarrow> json option" where
  "column_value env r col =
     (if col = ''id'' then Some (JString (uuid_text env (e_id r)))
      else if col = ''contract_id'' then Some (JString (e_contract r))
      else if col = ''event_type'' then Some (JString (e_type r))
      else if col = ''tx_hash'' then Some (JString (e_tx_hash r))
      else if col = ''ledger'' then Some (json_int (e_ledger r))
      else if col = ''timestamp'' then Some (JString (time_text env (e_timestamp r)))
      else if col = ''event_data'' then Some (opened env (e_data r))
      else if col = ''event_data_normalized'' then Some (json_opt id (e_data_normalized r))
      else if col = ''event_data_decoded'' then Some (json_opt id (e_data_decoded r))
      else if col = ''ledger_hash'' then Some (json_opt JString (e_ledger_hash r))
      else if col = ''anonymized'' then Some (JBool (e_anonymized r))
      else if col = ''in_successful_call'' then Some (JBool (e_ok r))
      else if col = ''created_at'' then Some (JString (time_text env (e_created_at r)))
      else if col = ''schema_version'' then Some (json_int (e_schema r))
      else None)"

definition filter_fields :: "stream_env \<Rightarrow> string list \<Rightarrow> event_rec \<Rightarrow> json" where
  "filter_fields env cols r = JObject (fold (\<lambda>c m. case column_value env r c of None \<Rightarrow> m | Some v \<Rightarrow> obj_insert c v m) cols [])"

definition single_row_frame :: "stream_env \<Rightarrow> sse_config \<Rightarrow> ScValFormat \<Rightarrow> string list option \<Rightarrow> event_rec \<Rightarrow> frame" where
  "single_row_frame env cfg fmt cols r =
     (let r' = r\<lparr>e_data := drawn env (opened env (e_data r)) fmt\<rparr> in
      \<lparr>fr_event = None, fr_id = Some (uuid_text env (e_id r)), fr_retry = Some (keepalive_ms cfg),
       fr_data = (case cols of Some cs \<Rightarrow> json_text env (filter_fields env cs r') | None \<Rightarrow> record_text env r')\<rparr>)"

definition multi_row_frame :: "stream_env \<Rightarrow> sse_config \<Rightarrow> event_rec \<Rightarrow> frame" where
  "multi_row_frame env cfg r = \<lparr>fr_event = None, fr_id = Some (uuid_text env (e_id r)), fr_retry = Some (keepalive_ms cfg),
       fr_data = record_text env (r\<lparr>e_data := opened env (e_data r)\<rparr>)\<rparr>"

definition replay_complete :: "bool \<Rightarrow> frame list" where
  "replay_complete has_replay = (if has_replay then [named_frame ''replay_complete'' ''replay complete''] else [])"

section \<open>The live part\<close>

datatype signal = Received SorobanEvent | Lagged nat | Channel_closed | Tick string | Shutdown

definition live_wants :: "(string \<Rightarrow> bool) \<Rightarrow> EventType option \<Rightarrow> string option \<Rightarrow> SorobanEvent \<Rightarrow> bool" where
  "live_wants contracts et tid e \<longleftrightarrow> event_matches contracts et e \<and> (case tid of None \<Rightarrow> True | Some t \<Rightarrow> tenant_id e = Some t)"

definition lag_text :: "stream_env \<Rightarrow> nat \<Rightarrow> string" where
  "lag_text env n = json_text env (JObject [(''missed'', json_int (int n)), (''last_event_id'', JNull)])"

text \<open>What a signal makes the stream yield, and whether that is the last frame.\<close>

definition live_step ::
  "stream_env \<Rightarrow> sse_config \<Rightarrow> (string \<Rightarrow> bool) \<Rightarrow> EventType option \<Rightarrow> string option \<Rightarrow> signal \<Rightarrow> (frame \<times> bool) option" where
  "live_step env cfg contracts et tid sg = (case sg of
      Received e \<Rightarrow> if live_wants contracts et tid e then Some (event_frame env cfg e, False) else None
    | Lagged n \<Rightarrow> Some (named_frame ''lag'' (lag_text env n), 0 < max_lag cfg \<and> max_lag cfg \<le> n)
    | Channel_closed \<Rightarrow> Some (named_frame ''close'' ''stream closed'', True)
    | Tick ts \<Rightarrow> Some (named_frame ''ping'' ts, False)
    | Shutdown \<Rightarrow> Some (named_frame ''close'' ''server shutting down'', True))"

text \<open>The frames that a sequence of signals yields, and whether the stream has ended.\<close>

fun live_frames ::
  "stream_env \<Rightarrow> sse_config \<Rightarrow> (string \<Rightarrow> bool) \<Rightarrow> EventType option \<Rightarrow> string option \<Rightarrow> signal list \<Rightarrow> frame list \<times> bool" where
  "live_frames env cfg contracts et tid [] = ([], False)"
| "live_frames env cfg contracts et tid (sg # sgs) = (case live_step env cfg contracts et tid sg of
      None \<Rightarrow> live_frames env cfg contracts et tid sgs
    | Some (fr, True) \<Rightarrow> ([fr], True)
    | Some (fr, False) \<Rightarrow> (case live_frames env cfg contracts et tid sgs of (frs, ended) \<Rightarrow> (fr # frs, ended)))"

section \<open>The endpoints\<close>

text \<open>
  An accepted request: the counters, and the stream as a function of the signals after it subscribed. The buffer
  is read before the subscription, so events in between are in neither.
\<close>

definition header_id :: "stream_env \<Rightarrow> string option \<Rightarrow> uuid option" where
  "header_id env h = Option.bind h (parse_uuid env)"

definition check_stream_contract :: "string option \<Rightarrow> stream_error + unit" where
  "check_stream_contract c = (case c of None \<Rightarrow> Inr ()
     | Some s \<Rightarrow> (case check_contract_id s of Inr u \<Rightarrow> Inr u | Inl e \<Rightarrow> Inl (Invalid_contract s)))"

definition only_contract :: "string option \<Rightarrow> string \<Rightarrow> bool" where
  "only_contract c s = (case c of None \<Rightarrow> True | Some x \<Rightarrow> s = x)"

definition single_replay_frames ::
  "stream_env \<Rightarrow> sse_config \<Rightarrow> string option \<Rightarrow> StreamParams \<Rightarrow> ScValFormat \<Rightarrow> uuid option \<Rightarrow> SseRingBuffer \<Rightarrow> frame list" where
  "single_replay_frames env cfg contract q fmt last_id buf =
     (let ring = ring_replay cfg (only_contract contract) (s_event_type q) last_id buf;
          rows = db_replay_single cfg contract last_id ring (stored env)
      in map (event_frame env cfg) ring @ map (single_row_frame env cfg fmt (field_projection (s_fields q))) rows
         @ replay_complete (0 < length ring + length rows))"

definition stream_events_internal ::
  "stream_env \<Rightarrow> sse_config \<Rightarrow> string \<Rightarrow> string option \<Rightarrow> string option \<Rightarrow> StreamParams \<Rightarrow> ScValFormat \<Rightarrow> string option \<Rightarrow> SseRingBuffer \<Rightarrow>
   sse_counters \<Rightarrow> sse_counters \<times> (stream_error + (signal list \<Rightarrow> frame list \<times> bool))" where
  "stream_events_internal env cfg ip tid contract q fmt h buf s =
     (case admit_connection cfg ip s of
        Inl e \<Rightarrow> (s, Inl e)
      | Inr s1 \<Rightarrow> (case check_stream_contract contract of
          Inl e \<Rightarrow> (release_connection cfg ip s1, Inl e)
        | Inr _ \<Rightarrow>
            (s1, Inr (\<lambda>sgs. case live_frames env cfg (only_contract contract) (s_event_type q) tid sgs of (frs, ended) \<Rightarrow>
               (single_replay_frames env cfg contract q fmt (header_id env h) buf @ frs, ended)))))"

definition stream_events ::
  "stream_env \<Rightarrow> sse_config \<Rightarrow> string \<Rightarrow> string option \<Rightarrow> StreamParams \<Rightarrow> string option \<Rightarrow> SseRingBuffer \<Rightarrow>
   sse_counters \<Rightarrow> sse_counters \<times> (stream_error + (signal list \<Rightarrow> frame list \<times> bool))" where
  "stream_events env cfg ip tid q h buf s = (case parse_stream_format (s_format q) of
      Inl e \<Rightarrow> (s, Inl e)
    | Inr fmt \<Rightarrow> stream_events_internal env cfg ip tid (s_contract q) q fmt h buf s)"

definition stream_events_by_contract ::
  "stream_env \<Rightarrow> sse_config \<Rightarrow> string \<Rightarrow> string option \<Rightarrow> string \<Rightarrow> StreamParams \<Rightarrow> string option \<Rightarrow> SseRingBuffer \<Rightarrow>
   sse_counters \<Rightarrow> sse_counters \<times> (stream_error + (signal list \<Rightarrow> frame list \<times> bool))" where
  "stream_events_by_contract env cfg ip tid c q h buf s = (case check_stream_contract (Some c) of
      Inl e \<Rightarrow> (s, Inl e)
    | Inr _ \<Rightarrow> (case parse_stream_format (s_format q) of
        Inl e \<Rightarrow> (s, Inl e)
      | Inr fmt \<Rightarrow> stream_events_internal env cfg ip tid (Some c) q fmt h buf s))"

definition multi_replay_frames ::
  "stream_env \<Rightarrow> sse_config \<Rightarrow> string option \<Rightarrow> string list \<Rightarrow> EventType option \<Rightarrow> uuid option \<Rightarrow> SseRingBuffer \<Rightarrow> frame list" where
  "multi_replay_frames env cfg tid ids et last_id buf =
     (let ring = ring_replay cfg (\<lambda>c. c \<in> set ids) et last_id buf;
          rows = db_replay_multi cfg ids tid last_id ring (stored env)
      in map (event_frame env cfg) ring @ map (multi_row_frame env cfg) rows @ replay_complete (0 < length ring + length rows))"

text \<open>The stream of several contracts does not listen to the shutdown signal.\<close>

definition stream_events_multi ::
  "stream_env \<Rightarrow> sse_config \<Rightarrow> string \<Rightarrow> string option \<Rightarrow> string option \<Rightarrow> EventType option \<Rightarrow> string option \<Rightarrow> SseRingBuffer \<Rightarrow>
   sse_counters \<Rightarrow> sse_counters \<times> (stream_error + (signal list \<Rightarrow> frame list \<times> bool))" where
  "stream_events_multi env cfg ip tid raw_ids et h buf s =
     (let raw = (case raw_ids of None \<Rightarrow> [] | Some r \<Rightarrow> r); ids = map trim (split_on (CHR '','') raw) in
      if trim raw = [] then (s, Inl Ids_empty)
      else if multi_max_ids cfg < length ids then (s, Inl (Ids_too_many (multi_max_ids cfg) (length ids)))
      else if filter (\<lambda>i. check_contract_id i \<noteq> Inr ()) ids \<noteq> []
        then (s, Inl (Ids_invalid (filter (\<lambda>i. check_contract_id i \<noteq> Inr ()) ids)))
      else (case admit_connection cfg ip s of
          Inl e \<Rightarrow> (s, Inl e)
        | Inr s1 \<Rightarrow> (s1, Inr (\<lambda>sgs. case live_frames env cfg (\<lambda>c. c \<in> set ids) et tid (filter (\<lambda>g. g \<noteq> Shutdown) sgs) of (frs, ended) \<Rightarrow>
               (multi_replay_frames env cfg tid ids et (header_id env h) buf @ frs, ended)))))"

text \<open>
  The web socket: a text message that is JSON sets the filter, to nothing if it names no contract; other
  messages are ignored. A failing send or a close ends the loop.
\<close>

datatype ws_input = Text_message string | Close_message | Other_message | Broadcast SorobanEvent | Ws_lagged nat | Ws_closed

definition ws_filter :: "(string \<Rightarrow> json option) \<Rightarrow> string \<Rightarrow> string option \<Rightarrow> string option" where
  "ws_filter parse t flt = (case parse t of None \<Rightarrow> flt
     | Some (JObject m) \<Rightarrow> (case obj_get ''contract_id'' m of Some (JString c) \<Rightarrow> Some c | _ \<Rightarrow> None)
     | Some _ \<Rightarrow> None)"

fun ws_run :: "(string \<Rightarrow> json option) \<Rightarrow> stream_env \<Rightarrow> (string \<Rightarrow> bool) \<Rightarrow> string option \<Rightarrow> ws_input list \<Rightarrow> string list" where
  "ws_run parse env send_ok flt [] = []"
| "ws_run parse env send_ok flt (m # ms) = (case m of
      Text_message t \<Rightarrow> ws_run parse env send_ok (ws_filter parse t flt) ms
    | Close_message \<Rightarrow> []
    | Other_message \<Rightarrow> ws_run parse env send_ok flt ms
    | Broadcast e \<Rightarrow>
        if only_contract flt (contract_id e)
        then (if send_ok (event_text env e) then event_text env e # ws_run parse env send_ok flt ms else [])
        else ws_run parse env send_ok flt ms
    | Ws_lagged n \<Rightarrow> ws_run parse env send_ok flt ms
    | Ws_closed \<Rightarrow> [])"

definition ws_events ::
  "(string \<Rightarrow> json option) \<Rightarrow> stream_env \<Rightarrow> (string \<Rightarrow> bool) \<Rightarrow> StreamParams \<Rightarrow> stream_error + (ws_input list \<Rightarrow> string list)" where
  "ws_events parse env send_ok q = (case check_stream_contract (s_contract q) of
      Inl e \<Rightarrow> Inl e | Inr _ \<Rightarrow> Inr (ws_run parse env send_ok (s_contract q)))"

section \<open>What a client receives\<close>

text \<open>The events among the frames; other frames carry a name.\<close>

definition payloads :: "frame list \<Rightarrow> string list" where
  "payloads frs = map fr_data (filter (\<lambda>f. fr_event f = None) frs)"

fun received :: "signal list \<Rightarrow> SorobanEvent list" where
  "received [] = []"
| "received (Received e # sgs) = e # received sgs"
| "received (_ # sgs) = received sgs"


lemma payloads_append [simp]: "payloads (a @ b) = payloads a @ payloads b"
  by (simp add: payloads_def)

lemma payloads_events [simp]: "payloads (map (event_frame env cfg) es) = map (event_text env) es"
  by (induction es) (simp_all add: payloads_def event_frame_def)

lemma payloads_sentinel [simp]: "payloads (replay_complete b) = []"
  by (simp add: payloads_def replay_complete_def named_frame_def)


text \<open>Whatever the signals, only wanted events pass, and a stream that has ended says so in its last frame.\<close>

lemma live_payloads_wanted:
  "set (payloads (fst (live_frames env cfg contracts et tid sgs))) \<subseteq>
     event_text env ` {e \<in> set (received sgs). live_wants contracts et tid e}"
proof (induction sgs)
  case (Cons sg sgs)
  obtain frs ended where r: "live_frames env cfg contracts et tid sgs = (frs, ended)" by force
  with Cons have IH: "set (payloads frs) \<subseteq> event_text env ` {e \<in> set (received sgs). live_wants contracts et tid e}" by simp
  have cons: "payloads (f # fs) = (if fr_event f = None then [fr_data f] else []) @ payloads fs" for f fs
    by (simp add: payloads_def)
  have nil: "payloads [] = []" by (simp add: payloads_def)
  show ?case using IH
    by (cases sg) (auto simp: r live_step_def cons nil event_frame_def named_frame_def split: if_splits bool.splits)
qed (simp add: payloads_def)

lemma header_of_uuid [simp]: "uuid_laws env \<Longrightarrow> header_id env (Some (uuid_text env u)) = Some u"
  by (simp add: header_id_def uuid_laws_def)




text \<open>
  Replayed frames are named by transaction and ledger, since the buffer keeps events without their id; a client
  whose last frame was replayed asks with such a name, and nothing is replayed to it.
\<close>

lemma replayed_names_useless:
  assumes "sse_id e = None" "parse_uuid env (frame_id env e) = None"
  shows "single_replay_frames env cfg c q fmt (header_id env (fr_id (event_frame env cfg e))) buf = []"
  using assms
  by (simp add: event_frame_def header_id_def single_replay_frames_def ring_replay_def db_replay_single_def replay_complete_def)

text \<open>The statement of the fallback for several contracts leaves out a column the row type needs: it never yields a row.\<close>

lemma multi_fallback_empty: "db_replay_multi cfg ids tid last_id ring rows = []"
proof -
  have "''event_data_normalized'' \<notin> set multi_columns" by (simp add: multi_columns_def)
  then have "\<not> set required_columns \<subseteq> set multi_columns" by (auto simp: required_columns_def)
  then have "or_none (fetch_rows multi_columns rs) = []" for rs by (cases rs) (auto simp: fetch_rows_def or_none_def)
  then show ?thesis by (simp add: db_replay_multi_def split: option.split)
qed

text \<open>Live frames respect the tenant of the client, and the filters.\<close>

theorem live_tenant_isolated:
  assumes "t \<in> set (payloads (fst (live_frames env cfg contracts et (Some tenant_name) sgs)))"
  shows "\<exists>e\<in>set (received sgs). t = event_text env e \<and> tenant_id e = Some tenant_name \<and> contracts (contract_id e)"
  using assms live_payloads_wanted [of env cfg contracts et "Some tenant_name" sgs]
  by (fastforce simp: live_wants_def event_matches_def)

section \<open>What the counters count\<close>

text \<open>
  The life of connections. A stream that is polled to its end releases its slot; a client that goes away has its
  stream dropped, which runs nothing.
\<close>

datatype conn_op = Connect string | Stream_ended string | Client_gone string

record conn_world =
  counters :: sse_counters
  streaming :: "string list"
  gone :: "string list"

definition conn_step :: "sse_config \<Rightarrow> conn_op \<Rightarrow> conn_world \<Rightarrow> conn_world" where
  "conn_step cfg op1 w = (case op1 of
      Connect ip \<Rightarrow> (case admit_connection cfg ip (counters w) of
          Inl e \<Rightarrow> w | Inr s \<Rightarrow> w\<lparr>counters := s, streaming := ip # streaming w\<rparr>)
    | Stream_ended ip \<Rightarrow> if ip \<in> set (streaming w)
        then w\<lparr>counters := release_connection cfg ip (counters w), streaming := remove1 ip (streaming w)\<rparr> else w
    | Client_gone ip \<Rightarrow> if ip \<in> set (streaming w) then w\<lparr>streaming := remove1 ip (streaming w), gone := ip # gone w\<rparr> else w)"

definition conn_run :: "sse_config \<Rightarrow> conn_op list \<Rightarrow> conn_world" where
  "conn_run cfg ops = fold (conn_step cfg) ops \<lparr>counters = no_connections, streaming = [], gone = []\<rparr>"

definition conn_inv :: "sse_config \<Rightarrow> conn_world \<Rightarrow> bool" where
  "conn_inv cfg w \<longleftrightarrow>
     open_connections (counters w) = length (streaming w) + length (gone w) \<and>
     open_connections (counters w) \<le> sse_max_connections cfg \<and>
     (0 < sse_max_per_ip cfg \<longrightarrow> (\<forall>ip. open_per_ip (counters w) ip = count_list (streaming w) ip + count_list (gone w) ip) \<and>
        (\<forall>ip. count_list (streaming w) ip + count_list (gone w) ip \<le> sse_max_per_ip cfg))"

lemma count_remove1: "x \<in> set xs \<Longrightarrow> count_list (remove1 x xs) y = (if x = y then count_list xs y - 1 else count_list xs y)"
  by (induction xs) auto

lemma count_pos: "x \<in> set xs \<Longrightarrow> 0 < count_list xs x"
  by (induction xs) auto

lemma conn_step_inv: "conn_inv cfg w \<Longrightarrow> conn_inv cfg (conn_step cfg op1 w)"
proof (cases op1)
  case (Connect ip)
  then show "conn_inv cfg w \<Longrightarrow> ?thesis"
    by (auto simp: conn_step_def conn_inv_def admit_connection_def split: if_splits)
next
  case (Stream_ended ip)
  assume inv: "conn_inv cfg w"
  have le: "a - Suc 0 + b \<le> n" if "a + b \<le> n" for a b n :: nat using that by simp
  show ?thesis using Stream_ended inv count_pos [of ip "streaming w"]
    by (auto simp: conn_step_def conn_inv_def release_connection_def length_remove1 count_remove1 intro: le split: if_splits)
      (use length_pos_if_in_set [of ip "streaming w"] in linarith)+
next
  case (Client_gone ip)
  assume inv: "conn_inv cfg w"
  then show ?thesis using Client_gone length_pos_if_in_set [of ip "streaming w"] count_pos [of ip "streaming w"]
    by (auto simp: conn_step_def conn_inv_def length_remove1 count_remove1)
qed

lemma conn_run_inv: "conn_inv cfg (conn_run cfg ops)"
proof -
  have "conn_inv cfg (fold (conn_step cfg) ops w)" if "conn_inv cfg w" for w
    using that by (induction ops arbitrary: w) (auto intro: conn_step_inv)
  moreover have "conn_inv cfg \<lparr>counters = no_connections, streaming = [], gone = []\<rparr>" by (simp add: conn_inv_def no_connections_def)
  ultimately show ?thesis unfolding conn_run_def by blast
qed

text \<open>
  The counter is the number of open streams and of all streams whose client went away, so that these hold their
  slots for good: after as many as the limit, every connection is refused.
\<close>

theorem gone_clients_hold_slots:
  "open_connections (counters (conn_run cfg ops)) = length (streaming (conn_run cfg ops)) + length (gone (conn_run cfg ops)) \<and>
   open_connections (counters (conn_run cfg ops)) \<le> sse_max_connections cfg \<and>
   (length (gone (conn_run cfg ops)) = sse_max_connections cfg \<longrightarrow> admit_connection cfg ip (counters (conn_run cfg ops)) = Inl Sse_limit)"
  using conn_run_inv [of cfg ops] by (auto simp: conn_inv_def admit_connection_def)

section \<open>Instances\<close>

definition sample_stream_env :: stream_env where
  "sample_stream_env = \<lparr>event_text = tx_hash, json_text = (\<lambda>_. ''{}''), record_text = e_tx_hash, uuid_text = show_nat,
     parse_uuid = digits_value 10 0, stored = [], opened = (\<lambda>v. v), drawn = (\<lambda>v _. v), time_text = (\<lambda>_. ''t'')\<rparr>"

definition sample_sse_config :: sse_config where
  "sample_sse_config = \<lparr>sse_max_connections = 2, sse_max_per_ip = 1, replay_limit = 10, max_lag = 0, keepalive_ms = 15000, multi_max_ids = 5\<rparr>"

definition all_events :: StreamParams where
  "all_events = \<lparr>s_contract = None, s_fields = None, s_event_type = None, s_format = None\<rparr>"

definition slot_of :: "nat \<Rightarrow> string \<Rightarrow> Slot" where
  "slot_of i t = \<lparr>slot_id = i, slot_event = sample_event\<lparr>tx_hash := t\<rparr>\<rparr>"





text \<open>A replay from the buffer is not filtered by tenant.\<close>

lemma replay_crosses_tenants:
  "payloads (single_replay_frames sample_stream_env sample_sse_config None all_events Json (Some 1)
     (ring_run 5 [slot_of 1 ''a'', \<lparr>slot_id = 2, slot_event = sample_event\<lparr>tx_hash := ''b'', tenant_id := Some ''other''\<rparr>\<rparr>])) = [''b''] \<and>
   payloads (fst (live_frames sample_stream_env sample_sse_config (only_contract None) None (Some ''mine'')
     [Received (sample_event\<lparr>tx_hash := ''b'', tenant_id := Some ''other''\<rparr>)])) = []"
proof -
  have "events_since 1 (ring_run 5 [slot_of 1 ''a'', \<lparr>slot_id = 2, slot_event = sample_event\<lparr>tx_hash := ''b'', tenant_id := Some ''other''\<rparr>\<rparr>])
      = Some [sample_event\<lparr>tx_hash := ''b'', tenant_id := Some ''other''\<rparr>]"
    using events_since_run [of "[]" "slot_of 1 ''a''" "[\<lparr>slot_id = 2, slot_event = sample_event\<lparr>tx_hash := ''b'', tenant_id := Some ''other''\<rparr>\<rparr>]" 5]
    by (simp add: slot_of_def)
  then show ?thesis
    by (simp add: single_replay_frames_def ring_replay_def all_events_def event_matches_def only_contract_def Let_def
        sample_sse_config_def db_replay_single_def payloads_def event_frame_def replay_complete_def named_frame_def
        sample_stream_env_def live_step_def live_wants_def sample_event_def)
qed

theorem live_tenant_isolated_witness:
  "tenant_id (sample_event\<lparr>tx_hash := ''m'', tenant_id := Some ''mine''\<rparr>) = Some ''mine'' \<and>
   (\<exists>e\<in>set (received [Received (sample_event\<lparr>tx_hash := ''m'', tenant_id := Some ''mine''\<rparr>)]).
      ''m'' = event_text sample_stream_env e \<and> tenant_id e = Some ''mine'' \<and> only_contract None (contract_id e))"
proof -
  have "''m'' \<in> set (payloads (fst (live_frames sample_stream_env sample_sse_config (only_contract None) None (Some ''mine'')
     [Received (sample_event\<lparr>tx_hash := ''m'', tenant_id := Some ''mine''\<rparr>)])))"
    by (simp add: payloads_def event_frame_def sample_stream_env_def live_step_def live_wants_def event_matches_def only_contract_def)
  from live_tenant_isolated [OF this] show ?thesis by simp
qed

end
