(* ===== verification/Event_Lookup.thy ===== *)
theory Event_Lookup
  imports Event_Pages Event_Stream Json_Access
begin

text \<open>
  Model of the lookups of \<open>src/handlers/events.rs\<close> beside the main list: the events of a contract, of a transaction,
  of the transactions it refers to, of a batch of transactions and of a ledger hash, and the difference between
  two ledgers. The lemmas say which events each answers with; the list by contract answers with none.
\<close>

section \<open>By contract\<close>

definition contract_columns :: "string list" where
  "contract_columns = [''id'', ''contract_id'', ''event_type'', ''tx_hash'', ''ledger'', ''timestamp'', ''event_data'',
     ''created_at'', ''total_count'']"

definition check_ledger_range :: "i64 option \<Rightarrow> i64 option \<Rightarrow> AppError + unit" where
  "check_ledger_range lo hi =
     and_then (when_given lo (validate_ledger_param ''from_ledger'')) (\<lambda>_.
     and_then (when_given hi (validate_ledger_param ''to_ledger'')) (\<lambda>_.
     require (ordered lo hi) (Validation ''from_ledger must be <= to_ledger'')))"

definition contract_conditions :: "string option \<Rightarrow> i64 option \<Rightarrow> i64 option \<Rightarrow> builder" where
  "contract_conditions tid lo hi =
     maybe_add_tenant_condition tid (push_all [(lo \<noteq> None, LedgerGe), (hi \<noteq> None, LedgerLe)] ([ContractEq 1], 2))"

definition contract_binds :: "string option \<Rightarrow> string \<Rightarrow> i64 option \<Rightarrow> i64 option \<Rightarrow> bindval list" where
  "contract_binds tid c lo hi = [BText c] @ bind_opt BInt lo @ bind_opt BInt hi @ bind_opt BText tid"

definition contract_page :: "list_env \<Rightarrow> string \<Rightarrow> PaginationParams \<Rightarrow> event_rec list \<Rightarrow> AppError + event_rec list" where
  "contract_page env c q tbl =
     and_then (run_select (pg env) (fst (contract_conditions (tenant env) (q_from_ledger q) (q_to_ledger q)))
       (contract_binds (tenant env) c (q_from_ledger q) (q_to_ledger q) @ [BInt (page_limit (q_limit q)), BInt (page_offset (q_page q) (q_limit q))])
       (by_column Ledger (sort_dir q)) 2 (nat (page_limit (q_limit q))) (nat (page_offset (q_page q) (q_limit q))) tbl) (\<lambda>rows.
     case fetch_rows contract_columns rows of None \<Rightarrow> Inl DB_ERROR | Some rs \<Rightarrow> Inr rs)"

text \<open>The total of a contract is cached when nothing but the contract restricts the list.\<close>

definition contract_total ::
  "list_env \<Rightarrow> string \<Rightarrow> PaginationParams \<Rightarrow> event_rec list \<Rightarrow> (string \<Rightarrow> nat option) \<Rightarrow> AppError + nat \<times> (string \<Rightarrow> nat option)" where
  "contract_total env c q tbl cache =
     (if q_from_ledger q = None \<and> q_to_ledger q = None \<and> tenant env = None
      then (case cache c of Some n \<Rightarrow> Inr (n, cache)
        | None \<Rightarrow> let n = length (filter (\<lambda>r. e_contract r = c) tbl) in Inr (n, cache(c \<mapsto> n)))
      else and_then (run_count (pg env) (fst (contract_conditions (tenant env) (q_from_ledger q) (q_to_ledger q)))
          (contract_binds (tenant env) c (q_from_ledger q) (q_to_ledger q)) tbl) (\<lambda>n. Inr (n, cache)))"

record contract_answer =
  ca_data :: "json list"
  ca_contract :: string
  ca_total :: nat
  ca_page :: i64
  ca_limit :: i64

definition get_events_by_contract ::
  "stream_env \<Rightarrow> list_env \<Rightarrow> string \<Rightarrow> PaginationParams \<Rightarrow> event_rec list \<Rightarrow> (string \<Rightarrow> nat option) \<Rightarrow>
   AppError + contract_answer \<times> (string \<Rightarrow> nat option)" where
  "get_events_by_contract senv env c q tbl cache =
     and_then (check_contract_id c) (\<lambda>_.
     and_then (check_ledger_range (q_from_ledger q) (q_to_ledger q)) (\<lambda>_.
     and_then (resolve_columns q) (\<lambda>cols.
     and_then (contract_page env c q tbl) (\<lambda>rows.
     and_then (require (rows \<noteq> []) NotFound) (\<lambda>_.
     and_then (contract_total env c q tbl cache) (\<lambda>(n, cache').
       Inr (\<lparr>ca_data = map (filter_fields senv cols) rows, ca_contract = c, ca_total = n,
          ca_page = (case q_page q of None \<Rightarrow> 1 | Some p \<Rightarrow> p), ca_limit = page_limit (q_limit q)\<rparr>, cache')))))))"

section \<open>By transaction and by ledger hash\<close>

definition check_tx_hash :: "string \<Rightarrow> AppError + unit" where
  "check_tx_hash s = (if length s \<noteq> 64 then Inl (Validation ''invalid tx_hash format'')
     else if \<not> list_all is_ascii_hexdigit s then Inl (Validation ''invalid tx_hash format'') else Inr ())"

definition newest_first :: "event_rec list \<Rightarrow> event_rec list" where
  "newest_first rows = order_by (by_column Ledger Desc) rows"

text \<open>Only ASCII letters matter for lower case: a hash with any other character is refused either way.\<close>

definition get_events_by_tx :: "list_env \<Rightarrow> string \<Rightarrow> PaginationParams \<Rightarrow> event_rec list \<Rightarrow> AppError + json list \<times> string \<times> nat" where
  "get_events_by_tx env tx q tbl =
     (let h = to_ascii_lowercase tx in
      and_then (check_tx_hash h) (\<lambda>_.
      and_then (resolve_columns q) (\<lambda>cols.
      let rows = newest_first (filter (\<lambda>r. e_tx_hash r = h \<and> (case tenant env of None \<Rightarrow> True | Some t \<Rightarrow> e_tenant r = Some t)) tbl) in
      and_then (rows_to_json env False Json cols rows) (\<lambda>js. Inr (js, h, length rows)))))"

definition get_events_by_ledger_hash :: "list_env \<Rightarrow> string \<Rightarrow> PaginationParams \<Rightarrow> event_rec list \<Rightarrow> AppError + json list \<times> string \<times> nat" where
  "get_events_by_ledger_hash env h q tbl =
     and_then (resolve_columns q) (\<lambda>cols.
     let rows = newest_first (filter (\<lambda>r. e_ledger_hash r = Some h) tbl) in
     and_then (rows_to_json env False Json cols rows) (\<lambda>js. Inr (js, h, length rows)))"

section \<open>Related transactions\<close>

definition is_tx_ref_key :: "string \<Rightarrow> bool" where
  "is_tx_ref_key k \<longleftrightarrow> k \<in> {''tx_hash'', ''transaction_hash'', ''related_tx_hash'', ''parent_tx_hash'', ''child_tx_hash''}"

function collect_tx_refs :: "json \<Rightarrow> string list" where
  "collect_tx_refs (JObject m) = concat (map (\<lambda>(k, v).
     (if is_tx_ref_key k then (case as_str v of Some s \<Rightarrow> [s] | None \<Rightarrow> []) else []) @ collect_tx_refs v) m)"
| "collect_tx_refs (JArray vs) = concat (map collect_tx_refs vs)"
| "collect_tx_refs JNull = []"
| "collect_tx_refs (JBool b) = []"
| "collect_tx_refs (JNumber n) = []"
| "collect_tx_refs (JString s) = []"
  by pat_completeness auto
termination by (relation "measure size") (auto dest: entry_size item_size)

text \<open>\<open>filter(|h| seen.insert(h))\<close>: the hashes that are new, with the set that has them.\<close>

fun new_hashes :: "string set \<Rightarrow> string list \<Rightarrow> string list \<times> string set" where
  "new_hashes seen [] = ([], seen)"
| "new_hashes seen (h # hs) = (if h \<in> seen then new_hashes seen hs
     else (case new_hashes (insert h seen) hs of (r, s) \<Rightarrow> (h # r, s)))"

definition rows_of_txs :: "string list \<Rightarrow> event_rec list \<Rightarrow> event_rec list" where
  "rows_of_txs hs tbl = newest_first (filter (\<lambda>r. e_tx_hash r \<in> set hs) tbl)"

definition refs_of_rows :: "event_rec list \<Rightarrow> string list" where
  "refs_of_rows rows = filter (\<lambda>h. check_tx_hash h = Inr ()) (map to_ascii_lowercase (concat (map (\<lambda>r. collect_tx_refs (e_data r)) rows)))"

text \<open>The rounds of the search, with the number of rounds left after this one.\<close>

fun related_rounds :: "nat \<Rightarrow> string set \<Rightarrow> string list \<Rightarrow> event_rec list \<Rightarrow> event_rec list" where
  "related_rounds d seen [] tbl = []"
| "related_rounds 0 seen frontier tbl = rows_of_txs frontier tbl"
| "related_rounds (Suc d) seen frontier tbl =
     (let rows = rows_of_txs frontier tbl in
      case new_hashes seen (refs_of_rows rows) of (fresh, seen') \<Rightarrow> rows @ related_rounds d seen' fresh tbl)"

text \<open>The depth is a byte in the request; the answer lists the events as they are stored.\<close>

definition get_related_events_by_tx :: "string \<Rightarrow> nat option \<Rightarrow> event_rec list \<Rightarrow> AppError + string \<times> nat \<times> event_rec list" where
  "get_related_events_by_tx tx depth tbl =
     (let origin = to_ascii_lowercase tx; d = (case depth of None \<Rightarrow> 1 | Some n \<Rightarrow> n) in
      and_then (check_tx_hash origin) (\<lambda>_.
      and_then (require (d \<le> 3) (Validation ''depth must be between 0 and 3'')) (\<lambda>_.
      Inr (origin, d, related_rounds d {origin} [origin] tbl))))"

section \<open>A batch of transactions\<close>

fun push_existing :: "'k \<Rightarrow> 'v \<Rightarrow> ('k \<times> 'v list) list \<Rightarrow> ('k \<times> 'v list) list" where
  "push_existing k v [] = []"
| "push_existing k v ((k', vs) # gs) = (if k' = k then (k', vs @ [v]) # gs else (k', vs) # push_existing k v gs)"

definition batch_columns :: "string list" where
  "batch_columns = [''id'', ''contract_id'', ''event_type'', ''tx_hash'', ''ledger'', ''timestamp'', ''event_data'', ''created_at'']"

text \<open>
  The order of a hash set is unspecified; the model takes the order of first occurrence. The rows come by hash,
  and of each hash the newest first.
\<close>

definition batch_rows :: "string list \<Rightarrow> event_rec list \<Rightarrow> event_rec list" where
  "batch_rows hs tbl = concat (map (\<lambda>h. newest_first (filter (\<lambda>r. e_tx_hash r = h) tbl)) (sort hs))"

definition get_events_by_tx_batch ::
  "list_env \<Rightarrow> nat \<Rightarrow> string list \<Rightarrow> event_rec list \<Rightarrow> AppError + (string \<times> json list) list \<times> nat" where
  "get_events_by_tx_batch env max_size hashes tbl =
     and_then (require (length hashes \<le> max_size) (Validation (''too many hashes: maximum is '' @ show_nat max_size))) (\<lambda>_.
     let invalid = filter (\<lambda>h. check_tx_hash h \<noteq> Inr ()) hashes in
     and_then (require (invalid = []) (Validation (''invalid tx_hash(es): '' @ join '', '' invalid))) (\<lambda>_.
     let hs = remdups (map to_ascii_lowercase hashes); rows = batch_rows hs tbl in
     and_then (rows_to_json env False Json batch_columns rows) (\<lambda>js.
     Inr (fold (\<lambda>(r, j). push_existing (e_tx_hash r) j) (zip rows js) (map (\<lambda>h. (h, [])) hs), length hs))))"

section \<open>The difference of two ledgers\<close>

record contract_diff =
  d_contract :: string
  d_counts :: "(string \<times> nat) list"
  d_total :: nat

text \<open>\<open>GROUP BY contract_id, event_type\<close> and the map that gathers the groups of a contract.\<close>

definition group_counts :: "event_rec list \<Rightarrow> ((string \<times> string) \<times> nat) list" where
  "group_counts rows = map (\<lambda>k. (k, length (filter (\<lambda>r. (e_contract r, e_type r) = k) rows)))
     (remdups (map (\<lambda>r. (e_contract r, e_type r)) rows))"

fun add_group :: "(string \<times> string) \<times> nat \<Rightarrow> contract_diff list \<Rightarrow> contract_diff list" where
  "add_group ((c, t), n) [] = [\<lparr>d_contract = c, d_counts = [(t, n)], d_total = n\<rparr>]"
| "add_group ((c, t), n) (d # ds) = (if d_contract d = c
     then d\<lparr>d_counts := d_counts d @ [(t, n)], d_total := d_total d + n\<rparr> # ds else d # add_group ((c, t), n) ds)"

definition get_events_diff :: "nat \<Rightarrow> i64 \<Rightarrow> i64 \<Rightarrow> event_rec list \<Rightarrow> AppError + contract_diff list" where
  "get_events_diff max_range lo hi tbl =
     and_then (require (0 \<le> lo) (Validation ''from_ledger must be a positive integer'')) (\<lambda>_.
     and_then (require (0 \<le> hi) (Validation ''to_ledger must be a positive integer'')) (\<lambda>_.
     and_then (require (lo < hi) (Validation ''from_ledger must be less than to_ledger'')) (\<lambda>_.
     and_then (require (hi - lo \<le> int max_range) (Validation (''ledger range exceeds maximum of '' @ show_nat max_range))) (\<lambda>_.
     Inr (sort_key (\<lambda>d. - int (d_total d))
       (fold add_group (group_counts (filter (\<lambda>r. lo \<le> e_ledger r \<and> e_ledger r \<le> hi) tbl)) []))))))"

section \<open>The list by contract never succeeds\<close>

lemma unreadable_columns: "rows \<noteq> [] \<Longrightarrow> fetch_rows contract_columns rows = None"
proof -
  have "''event_data_normalized'' \<notin> set contract_columns" by (simp add: contract_columns_def)
  then have "\<not> set required_columns \<subseteq> set contract_columns" by (auto simp: required_columns_def)
  then show "rows \<noteq> [] \<Longrightarrow> ?thesis" by (cases rows) (auto simp: fetch_rows_def)
qed

text \<open>
  The statement of the list by contract leaves out a column that the row type needs. So no request is ever
  answered with events: a page with rows is a database error, and a page without rows is not found.
\<close>

theorem contract_list_never_answers: "isl (get_events_by_contract senv env c q tbl cache)"
proof (rule ccontr)
  assume "\<not> ?thesis"
  then obtain rows where rows: "contract_page env c q tbl = Inr rows" "rows \<noteq> []"
    by (auto simp: get_events_by_contract_def and_then_def require_def split: sum.splits if_splits)
  then obtain rs where "fetch_rows contract_columns rs = Some rows"
    by (auto simp: contract_page_def and_then_def split: sum.splits option.splits)
  then show False using rows(2) unreadable_columns [of rs] by (cases "rs = []") (auto simp: fetch_rows_def split: if_splits)
qed

section \<open>A transaction\<close>

lemma newest_first_set [simp]: "set (newest_first rows) = set rows"
  by (simp add: newest_first_def)

lemma newest_first_length [simp]: "length (newest_first rows) = length rows"
  by (metis newest_first_def mset_order_by size_mset)

text \<open>
  Every event of the transaction, in whatever case its hash is given, and of the tenant of the request, is
  answered once.
\<close>

theorem tx_lookup_exact:
  assumes "get_events_by_tx env tx q tbl = Inr (js, h, n)"
  shows "\<exists>cols. resolve_columns q = Inr cols \<and> n = length js \<and> h = to_ascii_lowercase tx \<and>
    js = map (row_json env Json cols) (newest_first (filter (\<lambda>r. e_tx_hash r = to_ascii_lowercase tx \<and>
      (case tenant env of None \<Rightarrow> True | Some t \<Rightarrow> e_tenant r = Some t)) tbl))"
  using assms by (auto simp: get_events_by_tx_def Let_def and_then_Inr rows_to_json_plain)

section \<open>What is related\<close>

text \<open>The hashes that the events of some transactions refer to, and those within a number of such steps.\<close>

definition refs_of :: "event_rec list \<Rightarrow> string set \<Rightarrow> string set" where
  "refs_of tbl H = {to_ascii_lowercase s |s r. r \<in> set tbl \<and> e_tx_hash r \<in> H \<and> s \<in> set (collect_tx_refs (e_data r)) \<and>
     check_tx_hash (to_ascii_lowercase s) = Inr ()}"

fun near :: "event_rec list \<Rightarrow> nat \<Rightarrow> string set \<Rightarrow> string set" where
  "near tbl 0 H = H"
| "near tbl (Suc d) H = H \<union> near tbl d (refs_of tbl H)"

lemma refs_of_mono: "A \<subseteq> B \<Longrightarrow> refs_of tbl A \<subseteq> refs_of tbl B"
  unfolding refs_of_def by blast

lemma refs_of_Un: "refs_of tbl (A \<union> B) = refs_of tbl A \<union> refs_of tbl B"
  unfolding refs_of_def by blast

lemma near_mono: "A \<subseteq> B \<Longrightarrow> near tbl d A \<subseteq> near tbl d B"
  by (induction d arbitrary: A B) (auto dest: refs_of_mono)

lemma near_Un: "near tbl d (A \<union> B) = near tbl d A \<union> near tbl d B"
  by (induction d arbitrary: A B) (auto simp: refs_of_Un)

lemma near_Suc: "near tbl d A \<subseteq> near tbl (Suc d) A"
proof (induction d arbitrary: A)
  case (Suc d)
  then have "near tbl d (refs_of tbl A) \<subseteq> near tbl (Suc d) (refs_of tbl A)" .
  then show ?case by simp blast
qed simp

lemma near_base: "A \<subseteq> near tbl d A"
  by (cases d) auto

lemma near_escape:
  "refs_of tbl S \<subseteq> S \<union> N \<Longrightarrow> N \<subseteq> M \<Longrightarrow> near tbl d (S \<union> M) - S \<subseteq> near tbl d M"
proof (induction d arbitrary: M)
  case (Suc d)
  have "refs_of tbl (S \<union> M) \<subseteq> S \<union> (N \<union> refs_of tbl M)" using Suc.prems(1) by (auto simp: refs_of_Un)
  then have "near tbl d (refs_of tbl (S \<union> M)) - S \<subseteq> near tbl d (S \<union> (N \<union> refs_of tbl M)) - S"
    using near_mono by blast
  also have "\<dots> \<subseteq> near tbl d (N \<union> refs_of tbl M)" by (rule Suc.IH [OF Suc.prems(1)]) simp
  also have "\<dots> = near tbl d N \<union> near tbl d (refs_of tbl M)" by (rule near_Un)
  finally have step: "near tbl d (refs_of tbl (S \<union> M)) - S \<subseteq> near tbl d N \<union> near tbl d (refs_of tbl M)" .
  have "near tbl d N \<subseteq> near tbl (Suc d) M" using near_mono [OF Suc.prems(2), of tbl d] near_Suc [of tbl d M] by (rule order_trans)
  then have "near tbl d N \<subseteq> M \<union> near tbl d (refs_of tbl M)" by (simp only: near.simps(2))
  with step show ?case unfolding near.simps(2) by blast
qed auto

lemma new_hashes_set: "new_hashes seen hs = (r, s) \<Longrightarrow> set r = set hs - seen \<and> s = seen \<union> set hs \<and> distinct r"
proof (induction seen hs arbitrary: r s rule: new_hashes.induct)
  case (2 seen h hs)
  show ?case
  proof (cases "h \<in> seen")
    case True
    then show ?thesis using 2 by auto
  next
    case False
    obtain r' s' where n: "new_hashes (insert h seen) hs = (r', s')" by force
    have rs: "r = h # r'" "s = s'" using 2(3) False n by simp_all
    have "set r' = set hs - insert h seen" "s' = insert h seen \<union> set hs" "distinct r'" using 2(2) [OF False n] by blast+
    then show ?thesis unfolding rs using False by auto
  qed
qed simp

lemma refs_of_rows_set: "set (refs_of_rows (rows_of_txs hs tbl)) = refs_of tbl (set hs)"
  by (auto simp: refs_of_rows_def rows_of_txs_def refs_of_def)

text \<open>The rounds visit, of all hashes within the depth, those that were not settled before.\<close>

lemma related_rounds_set:
  "set frontier \<subseteq> seen \<Longrightarrow> refs_of tbl (seen - set frontier) \<subseteq> seen \<Longrightarrow>
   set (related_rounds d seen frontier tbl) = {r \<in> set tbl. e_tx_hash r \<in> near tbl d (set frontier) - (seen - set frontier)}"
proof (induction d seen frontier tbl rule: related_rounds.induct)
  case (1 d seen tbl)
  have "refs_of tbl {} = {}" by (simp add: refs_of_def)
  then have "near tbl d {} = {}" by (induction d) simp_all
  then show ?case by simp
next
  case (2 seen v va tbl)
  then show ?case by (auto simp: rows_of_txs_def)
next
  case (3 d seen v va tbl)
  let ?F = "v # va"
  obtain fresh seen' where n: "new_hashes seen (refs_of_rows (rows_of_txs ?F tbl)) = (fresh, seen')" by force
  have new: "set fresh = refs_of tbl (set ?F) - seen" "seen' = seen \<union> refs_of tbl (set ?F)"
    using new_hashes_set [OF n] unfolding refs_of_rows_set by auto
  have diff: "seen' - set fresh = seen" using new by auto
  have closed: "refs_of tbl seen \<subseteq> seen \<union> set fresh"
  proof -
    have "seen = (seen - set ?F) \<union> set ?F" using 3(2) by auto
    then have "refs_of tbl seen = refs_of tbl (seen - set ?F) \<union> refs_of tbl (set ?F)" by (metis refs_of_Un)
    then show ?thesis using 3(3) new(1) by auto
  qed
  have pre: "set fresh \<subseteq> seen'" "refs_of tbl (seen' - set fresh) \<subseteq> seen'" using new closed diff by auto
  have IH: "set (related_rounds d seen' fresh tbl) = {r \<in> set tbl. e_tx_hash r \<in> near tbl d (set fresh) - seen}"
    using 3(1) [OF refl n [symmetric]] pre diff by simp
  have "near tbl d (refs_of tbl (set ?F)) - seen \<subseteq> near tbl d (set fresh)"
  proof -
    have "refs_of tbl (set ?F) \<subseteq> seen \<union> set fresh" using new(1) by auto
    then have "near tbl d (refs_of tbl (set ?F)) - seen \<subseteq> near tbl d (seen \<union> set fresh) - seen" using near_mono by blast
    also have "\<dots> \<subseteq> near tbl d (set fresh)" by (rule near_escape [OF closed order_refl])
    finally show ?thesis .
  qed
  moreover have "near tbl d (set fresh) \<subseteq> near tbl d (refs_of tbl (set ?F))" using new(1) by (intro near_mono) auto
  ultimately have eq: "set ?F \<union> (near tbl d (set fresh) - seen) = near tbl (Suc d) (set ?F) - (seen - set ?F)"
    using 3(2) by auto
  have "set (related_rounds (Suc d) seen ?F tbl) = {r \<in> set tbl. e_tx_hash r \<in> set ?F \<union> (near tbl d (set fresh) - seen)}"
  proof -
    have "set (rows_of_txs ?F tbl) = {r \<in> set tbl. e_tx_hash r \<in> set ?F}" unfolding rows_of_txs_def by auto
    moreover have "related_rounds (Suc d) seen ?F tbl = rows_of_txs ?F tbl @ related_rounds d seen' fresh tbl" by (simp add: n)
    ultimately show ?thesis using IH by auto
  qed
  then show ?case unfolding eq .
qed

lemma distinct_newest [simp]: "distinct (newest_first rows) = distinct rows"
  by (metis mset_order_by newest_first_def mset_eq_imp_distinct_iff)

lemma related_rounds_distinct:
  "distinct tbl \<Longrightarrow> set frontier \<subseteq> seen \<Longrightarrow> refs_of tbl (seen - set frontier) \<subseteq> seen \<Longrightarrow> distinct (related_rounds d seen frontier tbl)"
proof (induction d seen frontier tbl rule: related_rounds.induct)
  case (3 d seen v va tbl)
  let ?F = "v # va"
  obtain fresh seen' where n: "new_hashes seen (refs_of_rows (rows_of_txs ?F tbl)) = (fresh, seen')" by force
  have new: "set fresh = refs_of tbl (set ?F) - seen" "seen' = seen \<union> refs_of tbl (set ?F)"
    using new_hashes_set [OF n] unfolding refs_of_rows_set by auto
  have diff: "seen' - set fresh = seen" using new by auto
  have "refs_of tbl seen \<subseteq> seen'"
  proof -
    have "seen = (seen - set ?F) \<union> set ?F" using 3(3) by auto
    then have "refs_of tbl seen = refs_of tbl (seen - set ?F) \<union> refs_of tbl (set ?F)" by (metis refs_of_Un)
    then show ?thesis using 3(4) new(2) by auto
  qed
  then have pre: "set fresh \<subseteq> seen'" "refs_of tbl (seen' - set fresh) \<subseteq> seen'" using new diff by auto
  have "distinct (related_rounds d seen' fresh tbl)" using 3(1) [OF refl n [symmetric] 3(2) pre] .
  moreover have "set (related_rounds d seen' fresh tbl) \<subseteq> {r. e_tx_hash r \<notin> seen}"
    using related_rounds_set [OF pre] diff by auto
  moreover have "set (rows_of_txs ?F tbl) \<subseteq> {r. e_tx_hash r \<in> seen}" using 3(3) by (auto simp: rows_of_txs_def)
  moreover have "distinct (rows_of_txs ?F tbl)" using 3(2) by (simp add: rows_of_txs_def)
  moreover have "related_rounds (Suc d) seen ?F tbl = rows_of_txs ?F tbl @ related_rounds d seen' fresh tbl" by (simp add: n)
  ultimately show ?case by auto
qed (simp_all add: rows_of_txs_def)

text \<open>
  C19. The search for related events answers with exactly the events of the transactions that are within the depth,
  counted along the references of event data, and with each of them once.
\<close>

theorem related_exact:
  assumes "get_related_events_by_tx tx depth tbl = Inr (origin, d, rows)" "distinct tbl"
  shows "set rows = {r \<in> set tbl. e_tx_hash r \<in> near tbl d {to_ascii_lowercase tx}} \<and> distinct rows \<and> d \<le> 3"
proof -
  have r: "rows = related_rounds d {origin} [origin] tbl" "origin = to_ascii_lowercase tx" "d \<le> 3"
    using assms(1) by (auto simp: get_related_events_by_tx_def Let_def and_then_Inr require_def split: if_splits)
  have "refs_of tbl {} = {}" by (simp add: refs_of_def)
  then show ?thesis using related_rounds_set [of "[origin]" "{origin}" tbl d] related_rounds_distinct [OF assms(2), of "[origin]" "{origin}" d] r
    by simp
qed

section \<open>The batch\<close>

lemma push_existing_map:
  "distinct hs \<Longrightarrow> push_existing k v (map (\<lambda>h. (h, g h)) hs) = map (\<lambda>h. (h, if h = k then g h @ [v] else g h)) hs"
  by (induction hs) (auto simp: map_idI)

lemma push_existing_fold:
  "distinct hs \<Longrightarrow> fold (\<lambda>r. push_existing (key r) (f r)) rows (map (\<lambda>h. (h, g h)) hs) =
     map (\<lambda>h. (h, g h @ map f (filter (\<lambda>r. key r = h) rows))) hs"
proof (induction rows arbitrary: g)
  case (Cons r rows)
  have "fold (\<lambda>r. push_existing (key r) (f r)) (r # rows) (map (\<lambda>h. (h, g h)) hs) =
      fold (\<lambda>r. push_existing (key r) (f r)) rows (map (\<lambda>h. (h, if h = key r then g h @ [f r] else g h)) hs)"
    using Cons.prems by (simp add: push_existing_map)
  also have "\<dots> = map (\<lambda>h. (h, (if h = key r then g h @ [f r] else g h) @ map f (filter (\<lambda>r. key r = h) rows))) hs"
    by (rule Cons.IH [OF Cons.prems])
  finally show ?case by (auto intro!: map_cong)
qed simp

lemma filter_concat_key:
  assumes "distinct ks" "\<And>k x. x \<in> set (g k) \<Longrightarrow> key x = k"
  shows "filter (\<lambda>x. key x = h) (concat (map g ks)) = (if h \<in> set ks then g h else [])"
  using assms(1)
proof (induction ks)
  case (Cons k ks)
  have "filter (\<lambda>x. key x = h) (g k) = (if k = h then g k else [])"
    using assms(2) [of _ k] by (auto simp: filter_empty_conv intro!: filter_True)
  then show ?case using Cons by auto
qed simp

text \<open>Every requested hash is a key of the answer, and its value is the events of that transaction, each once.\<close>

theorem batch_exact:
  assumes "get_events_by_tx_batch env max_size hashes tbl = Inr (m, n)"
  shows "distinct (map fst m) \<and> set (map fst m) = to_ascii_lowercase ` set hashes \<and> n = length m \<and>
    (\<forall>(h, js)\<in>set m. js = map (row_json env Json batch_columns) (newest_first (filter (\<lambda>r. e_tx_hash r = h) tbl)))"
proof -
  let ?hs = "remdups (map to_ascii_lowercase hashes)" and ?f = "row_json env Json batch_columns"
  let ?rows = "batch_rows ?hs tbl"
  have "zip ?rows (map ?f ?rows) = map (\<lambda>r. (r, ?f r)) ?rows" by (simp add: zip_map2 zip_same_conv_map)
  then have m: "m = fold (\<lambda>r. push_existing (e_tx_hash r) (?f r)) ?rows (map (\<lambda>h. (h, [])) ?hs)" "n = length ?hs"
    using assms by (auto simp: get_events_by_tx_batch_def Let_def and_then_Inr rows_to_json_plain fold_map comp_def)
  have "m = map (\<lambda>h. (h, map ?f (filter (\<lambda>r. e_tx_hash r = h) ?rows))) ?hs"
    unfolding m(1) using push_existing_fold [of ?hs e_tx_hash ?f ?rows "\<lambda>_. []"] by simp
  moreover have "filter (\<lambda>r. e_tx_hash r = h) ?rows = newest_first (filter (\<lambda>r. e_tx_hash r = h) tbl)" if "h \<in> set ?hs" for h
    unfolding batch_rows_def using that by (subst filter_concat_key) auto
  ultimately show ?thesis using m(2) by (auto simp: comp_def)
qed

section \<open>The difference\<close>

lemma sum_by_key:
  assumes "finite K" "\<And>r. r \<in> set rows \<Longrightarrow> P r \<Longrightarrow> key r \<in> K"
  shows "(\<Sum>k\<in>K. length (filter (\<lambda>r. P r \<and> key r = k) rows)) = length (filter P rows)"
  using assms(2)
proof (induction rows)
  case (Cons r rows)
  have "(\<Sum>k\<in>K. length (filter (\<lambda>r. P r \<and> key r = k) (r # rows))) =
      (\<Sum>k\<in>K. length (filter (\<lambda>r. P r \<and> key r = k) rows)) + (\<Sum>k\<in>K. if P r \<and> key r = k then 1 else 0)"
    by (simp flip: sum.distrib add: if_distrib cong: if_cong)
  moreover have "(\<Sum>k\<in>K. if P r \<and> key r = k then 1 else (0::nat)) = (if P r then 1 else 0)"
    using Cons.prems [of r] assms(1) by (auto simp: sum.delta)
  ultimately show ?case using Cons by simp
qed simp

definition total_of :: "string \<Rightarrow> contract_diff list \<Rightarrow> nat" where
  "total_of c ds = sum_list (map d_total (filter (\<lambda>d. d_contract d = c) ds))"

lemma add_group_total: "total_of c (add_group g ds) = total_of c ds + (if c = fst (fst g) then snd g else 0)"
  by (induction g ds rule: add_group.induct) (auto simp: total_of_def)

lemma add_group_contracts: "d_contract ` set (add_group g ds) = insert (fst (fst g)) (d_contract ` set ds)"
  by (induction g ds rule: add_group.induct) auto

lemma add_group_distinct: "distinct (map d_contract ds) \<Longrightarrow> distinct (map d_contract (add_group g ds))"
proof (induction g ds rule: add_group.induct)
  case (2 c t n d ds)
  have "d_contract ` set (add_group ((c, t), n) ds) = insert c (d_contract ` set ds)" by (simp add: add_group_contracts)
  then show ?case using 2 by auto
qed simp

lemma add_groups:
  "total_of c (fold add_group gs ds) = total_of c ds + sum_list (map snd (filter (\<lambda>g. fst (fst g) = c) gs)) \<and>
   d_contract ` set (fold add_group gs ds) = d_contract ` set ds \<union> (fst \<circ> fst) ` set gs \<and>
   (distinct (map d_contract ds) \<longrightarrow> distinct (map d_contract (fold add_group gs ds)))"
proof (induction gs arbitrary: ds)
  case (Cons g gs)
  from Cons [of "add_group g ds"] show ?case
    by (auto simp: add_group_total add_group_contracts add_group_distinct)
qed simp

lemma total_of_member: "distinct (map d_contract ds) \<Longrightarrow> d \<in> set ds \<Longrightarrow> total_of (d_contract d) ds = d_total d"
proof (induction ds)
  case (Cons x ds)
  have "filter (\<lambda>d. d_contract d = d_contract x) ds = []" using Cons.prems(1) by (auto simp: filter_empty_conv) (metis image_eqI)
  then show ?case using Cons by (auto simp: total_of_def)
qed simp

lemma group_counts_contract:
  "sum_list (map snd (filter (\<lambda>g. fst (fst g) = c) (group_counts rows))) = length (filter (\<lambda>r. e_contract r = c) rows)"
proof -
  let ?key = "\<lambda>r. (e_contract r, e_type r)"
  let ?ks = "filter (\<lambda>k. fst k = c) (remdups (map ?key rows))"
  have "map snd (filter (\<lambda>g. fst (fst g) = c) (group_counts rows)) = map (\<lambda>k. length (filter (\<lambda>r. ?key r = k) rows)) ?ks"
    by (simp add: group_counts_def filter_map comp_def)
  moreover have "distinct ?ks" by simp
  ultimately have "sum_list (map snd (filter (\<lambda>g. fst (fst g) = c) (group_counts rows))) =
      (\<Sum>k\<in>set ?ks. length (filter (\<lambda>r. ?key r = k) rows))" by (simp only: sum_list_distinct_conv_sum_set)
  also have "\<dots> = (\<Sum>k\<in>set ?ks. length (filter (\<lambda>r. e_contract r = c \<and> ?key r = k) rows))"
    by (rule sum.cong) (auto intro!: arg_cong [where f = length] filter_cong)
  also have "\<dots> = length (filter (\<lambda>r. e_contract r = c) rows)"
    by (rule sum_by_key) auto
  finally show ?thesis .
qed

text \<open>
  The difference lists every contract with an event in the range once, with the exact number of its events, the
  busiest first.
\<close>

theorem diff_exact:
  assumes "get_events_diff max_range lo hi tbl = Inr ds"
  shows "distinct (map d_contract ds) \<and>
    d_contract ` set ds = e_contract ` {r \<in> set tbl. lo \<le> e_ledger r \<and> e_ledger r \<le> hi} \<and>
    (\<forall>d\<in>set ds. d_total d = length (filter (\<lambda>r. e_contract r = d_contract d \<and> lo \<le> e_ledger r \<and> e_ledger r \<le> hi) tbl)) \<and>
    sorted_wrt (\<lambda>a b. d_total b \<le> d_total a) ds"
proof -
  let ?rows = "filter (\<lambda>r. lo \<le> e_ledger r \<and> e_ledger r \<le> hi) tbl"
  let ?fs = "fold add_group (group_counts ?rows) []"
  have ds: "ds = sort_key (\<lambda>d. - int (d_total d)) ?fs"
    using assms by (auto simp: get_events_diff_def and_then_Inr require_def split: if_splits)
  have dist: "distinct (map d_contract ?fs)" and set: "d_contract ` set ?fs = (fst \<circ> fst) ` set (group_counts ?rows)"
    using add_groups [of _ "group_counts ?rows" "[]"] by auto
  have "(fst \<circ> fst) ` set (group_counts ?rows) = e_contract ` {r \<in> set tbl. lo \<le> e_ledger r \<and> e_ledger r \<le> hi}"
    by (force simp: group_counts_def)
  moreover have "d_total d = length (filter (\<lambda>r. e_contract r = d_contract d \<and> lo \<le> e_ledger r \<and> e_ledger r \<le> hi) tbl)" if "d \<in> set ?fs" for d
  proof -
    have "d_total d = total_of (d_contract d) ?fs" using total_of_member [OF dist that] by simp
    also have "\<dots> = length (filter (\<lambda>r. e_contract r = d_contract d) ?rows)"
      using add_groups [of "d_contract d" "group_counts ?rows" "[]"] by (simp add: total_of_def group_counts_contract)
    also have "filter (\<lambda>r. e_contract r = d_contract d) ?rows = filter (\<lambda>r. e_contract r = d_contract d \<and> lo \<le> e_ledger r \<and> e_ledger r \<le> hi) tbl"
      by (simp add: conj_commute)
    finally show ?thesis .
  qed
  moreover have "distinct (map d_contract ds)" using dist unfolding ds by (simp add: distinct_map)
  moreover have "sorted (map (\<lambda>d. - int (d_total d)) ds)" unfolding ds by (rule sorted_sort_key)
  then have "sorted_wrt (\<lambda>a b. d_total b \<le> d_total a) ds" by (simp add: sorted_wrt_map)
  ultimately show ?thesis using set by (simp add: ds)
qed

section \<open>Instances\<close>

definition sample_row :: "nat \<Rightarrow> string \<Rightarrow> json \<Rightarrow> event_rec" where
  "sample_row i tx d = \<lparr>e_id = i, e_contract = ''C'', e_type = ''contract'', e_tx_hash = tx, e_ledger = int i, e_timestamp = 0, e_data = d,
     e_data_normalized = None, e_data_decoded = None, e_ledger_hash = None, e_ok = True, e_created_at = 0, e_schema = 1,
     e_anonymized = False, e_topic0 = None, e_tenant = None, e_chain = None, e_tx_index = None, e_op_index = None, e_event_index = None\<rparr>"

definition hash_of :: "char \<Rightarrow> string" where "hash_of c = replicate 64 c"

lemma hash_ok: "is_ascii_hexdigit c \<Longrightarrow> check_tx_hash (hash_of c) = Inr ()"
  by (simp add: check_tx_hash_def hash_of_def list_all_iff)

lemma lower_hash: "to_ascii_lowercase (hash_of c) = hash_of (ascii_lower c)"
  by (simp add: to_ascii_lowercase_def hash_of_def)

definition related_rows :: "event_rec list" where
  "related_rows =
     [sample_row 1 (hash_of (CHR ''a'')) (JObject [(''parent_tx_hash'', JString (hash_of (CHR ''B'')))]),
      sample_row 2 (hash_of (CHR ''b'')) JNull, sample_row 3 (hash_of (CHR ''c'')) JNull]"

lemma related_rows_distinct: "distinct related_rows"
  by (simp add: related_rows_def sample_row_def)

lemma lower_A: "to_ascii_lowercase (hash_of (CHR ''A'')) = hash_of (CHR ''a'')"
  unfolding lower_hash by code_simp

lemma related_answer: "\<exists>origin rows. get_related_events_by_tx (hash_of (CHR ''A'')) None related_rows = Inr (origin, 1, rows)"
proof -
  have "check_tx_hash (hash_of (CHR ''a'')) = Inr ()" by (rule hash_ok) code_simp
  then show ?thesis by (simp add: get_related_events_by_tx_def Let_def lower_A and_then_def require_def)
qed

theorem related_exact_witness:
  "\<exists>origin rows. get_related_events_by_tx (hash_of (CHR ''A'')) None related_rows = Inr (origin, 1, rows) \<and>
     set rows = {r \<in> set related_rows. e_tx_hash r \<in> near related_rows 1 {hash_of (CHR ''a'')}} \<and> distinct rows"
proof -
  obtain origin rows where r: "get_related_events_by_tx (hash_of (CHR ''A'')) None related_rows = Inr (origin, 1, rows)"
    using related_answer by blast
  from related_exact [OF r related_rows_distinct] r show ?thesis unfolding lower_A by blast
qed

theorem diff_exact_witness:
  "\<exists>ds. get_events_diff 10 0 1 related_rows = Inr ds \<and> distinct (map d_contract ds) \<and> d_contract ` set ds \<noteq> {}"
proof -
  obtain ds where ds: "get_events_diff 10 0 1 related_rows = Inr ds" by (simp add: get_events_diff_def and_then_def require_def)
  have "related_rows ! 0 \<in> set related_rows" "e_ledger (related_rows ! 0) = 1" by (simp_all add: related_rows_def sample_row_def)
  then have "{r \<in> set related_rows. 0 \<le> e_ledger r \<and> e_ledger r \<le> 1} \<noteq> {}" by force
  then have "e_contract ` {r \<in> set related_rows. 0 \<le> e_ledger r \<and> e_ledger r \<le> 1} \<noteq> {}" by blast
  with diff_exact [OF ds] ds show ?thesis by auto
qed

end
