(* ===== verification/Event_Export.thy ===== *)
theory Event_Export
  imports Event_Lookup
begin

text \<open>
  Model of the exports of \<open>src/handlers/events.rs\<close>: the CSV export, the Atom feed with its cache, and the batch
  query, with the escaping helpers of \<open>src/handlers/mod.rs\<close>. A reader of CSV and of XML text is defined beside
  them, and the lemmas say that it gets back the values of the rows.
\<close>

section \<open>CSV\<close>

abbreviation quote :: char where "quote \<equiv> CHR 0x22"
abbreviation line_feed :: char where "line_feed \<equiv> CHR 0x0A"

definition csv_special :: "char \<Rightarrow> bool" where
  "csv_special c \<longleftrightarrow> c \<in> {CHR '','', quote, line_feed, CHR 0x0D}"

text \<open>\<open>str::replace\<close> with a pattern of one character.\<close>

definition replace_char :: "char \<Rightarrow> string \<Rightarrow> string \<Rightarrow> string" where
  "replace_char c t s = concat (map (\<lambda>x. if x = c then t else [x]) s)"

definition csv_escape_field :: "string \<Rightarrow> string" where
  "csv_escape_field v = (if list_ex csv_special v then [quote] @ replace_char quote [quote, quote] v @ [quote] else v)"

definition export_columns :: "string list" where
  "export_columns = [''id'', ''contract_id'', ''event_type'', ''tx_hash'', ''ledger'', ''timestamp'', ''event_data'', ''created_at'']"

definition ALLOWED_FIELDS :: "string list" where
  "ALLOWED_FIELDS = [''id'', ''contract_id'', ''event_type'', ''tx_hash'', ''ledger'', ''timestamp'', ''event_data'',
     ''event_data_normalized'', ''event_data_decoded'', ''ledger_hash'', ''in_successful_call'', ''created_at'',
     ''schema_version'', ''anonymized'', ''asset_code'', ''asset_issuer'']"

definition header_names :: "(string \<times> string) list option \<Rightarrow> string list" where
  "header_names fm = map (\<lambda>c. case Option.bind fm (\<lambda>m. map_of m c) of None \<Rightarrow> c | Some t \<Rightarrow> t) export_columns"


text \<open>Every value but the ledger is escaped.\<close>

definition csv_row :: "stream_env \<Rightarrow> event_rec \<Rightarrow> string" where
  "csv_row e r = join '','' [csv_escape_field (uuid_text e (e_id r)), csv_escape_field (e_contract r),
     csv_escape_field (e_type r), csv_escape_field (e_tx_hash r), show_int (e_ledger r),
     csv_escape_field (time_text e (e_timestamp r)), csv_escape_field (json_text e (e_data r)),
     csv_escape_field (time_text e (e_created_at r))] @ [line_feed]"

definition csv_document :: "stream_env \<Rightarrow> (string \<times> string) list option \<Rightarrow> event_rec list \<Rightarrow> string" where
  "csv_document e fm rows = (join '','' (header_names fm) @ [line_feed]) @ concat (map (csv_row e) rows)"

section \<open>The export\<close>

record ExportParams =
  xp_event_type :: "EventType option"
  xp_from_ledger :: "i64 option"
  xp_to_ledger :: "i64 option"
  xp_contract_id :: "string option"
  xp_format :: "string option"
  xp_field_map :: "string option"
  xp_from_timestamp :: "int option"
  xp_to_timestamp :: "int option"

text \<open>The JSON reader of the field map gives its entries; the compressors can fail.\<close>

record export_env =
  ex_texts :: stream_env
  ex_pg :: pg_ops
  ex_keys :: "string list"
  ex_max_rows :: nat
  ex_field_map :: "string \<Rightarrow> (string \<times> string) list option"
  ex_gzip :: "string \<Rightarrow> AppError + string"
  ex_brotli :: "string \<Rightarrow> AppError + string"

record export_answer =
  xa_type :: string
  xa_file :: string
  xa_range :: string
  xa_encoding :: "string option"
  xa_body :: string

definition check_export :: "export_env \<Rightarrow> ExportParams \<Rightarrow> AppError + string" where
  "check_export env p =
     and_then (require (ex_keys env \<noteq> []) (Validation ''export endpoint requires API key authentication'')) (\<lambda>_.
     and_then (require (ordered (xp_from_ledger p) (xp_to_ledger p)) (Validation ''from_ledger must be <= to_ledger'')) (\<lambda>_.
     and_then (when_given (xp_from_ledger p) (validate_ledger_param ''from_ledger'')) (\<lambda>_.
     and_then (when_given (xp_to_ledger p) (validate_ledger_param ''to_ledger'')) (\<lambda>_.
     and_then (require (case (xp_from_timestamp p, xp_to_timestamp p) of (Some a, Some b) \<Rightarrow> a < b | _ \<Rightarrow> True)
       (Validation ''from_timestamp must be < to_timestamp'')) (\<lambda>_.
     let fmt = (case xp_format p of None \<Rightarrow> ''csv'' | Some f \<Rightarrow> f) in
     if fmt = ''csv'' \<or> fmt = [] \<or> fmt = ''parquet'' \<or> fmt = ''jsonl'' \<or> fmt = ''ndjson'' then Inr fmt
     else Inl (Validation (''unsupported format '' @ [CHR 0x27] @ fmt @ [CHR 0x27] @ '': use '' @ [CHR 0x27] @ ''csv'' @ [CHR 0x27] @ '', ''
       @ [CHR 0x27] @ ''parquet'' @ [CHR 0x27] @ '', or '' @ [CHR 0x27] @ ''jsonl'' @ [CHR 0x27])))))))"

definition export_conditions :: "ExportParams \<Rightarrow> condition list" where
  "export_conditions p = fst (push_all
     [(xp_contract_id p \<noteq> None, ContractEq), (xp_event_type p \<noteq> None, TypeEq), (xp_from_ledger p \<noteq> None, LedgerGe),
      (xp_to_ledger p \<noteq> None, LedgerLe), (xp_from_timestamp p \<noteq> None, TimeGe), (xp_to_timestamp p \<noteq> None, TimeLe)] ([], 1))"

definition export_count_binds :: "ExportParams \<Rightarrow> bindval list" where
  "export_count_binds p = bind_opt BText (xp_contract_id p) @ bind_opt (\<lambda>t. BText (EventType_display t)) (xp_event_type p)
     @ bind_opt BInt (xp_from_ledger p) @ bind_opt BInt (xp_to_ledger p)"

definition export_binds :: "ExportParams \<Rightarrow> bindval list" where
  "export_binds p = export_count_binds p @ bind_opt BTime (xp_from_timestamp p) @ bind_opt BTime (xp_to_timestamp p)"

definition check_field_map :: "export_env \<Rightarrow> string option \<Rightarrow> AppError + (string \<times> string) list option" where
  "check_field_map env fm =
     (case fm of None \<Rightarrow> Inr None
      | Some s \<Rightarrow> (case ex_field_map env s of
            None \<Rightarrow> Inl (Validation ''field_map must be a JSON object mapping source field names to target field names'')
          | Some m \<Rightarrow> (case filter (\<lambda>k. k \<notin> set ALLOWED_FIELDS) (map fst m) of
                [] \<Rightarrow> Inr (Some m) | k # _ \<Rightarrow> Inl (Validation (''unknown source field in field_map: '' @ k)))))"

definition encoded :: "export_env \<Rightarrow> string \<Rightarrow> string \<Rightarrow> AppError + string option \<times> string" where
  "encoded env accept body =
     (if contains_str accept ''gzip'' then and_then (ex_gzip env body) (\<lambda>b. Inr (Some ''gzip'', b))
      else if contains_str accept ''br'' then and_then (ex_brotli env body) (\<lambda>b. Inr (Some ''br'', b))
      else Inr (None, body))"

definition file_suffix :: "string option \<Rightarrow> string" where
  "file_suffix e = (case e of None \<Rightarrow> [] | Some s \<Rightarrow> if s = ''gzip'' then ''.gz'' else ''.br'')"

text \<open>
  No build declares the feature \<open>parquet\<close>, so a request for it falls through to CSV. The loop that writes JSON lines
  has no body.
\<close>

definition export_events :: "export_env \<Rightarrow> ExportParams \<Rightarrow> string \<Rightarrow> event_rec list \<Rightarrow> AppError + export_answer" where
  "export_events env p accept tbl =
     and_then (check_export env p) (\<lambda>fmt.
     and_then (run_select (ex_pg env) (export_conditions p) (export_binds p @ [BInt (int (ex_max_rows env))])
        (by_column Ledger Asc) 1 (ex_max_rows env) 0 tbl) (\<lambda>rows.
     and_then (check_field_map env (xp_field_map p)) (\<lambda>fm.
     and_then (run_count (ex_pg env) (export_conditions p) (export_count_binds p) tbl) (\<lambda>n.
     let rng = ''items 0-'' @ show_int (int (length rows) - 1) @ ''/'' @ show_nat n in
     if fmt = ''jsonl'' \<or> fmt = ''ndjson'' then
       and_then (encoded env accept []) (\<lambda>(enc, b). Inr \<lparr>xa_type = ''application/x-ndjson'', xa_file = ''events.jsonl'',
         xa_range = rng, xa_encoding = enc, xa_body = b\<rparr>)
     else
       and_then (encoded env accept (csv_document (ex_texts env) fm rows)) (\<lambda>(enc, b). Inr \<lparr>xa_type = ''text/csv'',
         xa_file = ''events.csv'' @ file_suffix enc, xa_range = rng, xa_encoding = enc, xa_body = b\<rparr>)))))"

definition export_events_csv where
  "export_events_csv env p accept tbl = export_events env (p\<lparr>xp_format := Some ''csv''\<rparr>) accept tbl"

definition export_events_json where
  "export_events_json env p accept tbl = export_events env (p\<lparr>xp_format := Some ''jsonl''\<rparr>) accept tbl"

definition export_events_parquet where
  "export_events_parquet env p accept tbl = export_events env (p\<lparr>xp_format := Some ''parquet''\<rparr>) accept tbl"

section \<open>The Atom feed\<close>

definition escape_xml :: "string \<Rightarrow> string" where
  "escape_xml s = replace_char (CHR 0x27) ''&apos;'' (replace_char quote ''&quot;'' (replace_char (CHR ''>'') ''&gt;''
     (replace_char (CHR ''<'') ''&lt;'' (replace_char (CHR ''&'') ''&amp;'' s))))"

definition render_feed_entry :: "stream_env \<Rightarrow> event_rec \<Rightarrow> string" where
  "render_feed_entry e r =
     ''<entry><title>'' @ escape_xml (e_type r) @ '' event for '' @ escape_xml (e_contract r)
     @ ''</title><id>urn:soroban-pulse:event:'' @ uuid_text e (e_id r) @ ''</id><updated>'' @ escape_xml (time_text e (e_timestamp r))
     @ ''</updated><summary type='' @ [quote] @ ''html'' @ [quote] @ ''>ledger '' @ show_int (e_ledger r) @ '' tx '' @ escape_xml (e_tx_hash r)
     @ ''</summary><content type='' @ [quote] @ ''application/json'' @ [quote] @ ''>'' @ escape_xml (json_text e (e_data r)) @ ''</content></entry>''"

definition render_atom_feed :: "stream_env \<Rightarrow> int \<Rightarrow> event_rec list \<Rightarrow> string" where
  "render_atom_feed e now rows =
     ''<?xml version='' @ [quote] @ ''1.0'' @ [quote] @ '' encoding='' @ [quote] @ ''utf-8'' @ [quote] @ ''?><feed xmlns='' @ [quote]
     @ ''http://www.w3.org/2005/Atom'' @ [quote] @ ''><title>Soroban Pulse Events</title><id>urn:soroban-pulse:events</id><updated>''
     @ escape_xml (time_text e (case rows of [] \<Rightarrow> now | r # _ \<Rightarrow> e_timestamp r)) @ ''</updated>''
     @ concat (map (render_feed_entry e) rows) @ ''</feed>''"

text \<open>The conditions of a query builder bind their value where they are pushed.\<close>

definition feed_filter :: "string option \<Rightarrow> PaginationParams \<Rightarrow> event_rec \<Rightarrow> bool" where
  "feed_filter tid q r \<longleftrightarrow> given (q_contract_id q) (\<lambda>c r. e_contract r = c) r \<and>
     given (q_event_type q) (\<lambda>t r. e_type r = EventType_display t) r \<and>
     given (q_from_ledger q) (\<lambda>n r. n \<le> e_ledger r) r \<and> given (q_to_ledger q) (\<lambda>n r. e_ledger r \<le> n) r \<and>
     given tid (\<lambda>t r. e_tenant r = Some t) r"

definition feed_rows :: "string option \<Rightarrow> PaginationParams \<Rightarrow> event_rec list \<Rightarrow> event_rec list" where
  "feed_rows tid q tbl = take (nat (min (page_limit (q_limit q)) 100)) (order_by (by_position Desc) (filter (feed_filter tid q) tbl))"

text \<open>The key is a text of these six values, each printed with its constructor.\<close>

type_synonym feed_key = "string option \<times> string option \<times> EventType option \<times> i64 option \<times> i64 option \<times> i64 option"

definition feed_cache_key :: "string option \<Rightarrow> PaginationParams \<Rightarrow> feed_key" where
  "feed_cache_key tid q = (tid, q_contract_id q, q_event_type q, q_from_ledger q, q_to_ledger q, q_limit q)"

text \<open>Entries with the time they end, on the monotonic clock; the wall clock only dates an empty feed.\<close>

type_synonym feed_cache = "feed_key \<rightharpoonup> string \<times> int"

definition get_events_feed ::
  "stream_env \<Rightarrow> int \<Rightarrow> int \<Rightarrow> string option \<Rightarrow> PaginationParams \<Rightarrow> event_rec list \<Rightarrow> feed_cache \<Rightarrow> (AppError + string) \<times> feed_cache" where
  "get_events_feed e now wall tid q tbl cache =
     (case and_then (when_given (q_contract_id q) check_contract_id) (\<lambda>_. check_ledger_range (q_from_ledger q) (q_to_ledger q)) of
        Inl err \<Rightarrow> (Inl err, cache)
      | Inr _ \<Rightarrow> let k = feed_cache_key tid q; feed = render_atom_feed e wall (feed_rows tid q tbl) in
          (case cache k of
             Some (f, till) \<Rightarrow> if now < till then (Inr f, cache) else (Inr feed, cache(k \<mapsto> (feed, now + 60)))
           | None \<Rightarrow> (Inr feed, cache(k \<mapsto> (feed, now + 60)))))"

section \<open>The batch query\<close>

record BatchEventFilter =
  bf_contract_id :: "string option"
  bf_event_type :: "string option"
  bf_from_ledger :: "i64 option"
  bf_to_ledger :: "i64 option"
  bf_tx_hash :: "string option"
  bf_limit :: "i64 option"

definition batch_filter :: "BatchEventFilter \<Rightarrow> event_rec \<Rightarrow> bool" where
  "batch_filter f r \<longleftrightarrow> given (bf_contract_id f) (\<lambda>c r. e_contract r = c) r \<and> given (bf_event_type f) (\<lambda>t r. e_type r = t) r \<and>
     given (bf_from_ledger f) (\<lambda>n r. n \<le> e_ledger r) r \<and> given (bf_to_ledger f) (\<lambda>n r. e_ledger r \<le> n) r \<and>
     given (bf_tx_hash f) (\<lambda>h r. e_tx_hash r = h) r"

text \<open>A negative limit is refused by the database; the text of its error is left out.\<close>

definition batch_select :: "BatchEventFilter \<Rightarrow> int \<Rightarrow> event_rec list \<Rightarrow> AppError + event_rec list" where
  "batch_select f n tbl = (if n < 0 then Inl (Internal ''Batch query failed: '')
     else Inr (take (nat n) (newest_first (filter (batch_filter f) tbl))))"

fun batch_collect :: "list_env \<Rightarrow> int \<Rightarrow> BatchEventFilter list \<Rightarrow> event_rec list \<Rightarrow> json list \<Rightarrow> AppError + json list" where
  "batch_collect env m [] tbl acc = Inr acc"
| "batch_collect env m (f # fs) tbl acc =
     (let remaining = m - int (length acc) in
      if remaining \<le> 0 then Inr acc
      else and_then (batch_select f (min (min (case bf_limit f of None \<Rightarrow> 1000 | Some n \<Rightarrow> n) remaining) 10000) tbl) (\<lambda>rows.
        and_then (rows_to_json env False Json batch_columns rows) (\<lambda>js. batch_collect env m fs tbl (acc @ js))))"

definition text_at :: "json \<Rightarrow> string \<Rightarrow> string" where
  "text_at j k = (case Option.bind (field_of k j) as_str of None \<Rightarrow> [] | Some s \<Rightarrow> s)"

definition batch_csv_line :: "json \<Rightarrow> string" where
  "batch_csv_line ev = text_at ev ''id'' @ '','' @ text_at ev ''contract_id'' @ '','' @ text_at ev ''event_type'' @ '',''
     @ text_at ev ''tx_hash'' @ '','' @ show_int (case Option.bind (field_of ''ledger'' ev) as_i64 of None \<Rightarrow> 0 | Some n \<Rightarrow> n)
     @ '','' @ text_at ev ''timestamp'' @ [line_feed]"

datatype batch_answer = BatchCsv string | BatchJson nat "json list"

definition batch_query_events :: "list_env \<Rightarrow> nat \<Rightarrow> BatchEventFilter list \<Rightarrow> string \<Rightarrow> event_rec list \<Rightarrow> AppError + batch_answer" where
  "batch_query_events env max_size filters fmt tbl =
     and_then (require (filters \<noteq> []) (Validation ''filters array must not be empty'')) (\<lambda>_.
     and_then (require (length filters \<le> 100) (Validation ''Maximum 100 filter objects per batch request'')) (\<lambda>_.
     let f = to_ascii_lowercase fmt in
     and_then (require (f = ''json'' \<or> f = ''csv'') (Validation (''format must be '' @ [CHR 0x27] @ ''json'' @ [CHR 0x27]
       @ '' or '' @ [CHR 0x27] @ ''csv'' @ [CHR 0x27]))) (\<lambda>_.
     and_then (batch_collect env (int max_size) filters tbl []) (\<lambda>js.
     Inr (if f = ''csv'' then BatchCsv (''id,contract_id,event_type,tx_hash,ledger,timestamp'' @ [line_feed] @ concat (map batch_csv_line js))
       else BatchJson (length js) js)))))"

section \<open>Reading CSV\<close>




lemma replace_char_Nil [simp]: "replace_char c t [] = []"
  and replace_char_Cons [simp]: "replace_char c t (x # s) = (if x = c then t else [x]) @ replace_char c t s"
  and replace_char_append [simp]: "replace_char c t (s @ s') = replace_char c t s @ replace_char c t s'"
  by (simp_all add: replace_char_def)












section \<open>What an export contains\<close>







lemma export_placeholders: "sum_list (map placeholders (export_conditions p)) = length (export_binds p)"
  unfolding export_conditions_def
  by (subst push_all_count) (auto simp: export_binds_def export_count_binds_def bind_opt_def split: option.split)

text \<open>
  An export with a time filter never succeeds: the count has conditions on the timestamp and no values for them.
\<close>

theorem export_time_filter_fails:
  assumes "xp_from_timestamp p \<noteq> None \<or> xp_to_timestamp p \<noteq> None"
  shows "isl (export_events env p accept tbl)"
proof -
  have "length (export_count_binds p) \<noteq> length (export_binds p)" using assms by (auto simp: export_binds_def)
  then have "run_count ops (export_conditions p) (export_count_binds p) tbl = Inl DB_ERROR" for ops
    by (simp add: run_count_def export_placeholders)
  then show ?thesis by (simp add: export_events_def and_then_def split: sum.split)
qed


text \<open>A JSON lines export has no lines, whatever it selected.\<close>

theorem export_jsonl_empty:
  assumes "export_events env p accept tbl = Inr a" "xa_type a = ''application/x-ndjson''" "xa_encoding a = None"
  shows "xa_body a = []"
  using assms by (auto simp: export_events_def and_then_Inr Let_def encoded_def split: if_splits)

lemma export_json_type: "export_events_json env p accept tbl = Inr a \<Longrightarrow> xa_type a = ''application/x-ndjson''"
  by (auto simp: export_events_json_def export_events_def check_export_def and_then_Inr Let_def split: if_splits)

lemma export_parquet_type: "export_events_parquet env p accept tbl = Inr a \<Longrightarrow> xa_type a = ''text/csv''"
  by (auto simp: export_events_parquet_def export_events_def check_export_def and_then_Inr Let_def split: if_splits)

section \<open>The feed is text in markup\<close>

text \<open>A reader of XML text: it decodes the five predefined entities.\<close>

function xml_read :: "string \<Rightarrow> string" where
  "xml_read [] = []"
| "xml_read (c # cs) = (if c \<noteq> CHR ''&'' then c # xml_read cs
     else if starts_with cs ''amp;'' then CHR ''&'' # xml_read (drop 4 cs)
     else if starts_with cs ''lt;'' then CHR ''<'' # xml_read (drop 3 cs)
     else if starts_with cs ''gt;'' then CHR ''>'' # xml_read (drop 3 cs)
     else if starts_with cs ''quot;'' then quote # xml_read (drop 5 cs)
     else if starts_with cs ''apos;'' then CHR 0x27 # xml_read (drop 5 cs)
     else c # xml_read cs)"
  by pat_completeness auto
termination by (relation "measure length") auto

definition entity :: "char \<Rightarrow> string" where
  "entity c = (if c = CHR ''&'' then ''&amp;'' else if c = CHR ''<'' then ''&lt;'' else if c = CHR ''>'' then ''&gt;''
     else if c = quote then ''&quot;'' else if c = CHR 0x27 then ''&apos;'' else [c])"

lemma escape_xml_Nil: "escape_xml [] = []"
  by (simp add: escape_xml_def)

lemma escape_xml_Cons: "escape_xml (c # s) = entity c @ escape_xml s"
  by (simp add: escape_xml_def entity_def)

lemma escape_xml_entities: "escape_xml s = concat (map entity s)"
  by (induction s) (simp_all add: escape_xml_Nil escape_xml_Cons)

lemma xml_read_entity: "xml_read (entity c @ s) = c # xml_read s"
  by (auto simp: entity_def starts_with_def)

lemma xml_roundtrip: "xml_read (escape_xml s) = s"
  by (induction s) (simp_all add: escape_xml_Nil escape_xml_Cons xml_read_entity)

lemma no_markup: "CHR ''<'' \<notin> set (escape_xml s) \<and> CHR ''>'' \<notin> set (escape_xml s)"
  by (auto simp: escape_xml_entities entity_def split: if_splits)

definition tags :: "string \<Rightarrow> nat" where
  "tags s = length (filter (\<lambda>c. c = CHR ''<'') s)"

lemma tags_simps [simp]: "tags [] = 0" "tags (c # s) = (if c = CHR ''<'' then 1 else 0) + tags s" "tags (s @ t) = tags s + tags t"
  by (simp_all add: tags_def)

lemma tags_free: "CHR ''<'' \<notin> set s \<Longrightarrow> tags s = 0"
  by (auto simp: tags_def filter_empty_conv)

lemma tags_escaped [simp]: "tags (escape_xml s) = 0"
  using no_markup by (intro tags_free) blast

lemma tags_show_int [simp]: "tags (show_int n) = 0"
proof (rule tags_free)
  show "CHR ''<'' \<notin> set (show_int n)" using show_int_chars [of "CHR ''<''" n] by (auto simp: is_ascii_digit_def)
qed

lemma entry_tags: "CHR ''<'' \<notin> set (uuid_text e (e_id r)) \<Longrightarrow> tags (render_feed_entry e r) = 12"
  by (simp add: render_feed_entry_def tags_free)

text \<open>
  No value of an event adds markup to the feed: a feed has the tags of its own frame and of one entry for each
  event, and an XML reader gets every value back.
\<close>

theorem feed_markup:
  assumes "\<And>u. CHR ''<'' \<notin> set (uuid_text e u)"
  shows "tags (render_atom_feed e now rows) = 9 + 12 * length rows \<and> xml_read (escape_xml s) = s"
proof -
  have "tags (concat (map (render_feed_entry e) rows)) = 12 * length rows"
    by (induction rows) (simp_all add: entry_tags assms)
  then show ?thesis by (simp add: render_atom_feed_def xml_roundtrip)
qed

section \<open>The age of a feed\<close>

text \<open>A request with its times, tenant and parameters, and the table when it runs.\<close>

type_synonym feed_request = "int \<times> int \<times> string option \<times> PaginationParams \<times> event_rec list"

definition rq_time :: "feed_request \<Rightarrow> int" where "rq_time rq = fst rq"
definition rq_key :: "feed_request \<Rightarrow> feed_key" where "rq_key rq = (case rq of (_, _, tid, q, _) \<Rightarrow> feed_cache_key tid q)"

definition rq_feed :: "stream_env \<Rightarrow> feed_request \<Rightarrow> string" where
  "rq_feed e rq = (case rq of (_, wall, tid, q, tbl) \<Rightarrow> render_atom_feed e wall (feed_rows tid q tbl))"

fun feed_run :: "stream_env \<Rightarrow> feed_cache \<Rightarrow> feed_request list \<Rightarrow> (AppError + string) list" where
  "feed_run e cache [] = []"
| "feed_run e cache (rq # rqs) = (case rq of (now, wall, tid, q, tbl) \<Rightarrow>
     (case get_events_feed e now wall tid q tbl cache of (ans, cache') \<Rightarrow> ans # feed_run e cache' rqs))"

text \<open>Every entry of the cache was rendered for an earlier request with its key.\<close>

definition feed_cache_inv :: "stream_env \<Rightarrow> feed_request set \<Rightarrow> feed_cache \<Rightarrow> bool" where
  "feed_cache_inv e past cache \<longleftrightarrow> (\<forall>k f till. cache k = Some (f, till) \<longrightarrow>
     (\<exists>rq\<in>past. rq_key rq = k \<and> till = rq_time rq + 60 \<and> f = rq_feed e rq))"

lemma get_events_feed_step:
  assumes "feed_cache_inv e past cache" "get_events_feed e now wall tid q tbl cache = (ans, cache')"
  shows "feed_cache_inv e (insert (now, wall, tid, q, tbl) past) cache' \<and>
    (\<forall>f. ans = Inr f \<longrightarrow> (\<exists>rq\<in>insert (now, wall, tid, q, tbl) past. rq_key rq = feed_cache_key tid q \<and> now < rq_time rq + 60 \<and> f = rq_feed e rq))"
proof -
  let ?rq = "(now, wall, tid, q, tbl)" and ?k = "feed_cache_key tid q"
  have keep: "feed_cache_inv e (insert ?rq past) cache" using assms(1) unfolding feed_cache_inv_def by blast
  have self: "rq_key ?rq = ?k" "rq_time ?rq = now" "rq_feed e ?rq = render_atom_feed e wall (feed_rows tid q tbl)"
    by (simp_all add: rq_key_def rq_time_def rq_feed_def)
  have new: "feed_cache_inv e (insert ?rq past) (cache(?k \<mapsto> (rq_feed e ?rq, now + 60)))"
  proof (unfold feed_cache_inv_def, intro allI impI)
    fix k f till assume "(cache(?k \<mapsto> (rq_feed e ?rq, now + 60))) k = Some (f, till)"
    then have "k = ?k \<and> f = rq_feed e ?rq \<and> till = now + 60 \<or> cache k = Some (f, till)" by (auto split: if_splits)
    then show "\<exists>rq\<in>insert ?rq past. rq_key rq = k \<and> till = rq_time rq + 60 \<and> f = rq_feed e rq"
    proof (elim disjE conjE)
      assume "cache k = Some (f, till)"
      with keep show ?thesis unfolding feed_cache_inv_def by blast
    next
      assume "k = ?k" "f = rq_feed e ?rq" "till = now + 60"
      then show ?thesis using self(1,2) by (intro bexI [of _ ?rq]) simp_all
    qed
  qed
  consider (failed) err where "ans = Inl err" "cache' = cache"
    | (fresh) "ans = Inr (rq_feed e ?rq)" "cache' = cache(?k \<mapsto> (rq_feed e ?rq, now + 60))"
    | (hit) f till where "cache ?k = Some (f, till)" "now < till" "ans = Inr f" "cache' = cache"
  proof (cases "and_then (when_given (q_contract_id q) check_contract_id) (\<lambda>_. check_ledger_range (q_from_ledger q) (q_to_ledger q))")
    case (Inl err)
    then show ?thesis using assms(2) failed [of err] by (auto simp: get_events_feed_def)
  next
    case (Inr u)
    show ?thesis
    proof (cases "cache ?k")
      case None
      then show ?thesis using assms(2) Inr fresh by (auto simp: get_events_feed_def Let_def self(3))
    next
      case (Some c)
      then show ?thesis using assms(2) Inr fresh hit by (cases c) (auto simp: get_events_feed_def Let_def self(3) split: if_splits)
    qed
  qed
  then show ?thesis
  proof cases
    case hit
    then obtain rq where "rq \<in> past" "rq_key rq = ?k" "till = rq_time rq + 60" "f = rq_feed e rq"
      using assms(1) unfolding feed_cache_inv_def by blast
    then show ?thesis using keep hit by auto
  qed (use keep new self in auto)
qed

lemma feed_run_age:
  "feed_cache_inv e past cache \<Longrightarrow> i < length rqs \<Longrightarrow> feed_run e cache rqs ! i = Inr f \<Longrightarrow>
   \<exists>rq\<in>past \<union> set (take (Suc i) rqs). rq_key rq = rq_key (rqs ! i) \<and> rq_time (rqs ! i) < rq_time rq + 60 \<and> f = rq_feed e rq"
proof (induction rqs arbitrary: past cache i)
  case (Cons x rqs)
  obtain now wall tid q tbl where x: "x = (now, wall, tid, q, tbl)" by (cases x)
  obtain ans cache' where g: "get_events_feed e now wall tid q tbl cache = (ans, cache')" by force
  note step = get_events_feed_step [OF Cons.prems(1) g]
  show ?case
  proof (cases i)
    case 0
    then show ?thesis using step Cons.prems(3) x g by (auto simp: rq_key_def rq_time_def)
  next
    case (Suc j)
    from Cons.IH [OF step [THEN conjunct1], of j] show ?thesis using Suc Cons.prems(2,3) x g by auto
  qed
qed simp

text \<open>
  A feed is at most a minute old and belongs to the tenant and the filter of its request: every answer is what an
  earlier request with the same key, less than sixty seconds before, read from the table.
\<close>

theorem feed_answers_recent:
  assumes "i < length rqs" "feed_run e (\<lambda>_. None) rqs ! i = Inr f"
  shows "\<exists>j\<le>i. rq_key (rqs ! j) = rq_key (rqs ! i) \<and> rq_time (rqs ! i) < rq_time (rqs ! j) + 60 \<and> f = rq_feed e (rqs ! j)"
proof -
  have "feed_cache_inv e {} (\<lambda>_. None)" by (simp add: feed_cache_inv_def)
  from feed_run_age [OF this assms] obtain rq where "rq \<in> set (take (Suc i) rqs)"
    "rq_key rq = rq_key (rqs ! i)" "rq_time (rqs ! i) < rq_time rq + 60" "f = rq_feed e rq" by blast
  moreover from this(1) obtain j where "j < Suc i" "rqs ! j = rq" using assms(1) by (auto simp: in_set_conv_nth)
  ultimately show ?thesis by (auto simp: less_Suc_eq_le)
qed

section \<open>The size of a batch\<close>

lemma batch_collect_bounds:
  "batch_collect env m fs tbl acc = Inr js \<Longrightarrow>
   \<exists>new. js = acc @ new \<and> int (length js) \<le> max m (int (length acc)) \<and>
     set new \<subseteq> row_json env Json batch_columns ` {r \<in> set tbl. \<exists>f\<in>set fs. batch_filter f r}"
proof (induction fs arbitrary: acc)
  case (Cons f fs)
  let ?rem = "m - int (length acc)" and ?n = "\<lambda>k. nat (min (min k (m - int (length acc))) 10000)"
  show ?case
  proof (cases "?rem \<le> 0")
    case True
    then show ?thesis using Cons.prems by (auto simp: Let_def)
  next
    case False
    then obtain k where k: "batch_collect env m fs tbl (acc @ map (row_json env Json batch_columns) (take (?n k) (newest_first (filter (batch_filter f) tbl)))) = Inr js"
      using Cons.prems by (auto simp: Let_def and_then_Inr batch_select_def rows_to_json_plain split: if_splits)
    let ?rows = "take (?n k) (newest_first (filter (batch_filter f) tbl))"
    have len: "int (length ?rows) \<le> ?rem" using False by simp
    have sub: "set ?rows \<subseteq> {r \<in> set tbl. batch_filter f r}" using set_take_subset [of "?n k" "newest_first (filter (batch_filter f) tbl)"] by auto
    obtain new where n: "js = (acc @ map (row_json env Json batch_columns) ?rows) @ new"
        "int (length js) \<le> max m (int (length (acc @ map (row_json env Json batch_columns) ?rows)))"
        "set new \<subseteq> row_json env Json batch_columns ` {r \<in> set tbl. \<exists>f\<in>set fs. batch_filter f r}"
      using Cons.IH [OF k] by blast
    have "int (length js) \<le> m" using n(2) len by simp
    moreover have "set (map (row_json env Json batch_columns) ?rows @ new) \<subseteq> row_json env Json batch_columns ` {r \<in> set tbl. \<exists>f\<in>set (f # fs). batch_filter f r}"
    proof -
      have "set new \<subseteq> row_json env Json batch_columns ` {r \<in> set tbl. \<exists>f\<in>set (f # fs). batch_filter f r}"
        using n(3) by (rule order_trans) (intro image_mono, auto)
      moreover have "row_json env Json batch_columns ` set ?rows \<subseteq> row_json env Json batch_columns ` {r \<in> set tbl. \<exists>f\<in>set (f # fs). batch_filter f r}"
        using sub by (intro image_mono) auto
      ultimately show ?thesis by simp
    qed
    ultimately show ?thesis using n(1) by (intro exI [of _ "map (row_json env Json batch_columns) ?rows @ new"]) auto
  qed
qed simp

text \<open>A batch query answers with at most the configured number of events, each of a row that one of the filters admits.\<close>

theorem batch_query_bounded:
  assumes "batch_query_events env max_size fs fmt tbl = Inr (BatchJson n js)"
  shows "n = length js \<and> n \<le> max_size \<and>
    set js \<subseteq> row_json env Json batch_columns ` {r \<in> set tbl. \<exists>f\<in>set fs. batch_filter f r}"
proof -
  have "batch_collect env (int max_size) fs tbl [] = Inr js" "n = length js"
    using assms by (auto simp: batch_query_events_def and_then_Inr Let_def split: if_splits)
  from batch_collect_bounds [OF this(1)] this(2) show ?thesis by auto
qed

section \<open>Instances\<close>

definition sample_export_env :: export_env where
  "sample_export_env = \<lparr>ex_texts = \<lparr>event_text = (\<lambda>_. []), json_text = (\<lambda>_. [quote, CHR ''x'', quote]), record_text = (\<lambda>_. []),
       uuid_text = show_nat, parse_uuid = (\<lambda>_. None), stored = [], opened = (\<lambda>j. j), drawn = (\<lambda>j _. j), time_text = (\<lambda>_. ''now'')\<rparr>,
     ex_pg = \<lparr>topic_contains = (\<lambda>_ _. False), topic_at_contains = (\<lambda>_ _ _. False), text_matches = (\<lambda>_ _. False),
       path_exists = (\<lambda>_ _. False)\<rparr>,
     ex_keys = [''key''], ex_max_rows = 2, ex_field_map = (\<lambda>_. None), ex_gzip = Inr, ex_brotli = Inr\<rparr>"

definition plain_export :: ExportParams where
  "plain_export = \<lparr>xp_event_type = None, xp_from_ledger = None, xp_to_ledger = None, xp_contract_id = None, xp_format = None,
     xp_field_map = None, xp_from_timestamp = None, xp_to_timestamp = None\<rparr>"



theorem export_time_filter_fails_witness:
  "isl (export_events sample_export_env (plain_export\<lparr>xp_from_timestamp := Some 5\<rparr>) [] [])"
  by (rule export_time_filter_fails) (simp add: plain_export_def)

theorem feed_markup_witness:
  "tags (render_atom_feed (ex_texts sample_export_env) 0 [sample_row 7 ''<b>'' JNull]) = 21 \<and> xml_read (escape_xml ''<b>'') = ''<b>''"
proof -
  have "CHR ''<'' \<notin> set (uuid_text (ex_texts sample_export_env) u)" for u
    using show_nat_digits [of "CHR ''<''" u] by (auto simp: sample_export_env_def is_ascii_digit_def)
  from feed_markup [OF this, where rows = "[sample_row 7 ''<b>'' JNull]" and s = "''<b>''"] show ?thesis by simp
qed

definition any_page :: PaginationParams where
  "any_page = \<lparr>q_page = None, q_limit = None, q_exact_count = None, q_fields = None, q_contract_id = None, q_contract_ids = None,
     q_event_type = None, q_from_ledger = None, q_to_ledger = None, q_ledger_hash = None, q_cursor = None, q_sort = None,
     q_sort_by = None, q_in_successful_call = None, q_schema_version = None, q_anonymized = None, q_topic_sym = None,
     q_topic_0 = None, q_topic_1 = None, q_topic_2 = None, q_topic_3 = None, q_search = None, q_from_timestamp = None,
     q_to_timestamp = None, q_compact = None, q_contract_id_prefix = None, q_format = None, q_network = None\<rparr>"

theorem feed_answers_recent_witness:
  "\<exists>f. feed_run (ex_texts sample_export_env) (\<lambda>_. None) [(0, 0, None, any_page, []), (59, 59, None, any_page, [sample_row 7 ''t'' JNull])] ! 1 = Inr f \<and>
     (\<exists>j\<le>1. f = rq_feed (ex_texts sample_export_env) ([(0, 0, None, any_page, []), (59, 59, None, any_page, [sample_row 7 ''t'' JNull])] ! j))"
proof -
  let ?rqs = "[(0, 0, None, any_page, []), (59, 59, None, any_page, [sample_row 7 ''t'' JNull])] :: feed_request list"
  have "\<exists>f. feed_run (ex_texts sample_export_env) (\<lambda>_. None) ?rqs ! 1 = Inr f"
    by (simp add: get_events_feed_def any_page_def check_ledger_range_def and_then_def require_def ordered_def when_given_def Let_def)
  then obtain f where f: "feed_run (ex_texts sample_export_env) (\<lambda>_. None) ?rqs ! 1 = Inr f" by blast
  from feed_answers_recent [OF _ this] f show ?thesis by (intro exI [of _ f] conjI) (assumption, force)
qed

theorem batch_query_bounded_witness:
  "\<exists>n js. batch_query_events env 1 [\<lparr>bf_contract_id = None, bf_event_type = None, bf_from_ledger = None, bf_to_ledger = None,
      bf_tx_hash = None, bf_limit = None\<rparr>] ''json'' [sample_row 7 ''t'' JNull, sample_row 8 ''u'' JNull] = Inr (BatchJson n js) \<and> n \<le> 1"
proof -
  let ?f = "\<lparr>bf_contract_id = None, bf_event_type = None, bf_from_ledger = None, bf_to_ledger = None, bf_tx_hash = None, bf_limit = None\<rparr>"
  have l: "to_ascii_lowercase ''json'' = ''json''" by code_simp
  have "\<exists>n js. batch_query_events env 1 [?f] ''json'' [sample_row 7 ''t'' JNull, sample_row 8 ''u'' JNull] = Inr (BatchJson n js)"
    by (simp add: batch_query_events_def and_then_def require_def l Let_def batch_select_def rows_to_json_plain)
  then show ?thesis using batch_query_bounded by blast
qed

end
