(* ===== verification/Event_Admin.thy ===== *)
theory Event_Admin
  imports Event_Lookup
begin

text \<open>
  Model of the handlers of \<open>src/handlers/events.rs\<close> that change stored events: bulk insertion, anonymization and
  erasure, masking, and the replay of a ledger range with its job in \<open>src/handlers/mod.rs\<close>. Random ids, the
  digests, the parser of timestamps and the check constraints of the table are parameters; the answers of the
  ledger node are an argument of the job.
\<close>

record admin_env =
  ad_sha256 :: "string \<Rightarrow> string"
  ad_hash64 :: "string \<Rightarrow> u64"
  ad_accepts :: "event_rec \<Rightarrow> bool"
  ad_text :: "json \<Rightarrow> string"
  ad_time :: "string \<Rightarrow> int option"
  ad_fresh :: "event_rec list \<Rightarrow> nat"
  ad_now :: int

section \<open>The statements\<close>

definition row_key :: "event_rec \<Rightarrow> string \<times> string \<times> string" where
  "row_key r = (e_tx_hash r, e_contract r, e_type r)"

definition key_columns :: "string list" where "key_columns = [''tx_hash'', ''contract_id'', ''event_type'']"

text \<open>
  \<open>INSERT .. ON CONFLICT (columns) DO NOTHING\<close>: the columns have to be those of a unique index. Besides the primary
  key there is one, on the hash of the transaction, the contract and the type.
\<close>

definition insert_on_conflict :: "admin_env \<Rightarrow> string list \<Rightarrow> event_rec \<Rightarrow> event_rec list \<Rightarrow> (AppError + nat) \<times> event_rec list" where
  "insert_on_conflict env cols r tbl =
     (if set cols \<noteq> set key_columns then (Inl DB_ERROR, tbl)
      else if \<not> ad_accepts env r then (Inl DB_ERROR, tbl)
      else if \<exists>s\<in>set tbl. row_key s = row_key r then (Inr 0, tbl)
      else (Inr 1, tbl @ [r]))"

definition update_row :: "admin_env \<Rightarrow> event_rec \<Rightarrow> event_rec list \<Rightarrow> AppError + event_rec list" where
  "update_row env r tbl =
     (if \<not> ad_accepts env r \<or> (\<exists>s\<in>set tbl. e_id s \<noteq> e_id r \<and> row_key s = row_key r) then Inl DB_ERROR
      else Inr (map (\<lambda>s. if e_id s = e_id r then r else s) tbl))"

text \<open>The column \<open>topic_0_sym\<close> is generated from the event data.\<close>

definition generated_topic :: "admin_env \<Rightarrow> json \<Rightarrow> string option" where
  "generated_topic env d = (case Option.bind (field_of ''topic'' d) as_array of
     Some (t # _) \<Rightarrow> (case field_of ''sym'' t of None \<Rightarrow> None | Some JNull \<Rightarrow> None | Some (JString s) \<Rightarrow> Some s
        | Some v \<Rightarrow> Some (ad_text env v))
   | _ \<Rightarrow> None)"

section \<open>Bulk insertion\<close>

record BulkEventInput =
  bi_contract_id :: string
  bi_event_type :: string
  bi_tx_hash :: string
  bi_ledger :: i64
  bi_timestamp :: int
  bi_event_data :: json
  bi_normalized :: "json option"
  bi_ledger_hash :: "string option"
  bi_successful :: "bool option"

record BulkInsertResponse =
  b_inserted :: nat
  b_skipped :: nat
  b_failed :: nat
  b_errors :: "string list"

definition MAX_BATCH_SIZE :: nat where "MAX_BATCH_SIZE = 1000"

definition bulk_row :: "admin_env \<Rightarrow> event_rec list \<Rightarrow> BulkEventInput \<Rightarrow> event_rec" where
  "bulk_row env tbl ev = \<lparr>e_id = ad_fresh env tbl, e_contract = bi_contract_id ev, e_type = bi_event_type ev,
     e_tx_hash = bi_tx_hash ev, e_ledger = bi_ledger ev, e_timestamp = bi_timestamp ev, e_data = bi_event_data ev,
     e_data_normalized = bi_normalized ev, e_data_decoded = None, e_ledger_hash = bi_ledger_hash ev,
     e_ok = (case bi_successful ev of None \<Rightarrow> False | Some b \<Rightarrow> b), e_created_at = ad_now env, e_schema = 1, e_anonymized = False,
     e_topic0 = generated_topic env (bi_event_data ev), e_tenant = Some ''default'', e_chain = Some ''mainnet'',
     e_tx_index = None, e_op_index = None, e_event_index = None\<rparr>"

text \<open>The text that the database driver gives an error is left out.\<close>

definition refuse :: "string \<Rightarrow> BulkInsertResponse \<Rightarrow> BulkInsertResponse" where
  "refuse msg st = st\<lparr>b_failed := b_failed st + 1, b_errors := b_errors st @ [msg]\<rparr>"

definition bulk_step :: "admin_env \<Rightarrow> BulkEventInput \<Rightarrow> BulkInsertResponse \<times> event_rec list \<Rightarrow> BulkInsertResponse \<times> event_rec list" where
  "bulk_step env ev s = (case s of (st, tbl) \<Rightarrow>
     if isl (check_contract_id (bi_contract_id ev)) then (refuse ''Invalid contract_id: Validation error: invalid contract_id format'' st, tbl)
     else if isl (check_tx_hash (bi_tx_hash ev)) then (refuse ''Invalid tx_hash: Validation error: invalid tx_hash format'' st, tbl)
     else if bi_event_type ev \<notin> {''contract'', ''diagnostic'', ''system''} then (refuse (''Invalid event_type: '' @ bi_event_type ev) st, tbl)
     else (case insert_on_conflict env [''contract_id'', ''tx_hash'', ''ledger'', ''event_type''] (bulk_row env tbl ev) tbl of
         (Inl e, tbl') \<Rightarrow> (refuse ''Database error: '' st, tbl')
       | (Inr n, tbl') \<Rightarrow> (if n > 0 then st\<lparr>b_inserted := b_inserted st + 1\<rparr> else st\<lparr>b_skipped := b_skipped st + 1\<rparr>, tbl')))"

definition bulk_insert_events :: "admin_env \<Rightarrow> BulkEventInput list \<Rightarrow> event_rec list \<Rightarrow> (AppError + BulkInsertResponse) \<times> event_rec list" where
  "bulk_insert_events env evs tbl =
     (if evs = [] then (Inl (Validation ''events list cannot be empty''), tbl)
      else if length evs > MAX_BATCH_SIZE then (Inl (Validation (''events list exceeds maximum of '' @ show_nat MAX_BATCH_SIZE @ '' events'')), tbl)
      else case fold (bulk_step env) evs (\<lparr>b_inserted = 0, b_skipped = 0, b_failed = 0, b_errors = []\<rparr>, tbl) of
        (st, tbl') \<Rightarrow> (Inr st, tbl'))"

section \<open>Anonymization and erasure\<close>

definition anonymized_row :: "admin_env \<Rightarrow> event_rec \<Rightarrow> event_rec" where
  "anonymized_row env r = r\<lparr>e_anonymized := True, e_data := JObject [(''anonymized'', JBool True)],
     e_topic0 := generated_topic env (JObject [(''anonymized'', JBool True)]), e_tx_hash := ad_sha256 env (e_tx_hash r)\<rparr>"

definition anonymize_event :: "admin_env \<Rightarrow> nat \<Rightarrow> event_rec list \<Rightarrow> (AppError + unit) \<times> event_rec list" where
  "anonymize_event env i tbl =
     (case find (\<lambda>r. e_id r = i) tbl of
        None \<Rightarrow> (Inl NotFound, tbl)
      | Some r \<Rightarrow> if e_anonymized r then (Inr (), tbl)
          else (case update_row env (anonymized_row env r) tbl of Inl e \<Rightarrow> (Inl e, tbl) | Inr tbl' \<Rightarrow> (Inr (), tbl')))"

text \<open>The rows are updated one by one, outside a transaction.\<close>

fun anonymize_rows :: "admin_env \<Rightarrow> event_rec list \<Rightarrow> event_rec list \<Rightarrow> AppError option \<times> event_rec list" where
  "anonymize_rows env [] tbl = (None, tbl)"
| "anonymize_rows env (r # rs) tbl = (case update_row env (anonymized_row env r) tbl of
     Inl e \<Rightarrow> (Some e, tbl) | Inr tbl' \<Rightarrow> anonymize_rows env rs tbl')"

datatype erasure = Anonymized nat | Deleted nat

definition delete_contract_events :: "admin_env \<Rightarrow> string \<Rightarrow> string option \<Rightarrow> event_rec list \<Rightarrow> (AppError + erasure) \<times> event_rec list" where
  "delete_contract_events env c anonymize_only tbl =
     (case check_contract_id c of Inl e \<Rightarrow> (Inl e, tbl)
      | Inr _ \<Rightarrow> if anonymize_only = Some ''true'' then
            let rows = filter (\<lambda>r. e_contract r = c \<and> \<not> e_anonymized r) tbl in
            (case anonymize_rows env rows tbl of (Some e, tbl') \<Rightarrow> (Inl e, tbl') | (None, tbl') \<Rightarrow> (Inr (Anonymized (length rows)), tbl'))
          else (Inr (Deleted (length (filter (\<lambda>r. e_contract r = c) tbl))), filter (\<lambda>r. e_contract r \<noteq> c) tbl))"

section \<open>Masking\<close>

fun to_hex :: "nat \<Rightarrow> string" where
  "to_hex n = (if n < 16 then [hex_digit n] else to_hex (n div 16) @ [hex_digit (n mod 16)])"

declare to_hex.simps [simp del]

text \<open>\<open>s[..n]\<close> panics when the text is shorter; \<open>None\<close> is the panic.\<close>

definition slice_to :: "nat \<Rightarrow> string \<Rightarrow> string option" where
  "slice_to n s = (if n \<le> length s then Some (take n s) else None)"

definition account_key :: "string \<Rightarrow> bool" where
  "account_key k \<longleftrightarrow> contains_str (to_ascii_lowercase k) ''address'' \<or> contains_str (to_ascii_lowercase k) ''account''"

function mask_event_data :: "(string \<Rightarrow> u64) \<Rightarrow> json \<Rightarrow> json option" where
  "mask_event_data h (JObject m) = map_option JObject (those (map (\<lambda>(k, v).
     Option.bind (mask_event_data h v) (\<lambda>mv. map_option (\<lambda>x. (k, x))
       (case (account_key k, mv) of (True, JString s) \<Rightarrow> map_option JString (slice_to 56 (''G'' @ to_hex (unat (h s)))) | _ \<Rightarrow> Some mv))) m))"
| "mask_event_data h (JArray vs) = map_option JArray (those (map (mask_event_data h) vs))"
| "mask_event_data h JNull = Some JNull"
| "mask_event_data h (JBool b) = Some (JBool b)"
| "mask_event_data h (JNumber n) = Some (JNumber n)"
| "mask_event_data h (JString s) = Some (JString s)"
  by pat_completeness auto
termination by (relation "measure (\<lambda>(h, j). size j)") (auto dest: entry_size item_size)

text \<open>\<open>None\<close> at the end of the job is a panic of its task; the rows before it stay masked.\<close>

fun mask_rows :: "admin_env \<Rightarrow> event_rec list \<Rightarrow> event_rec list \<Rightarrow> (AppError + unit) option \<times> event_rec list" where
  "mask_rows env [] tbl = (Some (Inr ()), tbl)"
| "mask_rows env (r # rs) tbl = (case mask_event_data (ad_hash64 env) (e_data r) of
     None \<Rightarrow> (None, tbl)
   | Some d \<Rightarrow> (case update_row env (r\<lparr>e_data := d, e_topic0 := generated_topic env d\<rparr>) tbl of
       Inl e \<Rightarrow> (Some (Inl e), tbl) | Inr tbl' \<Rightarrow> mask_rows env rs tbl'))"

definition mask_events_background :: "admin_env \<Rightarrow> string list option \<Rightarrow> event_rec list \<Rightarrow> (AppError + unit) option \<times> event_rec list" where
  "mask_events_background env ids tbl =
     mask_rows env (take 1000 (sort_key e_id (filter (\<lambda>r. case ids of None \<Rightarrow> True | Some cs \<Rightarrow> cs = [] \<or> e_contract r \<in> set cs) tbl))) tbl"

section \<open>Replay\<close>

text \<open>
  The window of the indexed ledgers. A range is accepted when it overlaps the window; the warning says that a part
  of it is outside.
\<close>

definition indexed_range :: "event_rec list \<Rightarrow> (i64 \<times> i64) option" where
  "indexed_range tbl = (if tbl = [] then None else Some (Min (e_ledger ` set tbl), Max (e_ledger ` set tbl)))"

datatype replay_refusal = RangeInverted | RangeTooLong | NotActive | NothingIndexed | BeforeWindow | AfterWindow

definition replay_status :: "replay_refusal \<Rightarrow> nat" where
  "replay_status e = (case e of NotActive \<Rightarrow> 403 | _ \<Rightarrow> 400)"

text \<open>The length of the range is computed in 64 bits; the addition wraps in a release build.\<close>

definition range_size :: "u64 \<Rightarrow> u64 \<Rightarrow> u64" where
  "range_size lo hi = (if lo \<le> hi then hi - lo else 0) + 1"

definition replay_events :: "bool \<Rightarrow> u64 \<Rightarrow> u64 \<Rightarrow> event_rec list \<Rightarrow> replay_refusal + bool" where
  "replay_events active lo hi tbl =
     and_then (require (lo \<le> hi) RangeInverted) (\<lambda>_.
     and_then (require (range_size lo hi \<le> 10000) RangeTooLong) (\<lambda>_.
     and_then (require active NotActive) (\<lambda>_.
     let a = sint lo; b = sint hi in
     (case indexed_range tbl of
        None \<Rightarrow> Inl NothingIndexed
      | Some (first, last_ledger) \<Rightarrow>
          if b < first then Inl BeforeWindow
          else if a > last_ledger then Inl AfterWindow
          else Inr (a < first \<or> b > last_ledger)))))"

section \<open>The replay job\<close>

definition replay_row :: "admin_env \<Rightarrow> event_rec list \<Rightarrow> SorobanEvent \<Rightarrow> i64 \<Rightarrow> int \<Rightarrow> event_rec" where
  "replay_row env tbl e n t =
     (let d = JObject [(''value'', ev_value e), (''topic'', (case topic e of None \<Rightarrow> JNull | Some ts \<Rightarrow> JArray ts))] in
      \<lparr>e_id = ad_fresh env tbl, e_contract = contract_id e, e_type = event_type e, e_tx_hash = tx_hash e, e_ledger = n,
       e_timestamp = t, e_data = d, e_data_normalized = None, e_data_decoded = None, e_ledger_hash = None, e_ok = True,
       e_created_at = ad_now env, e_schema = 1, e_anonymized = False, e_topic0 = generated_topic env d,
       e_tenant = Some ''default'', e_chain = Some ''mainnet'', e_tx_index = None, e_op_index = None, e_event_index = None\<rparr>)"

text \<open>\<open>with_deadlock_retry\<close> runs the insertion again on a deadlock; the model has its final outcome.\<close>

definition store_event_with_idempotency ::
  "admin_env \<Rightarrow> SorobanEvent \<Rightarrow> event_rec list \<Rightarrow> (AppError + nat) \<times> event_rec list" where
  "store_event_with_idempotency env e tbl =
     (if unat (ledger e) \<ge> 2 ^ 63 then (Inl (Internal ''out of range integral type conversion attempted''), tbl)
      else case ad_time env (ledger_closed_at e) of
        None \<Rightarrow> (Inl (Internal ''timestamp''), tbl)
      | Some t \<Rightarrow> insert_on_conflict env key_columns (replay_row env tbl e (int (unat (ledger e))) t) tbl)"

text \<open>An event that cannot be stored is logged and passed over.\<close>

definition store_events :: "admin_env \<Rightarrow> SorobanEvent list \<Rightarrow> event_rec list \<Rightarrow> event_rec list" where
  "store_events env es tbl = fold (\<lambda>e t. snd (store_event_with_idempotency env e t)) es tbl"

datatype node_answer = NodeFailure string | NodePage GetEventsResult

text \<open>\<open>ReplayWaiting\<close>: the answer to the last request has not come.\<close>

datatype replay_end = ReplayDone | ReplayFailed string | ReplayWaiting

text \<open>
  The loop over ledgers, with the answers of the node in order; the list that is returned has the start ledgers of
  the requests.
\<close>

fun execute_replay_job :: "admin_env \<Rightarrow> u64 \<Rightarrow> u64 \<Rightarrow> node_answer list \<Rightarrow> event_rec list \<Rightarrow> replay_end \<times> u64 list \<times> event_rec list" where
  "execute_replay_job env cur hi [] tbl = (if cur \<le> hi then (ReplayWaiting, [cur], tbl) else (ReplayDone, [], tbl))"
| "execute_replay_job env cur hi (a # as) tbl =
     (if cur \<le> hi then (case a of
          NodeFailure m \<Rightarrow> (ReplayFailed m, [cur], tbl)
        | NodePage p \<Rightarrow>
            let tbl' = store_events env (events p) tbl in
            if latest_ledger p \<ge> cur then
              (case execute_replay_job env (latest_ledger p + 1) hi as tbl' of (fin, reqs, t) \<Rightarrow> (fin, cur # reqs, t))
            else (ReplayDone, [cur], tbl'))
      else (ReplayDone, [], tbl))"

section \<open>Bulk insertion inserts nothing\<close>

lemma bulk_step_fails: "\<exists>msg. bulk_step env ev (st, tbl) = (refuse msg st, tbl)"
proof -
  have "set [''contract_id'', ''tx_hash'', ''ledger'', ''event_type''] \<noteq> set key_columns"
  proof -
    have "''ledger'' \<notin> set key_columns" by (simp add: key_columns_def)
    moreover have "''ledger'' \<in> set [''contract_id'', ''tx_hash'', ''ledger'', ''event_type'']" by simp
    ultimately show ?thesis by blast
  qed
  then have "insert_on_conflict env [''contract_id'', ''tx_hash'', ''ledger'', ''event_type''] r tbl = (Inl DB_ERROR, tbl)" for r
    unfolding insert_on_conflict_def by (rule if_P)
  then show ?thesis unfolding bulk_step_def by auto
qed

lemma bulk_steps_fail:
  "\<exists>msgs. length msgs = length evs \<and>
     fold (bulk_step env) evs (st, tbl) = (st\<lparr>b_failed := b_failed st + length evs, b_errors := b_errors st @ msgs\<rparr>, tbl)"
proof (induction evs arbitrary: st)
  case (Cons ev evs)
  obtain msg where m: "bulk_step env ev (st, tbl) = (refuse msg st, tbl)" using bulk_step_fails by blast
  obtain msgs where "length msgs = length evs" "fold (bulk_step env) evs (refuse msg st, tbl) =
      (refuse msg st\<lparr>b_failed := b_failed (refuse msg st) + length evs, b_errors := b_errors (refuse msg st) @ msgs\<rparr>, tbl)"
    using Cons.IH by blast
  then show ?case by (intro exI [of _ "msg # msgs"]) (simp add: m refuse_def)
qed simp

text \<open>
  The conflict clause of the bulk insertion names columns that no unique index has. So a request that is accepted
  reports every event as failed, with one message each, and the table stays as it is.
\<close>

theorem bulk_never_inserts:
  assumes "bulk_insert_events env evs tbl = (Inr resp, tbl')"
  shows "tbl' = tbl \<and> b_inserted resp = 0 \<and> b_skipped resp = 0 \<and> b_failed resp = length evs \<and> length (b_errors resp) = length evs"
proof -
  obtain msgs where "length msgs = length evs" "fold (bulk_step env) evs (\<lparr>b_inserted = 0, b_skipped = 0, b_failed = 0, b_errors = []\<rparr>, tbl) =
      (\<lparr>b_inserted = 0, b_skipped = 0, b_failed = 0, b_errors = []\<rparr>\<lparr>b_failed := 0 + length evs, b_errors := [] @ msgs\<rparr>, tbl)"
    using bulk_steps_fail [of evs env "\<lparr>b_inserted = 0, b_skipped = 0, b_failed = 0, b_errors = []\<rparr>" tbl] by auto
  then show ?thesis using assms by (auto simp: bulk_insert_events_def split: if_splits)
qed

section \<open>Anonymization\<close>

definition unique_ids :: "event_rec list \<Rightarrow> bool" where "unique_ids tbl \<longleftrightarrow> distinct (map e_id tbl)"

lemma anonymized_row_id [simp]: "e_id (anonymized_row env r) = e_id r"
  by (simp add: anonymized_row_def)

lemma update_row_map: "update_row env r tbl = Inr tbl' \<Longrightarrow> tbl' = map (\<lambda>s. if e_id s = e_id r then r else s) tbl"
  by (auto simp: update_row_def split: if_splits)

lemma anonymize_rows_map:
  "anonymize_rows env rs tbl = (None, tbl') \<Longrightarrow> distinct (map e_id rs) \<Longrightarrow>
   tbl' = map (\<lambda>s. case find (\<lambda>r. e_id r = e_id s) rs of None \<Rightarrow> s | Some r \<Rightarrow> anonymized_row env r) tbl"
proof (induction rs arbitrary: tbl)
  case (Cons r rs)
  from Cons.prems(1) obtain tbl1 where u: "update_row env (anonymized_row env r) tbl = Inr tbl1" and rest: "anonymize_rows env rs tbl1 = (None, tbl')"
    by (auto split: sum.splits)
  have absent: "find (\<lambda>x. e_id x = e_id r) rs = None" using Cons.prems(2) by (auto simp: find_None_iff) (metis image_eqI)
  have t: "tbl' = map (\<lambda>s. case find (\<lambda>x. e_id x = e_id s) rs of None \<Rightarrow> s | Some x \<Rightarrow> anonymized_row env x) tbl1"
    using Cons.IH [OF rest] Cons.prems(2) by simp
  show ?case unfolding t update_row_map [OF u] map_map by (rule map_cong [OF refl]) (auto simp: absent)
qed simp

lemma find_unique:
  assumes "distinct (map e_id tbl)" "s \<in> set tbl"
  shows "find (\<lambda>r. e_id r = e_id s) (filter P tbl) = (if P s then Some s else None)"
proof (cases "find (\<lambda>r. e_id r = e_id s) (filter P tbl)")
  case None
  then show ?thesis using assms(2) by (auto simp: find_None_iff)
next
  case (Some x)
  then have x: "x \<in> set tbl" "P x" "e_id x = e_id s" by (auto simp: find_Some_iff in_set_conv_nth dest!: nth_mem)
  then have "x = s" using assms by (meson distinct_map inj_onD)
  then show ?thesis using Some x by simp
qed

text \<open>
  C23. Erasure by anonymization changes exactly the rows of the contract that are not anonymized yet. Their decoded and
  normalized data stay in the table.
\<close>

theorem contract_anonymized:
  assumes "delete_contract_events env c (Some ''true'') tbl = (Inr (Anonymized n), tbl')" "unique_ids tbl"
  shows "tbl' = map (\<lambda>r. if e_contract r = c \<and> \<not> e_anonymized r then anonymized_row env r else r) tbl \<and>
    n = length (filter (\<lambda>r. e_contract r = c \<and> \<not> e_anonymized r) tbl) \<and>
    map e_data_decoded tbl' = map e_data_decoded tbl \<and> map e_data_normalized tbl' = map e_data_normalized tbl"
proof -
  let ?P = "\<lambda>r. e_contract r = c \<and> \<not> e_anonymized r"
  have a: "anonymize_rows env (filter ?P tbl) tbl = (None, tbl')" "n = length (filter ?P tbl)"
    using assms(1) by (auto simp: delete_contract_events_def Let_def split: sum.splits prod.splits option.splits)
  have d: "distinct (map e_id tbl)" using assms(2) by (simp add: unique_ids_def)
  then have "distinct (map e_id (filter ?P tbl))" by (rule distinct_map_filter)
  from anonymize_rows_map [OF a(1) this]
  have t: "tbl' = map (\<lambda>r. if ?P r then anonymized_row env r else r) tbl"
    using find_unique [OF d] by (auto intro!: map_cong)
  show ?thesis using a(2) unfolding t by (simp add: anonymized_row_def)
qed

lemma anonymize_event_effect:
  assumes "anonymize_event env i tbl = (Inr (), tbl')" "unique_ids tbl"
  shows "tbl' = map (\<lambda>r. if e_id r = i \<and> \<not> e_anonymized r then anonymized_row env r else r) tbl"
proof -
  obtain r where r: "find (\<lambda>r. e_id r = i) tbl = Some r" using assms(1) by (auto simp: anonymize_event_def split: option.splits)
  then have mem: "r \<in> set tbl" "e_id r = i" by (auto simp: find_Some_iff)
  have same: "s = r" if "s \<in> set tbl" "e_id s = i" for s
    using assms(2) mem that unfolding unique_ids_def by (meson distinct_map inj_onD)
  show ?thesis
  proof (cases "e_anonymized r")
    case True
    then have "tbl' = tbl" using assms(1) r by (simp add: anonymize_event_def)
    moreover have "map (\<lambda>r. if e_id r = i \<and> \<not> e_anonymized r then anonymized_row env r else r) tbl = tbl"
      using same True by (intro map_idI) auto
    ultimately show ?thesis by simp
  next
    case False
    then have "update_row env (anonymized_row env r) tbl = Inr tbl'"
      using assms(1) r by (auto simp: anonymize_event_def split: sum.splits)
    from update_row_map [OF this] show ?thesis using same False mem(2) by (auto intro!: map_cong)
  qed
qed

lemma anonymize_event_twice:
  assumes "anonymize_event env i tbl = (Inr (), tbl')" "unique_ids tbl"
  shows "anonymize_event env i tbl' = (Inr (), tbl')"
proof -
  note t = anonymize_event_effect [OF assms]
  obtain r where "find (\<lambda>r. e_id r = i) tbl = Some r" using assms(1) by (auto simp: anonymize_event_def split: option.splits)
  then have "r \<in> set tbl" "e_id r = i" by (auto simp: find_Some_iff)
  then have "(if e_id r = i \<and> \<not> e_anonymized r then anonymized_row env r else r) \<in> set tbl'" unfolding t by auto
  moreover have "e_id (if e_id r = i \<and> \<not> e_anonymized r then anonymized_row env r else r) = i" using \<open>e_id r = i\<close> by simp
  ultimately have "find (\<lambda>r. e_id r = i) tbl' \<noteq> None" by (auto simp: find_None_iff)
  then obtain s where s: "find (\<lambda>r. e_id r = i) tbl' = Some s" by blast
  then have "s \<in> set tbl'" "e_id s = i" by (auto simp: find_Some_iff)
  moreover from this(1) [unfolded t] obtain x where "s = (if e_id x = i \<and> \<not> e_anonymized x then anonymized_row env x else x)" unfolding set_map by (elim imageE)
  ultimately have "e_anonymized s" by (cases "e_id x = i \<and> \<not> e_anonymized x") (auto simp: anonymized_row_def)
  then show ?thesis using s by (simp add: anonymize_event_def)
qed

lemma replay_row_key [simp]: "row_key (replay_row env tbl e n t) = (tx_hash e, contract_id e, event_type e)"
  by (simp add: row_key_def replay_row_def Let_def)

text \<open>
  Anonymization takes the key of the event away, so the event comes back when it is stored again: a replay of
  its ledger inserts it anew, with its data.
\<close>

theorem anonymized_event_returns:
  assumes "anonymize_event env i tbl = (Inr (), tbl')" "unique_ids tbl" "distinct (map row_key tbl)"
    "r \<in> set tbl" "e_id r = i" "\<not> e_anonymized r" "row_key r = (tx_hash e, contract_id e, event_type e)"
    "ad_sha256 env (tx_hash e) \<noteq> tx_hash e"
    "unat (ledger e) < 2 ^ 63" "ad_time env (ledger_closed_at e) = Some t"
    "ad_accepts env (replay_row env tbl' e (int (unat (ledger e))) t)"
  shows "store_event_with_idempotency env e tbl' = (Inr 1, tbl' @ [replay_row env tbl' e (int (unat (ledger e))) t])"
proof -
  have t: "tbl' = map (\<lambda>r. if e_id r = i \<and> \<not> e_anonymized r then anonymized_row env r else r) tbl"
    by (rule anonymize_event_effect [OF assms(1,2)])
  have "row_key s \<noteq> (tx_hash e, contract_id e, event_type e)" if "s \<in> set tbl'" for s
  proof -
    from that t obtain x where x: "x \<in> set tbl" "s = (if e_id x = i \<and> \<not> e_anonymized x then anonymized_row env x else x)" by auto
    show ?thesis
    proof (cases "x = r")
      case True
      then have "e_tx_hash s = ad_sha256 env (tx_hash e)" using x(2) assms(5-7) by (simp add: anonymized_row_def row_key_def)
      then show ?thesis using assms(8) by (auto simp: row_key_def)
    next
      case False
      then have "row_key x \<noteq> row_key r" "e_id x \<noteq> i"
        using assms(2-5) x(1) unfolding unique_ids_def by (meson distinct_map inj_onD)+
      then show ?thesis using x(2) assms(7) by simp
    qed
  qed
  then have "\<not> (\<exists>s\<in>set tbl'. row_key s = row_key (replay_row env tbl' e (int (unat (ledger e))) t))"
    by simp
  then show ?thesis using assms(9-11) by (simp add: store_event_with_idempotency_def insert_on_conflict_def)
qed

section \<open>Which replays are accepted\<close>

lemma word_range_size:
  assumes "lo \<le> hi" "range_size lo hi \<noteq> 0"
  shows "unat (range_size lo hi) = unat hi - unat lo + 1"
proof -
  have "unat (1 + (hi - lo)) = Suc (unat (hi - lo))" using assms by (intro unatSuc) (simp add: range_size_def add.commute)
  then show ?thesis using assms(1) by (simp add: range_size_def unat_sub add.commute)
qed

lemma minus_one_u64: "unat (- 1 :: u64) = 18446744073709551615"
  by (simp add: unsigned_minus_1_eq_mask mask_eq_exp_minus_1)

text \<open>The one range whose length wraps to zero is all ledgers; as a signed number its end lies before every ledger.\<close>

lemma full_range: "lo \<le> hi \<Longrightarrow> range_size lo hi = 0 \<Longrightarrow> sint hi = -1" for lo hi :: u64
proof -
  assume le: "lo \<le> hi" and z: "range_size lo hi = 0"
  then have "hi - lo = - 1" by (simp add: range_size_def eq_neg_iff_add_eq_0)
  then have "unat (hi - lo) = 2 ^ 64 - 1" by (simp add: minus_one_u64)
  moreover have "unat (hi - lo) = unat hi - unat lo" using le by (simp add: unat_sub)
  ultimately have "unat hi = 2 ^ 64 - 1" using unsigned_less [of hi, where 'a = nat] by simp
  then have "unat hi = unat (- 1 :: u64)" by (simp add: minus_one_u64)
  then have "hi = - 1" by (simp only: word_unat_eq_iff)
  then show ?thesis by simp
qed

lemma indexed_range_bounds:
  "indexed_range tbl = Some (a, b) \<Longrightarrow> r \<in> set tbl \<Longrightarrow> a \<le> e_ledger r \<and> e_ledger r \<le> b"
  by (auto simp: indexed_range_def split: if_splits)

lemma indexed_range_lower: "indexed_range tbl = Some (a, b) \<Longrightarrow> \<exists>r\<in>set tbl. e_ledger r = a"
proof -
  assume "indexed_range tbl = Some (a, b)"
  then have "a \<in> e_ledger ` set tbl" using Min_in [of "e_ledger ` set tbl"] by (auto simp: indexed_range_def split: if_splits)
  then show ?thesis by blast
qed

lemma next_ledger: "p < - 1 \<Longrightarrow> unat (p + 1) = unat p + 1" for p :: u64
proof -
  assume "p < - 1"
  then have "1 + p \<noteq> 0" by (metis add_eq_0_iff less_irrefl)
  then show ?thesis using unatSuc [of p] by (simp add: add.commute)
qed

text \<open>
  A replay is accepted only on the active indexer, for a range of at most ten thousand ledgers that is not inverted and
  reaches into the window of indexed ledgers, and never for the range whose length wraps.
\<close>

theorem replay_accepts:
  assumes "replay_events active lo hi tbl = Inr warn" "\<And>r. r \<in> set tbl \<Longrightarrow> 0 \<le> e_ledger r"
  shows "active \<and> lo \<le> hi \<and> unat hi - unat lo < 10000 \<and>
    (\<exists>r\<in>set tbl. \<exists>s\<in>set tbl. e_ledger r \<le> sint hi \<and> sint lo \<le> e_ledger s)"
proof -
  from assms(1) obtain a b where w: "lo \<le> hi" "range_size lo hi \<le> 10000" "active" "indexed_range tbl = Some (a, b)" "a \<le> sint hi" "sint lo \<le> b"
    by (auto simp: replay_events_def and_then_Inr require_def Let_def split: option.splits if_splits)
  obtain r where r: "r \<in> set tbl" "e_ledger r = a" using indexed_range_lower [OF w(4)] by blast
  have "b \<in> e_ledger ` set tbl" using w(4) Max_in [of "e_ledger ` set tbl"] by (auto simp: indexed_range_def split: if_splits)
  then obtain s where s: "s \<in> set tbl" "e_ledger s = b" by blast
  have "range_size lo hi \<noteq> 0"
  proof
    assume "range_size lo hi = 0"
    then have "sint hi = -1" using full_range w(1) by blast
    then show False using w(5) r assms(2) [OF r(1)] by simp
  qed
  from word_range_size [OF w(1) this] w(2) have "unat hi - unat lo < 10000" by (simp add: word_le_nat_alt)
  then show ?thesis using w r s by auto
qed

section \<open>The job\<close>

text \<open>
  C22. When the node is already past the range, as it is for ledgers that were indexed, the job asks once. It stores the
  page of that answer, with whatever ledgers it holds, and is done; the rest of the range is never requested.
\<close>

theorem replay_asks_once:
  assumes "lo \<le> hi" "hi \<le> latest_ledger p" "latest_ledger p < - 1"
  shows "execute_replay_job env lo hi (NodePage p # answers) tbl = (ReplayDone, [lo], store_events env (events p) tbl)"
proof -
  have "\<not> latest_ledger p + 1 \<le> hi" using assms(2) next_ledger [OF assms(3)] by (simp add: word_le_nat_alt)
  then show ?thesis using assms(1,2) by (cases answers) (simp_all add: Let_def)
qed

text \<open>The job ends: each request starts at a later ledger, so there are at most as many as the range has ledgers.\<close>

theorem replay_job_ends:
  assumes "\<And>p. NodePage p \<in> set answers \<Longrightarrow> latest_ledger p < - 1" "unat hi + 1 - unat lo \<le> length answers"
  shows "fst (execute_replay_job env lo hi answers tbl) \<noteq> ReplayWaiting"
  using assms
proof (induction env lo hi answers tbl rule: execute_replay_job.induct)
  case (1 env cur hi tbl)
  then show ?case by (simp add: word_le_nat_alt)
next
  case (2 env cur hi a as tbl)
  show ?case
  proof (cases "cur \<le> hi")
    case cur: True
    show ?thesis
    proof (cases a)
      case (NodePage p)
      show ?thesis
      proof (cases "latest_ledger p \<ge> cur")
        case True
        have "latest_ledger p < - 1" using 2(2) [of p] NodePage by simp
        then have "unat (latest_ledger p + 1) = unat (latest_ledger p) + 1" by (rule next_ledger)
        then have "unat hi + 1 - unat (latest_ledger p + 1) \<le> length as" using 2(3) True by (simp add: word_le_nat_alt)
        then have "fst (execute_replay_job env (latest_ledger p + 1) hi as (store_events env (events p) tbl)) \<noteq> ReplayWaiting"
          using 2(1) [OF cur NodePage refl True] 2(2) by simp
        then show ?thesis using cur NodePage True by (simp add: Let_def case_prod_unfold)
      qed (use cur NodePage in \<open>simp add: Let_def\<close>)
    qed (use cur in simp)
  qed simp
qed

section \<open>A replay can be repeated\<close>

lemma store_appends: "\<exists>xs. snd (store_event_with_idempotency env e tbl) = tbl @ xs"
  by (auto simp: store_event_with_idempotency_def insert_on_conflict_def split: option.splits)

definition settled :: "admin_env \<Rightarrow> SorobanEvent \<Rightarrow> event_rec list \<Rightarrow> bool" where
  "settled env e tbl \<longleftrightarrow> snd (store_event_with_idempotency env e tbl) = tbl"

text \<open>The checks of the table do not look at the id.\<close>

definition id_blind :: "admin_env \<Rightarrow> bool" where
  "id_blind env \<longleftrightarrow> (\<forall>tbl tbl' e n t. ad_accepts env (replay_row env tbl e n t) = ad_accepts env (replay_row env tbl' e n t))"

lemma settled_append: "id_blind env \<Longrightarrow> settled env e tbl \<Longrightarrow> settled env e (tbl @ xs)"
  unfolding settled_def store_event_with_idempotency_def insert_on_conflict_def id_blind_def
  by (auto split: option.splits if_splits) metis

lemma settled_after: "id_blind env \<Longrightarrow> settled env e (snd (store_event_with_idempotency env e tbl))"
  unfolding settled_def store_event_with_idempotency_def insert_on_conflict_def id_blind_def
  by (auto split: option.splits if_splits)

lemma store_events_Nil [simp]: "store_events env [] tbl = tbl"
  and store_events_Cons: "store_events env (e # es) tbl = store_events env es (snd (store_event_with_idempotency env e tbl))"
  and store_events_append: "store_events env (es @ fs) tbl = store_events env fs (store_events env es tbl)"
  by (simp_all add: store_events_def)

lemma store_events_extends: "\<exists>xs. store_events env es tbl = tbl @ xs"
proof (induction es arbitrary: tbl)
  case (Cons e es)
  obtain xs where "snd (store_event_with_idempotency env e tbl) = tbl @ xs" using store_appends by blast
  then show ?case using Cons [of "tbl @ xs"] by (auto simp: store_events_Cons)
qed simp

lemma store_events_settles: "id_blind env \<Longrightarrow> e \<in> set es \<Longrightarrow> settled env e (store_events env es tbl)"
proof (induction es arbitrary: tbl)
  case (Cons x es)
  let ?t = "snd (store_event_with_idempotency env x tbl)"
  show ?case
  proof (cases "e \<in> set es")
    case True
    then show ?thesis using Cons by (simp add: store_events_Cons)
  next
    case False
    obtain xs where "store_events env es ?t = ?t @ xs" using store_events_extends by blast
    moreover have "settled env e ?t" using settled_after Cons.prems False by auto
    ultimately show ?thesis using settled_append [OF Cons.prems(1)] by (simp add: store_events_Cons)
  qed
qed simp

lemma store_events_settled: "(\<And>e. e \<in> set es \<Longrightarrow> settled env e tbl) \<Longrightarrow> store_events env es tbl = tbl"
  by (induction es) (simp_all add: store_events_Cons settled_def)

text \<open>The events that a run of the job stores, and its table.\<close>

fun replayed :: "u64 \<Rightarrow> u64 \<Rightarrow> node_answer list \<Rightarrow> SorobanEvent list" where
  "replayed cur hi [] = []"
| "replayed cur hi (a # as) = (if cur \<le> hi then (case a of NodeFailure m \<Rightarrow> []
     | NodePage p \<Rightarrow> events p @ (if latest_ledger p \<ge> cur then replayed (latest_ledger p + 1) hi as else [])) else [])"

lemma job_table: "snd (snd (execute_replay_job env cur hi answers tbl)) = store_events env (replayed cur hi answers) tbl"
proof (induction env cur hi answers tbl rule: execute_replay_job.induct)
  case (2 env cur hi a as tbl)
  show ?case
  proof (cases "cur \<le> hi")
    case cur: True
    show ?thesis
    proof (cases a)
      case (NodePage p)
      then show ?thesis
        using 2 [OF cur NodePage refl] cur by (simp add: Let_def case_prod_unfold store_events_append)
    qed (use cur in simp)
  qed simp
qed simp

lemma job_same_requests:
  "fst (execute_replay_job env cur hi answers s) = fst (execute_replay_job env cur hi answers tbl) \<and>
   fst (snd (execute_replay_job env cur hi answers s)) = fst (snd (execute_replay_job env cur hi answers tbl))"
proof (induction answers arbitrary: cur s tbl)
  case (Cons a as)
  show ?case
  proof (cases a)
    case (NodePage p)
    from Cons [of "latest_ledger p + 1" "store_events env (events p) s" "store_events env (events p) tbl"]
    show ?thesis using NodePage by (simp add: Let_def case_prod_unfold)
  qed simp
qed simp

text \<open>
  C21. A replay can be repeated: with the same answers of the node, a second run leaves the table of the first as it is,
  and a run never changes or removes a row that was there.
\<close>

theorem replay_idempotent:
  assumes "id_blind env" "execute_replay_job env lo hi answers tbl = (fin, reqs, tbl')"
  shows "execute_replay_job env lo hi answers tbl' = (fin, reqs, tbl') \<and> (\<exists>xs. tbl' = tbl @ xs)"
proof -
  have t: "tbl' = store_events env (replayed lo hi answers) tbl" using job_table [of env lo hi answers tbl] assms(2) by simp
  have "store_events env (replayed lo hi answers) tbl' = tbl'"
    by (rule store_events_settled) (use store_events_settles [OF assms(1)] t in simp)
  moreover have "fst (execute_replay_job env lo hi answers s) = fst (execute_replay_job env lo hi answers tbl) \<and>
      fst (snd (execute_replay_job env lo hi answers s)) = fst (snd (execute_replay_job env lo hi answers tbl))" for s
    by (rule job_same_requests)
  ultimately show ?thesis using assms(2) job_table [of env lo hi answers tbl'] t store_events_extends [of env "replayed lo hi answers" tbl]
    by (metis fst_conv snd_conv prod.collapse)
qed

section \<open>Masking masks nothing\<close>

lemma length_to_hex: "n < 16 ^ Suc k \<Longrightarrow> length (to_hex n) \<le> Suc k"
proof (induction n arbitrary: k rule: to_hex.induct)
  case (1 n)
  show ?case
  proof (cases "n < 16")
    case True
    then show ?thesis by (simp add: to_hex.simps [of n])
  next
    case False
    then obtain j where k: "k = Suc j" using 1(2) by (cases k) auto
    then have "n div 16 < 16 ^ Suc j" using 1(2) by (simp add: less_mult_imp_div_less)
    from 1(1) [OF False this] show ?thesis using False k by (simp add: to_hex.simps [of n])
  qed
qed

lemma mask_slice_panics: "slice_to 56 (''G'' @ to_hex (unat h)) = None" for h :: u64
proof -
  have "unat h < 16 ^ Suc 15" using unsigned_less [of h, where 'a = nat] by simp
  from length_to_hex [OF this] show ?thesis by (simp add: slice_to_def)
qed

function has_account_text :: "json \<Rightarrow> bool" where
  "has_account_text (JObject m) = (\<exists>(k, v)\<in>set m. account_key k \<and> as_str v \<noteq> None \<or> has_account_text v)"
| "has_account_text (JArray vs) = (\<exists>v\<in>set vs. has_account_text v)"
| "has_account_text JNull = False"
| "has_account_text (JBool b) = False"
| "has_account_text (JNumber n) = False"
| "has_account_text (JString s) = False"
  by pat_completeness auto
termination by (relation "measure size") (auto dest: entry_size item_size)

lemma those_same:
  "(\<And>x. x \<in> set xs \<Longrightarrow> f x = (if P x then None else Some x)) \<Longrightarrow> those (map f xs) = (if \<exists>x\<in>set xs. P x then None else Some xs)"
  by (induction xs) (auto split: option.splits if_splits)

text \<open>
  C24. Masking never masks: data with a text under a key that names an address or an account makes the job panic, since
  the masked text is cut longer than it is, and any other data stays as it is.
\<close>

theorem mask_never_masks: "mask_event_data h j = (if has_account_text j then None else Some j)"
proof (induction h j rule: mask_event_data.induct)
  case (1 h m)
  have entry: "(case kv of (k, v) \<Rightarrow> Option.bind (mask_event_data h v) (\<lambda>mv. map_option (\<lambda>x. (k, x))
       (case (account_key k, mv) of (True, JString s) \<Rightarrow> map_option JString (slice_to 56 (''G'' @ to_hex (unat (h s)))) | _ \<Rightarrow> Some mv))) =
     (if case kv of (k, v) \<Rightarrow> account_key k \<and> as_str v \<noteq> None \<or> has_account_text v then None else Some kv)" if kv: "kv \<in> set m" for kv
  proof -
    obtain k v where "kv = (k, v)" by (cases kv)
    moreover have "mask_event_data h v = (if has_account_text v then None else Some v)" using 1 kv calculation by blast
    ultimately show ?thesis using mask_slice_panics
      by (cases v; cases "account_key k") (simp_all del: mask_event_data.simps has_account_text.simps)
  qed
  show ?case unfolding mask_event_data.simps(1) by (subst those_same [OF entry]) auto
next
  case (2 h vs)
  have "those (map (mask_event_data h) vs) = (if \<exists>v\<in>set vs. has_account_text v then None else Some vs)"
    by (rule those_same) (use 2 in blast)
  then show ?case by simp
qed simp_all

section \<open>Instances\<close>

definition sample_admin :: admin_env where
  "sample_admin = \<lparr>ad_sha256 = (\<lambda>s. ''h'' @ s), ad_hash64 = (\<lambda>_. 0), ad_accepts = (\<lambda>_. True), ad_text = (\<lambda>_. []),
     ad_time = (\<lambda>_. Some 0), ad_fresh = length, ad_now = 0\<rparr>"

lemma sample_id_blind: "id_blind sample_admin"
  by (simp add: id_blind_def sample_admin_def)

theorem bulk_never_inserts_witness:
  "\<exists>resp tbl'. bulk_insert_events sample_admin [\<lparr>bi_contract_id = [], bi_event_type = [], bi_tx_hash = [], bi_ledger = 1, bi_timestamp = 0,
      bi_event_data = JNull, bi_normalized = None, bi_ledger_hash = None, bi_successful = None\<rparr>] [] = (Inr resp, tbl') \<and>
     b_inserted resp = 0 \<and> b_failed resp = 1"
proof -
  let ?ev = "\<lparr>bi_contract_id = [], bi_event_type = [], bi_tx_hash = [], bi_ledger = 1, bi_timestamp = 0,
      bi_event_data = JNull, bi_normalized = None, bi_ledger_hash = None, bi_successful = None\<rparr>"
  have "\<exists>resp tbl'. bulk_insert_events sample_admin [?ev] [] = (Inr resp, tbl')"
    by (simp add: bulk_insert_events_def MAX_BATCH_SIZE_def split: prod.split)
  then obtain resp tbl' where r: "bulk_insert_events sample_admin [?ev] [] = (Inr resp, tbl')" by blast
  from bulk_never_inserts [OF r] r show ?thesis by auto
qed

definition contract_of_c :: string where "contract_of_c = replicate 56 (CHR ''C'')"

definition decoded_row :: event_rec where
  "decoded_row = (sample_row 1 ''t'' JNull)\<lparr>e_contract := contract_of_c, e_data_decoded := Some (JString ''name'')\<rparr>"

lemma contract_of_c_ok: "check_contract_id contract_of_c = Inr ()"
proof -
  have "is_ascii_alphanumeric (CHR ''C'')" by code_simp
  then show ?thesis by (simp add: check_contract_id_def contract_of_c_def starts_with_def list_all_iff)
qed

theorem contract_anonymized_witness:
  "\<exists>tbl'. delete_contract_events sample_admin contract_of_c (Some ''true'') [decoded_row] = (Inr (Anonymized 1), tbl') \<and>
     map e_data_decoded tbl' = [Some (JString ''name'')]"
proof -
  have d: "e_contract decoded_row = contract_of_c" "\<not> e_anonymized decoded_row" "e_data_decoded decoded_row = Some (JString ''name'')"
    by (simp_all add: decoded_row_def sample_row_def)
  have "\<exists>tbl'. delete_contract_events sample_admin contract_of_c (Some ''true'') [decoded_row] = (Inr (Anonymized 1), tbl')"
    by (simp add: delete_contract_events_def contract_of_c_ok d update_row_def sample_admin_def)
  then obtain tbl' where t: "delete_contract_events sample_admin contract_of_c (Some ''true'') [decoded_row] = (Inr (Anonymized 1), tbl')" by blast
  have "unique_ids [decoded_row]" by (simp add: unique_ids_def)
  from contract_anonymized [OF t this] have "map e_data_decoded tbl' = map e_data_decoded [decoded_row]" by (elim conjE)
  then show ?thesis by (intro exI [of _ tbl'] conjI t) (simp only: list.map d(3))
qed

theorem anonymized_event_returns_witness:
  "\<exists>tbl' t. anonymize_event sample_admin 1 [sample_row 1 ''aa'' JNull] = (Inr (), tbl') \<and>
     store_event_with_idempotency sample_admin sample_event tbl' = (Inr 1, tbl' @ [replay_row sample_admin tbl' sample_event 5 t])"
proof -
  let ?r = "sample_row 1 ''aa'' JNull"
  obtain tbl' where t: "anonymize_event sample_admin 1 [?r] = (Inr (), tbl')"
    by (simp add: anonymize_event_def sample_row_def update_row_def sample_admin_def)
  have "store_event_with_idempotency sample_admin sample_event tbl' =
      (Inr 1, tbl' @ [replay_row sample_admin tbl' sample_event (int (unat (ledger sample_event))) 0])"
    by (rule anonymized_event_returns [OF t, of ?r])
      (simp_all add: unique_ids_def sample_row_def sample_event_def sample_admin_def row_key_def)
  then show ?thesis using t by (auto simp: sample_event_def)
qed

theorem replay_accepts_witness:
  "replay_events True 3 9 [sample_row 5 ''t'' JNull] = Inr True \<and> (\<exists>r\<in>set [sample_row 5 ''t'' JNull]. e_ledger r \<le> sint (9 :: u64))"
proof -
  have "replay_events True 3 9 [sample_row 5 ''t'' JNull] = Inr True"
    by (simp add: replay_events_def and_then_def require_def indexed_range_def sample_row_def range_size_def)
  moreover have "0 \<le> e_ledger r" if "r \<in> set [sample_row 5 ''t'' JNull]" for r using that by (simp add: sample_row_def)
  ultimately show ?thesis using replay_accepts [of True 3 9 "[sample_row 5 ''t'' JNull]" True] by blast
qed

definition sample_page :: GetEventsResult where
  "sample_page = \<lparr>events = [sample_event], latest_ledger = 100, rpc_cursor = None, protocol_version = None\<rparr>"

theorem replay_asks_once_witness:
  "execute_replay_job sample_admin 5 9 [NodePage sample_page] [] = (ReplayDone, [5], store_events sample_admin [sample_event] [])"
  using replay_asks_once [of 5 9 sample_page sample_admin "[]" "[]"] by (simp add: sample_page_def word_less_nat_alt minus_one_u64)

theorem replay_job_ends_witness:
  "fst (execute_replay_job sample_admin 5 9 (replicate 5 (NodePage sample_page)) []) \<noteq> ReplayWaiting"
proof (rule replay_job_ends)
  show "latest_ledger p < - 1" if "NodePage p \<in> set (replicate 5 (NodePage sample_page))" for p
    using that by (simp add: sample_page_def word_less_nat_alt minus_one_u64)
qed simp

theorem replay_idempotent_witness:
  "\<exists>fin reqs tbl'. execute_replay_job sample_admin 5 9 [NodePage sample_page] [] = (fin, reqs, tbl') \<and>
     execute_replay_job sample_admin 5 9 [NodePage sample_page] tbl' = (fin, reqs, tbl')"
proof -
  obtain fin reqs tbl' where r: "execute_replay_job sample_admin 5 9 [NodePage sample_page] [] = (fin, reqs, tbl')"
    by (cases "execute_replay_job sample_admin 5 9 [NodePage sample_page] []")
  from replay_idempotent [OF sample_id_blind this] r show ?thesis by blast
qed

end
