(* ===== verification/Advisory_Lock.thy ===== *)
theory Advisory_Lock
  imports Prelude
begin

text \<open>
  Model of \<open>src/advisory_lock.rs\<close>: leader election over a session-level advisory lock of Postgres. The lock of the
  server is reentrant: it has an owner and a depth. The outcomes of the statements are an argument; a statement
  that times out may have taken effect. The lemmas show mutual exclusion between sessions, what a release gives
  back, and where the fencing token does not tell that leadership is lost.
\<close>

section \<open>The lock of the server\<close>

type_synonym session = nat
type_synonym server_lock = "(session \<times> nat) option"

definition pg_try_advisory_lock :: "session \<Rightarrow> server_lock \<Rightarrow> bool \<times> server_lock" where
  "pg_try_advisory_lock s db = (case db of None \<Rightarrow> (True, Some (s, 1))
     | Some (owner, d) \<Rightarrow> if owner = s then (True, Some (s, d + 1)) else (False, db))"

definition pg_advisory_unlock :: "session \<Rightarrow> server_lock \<Rightarrow> bool \<times> server_lock" where
  "pg_advisory_unlock s db = (case db of None \<Rightarrow> (False, None)
     | Some (owner, d) \<Rightarrow> if owner = s then (True, if d \<le> 1 then None else Some (s, d - 1)) else (False, db))"

text \<open>The server releases the locks of a session that is gone.\<close>

definition pg_disconnect :: "session \<Rightarrow> server_lock \<Rightarrow> server_lock" where
  "pg_disconnect s db = (case db of Some (owner, d) \<Rightarrow> if owner = s then None else db | None \<Rightarrow> None)"

section \<open>The client\<close>

record AdvisoryLockConfig =
  acquire_timeout_ms :: nat
  lock_timeout_ms :: nat
  max_lock_retries :: nat

definition AdvisoryLockConfig_default :: AdvisoryLockConfig where
  "AdvisoryLockConfig_default = \<lparr>acquire_timeout_ms = 30000, lock_timeout_ms = 5000, max_lock_retries = 3\<rparr>"

datatype AdvisoryLockError =
  ConnectionError string | LockAcquisitionTimeout | LockAcquisitionFailed string | LockReleaseError string
| LockValidationError string | ConcurrentAcquisitionInProgress | StaleFencingToken

record LockGuard =
  guard_lock_id :: i64
  fencing_token :: u64

record AdvisoryLock =
  al_lock_id :: i64
  al_config :: AdvisoryLockConfig
  al_acquiring :: bool
  al_held :: bool
  al_epoch :: u64

definition AdvisoryLock_with_config :: "i64 \<Rightarrow> AdvisoryLockConfig \<Rightarrow> AdvisoryLock" where
  "AdvisoryLock_with_config i cfg = \<lparr>al_lock_id = i, al_config = cfg, al_acquiring = False, al_held = False, al_epoch = 0\<rparr>"

definition AdvisoryLock_new :: "i64 \<Rightarrow> AdvisoryLock" where
  "AdvisoryLock_new i = AdvisoryLock_with_config i AdvisoryLockConfig_default"

definition is_current :: "AdvisoryLock \<Rightarrow> u64 \<Rightarrow> bool" where
  "is_current l token \<longleftrightarrow> al_held l \<and> al_epoch l = token"

text \<open>
  How a statement ends. \<open>TimedOut took\<close>: the client gave up waiting, and the server has run the statement or not.
\<close>

datatype statement_end = Answered | StatementFailed string | TimedOut bool

text \<open>One round of the loop; \<open>None\<close> when it did not get the lock.\<close>

definition attempt_lock :: "session \<Rightarrow> statement_end \<Rightarrow> AdvisoryLock \<Rightarrow> server_lock \<Rightarrow> LockGuard option \<times> AdvisoryLock \<times> server_lock" where
  "attempt_lock s out l db = (case out of
     Answered \<Rightarrow> (case pg_try_advisory_lock s db of
         (True, db') \<Rightarrow> let l' = l\<lparr>al_held := True, al_epoch := al_epoch l + 1\<rparr> in
             (Some \<lparr>guard_lock_id = al_lock_id l, fencing_token = al_epoch l'\<rparr>, l', db')
       | (False, db') \<Rightarrow> (None, l, db'))
   | StatementFailed m \<Rightarrow> (None, l, db)
   | TimedOut took \<Rightarrow> (None, l, if took then snd (pg_try_advisory_lock s db) else db))"

text \<open>
  The rounds, with the number left and the number of this one; the world says what other sessions do to the lock
  before a round and how its statement ends. The error is that of the last round.
\<close>

type_synonym lock_world = "nat \<Rightarrow> (server_lock \<Rightarrow> server_lock) \<times> statement_end"

fun acquire_rounds ::
  "nat \<Rightarrow> nat \<Rightarrow> lock_world \<Rightarrow> session \<Rightarrow> AdvisoryLock \<Rightarrow> server_lock \<Rightarrow> (AdvisoryLockError + LockGuard) \<times> AdvisoryLock \<times> server_lock" where
  "acquire_rounds 0 i w s l db = (Inl (LockAcquisitionFailed ''Max retries exceeded''), l, db)"
| "acquire_rounds (Suc n) i w s l db =
     (case attempt_lock s (snd (w i)) l (fst (w i) db) of
        (Some g, l', db') \<Rightarrow> (Inr g, l', db')
      | (None, l', db') \<Rightarrow> (case (snd (w i), n) of
            (StatementFailed m, 0) \<Rightarrow> (Inl (LockAcquisitionFailed m), l', db')
          | (TimedOut took, 0) \<Rightarrow> (Inl LockAcquisitionTimeout, l', db')
          | _ \<Rightarrow> acquire_rounds n (i + 1) w s l' db'))"

text \<open>Round zero is the statement that checks the connection; it has no time limit.\<close>

definition acquire_inner :: "lock_world \<Rightarrow> session \<Rightarrow> AdvisoryLock \<Rightarrow> server_lock \<Rightarrow> (AdvisoryLockError + LockGuard) \<times> AdvisoryLock \<times> server_lock" where
  "acquire_inner w s l db = (case snd (w 0) of StatementFailed m \<Rightarrow> (Inl (ConnectionError m), l, db)
     | _ \<Rightarrow> acquire_rounds (max_lock_retries (al_config l)) 1 w s l db)"

definition acquire :: "lock_world \<Rightarrow> session \<Rightarrow> AdvisoryLock \<Rightarrow> server_lock \<Rightarrow> (AdvisoryLockError + LockGuard) \<times> AdvisoryLock \<times> server_lock" where
  "acquire w s l db =
     (if al_acquiring l then (Inl ConcurrentAcquisitionInProgress, l, db)
      else case acquire_inner w s (l\<lparr>al_acquiring := True\<rparr>) db of (r, l', db') \<Rightarrow> (r, l'\<lparr>al_acquiring := False\<rparr>, db'))"

text \<open>The answer of the unlock statement, whether the session had the lock, is not looked at.\<close>

definition release :: "statement_end \<Rightarrow> session \<Rightarrow> LockGuard \<Rightarrow> AdvisoryLock \<Rightarrow> server_lock \<Rightarrow> (AdvisoryLockError + unit) \<times> AdvisoryLock \<times> server_lock" where
  "release out s g l db =
     (if guard_lock_id g \<noteq> al_lock_id l then (Inl (LockValidationError ''LockGuard does not match this AdvisoryLock instance''), l, db)
      else if al_epoch l \<noteq> fencing_token g then (Inl StaleFencingToken, l, db)
      else case out of StatementFailed m \<Rightarrow> (Inl (LockReleaseError m), l, db)
        | _ \<Rightarrow> (Inr (), l\<lparr>al_held := False\<rparr>, snd (pg_advisory_unlock s db)))"

text \<open>The operation runs between the two; its own error comes before that of the release.\<close>

definition with_lock ::
  "lock_world \<Rightarrow> statement_end \<Rightarrow> session \<Rightarrow> ('w \<Rightarrow> (string + 'a) \<times> 'w) \<Rightarrow> AdvisoryLock \<Rightarrow> server_lock \<Rightarrow> 'w \<Rightarrow>
   ((AdvisoryLockError + string) + 'a) \<times> AdvisoryLock \<times> server_lock \<times> 'w" where
  "with_lock w out s f l db st =
     (case acquire w s l db of
        (Inl e, l', db') \<Rightarrow> (Inl (Inl e), l', db', st)
      | (Inr g, l', db') \<Rightarrow> (case f st of (r, st') \<Rightarrow> (case release out s g l' db' of (rel, l'', db'') \<Rightarrow>
          (case r of Inl m \<Rightarrow> Inl (Inr m) | Inr x \<Rightarrow> (case rel of Inl e \<Rightarrow> Inl (Inl e) | Inr _ \<Rightarrow> Inr x), l'', db'', st'))))"

section \<open>Mutual exclusion\<close>




lemma attempt_lock_cases:
  assumes "attempt_lock s out l db = (g, l', db')"
  shows "(g = None \<and> l' = l \<and> (db' = db \<or> db' = snd (pg_try_advisory_lock s db))) \<or>
    (g = Some \<lparr>guard_lock_id = al_lock_id l, fencing_token = al_epoch l + 1\<rparr> \<and> out = Answered \<and>
     l' = l\<lparr>al_held := True, al_epoch := al_epoch l + 1\<rparr> \<and> pg_try_advisory_lock s db = (True, db'))"
  using assms by (cases out; cases "pg_try_advisory_lock s db") (auto simp: attempt_lock_def Let_def split: bool.splits)

lemma try_lock_owner:
  "db = Some (o1, d) \<Longrightarrow> s \<noteq> o1 \<Longrightarrow> pg_try_advisory_lock s db = (False, db)"
  "pg_try_advisory_lock s db = (True, db') \<Longrightarrow> \<exists>d. db' = Some (s, d)"
  by (auto simp: pg_try_advisory_lock_def split: option.splits if_splits)



section \<open>Acquisition and release\<close>

lemma acquire_rounds_again:
  assumes "attempt_lock s (snd (w i)) l (fst (w i) db) = (None, l1, db1)" "acquire_rounds (Suc n) i w s l db = (Inr g, l', db')"
  shows "acquire_rounds n (i + 1) w s l1 db1 = (Inr g, l', db')"
proof (cases n)
  case 0
  then show ?thesis using assms by (cases "snd (w i)") auto
next
  case (Suc m)
  show ?thesis using assms(2) unfolding Suc acquire_rounds.simps(2) [of "Suc m"] assms(1)
    by (cases "snd (w i)") (simp_all del: acquire_rounds.simps)
qed

lemma acquire_rounds_Inr:
  "acquire_rounds n i w s l db = (Inr g, l', db') \<Longrightarrow>
   guard_lock_id g = al_lock_id l \<and> fencing_token g = al_epoch l + 1 \<and> l' = l\<lparr>al_held := True, al_epoch := al_epoch l + 1\<rparr> \<and>
   (\<exists>d. db' = Some (s, d))"
proof (induction n arbitrary: i db)
  case (Suc n)
  obtain g1 l1 db1 where a: "attempt_lock s (snd (w i)) l (fst (w i) db) = (g1, l1, db1)" by (cases "attempt_lock s (snd (w i)) l (fst (w i) db)")
  show ?case
  proof (cases g1)
    case None
    then have "l1 = l" using attempt_lock_cases [OF a] by auto
    then show ?thesis using Suc.IH [of "i + 1" db1] acquire_rounds_again [OF a [unfolded None] Suc.prems] by blast
  next
    case (Some x)
    then have "g = x" "l' = l1" "db' = db1" using Suc.prems a by auto
    then show ?thesis using attempt_lock_cases [OF a] Some try_lock_owner(2) by auto
  qed
qed simp

lemma acquire_Inr:
  assumes "acquire w s l db = (Inr g, l', db')"
  shows "guard_lock_id g = al_lock_id l \<and> fencing_token g = al_epoch l + 1 \<and>
    l' = l\<lparr>al_held := True, al_epoch := al_epoch l + 1, al_acquiring := False\<rparr> \<and> (\<exists>d. db' = Some (s, d))"
proof -
  obtain r l1 db1 where i: "acquire_inner w s (l\<lparr>al_acquiring := True\<rparr>) db = (r, l1, db1)" by (cases "acquire_inner w s (l\<lparr>al_acquiring := True\<rparr>) db")
  then have r: "r = Inr g" "l' = l1\<lparr>al_acquiring := False\<rparr>" "db' = db1" using assms by (auto simp: acquire_def split: if_splits)
  then have "acquire_rounds (max_lock_retries (al_config l)) 1 w s (l\<lparr>al_acquiring := True\<rparr>) db = (Inr g, l1, db1)"
    using i by (auto simp: acquire_inner_def split: statement_end.splits)
  from acquire_rounds_Inr [OF this] show ?thesis using r by simp
qed

text \<open>
  A token is current from its acquisition to its release and never again: after a second acquisition its release
  is refused and changes nothing.
\<close>

theorem guard_lifetime:
  assumes "acquire w s l db = (Inr g, l1, db1)"
  shows "is_current l1 (fencing_token g) \<and>
    (release out s g l1 db1 = (Inr (), l2, db2) \<longrightarrow> \<not> is_current l2 t) \<and>
    (acquire w' s l1 db3 = (Inr g', l4, db4) \<longrightarrow> \<not> is_current l4 (fencing_token g) \<and>
       release out s g l4 db4 = (Inl StaleFencingToken, l4, db4))"
proof -
  note a = acquire_Inr [OF assms]
  have r: "\<not> is_current l2 t" if "release out s g l1 db1 = (Inr (), l2, db2)"
    using that by (auto simp: release_def is_current_def split: if_splits statement_end.splits)
  have "\<not> is_current l4 (fencing_token g) \<and> release out s g l4 db4 = (Inl StaleFencingToken, l4, db4)"
    if "acquire w' s l1 db3 = (Inr g', l4, db4)"
  proof -
    have "l4 = l1\<lparr>al_held := True, al_epoch := al_epoch l1 + 1, al_acquiring := False\<rparr>" using acquire_Inr [OF that] by blast
    then show ?thesis using a by (simp add: is_current_def release_def)
  qed
  then show ?thesis using a r by (simp add: is_current_def)
qed

section \<open>Whether the lock is free again\<close>

text \<open>A world in which no statement times out and no other session touches the lock.\<close>

definition prompt :: "lock_world \<Rightarrow> bool" where
  "prompt w \<longleftrightarrow> (\<forall>i. fst (w i) = (\<lambda>d. d) \<and> (\<forall>took. snd (w i) \<noteq> TimedOut took))"

lemma prompt_rounds: "prompt w \<Longrightarrow> acquire_rounds n i w s l None = (r, l', db') \<Longrightarrow> (\<exists>g. r = Inr g \<and> db' = Some (s, 1)) \<or> (\<exists>e. r = Inl e \<and> db' = None)"
proof (induction n arbitrary: i)
  case (Suc n)
  have p: "fst (w i) None = None" using Suc.prems(1) by (simp add: prompt_def)
  show ?case
  proof (cases "snd (w i)")
    case Answered
    then show ?thesis using Suc.prems(2) p by (auto simp: attempt_lock_def pg_try_advisory_lock_def Let_def)
  next
    case (StatementFailed m)
    have a: "attempt_lock s (StatementFailed m) l (fst (w i) None) = (None, l, None)" by (simp add: attempt_lock_def p)
    show ?thesis
    proof (cases n)
      case 0
      then show ?thesis using Suc.prems(2) a StatementFailed by auto
    next
      case n: (Suc m')
      have "acquire_rounds n (i + 1) w s l None = (r, l', db')"
        using Suc.prems(2) unfolding n acquire_rounds.simps(2) [of "Suc m'"] StatementFailed a by (simp del: acquire_rounds.simps)
      then show ?thesis by (rule Suc.IH [OF Suc.prems(1)])
    qed
  next
    case (TimedOut took)
    then show ?thesis using Suc.prems(1) by (auto simp: prompt_def)
  qed
qed auto

text \<open>
  Without timeouts, a guarded operation that gets the lock leaves it free, whether it succeeds or not, and it runs
  exactly when the lock was acquired.
\<close>

theorem with_lock_frees:
  assumes "prompt w" "out = Answered" "with_lock w out s f l None st = (res, l', db', st')"
  shows "db' = None \<and> ((\<exists>e. res = Inl (Inl e) \<and> st' = st) \<or> st' = snd (f st) \<and> res = (case fst (f st) of Inl m \<Rightarrow> Inl (Inr m) | Inr x \<Rightarrow> Inr x))"
proof -
  obtain r l1 db1 where a: "acquire w s l None = (r, l1, db1)" by (cases "acquire w s l None")
  have free: "(\<exists>g. r = Inr g \<and> db1 = Some (s, 1)) \<or> (\<exists>e. r = Inl e \<and> db1 = None)"
  proof (cases "al_acquiring l")
    case False
    obtain r2 l2 db2 where i: "acquire_inner w s (l\<lparr>al_acquiring := True\<rparr>) None = (r2, l2, db2)" by (cases "acquire_inner w s (l\<lparr>al_acquiring := True\<rparr>) None")
    then have "r = r2" "db1 = db2" using a False by (auto simp: acquire_def)
    moreover have "(\<exists>g. r2 = Inr g \<and> db2 = Some (s, 1)) \<or> (\<exists>e. r2 = Inl e \<and> db2 = None)"
    proof (cases "snd (w 0)")
      case (StatementFailed m)
      then show ?thesis using i by (auto simp: acquire_inner_def)
    next
      case Answered
      then show ?thesis using i prompt_rounds [OF assms(1)] by (simp add: acquire_inner_def)
    next
      case (TimedOut took)
      then show ?thesis using assms(1) by (auto simp: prompt_def)
    qed
    ultimately show ?thesis by simp
  qed (use a in \<open>auto simp: acquire_def\<close>)
  show ?thesis
  proof (cases r)
    case (Inl e)
    then show ?thesis using assms(3) a free by (auto simp: with_lock_def)
  next
    case (Inr g)
    then have "release Answered s g l1 (Some (s, 1)) = (Inr (), l1\<lparr>al_held := False\<rparr>, None)"
      using acquire_Inr [OF a [unfolded Inr]] by (simp add: release_def pg_advisory_unlock_def)
    then show ?thesis using assms(2,3) a free Inr by (cases "f st") (auto simp: with_lock_def split: sum.splits)
  qed
qed

text \<open>
  C14. A round that times out after the server has taken the lock leaves a second hold behind: the next round gets the
  lock again, one release reports success, and the session still owns the lock, so that no other session gets it.
\<close>

theorem timeout_keeps_lock:
  assumes "max_lock_retries (al_config l) = Suc (Suc n)" "\<not> al_acquiring l" "snd (w 0) = Answered"
    "w 1 = (\<lambda>d. d, TimedOut True)" "w 2 = (\<lambda>d. d, Answered)"
  shows "\<exists>g l1 l2. acquire w s l None = (Inr g, l1, Some (s, 2)) \<and>
    release Answered s g l1 (Some (s, 2)) = (Inr (), l2, Some (s, 1)) \<and> \<not> al_held l2 \<and>
    (\<forall>t. t \<noteq> s \<longrightarrow> pg_try_advisory_lock t (Some (s, 1)) = (False, Some (s, 1)))"
proof -
  have w2: "w (Suc (Suc 0)) = (\<lambda>d. d, Answered)" "w (Suc 0) = (\<lambda>d. d, TimedOut True)"
    using assms(4,5) by (simp_all add: numeral_2_eq_2)
  show ?thesis
    using assms(1-3) w2
    by (simp add: acquire_def acquire_inner_def attempt_lock_def pg_try_advisory_lock_def release_def pg_advisory_unlock_def Let_def numeral_2_eq_2)
qed

text \<open>
  The token does not tell that the connection was lost: the server gives the lock to another session, and both
  sessions have current tokens.
\<close>

theorem lost_session_still_current:
  assumes "acquire w a la db = (Inr g, la', db1)" "acquire w' b lb (pg_disconnect a db1) = (Inr g', lb', db2)"
  shows "is_current la' (fencing_token g) \<and> is_current lb' (fencing_token g') \<and> (\<exists>d. db2 = Some (b, d))"
  using acquire_Inr [OF assms(1)] acquire_Inr [OF assms(2)] by (auto simp: is_current_def)

text \<open>
  Against a lock that another session keeps, an acquisition gives up after its rounds: it does not wait for the
  time limit of the configuration, which only bounds a single statement.
\<close>

lemma contended_rounds: "o1 \<noteq> s \<Longrightarrow> (\<And>i. w i = (\<lambda>d. d, Answered)) \<Longrightarrow>
   acquire_rounds n i w s l (Some (o1, d)) = (Inl (LockAcquisitionFailed ''Max retries exceeded''), l, Some (o1, d))"
proof (induction n arbitrary: i)
  case (Suc n)
  have "attempt_lock s (snd (w i)) l (fst (w i) (Some (o1, d))) = (None, l, Some (o1, d))"
    using Suc.prems by (simp add: attempt_lock_def pg_try_advisory_lock_def)
  then show ?case using Suc.IH [OF Suc.prems, of "i + 1"] Suc.prems(2) [of i] by (cases n) simp_all
qed simp

lemma contended_acquire: "o1 \<noteq> s \<Longrightarrow> \<not> al_acquiring l \<Longrightarrow>
   fst (acquire (\<lambda>i. (\<lambda>d. d, Answered)) s l (Some (o1, d))) = Inl (LockAcquisitionFailed ''Max retries exceeded'')"
  by (simp add: acquire_def acquire_inner_def contended_rounds)

section \<open>Instances\<close>

definition quick :: lock_world where "quick = (\<lambda>i. (\<lambda>d. d, Answered))"

lemma quick_acquire:
  "acquire quick s (AdvisoryLock_new 7) None =
     (Inr \<lparr>guard_lock_id = 7, fencing_token = 1\<rparr>, (AdvisoryLock_new 7)\<lparr>al_held := True, al_epoch := 1\<rparr>, Some (s, 1))"
  by (simp add: quick_def acquire_def acquire_inner_def attempt_lock_def pg_try_advisory_lock_def Let_def AdvisoryLock_new_def
      AdvisoryLock_with_config_def AdvisoryLockConfig_default_def numeral_3_eq_3)


theorem guard_lifetime_witness:
  "is_current ((AdvisoryLock_new 7)\<lparr>al_held := True, al_epoch := 1\<rparr>) 1"
  using conjunct1 [OF guard_lifetime [OF quick_acquire]] by simp

theorem with_lock_frees_witness:
  "\<exists>l'. with_lock quick Answered 3 (\<lambda>n. (Inl ''failed'' :: string + nat, n + 1)) (AdvisoryLock_new 7) None (0 :: nat) = (Inl (Inr ''failed''), l', None, 1)"
proof -
  have p: "prompt quick" by (simp add: prompt_def quick_def)
  obtain res l' db' st' where r: "with_lock quick Answered 3 (\<lambda>n. (Inl ''failed'' :: string + nat, n + 1)) (AdvisoryLock_new 7) None (0 :: nat) = (res, l', db', st')"
    by (cases "with_lock quick Answered 3 (\<lambda>n. (Inl ''failed'' :: string + nat, n + 1)) (AdvisoryLock_new 7) None (0 :: nat)")
  have "res = Inl (Inr ''failed'') \<and> st' = 1" using r by (auto simp: with_lock_def quick_acquire split: prod.splits)
  then show ?thesis using with_lock_frees [OF p refl r] r by auto
qed

theorem timeout_keeps_lock_witness:
  "\<exists>g l1. acquire (\<lambda>i. (\<lambda>d. d, if i = 1 then TimedOut True else Answered)) 4 (AdvisoryLock_new 7) None = (Inr g, l1, Some (4, 2))"
proof -
  have "max_lock_retries (al_config (AdvisoryLock_new 7)) = Suc (Suc 1)" "\<not> al_acquiring (AdvisoryLock_new 7)"
    by (simp_all add: AdvisoryLock_new_def AdvisoryLock_with_config_def AdvisoryLockConfig_default_def)
  from timeout_keeps_lock [OF this, where w = "\<lambda>i. (\<lambda>d. d, if i = 1 then TimedOut True else Answered)"] show ?thesis by simp blast
qed

theorem lost_session_still_current_witness:
  "\<exists>la lb. is_current la 1 \<and> is_current lb 1 \<and> acquire quick 1 (AdvisoryLock_new 7) None = (Inr \<lparr>guard_lock_id = 7, fencing_token = 1\<rparr>, la, Some (1, 1)) \<and>
     acquire quick 2 (AdvisoryLock_new 7) None = (Inr \<lparr>guard_lock_id = 7, fencing_token = 1\<rparr>, lb, Some (2, 1))"
proof -
  have "pg_disconnect 1 (Some (1, 1)) = None" by (simp add: pg_disconnect_def)
  then have "acquire quick 2 (AdvisoryLock_new 7) (pg_disconnect 1 (Some (1, 1))) = (Inr \<lparr>guard_lock_id = 7, fencing_token = 1\<rparr>,
      (AdvisoryLock_new 7)\<lparr>al_held := True, al_epoch := 1\<rparr>, Some (2, 1))" by (simp only: quick_acquire)
  from lost_session_still_current [OF quick_acquire this] show ?thesis using quick_acquire by auto
qed

end
