(* ===== verification/Contract_Tracking.thy ===== *)
theory Contract_Tracking
  imports Event_Lookup
begin

text \<open>
  Model of \<open>src/contract_tracker.rs\<close> (deployments and upgrades decoded from system events),
  \<open>src/contract_versions.rs\<close> (the history of WASM hashes) and \<open>src/ledger_hashes.rs\<close> (the chain of ledger
  hashes). Decoding of stored values, UTF-8 and the hashes a node reports are parameters. The lemmas say when
  upserts in different orders agree, what a history looks like, and which breaks of the chain are counted.
\<close>

section \<open>Decoding a deployment\<close>

text \<open>The constructors of an \<open>ScVal\<close> that the module looks at; addresses are in their text form.\<close>

datatype scval =
  ScSymbol string | ScString string | ScAddress string | ScBytes "8 word list" | ScInstance "8 word list option"
| ScVec "scval list" | ScMap "(scval \<times> scval) list" | ScOther

record scval_env =
  sc_parse_stored :: "json \<Rightarrow> scval option"
  sc_utf8 :: "string \<Rightarrow> string option"

datatype DeploymentKind = Created | Updated

record Deployment =
  dp_kind :: DeploymentKind
  dp_contract :: string
  dp_deployer :: "string option"
  dp_wasm_hash :: "string option"

definition kind_from_name :: "string \<Rightarrow> DeploymentKind option" where
  "kind_from_name nm = (let n = to_ascii_lowercase (filter (\<lambda>c. c \<noteq> CHR ''_'') nm) in
     if n = ''contractcreated'' \<or> n = ''contractdeployed'' then Some Created
     else if n = ''contractupdated'' \<or> n = ''contractupgraded'' \<or> n = ''executableupdate'' then Some Updated else None)"

definition sc_text :: "scval_env \<Rightarrow> scval \<Rightarrow> string option" where
  "sc_text env v = (case v of ScSymbol s \<Rightarrow> sc_utf8 env s | ScString s \<Rightarrow> sc_utf8 env s | _ \<Rightarrow> None)"

definition sc_address :: "scval \<Rightarrow> string option" where
  "sc_address v = (case v of ScAddress a \<Rightarrow> Some a | _ \<Rightarrow> None)"

definition map_get :: "scval_env \<Rightarrow> scval option \<Rightarrow> string list \<Rightarrow> scval option" where
  "map_get env v ks = (case v of
     Some (ScMap m) \<Rightarrow> map_option snd (find (\<lambda>(k, _). case sc_text env k of None \<Rightarrow> False | Some s \<Rightarrow> s \<in> set ks) m)
   | _ \<Rightarrow> None)"

definition hex_pair :: "8 word \<Rightarrow> string" where
  "hex_pair b = [hex_digit (unat b div 16), hex_digit (unat b mod 16)]"

definition hex_encode :: "8 word list \<Rightarrow> string" where
  "hex_encode bs = concat (map hex_pair bs)"

lemma scval_item_size: "v \<in> set xs \<Longrightarrow> size v < Suc (size_list size xs)" for v :: scval
  by (induction xs) auto

lemma scval_entry_size: "(k, v) \<in> set m \<Longrightarrow> size v < Suc (size_list (size_prod size size) m)" for v :: scval
  by (induction m) auto

function collect_hashes :: "scval \<Rightarrow> string list" where
  "collect_hashes (ScBytes b) = (if length b = 32 then [hex_encode b] else [])"
| "collect_hashes (ScInstance h) = (case h of None \<Rightarrow> [] | Some b \<Rightarrow> [hex_encode b])"
| "collect_hashes (ScVec vs) = concat (map collect_hashes vs)"
| "collect_hashes (ScMap m) = concat (map (\<lambda>(k, v). collect_hashes v) m)"
| "collect_hashes (ScSymbol s) = []"
| "collect_hashes (ScString s) = []"
| "collect_hashes (ScAddress s) = []"
| "collect_hashes ScOther = []"
  by pat_completeness auto
termination by (relation "measure size") (auto dest: scval_item_size scval_entry_size)

definition last_of :: "'a list \<Rightarrow> 'a option" where
  "last_of xs = (if xs = [] then None else Some (last xs))"

definition parse_deployment :: "scval_env \<Rightarrow> string \<Rightarrow> string \<Rightarrow> json list \<Rightarrow> json \<Rightarrow> Deployment option" where
  "parse_deployment env cid et topics v =
     (if et \<noteq> ''system'' then None
      else case List.map_filter (sc_parse_stored env) topics of
        [] \<Rightarrow> None
      | t # rest \<Rightarrow> Option.bind (sc_text env t) (\<lambda>nm. Option.bind (kind_from_name nm) (\<lambda>kind.
          let data = sc_parse_stored env v;
              target = (case Option.bind (map_get env data [''contract'', ''contract_id'']) sc_address of None \<Rightarrow> cid | Some a \<Rightarrow> a);
              deployer = (if kind = Created then
                  or_else (Option.bind (map_get env data [''deployer'', ''creator'']) sc_address)
                    (find (\<lambda>a. a \<noteq> target) (List.map_filter sc_address rest)) else None);
              hash = or_else
                (Option.bind (map_get env data [''wasm_hash'', ''new_wasm_hash'', ''new_executable'', ''executable'']) (\<lambda>x. last_of (collect_hashes x)))
                (last_of (concat (map collect_hashes rest) @ (case data of None \<Rightarrow> [] | Some d \<Rightarrow> collect_hashes d)))
          in Some \<lparr>dp_kind = kind, dp_contract = target, dp_deployer = deployer, dp_wasm_hash = hash\<rparr>)))"

section \<open>The contracts table\<close>

record contract_row =
  cr_deployer :: "string option"
  cr_wasm_hash :: "string option"
  cr_deployed_at :: "int option"
  cr_deployed_ledger :: "i64 option"
  cr_deploy_tx :: "string option"
  cr_updated_at :: int
  cr_updated_ledger :: i64

type_synonym sighting = "Deployment \<times> i64 \<times> int \<times> string"

definition excluded_row :: "sighting \<Rightarrow> contract_row" where
  "excluded_row s = (case s of (d, n, t, tx) \<Rightarrow> let created = (dp_kind d = Created) in
     \<lparr>cr_deployer = dp_deployer d, cr_wasm_hash = dp_wasm_hash d, cr_deployed_at = (if created then Some t else None),
      cr_deployed_ledger = (if created then Some n else None), cr_deploy_tx = (if created then Some tx else None),
      cr_updated_at = t, cr_updated_ledger = n\<rparr>)"

text \<open>The \<open>DO UPDATE\<close> part, with the row that was proposed and the row in the table.\<close>

definition merge_rows :: "contract_row \<Rightarrow> contract_row \<Rightarrow> contract_row" where
  "merge_rows x c =
     \<lparr>cr_deployer = or_else (cr_deployer x) (cr_deployer c),
      cr_wasm_hash = (if cr_updated_ledger x \<ge> cr_updated_ledger c then or_else (cr_wasm_hash x) (cr_wasm_hash c)
        else or_else (cr_wasm_hash c) (cr_wasm_hash x)),
      cr_deployed_at = or_else (cr_deployed_at x) (cr_deployed_at c),
      cr_deployed_ledger = or_else (cr_deployed_ledger x) (cr_deployed_ledger c),
      cr_deploy_tx = or_else (cr_deploy_tx x) (cr_deploy_tx c),
      cr_updated_at = (if cr_updated_ledger x \<ge> cr_updated_ledger c then cr_updated_at x else cr_updated_at c),
      cr_updated_ledger = max (cr_updated_ledger c) (cr_updated_ledger x)\<rparr>"

definition record_deployment :: "sighting \<Rightarrow> (string \<rightharpoonup> contract_row) \<Rightarrow> bool \<times> (string \<rightharpoonup> contract_row)" where
  "record_deployment s tbl = (let k = dp_contract (fst s); x = excluded_row s in
     case tbl k of None \<Rightarrow> (True, tbl(k \<mapsto> x)) | Some c \<Rightarrow> (False, tbl(k \<mapsto> merge_rows x c)))"

text \<open>The answer has the row of the contract, or unknown fields for a contract that only has events.\<close>

definition get_contract ::
  "(string \<rightharpoonup> contract_row) \<Rightarrow> (string \<rightharpoonup> string) \<Rightarrow> event_rec list \<Rightarrow> string \<Rightarrow> AppError + contract_row option \<times> string option" where
  "get_contract tbl labels evs c =
     and_then (check_contract_id c) (\<lambda>_. case tbl c of
        Some r \<Rightarrow> Inr (Some r, labels c)
      | None \<Rightarrow> if \<exists>r\<in>set evs. e_contract r = c then Inr (None, labels c) else Inl NotFound)"

section \<open>Versions\<close>

record version_row =
  vr_contract :: string
  vr_hash :: string
  vr_first_ledger :: "i64 option"
  vr_upgrade :: bool

text \<open>The newest row is the last one; ids grow.\<close>

definition latest_hash :: "string \<Rightarrow> version_row list \<Rightarrow> string option" where
  "latest_hash c vs = last_of (map vr_hash (filter (\<lambda>v. vr_contract v = c) vs))"

definition record_hash :: "event_rec list \<Rightarrow> string \<Rightarrow> string \<Rightarrow> version_row list \<Rightarrow> bool option \<times> version_row list" where
  "record_hash evs c h vs =
     (if latest_hash c vs = Some h then (None, vs)
      else let up = (latest_hash c vs \<noteq> None); ls = map e_ledger (filter (\<lambda>r. e_contract r = c) evs) in
        (Some up, vs @ [\<lparr>vr_contract = c, vr_hash = h, vr_first_ledger = (if ls = [] then None else Some (Max (set ls))), vr_upgrade = up\<rparr>]))"

text \<open>
  One cycle over the contracts that were active, in order; the node may not answer. The result has the contracts
  for which an upgrade event was sent.
\<close>

fun version_cycle :: "event_rec list \<Rightarrow> (string \<Rightarrow> string option) \<Rightarrow> string list \<Rightarrow> version_row list \<Rightarrow> string list \<times> version_row list" where
  "version_cycle evs node [] vs = ([], vs)"
| "version_cycle evs node (c # cs) vs = (case node c of
     None \<Rightarrow> version_cycle evs node cs vs
   | Some h \<Rightarrow> (case record_hash evs c h vs of (res, vs') \<Rightarrow> (case version_cycle evs node cs vs' of
       (sent, vs'') \<Rightarrow> ((if res = Some True then c # sent else sent), vs''))))"

section \<open>Ledger hashes\<close>

type_synonym hash_row = "i64 \<times> string \<times> string option"

definition store_ledger_hash :: "u64 \<Rightarrow> string \<Rightarrow> string option \<Rightarrow> hash_row list \<Rightarrow> hash_row list" where
  "store_ledger_hash n h p tbl = (if sint n \<in> set (map fst tbl) then map (\<lambda>r. if fst r = sint n then (sint n, h, p) else r) tbl
     else tbl @ [(sint n, h, p)])"

definition get_ledger_hash :: "u64 \<Rightarrow> hash_row list \<Rightarrow> string option" where
  "get_ledger_hash n tbl = map_option fst (map_of tbl (sint n))"

fun count_breaks :: "(i64 \<times> string) option \<Rightarrow> hash_row list \<Rightarrow> nat" where
  "count_breaks p [] = 0"
| "count_breaks p ((n, h, ph) # rows) =
     (case p of None \<Rightarrow> 0 | Some (m, mh) \<Rightarrow> if n = m + 1 \<and> ph \<noteq> Some mh then 1 else 0) + count_breaks (Some (n, h)) rows"

definition hash_rows :: "i64 \<Rightarrow> i64 \<Rightarrow> hash_row list \<Rightarrow> hash_row list" where
  "hash_rows lo hi tbl = sort_key fst (filter (\<lambda>r. lo \<le> fst r \<and> fst r \<le> hi) tbl)"

definition verify_hash_chain :: "u64 \<Rightarrow> u64 \<Rightarrow> hash_row list \<Rightarrow> nat" where
  "verify_hash_chain lo hi tbl = count_breaks None (hash_rows (sint lo) (sint hi) tbl)"

definition startup_hash_chain_validation :: "hash_row list \<Rightarrow> nat option" where
  "startup_hash_chain_validation tbl =
     (if tbl = [] then None
      else let n = word_of_int (Max (set (map fst tbl))) in Some (verify_hash_chain (if n \<ge> 1000 then n - 1000 else 0) n tbl))"

section \<open>What a decoded deployment is\<close>

text \<open>A WASM hash of the XDR library has 32 bytes.\<close>

function scval_ok :: "scval \<Rightarrow> bool" where
  "scval_ok (ScInstance h) = (case h of None \<Rightarrow> True | Some b \<Rightarrow> length b = 32)"
| "scval_ok (ScVec vs) = list_all scval_ok vs"
| "scval_ok (ScMap m) = list_all (\<lambda>(k, v). scval_ok v) m"
| "scval_ok (ScBytes b) = True"
| "scval_ok (ScSymbol s) = True"
| "scval_ok (ScString s) = True"
| "scval_ok (ScAddress s) = True"
| "scval_ok ScOther = True"
  by pat_completeness auto
termination by (relation "measure size") (auto dest: scval_item_size scval_entry_size)

lemma length_hex_encode: "length (hex_encode bs) = 2 * length bs"
  by (induction bs) (simp_all add: hex_encode_def hex_pair_def)

lemma collect_hashes_length: "scval_ok v \<Longrightarrow> h \<in> set (collect_hashes v) \<Longrightarrow> length h = 64"
proof (induction v rule: collect_hashes.induct)
  case (4 m)
  then obtain k v where "(k, v) \<in> set m" "h \<in> set (collect_hashes v)" by auto
  then show ?case using 4 by (auto simp: list_all_iff)
qed (auto simp: length_hex_encode list_all_iff split: if_splits option.splits)

lemma last_of_mem: "last_of xs = Some x \<Longrightarrow> x \<in> set xs"
  by (auto simp: last_of_def split: if_splits)

lemma map_get_ok: "(\<And>x. v = Some x \<Longrightarrow> scval_ok x) \<Longrightarrow> map_get env v ks = Some y \<Longrightarrow> scval_ok y"
  by (auto simp: map_get_def find_Some_iff list_all_length split: option.splits scval.splits)

text \<open>
  A decoded deployment comes from a system event; only a creation names a deployer, and a WASM hash has 64
  characters.
\<close>

theorem deployment_wellformed:
  assumes "parse_deployment env cid et topics v = Some d" "\<And>j x. sc_parse_stored env j = Some x \<Longrightarrow> scval_ok x"
  shows "et = ''system'' \<and> (dp_kind d = Updated \<longrightarrow> dp_deployer d = None) \<and> (\<forall>h. dp_wasm_hash d = Some h \<longrightarrow> length h = 64)"
proof -
  obtain t rest where ts: "List.map_filter (sc_parse_stored env) topics = t # rest"
    using assms(1) by (auto simp: parse_deployment_def split: if_splits list.splits)
  obtain kind where k: "et = ''system''" "Option.bind (sc_text env t) kind_from_name = Some kind"
    using assms(1) ts by (auto simp: parse_deployment_def bind_eq_Some_conv split: if_splits)
  let ?data = "sc_parse_stored env v"
  have hash: "dp_wasm_hash d = or_else
      (Option.bind (map_get env ?data [''wasm_hash'', ''new_wasm_hash'', ''new_executable'', ''executable'']) (\<lambda>x. last_of (collect_hashes x)))
      (last_of (concat (map collect_hashes rest) @ (case ?data of None \<Rightarrow> [] | Some d \<Rightarrow> collect_hashes d)))"
    and dep: "dp_kind d = Updated \<longrightarrow> dp_deployer d = None"
    using assms(1) ts k by (auto simp: parse_deployment_def bind_eq_Some_conv Let_def)
  have rest_ok: "scval_ok x" if "x \<in> set rest" for x
  proof -
    have "x \<in> set (List.map_filter (sc_parse_stored env) topics)" using that ts by simp
    then show ?thesis using assms(2) by (auto simp: List.map_filter_def)
  qed
  have "length h = 64" if h: "dp_wasm_hash d = Some h" for h
  proof -
    consider x where "map_get env ?data [''wasm_hash'', ''new_wasm_hash'', ''new_executable'', ''executable''] = Some x" "h \<in> set (collect_hashes x)"
      | "h \<in> set (concat (map collect_hashes rest) @ (case ?data of None \<Rightarrow> [] | Some d \<Rightarrow> collect_hashes d))"
      using h unfolding hash or_else_def by (auto simp del: set_append set_concat dest!: last_of_mem split: option.splits bind_splits)
    then show ?thesis
    proof cases
      case 1
      then show ?thesis using map_get_ok [OF _ 1(1)] assms(2) collect_hashes_length by blast
    next
      case 2
      then obtain x where "scval_ok x" "h \<in> set (collect_hashes x)" using rest_ok assms(2) [of v] by (cases ?data) auto
      then show ?thesis by (rule collect_hashes_length)
    qed
  qed
  then show ?thesis using k(1) dep by blast
qed

section \<open>Order of upserts\<close>

definition merged :: "sighting list \<Rightarrow> contract_row option" where
  "merged ss = fold (\<lambda>s c. Some (case c of None \<Rightarrow> excluded_row s | Some c \<Rightarrow> merge_rows (excluded_row s) c)) ss None"

lemma record_all:
  "(\<And>s. s \<in> set ss \<Longrightarrow> dp_contract (fst s) = k) \<Longrightarrow> fold (\<lambda>s t. snd (record_deployment s t)) ss tbl k =
     fold (\<lambda>s c. Some (case c of None \<Rightarrow> excluded_row s | Some c \<Rightarrow> merge_rows (excluded_row s) c)) ss (tbl k)"
proof (induction ss arbitrary: tbl)
  case (Cons s ss)
  have "snd (record_deployment s tbl) k = Some (case tbl k of None \<Rightarrow> excluded_row s | Some c \<Rightarrow> merge_rows (excluded_row s) c)"
    using Cons.prems [of s] by (auto simp: record_deployment_def Let_def split: option.split)
  then show ?case using Cons by simp
qed simp

definition led :: "sighting \<Rightarrow> i64" where "led s = fst (snd s)"
definition creation :: "sighting \<Rightarrow> bool" where "creation s \<longleftrightarrow> dp_kind (fst s) = Created"

text \<open>
  What a row says of the sightings it was made from: the update part is that of the latest ledger, the deployment
  part that of the creation.
\<close>

definition row_of :: "sighting set \<Rightarrow> contract_row \<Rightarrow> bool" where
  "row_of S c \<longleftrightarrow>
     (\<exists>m\<in>S. (\<forall>s\<in>S. led s \<le> led m) \<and> cr_wasm_hash c = dp_wasm_hash (fst m) \<and> cr_updated_at c = fst (snd (snd m)) \<and> cr_updated_ledger c = led m) \<and>
     ((\<exists>d\<in>S. creation d \<and> cr_deployer c = dp_deployer (fst d) \<and> cr_deployed_at c = Some (fst (snd (snd d))) \<and>
         cr_deployed_ledger c = Some (led d) \<and> cr_deploy_tx c = Some (snd (snd (snd d)))) \<or>
      (\<forall>d\<in>S. \<not> creation d) \<and> cr_deployer c = None \<and> cr_deployed_at c = None \<and> cr_deployed_ledger c = None \<and> cr_deploy_tx c = None)"

definition sighting_ok :: "sighting \<Rightarrow> bool" where
  "sighting_ok s \<longleftrightarrow> dp_wasm_hash (fst s) \<noteq> None \<and> (\<not> creation s \<longrightarrow> dp_deployer (fst s) = None)"

lemma excluded_fields:
  "cr_wasm_hash (excluded_row s) = dp_wasm_hash (fst s)" "cr_updated_at (excluded_row s) = fst (snd (snd s))"
  "cr_updated_ledger (excluded_row s) = led s" "cr_deployer (excluded_row s) = dp_deployer (fst s)"
  "cr_deployed_at (excluded_row s) = (if creation s then Some (fst (snd (snd s))) else None)"
  "cr_deployed_ledger (excluded_row s) = (if creation s then Some (led s) else None)"
  "cr_deploy_tx (excluded_row s) = (if creation s then Some (snd (snd (snd s))) else None)"
  by (auto simp: excluded_row_def led_def creation_def Let_def split: prod.splits)

lemma row_of_single: "sighting_ok s \<Longrightarrow> row_of {s} (excluded_row s)"
  by (auto simp: row_of_def excluded_fields sighting_ok_def)

lemma row_of_insert:
  assumes "row_of S c" "sighting_ok s" "\<And>x. x \<in> S \<Longrightarrow> sighting_ok x" "\<And>x. x \<in> S \<Longrightarrow> led x \<noteq> led s"
    "creation s \<Longrightarrow> (\<forall>x\<in>S. \<not> creation x)"
  shows "row_of (insert s S) (merge_rows (excluded_row s) c)"
proof -
  obtain m where m: "m \<in> S" "\<forall>x\<in>S. led x \<le> led m" "cr_wasm_hash c = dp_wasm_hash (fst m)" "cr_updated_at c = fst (snd (snd m))"
      "cr_updated_ledger c = led m"
    using assms(1) unfolding row_of_def by blast
  obtain hs where hs: "dp_wasm_hash (fst s) = Some hs" using assms(2) by (auto simp: sighting_ok_def)
  obtain hm where hm: "dp_wasm_hash (fst m) = Some hm" using assms(3) [OF m(1)] by (auto simp: sighting_ok_def)
  let ?c = "merge_rows (excluded_row s) c"
  have upd: "\<exists>m\<in>insert s S. (\<forall>x\<in>insert s S. led x \<le> led m) \<and> cr_wasm_hash ?c = dp_wasm_hash (fst m) \<and>
      cr_updated_at ?c = fst (snd (snd m)) \<and> cr_updated_ledger ?c = led m"
  proof (cases "led s \<ge> led m")
    case True
    then have "\<forall>x\<in>insert s S. led x \<le> led s" using m(2) by fastforce
    moreover have "cr_wasm_hash ?c = dp_wasm_hash (fst s)" "cr_updated_at ?c = fst (snd (snd s))" "cr_updated_ledger ?c = led s"
      using True m hs by (simp_all add: merge_rows_def excluded_fields or_else_def)
    ultimately show ?thesis by blast
  next
    case False
    then have "\<forall>x\<in>insert s S. led x \<le> led m" using m(2) by simp
    moreover have "cr_wasm_hash ?c = dp_wasm_hash (fst m)" "cr_updated_at ?c = fst (snd (snd m))" "cr_updated_ledger ?c = led m"
      using False m hm by (simp_all add: merge_rows_def excluded_fields or_else_def)
    ultimately show ?thesis using m(1) by blast
  qed
  have dep: "(\<exists>d\<in>insert s S. creation d \<and> cr_deployer ?c = dp_deployer (fst d) \<and> cr_deployed_at ?c = Some (fst (snd (snd d))) \<and>
         cr_deployed_ledger ?c = Some (led d) \<and> cr_deploy_tx ?c = Some (snd (snd (snd d)))) \<or>
      (\<forall>d\<in>insert s S. \<not> creation d) \<and> cr_deployer ?c = None \<and> cr_deployed_at ?c = None \<and> cr_deployed_ledger ?c = None \<and> cr_deploy_tx ?c = None"
  proof (cases "creation s")
    case True
    then have none: "cr_deployer c = None" using assms(1,5) unfolding row_of_def by blast
    then have "cr_deployer ?c = dp_deployer (fst s)" by (simp add: merge_rows_def excluded_fields or_else_def split: option.split)
    then show ?thesis using True by (intro disjI1 bexI [of _ s]) (simp_all add: merge_rows_def excluded_fields or_else_def)
  next
    case False
    then have "dp_deployer (fst s) = None" using assms(2) by (simp add: sighting_ok_def)
    then have "cr_deployer ?c = cr_deployer c" "cr_deployed_at ?c = cr_deployed_at c" "cr_deployed_ledger ?c = cr_deployed_ledger c"
        "cr_deploy_tx ?c = cr_deploy_tx c"
      using False by (simp_all add: merge_rows_def excluded_fields or_else_def)
    then show ?thesis using assms(1) False unfolding row_of_def by auto
  qed
  show ?thesis unfolding row_of_def using upd dep by blast
qed

text \<open>Sightings of one contract in different ledgers, each with a hash, and at most one of them the creation.\<close>

definition one_history :: "sighting list \<Rightarrow> bool" where
  "one_history ss \<longleftrightarrow> distinct (map led ss) \<and> (\<forall>s\<in>set ss. sighting_ok s) \<and> length (filter creation ss) \<le> 1"

lemma merged_snoc: "merged (ss @ [s]) = Some (case merged ss of None \<Rightarrow> excluded_row s | Some c \<Rightarrow> merge_rows (excluded_row s) c)"
  by (simp add: merged_def)

lemma merged_row_of: "ss \<noteq> [] \<Longrightarrow> one_history ss \<Longrightarrow> \<exists>c. merged ss = Some c \<and> row_of (set ss) c"
proof (induction ss rule: rev_induct)
  case (snoc s ss)
  have ok: "sighting_ok s" "one_history ss" "\<And>x. x \<in> set ss \<Longrightarrow> sighting_ok x"
    using snoc.prems by (auto simp: one_history_def)
  have fresh: "led x \<noteq> led s" if "x \<in> set ss" for x
    using snoc.prems(2) imageI [OF that, of led] by (auto simp: one_history_def)
  have cr: "\<forall>x\<in>set ss. \<not> creation x" if "creation s"
    using snoc.prems that by (auto simp: one_history_def filter_empty_conv)
  show ?case
  proof (cases "ss = []")
    case True
    then show ?thesis using row_of_single [OF ok(1)] merged_snoc [of ss s] by (simp add: merged_def)
  next
    case False
    then obtain c where c: "merged ss = Some c" "row_of (set ss) c" using snoc.IH ok(2) by blast
    then have "row_of (insert s (set ss)) (merge_rows (excluded_row s) c)" using row_of_insert [OF c(2) ok(1)] ok fresh cr by blast
    then show ?thesis using c(1) by (simp add: merged_snoc)
  qed
qed simp

lemma row_of_unique:
  assumes "row_of S c" "row_of S c'" "inj_on led S" "\<And>a b. a \<in> S \<Longrightarrow> b \<in> S \<Longrightarrow> creation a \<Longrightarrow> creation b \<Longrightarrow> a = b"
  shows "c = c'"
proof -
  obtain m where m: "m \<in> S" "\<forall>s\<in>S. led s \<le> led m" "cr_wasm_hash c = dp_wasm_hash (fst m)" "cr_updated_at c = fst (snd (snd m))" "cr_updated_ledger c = led m"
    using assms(1) unfolding row_of_def by blast
  obtain m' where m': "m' \<in> S" "\<forall>s\<in>S. led s \<le> led m'" "cr_wasm_hash c' = dp_wasm_hash (fst m')" "cr_updated_at c' = fst (snd (snd m'))" "cr_updated_ledger c' = led m'"
    using assms(2) unfolding row_of_def by blast
  have "m = m'" using m(1,2) m'(1,2) assms(3) by (meson inj_onD order_antisym)
  moreover have "cr_deployer c = cr_deployer c' \<and> cr_deployed_at c = cr_deployed_at c' \<and> cr_deployed_ledger c = cr_deployed_ledger c' \<and> cr_deploy_tx c = cr_deploy_tx c'"
  proof (cases "\<exists>d\<in>S. creation d")
    case True
    then obtain d where "d \<in> S" "creation d" by blast
    then have "\<And>x. x \<in> S \<Longrightarrow> creation x \<Longrightarrow> x = d" using assms(4) by blast
    then show ?thesis using assms(1,2) True unfolding row_of_def by metis
  next
    case False
    then show ?thesis using assms(1,2) unfolding row_of_def by auto
  qed
  ultimately show ?thesis using m m' by (cases c; cases c') simp
qed

text \<open>
  C20. The order of deployment events does not matter when each has a hash, they are in different ledgers and the
  contract is created once: any two orders of the same events give the same row.
\<close>

theorem upserts_converge:
  assumes "one_history ss" "mset ss = mset ss'" "\<And>s. s \<in> set ss \<Longrightarrow> dp_contract (fst s) = k" "ss \<noteq> []"
  shows "fold (\<lambda>s t. snd (record_deployment s t)) ss Map.empty k = fold (\<lambda>s t. snd (record_deployment s t)) ss' Map.empty k"
proof -
  have set: "set ss' = set ss" using assms(2) by (metis set_mset_mset)
  have "one_history ss'" using assms(1,2) unfolding one_history_def
    by (metis mset_filter mset_map mset_eq_imp_distinct_iff set size_mset)
  moreover have "ss' \<noteq> []" using assms(2,4) by auto
  ultimately obtain c' where c': "merged ss' = Some c'" "row_of (set ss) c'" using merged_row_of set by metis
  obtain c where c: "merged ss = Some c" "row_of (set ss) c" using merged_row_of [OF assms(4,1)] by blast
  have "inj_on led (set ss)" using assms(1) by (simp add: one_history_def distinct_map)
  moreover have "a = b" if "a \<in> set ss" "b \<in> set ss" "creation a" "creation b" for a b
  proof (rule ccontr)
    assume ne: "a \<noteq> b"
    have "card {a, b} \<le> card (set (filter creation ss))" using that by (intro card_mono) auto
    also have "\<dots> \<le> length (filter creation ss)" by (rule card_length)
    finally show False using ne assms(1) by (simp add: one_history_def)
  qed
  ultimately have "c = c'" using row_of_unique [OF c(2) c'(2)] by blast
  then show ?thesis using record_all [of ss k Map.empty] record_all [of ss' k Map.empty] assms(3) set c(1) c'(1)
    unfolding merged_def by simp
qed

definition sight :: "string option \<Rightarrow> i64 \<Rightarrow> sighting" where
  "sight h n = (\<lparr>dp_kind = Updated, dp_contract = ''C'', dp_deployer = None, dp_wasm_hash = h\<rparr>, n, n, ''t'')"

text \<open>
  An update without a hash breaks this: seen in the order of the ledgers the row has the hash of the second ledger,
  and when the third ledger is seen first it keeps the one of the first.
\<close>

theorem upserts_diverge:
  "mset [sight (Some ''a'') 1, sight (Some ''b'') 2, sight None 3] = mset [sight None 3, sight (Some ''a'') 1, sight (Some ''b'') 2] \<and>
   map_option cr_wasm_hash (fold (\<lambda>s t. snd (record_deployment s t)) [sight (Some ''a'') 1, sight (Some ''b'') 2, sight None 3] Map.empty ''C'') = Some (Some ''b'') \<and>
   map_option cr_wasm_hash (fold (\<lambda>s t. snd (record_deployment s t)) [sight None 3, sight (Some ''a'') 1, sight (Some ''b'') 2] Map.empty ''C'') = Some (Some ''a'')"
  by (simp add: sight_def record_deployment_def excluded_row_def merge_rows_def or_else_def Let_def)

theorem upserts_converge_witness:
  "fold (\<lambda>s t. snd (record_deployment s t)) [sight (Some ''a'') 1, sight (Some ''b'') 2] Map.empty ''C'' =
   fold (\<lambda>s t. snd (record_deployment s t)) [sight (Some ''b'') 2, sight (Some ''a'') 1] Map.empty ''C''"
  by (rule upserts_converge) (auto simp: one_history_def sighting_ok_def sight_def led_def creation_def)

theorem deployment_wellformed_witness:
  "\<exists>d. parse_deployment \<lparr>sc_parse_stored = (\<lambda>j. if j = JNull then Some (ScBytes (replicate 32 7)) else Some (ScSymbol ''executable_update'')), sc_utf8 = Some\<rparr>
      ''C'' ''system'' [JBool True] JNull = Some d \<and> (\<forall>h. dp_wasm_hash d = Some h \<longrightarrow> length h = 64)"
proof -
  let ?env = "\<lparr>sc_parse_stored = (\<lambda>j. if j = JNull then Some (ScBytes (replicate 32 7)) else Some (ScSymbol ''executable_update'')), sc_utf8 = Some\<rparr>"
  have "kind_from_name ''executable_update'' = Some Updated" by code_simp
  then have "\<exists>d. parse_deployment ?env ''C'' ''system'' [JBool True] JNull = Some d"
    by (simp add: parse_deployment_def List.map_filter_def sc_text_def Let_def)
  then obtain d where d: "parse_deployment ?env ''C'' ''system'' [JBool True] JNull = Some d" by blast
  have "\<forall>h. dp_wasm_hash d = Some h \<longrightarrow> length h = 64"
  proof -
    have ok: "\<And>j x. sc_parse_stored ?env j = Some x \<Longrightarrow> scval_ok x" by (auto split: if_splits)
    show ?thesis by (rule deployment_wellformed [OF d, THEN conjunct2, THEN conjunct2]) (erule ok)
  qed
  then show ?thesis using d by blast
qed

section \<open>The history of versions\<close>

definition history :: "string \<Rightarrow> version_row list \<Rightarrow> version_row list" where
  "history c vs = filter (\<lambda>v. vr_contract v = c) vs"

text \<open>In a history, neighbours have different hashes, and every row but the first is an upgrade.\<close>

fun history_ok :: "version_row list \<Rightarrow> bool" where
  "history_ok [] = True"
| "history_ok (v # vs) = (\<not> vr_upgrade v \<and> (\<forall>u\<in>set vs. vr_upgrade u) \<and> distinct_adj (map vr_hash (v # vs)))"

lemma latest_hash_history: "latest_hash c vs = last_of (map vr_hash (history c vs))"
  by (simp add: latest_hash_def history_def)

lemma distinct_adj_snoc: "distinct_adj (xs @ [x]) \<longleftrightarrow> distinct_adj xs \<and> (xs \<noteq> [] \<longrightarrow> last xs \<noteq> x)"
  by (induction xs rule: induct_list012) auto

lemma history_ok_snoc: "history_ok vs \<Longrightarrow> last_of (map vr_hash vs) \<noteq> Some (vr_hash v) \<Longrightarrow> vr_upgrade v \<longleftrightarrow> vs \<noteq> [] \<Longrightarrow> history_ok (vs @ [v])"
proof (cases vs)
  case (Cons u us)
  assume h: "history_ok vs" "last_of (map vr_hash vs) \<noteq> Some (vr_hash v)" "vr_upgrade v \<longleftrightarrow> vs \<noteq> []"
  then have "distinct_adj (map vr_hash vs @ [vr_hash v])"
    unfolding distinct_adj_snoc by (cases vs) (auto simp: last_of_def)
  then show ?thesis using h Cons by auto
qed simp

lemma record_hash_effect:
  assumes "record_hash evs c h vs = (res, vs')"
  shows "latest_hash c vs' = Some h \<and> (\<forall>k. k \<noteq> c \<longrightarrow> history k vs' = history k vs) \<and>
    (res = Some True \<longleftrightarrow> latest_hash c vs \<notin> {None, Some h}) \<and> (history_ok (history c vs) \<longrightarrow> history_ok (history c vs'))"
proof (cases "latest_hash c vs = Some h")
  case True
  then show ?thesis using assms by (auto simp: record_hash_def)
next
  case False
  then obtain r where r: "vs' = vs @ [r]" "vr_contract r = c" "vr_hash r = h" "vr_upgrade r \<longleftrightarrow> latest_hash c vs \<noteq> None" "res = Some (latest_hash c vs \<noteq> None)"
    using assms by (auto simp: record_hash_def Let_def)
  have hist: "history c vs' = history c vs @ [r]" using r(1,2) by (simp add: history_def)
  have "latest_hash c vs \<noteq> None \<longleftrightarrow> history c vs \<noteq> []" by (auto simp: latest_hash_history last_of_def)
  then have "history_ok (history c vs) \<longrightarrow> history_ok (history c vs')"
    unfolding hist using r(3,4) False history_ok_snoc [of "history c vs" r] by (simp add: latest_hash_history)
  moreover have "latest_hash c vs' = Some h" unfolding latest_hash_history hist using r(3) by (simp add: last_of_def)
  ultimately show ?thesis using r False by (auto simp: history_def)
qed

text \<open>
  After a cycle the newest version of every contract the node answered for is its hash, the histories are in
  order, and an upgrade event was sent for exactly the contracts whose known hash changed.
\<close>

theorem version_cycle_exact:
  assumes "version_cycle evs node cs vs = (sent, vs')" "distinct cs" "\<And>c. history_ok (history c vs)"
  shows "(\<forall>c. history_ok (history c vs')) \<and> (\<forall>c\<in>set cs. node c \<noteq> None \<longrightarrow> latest_hash c vs' = node c) \<and>
    (\<forall>c. c \<notin> set cs \<longrightarrow> history c vs' = history c vs) \<and>
    set sent = {c \<in> set cs. \<exists>h. node c = Some h \<and> latest_hash c vs \<notin> {None, Some h}}"
  using assms
proof (induction cs arbitrary: vs sent)
  case (Cons c cs)
  show ?case
  proof (cases "node c")
    case None
    then show ?thesis using Cons.IH [of vs sent] Cons.prems by auto
  next
    case (Some h)
    obtain res vs1 where r: "record_hash evs c h vs = (res, vs1)" by force
    obtain sent1 where v: "version_cycle evs node cs vs1 = (sent1, vs')" "sent = (if res = Some True then c # sent1 else sent1)"
      using Cons.prems(1) Some r by (auto split: prod.splits)
    note e = record_hash_effect [OF r]
    have ok: "history_ok (history k vs1)" for k using e Cons.prems(3) by (cases "k = c") auto
    have other: "latest_hash k vs1 = latest_hash k vs" if "k \<in> set cs" for k
      using e that Cons.prems(2) by (auto simp: latest_hash_history)
    note IH = Cons.IH [OF v(1) _ ok]
    have c: "c \<notin> set cs" "distinct cs" using Cons.prems(2) by auto
    have "latest_hash c vs' = Some h" using IH c e by (simp add: latest_hash_history)
    moreover have "set sent = {k \<in> set (c # cs). \<exists>h. node k = Some h \<and> latest_hash k vs \<notin> {None, Some h}}"
    proof -
      have "set sent1 = {k \<in> set cs. \<exists>h. node k = Some h \<and> latest_hash k vs \<notin> {None, Some h}}" using IH c(2) other by auto
      then show ?thesis using v(2) e Some c(1) by auto
    qed
    ultimately show ?thesis using IH c e Some by auto
  qed
qed simp

section \<open>Breaks of the chain\<close>

definition breaks :: "hash_row list \<Rightarrow> i64 set" where
  "breaks rows = {n. \<exists>h ph mh mp. (n, h, ph) \<in> set rows \<and> (n - 1, mh, mp) \<in> set rows \<and> ph \<noteq> Some mh}"

lemma breaks_finite: "finite (breaks rows)"
proof -
  have "breaks rows \<subseteq> fst ` set rows" by (force simp: breaks_def)
  then show ?thesis by (rule finite_subset) simp
qed

lemma count_breaks_card:
  "sorted_wrt (\<lambda>a b. fst a < fst b) ((n, h, ph) # rows) \<Longrightarrow> count_breaks (Some (n, h)) rows = card (breaks ((n, h, ph) # rows))"
proof (induction rows arbitrary: n h ph)
  case Nil
  have "breaks [(n, h, ph)] = {}" by (auto simp: breaks_def)
  then show ?case by simp
next
  case (Cons r rows)
  obtain m mh mp where r: "r = (m, mh, mp)" by (cases r)
  let ?B = "breaks ((m, mh, mp) # rows)" and ?x = "if m = n + 1 \<and> mp \<noteq> Some h then {m} else {}"
  have after: "m < k" if "(k, kh, kp) \<in> set rows" for k kh kp using Cons.prems that r by fastforce
  have before: "n < m" "\<And>k kh kp. (k, kh, kp) \<in> set rows \<Longrightarrow> n < k" using Cons.prems r by fastforce+
  have "breaks ((n, h, ph) # (m, mh, mp) # rows) = ?x \<union> ?B"
  proof (intro set_eqI iffI)
    fix k assume "k \<in> breaks ((n, h, ph) # (m, mh, mp) # rows)"
    then obtain kh kp lh lp where k: "(k, kh, kp) \<in> set ((n, h, ph) # (m, mh, mp) # rows)"
        "(k - 1, lh, lp) \<in> set ((n, h, ph) # (m, mh, mp) # rows)" "kp \<noteq> Some lh" unfolding breaks_def by blast
    have kn: "k \<noteq> n" using k(2) before by fastforce
    then have k1: "(k, kh, kp) \<in> set ((m, mh, mp) # rows)" using k(1) by auto
    show "k \<in> ?x \<union> ?B"
    proof (cases "(k - 1, lh, lp) \<in> set ((m, mh, mp) # rows)")
      case True
      then show ?thesis using k1 k(3) unfolding breaks_def by blast
    next
      case False
      then have n: "k = n + 1" "lh = h" using k(2) by auto
      then have "(k, kh, kp) = (m, mh, mp)" using k1 after before(1) by fastforce
      then show ?thesis using n k(3) by simp
    qed
  next
    fix k assume "k \<in> ?x \<union> ?B"
    then show "k \<in> breaks ((n, h, ph) # (m, mh, mp) # rows)"
    proof
      assume "k \<in> ?x"
      then have "k = m" "m = n + 1" "mp \<noteq> Some h" by (auto split: if_splits)
      then show ?thesis unfolding breaks_def by force
    next
      assume "k \<in> ?B"
      then show ?thesis unfolding breaks_def by auto
    qed
  qed
  moreover have "m \<notin> ?B" unfolding breaks_def using after before by fastforce
  then have "card (?x \<union> ?B) = card ?x + card ?B" using breaks_finite by (intro card_Un_disjoint) auto
  ultimately show ?case using Cons.IH [of m mh mp] Cons.prems r by auto
qed

lemma count_breaks_start: "sorted_wrt (\<lambda>a b. fst a < fst b) rows \<Longrightarrow> count_breaks None rows = card (breaks rows)"
proof (cases rows)
  case Nil
  then show ?thesis by (simp add: breaks_def)
next
  case (Cons r rs)
  obtain n h ph where "r = (n, h, ph)" by (cases r)
  moreover assume "sorted_wrt (\<lambda>a b. fst a < fst b) rows"
  ultimately show ?thesis using Cons count_breaks_card [of n h ph rs] by simp
qed

text \<open>
  Verification counts exactly the ledgers of the range whose recorded previous hash is not the hash of the ledger
  before, where both are stored. Missing ledgers do not count as breaks.
\<close>

theorem verify_counts_breaks:
  assumes "distinct (map fst tbl)"
  shows "verify_hash_chain lo hi tbl = card {n. sint lo < n \<and> n \<le> sint hi \<and>
    (\<exists>h ph mh mp. (n, h, ph) \<in> set tbl \<and> (n - 1, mh, mp) \<in> set tbl \<and> ph \<noteq> Some mh)}"
proof -
  let ?rows = "hash_rows (sint lo) (sint hi) tbl"
  have "distinct (map fst ?rows)" using assms distinct_map_filter [OF assms] by (simp add: hash_rows_def distinct_map)
  moreover have "sorted (map fst ?rows)" by (simp add: hash_rows_def)
  ultimately have "sorted_wrt (<) (map fst ?rows)" by (simp add: strict_sorted_iff)
  then have "sorted_wrt (\<lambda>a b. fst a < fst b) ?rows" by (simp add: sorted_wrt_map)
  moreover have "breaks ?rows = {n. sint lo < n \<and> n \<le> sint hi \<and> (\<exists>h ph mh mp. (n, h, ph) \<in> set tbl \<and> (n - 1, mh, mp) \<in> set tbl \<and> ph \<noteq> Some mh)}"
  proof (intro set_eqI iffI)
    fix n assume "n \<in> breaks ?rows"
    then show "n \<in> {n. sint lo < n \<and> n \<le> sint hi \<and> (\<exists>h ph mh mp. (n, h, ph) \<in> set tbl \<and> (n - 1, mh, mp) \<in> set tbl \<and> ph \<noteq> Some mh)}"
      unfolding breaks_def hash_rows_def by auto
  next
    fix n assume "n \<in> {n. sint lo < n \<and> n \<le> sint hi \<and> (\<exists>h ph mh mp. (n, h, ph) \<in> set tbl \<and> (n - 1, mh, mp) \<in> set tbl \<and> ph \<noteq> Some mh)}"
    then obtain h ph mh mp where "sint lo < n" "n \<le> sint hi" "(n, h, ph) \<in> set tbl" "(n - 1, mh, mp) \<in> set tbl" "ph \<noteq> Some mh" by blast
    then have "(n, h, ph) \<in> set ?rows" "(n - 1, mh, mp) \<in> set ?rows" by (simp_all add: hash_rows_def)
    then show "n \<in> breaks ?rows" using \<open>ph \<noteq> Some mh\<close> unfolding breaks_def by blast
  qed
  ultimately show ?thesis by (simp add: verify_hash_chain_def count_breaks_start)
qed

theorem version_cycle_exact_witness:
  "\<exists>sent vs'. version_cycle [] (\<lambda>c. Some ''new'') [''A'', ''B''] [\<lparr>vr_contract = ''A'', vr_hash = ''old'', vr_first_ledger = None, vr_upgrade = False\<rparr>] = (sent, vs') \<and>
     set sent = {''A''}"
proof -
  let ?vs = "[\<lparr>vr_contract = ''A'', vr_hash = ''old'', vr_first_ledger = None, vr_upgrade = False\<rparr>]"
  obtain sent vs' where v: "version_cycle [] (\<lambda>c. Some ''new'') [''A'', ''B''] ?vs = (sent, vs')" by force
  have "history_ok (history c ?vs)" for c by (simp add: history_def)
  from version_cycle_exact [OF v _ this] have "set sent = {c \<in> set [''A'', ''B'']. \<exists>h. Some ''new'' = Some h \<and> latest_hash c ?vs \<notin> {None, Some h}}" by simp
  then have "set sent = {''A''}" by (auto simp: latest_hash_def last_of_def)
  then show ?thesis using v by blast
qed

theorem verify_counts_breaks_witness:
  "verify_hash_chain 1 3 [(1, ''a'', None), (2, ''b'', Some ''a''), (3, ''c'', Some ''x'')] =
    card {n. sint (1 :: u64) < n \<and> n \<le> sint (3 :: u64) \<and> (\<exists>h ph mh mp. (n, h, ph) \<in> set [(1, ''a'', None), (2, ''b'', Some ''a''), (3, ''c'', Some ''x'')] \<and>
      (n - 1, mh, mp) \<in> set [(1, ''a'', None), (2, ''b'', Some ''a''), (3, ''c'', Some ''x'')] \<and> ph \<noteq> Some mh)}"
  by (rule verify_counts_breaks) simp

end
