(* ===== verification/Email_Token.thy ===== *)
theory Email_Token
  imports Access_Control App_Error Json_Access
begin

text \<open>
  Model of \<open>src/email_token.rs\<close>: signed tokens for the public mail endpoints and the checks of bounce
  requests. Base64, HMAC-SHA256 and the JSON printer and parser are parameters, and so are the process
  environment and the clock; the sampled log lines are left out. The lemmas show that issued tokens are
  accepted for their purpose until they expire, that nothing is accepted without the secret's signature, and
  what the bounce checks really require.
\<close>

section \<open>Tokens\<close>

datatype TokenPurpose = Open | Click | Unsubscribe

fun TokenPurpose_as_str :: "TokenPurpose \<Rightarrow> string" where
  "TokenPurpose_as_str Open = ''open''"
| "TokenPurpose_as_str Click = ''click''"
| "TokenPurpose_as_str Unsubscribe = ''unsubscribe''"

definition TokenPurpose_from_str :: "string \<Rightarrow> TokenPurpose option" where
  "TokenPurpose_from_str s = (if s = ''open'' then Some Open else if s = ''click'' then Some Click
     else if s = ''unsubscribe'' then Some Unsubscribe else None)"

record token_crates =
  url_encode :: "string \<Rightarrow> string"
  url_decode :: "string \<Rightarrow> string option"
  hmac :: "string \<Rightarrow> string \<Rightarrow> string + string"
  to_vec :: "json \<Rightarrow> string + string"
  from_slice :: "string \<Rightarrow> json option"

type_synonym process_env = "string \<rightharpoonup> string"

definition resolve_secret :: "process_env \<Rightarrow> string option \<Rightarrow> AppError + string" where
  "resolve_secret env over = (case over of Some s \<Rightarrow> Inr s
     | None \<Rightarrow> (case env ''EMAIL_TOKEN_SECRET'' of Some v \<Rightarrow> Inr v
        | None \<Rightarrow> Inl (Internal ''EMAIL_TOKEN_SECRET environment variable is not set; email token signing is unavailable'')))"

definition hmac_sign :: "token_crates \<Rightarrow> string \<Rightarrow> string \<Rightarrow> AppError + string" where
  "hmac_sign K secret msg = (case hmac K secret msg of Inl e \<Rightarrow> Inl (Internal (''HMAC key error: '' @ e)) | Inr m \<Rightarrow> Inr m)"

text \<open>The verifiers wrap the error again, by its text.\<close>

definition wrapped_sign :: "token_crates \<Rightarrow> string \<Rightarrow> string \<Rightarrow> AppError + string" where
  "wrapped_sign K secret msg = (case hmac K secret msg of
     Inl e \<Rightarrow> Inl (Internal (''HMAC error: Internal error: HMAC key error: '' @ e)) | Inr m \<Rightarrow> Inr m)"

definition payload_json :: "string \<Rightarrow> TokenPurpose \<Rightarrow> u64 \<Rightarrow> json" where
  "payload_json subject p e =
     JObject [(''exp'', JNumber (PosInt e)), (''purpose'', JString (TokenPurpose_as_str p)), (''sub'', JString subject)]"

definition issue_token ::
  "token_crates \<Rightarrow> process_env \<Rightarrow> u64 \<Rightarrow> string \<Rightarrow> TokenPurpose \<Rightarrow> u64 \<Rightarrow> string option \<Rightarrow> AppError + string" where
  "issue_token K env now subject p ttl over =
     and_then (resolve_secret env over) (\<lambda>secret.
       case to_vec K (payload_json subject p (now + ttl)) of
         Inl e \<Rightarrow> Inl (Internal (''token serialisation error: '' @ e))
       | Inr bytes \<Rightarrow>
          (let payload_b64 = url_encode K bytes in
           and_then (hmac_sign K secret payload_b64) (\<lambda>sig. Inr (payload_b64 @ ''.'' @ url_encode K sig))))"

record TokenClaims =
  tc_subject :: string
  tc_purpose :: TokenPurpose
  expires_at :: u64

definition ok_or :: "'e \<Rightarrow> 'a option \<Rightarrow> 'e + 'a" where
  "ok_or e x = (case x of None \<Rightarrow> Inl e | Some v \<Rightarrow> Inr v)"

definition rsplit_once :: "char \<Rightarrow> string \<Rightarrow> (string \<times> string) option" where
  "rsplit_once c s = map_option (\<lambda>(a, b). (rev b, rev a)) (split_once c (rev s))"

definition invalid_token :: AppError where "invalid_token = Validation ''invalid token''"

text \<open>\<open>claims["key"]\<close> is \<open>null\<close> where the key is missing, which no accessor reads.\<close>

definition str_claim :: "string \<Rightarrow> json \<Rightarrow> AppError + string" where
  "str_claim k v = ok_or invalid_token (Option.bind (field_of k v) as_str)"

definition read_claims :: "u64 \<Rightarrow> TokenPurpose option \<Rightarrow> json \<Rightarrow> AppError + TokenClaims" where
  "read_claims now expected v =
     and_then (str_claim ''sub'' v) (\<lambda>subject.
     and_then (str_claim ''purpose'' v) (\<lambda>ps.
     and_then (ok_or (Validation ''invalid token purpose'') (TokenPurpose_from_str ps)) (\<lambda>p.
     and_then (ok_or invalid_token (Option.bind (field_of ''exp'' v) as_u64)) (\<lambda>e.
       if e < unat now then Inl (Validation ''token has expired'')
       else if \<exists>q \<in> set_option expected. p \<noteq> q then Inl (Validation ''token purpose mismatch'')
       else Inr \<lparr>tc_subject = subject, tc_purpose = p, expires_at = of_nat e\<rparr>))))"

definition verify_token ::
  "token_crates \<Rightarrow> process_env \<Rightarrow> u64 \<Rightarrow> string \<Rightarrow> TokenPurpose option \<Rightarrow> string option \<Rightarrow> AppError + TokenClaims" where
  "verify_token K env now raw expected over =
     and_then (resolve_secret env over) (\<lambda>secret.
     and_then (ok_or invalid_token (rsplit_once (CHR ''.'') raw)) (\<lambda>(payload_b64, sig_b64).
     and_then (ok_or invalid_token (url_decode K payload_b64)) (\<lambda>bytes.
     and_then (ok_or invalid_token (url_decode K sig_b64)) (\<lambda>claimed.
     and_then (wrapped_sign K secret payload_b64) (\<lambda>wanted.
       if claimed \<noteq> wanted then Inl invalid_token
       else and_then (ok_or invalid_token (from_slice K bytes)) (read_claims now expected))))))"

section \<open>Bounce requests\<close>

datatype BounceProvider = Sns | SendGrid | SharedSecret

fun hex_decode :: "string \<Rightarrow> string option" where
  "hex_decode [] = Some []"
| "hex_decode [x] = None"
| "hex_decode (x # y # s) =
     (case parse_u8_radix 16 [x, y] of None \<Rightarrow> None | Some n \<Rightarrow> map_option ((#) (char_of n)) (hex_decode s))"

definition verify_sns_signature :: "request \<Rightarrow> AppError + unit" where
  "verify_sns_signature req =
     and_then (ok_or (Validation ''missing X-Amz-Sns-Message-Type header'') (header_str ''x-amz-sns-message-type'' req)) (\<lambda>t.
       if t \<in> {''Notification'', ''SubscriptionConfirmation'', ''UnsubscribeConfirmation''} then Inr ()
       else Inl (Validation ''unrecognised X-Amz-Sns-Message-Type value''))"

definition verify_sendgrid_signature :: "request \<Rightarrow> AppError + unit" where
  "verify_sendgrid_signature req =
     (if map_of (headers req) ''x-twilio-email-event-webhook-signature'' = None
      then Inl (Validation ''missing X-Twilio-Email-Event-Webhook-Signature header'')
      else if map_of (headers req) ''x-twilio-email-event-webhook-timestamp'' = None
      then Inl (Validation ''missing X-Twilio-Email-Event-Webhook-Timestamp header'') else Inr ())"

definition verify_shared_secret_signature ::
  "token_crates \<Rightarrow> process_env \<Rightarrow> request \<Rightarrow> string \<Rightarrow> string option \<Rightarrow> AppError + unit" where
  "verify_shared_secret_signature K env req body over =
     and_then (ok_or (Validation ''missing X-Bounce-Signature header'') (header_str ''x-bounce-signature'' req)) (\<lambda>h.
     and_then (ok_or (Validation ''X-Bounce-Signature must start with sha256='') (strip_prefix ''sha256='' h)) (\<lambda>hx.
     and_then (ok_or (Validation ''X-Bounce-Signature: invalid hex'') (hex_decode hx)) (\<lambda>claimed.
     and_then (resolve_secret env over) (\<lambda>secret.
     and_then (wrapped_sign K secret body) (\<lambda>wanted.
       if claimed \<noteq> wanted then Inl (Validation ''X-Bounce-Signature verification failed'') else Inr ())))))"

definition signature_waived :: "process_env \<Rightarrow> bool" where
  "signature_waived env \<longleftrightarrow> env ''BOUNCE_WEBHOOK_SIGNATURE_REQUIRED'' = Some ''false'' \<and>
     env ''ENVIRONMENT'' \<noteq> Some ''production'' \<and> env ''ENVIRONMENT'' \<noteq> Some ''staging''"

definition verify_bounce_signature ::
  "token_crates \<Rightarrow> process_env \<Rightarrow> BounceProvider \<Rightarrow> request \<Rightarrow> string \<Rightarrow> string option \<Rightarrow> AppError + unit" where
  "verify_bounce_signature K env provider req body over =
     (if signature_waived env then Inr ()
      else case provider of Sns \<Rightarrow> verify_sns_signature req
        | SendGrid \<Rightarrow> verify_sendgrid_signature req
        | SharedSecret \<Rightarrow> verify_shared_secret_signature K env req body over)"

section \<open>What a token proves\<close>

lemma ok_or_Inr [simp]: "ok_or e x = Inr v \<longleftrightarrow> x = Some v"
  by (simp add: ok_or_def split: option.split)

lemma wrapped_sign_Inr: "wrapped_sign K s m = Inr t \<longleftrightarrow> hmac K s m = Inr t"
  by (simp add: wrapped_sign_def split: sum.split)

lemma rsplit_once_Some: "rsplit_once c s = Some (a, b) \<longleftrightarrow> s = a @ c # b \<and> c \<notin> set b"
proof -
  have "rsplit_once c s = Some (a, b) \<longleftrightarrow> split_once c (rev s) = Some (rev b, rev a)"
    by (auto simp: rsplit_once_def)
  also have "\<dots> \<longleftrightarrow> rev s = rev b @ c # rev a \<and> c \<notin> set b" by (simp add: split_once_Some)
  also have "\<dots> \<longleftrightarrow> s = a @ c # b \<and> c \<notin> set b" by (metis append.assoc append_Cons append_Nil rev.simps(2) rev_append rev_rev_ident)
  finally show ?thesis .
qed

lemma rsplit_once_None: "c \<notin> set s \<Longrightarrow> rsplit_once c s = None"
  by (simp add: rsplit_once_def split_once_None)

lemma as_str_Some [simp]: "as_str v = Some s \<longleftrightarrow> v = JString s"
  by (cases v rule: as_str.cases) auto

lemma as_u64_Some: "as_u64 v = Some n \<longleftrightarrow> (\<exists>w. v = JNumber (PosInt w) \<and> unat w = n)"
  by (cases v rule: as_u64.cases) auto

lemma purpose_text: "TokenPurpose_from_str s = Some p \<longleftrightarrow> s = TokenPurpose_as_str p"
  by (cases p) (auto simp: TokenPurpose_from_str_def)

lemma purpose_inj [simp]: "TokenPurpose_as_str p = TokenPurpose_as_str q \<longleftrightarrow> p = q"
  by (cases p; cases q) auto

lemma read_claims_Inr:
  "read_claims now expected v = Inr c \<longleftrightarrow>
     field_of ''sub'' v = Some (JString (tc_subject c)) \<and>
     field_of ''purpose'' v = Some (JString (TokenPurpose_as_str (tc_purpose c))) \<and>
     field_of ''exp'' v = Some (JNumber (PosInt (expires_at c))) \<and> now \<le> expires_at c \<and>
     set_option expected \<subseteq> {tc_purpose c}"
proof (cases "(\<exists>s. field_of ''sub'' v = Some (JString s)) \<and> (\<exists>p. field_of ''purpose'' v = Some (JString (TokenPurpose_as_str p)))
    \<and> (\<exists>e. field_of ''exp'' v = Some (JNumber (PosInt e)))")
  case True
  then obtain s p e where v: "field_of ''sub'' v = Some (JString s)" "field_of ''purpose'' v = Some (JString (TokenPurpose_as_str p))"
      "field_of ''exp'' v = Some (JNumber (PosInt e))" by blast
  moreover have "TokenPurpose_from_str (TokenPurpose_as_str p) = Some p" by (simp add: purpose_text)
  ultimately have "read_claims now expected v = (if unat e < unat now then Inl (Validation ''token has expired'')
       else if \<exists>q \<in> set_option expected. p \<noteq> q then Inl (Validation ''token purpose mismatch'')
       else Inr \<lparr>tc_subject = s, tc_purpose = p, expires_at = e\<rparr>)"
    by (simp add: read_claims_def str_claim_def ok_or_def)
  then show ?thesis using v by (cases c) (auto simp: word_le_nat_alt not_less)
next
  case False
  then show ?thesis
    by (auto simp: read_claims_def str_claim_def and_then_Inr bind_eq_Some_conv purpose_text as_u64_Some)
qed

text \<open>A token is accepted exactly when it carries the secret's signature over live claims of the purpose.\<close>

lemma verify_token_split:
  "verify_token K env now raw expected over = Inr c \<longleftrightarrow>
     (\<exists>secret pb sb bytes m v. resolve_secret env over = Inr secret \<and> rsplit_once (CHR ''.'') raw = Some (pb, sb) \<and>
        url_decode K pb = Some bytes \<and> url_decode K sb = Some m \<and> hmac K secret pb = Inr m \<and>
        from_slice K bytes = Some v \<and> read_claims now expected v = Inr c)"
proof -
  have eq: "(if (claimed :: string) \<noteq> wanted then Inl e else f) = Inr c \<longleftrightarrow> claimed = wanted \<and> f = Inr c" for claimed wanted e f
    by simp
  show ?thesis
    unfolding verify_token_def and_then_Inr ok_or_Inr wrapped_sign_Inr split_paired_Ex prod.case eq by blast
qed

lemma verify_token_Inr:
  "verify_token K env now raw expected over = Inr c \<longleftrightarrow>
     (\<exists>secret pb sb bytes m v. resolve_secret env over = Inr secret \<and> (raw = pb @ ''.'' @ sb \<and> CHR ''.'' \<notin> set sb) \<and>
        url_decode K pb = Some bytes \<and> url_decode K sb = Some m \<and> hmac K secret pb = Inr m \<and>
        from_slice K bytes = Some v \<and> read_claims now expected v = Inr c)"
  unfolding verify_token_split rsplit_once_Some by simp

definition token_crates_ok :: "token_crates \<Rightarrow> bool" where
  "token_crates_ok K \<longleftrightarrow> (\<forall>s. url_decode K (url_encode K s) = Some s \<and> CHR ''.'' \<notin> set (url_encode K s)) \<and>
     (\<forall>s p e bytes. to_vec K (payload_json s p e) = Inr bytes \<longrightarrow> from_slice K bytes = Some (payload_json s p e))"

lemma read_issued:
  "read_claims now expected (payload_json s p e) = Inr c \<longleftrightarrow>
     c = \<lparr>tc_subject = s, tc_purpose = p, expires_at = e\<rparr> \<and> now \<le> e \<and> set_option expected \<subseteq> {p}"
  by (cases c) (auto simp: read_claims_Inr payload_json_def field_of_def obj_get_def)

lemma issue_token_Inr:
  "issue_token K env now s p ttl over = Inr t \<longleftrightarrow>
     (\<exists>secret bytes m. resolve_secret env over = Inr secret \<and> to_vec K (payload_json s p (now + ttl)) = Inr bytes \<and>
        hmac K secret (url_encode K bytes) = Inr m \<and> t = url_encode K bytes @ ''.'' @ url_encode K m)"
proof -
  have c: "(case x of Inl e \<Rightarrow> Inl (f e) | Inr b \<Rightarrow> g b) = Inr t \<longleftrightarrow> (\<exists>b. x = Inr b \<and> g b = Inr t)"
    for x :: "string + string" and f :: "string \<Rightarrow> AppError" and g by (cases x) auto
  have h: "hmac_sign K s m = Inr x \<longleftrightarrow> hmac K s m = Inr x" for s m x
    by (simp add: hmac_sign_def split: sum.split)
  show ?thesis unfolding issue_token_def and_then_Inr Let_def c h sum.inject by blast
qed

text \<open>An issued token is accepted until it expires, for its own purpose, and yields what was put into it.\<close>

lemma issued_token_verified:
  assumes K: "token_crates_ok K" and t: "issue_token K env now s p ttl over = Inr t"
  shows "verify_token K env later t expected over = Inr c \<longleftrightarrow>
     c = \<lparr>tc_subject = s, tc_purpose = p, expires_at = now + ttl\<rparr> \<and> later \<le> now + ttl \<and> set_option expected \<subseteq> {p}"
proof -
  obtain secret bytes m where s: "resolve_secret env over = Inr secret" "to_vec K (payload_json s p (now + ttl)) = Inr bytes"
      "hmac K secret (url_encode K bytes) = Inr m" and t': "t = url_encode K bytes @ ''.'' @ url_encode K m"
    using t unfolding issue_token_Inr by blast
  have K': "url_decode K (url_encode K x) = Some x" "CHR ''.'' \<notin> set (url_encode K x)" for x
    using K unfolding token_crates_ok_def by auto
  have J: "from_slice K bytes = Some (payload_json s p (now + ttl))"
    using K s(2) unfolding token_crates_ok_def by blast
  have parts: "t = pb @ ''.'' @ sb \<and> CHR ''.'' \<notin> set sb \<longleftrightarrow> pb = url_encode K bytes \<and> sb = url_encode K m" for pb sb
  proof -
    have "t = pb @ ''.'' @ sb \<and> CHR ''.'' \<notin> set sb \<longleftrightarrow> rsplit_once (CHR ''.'') t = Some (pb, sb)"
      by (simp add: rsplit_once_Some)
    also have "rsplit_once (CHR ''.'') t = Some (url_encode K bytes, url_encode K m)"
      unfolding rsplit_once_Some t' using K'(2) [of m] by simp
    finally show ?thesis by auto
  qed
  show ?thesis unfolding read_issued [symmetric]
  proof
    assume "verify_token K env later t expected over = Inr c"
    then obtain pb sb bytes' v where v: "t = pb @ ''.'' @ sb" "CHR ''.'' \<notin> set sb" "url_decode K pb = Some bytes'"
        "from_slice K bytes' = Some v" "read_claims later expected v = Inr c"
      unfolding verify_token_Inr by blast
    then have "bytes' = bytes" using parts [of pb sb] K'(1) [of bytes] by simp
    then show "read_claims later expected (payload_json s p (now + ttl)) = Inr c" using v(4,5) J by simp
  next
    assume "read_claims later expected (payload_json s p (now + ttl)) = Inr c"
    then show "verify_token K env later t expected over = Inr c"
      unfolding verify_token_Inr using s(1,3) J K' t' by blast
  qed
qed

lemma without_dot_refused: "CHR ''.'' \<notin> set raw \<Longrightarrow> \<exists>e. verify_token K env now raw expected over = Inl e"
proof -
  assume "CHR ''.'' \<notin> set raw"
  then have "\<nexists>c. verify_token K env now raw expected over = Inr c"
    unfolding verify_token_Inr by auto
  then show ?thesis by (cases "verify_token K env now raw expected over") auto
qed

section \<open>What a bounce signature proves\<close>

lemma shared_secret_Inr:
  "verify_shared_secret_signature K env req body over = Inr () \<longleftrightarrow>
     (\<exists>hx m secret. header_str ''x-bounce-signature'' req = Some (''sha256='' @ hx) \<and> hex_decode hx = Some m \<and>
        resolve_secret env over = Inr secret \<and> hmac K secret body = Inr m)"
proof -
  have strip: "strip_prefix ''sha256='' h = Some hx \<longleftrightarrow> h = ''sha256='' @ hx" for h hx
    by (auto simp: strip_prefix_def starts_with_iff)
  have "(if (claimed :: string) \<noteq> wanted then Inl e else Inr ()) = Inr () \<longleftrightarrow> claimed = wanted" for claimed wanted e
    by simp
  then show ?thesis
    unfolding verify_shared_secret_signature_def and_then_Inr ok_or_Inr wrapped_sign_Inr strip by auto
qed

text \<open>The two provider checks read no signature: the same headers are accepted with every value and body.\<close>

lemma sns_Inr:
  "verify_sns_signature req = Inr () \<longleftrightarrow>
     (\<exists>t \<in> {''Notification'', ''SubscriptionConfirmation'', ''UnsubscribeConfirmation''}.
        header_str ''x-amz-sns-message-type'' req = Some t)"
proof -
  have "(if P then Inr () else Inl e) = Inr () \<longleftrightarrow> P" for P and e :: AppError by simp
  then show ?thesis unfolding verify_sns_signature_def and_then_Inr ok_or_Inr by blast
qed

lemma sendgrid_Inr:
  "verify_sendgrid_signature req = Inr () \<longleftrightarrow>
     map_of (headers req) ''x-twilio-email-event-webhook-signature'' \<noteq> None \<and>
     map_of (headers req) ''x-twilio-email-event-webhook-timestamp'' \<noteq> None"
  unfolding verify_sendgrid_signature_def by simp

text \<open>Hexadecimal digits read back, and two signs are read as digits of their own.\<close>

lemma hex_decode_length: "hex_decode s = Some bs \<Longrightarrow> length s = 2 * length bs"
  by (induction s arbitrary: bs rule: hex_decode.induct) (auto split: option.splits)

lemma hex_decode_append: "hex_decode a = Some x \<Longrightarrow> hex_decode (a @ b) = map_option ((@) x) (hex_decode b)"
  by (induction a arbitrary: x rule: hex_decode.induct)
    (cases "hex_decode b"; auto split: option.splits)+

lemma hex_sign_accepted: "hex_decode ''+a'' = hex_decode ''0a''" "hex_decode ''0a'' = Some [char_of (10 :: nat)]"
  by (simp_all add: parse_u8_radix_def parse_uint_def to_digit_def)

end
