(* ===== verification/Email_Notifier.thy ===== *)
theory Email_Notifier
  imports Email_Token Event_Listing
begin

text \<open>
  Model of the mail notifier of \<open>src/email.rs\<close> and of the public mail endpoints of \<open>src/handlers/mod.rs\<close>:
  schedules, quiet hours and the batching loop; unsubscribe tokens, open and click tracking, bounces and the
  suppression list. An instant is a number of nanoseconds since the epoch; the month and the day of the month
  come from the calendar library and are parameters, and so are the functions the crate calls but does not
  define (the priority of an event, the reading and the recording of bounces). The lemmas show what is sent
  when, which digests are never sent, and that no stored token passes the check of the link it is for.
\<close>

section \<open>Schedules\<close>

type_synonym instant = int

definition timestamp :: "instant \<Rightarrow> int" where "timestamp t = t div 10 ^ 9"
definition second_of_day :: "instant \<Rightarrow> int" where "second_of_day t = timestamp t mod 86400"
definition utc_hour :: "instant \<Rightarrow> nat" where "utc_hour t = nat (second_of_day t div 3600)"
definition utc_minute :: "instant \<Rightarrow> nat" where "utc_minute t = nat (second_of_day t mod 3600 div 60)"
definition utc_second :: "instant \<Rightarrow> nat" where "utc_second t = nat (second_of_day t mod 60)"
definition utc_day :: "instant \<Rightarrow> int" where "utc_day t = timestamp t div 86400"

text \<open>The first of January 1970 was a Thursday.\<close>

definition days_from_monday :: "instant \<Rightarrow> nat" where "days_from_monday t = nat ((utc_day t + 3) mod 7)"

record calendar =
  month_of :: "int \<Rightarrow> nat"
  day_of :: "int \<Rightarrow> nat"

datatype Schedule = Immediate | HourlyDigest | DailyDigest nat | CustomCron string

definition Schedule_parse :: "string \<Rightarrow> nat \<Rightarrow> string option \<Rightarrow> Schedule" where
  "Schedule_parse v daily_hour cron_expr =
     (let k = to_ascii_lowercase (trim v) in
      if k = ''hourly_digest'' then HourlyDigest
      else if k = ''daily_digest'' then DailyDigest (min daily_hour 23)
      else if k = ''custom_cron'' then CustomCron (case cron_expr of None \<Rightarrow> [] | Some e \<Rightarrow> e)
      else Immediate)"

text \<open>\<open>str::split_whitespace\<close>: the current word is collected in reverse; the counter skips the rest of a character.\<close>

fun split_whitespace :: "nat \<Rightarrow> string \<Rightarrow> string \<Rightarrow> string list" where
  "split_whitespace k w [] = (if w = [] then [] else [rev w])"
| "split_whitespace (Suc k) w (c # s) = split_whitespace k w s"
| "split_whitespace 0 w (c # s) =
     (case List.find (starts_with (c # s)) white_space of
        Some sp \<Rightarrow> (if w = [] then [] else [rev w]) @ split_whitespace (length sp - 1) [] s
      | None \<Rightarrow> split_whitespace 0 (c # w) s)"

fun cron_fields :: "string list \<Rightarrow> nat option list option" where
  "cron_fields [] = Some []"
| "cron_fields (f # fs) =
     (case parse_u32 f of
        Some v \<Rightarrow> map_option ((#) (Some v)) (cron_fields fs)
      | None \<Rightarrow> if f = ''*'' then map_option ((#) None) (cron_fields fs) else None)"

definition matches_field :: "nat \<Rightarrow> nat option \<Rightarrow> bool" where
  "matches_field actual expected \<longleftrightarrow> expected = None \<or> expected = Some actual"

definition cron_now :: "calendar \<Rightarrow> instant \<Rightarrow> nat list" where
  "cron_now C t = [utc_second t, utc_minute t, utc_hour t, day_of C (utc_day t), month_of C (utc_day t), days_from_monday t]"

definition parse_custom_cron :: "calendar \<Rightarrow> string \<Rightarrow> instant \<Rightarrow> instant \<Rightarrow> bool" where
  "parse_custom_cron C expr now last_sent =
     (let fields = split_whitespace 0 [] expr in
      if length fields \<noteq> 6 then False
      else case cron_fields fields of None \<Rightarrow> False
        | Some parsed \<Rightarrow> list_all2 matches_field (cron_now C now) parsed \<and> timestamp last_sent < timestamp now)"

definition is_due :: "calendar \<Rightarrow> Schedule \<Rightarrow> instant \<Rightarrow> instant \<Rightarrow> bool" where
  "is_due C sch now last_sent = (case sch of
     Immediate \<Rightarrow> True
   | HourlyDigest \<Rightarrow> timestamp last_sent div 3600 < timestamp now div 3600
   | DailyDigest h \<Rightarrow>
       if 23 < h then False
       else let scheduled = (utc_day now * 86400 + int h * 3600) * 10 ^ 9 in scheduled \<le> now \<and> last_sent < scheduled
   | CustomCron expr \<Rightarrow> parse_custom_cron C expr now last_sent)"

section \<open>Quiet hours\<close>

record QuietHours =
  start_min :: nat
  end_min :: nat

definition parse_hh_mm :: "string \<Rightarrow> nat option" where
  "parse_hh_mm v = Option.bind (split_once (CHR '':'') (trim v)) (\<lambda>(h, m).
     Option.bind (parse_u32 (trim h)) (\<lambda>hours. Option.bind (parse_u32 (trim m)) (\<lambda>minutes.
       if 23 < hours \<or> 59 < minutes then None else Some (hours * 60 + minutes))))"

definition QuietHours_parse :: "string option \<Rightarrow> string option \<Rightarrow> QuietHours option" where
  "QuietHours_parse st en = Option.bind (Option.bind st parse_hh_mm) (\<lambda>s. Option.bind (Option.bind en parse_hh_mm) (\<lambda>e.
     if s = e then None else Some \<lparr>start_min = s, end_min = e\<rparr>))"

definition quiet_contains :: "QuietHours \<Rightarrow> instant \<Rightarrow> bool" where
  "quiet_contains q now =
     (let m = utc_hour now * 60 + utc_minute now in
      if start_min q < end_min q then start_min q \<le> m \<and> m < end_min q else start_min q \<le> m \<or> m < end_min q)"

section \<open>The loop\<close>

record EmailNotifier =
  schedule :: Schedule
  quiet_hours :: "QuietHours option"
  contract_filter :: "string list"

record loop_state =
  events_buffer :: "SorobanEvent list"
  last_sent :: instant
  batches :: "SorobanEvent list list"
  stopped :: bool

datatype loop_event = Tick instant | Received SorobanEvent | Lagged nat | Closed

definition send_batch :: "SorobanEvent list \<Rightarrow> loop_state \<Rightarrow> loop_state" where
  "send_batch b s = s\<lparr>batches := batches s @ [b]\<rparr>"

definition wanted :: "EmailNotifier \<Rightarrow> SorobanEvent \<Rightarrow> bool" where
  "wanted N e \<longleftrightarrow> contract_filter N = [] \<or> contract_id e \<in> set (contract_filter N)"

fun notifier_step ::
  "calendar \<Rightarrow> (SorobanEvent \<Rightarrow> string) \<Rightarrow> EmailNotifier \<Rightarrow> loop_event \<Rightarrow> loop_state \<Rightarrow> loop_state" where
  "notifier_step C prio N (Tick now) s =
     (if events_buffer s = [] \<or> \<not> is_due C (schedule N) now (last_sent s) then s
      else if (case quiet_hours N of None \<Rightarrow> False | Some q \<Rightarrow> quiet_contains q now) then s
      else (send_batch (events_buffer s) s)\<lparr>events_buffer := [], last_sent := now\<rparr>)"
| "notifier_step C prio N (Received e) s =
     (if \<not> wanted N e then s
      else if prio e = ''critical'' then send_batch [e] s
      else s\<lparr>events_buffer := events_buffer s @ [e]\<rparr>)"
| "notifier_step C prio N (Lagged n) s = s"
| "notifier_step C prio N Closed s =
     (if events_buffer s = [] then s else send_batch (events_buffer s) s)\<lparr>events_buffer := [], stopped := True\<rparr>"

fun notifier_run ::
  "calendar \<Rightarrow> (SorobanEvent \<Rightarrow> string) \<Rightarrow> EmailNotifier \<Rightarrow> loop_event list \<Rightarrow> loop_state \<Rightarrow> loop_state" where
  "notifier_run C prio N [] s = s"
| "notifier_run C prio N (ev # evs) s =
     (let s' = notifier_step C prio N ev s in if stopped s' then s' else notifier_run C prio N evs s')"


section \<open>What the loop sends\<close>

definition critical :: "(SorobanEvent \<Rightarrow> string) \<Rightarrow> SorobanEvent \<Rightarrow> bool" where
  "critical prio e \<longleftrightarrow> prio e = ''critical''"

text \<open>The wanted events that arrive before the channel closes.\<close>

fun arrivals :: "EmailNotifier \<Rightarrow> loop_event list \<Rightarrow> SorobanEvent list" where
  "arrivals N [] = []"
| "arrivals N (Received e # evs) = (if wanted N e then e # arrivals N evs else arrivals N evs)"
| "arrivals N (Closed # evs) = []"
| "arrivals N (_ # evs) = arrivals N evs"



lemma step_stopped: "stopped (notifier_step C prio N ev s) \<longleftrightarrow> stopped s \<or> ev = Closed"
  by (cases ev) (auto simp: send_batch_def)





section \<open>Digests that are never sent\<close>

definition may_send :: "calendar \<Rightarrow> EmailNotifier \<Rightarrow> instant \<Rightarrow> instant \<Rightarrow> bool" where
  "may_send C N now ls \<longleftrightarrow> is_due C (schedule N) now ls \<and> (\<forall>q. quiet_hours N = Some q \<longrightarrow> \<not> quiet_contains q now)"

lemma no_digest:
  assumes "\<And>now ls. Tick now \<in> set evs \<Longrightarrow> \<not> may_send C N now ls" and "Closed \<notin> set evs" "\<not> stopped s"
  shows "batches (notifier_run C prio N evs s) = batches s @ map (\<lambda>e. [e]) (filter (critical prio) (arrivals N evs))"
  using assms
proof (induction evs arbitrary: s)
  case (Cons ev evs)
  have "batches (notifier_step C prio N ev s) = batches s @ map (\<lambda>e. [e]) (filter (critical prio) (arrivals N [ev]))"
    using Cons.prems(1) [of _ "last_sent s"] Cons.prems(2)
    by (cases ev) (auto simp: may_send_def send_batch_def critical_def split: option.splits)
  moreover have "arrivals N (ev # evs) = arrivals N [ev] @ arrivals N evs" "\<not> stopped (notifier_step C prio N ev s)"
    using Cons.prems(2,3) step_stopped [of C prio N ev s] by (cases ev; auto)+
  ultimately show ?case using Cons.IH [of "notifier_step C prio N ev s"] Cons.prems(1,2) by (simp add: Let_def)
qed simp

text \<open>A cron field must match at the tick itself: a boundary between two ticks is not seen.\<close>

lemma cron_due_iff:
  "parse_custom_cron C expr now ls \<longleftrightarrow>
     (\<exists>parsed. length parsed = 6 \<and> cron_fields (split_whitespace 0 [] expr) = Some parsed \<and>
        list_all2 matches_field (cron_now C now) parsed \<and> timestamp ls < timestamp now)"
proof -
  have "length ps = length fs" if "cron_fields fs = Some ps" for fs ps
    using that by (induction fs arbitrary: ps) (auto split: option.splits if_splits)
  then show ?thesis unfolding parse_custom_cron_def Let_def by (auto split: option.splits)
qed

lemma cron_needs_second:
  assumes "cron_fields (split_whitespace 0 [] expr) = Some (Some sec # rest)" "utc_second now \<noteq> sec"
  shows "\<not> parse_custom_cron C expr now ls"
  using assms by (auto simp: cron_due_iff cron_now_def matches_field_def)

text \<open>The ticks come once a minute, so their seconds never change.\<close>

lemma tick_second: "utc_second (t + 60 * 10 ^ 9 * int k) = utc_second t"
proof -
  have "timestamp (t + 60 * 10 ^ 9 * int k) = (t + (60 * int k) * 10 ^ 9) div 10 ^ 9" unfolding timestamp_def by simp
  also have "\<dots> = timestamp t + 60 * int k" unfolding timestamp_def by (subst div_mult_self1) simp_all
  finally have "second_of_day (t + 60 * 10 ^ 9 * int k) mod 60 = (timestamp t + 60 * int k) mod 60"
    unfolding second_of_day_def by (simp add: mod_mod_cancel)
  also have "\<dots> = second_of_day t mod 60" unfolding second_of_day_def by (simp add: mod_mod_cancel)
  finally show ?thesis by (simp add: utc_second_def)
qed

lemma cron_never_fires:
  assumes "schedule N = CustomCron expr" "cron_fields (split_whitespace 0 [] expr) = Some (Some sec # rest)" "utc_second t0 \<noteq> sec"
    and "\<And>now. Tick now \<in> set evs \<Longrightarrow> \<exists>k. now = t0 + 60 * 10 ^ 9 * int k" and "Closed \<notin> set evs" "\<not> stopped s"
  shows "batches (notifier_run C prio N evs s) = batches s @ map (\<lambda>e. [e]) (filter (critical prio) (arrivals N evs))"
proof (rule no_digest [OF _ assms(5,6)])
  fix now ls
  assume "Tick now \<in> set evs"
  then have "utc_second now = utc_second t0" using assms(4) tick_second by blast
  then show "\<not> may_send C N now ls"
    using cron_needs_second [OF assms(2), of now C ls] assms(1,3) by (simp add: may_send_def is_due_def)
qed

text \<open>Half a minute past the hour, the hourly expression is not due although the hour has begun since the last mail.\<close>

lemma cron_passed_hour:
  "\<not> parse_custom_cron C ''0 0 * * * *'' ((9 * 3600 + 30) * 10 ^ 9) ((8 * 3600 + 1800) * 10 ^ 9)"
proof -
  have f: "split_whitespace 0 [] ''0 0 * * * *'' = [''0'', ''0'', ''*'', ''*'', ''*'', ''*'']"
    by (simp add: white_space_def starts_with_def)
  have "cron_fields (split_whitespace 0 [] ''0 0 * * * *'') = Some (Some 0 # [Some 0, None, None, None, None])"
    unfolding f by (simp add: parse_u32_def parse_uint_def to_digit_def)
  moreover have "utc_second ((9 * 3600 + 30) * 10 ^ 9) \<noteq> 0"
    by (simp add: utc_second_def second_of_day_def timestamp_def)
  ultimately show ?thesis by (rule cron_needs_second)
qed




section \<open>Unsubscribe tokens\<close>

record unsubscribe_row =
  ur_email :: string
  ur_token :: string
  unsubscribed_at :: "instant option"

definition hex_lower :: "string \<Rightarrow> string" where
  "hex_lower s = concat (map (\<lambda>c. [hex_digit (of_char c div 16), hex_digit (of_char c mod 16)]) s)"

definition generate_unsubscribe_token :: "(string \<Rightarrow> string) \<Rightarrow> string \<Rightarrow> string \<Rightarrow> string" where
  "generate_unsubscribe_token sha256 u v = hex_lower (sha256 (u @ v))"

definition token_of :: "string \<Rightarrow> unsubscribe_row list \<Rightarrow> string option" where
  "token_of m tbl = map_option ur_token (List.find (\<lambda>r. ur_email r = m) tbl)"

text \<open>
  The first lookup, the insertion and the second lookup are statements of their own: \<open>others\<close> is what other
  senders did in between, and the booleans say which of the statements the database executed. Both columns
  are unique; only a duplicate address is ignored.
\<close>

definition get_or_create_unsubscribe_token ::
  "bool \<times> bool \<times> bool \<Rightarrow> (unsubscribe_row list \<Rightarrow> unsubscribe_row list) \<Rightarrow> string \<Rightarrow> string \<Rightarrow> unsubscribe_row list
     \<Rightarrow> string option \<times> unsubscribe_row list" where
  "get_or_create_unsubscribe_token ok others fresh m tbl =
     (case (if fst ok then token_of m tbl else None) of
        Some t \<Rightarrow> (Some t, tbl)
      | None \<Rightarrow>
         (let tbl' = others tbl in
          if \<not> fst (snd ok) then (None, tbl')
          else case token_of m tbl' of
            Some t \<Rightarrow> (if snd (snd ok) then Some t else None, tbl')
          | None \<Rightarrow> if fresh \<in> ur_token ` set tbl' then (None, tbl')
              else (Some fresh, tbl' @ [\<lparr>ur_email = m, ur_token = fresh, unsubscribed_at = None\<rparr>])))"

definition is_unsubscribed :: "bool \<Rightarrow> string \<Rightarrow> unsubscribe_row list \<Rightarrow> bool" where
  "is_unsubscribed ok m tbl \<longleftrightarrow> ok \<and> list_ex (\<lambda>r. ur_email r = m \<and> unsubscribed_at r \<noteq> None) tbl"

definition mark_unsubscribed ::
  "bool \<times> bool \<Rightarrow> instant \<Rightarrow> string \<Rightarrow> unsubscribe_row list \<Rightarrow> (unit + bool) \<times> unsubscribe_row list" where
  "mark_unsubscribed ok now t tbl =
     (if \<not> fst ok then (Inl (), tbl)
      else let tbl' = map (\<lambda>r. if ur_token r = t \<and> unsubscribed_at r = None then r\<lparr>unsubscribed_at := Some now\<rparr> else r) tbl in
        if list_ex (\<lambda>r. ur_token r = t \<and> unsubscribed_at r = None) tbl then (Inr True, tbl')
        else if \<not> snd ok then (Inl (), tbl')
        else (Inr (list_ex (\<lambda>r. ur_token r = t) tbl'), tbl'))"

section \<open>The public endpoints\<close>

text \<open>The clock of the process gives the seconds for the tokens; the database has its own.\<close>

definition unsubscribe ::
  "token_crates \<Rightarrow> process_env \<Rightarrow> u64 \<Rightarrow> instant \<Rightarrow> bool \<times> bool \<Rightarrow> string \<Rightarrow> unsubscribe_row list
     \<Rightarrow> nat \<times> unsubscribe_row list" where
  "unsubscribe K env now db_now ok raw tbl =
     (case verify_token K env now raw (Some Unsubscribe) None of
        Inl _ \<Rightarrow> (404, tbl)
      | Inr c \<Rightarrow> (case mark_unsubscribed ok db_now (tc_subject c) tbl of
          (Inr True, tbl') \<Rightarrow> (200, tbl') | (Inr False, tbl') \<Rightarrow> (404, tbl') | (Inl _, tbl') \<Rightarrow> (500, tbl')))"

record open_row =
  o_token :: string
  o_recipient :: string
  opened_at :: "instant option"

text \<open>The status is always 200 with the pixel; the update and its metric run in a task of their own.\<close>

definition track_email_open ::
  "token_crates \<Rightarrow> process_env \<Rightarrow> u64 \<Rightarrow> instant \<Rightarrow> bool \<Rightarrow> string \<Rightarrow> open_row list \<times> nat \<Rightarrow> nat \<times> open_row list \<times> nat" where
  "track_email_open K env now db_now ok raw st =
     (case verify_token K env now raw (Some Open) None of
        Inl _ \<Rightarrow> (200, st)
      | Inr c \<Rightarrow>
         (let new = (\<lambda>r. o_token r = tc_subject c \<and> opened_at r = None) in
          if \<not> ok then (200, st)
          else (200, map (\<lambda>r. if new r then r\<lparr>opened_at := Some db_now\<rparr> else r) (fst st),
            snd st + of_bool (list_ex new (fst st)))))"

record click_row =
  c_token :: string
  destination_url :: string
  clicked_at :: "instant option"

datatype click_answer = Found string | Click_not_found

definition track_email_click ::
  "token_crates \<Rightarrow> process_env \<Rightarrow> u64 \<Rightarrow> instant \<Rightarrow> bool \<times> bool \<Rightarrow> string \<Rightarrow> click_row list \<times> nat
     \<Rightarrow> click_answer \<times> click_row list \<times> nat" where
  "track_email_click K env now db_now ok raw st =
     (case verify_token K env now raw (Some Click) None of
        Inl _ \<Rightarrow> (Click_not_found, st)
      | Inr c \<Rightarrow>
         (let dest = (if fst ok then map_option destination_url (List.find (\<lambda>r. c_token r = tc_subject c) (fst st)) else None);
              new = (\<lambda>r. c_token r = tc_subject c \<and> clicked_at r = None) in
          (case dest of Some url \<Rightarrow> Found url | None \<Rightarrow> Click_not_found,
           if \<not> snd ok then st
           else (map (\<lambda>r. if new r then r\<lparr>clicked_at := Some db_now\<rparr> else r) (fst st), snd st + of_bool (list_ex new (fst st))))))"

text \<open>The body is given when it could be read within its limit.\<close>

record ('r, 's) bounce_env =
  parse_body :: "string \<Rightarrow> json option"
  extract_bounced_recipients :: "json \<Rightarrow> 'r list"
  record_bounce :: "'r \<Rightarrow> 's \<Rightarrow> 's option"

fun record_bounces :: "('r \<Rightarrow> 's \<Rightarrow> 's option) \<Rightarrow> 'r list \<Rightarrow> 's \<Rightarrow> nat \<Rightarrow> nat \<times> 's" where
  "record_bounces rec [] s n = (n, s)"
| "record_bounces rec (r # rs) s n = (case rec r s of Some s' \<Rightarrow> record_bounces rec rs s' (n + 1) | None \<Rightarrow> record_bounces rec rs s n)"

datatype bounce_answer = Unreadable_body | Unauthorized_bounce | Invalid_json | Bounces nat nat

definition bounce_provider :: "request \<Rightarrow> BounceProvider" where
  "bounce_provider req = (case header_str ''x-bounce-provider'' req of
     Some p \<Rightarrow> if p = ''sns'' then Sns else if p = ''sendgrid'' then SendGrid else SharedSecret
   | None \<Rightarrow> SharedSecret)"

definition email_bounce_webhook ::
  "token_crates \<Rightarrow> process_env \<Rightarrow> ('r, 's) bounce_env \<Rightarrow> request \<Rightarrow> string option \<Rightarrow> 's \<Rightarrow> bounce_answer \<times> 's" where
  "email_bounce_webhook K env B req body s =
     (case body of None \<Rightarrow> (Unreadable_body, s)
      | Some bytes \<Rightarrow>
         (case verify_bounce_signature K env (bounce_provider req) req bytes None of
            Inl _ \<Rightarrow> (Unauthorized_bounce, s)
          | Inr _ \<Rightarrow>
             (case parse_body B bytes of None \<Rightarrow> (Invalid_json, s)
              | Some payload \<Rightarrow>
                 (let rs = extract_bounced_recipients B payload; (n, s') = record_bounces (record_bounce B) rs s 0
                  in (Bounces (length rs) n, s')))))"

section \<open>The suppression list\<close>

record suppression_row =
  s_id :: nat
  s_target :: string
  s_target_type :: string
  s_reason :: "string option"
  s_expires_at :: "instant option"

text \<open>The unique index is on target and type; a row that is there keeps its id.\<close>

definition quoted :: "string \<Rightarrow> string" where "quoted s = [CHR 0x27] @ s @ [CHR 0x27]"

definition add_suppression ::
  "(string \<Rightarrow> instant option) \<Rightarrow> sqlx_error option \<Rightarrow> nat \<Rightarrow> json \<Rightarrow> suppression_row list \<Rightarrow> (AppError + nat) \<times> suppression_row list" where
  "add_suppression read_time fault fresh body tbl =
     (case Option.bind (field_of ''target'' body) as_str of
        None \<Rightarrow> (Inl (Validation (''missing '' @ quoted ''target'' @ '' field'')), tbl)
      | Some target \<Rightarrow>
      (case Option.bind (field_of ''target_type'' body) as_str of
        None \<Rightarrow> (Inl (Validation (''missing '' @ quoted ''target_type'' @ '' field'')), tbl)
      | Some kind \<Rightarrow>
         if kind \<noteq> ''email'' \<and> kind \<noteq> ''webhook'' then (Inl (Validation (''target_type must be '' @ quoted ''email'' @ '' or '' @ quoted ''webhook'')), tbl)
         else if fault \<noteq> None then (Inl (Database (the fault)), tbl)
         else let reason = Option.bind (field_of ''reason'' body) as_str;
                  expires = Option.bind (Option.bind (field_of ''expires_at'' body) as_str) read_time;
                  hit = (\<lambda>r. s_target r = target \<and> s_target_type r = kind)
           in (case List.find hit tbl of
                 Some r \<Rightarrow> (Inr (s_id r), map (\<lambda>r. if hit r then r\<lparr>s_reason := reason, s_expires_at := expires\<rparr> else r) tbl)
               | None \<Rightarrow> (Inr fresh, tbl @ [\<lparr>s_id = fresh, s_target = target, s_target_type = kind, s_reason = reason,
                    s_expires_at = expires\<rparr>]))))"

definition remove_suppression :: "sqlx_error option \<Rightarrow> nat \<Rightarrow> suppression_row list \<Rightarrow> (AppError + string) \<times> suppression_row list" where
  "remove_suppression fault i tbl =
     (if fault \<noteq> None then (Inl (Database (the fault)), tbl)
      else case List.find (\<lambda>r. s_id r = i) tbl of None \<Rightarrow> (Inl NotFound, tbl)
        | Some r \<Rightarrow> (Inr (s_target r), filter (\<lambda>r. s_id r \<noteq> i) tbl))"

definition is_suppressed :: "bool \<Rightarrow> instant \<Rightarrow> string \<Rightarrow> string \<Rightarrow> suppression_row list \<Rightarrow> bool" where
  "is_suppressed ok now target kind tbl \<longleftrightarrow> ok \<and> list_ex (\<lambda>r. s_target r = target \<and> s_target_type r = kind \<and>
     (case s_expires_at r of None \<Rightarrow> True | Some t \<Rightarrow> now < t)) tbl"

section \<open>Unsubscribing\<close>

text \<open>A table under its two unique columns.\<close>

definition unsubscribes_ok :: "unsubscribe_row list \<Rightarrow> bool" where
  "unsubscribes_ok tbl \<longleftrightarrow> distinct (map ur_email tbl) \<and> distinct (map ur_token tbl)"

lemma token_of_Some: "token_of m tbl = Some t \<Longrightarrow> \<exists>r \<in> set tbl. ur_email r = m \<and> ur_token r = t"
  by (auto simp: token_of_def find_Some_iff)

lemma token_of_None: "token_of m tbl = None \<longleftrightarrow> m \<notin> ur_email ` set tbl"
  by (auto simp: token_of_def find_None_iff)

lemma get_or_create_cases:
  assumes "get_or_create_unsubscribe_token ok others fresh m tbl = (Some t, tbl')"
  shows "(token_of m tbl = Some t \<and> tbl' = tbl) \<or> (token_of m (others tbl) = Some t \<and> tbl' = others tbl) \<or>
    (m \<notin> ur_email ` set (others tbl) \<and> fresh \<notin> ur_token ` set (others tbl) \<and> t = fresh \<and>
     tbl' = others tbl @ [\<lparr>ur_email = m, ur_token = fresh, unsubscribed_at = None\<rparr>])"
  using assms unfolding get_or_create_unsubscribe_token_def token_of_None [symmetric]
  by (auto simp: Let_def split: option.splits if_splits)

text \<open>The token a sender gets is the one stored for its address, whoever stored it.\<close>

lemma get_or_create_stored:
  assumes "get_or_create_unsubscribe_token ok others fresh m tbl = (Some t, tbl')"
    and "unsubscribes_ok tbl" "unsubscribes_ok (others tbl)"
  shows "unsubscribes_ok tbl' \<and> token_of m tbl' = Some t"
proof -
  have new: "token_of m (xs @ [r]) = Some (ur_token r)" if "ur_email r = m" "m \<notin> ur_email ` set xs" for xs r
  proof -
    have "List.find (\<lambda>x. ur_email x = m) xs = None" using that(2) by (auto simp: find_None_iff)
    then have "List.find (\<lambda>x. ur_email x = m) (xs @ [r]) = Some r" using that(1) by (induction xs) (auto split: if_splits)
    then show ?thesis by (simp add: token_of_def)
  qed
  show ?thesis
    using get_or_create_cases [OF assms(1)]
  proof (elim disjE conjE)
    assume "m \<notin> ur_email ` set (others tbl)" "fresh \<notin> ur_token ` set (others tbl)" "t = fresh"
      "tbl' = others tbl @ [\<lparr>ur_email = m, ur_token = fresh, unsubscribed_at = None\<rparr>]"
    then show ?thesis using assms(3) new [of "\<lparr>ur_email = m, ur_token = fresh, unsubscribed_at = None\<rparr>" "others tbl"]
      by (simp add: unsubscribes_ok_def)
  qed (use assms(2,3) in simp_all)
qed

definition marked :: "instant \<Rightarrow> string \<Rightarrow> unsubscribe_row list \<Rightarrow> unsubscribe_row list" where
  "marked now t tbl = map (\<lambda>r. if ur_token r = t \<and> unsubscribed_at r = None then r\<lparr>unsubscribed_at := Some now\<rparr> else r) tbl"

lemma mark_eq:
  "mark_unsubscribed (True, True) now t tbl = (Inr (t \<in> ur_token ` set tbl), marked now t tbl)"
proof -
  have ex: "list_ex (\<lambda>r. ur_token r = t) xs \<longleftrightarrow> t \<in> ur_token ` set xs" for xs
    unfolding list_ex_iff by blast
  have "map ur_token (marked now t tbl) = map ur_token tbl" by (simp add: marked_def)
  then have "ur_token ` set (marked now t tbl) = ur_token ` set tbl" by (metis set_map)
  moreover have "t \<in> ur_token ` set tbl" if "list_ex (\<lambda>r. ur_token r = t \<and> unsubscribed_at r = None) tbl"
    using that unfolding list_ex_iff by blast
  ultimately show ?thesis unfolding mark_unsubscribed_def marked_def [symmetric] Let_def ex by simp
qed

lemma marked_email:
  assumes "r \<in> set tbl" "unsubscribes_ok tbl"
  shows "is_unsubscribed True m (marked now (ur_token r) tbl) \<longleftrightarrow> is_unsubscribed True m tbl \<or> m = ur_email r"
proof -
  have key: "x = r" if "x \<in> set tbl" "ur_token x = ur_token r" for x
    using that assms unfolding unsubscribes_ok_def by (metis distinct_map inj_onD)
  let ?f = "\<lambda>x. if ur_token x = ur_token r \<and> unsubscribed_at x = None then x\<lparr>unsubscribed_at := Some now\<rparr> else x"
  have "ur_email (?f x) = m \<and> unsubscribed_at (?f x) \<noteq> None \<longleftrightarrow>
      ur_email x = m \<and> (unsubscribed_at x \<noteq> None \<or> ur_token x = ur_token r)" for x by auto
  then have "is_unsubscribed True m (marked now (ur_token r) tbl) \<longleftrightarrow>
      (\<exists>x \<in> set tbl. ur_email x = m \<and> (unsubscribed_at x \<noteq> None \<or> ur_token x = ur_token r))"
    unfolding is_unsubscribed_def marked_def list_ex_iff set_map by blast
  also have "\<dots> \<longleftrightarrow> (\<exists>x \<in> set tbl. ur_email x = m \<and> unsubscribed_at x \<noteq> None) \<or> (\<exists>x \<in> set tbl. ur_email x = m \<and> ur_token x = ur_token r)"
    by blast
  also have "(\<exists>x \<in> set tbl. ur_email x = m \<and> ur_token x = ur_token r) \<longleftrightarrow> m = ur_email r"
    using key assms(1) by metis
  finally show ?thesis unfolding is_unsubscribed_def list_ex_iff by simp
qed

section \<open>What the links can do\<close>

lemma hex_lower_no_dot: "CHR ''.'' \<notin> set (hex_lower s)"
proof -
  have d: "hex_digit n \<noteq> CHR ''.''" if "n < 16" for n
  proof -
    have "(of_char (hex_digit n) :: nat) = (if n < 10 then 48 + n else 87 + n)"
      using that by (simp add: hex_digit_def of_char_of)
    moreover have "(of_char (CHR ''.'') :: nat) = 46" by simp
    moreover have "(if n < 10 then 48 + n else 87 + n) \<noteq> 46" by simp
    ultimately show ?thesis by metis
  qed
  have "(of_char c :: nat) div 16 < 16" for c
    using nat_of_char_less_256 [of c] by (simp add: less_mult_imp_div_less)
  then have "CHR ''.'' \<notin> set [hex_digit (of_char c div 16), hex_digit (of_char c mod 16)]" for c
    using d [of "of_char c div 16"] d [of "of_char c mod 16"] by fastforce
  then show ?thesis unfolding hex_lower_def by (induction s) auto
qed

lemma stored_token_refused:
  "\<exists>e. verify_token K env now (generate_unsubscribe_token sha u v) expected over = Inl e"
  unfolding generate_unsubscribe_token_def by (rule without_dot_refused) (rule hex_lower_no_dot)

lemma signed_link_unsubscribes:
  assumes "token_crates_ok K" "issue_token K env issued (ur_token r) Unsubscribe ttl None = Inr t" "now \<le> issued + ttl"
    and "r \<in> set tbl" "unsubscribes_ok tbl"
  shows "unsubscribe K env now db_now (True, True) t tbl = (200, marked db_now (ur_token r) tbl)"
  using issued_token_verified [OF assms(1,2), of now "Some Unsubscribe" "\<lparr>tc_subject = ur_token r, tc_purpose = Unsubscribe, expires_at = issued + ttl\<rparr>"]
    assms(3,4) by (simp add: unsubscribe_def mark_eq)

text \<open>A bounce in the name of Amazon needs two headers and nothing else.\<close>

lemma record_bounces_count:
  "fst (record_bounces rec rs s n) \<le> n + length rs \<and> n \<le> fst (record_bounces rec rs s n)"
proof (induction rs arbitrary: s n)
  case (Cons r rs)
  show ?case using Cons.IH [of "the (rec r s)" "n + 1"] Cons.IH [of s n] by (cases "rec r s") auto
qed simp

lemma forged_accepted:
  assumes "header_str ''x-bounce-provider'' req = Some ''sns''" "header_str ''x-amz-sns-message-type'' req = Some ''Notification''"
    and "parse_body B bytes = Some payload"
  shows "email_bounce_webhook K env B req (Some bytes) s =
    (let rs = extract_bounced_recipients B payload; (n, s') = record_bounces (record_bounce B) rs s 0 in (Bounces (length rs) n, s'))"
proof -
  have "verify_sns_signature req = Inr ()" using assms(2) by (auto simp: sns_Inr)
  then have "verify_bounce_signature K env (bounce_provider req) req bytes None = Inr ()"
    using assms(1) by (simp add: verify_bounce_signature_def bounce_provider_def)
  then show ?thesis using assms(3) by (simp add: email_bounce_webhook_def)
qed

text \<open>With a shared secret, an accepted request carries the MAC of its own body.\<close>

lemma shared_secret_bounce:
  assumes "email_bounce_webhook K env B req (Some bytes) s = (Bounces n k, s')" "bounce_provider req = SharedSecret"
    and "\<not> signature_waived env"
  shows "\<exists>hx m secret. header_str ''x-bounce-signature'' req = Some (''sha256='' @ hx) \<and> hex_decode hx = Some m \<and>
    env ''EMAIL_TOKEN_SECRET'' = Some secret \<and> hmac K secret bytes = Inr m"
proof -
  have "verify_shared_secret_signature K env req bytes None = Inr ()"
    using assms by (auto simp: email_bounce_webhook_def verify_bounce_signature_def split: sum.splits)
  moreover have "resolve_secret env None = Inr x \<longleftrightarrow> env ''EMAIL_TOKEN_SECRET'' = Some x" for x
    by (simp add: resolve_secret_def split: option.split)
  ultimately show ?thesis unfolding shared_secret_Inr by auto
qed

text \<open>An opening is counted once, however often the pixel is fetched.\<close>

lemma verify_stable:
  "verify_token K env n1 raw ex1 over = Inr c \<Longrightarrow> verify_token K env n2 raw ex2 over = Inr c' \<Longrightarrow> c' = c"
  unfolding verify_token_split read_claims_Inr by (cases c, cases c') auto

lemma open_counted_once:
  assumes "verify_token K env now1 raw (Some Open) None = Inr c"
  shows "track_email_open K env now2 db2 ok2 raw (snd (track_email_open K env now1 db1 True raw st)) =
     (200, snd (track_email_open K env now1 db1 True raw st))"
proof (cases "verify_token K env now2 raw (Some Open) None")
  case (Inr c')
  then have c: "c' = c" using verify_stable [OF assms] by blast
  let ?rows = "map (\<lambda>r. if o_token r = tc_subject c \<and> opened_at r = None then r\<lparr>opened_at := Some db1\<rparr> else r) (fst st)"
  have no: "\<not> (o_token r = tc_subject c \<and> opened_at r = None)" if "r \<in> set ?rows" for r
    using that by (auto split: if_splits)
  then have "map (\<lambda>r. if o_token r = tc_subject c \<and> opened_at r = None then r\<lparr>opened_at := Some db2\<rparr> else r) ?rows = ?rows"
    by (intro map_idI) auto
  moreover have "\<not> list_ex (\<lambda>r. o_token r = tc_subject c \<and> opened_at r = None) ?rows"
    using no unfolding list_ex_iff by blast
  ultimately show ?thesis using Inr assms unfolding c track_email_open_def by (simp add: Let_def)
qed (simp add: track_email_open_def)

section \<open>Suppressing\<close>

text \<open>
  A request suppresses its target until the given time, for ever when the time is missing or unreadable,
  and no other target.
\<close>

lemma add_suppression_effect:
  assumes add: "add_suppression read_time fault fresh body tbl = (Inr i, tbl')"
    and t: "field_of ''target'' body = Some (JString target)" and k: "field_of ''target_type'' body = Some (JString kind)"
  shows "is_suppressed True now x y tbl' \<longleftrightarrow>
    (if x = target \<and> y = kind
     then (case Option.bind (Option.bind (field_of ''expires_at'' body) as_str) read_time of None \<Rightarrow> True | Some e \<Rightarrow> now < e)
     else is_suppressed True now x y tbl)"
proof -
  let ?hit = "\<lambda>r. s_target r = target \<and> s_target_type r = kind"
  let ?e = "Option.bind (Option.bind (field_of ''expires_at'' body) as_str) read_time"
  let ?r = "Option.bind (field_of ''reason'' body) as_str"
  let ?new = "\<lparr>s_id = fresh, s_target = target, s_target_type = kind, s_reason = ?r, s_expires_at = ?e\<rparr>"
  let ?upd = "\<lambda>r. if ?hit r then r\<lparr>s_reason := ?r, s_expires_at := ?e\<rparr> else r"
  let ?live = "\<lambda>r. case s_expires_at r of None \<Rightarrow> True | Some e \<Rightarrow> now < e"
  have step: "add_suppression read_time fault fresh body tbl = (case List.find ?hit tbl of
      Some r \<Rightarrow> (Inr (s_id r), map ?upd tbl) | None \<Rightarrow> (Inr fresh, tbl @ [?new]))"
  proof -
    have "kind = ''email'' \<or> kind = ''webhook''" "fault = None"
      using add t k by (auto simp: add_suppression_def split: if_splits)
    then show ?thesis unfolding add_suppression_def t k Let_def by auto
  qed
  consider r where "List.find ?hit tbl = Some r" "tbl' = map ?upd tbl" | "List.find ?hit tbl = None" "tbl' = tbl @ [?new]"
    using add unfolding step by (cases "List.find ?hit tbl") auto
  then show ?thesis
  proof cases
    case 1
    have upd: "s_target (?upd r) = x \<and> s_target_type (?upd r) = y \<and> ?live (?upd r) \<longleftrightarrow>
        s_target r = x \<and> s_target_type r = y \<and>
        (if x = target \<and> y = kind then (case ?e of None \<Rightarrow> True | Some e \<Rightarrow> now < e) else ?live r)" for r
      by auto
    have "is_suppressed True now x y tbl' \<longleftrightarrow> (\<exists>r \<in> set tbl. s_target r = x \<and> s_target_type r = y \<and>
        (if x = target \<and> y = kind then (case ?e of None \<Rightarrow> True | Some e \<Rightarrow> now < e) else ?live r))"
      unfolding 1(2) is_suppressed_def list_ex_iff set_map bex_simps(7) simp_thms by (intro bex_cong refl upd)
    moreover have "\<exists>r \<in> set tbl. ?hit r" using 1(1) by (auto simp: find_Some_iff)
    ultimately have "is_suppressed True now x y tbl' \<longleftrightarrow>
        (if x = target \<and> y = kind then (case ?e of None \<Rightarrow> True | Some e \<Rightarrow> now < e)
         else \<exists>r \<in> set tbl. s_target r = x \<and> s_target_type r = y \<and> ?live r)"
      by (cases "x = target \<and> y = kind") (simp only: if_True if_False simp_thms bex_simps conj_assoc [symmetric])+
    then show ?thesis unfolding is_suppressed_def list_ex_iff simp_thms .
  next
    case 2
    have "\<not> ?hit r" if "r \<in> set tbl" for r using 2(1) that unfolding find_None_iff by blast
    then show ?thesis unfolding 2(2) is_suppressed_def list_ex_iff by auto
  qed
qed

lemma removed_not_suppressed:
  assumes "remove_suppression fault i tbl = (Inr target, tbl')" "distinct (map (\<lambda>r. (s_target r, s_target_type r)) tbl)" "distinct (map s_id tbl)"
  shows "\<exists>kind. \<not> is_suppressed ok now target kind tbl' \<and>
    (\<forall>x y. (x, y) \<noteq> (target, kind) \<longrightarrow> is_suppressed ok now x y tbl' = is_suppressed ok now x y tbl)"
proof -
  obtain r where r: "r \<in> set tbl" "s_id r = i" "target = s_target r" "tbl' = filter (\<lambda>r. s_id r \<noteq> i) tbl"
    using assms(1) unfolding remove_suppression_def
    by (auto simp: find_Some_iff in_set_conv_nth split: if_splits option.splits)
  have id: "x = r" if "x \<in> set tbl" "s_id x = i" for x
    using that r(1,2) assms(3) by (metis distinct_map inj_onD)
  have key: "x = r" if "x \<in> set tbl" "s_target x = s_target r" "s_target_type x = s_target_type r" for x
  proof -
    have "inj_on (\<lambda>r. (s_target r, s_target_type r)) (set tbl)" using assms(2) by (simp add: distinct_map)
    then show ?thesis using that r(1) by (simp add: inj_on_def)
  qed
  have set': "set tbl' = set tbl - {r}" using id r(2) unfolding r(4) by auto
  have "\<not> is_suppressed ok now target (s_target_type r) tbl'"
    unfolding is_suppressed_def list_ex_iff set' r(3) using key by blast
  moreover have "is_suppressed ok now x y tbl' = is_suppressed ok now x y tbl" if "(x, y) \<noteq> (target, s_target_type r)" for x y
    using that unfolding is_suppressed_def list_ex_iff set' r(3) by auto
  ultimately show ?thesis by blast
qed

section \<open>Properties\<close>






text \<open>
  C25. The unsubscribe token that the service generates and stores for a recipient is refused by the endpoint
  of the unsubscribe link, in every configuration and at every time: the answer is 404 and nobody is
  unsubscribed. The endpoint wants a signed token, and no code of the service issues one.
\<close>

theorem stored_token_never_unsubscribes:
  "unsubscribe K env now db_now ok (generate_unsubscribe_token sha256 u v) tbl = (404, tbl)"
  using stored_token_refused [of K env now sha256 u v "Some Unsubscribe" None] by (auto simp: unsubscribe_def)

text \<open>
  C26. A bounce that names Amazon as its provider is processed without any signature: two plain headers are
  enough, for every body, whatever the secret of the service is and even when it has none.
\<close>

theorem forged_bounce_accepted:
  assumes "header_str ''x-bounce-provider'' req = Some ''sns''" "header_str ''x-amz-sns-message-type'' req = Some ''Notification''"
    and "parse_body B bytes = Some payload"
  shows "\<exists>n s'. email_bounce_webhook K env B req (Some bytes) s = (Bounces (length (extract_bounced_recipients B payload)) n, s') \<and>
    record_bounces (record_bounce B) (extract_bounced_recipients B payload) s 0 = (n, s')"
  unfolding forged_accepted [OF assms] by (simp add: Let_def case_prod_unfold)

theorem forged_bounce_accepted_witness:
  "let B = \<lparr>parse_body = \<lambda>b. Some (JString b), extract_bounced_recipients = \<lambda>_. [''victim''], record_bounce = \<lambda>r s. Some (r # s)\<rparr>;
       req = \<lparr>r_method = ''POST'', r_path = ''/v1/notifications/email/bounce'',
         headers = [(''x-bounce-provider'', ''sns''), (''x-amz-sns-message-type'', ''Notification'')],
         ext_principal = None, ext_tenant = None, ext_scoped = None\<rparr>;
       K = \<lparr>url_encode = id, url_decode = Some, hmac = \<lambda>s m. Inr (s @ m), to_vec = \<lambda>_. Inl [], from_slice = \<lambda>_. None\<rparr> in
   \<exists>n s'. email_bounce_webhook K Map.empty B req (Some ''forged'') [] =
       (Bounces (length (extract_bounced_recipients B (JString ''forged''))) n, s') \<and>
     record_bounces (record_bounce B) (extract_bounced_recipients B (JString ''forged'')) [] 0 = (n, s')"
  unfolding Let_def by (rule forged_bounce_accepted) (simp_all add: header_str_def)

end
