(* ===== verification/Spec2Isabelle.thy ===== *)
theory Spec2Isabelle
  imports Toid Sse_Ring_Buffer Circuit_Breaker Cursor_Expiry Retry_Policy Webhook_Priority
    Filter_Dsl Outbound Rpc_Endpoints Indexer
    Event_Router Rate_Limiter Webhook_Delivery Backfill
    Api_Keys Zero_Trust Access_Control Idempotency Notification_Batching Feature_Flags
    Graceful_Shutdown App_Error Keyset_Paging Event_Query Event_Listing Event_Pages Token_Events
    Json_Access Secret_Store Key_Rotation Webhook_Signing Subscriptions Event_Stream Event_Lookup Event_Export Event_Admin Advisory_Lock Contract_Tracking Email_Token Email_Notifier
begin

text \<open>
  SorobanPulse indexes contract events of the Stellar network: an indexer polls a Soroban RPC server
  (or reads a data lake), stores the events in Postgres and hands them to subscribers over server-sent
  events, webhooks, queues and notification channels, behind an HTTP API. This development models the
  parts of the Rust service (\<open>src/\<close>) that decide what is stored, what is delivered, who is admitted and
  what happens when something fails, and proves that they do it.

  Conventions. A struct is a \<open>record\<close>, an enum a \<open>datatype\<close>, a machine integer a word (\<open>u8\<close> to \<open>u64\<close>)
  or, for signed ones and \<open>usize\<close>, an \<open>int\<close> or \<open>nat\<close> with the range written out; a string is its UTF-8
  bytes. A \<open>Result\<close> is a sum with the error left; state is passed explicitly; a clock reading, a random
  value, an environment variable and the outcome of an I/O operation are arguments. Crates that are not
  in the repository (hashes, ciphers, the Bloom filter, the XDR codec, URL and time parsers, SQL, HTTP)
  are parameters; what is used of a table is modelled by the statements that use it. Field and variable
  names follow the source, with a prefix where they clash.

  Theories, in the order events travel.

  \<^item> \<open>Prelude\<close> (standard library: integers, strings, parsing and printing), \<open>F64\<close> (finite doubles),
    \<open>Net_Addr\<close> (addresses, URLs, environment), \<open>Bounded_Log\<close> (the contract of a log that drops its oldest
    entry, used by the replay buffer, the latency window and the access log).
  \<^item> \<open>Event_Model\<close> (\<open>models/event.rs\<close>), \<open>Toid\<close> (\<open>toid.rs\<close>), \<open>Xdr_Validation\<close> (\<open>xdr_validation.rs\<close>,
    \<open>scval_format.rs\<close>): events, their ids and order, validation and rendering of their data.
  \<^item> \<open>Rpc_Endpoints\<close> (\<open>rpc_endpoints.rs\<close>), \<open>Cursor_Expiry\<close> (\<open>cursor_expiry_handler.rs\<close>), \<open>Bloom\<close>
    (\<open>bloom_filter.rs\<close>), \<open>Event_Store\<close> (the events table, \<open>dedup.rs\<close>, \<open>notification_dedup.rs\<close>), \<open>Indexer\<close>
    (\<open>indexer.rs\<close>): the poll cycle from an RPC page to a committed transaction. The cycle calls the cursor
    backoff, both filters and the table; its lemmas show that pages are atomic, that nothing acceptable is
    lost, that stored rows passed every check, and that errors never move it back.
  \<^item> \<open>Backfill\<close> (\<open>backfill.rs\<close>): the same events from ledger archives, with resumable ranges.
  \<^item> \<open>Sse_Ring_Buffer\<close> (\<open>sse_ring_buffer.rs\<close>), \<open>Event_Router\<close> (\<open>event_router.rs\<close>), \<open>Webhook_Priority\<close>
    (\<open>webhook_priority.rs\<close>), \<open>Webhook_Delivery\<close> (\<open>webhook.rs\<close>), \<open>Retry_Policy\<close> (\<open>retry_policy.rs\<close>),
    \<open>Circuit_Breaker\<close> (\<open>webhook_circuit_breaker.rs\<close>), \<open>Notification_Batching\<close> (\<open>notification_batching.rs\<close>):
    delivery. Their lemmas account for every event: it is delivered, queued, dead-lettered or dropped as a
    duplicate, in order, within stated attempt and size limits.
  \<^item> \<open>Filter_Dsl\<close> (\<open>filter_dsl.rs\<close>), \<open>Outbound\<close> (\<open>net/outbound.rs\<close>, \<open>subscriptions.rs\<close>), \<open>Rate_Limiter\<close>
    (\<open>rate_limiter.rs\<close>, \<open>subscriptions.rs\<close>), \<open>Api_Keys\<close> (\<open>api_keys.rs\<close>), \<open>Zero_Trust\<close> (\<open>zero_trust.rs\<close>),
    \<open>Access_Control\<close> (\<open>middleware/auth.rs\<close>, \<open>middleware/ip_access.rs\<close> and the layer order of \<open>routes.rs\<close>),
    \<open>Idempotency\<close> (\<open>idempotency.rs\<close>), \<open>Feature_Flags\<close> (\<open>feature_flags.rs\<close>): what callers may do. Their lemmas
    show that queries carry values as parameters only, that no URL reaches an internal address, that quotas
    hold under interleaving, and which requests the access layers refuse.
  \<^item> \<open>Graceful_Shutdown\<close> (\<open>graceful_shutdown.rs\<close>): request tracking as concurrent atomic steps, draining and
    degradation.
  \<^item> \<open>App_Error\<close> (\<open>error.rs\<close>), \<open>Keyset_Paging\<close> (cursors and the two page forms), \<open>Event_Query\<close> (the statements
    the list handlers build), \<open>Event_Listing\<close> and \<open>Event_Pages\<close> (\<open>get_events\<close> and \<open>get_recent_events\<close> of
    \<open>handlers/events.rs\<close>): what a client of the lists sees. Every condition is evaluated with the placeholder
    numbers of its text, so that the lemmas show that numbers and bound values agree, and which requests fail
    because they do not; following the cursors yields every matching row once.
  \<^item> \<open>Token_Events\<close> (\<open>token_events.rs\<close>, \<open>sep41.rs\<close>, \<open>account_events.rs\<close>): decoding of token events, the
    backfill scans with their tables, and three more lists over the same contract.
  \<^item> \<open>Secret_Store\<close> (\<open>encryption.rs\<close>, \<open>integration_secrets.rs\<close>), \<open>Key_Rotation\<close> (\<open>reencrypt.rs\<close>) and
    \<open>Webhook_Signing\<close> (\<open>webhook_signing.rs\<close>, \<open>webhook_verification.rs\<close>, \<open>hmac_util.rs\<close>): sealed values, their
    rotation to a new key in batches that can be resumed, and signatures a receiver accepts. Ciphers and digests
    are parameters with their laws as hypotheses, and an instance shows that the laws can hold.
  \<^item> \<open>Json_Access\<close>: access to JSON values, shared. \<open>Subscriptions\<close> (\<open>subscriptions.rs\<close>): the subscription tables,
    the delivery worker and the mail worker as functions of the tables and of the answers of the world.
  \<^item> \<open>Event_Stream\<close> (the SSE and web socket endpoints of \<open>handlers/events.rs\<close>): what a client that reconnects receives,
    as the frames of a replay followed by the live frames, and what the connection counters count.
  \<^item> \<open>Event_Lookup\<close> (the lookups of \<open>handlers/events.rs\<close>): by contract, transaction, references and ledger
    hash, and the difference of two ledgers; which events each answers with.
  \<^item> \<open>Event_Export\<close> (the exports, the Atom feed and the batch query of \<open>handlers/events.rs\<close>): readers of CSV and of
    XML text, against which the written documents are checked, and the age of a cached feed.
  \<^item> \<open>Event_Admin\<close> (the handlers of \<open>handlers/events.rs\<close> that change stored events): bulk insertion, anonymization,
    erasure, masking and the replay job, as functions of the table; what of an event stays or comes back.
  \<^item> \<open>Advisory_Lock\<close> (\<open>advisory_lock.rs\<close>): leader election; a step relation of many sessions gives mutual exclusion.
  \<^item> \<open>Contract_Tracking\<close> (\<open>contract_tracker.rs\<close>, \<open>contract_versions.rs\<close>, \<open>ledger_hashes.rs\<close>): deployments and
    upgrades, whose upserts agree in any order when each has a hash, histories of versions, and the hash chain.
  \<^item> \<open>Email_Token\<close> (\<open>email_token.rs\<close>) and \<open>Email_Notifier\<close> (\<open>email.rs\<close> and the public mail endpoints of
    \<open>handlers/mod.rs\<close>): signed tokens, what each endpoint does with them, and the loop that batches events
    under a schedule with quiet hours.
  Interfaces. \<open>bounded_log\<close> is interpreted by every log of the program, \<open>window_limiter\<close> by the sliding
  windows of \<open>Rate_Limiter\<close>, \<open>idempotency_store\<close> (the trait of \<open>idempotency.rs\<close>) by the in-memory and the
  Postgres store, \<open>keyset\<close> by every cursor-paged list; the properties of their clients are proved once in the locale.

  Bounds and fuel. Loops that wait for a reply or a clock take the replies as a list and return nothing when
  it runs out; a theorem that such a loop returns states how many suffice (six expiry errors for the cursor
  fallback, timeout / 100 ms + 2 readings for the drain loop). Other loops are structural or have a measure:
  the digit carry of \<open>Api_Keys\<close> has fuel at least its value, the depth guard of \<open>Xdr_Validation\<close> terminates on
  the size of the JSON. Theorems about counters assume fewer steps than the counter's width where the code
  would wrap.

  Not modelled: the handlers outside the lists above, which map an HTTP request to a query and JSON back
  (\<open>handlers/\<close>, most of \<open>routes.rs\<close>), configuration parsing, metric names and tracing, the cloud, chat and push
  clients and the sending of mail itself (pure I/O over vendor SDKs), partitions and archives (statements on the
  database catalogue and uploads), query caches and statistics, compliance reports, code generators, the GraphQL
  schema, the dashboards and the language SDKs.
\<close>

end
